(* ===== verification/Prelude.thy ===== *)
theory Prelude
  imports Main "HOL-Library.Word"
begin

text \<open>
  Shared vocabulary of the development: the machine types of the storage layer, the unsigned
  truncations that C++ performs when a wider value is stored in a narrow field, byte buffers as
  functions from offsets to bytes, and the big-endian integer codec that the page format and the
  HNSW records use. The lemmas on overwriting and reading a buffer carry the frame arguments of
  every component: two accesses at disjoint offsets do not interfere.
\<close>

unbundle bit_operations_syntax

type_synonym byte = "8 word"
type_synonym page_ref = "32 word"
type_synonym space_ref = "32 word"
type_synonym trx_ref = "64 word"
type_synonym column_ref = "64 word"
type_synonym buffer = "nat \<Rightarrow> byte"

named_theorems layout_defs \<open>constant offsets and sizes of the page formats\<close>

definition u8 :: "nat \<Rightarrow> nat" where
  "u8 n = n mod 2 ^ 8"

definition u16 :: "nat \<Rightarrow> nat" where
  "u16 n = n mod 2 ^ 16"

definition u32 :: "nat \<Rightarrow> nat" where
  "u32 n = n mod 2 ^ 32"

text \<open>Subtraction of 32-bit unsigned integers wraps around.\<close>

definition sub32 :: "nat \<Rightarrow> nat \<Rightarrow> nat" where
  "sub32 a b = (a + 2 ^ 32 - b) mod 2 ^ 32"

lemma sub32_id [simp]: "b \<le> a \<Longrightarrow> a < 4294967296 \<Longrightarrow> sub32 a b = a - b"
  by (simp add: sub32_def mod_if)

lemma u8_id [simp]: "n < 256 \<Longrightarrow> u8 n = n"
  by (simp add: u8_def)

lemma u16_id [simp]: "n < 65536 \<Longrightarrow> u16 n = n"
  by (simp add: u16_def)

lemma u32_id [simp]: "n < 4294967296 \<Longrightarrow> u32 n = n"
  by (simp add: u32_def)

lemma u8_less [simp]: "u8 n < 256"
  by (simp add: u8_def)

lemma u16_less [simp]: "u16 n < 65536"
  by (simp add: u16_def)

lemma u32_less [simp]: "u32 n < 4294967296"
  by (simp add: u32_def)

lemma u16_le: "u16 n \<le> n"
  by (simp add: u16_def)

subsection \<open>Byte buffers\<close>

definition overwrite :: "buffer \<Rightarrow> nat \<Rightarrow> byte list \<Rightarrow> buffer" where
  "overwrite f off bs = (\<lambda>i. if off \<le> i \<and> i < off + length bs then bs ! (i - off) else f i)"

definition slice :: "buffer \<Rightarrow> nat \<Rightarrow> nat \<Rightarrow> byte list" where
  "slice f off n = map (\<lambda>i. f (off + i)) [0..<n]"

text \<open>Two byte ranges, given by offset and length, do not meet.\<close>

definition disj_ranges :: "nat \<Rightarrow> nat \<Rightarrow> nat \<Rightarrow> nat \<Rightarrow> bool" where
  "disj_ranges a n b m \<longleftrightarrow> a + n \<le> b \<or> b + m \<le> a"

lemma length_slice [simp]: "length (slice f off n) = n"
  by (simp add: slice_def)

lemma nth_slice [simp]: "i < n \<Longrightarrow> slice f off n ! i = f (off + i)"
  by (simp add: slice_def)

lemma overwrite_in: "off \<le> i \<Longrightarrow> i < off + length bs \<Longrightarrow> overwrite f off bs i = bs ! (i - off)"
  by (simp add: overwrite_def)

lemma overwrite_out: "i < off \<or> off + length bs \<le> i \<Longrightarrow> overwrite f off bs i = f i"
  by (auto simp: overwrite_def)

lemma overwrite_Nil [simp]: "overwrite f off [] = f"
  by (rule ext) (auto simp: overwrite_def)

lemma slice_overwrite_same [simp]: "n = length bs \<Longrightarrow> slice (overwrite f off bs) off n = bs"
  by (auto simp: overwrite_in intro!: nth_equalityI)

lemma slice_overwrite_disj:
  "disj_ranges off (length bs) o' n \<Longrightarrow> slice (overwrite f off bs) o' n = slice f o' n"
  by (auto simp: overwrite_def disj_ranges_def intro!: nth_equalityI)

lemma slice_cong: "(\<And>i. off \<le> i \<Longrightarrow> i < off + n \<Longrightarrow> f i = g i) \<Longrightarrow> slice f off n = slice g off n"
  by (auto intro!: nth_equalityI)

lemma slice_append: "slice f off (n + m) = slice f off n @ slice f (off + n) m"
  by (auto simp: nth_append intro!: nth_equalityI)

lemma slice_slice_drop: "drop k (slice f off n) = slice f (off + k) (n - k)"
  by (auto intro!: nth_equalityI simp: add.assoc)

lemma overwrite_append:
  "overwrite (overwrite f off bs) (off + length bs) cs = overwrite f off (bs @ cs)"
  by (auto simp: overwrite_def nth_append fun_eq_iff)

subsection \<open>Big-endian integers in a buffer\<close>

definition be_value :: "byte list \<Rightarrow> nat" where
  "be_value bs = foldl (\<lambda>v b. v * 256 + unat b) 0 bs"

fun be_bytes :: "nat \<Rightarrow> nat \<Rightarrow> byte list" where
  "be_bytes 0 v = []"
| "be_bytes (Suc n) v = be_bytes n (v div 256) @ [word_of_nat (v mod 256)]"

definition be_read :: "buffer \<Rightarrow> nat \<Rightarrow> nat \<Rightarrow> nat" where
  "be_read f off n = be_value (slice f off n)"

lemma length_be_bytes [simp]: "length (be_bytes n v) = n"
  by (induction n arbitrary: v) auto

lemma be_value_snoc [simp]: "be_value (bs @ [b]) = be_value bs * 256 + unat b"
  by (simp add: be_value_def)

lemma be_value_Nil [simp]: "be_value [] = 0"
  by (simp add: be_value_def)

lemma be_value_bytes: "be_value (be_bytes n v) = v mod 256 ^ n"
proof (induction n arbitrary: v)
  case 0
  then show ?case by simp
next
  case (Suc n)
  have "unat (word_of_nat (v mod 256) :: byte) = v mod 256"
    by (simp add: unat_of_nat)
  with Suc show ?case
    by (simp add: mod_mult2_eq mult.commute add.commute)
qed

lemma unat_byte_less [simp]: "unat (b :: byte) < 256"
  using unsigned_less [of b, where ?'a = nat] by simp

lemma unat_16_less [simp]: "unat (h :: 16 word) < 65536"
  using unsigned_less [of h, where ?'a = nat] by simp

lemma unat_32_less [simp]: "unat (w :: 32 word) < 4294967296"
  using unsigned_less [of w, where ?'a = nat] by simp

lemma unat_64_less [simp]: "unat (q :: 64 word) < 18446744073709551616"
  using unsigned_less [of q, where ?'a = nat] by simp

lemma be_value_less: "be_value bs < 256 ^ length bs"
proof (induction bs rule: rev_induct)
  case Nil
  then show ?case by simp
next
  case (snoc b bs)
  have "unat b < 256" by simp
  moreover from snoc have "be_value bs * 256 + 256 \<le> 256 * 256 ^ length bs" by simp
  ultimately have "be_value bs * 256 + unat b < 256 * 256 ^ length bs" by linarith
  then show ?case by simp
qed

lemma be_bytes_value: "be_bytes (length bs) (be_value bs) = bs"
proof (induction bs rule: rev_induct)
  case Nil
  then show ?case by simp
next
  case (snoc b bs)
  have "unat b < 256" by simp
  with snoc show ?case by simp
qed

lemma be_read_less: "be_read f off n < 256 ^ n"
  using be_value_less [of "slice f off n"] by (simp add: be_read_def)

lemma be_read_overwrite_same: "be_read (overwrite f off (be_bytes n v)) off n = v mod 256 ^ n"
  by (simp add: be_read_def be_value_bytes)

lemma be_read_overwrite_disj:
  "disj_ranges off (length bs) o' n \<Longrightarrow> be_read (overwrite f off bs) o' n = be_read f o' n"
  by (simp add: be_read_def slice_overwrite_disj)

lemma be_read_1 [simp]: "be_read f off (Suc 0) = unat (f off)"
  by (simp add: be_read_def be_value_def slice_def)

subsection \<open>Counting over index ranges\<close>

definition count_below :: "nat \<Rightarrow> (nat \<Rightarrow> bool) \<Rightarrow> nat" where
  "count_below n Q = length (filter Q [0..<n])"

lemma count_below_0 [simp]: "count_below 0 Q = 0"
  by (simp add: count_below_def)

lemma count_below_Suc [simp]: "count_below (Suc n) Q = count_below n Q + (if Q n then 1 else 0)"
  by (simp add: count_below_def)

lemma count_below_le: "count_below n Q \<le> n"
  by (induction n) auto

lemma count_below_cong: "(\<And>i. i < n \<Longrightarrow> Q i = R i) \<Longrightarrow> count_below n Q = count_below n R"
  by (induction n) auto

lemma count_below_all: "(\<And>i. i < n \<Longrightarrow> Q i) \<Longrightarrow> count_below n Q = n"
  by (induction n) auto

lemma count_below_pos: "0 < count_below n Q \<longleftrightarrow> (\<exists>i<n. Q i)"
  by (induction n) (auto simp: less_Suc_eq)

lemma count_below_clear:
  "k < n \<Longrightarrow> Q k \<Longrightarrow> \<not> R k \<Longrightarrow> (\<And>i. i < n \<Longrightarrow> i \<noteq> k \<Longrightarrow> Q i = R i)
   \<Longrightarrow> count_below n Q = Suc (count_below n R)"
proof (induction n)
  case 0
  then show ?case by simp
next
  case (Suc n)
  show ?case
  proof (cases "k = n")
    case True
    with Suc.prems have "count_below n Q = count_below n R"
      by (intro count_below_cong) auto
    with True Suc.prems show ?thesis by simp
  next
    case False
    with Suc show ?thesis by auto
  qed
qed

end
