(* ===== verification/Page_Api.thy ===== *)
theory Page_Api
  imports Prelude
begin

text \<open>
  The storage API of the server (\<^verbatim>\<open>villagesql/preview/storage_api.h\<close>) is not part of the
  repository. It enters the model as a parameter: a record of page operations, together with the
  environment of one tablespace (its pages, the latches the mini-transaction holds, the page numbers
  the segment manager will hand out, and the outcome of every API call that can fail). What the code
  relies on is the locale \<open>page_api\<close>: integers are stored big-endian, an access touches only
  its own bytes, the list links are the two header fields at offsets 8 and 12, and a new page is
  zero filled past its header. The repository's own in-memory stand-in for that API, the class
  \<^verbatim>\<open>FakeStorage\<close> of \<^verbatim>\<open>unittest/storage_test.cc\<close>, is the instance.

  Storage code runs in the monad \<open>op\<close>: a function from the environment to the new environment
  and either an error or a value. An error keeps the pages written so far, because page writes
  under a mini-transaction cannot be undone.
\<close>

definition HEADER_SIZE :: nat where [layout_defs]: "HEADER_SIZE = 38"
definition TRAILER_SIZE :: nat where [layout_defs]: "TRAILER_SIZE = 8"
definition NUM_SEGMENTS_SIZE :: nat where [layout_defs]: "NUM_SEGMENTS_SIZE = 1"
definition SEGMENT_HEADER_SIZE :: nat where [layout_defs]: "SEGMENT_HEADER_SIZE = 10"
definition INVALID_REF :: page_ref where "INVALID_REF = 0xFFFFFFFF"

definition FIL_PAGE_PREV :: nat where [layout_defs]: "FIL_PAGE_PREV = 8"
definition FIL_PAGE_NEXT :: nat where [layout_defs]: "FIL_PAGE_NEXT = 12"

record 'p page_api =
  get_size :: nat
  get_data :: "'p \<Rightarrow> buffer"
  read_integer_1 :: "'p \<Rightarrow> nat \<Rightarrow> 8 word"
  read_integer_2 :: "'p \<Rightarrow> nat \<Rightarrow> 16 word"
  read_integer_4 :: "'p \<Rightarrow> nat \<Rightarrow> 32 word"
  read_integer_8 :: "'p \<Rightarrow> nat \<Rightarrow> 64 word"
  write_integer_1 :: "'p \<Rightarrow> nat \<Rightarrow> 8 word \<Rightarrow> 'p"
  write_integer_2 :: "'p \<Rightarrow> nat \<Rightarrow> 16 word \<Rightarrow> 'p"
  write_integer_4 :: "'p \<Rightarrow> nat \<Rightarrow> 32 word \<Rightarrow> 'p"
  write_integer_8 :: "'p \<Rightarrow> nat \<Rightarrow> 64 word \<Rightarrow> 'p"
  write_string :: "'p \<Rightarrow> nat \<Rightarrow> byte list \<Rightarrow> 'p"
  read_prev_link :: "'p \<Rightarrow> page_ref"
  read_next_link :: "'p \<Rightarrow> page_ref"
  write_prev_link :: "'p \<Rightarrow> page_ref \<Rightarrow> 'p"
  write_next_link :: "'p \<Rightarrow> page_ref \<Rightarrow> 'p"
  new_page :: 'p
  segment_root :: "nat \<Rightarrow> 'p"

locale page_api =
  fixes P :: "'p page_api"
  assumes read_1: "read_integer_1 P pg off = word_of_nat (be_read (get_data P pg) off 1)"
    and read_2: "read_integer_2 P pg off = word_of_nat (be_read (get_data P pg) off 2)"
    and read_4: "read_integer_4 P pg off = word_of_nat (be_read (get_data P pg) off 4)"
    and read_8: "read_integer_8 P pg off = word_of_nat (be_read (get_data P pg) off 8)"
    and data_write_1: "get_data P (write_integer_1 P pg off b) = overwrite (get_data P pg) off (be_bytes 1 (unat b))"
    and data_write_2: "get_data P (write_integer_2 P pg off h) = overwrite (get_data P pg) off (be_bytes 2 (unat h))"
    and data_write_4: "get_data P (write_integer_4 P pg off w) = overwrite (get_data P pg) off (be_bytes 4 (unat w))"
    and data_write_8: "get_data P (write_integer_8 P pg off q) = overwrite (get_data P pg) off (be_bytes 8 (unat q))"
    and data_write_string: "get_data P (write_string P pg off bs) = overwrite (get_data P pg) off bs"
    and prev_link: "read_prev_link P pg = word_of_nat (be_read (get_data P pg) FIL_PAGE_PREV 4)"
    and next_link: "read_next_link P pg = word_of_nat (be_read (get_data P pg) FIL_PAGE_NEXT 4)"
    and data_prev_link: "get_data P (write_prev_link P pg w) = overwrite (get_data P pg) FIL_PAGE_PREV (be_bytes 4 (unat w))"
    and data_next_link: "get_data P (write_next_link P pg w) = overwrite (get_data P pg) FIL_PAGE_NEXT (be_bytes 4 (unat w))"
    and new_page_zero: "HEADER_SIZE \<le> i \<Longrightarrow> get_data P (new_page P) i = 0"
    and segment_root_count: "n < 256 \<Longrightarrow> get_data P (segment_root P n) HEADER_SIZE = word_of_nat n"
    and segment_root_zero: "HEADER_SIZE + NUM_SEGMENTS_SIZE + SEGMENT_HEADER_SIZE * n \<le> i \<Longrightarrow>
      get_data P (segment_root P n) i = 0"
begin

lemmas data_writes = data_write_1 data_write_2 data_write_4 data_write_8 data_write_string
  data_prev_link data_next_link

lemmas data_reads = read_1 read_2 read_4 read_8 prev_link next_link

lemma read_1_byte: "read_integer_1 P pg off = get_data P pg off"
  by (simp add: read_1)

lemma read_write_1 [simp]: "read_integer_1 P (write_integer_1 P pg off b) off = b"
  by (simp add: read_1_byte data_writes overwrite_in)

lemma read_write_2 [simp]: "read_integer_2 P (write_integer_2 P pg off h) off = h"
  by (simp add: read_2 data_writes be_read_overwrite_same)

lemma read_write_4 [simp]: "read_integer_4 P (write_integer_4 P pg off w) off = w"
  by (simp add: read_4 data_writes be_read_overwrite_same)

lemma read_write_8 [simp]: "read_integer_8 P (write_integer_8 P pg off q) off = q"
  by (simp add: read_8 data_writes be_read_overwrite_same)

lemma slice_write_string [simp]:
  "n = length bs \<Longrightarrow> slice (get_data P (write_string P pg off bs)) off n = bs"
  by (simp add: data_writes)

lemma read_frames:
  "a + 1 \<le> b \<or> b + 4 \<le> a \<Longrightarrow> read_integer_4 P (write_integer_1 P pg a x1) b = read_integer_4 P pg b"
  "a + 2 \<le> b \<or> b + 4 \<le> a \<Longrightarrow> read_integer_4 P (write_integer_2 P pg a x2) b = read_integer_4 P pg b"
  "a + 4 \<le> b \<or> b + 4 \<le> a \<Longrightarrow> read_integer_4 P (write_integer_4 P pg a x4) b = read_integer_4 P pg b"
  "a + length bs \<le> b \<or> b + 4 \<le> a \<Longrightarrow> read_integer_4 P (write_string P pg a bs) b = read_integer_4 P pg b"
  "a + 1 \<le> b \<or> b + 2 \<le> a \<Longrightarrow> read_integer_2 P (write_integer_1 P pg a x1) b = read_integer_2 P pg b"
  "a + 2 \<le> b \<or> b + 2 \<le> a \<Longrightarrow> read_integer_2 P (write_integer_2 P pg a x2) b = read_integer_2 P pg b"
  "a + 4 \<le> b \<or> b + 2 \<le> a \<Longrightarrow> read_integer_2 P (write_integer_4 P pg a x4) b = read_integer_2 P pg b"
  "a + length bs \<le> b \<or> b + 2 \<le> a \<Longrightarrow> read_integer_2 P (write_string P pg a bs) b = read_integer_2 P pg b"
  "a + 1 \<le> b \<or> b + 1 \<le> a \<Longrightarrow> read_integer_1 P (write_integer_1 P pg a x1) b = read_integer_1 P pg b"
  "a + 2 \<le> b \<or> b + 1 \<le> a \<Longrightarrow> read_integer_1 P (write_integer_2 P pg a x2) b = read_integer_1 P pg b"
  "a + 4 \<le> b \<or> b + 1 \<le> a \<Longrightarrow> read_integer_1 P (write_integer_4 P pg a x4) b = read_integer_1 P pg b"
  "a + length bs \<le> b \<or> b + 1 \<le> a \<Longrightarrow> read_integer_1 P (write_string P pg a bs) b = read_integer_1 P pg b"
  by (simp_all add: read_1 read_2 read_4 data_writes be_read_overwrite_disj disj_ranges_def del: be_read_1)

lemma link_frames:
  "16 \<le> b \<Longrightarrow> read_integer_4 P (write_prev_link P pg r) b = read_integer_4 P pg b"
  "16 \<le> b \<Longrightarrow> read_integer_4 P (write_next_link P pg r) b = read_integer_4 P pg b"
  "16 \<le> b \<Longrightarrow> read_integer_2 P (write_prev_link P pg r) b = read_integer_2 P pg b"
  "16 \<le> b \<Longrightarrow> read_integer_2 P (write_next_link P pg r) b = read_integer_2 P pg b"
  "16 \<le> a \<Longrightarrow> read_prev_link P (write_integer_4 P pg a x4) = read_prev_link P pg"
  "16 \<le> a \<Longrightarrow> read_next_link P (write_integer_4 P pg a x4) = read_next_link P pg"
  "16 \<le> a \<Longrightarrow> read_prev_link P (write_integer_2 P pg a x2) = read_prev_link P pg"
  "16 \<le> a \<Longrightarrow> read_next_link P (write_integer_2 P pg a x2) = read_next_link P pg"
  by (simp_all add: read_2 read_4 prev_link next_link data_writes be_read_overwrite_disj disj_ranges_def
      layout_defs)

end

subsection \<open>The environment of a tablespace and the storage monad\<close>

datatype latch = SHARED | EXCLUSIVE

text \<open>
  The slot the thread inserted into last (\<^verbatim>\<open>RootPage::LastSlotInfo\<close>, thread local).
\<close>

record last_slot_info =
  lsi_space_ref :: space_ref
  lsi_page_ref :: page_ref
  lsi_slot_number :: nat
  lsi_next_free_rec_hint :: nat

definition init_last_slot_info :: last_slot_info where
  "init_last_slot_info =
     \<lparr>lsi_space_ref = 0, lsi_page_ref = INVALID_REF, lsi_slot_number = 0, lsi_next_free_rec_hint = 0\<rparr>"

text \<open>
  \<open>faults\<close> lists the outcomes of the fallible API calls to come (\<open>True\<close>: the call fails; an
  exhausted list means success), \<open>fresh\<close> the page numbers the segment manager hands out,
  \<open>draws\<close> the values of the random generator, \<open>seg_of\<close> the segment (owning root page and
  index) each page was allocated from.
\<close>

record 'p env =
  pages :: "page_ref \<Rightarrow> 'p option"
  latches :: "page_ref \<Rightarrow> latch option"
  seg_of :: "page_ref \<Rightarrow> (page_ref \<times> nat) option"
  fresh :: "page_ref list"
  faults :: "bool list"
  draws :: "nat list"
  s_last_slot_info :: last_slot_info

text \<open>
  Errors as the code reports them through \<^verbatim>\<open>fill_error\<close>: \<open>Local\<close> with the
  text and the numbers printed into it, \<open>Remote\<close> where the detail of the failed API call is
  appended. \<open>Assertion\<close> is a debug assertion of the latch discipline that does not hold.
\<close>

datatype store_error = Local string "nat list" | Remote string | Assertion string

type_synonym ('p, 'a) op = "'p env \<Rightarrow> 'p env \<times> (store_error + 'a)"

definition ret :: "'a \<Rightarrow> ('p, 'a) op" where
  "ret x = (\<lambda>s. (s, Inr x))"

definition fail :: "store_error \<Rightarrow> ('p, 'a) op" where
  "fail e = (\<lambda>s. (s, Inl e))"

definition bind_op :: "('p, 'a) op \<Rightarrow> ('a \<Rightarrow> ('p, 'b) op) \<Rightarrow> ('p, 'b) op" where
  "bind_op m f = (\<lambda>s. case m s of (s', Inl e) \<Rightarrow> (s', Inl e) | (s', Inr x) \<Rightarrow> f x s')"

definition gets :: "('p env \<Rightarrow> 'a) \<Rightarrow> ('p, 'a) op" where
  "gets f = (\<lambda>s. (s, Inr (f s)))"

definition modify :: "('p env \<Rightarrow> 'p env) \<Rightarrow> ('p, unit) op" where
  "modify f = (\<lambda>s. (f s, Inr ()))"

definition when_op :: "bool \<Rightarrow> ('p, unit) op \<Rightarrow> ('p, unit) op" where
  "when_op b m = (if b then m else ret ())"

definition require :: "bool \<Rightarrow> store_error \<Rightarrow> ('p, unit) op" where
  "require b e = (if b then ret () else fail e)"

fun foreach :: "'a list \<Rightarrow> ('a \<Rightarrow> ('p, unit) op) \<Rightarrow> ('p, unit) op" where
  "foreach [] f = ret ()"
| "foreach (x # xs) f = bind_op (f x) (\<lambda>_. foreach xs f)"

text \<open>The outcome of the next fallible API call.\<close>

definition api_call :: "store_error \<Rightarrow> ('p, unit) op" where
  "api_call e = (\<lambda>s. case faults s of [] \<Rightarrow> (s, Inr ())
     | b # bs \<Rightarrow> (s\<lparr>faults := bs\<rparr>, if b then Inl e else Inr ()))"

text \<open>
  \<open>load r l e\<close> is \<^verbatim>\<open>Page::load\<close>: the page is latched in mode \<open>l\<close>, or the call
  fails and the caller reports \<open>e\<close>. \<open>release\<close> is \<^verbatim>\<open>Page::release\<close>,
  \<open>commit\<close> ends the mini-transaction and with it every latch.
\<close>

definition load :: "page_ref \<Rightarrow> latch \<Rightarrow> store_error \<Rightarrow> ('p, unit) op" where
  "load r l e = bind_op (api_call e) (\<lambda>_ s.
     if pages s r = None then (s, Inl e) else (s\<lparr>latches := (latches s)(r := Some l)\<rparr>, Inr ()))"

definition release :: "page_ref \<Rightarrow> store_error \<Rightarrow> ('p, unit) op" where
  "release r e = bind_op (api_call e) (\<lambda>_. modify (\<lambda>s. s\<lparr>latches := (latches s)(r := None)\<rparr>))"

definition commit :: "('p, unit) op" where
  "commit = modify (\<lambda>s. s\<lparr>latches := (\<lambda>_. None)\<rparr>)"

text \<open>
  Reading needs a latch on the page, writing an exclusive one; both are the assertions
  \<^verbatim>\<open>is_loaded\<close> at the head of the page methods.
\<close>

definition peek :: "page_ref \<Rightarrow> ('p, 'p) op" where
  "peek r = (\<lambda>s. case (pages s r, latches s r) of (Some pg, Some _) \<Rightarrow> (s, Inr pg)
     | _ \<Rightarrow> (s, Inl (Assertion ''is_loaded'')))"

definition upd :: "page_ref \<Rightarrow> ('p \<Rightarrow> 'p) \<Rightarrow> ('p, unit) op" where
  "upd r f = (\<lambda>s. case (pages s r, latches s r) of
       (Some pg, Some EXCLUSIVE) \<Rightarrow> (s\<lparr>pages := (pages s)(r \<mapsto> f pg)\<rparr>, Inr ())
     | _ \<Rightarrow> (s, Inl (Assertion ''is_loaded(EXCLUSIVE)'')))"

text \<open>
  \<^verbatim>\<open>Page::load_new\<close> takes the next page of segment \<open>seg\<close> of root page
  \<open>owner\<close>; \<^verbatim>\<open>Segment::create\<close> makes a root page with its segment headers.
\<close>

definition take_fresh :: "'p \<Rightarrow> (page_ref \<times> nat) option \<Rightarrow> store_error \<Rightarrow> ('p, page_ref) op" where
  "take_fresh pg seg e = bind_op (api_call e) (\<lambda>_ s. case fresh s of [] \<Rightarrow> (s, Inl e)
     | r # rs \<Rightarrow> (s\<lparr>fresh := rs, pages := (pages s)(r \<mapsto> pg), seg_of := (seg_of s)(r := seg),
                  latches := (latches s)(r := Some EXCLUSIVE)\<rparr>, Inr r))"

definition load_new :: "'p page_api \<Rightarrow> page_ref \<times> nat \<Rightarrow> store_error \<Rightarrow> ('p, page_ref) op" where
  "load_new P seg e = take_fresh (new_page P) (Some seg) e"

definition segment_create :: "'p page_api \<Rightarrow> nat \<Rightarrow> store_error \<Rightarrow> ('p, page_ref) op" where
  "segment_create P num_segments e =
     bind_op (take_fresh (segment_root P num_segments) None e) (\<lambda>r. bind_op commit (\<lambda>_. ret r))"

text \<open>A uniformly distributed value of \<open>{0..<n}\<close>: any value of the range may come up.\<close>

definition uniform_draw :: "nat \<Rightarrow> ('p, nat) op" where
  "uniform_draw n = (\<lambda>s. case draws s of [] \<Rightarrow> (s, Inr 0)
     | d # ds \<Rightarrow> (s\<lparr>draws := ds\<rparr>, Inr (d mod n)))"

subsection \<open>Rules of the monad\<close>

text \<open>
  \<open>op_defs\<close> evaluates an operation on a state whose pages and latches are known. The two rules on
  results take a composite apart: it succeeds exactly when both parts do, and it fails in the first
  part or in the second.
\<close>

named_theorems op_defs \<open>definitions of the storage monad\<close>

lemmas [op_defs] = ret_def fail_def bind_op_def gets_def modify_def when_op_def require_def peek_def
  upd_def

lemma bind_op_Inr_iff:
  "bind_op m f s = (s', Inr y) \<longleftrightarrow> (\<exists>s1 x. m s = (s1, Inr x) \<and> f x s1 = (s', Inr y))"
  by (auto simp: bind_op_def split: prod.splits sum.splits)

lemma bind_op_Inl_iff:
  "bind_op m f s = (s', Inl e) \<longleftrightarrow>
   m s = (s', Inl e) \<or> (\<exists>s1 x. m s = (s1, Inr x) \<and> f x s1 = (s', Inl e))"
  by (auto simp: bind_op_def split: prod.splits sum.splits)

text \<open>A load or a release changes only the latches and the outcomes still to come.\<close>

lemma load_cases:
  obtains (ok) fs where "pages s r \<noteq> None"
      "load r l e s = (s\<lparr>faults := fs, latches := (latches s)(r := Some l)\<rparr>, Inr ())"
      "faults s = [] \<longrightarrow> fs = []"
  | (err) fs where "load r l e s = (s\<lparr>faults := fs\<rparr>, Inl e)" "faults s = [] \<longrightarrow> pages s r = None"
proof (cases "faults s")
  case Nil
  show thesis
  proof (cases "pages s r")
    case None
    with Nil have "load r l e s = (s\<lparr>faults := []\<rparr>, Inl e)" by (simp add: load_def api_call_def bind_op_def)
    then show thesis by (rule err) (simp add: None)
  next
    case (Some pg)
    with Nil have "load r l e s = (s\<lparr>faults := [], latches := (latches s)(r := Some l)\<rparr>, Inr ())"
      by (simp add: load_def api_call_def bind_op_def)
    from ok [OF _ this] show thesis by (simp add: Some Nil)
  qed
next
  case (Cons b bs)
  show thesis
  proof (cases "b \<or> pages s r = None")
    case True
    with Cons have "load r l e s = (s\<lparr>faults := bs\<rparr>, Inl e)"
      by (auto simp: load_def api_call_def bind_op_def)
    then show thesis by (rule err) (simp add: Cons)
  next
    case False
    with Cons have "load r l e s = (s\<lparr>faults := bs, latches := (latches s)(r := Some l)\<rparr>, Inr ())"
      by (auto simp: load_def api_call_def bind_op_def)
    from ok [OF _ this] show thesis using False by (simp add: Cons)
  qed
qed

lemma load_ok:
  "faults s = [] \<Longrightarrow> pages s r = Some pg \<Longrightarrow>
   load r l e s = (s\<lparr>latches := (latches s)(r := Some l)\<rparr>, Inr ())"
  by (simp add: load_def api_call_def bind_op_def)

lemma release_ok:
  "faults s = [] \<Longrightarrow> release r e s = (s\<lparr>latches := (latches s)(r := None)\<rparr>, Inr ())"
  by (simp add: release_def api_call_def bind_op_def modify_def)

end
