(* ===== verification/Fake_Storage.thy ===== *)
theory Fake_Storage
  imports Page_Api
begin

text \<open>
  The in-memory backend of the repository's own tests (\<^verbatim>\<open>unittest/storage_test.cc\<close>): pages
  are zero-filled buffers of 16384 bytes, integers are written big-endian by \<open>be_write\<close>, page
  numbers are handed out from 1 upwards. It satisfies the page interface, so the laws that the rest
  of the development assumes of the server's API are those its own tests run against.
\<close>

definition kPageSize :: nat where
  "kPageSize = 16384"

fun be_write :: "buffer \<Rightarrow> nat \<Rightarrow> nat \<Rightarrow> nat \<Rightarrow> buffer" where
  "be_write p off v 0 = p"
| "be_write p off v (Suc i) =
     be_write (p(off + i := word_of_nat (v mod 256))) off (v div 256) i"

definition fake_zero_page :: buffer where
  "fake_zero_page = (\<lambda>_. 0)"

definition fake_segment_create :: "nat \<Rightarrow> buffer" where
  "fake_segment_create num_segments = fake_zero_page(HEADER_SIZE := word_of_nat num_segments)"

definition fake_page_write_string :: "buffer \<Rightarrow> nat \<Rightarrow> byte list \<Rightarrow> buffer" where
  "fake_page_write_string p off str = overwrite p off str"

definition fake_api :: "buffer page_api" where
  "fake_api = \<lparr>
     get_size = kPageSize,
     get_data = (\<lambda>p. p),
     read_integer_1 = (\<lambda>p off. p off),
     read_integer_2 = (\<lambda>p off. word_of_nat (be_read p off 2)),
     read_integer_4 = (\<lambda>p off. word_of_nat (be_read p off 4)),
     read_integer_8 = (\<lambda>p off. word_of_nat (be_read p off 8)),
     write_integer_1 = (\<lambda>p off v. be_write p off (unat v) 1),
     write_integer_2 = (\<lambda>p off v. be_write p off (unat v) 2),
     write_integer_4 = (\<lambda>p off v. be_write p off (unat v) 4),
     write_integer_8 = (\<lambda>p off v. be_write p off (unat v) 8),
     write_string = fake_page_write_string,
     read_prev_link = (\<lambda>p. word_of_nat (be_read p FIL_PAGE_PREV 4)),
     read_next_link = (\<lambda>p. word_of_nat (be_read p FIL_PAGE_NEXT 4)),
     write_prev_link = (\<lambda>p v. be_write p FIL_PAGE_PREV (unat v) 4),
     write_next_link = (\<lambda>p v. be_write p FIL_PAGE_NEXT (unat v) 4),
     new_page = fake_zero_page,
     segment_root = fake_segment_create\<rparr>"

text \<open>
  A tablespace with nothing in it yet: no fault is due, page numbers count up from 1 (the stand-in
  never runs out; sixteen of them are enough for every use below).
\<close>

definition fake_env :: "buffer env" where
  "fake_env = \<lparr>pages = (\<lambda>_. None), latches = (\<lambda>_. None), seg_of = (\<lambda>_. None),
     fresh = map word_of_nat [1..<17], faults = [], draws = [], s_last_slot_info = init_last_slot_info\<rparr>"

text \<open>The loop of \<open>be_write\<close> runs from the last byte to the first.\<close>

lemma be_write_other: "i < off \<or> off + n \<le> i \<Longrightarrow> be_write p off v n i = p i"
  by (induction p off v n rule: be_write.induct) auto

lemma be_write_overwrite: "be_write p off v n = overwrite p off (be_bytes n v)"
proof (induction p off v n rule: be_write.induct)
  case (1 p off v)
  then show ?case by simp
next
  case (2 p off v n)
  let ?b = "word_of_nat (v mod 256) :: byte"
  have "overwrite (p(off + n := ?b)) off (be_bytes n (v div 256))
      = overwrite p off (be_bytes (Suc n) v)"
    by (rule ext) (auto simp: overwrite_def nth_append)
  with "2.IH" show ?case by (simp only: be_write.simps)
qed

interpretation fake: page_api fake_api
  by unfold_locales
    (auto simp: fake_api_def be_write_overwrite fake_page_write_string_def fake_zero_page_def
      fake_segment_create_def layout_defs word_of_nat_eq_0_iff)

end
