(* ===== verification/Data_Page.thy ===== *)
theory Data_Page
  imports Page_Api Fake_Storage
begin

text \<open>
  Data pages (\<^verbatim>\<open>src/storage/data_page.h\<close>, \<^verbatim>\<open>data_page.cc\<close>): the layout
  computation \<open>DataPage_init\<close>, the bitmap with two bits per record, the search for a free slot,
  insertion and purge of a record, and the encoding of a column reference. The operations are
  functions on the page contents; the pages they are called on are loaded and latched by the
  callers in \<^verbatim>\<open>Root_Page\<close> and \<^verbatim>\<open>Column_Store\<close>.

  The lemmas relate the bytes to an array of slots, each free or holding a delete mark, a
  transaction reference and the column bytes: every operation changes exactly the slot it names
  and keeps the free-record counter equal to the number of free slots.
\<close>

subsection \<open>Layout constants\<close>

definition TRX_REF_SIZE :: nat where [layout_defs]: "TRX_REF_SIZE = 8"
definition MIN_FREE_PERCENT_FOR_FREE_LIST :: nat where "MIN_FREE_PERCENT_FOR_FREE_LIST = 20"
definition DELETE_MARK_BIT :: nat where [layout_defs]: "DELETE_MARK_BIT = 0"
definition FREE_BIT :: nat where [layout_defs]: "FREE_BIT = 1"
definition BITS_PER_RECORD :: nat where [layout_defs]: "BITS_PER_RECORD = 2"
definition VERSION_OFF :: nat where [layout_defs]: "VERSION_OFF = HEADER_SIZE"
definition PAGE_TYPE_OFF :: nat where [layout_defs]: "PAGE_TYPE_OFF = VERSION_OFF + 1"
definition FREE_SLOT_NUMBER_OFF :: nat where [layout_defs]: "FREE_SLOT_NUMBER_OFF = PAGE_TYPE_OFF + 1"
definition ROOT_PAGE_REF_OFF :: nat where [layout_defs]: "ROOT_PAGE_REF_OFF = FREE_SLOT_NUMBER_OFF + 2"
definition PREV_FREE_PAGE_OFF :: nat where [layout_defs]: "PREV_FREE_PAGE_OFF = ROOT_PAGE_REF_OFF + 4"
definition NEXT_FREE_PAGE_OFF :: nat where [layout_defs]: "NEXT_FREE_PAGE_OFF = PREV_FREE_PAGE_OFF + 4"
definition MAX_NUM_RECS_OFF :: nat where [layout_defs]: "MAX_NUM_RECS_OFF = NEXT_FREE_PAGE_OFF + 4"
definition NUM_FREE_RECS_OFF :: nat where [layout_defs]: "NUM_FREE_RECS_OFF = MAX_NUM_RECS_OFF + 2"
definition FREE_BITMAP_OFF :: nat where [layout_defs]: "FREE_BITMAP_OFF = NUM_FREE_RECS_OFF + 2"
definition INVALID_SLOT :: "16 word" where "INVALID_SLOT = 0xFFFF"
definition SLOT_INDEX_BITS :: nat where "SLOT_INDEX_BITS = 14"
definition MAX_SLOT_INDEX :: nat where "MAX_SLOT_INDEX = 2 ^ SLOT_INDEX_BITS - 1"

text \<open>\<^verbatim>\<open>ColumnPageType\<close>.\<close>

definition ROOT_PAGE_TYPE :: byte where "ROOT_PAGE_TYPE = 1"
definition DATA_PAGE_TYPE :: byte where "DATA_PAGE_TYPE = 2"

record data_page =
  m_rec_size :: nat
  m_free_bitmap_size :: nat
  m_max_num_recs :: nat
  m_first_rec_offset :: nat

subsection \<open>Layout computation\<close>

definition bits_to_bytes_ceil :: "nat \<Rightarrow> nat" where
  "bits_to_bytes_ceil bits = u32 (bits + 7) div 2 ^ 3"

definition MAX_ITERATIONS :: nat where "MAX_ITERATIONS = 10"

text \<open>The refinement loop of \<^verbatim>\<open>DataPage::init\<close>; the result is the estimate and the bitmap size.\<close>

function refine_max_recs :: "nat \<Rightarrow> nat \<Rightarrow> nat \<Rightarrow> nat \<Rightarrow> nat \<Rightarrow> nat \<Rightarrow> nat \<times> nat" where
  "refine_max_recs available_space rec_size estimated prev iterations bitmap_size =
     (if estimated \<noteq> prev \<and> iterations < MAX_ITERATIONS then
        let bitmap' = u16 (bits_to_bytes_ceil (estimated * BITS_PER_RECORD));
            space_for_records = sub32 available_space bitmap'
        in refine_max_recs available_space rec_size (u16 (space_for_records div rec_size)) estimated
             (iterations + 1) bitmap'
      else (estimated, bitmap_size))"
  by pat_completeness auto
termination
  by (relation "measure (\<lambda>(_, _, _, _, it, _). MAX_ITERATIONS - it)") auto

declare refine_max_recs.simps [simp del]

definition DataPage_init :: "nat \<Rightarrow> nat \<Rightarrow> data_page" where
  "DataPage_init page_size col_len =
     (let rec_size = u16 (TRX_REF_SIZE + col_len);
          available_space = sub32 (sub32 page_size FREE_BITMAP_OFF) TRAILER_SIZE
      in if available_space < rec_size then
           \<lparr>m_rec_size = rec_size, m_free_bitmap_size = 0, m_max_num_recs = 0,
            m_first_rec_offset = FREE_BITMAP_OFF\<rparr>
         else
           let (estimated, bitmap_size) =
                 refine_max_recs available_space rec_size (u16 (available_space div rec_size)) 0 0 0;
               (max_recs, bitmap_size') =
                 (if estimated > MAX_SLOT_INDEX + 1
                  then (MAX_SLOT_INDEX + 1, u16 (bits_to_bytes_ceil ((MAX_SLOT_INDEX + 1) * BITS_PER_RECORD)))
                  else (estimated, bitmap_size))
           in \<lparr>m_rec_size = rec_size, m_free_bitmap_size = bitmap_size', m_max_num_recs = max_recs,
               m_first_rec_offset = u16 (FREE_BITMAP_OFF + bitmap_size')\<rparr>)"

definition DataPage_has_capacity :: "data_page \<Rightarrow> bool" where
  "DataPage_has_capacity dp \<longleftrightarrow> m_max_num_recs dp > 0"

definition DataPage_get_record_offset :: "data_page \<Rightarrow> nat \<Rightarrow> nat" where
  "DataPage_get_record_offset dp rec_index = u16 (m_first_rec_offset dp + rec_index * m_rec_size dp)"

subsection \<open>Header fields\<close>

definition DataPage_format :: "'p page_api \<Rightarrow> data_page \<Rightarrow> byte \<Rightarrow> page_ref \<Rightarrow> 'p \<Rightarrow> 'p" where
  "DataPage_format P dp format_version root_page_ref pg =
     (let pg1 = write_integer_1 P pg VERSION_OFF format_version;
          pg2 = write_integer_1 P pg1 PAGE_TYPE_OFF DATA_PAGE_TYPE;
          pg3 = write_integer_2 P pg2 FREE_SLOT_NUMBER_OFF INVALID_SLOT;
          pg4 = write_integer_4 P pg3 ROOT_PAGE_REF_OFF root_page_ref;
          pg5 = write_integer_4 P pg4 PREV_FREE_PAGE_OFF INVALID_REF;
          pg6 = write_integer_4 P pg5 NEXT_FREE_PAGE_OFF INVALID_REF;
          pg7 = write_integer_2 P pg6 MAX_NUM_RECS_OFF (word_of_nat (m_max_num_recs dp))
      in write_integer_2 P pg7 NUM_FREE_RECS_OFF (word_of_nat (m_max_num_recs dp)))"

definition DataPage_encode_column_ref :: "page_ref \<Rightarrow> nat \<Rightarrow> column_ref" where
  "DataPage_encode_column_ref page_ref slot_index =
     (ucast page_ref :: column_ref) OR push_bit 32 (word_of_nat slot_index)"

definition DataPage_decode_column_ref :: "column_ref \<Rightarrow> page_ref \<times> nat" where
  "DataPage_decode_column_ref col_ref =
     (ucast (col_ref AND 0xFFFFFFFF), unat (drop_bit 32 col_ref AND word_of_nat MAX_SLOT_INDEX))"

definition DataPage_set_free_slot_number :: "'p page_api \<Rightarrow> 16 word \<Rightarrow> 'p \<Rightarrow> 'p" where
  "DataPage_set_free_slot_number P slot_number pg = write_integer_2 P pg FREE_SLOT_NUMBER_OFF slot_number"

definition DataPage_get_free_slot_number :: "'p page_api \<Rightarrow> 'p \<Rightarrow> 16 word" where
  "DataPage_get_free_slot_number P pg = read_integer_2 P pg FREE_SLOT_NUMBER_OFF"

definition DataPage_get_root_page_ref :: "'p page_api \<Rightarrow> 'p \<Rightarrow> page_ref" where
  "DataPage_get_root_page_ref P pg = read_integer_4 P pg ROOT_PAGE_REF_OFF"

text \<open>A link argument of \<open>None\<close> (a null pointer) leaves that link unchanged.\<close>

definition DataPage_set_free_links ::
    "'p page_api \<Rightarrow> page_ref option \<Rightarrow> page_ref option \<Rightarrow> 'p \<Rightarrow> 'p" where
  "DataPage_set_free_links P prev next pg =
     (let pg1 = (case prev of None \<Rightarrow> pg | Some r \<Rightarrow> write_integer_4 P pg PREV_FREE_PAGE_OFF r)
      in case next of None \<Rightarrow> pg1 | Some r \<Rightarrow> write_integer_4 P pg1 NEXT_FREE_PAGE_OFF r)"

definition DataPage_get_free_links :: "'p page_api \<Rightarrow> 'p \<Rightarrow> page_ref \<times> page_ref" where
  "DataPage_get_free_links P pg =
     (read_integer_4 P pg PREV_FREE_PAGE_OFF, read_integer_4 P pg NEXT_FREE_PAGE_OFF)"

definition DataPage_has_last_free_slot :: "'p page_api \<Rightarrow> 'p \<Rightarrow> bool" where
  "DataPage_has_last_free_slot P pg \<longleftrightarrow> read_integer_2 P pg NUM_FREE_RECS_OFF = 1"

definition DataPage_needs_add_to_free_list :: "'p page_api \<Rightarrow> bool \<Rightarrow> 'p \<Rightarrow> bool" where
  "DataPage_needs_add_to_free_list P pre_purge pg =
     (if DataPage_get_free_slot_number P pg \<noteq> INVALID_SLOT then False
      else
        let max_num_recs = read_integer_2 P pg MAX_NUM_RECS_OFF;
            num_free_recs = read_integer_2 P pg NUM_FREE_RECS_OFF
        in if max_num_recs = 0 then False
           else
             let num_free_recs' =
                   (if pre_purge \<and> num_free_recs < max_num_recs then num_free_recs + 1 else num_free_recs);
                 free_percent = u32 (unat num_free_recs' * 100) div unat max_num_recs
             in free_percent > MIN_FREE_PERCENT_FOR_FREE_LIST)"

subsection \<open>The record bitmap\<close>

definition bitmap_byte_offset :: "nat \<Rightarrow> nat" where
  "bitmap_byte_offset slot_index = FREE_BITMAP_OFF + (slot_index * BITS_PER_RECORD) div 2 ^ 3"

definition bitmap_bit_offset :: "nat \<Rightarrow> nat" where
  "bitmap_bit_offset slot_index = (slot_index * BITS_PER_RECORD) mod 8"

text \<open>The pair of \<^verbatim>\<open>get_record_status\<close>: delete marked, free.\<close>

definition DataPage_get_record_status :: "'p page_api \<Rightarrow> 'p \<Rightarrow> nat \<Rightarrow> bool \<times> bool" where
  "DataPage_get_record_status P pg slot_index =
     (let bitmap_byte = read_integer_1 P pg (bitmap_byte_offset slot_index)
      in (bit bitmap_byte (bitmap_bit_offset slot_index + DELETE_MARK_BIT),
          \<not> bit bitmap_byte (bitmap_bit_offset slot_index + FREE_BIT)))"

definition set_byte_bit :: "nat \<Rightarrow> byte \<Rightarrow> byte" where
  "set_byte_bit k b = b OR push_bit k 1"

definition clear_byte_bit :: "nat \<Rightarrow> byte \<Rightarrow> byte" where
  "clear_byte_bit k b = b AND NOT (push_bit k 1)"

definition DataPage_set_record_delete :: "'p page_api \<Rightarrow> nat \<Rightarrow> 'p \<Rightarrow> 'p" where
  "DataPage_set_record_delete P slot_index pg =
     (let off = bitmap_byte_offset slot_index; k = bitmap_bit_offset slot_index;
          bitmap_byte = read_integer_1 P pg off
      in write_integer_1 P pg off (set_byte_bit (k + DELETE_MARK_BIT) bitmap_byte))"

definition DataPage_set_record_undelete :: "'p page_api \<Rightarrow> nat \<Rightarrow> 'p \<Rightarrow> 'p" where
  "DataPage_set_record_undelete P slot_index pg =
     (let off = bitmap_byte_offset slot_index; k = bitmap_bit_offset slot_index;
          bitmap_byte = read_integer_1 P pg off
      in write_integer_1 P pg off (clear_byte_bit (k + DELETE_MARK_BIT) bitmap_byte))"

definition DataPage_set_record_free :: "'p page_api \<Rightarrow> nat \<Rightarrow> 'p \<Rightarrow> 'p" where
  "DataPage_set_record_free P slot_index pg =
     (let off = bitmap_byte_offset slot_index; k = bitmap_bit_offset slot_index;
          bitmap_byte = read_integer_1 P pg off
      in write_integer_1 P pg off
           (clear_byte_bit (k + DELETE_MARK_BIT) (clear_byte_bit (k + FREE_BIT) bitmap_byte)))"

definition DataPage_set_record_allocated :: "'p page_api \<Rightarrow> nat \<Rightarrow> 'p \<Rightarrow> 'p" where
  "DataPage_set_record_allocated P slot_index pg =
     (let off = bitmap_byte_offset slot_index; k = bitmap_bit_offset slot_index;
          bitmap_byte = read_integer_1 P pg off
      in write_integer_1 P pg off
           (clear_byte_bit (k + DELETE_MARK_BIT) (set_byte_bit (k + FREE_BIT) bitmap_byte)))"

subsection \<open>Search for a free slot, insertion, purge\<close>

definition FREE_BIT_MASK :: byte where "FREE_BIT_MASK = 0xAA"

definition DataPage_free_bit_in_byte :: "byte \<Rightarrow> nat option" where
  "DataPage_free_bit_in_byte bitmap_byte =
     (if bitmap_byte AND FREE_BIT_MASK = FREE_BIT_MASK then None
      else List.find (\<lambda>bit_offset. \<not> bit bitmap_byte (bit_offset + FREE_BIT)) [0, 2, 4, 6])"

fun scan_bitmap :: "'p page_api \<Rightarrow> 'p \<Rightarrow> nat list \<Rightarrow> nat option" where
  "scan_bitmap P pg [] = None"
| "scan_bitmap P pg (byte_idx # idxs) =
     (case DataPage_free_bit_in_byte (read_integer_1 P pg (FREE_BITMAP_OFF + byte_idx)) of
        Some bitmap_bit \<Rightarrow> Some (u16 (byte_idx * 4 + bitmap_bit div 2))
      | None \<Rightarrow> scan_bitmap P pg idxs)"

definition DataPage_find_free_slot :: "'p page_api \<Rightarrow> data_page \<Rightarrow> 'p \<Rightarrow> nat \<Rightarrow> nat option" where
  "DataPage_find_free_slot P dp pg hint_index =
     (if hint_index < m_max_num_recs dp \<and> snd (DataPage_get_record_status P pg hint_index)
      then Some hint_index
      else
        let num_bitmap_bytes = u16 (bits_to_bytes_ceil (m_max_num_recs dp * BITS_PER_RECORD));
            start_idx = (hint_index * BITS_PER_RECORD) div 2 ^ 3
        in case scan_bitmap P pg [start_idx..<num_bitmap_bytes] of
             Some s \<Rightarrow> Some s
           | None \<Rightarrow> scan_bitmap P pg [0..<start_idx])"

text \<open>
  Insertion returns the page, the slot and the new hint. When no free slot is found the code (whose
  check is a debug assertion) goes on with the initial slot index 0.
\<close>

definition DataPage_insert ::
    "'p page_api \<Rightarrow> data_page \<Rightarrow> trx_ref \<Rightarrow> byte list \<Rightarrow> nat \<Rightarrow> 'p \<Rightarrow> 'p \<times> nat \<times> nat" where
  "DataPage_insert P dp trx col_data hint_index pg =
     (let num_free_recs = read_integer_2 P pg NUM_FREE_RECS_OFF;
          slot_index = (case DataPage_find_free_slot P dp pg hint_index of Some s \<Rightarrow> s | None \<Rightarrow> 0);
          rec_offset = DataPage_get_record_offset dp slot_index;
          pg1 = write_integer_8 P pg rec_offset trx;
          pg2 = write_string P pg1 (u16 (rec_offset + TRX_REF_SIZE)) col_data;
          pg3 = DataPage_set_record_allocated P slot_index pg2;
          pg4 = write_integer_2 P pg3 NUM_FREE_RECS_OFF (num_free_recs - 1)
      in (pg4, slot_index, if slot_index + 1 \<ge> m_max_num_recs dp then 0 else slot_index + 1))"

text \<open>\<open>None\<close> is the error return; otherwise the page and whether the record was purged.\<close>

definition DataPage_purge ::
    "'p page_api \<Rightarrow> data_page \<Rightarrow> nat \<Rightarrow> trx_ref \<Rightarrow> 'p \<Rightarrow> ('p \<times> bool) option" where
  "DataPage_purge P dp slot_index trx pg =
     (if slot_index \<ge> m_max_num_recs dp then None
      else
        let (delete_marked, is_free) = DataPage_get_record_status P pg slot_index
        in if is_free then Some (pg, False)
           else
             let rec_offset = DataPage_get_record_offset dp slot_index;
                 stored_trx_ref = read_integer_8 P pg rec_offset
             in if stored_trx_ref \<noteq> trx then Some (pg, False)
                else
                  let pg1 = DataPage_set_record_free P slot_index pg;
                      num_free_recs = read_integer_2 P pg1 NUM_FREE_RECS_OFF
                  in Some (write_integer_2 P pg1 NUM_FREE_RECS_OFF (num_free_recs + 1), True))"


subsection \<open>The layout computation\<close>

text \<open>
  \<open>bitmap_bytes n\<close> is the number of bitmap bytes that \<open>n\<close> records need. One refinement step
  maps an estimate to the record count that fits beside the bitmap of that estimate. The step is
  antitone, and its distance to the previous estimate shrinks to at most one after three steps.
\<close>

definition bitmap_bytes :: "nat \<Rightarrow> nat" where
  "bitmap_bytes n = (n * 2 + 7) div 8"

definition refine_dist :: "nat \<Rightarrow> nat" where
  "refine_dist it = (if it \<le> 1 then 256 else if it = 2 then 8 else 1)"

definition refine_inv :: "nat \<Rightarrow> nat \<Rightarrow> nat \<Rightarrow> nat \<Rightarrow> nat \<Rightarrow> nat \<Rightarrow> bool" where
  "refine_inv A r est prev it bm \<longleftrightarrow>
     (if it = 0 then est = A div r \<and> prev = 0
      else bm = bitmap_bytes prev \<and> est = (A - bm) div r \<and> prev \<le> A div r
        \<and> est \<le> prev + refine_dist it \<and> prev \<le> est + refine_dist it
        \<and> (4 \<le> it \<longrightarrow> A < (prev + 1) * r + bitmap_bytes (prev + 1)))"

lemma div_le_shift: "x \<le> y + k * r \<Longrightarrow> 0 < r \<Longrightarrow> x div r \<le> y div r + (k :: nat)"
  using div_le_mono [of x "y + k * r" r] by simp

lemma less_mult_div_Suc: "0 < r \<Longrightarrow> x < (x div r + 1) * (r :: nat)"
  using dividend_less_div_times [of r x] by simp

text \<open>What the loop needs of the sizes: records of at least 8 bytes on a page of at most 64 KB.\<close>

definition refine_ok :: "nat \<Rightarrow> nat \<Rightarrow> bool" where
  "refine_ok A r \<longleftrightarrow> 8 \<le> r \<and> r \<le> A \<and> A < 65536"

lemma refine_ok_div: "refine_ok A r \<Longrightarrow> A div r < 8192"
  using div_le_mono2 [of 8 r A] by (auto simp: refine_ok_def)

lemma refine_ok_bitmap: "refine_ok A r \<Longrightarrow> n \<le> A div r \<Longrightarrow> bitmap_bytes n \<le> A"
  using div_le_mono2 [of 8 r A] by (auto simp: refine_ok_def bitmap_bytes_def)

lemma refine_step_dist:
  assumes ok: "refine_ok A r" and "x \<le> A div r" "y \<le> A div r" and d: "x \<le> y + d" "(d + 3) div 4 \<le> k * r"
  shows "(A - bitmap_bytes y) div r \<le> (A - bitmap_bytes x) div r + k"
proof (rule div_le_shift)
  have "bitmap_bytes x \<le> bitmap_bytes y + (d + 3) div 4"
    using d(1) by (simp add: bitmap_bytes_def)
  moreover have "bitmap_bytes x \<le> A" "bitmap_bytes y \<le> A"
    using assms by (auto intro: refine_ok_bitmap)
  ultimately show "A - bitmap_bytes y \<le> A - bitmap_bytes x + k * r"
    using d(2) by linarith
qed (use ok in \<open>simp add: refine_ok_def\<close>)

lemma refine_inv_step:
  assumes ok: "refine_ok A r" and inv: "refine_inv A r est prev it bm" and "est \<noteq> prev" "it < 10"
  shows "refine_inv A r ((A - bitmap_bytes est) div r) est (it + 1) (bitmap_bytes est)"
proof (cases "it = 0")
  case True
  have est: "est = A div r" using inv True by (simp add: refine_inv_def)
  have "bitmap_bytes est \<le> 2048"
    using refine_ok_div [OF ok] est by (simp add: bitmap_bytes_def)
  also have "2048 \<le> 256 * r" using ok by (simp add: refine_ok_def)
  finally have "A \<le> A - bitmap_bytes est + 256 * r" by linarith
  then have "A div r \<le> (A - bitmap_bytes est) div r + 256"
    using ok by (intro div_le_shift) (auto simp: refine_ok_def)
  moreover have "(A - bitmap_bytes est) div r \<le> A div r" by (simp add: div_le_mono)
  ultimately show ?thesis using True est by (simp add: refine_inv_def refine_dist_def)
next
  case False
  let ?F = "\<lambda>n. (A - bitmap_bytes n) div r"
  from inv False have est: "est = ?F prev" and pr: "prev \<le> A div r"
    and d1: "est \<le> prev + refine_dist it" and d2: "prev \<le> est + refine_dist it"
    by (auto simp: refine_inv_def)
  have er: "est \<le> A div r" unfolding est by (simp add: div_le_mono)
  have k: "(refine_dist it + 3) div 4 \<le> refine_dist (it + 1) * r"
    using ok by (auto simp: refine_dist_def refine_ok_def)
  have "?F est \<le> ?F prev + refine_dist (it + 1)"
    by (rule refine_step_dist [OF ok pr er d2 k])
  moreover have "?F prev \<le> ?F est + refine_dist (it + 1)"
    by (rule refine_step_dist [OF ok er pr d1 k])
  moreover have "A < (est + 1) * r + bitmap_bytes (est + 1)" if "4 \<le> it + 1"
  proof -
    have "bitmap_bytes prev \<le> bitmap_bytes (est + 1)"
      using d2 that by (simp add: refine_dist_def bitmap_bytes_def)
    moreover have "A - bitmap_bytes prev < (est + 1) * r"
      unfolding est using ok by (intro less_mult_div_Suc) (simp add: refine_ok_def)
    ultimately show ?thesis by linarith
  qed
  ultimately show ?thesis using False er est by (simp add: refine_inv_def)
qed

text \<open>
  The result of the loop: the bitmap belongs to some estimate \<open>p\<close>, the count fits beside it, and
  either the loop converged or the count exceeds the last estimate by one.
\<close>

definition refine_post :: "nat \<Rightarrow> nat \<Rightarrow> nat \<Rightarrow> nat \<Rightarrow> bool" where
  "refine_post A r e b \<longleftrightarrow> (\<exists>p. b = bitmap_bytes p \<and> p \<le> A div r \<and> e = (A - b) div r \<and> e \<le> p + 1
     \<and> (e = p + 1 \<longrightarrow> A < e * r + bitmap_bytes e))"

lemma refine_max_recs_post:
  "refine_ok A r \<Longrightarrow> refine_inv A r est prev it bm \<Longrightarrow> it \<le> 10 \<Longrightarrow>
   case_prod (refine_post A r) (refine_max_recs A r est prev it bm)"
proof (induction A r est prev it bm rule: refine_max_recs.induct)
  case (1 A r est prev it bm)
  show ?case
  proof (cases "est \<noteq> prev \<and> it < 10")
    case True
    have "est \<le> A div r" using 1(3) True
      by (auto simp: refine_inv_def div_le_mono split: if_splits)
    then have lt: "est < 8192" using refine_ok_div [OF 1(2)] by simp
    have bm: "u16 (bits_to_bytes_ceil (est * BITS_PER_RECORD)) = bitmap_bytes est"
      using lt by (simp add: bits_to_bytes_ceil_def bitmap_bytes_def layout_defs)
    have ble: "bitmap_bytes est \<le> A" using refine_ok_bitmap [OF 1(2)] \<open>est \<le> A div r\<close> by simp
    have A: "A < 65536" using 1(2) by (simp add: refine_ok_def)
    have "(A - bitmap_bytes est) div r \<le> A div r" by (simp add: div_le_mono)
    then have e': "u16 (sub32 A (bitmap_bytes est) div r) = (A - bitmap_bytes est) div r"
      using ble A refine_ok_div [OF 1(2)] by simp
    have "refine_inv A r ((A - bitmap_bytes est) div r) est (it + 1) (bitmap_bytes est)"
      using refine_inv_step [OF 1(2,3)] True by simp
    then show ?thesis
      using "1.IH" [OF _ refl refl] 1(2) True
      by (subst refine_max_recs.simps) (simp add: bm e' MAX_ITERATIONS_def Let_def)
  next
    case False
    have "0 < A div r" using 1(2) by (auto simp: refine_ok_def div_greater_zero_iff)
    with False 1 have "it \<noteq> 0" by (auto simp: refine_inv_def split: if_splits)
    moreover have "3 \<le> it" if "est \<noteq> prev" using False that 1(4) by simp
    ultimately have "refine_post A r est bm"
      using 1(3,4) False unfolding refine_inv_def refine_post_def
      by (intro exI [of _ prev]) (auto simp: refine_dist_def split: if_splits)
    moreover have "refine_max_recs A r est prev it bm = (est, bm)"
      using False by (subst refine_max_recs.simps) (auto simp: MAX_ITERATIONS_def)
    ultimately show ?thesis by simp
  qed
qed

text \<open>
  The well-formed layouts: records start right after the bitmap, the bitmap has two bits for every
  record, and records and trailer fit in the page.
\<close>

definition bitmap_covers :: "data_page \<Rightarrow> bool" where
  "bitmap_covers dp \<longleftrightarrow> bitmap_bytes (m_max_num_recs dp) \<le> m_free_bitmap_size dp"

definition layout_ok :: "nat \<Rightarrow> data_page \<Rightarrow> bool" where
  "layout_ok page_size dp \<longleftrightarrow>
     page_size \<le> 65536 \<and> 8 < m_rec_size dp \<and> 0 < m_max_num_recs dp
     \<and> m_max_num_recs dp \<le> MAX_SLOT_INDEX + 1
     \<and> m_first_rec_offset dp = FREE_BITMAP_OFF + m_free_bitmap_size dp
     \<and> m_first_rec_offset dp + m_max_num_recs dp * m_rec_size dp + TRAILER_SIZE \<le> page_size"

definition avail_space :: "nat \<Rightarrow> nat" where
  "avail_space page_size = page_size - FREE_BITMAP_OFF - TRAILER_SIZE"

lemma DataPage_init_post:
  assumes "page_size \<le> 65536" "0 < col_len" "TRX_REF_SIZE + col_len \<le> avail_space page_size"
  defines "dp \<equiv> DataPage_init page_size col_len"
  shows "m_rec_size dp = TRX_REF_SIZE + col_len"
    and "m_first_rec_offset dp = FREE_BITMAP_OFF + m_free_bitmap_size dp"
    and "refine_post (avail_space page_size) (m_rec_size dp) (m_max_num_recs dp) (m_free_bitmap_size dp)"
    and "m_max_num_recs dp < 8192"
proof -
  let ?A = "avail_space page_size" and ?r = "TRX_REF_SIZE + col_len"
  have ok: "refine_ok ?A ?r" using assms by (auto simp: refine_ok_def layout_defs avail_space_def)
  have r: "u16 ?r = ?r" using ok by (simp add: refine_ok_def)
  have A: "sub32 (sub32 page_size FREE_BITMAP_OFF) TRAILER_SIZE = ?A"
    using assms by (simp add: layout_defs avail_space_def)
  have "u16 (?A div ?r) = ?A div ?r" using refine_ok_div [OF ok] by simp
  moreover obtain e b where eb: "refine_max_recs ?A ?r (?A div ?r) 0 0 0 = (e, b)" by fastforce
  moreover have post: "refine_post ?A ?r e b"
    using refine_max_recs_post [OF ok, of "?A div ?r" 0 0 0] eb by (simp add: refine_inv_def)
  have "e \<le> ?A div ?r" using post by (auto simp: refine_post_def div_le_mono)
  then have e: "e < 8192" using refine_ok_div [OF ok] by simp
  have "b < 8192" using post refine_ok_div [OF ok]
    by (auto simp: refine_post_def bitmap_bytes_def)
  then have "u16 (FREE_BITMAP_OFF + b) = FREE_BITMAP_OFF + b" by (simp add: layout_defs)
  ultimately have "dp = \<lparr>m_rec_size = ?r, m_free_bitmap_size = b, m_max_num_recs = e,
      m_first_rec_offset = FREE_BITMAP_OFF + b\<rparr>"
    using assms(3) e unfolding dp_def DataPage_init_def Let_def r A
    by (simp add: MAX_SLOT_INDEX_def SLOT_INDEX_BITS_def)
  with post e show "m_rec_size dp = TRX_REF_SIZE + col_len"
    and "m_first_rec_offset dp = FREE_BITMAP_OFF + m_free_bitmap_size dp"
    and "refine_post ?A (m_rec_size dp) (m_max_num_recs dp) (m_free_bitmap_size dp)"
    and "m_max_num_recs dp < 8192"
    by simp_all
qed

lemma refine_post_fits:
  assumes "refine_ok A r" "refine_post A r e b"
  shows "b + e * r \<le> A" "b \<le> A"
proof -
  from assms obtain p where "b = bitmap_bytes p" "p \<le> A div r" and e: "e = (A - b) div r"
    by (auto simp: refine_post_def)
  with assms(1) show "b \<le> A" by (auto intro: refine_ok_bitmap)
  moreover have "e * r \<le> A - b" unfolding e by simp
  ultimately show "b + e * r \<le> A" by linarith
qed

lemma refine_post_pos:
  assumes "refine_ok A r" "refine_post A r e b" "r + 1 \<le> A"
  shows "0 < e"
proof -
  from assms(2) obtain p where b: "b = bitmap_bytes p" and e: "e = (A - b) div r"
    and p: "p \<le> A div r" by (auto simp: refine_post_def)
  have r: "8 \<le> r" using assms(1) by (simp add: refine_ok_def)
  have "r \<le> A - bitmap_bytes p"
  proof (cases "p \<le> 4")
    case True
    then have "bitmap_bytes p \<le> 1" by (simp add: bitmap_bytes_def)
    with assms(3) show ?thesis by linarith
  next
    case False
    have "p * r \<le> A" using p r by (simp add: less_eq_div_iff_mult_less_eq)
    moreover have "5 * r \<le> p * r" using False by simp
    moreover have "8 * p \<le> p * r" using r by simp
    moreover have "bitmap_bytes p \<le> p" using False by (simp add: bitmap_bytes_def)
    ultimately show ?thesis by linarith
  qed
  then show ?thesis unfolding e b using r by (simp add: div_greater_zero_iff)
qed

lemma bitmap_uncovered:
  assumes "refine_ok A r" "refine_post A r e b" "b < bitmap_bytes e"
  shows "e = 4 * b + 1 \<and> A = e * r + b"
proof -
  from assms(2) obtain p where b: "b = bitmap_bytes p" and ep: "e \<le> p + 1"
    and A: "e = p + 1 \<longrightarrow> A < e * r + bitmap_bytes e" by (auto simp: refine_post_def)
  have "bitmap_bytes e \<le> bitmap_bytes p" if "e \<le> p" using that by (simp add: bitmap_bytes_def)
  with assms(3) b ep have e: "e = p + 1" by force
  with assms(3) b have "4 * bitmap_bytes p = p" "bitmap_bytes e = bitmap_bytes p + 1"
    by (auto simp: bitmap_bytes_def)
  with A b e refine_post_fits [OF assms(1,2)] show ?thesis by auto
qed

subsection \<open>Bitmap bits\<close>

lemma bit_set_byte_bit: "bit (set_byte_bit k b) n \<longleftrightarrow> n = k \<and> k < 8 \<or> bit b n"
  by (auto simp: set_byte_bit_def bit_simps)

lemma bit_clear_byte_bit: "bit (clear_byte_bit k b) n \<longleftrightarrow> n \<noteq> k \<and> bit b n"
  by (auto simp: clear_byte_bit_def bit_simps dest: bit_imp_le_length)

lemma bitmap_byte_offset_div: "bitmap_byte_offset i = FREE_BITMAP_OFF + i div 4"
  by (simp add: bitmap_byte_offset_def layout_defs)

lemma bitmap_bit_offset_mod: "bitmap_bit_offset i = 2 * (i mod 4)"
  using mult_mod_right [of 2 i 4] by (simp add: bitmap_bit_offset_def layout_defs mult.commute)

lemma same_bitmap_byte:
  "bitmap_byte_offset i = bitmap_byte_offset j \<Longrightarrow> bitmap_bit_offset i = bitmap_bit_offset j \<Longrightarrow> i = j"
  by (simp add: bitmap_byte_offset_div bitmap_bit_offset_mod) (metis mod_mult_div_eq)

lemma bitmap_bit_offset_even: "even (bitmap_bit_offset i)"
  by (simp add: bitmap_bit_offset_mod)

lemma bitmap_bit_offset_neq:
  "bitmap_bit_offset i \<noteq> Suc (bitmap_bit_offset j)" "Suc (bitmap_bit_offset j) \<noteq> bitmap_bit_offset i"
  using bitmap_bit_offset_even [of i] bitmap_bit_offset_even [of j] by (metis even_Suc)+

lemma bitmap_bit_offset_less: "bitmap_bit_offset i < 7" "bitmap_bit_offset i < 8"
  using mod_less_divisor [of 4 i] by (simp_all add: bitmap_bit_offset_mod)

lemmas bitmap_bit_offset_simps = bitmap_bit_offset_neq bitmap_bit_offset_less

lemma overwrite_byte: "overwrite f off [b] = f(off := b)"
  by (rule ext) (auto simp: overwrite_def)

context page_api
begin

lemma data_write_byte: "get_data P (write_integer_1 P pg off b) = (get_data P pg)(off := b)"
  by (simp add: data_write_1 overwrite_byte)

lemma get_record_status_bits:
  "DataPage_get_record_status P pg i =
     (bit (get_data P pg (bitmap_byte_offset i)) (bitmap_bit_offset i),
      \<not> bit (get_data P pg (bitmap_byte_offset i)) (Suc (bitmap_bit_offset i)))"
  by (simp add: DataPage_get_record_status_def Let_def read_1_byte DELETE_MARK_BIT_def FREE_BIT_def)

lemmas bitmap_updates = DataPage_set_record_delete_def DataPage_set_record_undelete_def
  DataPage_set_record_free_def DataPage_set_record_allocated_def

text \<open>Rewriting a bitmap byte in the two bits of slot \<open>s\<close> only changes the status of that slot.\<close>

lemma status_write_bitmap:
  assumes "\<And>n. n \<noteq> bitmap_bit_offset s \<Longrightarrow> n \<noteq> Suc (bitmap_bit_offset s) \<Longrightarrow>
      bit b n = bit (get_data P pg (bitmap_byte_offset s)) n"
  shows "DataPage_get_record_status P (write_integer_1 P pg (bitmap_byte_offset s) b) i =
     (if i = s then (bit b (bitmap_bit_offset s), \<not> bit b (Suc (bitmap_bit_offset s)))
      else DataPage_get_record_status P pg i)"
proof (cases "i \<noteq> s \<and> bitmap_byte_offset i = bitmap_byte_offset s")
  case True
  then have "bitmap_bit_offset i \<noteq> bitmap_bit_offset s" using same_bitmap_byte by blast
  with True assms show ?thesis
    by (simp add: get_record_status_bits data_write_byte bitmap_bit_offset_simps)
next
  case False
  then show ?thesis by (auto simp: get_record_status_bits data_write_byte)
qed

lemma status_set_record_delete:
  "DataPage_get_record_status P (DataPage_set_record_delete P s pg) i =
     (if i = s then (True, snd (DataPage_get_record_status P pg s)) else DataPage_get_record_status P pg i)"
  unfolding bitmap_updates Let_def DELETE_MARK_BIT_def add_0_right
  by (subst status_write_bitmap)
    (simp_all add: bit_set_byte_bit read_1_byte get_record_status_bits bitmap_bit_offset_simps)

lemma status_set_record_undelete:
  "DataPage_get_record_status P (DataPage_set_record_undelete P s pg) i =
     (if i = s then (False, snd (DataPage_get_record_status P pg s)) else DataPage_get_record_status P pg i)"
  unfolding bitmap_updates Let_def DELETE_MARK_BIT_def add_0_right
  by (subst status_write_bitmap)
    (simp_all add: bit_clear_byte_bit read_1_byte get_record_status_bits bitmap_bit_offset_simps)

lemma status_set_record_free:
  "DataPage_get_record_status P (DataPage_set_record_free P s pg) i =
     (if i = s then (False, True) else DataPage_get_record_status P pg i)"
  unfolding bitmap_updates Let_def DELETE_MARK_BIT_def FREE_BIT_def add_0_right
  by (subst status_write_bitmap)
    (simp_all add: bit_clear_byte_bit read_1_byte bitmap_bit_offset_simps)

lemma status_set_record_allocated:
  "DataPage_get_record_status P (DataPage_set_record_allocated P s pg) i =
     (if i = s then (False, False) else DataPage_get_record_status P pg i)"
  unfolding bitmap_updates Let_def DELETE_MARK_BIT_def FREE_BIT_def add_0_right
  by (subst status_write_bitmap)
    (simp_all add: bit_clear_byte_bit bit_set_byte_bit read_1_byte bitmap_bit_offset_simps)

lemmas status_updates = status_set_record_delete status_set_record_undelete status_set_record_free
  status_set_record_allocated

end

subsection \<open>A data page as an array of slots\<close>

datatype slot_state = Free | Occupied (slot_deleted: bool) (slot_trx: trx_ref) (slot_data: "byte list")

definition slot_at :: "'p page_api \<Rightarrow> data_page \<Rightarrow> 'p \<Rightarrow> nat \<Rightarrow> slot_state" where
  "slot_at P dp pg i =
     (let (delete_marked, is_free) = DataPage_get_record_status P pg i;
          off = DataPage_get_record_offset dp i
      in if is_free then Free
         else Occupied delete_marked (read_integer_8 P pg off)
                (slice (get_data P pg) (off + TRX_REF_SIZE) (m_rec_size dp - TRX_REF_SIZE)))"

text \<open>
  The invariant of a formatted data page: the capacity field is that of the layout and the counter
  of free records counts the free slots.
\<close>

definition data_page_inv :: "'p page_api \<Rightarrow> data_page \<Rightarrow> 'p \<Rightarrow> bool" where
  "data_page_inv P dp pg \<longleftrightarrow>
     unat (read_integer_2 P pg MAX_NUM_RECS_OFF) = m_max_num_recs dp
     \<and> unat (read_integer_2 P pg NUM_FREE_RECS_OFF)
         = count_below (m_max_num_recs dp) (\<lambda>i. slot_at P dp pg i = Free)"

text \<open>The header of a page, everything below the bitmap except the free-record counter.\<close>

definition same_header :: "'p page_api \<Rightarrow> 'p \<Rightarrow> 'p \<Rightarrow> bool" where
  "same_header P pg pg' \<longleftrightarrow> (\<forall>i < NUM_FREE_RECS_OFF. get_data P pg' i = get_data P pg i)"

locale data_layout = page_api P for P :: "'p page_api" +
  fixes page_size :: nat and dp :: data_page
  assumes layout: "layout_ok page_size dp" and covers: "bitmap_covers dp"
begin

lemma rec_offset:
  assumes "i < m_max_num_recs dp"
  shows "DataPage_get_record_offset dp i = m_first_rec_offset dp + i * m_rec_size dp"
    and "m_first_rec_offset dp + i * m_rec_size dp + m_rec_size dp + TRAILER_SIZE \<le> page_size"
proof -
  have "Suc i * m_rec_size dp \<le> m_max_num_recs dp * m_rec_size dp"
    using assms by (intro mult_le_mono1) simp
  then show "m_first_rec_offset dp + i * m_rec_size dp + m_rec_size dp + TRAILER_SIZE \<le> page_size"
    using layout by (simp add: layout_ok_def)
  then show "DataPage_get_record_offset dp i = m_first_rec_offset dp + i * m_rec_size dp"
    using layout by (simp add: DataPage_get_record_offset_def layout_ok_def layout_defs)
qed

lemma rec_offset_disj:
  assumes "i < m_max_num_recs dp" "j < m_max_num_recs dp" "i \<noteq> j"
  shows "disj_ranges (DataPage_get_record_offset dp i) (m_rec_size dp)
           (DataPage_get_record_offset dp j) (m_rec_size dp)"
proof (cases "i < j")
  case True
  then have "Suc i * m_rec_size dp \<le> j * m_rec_size dp" by (intro mult_le_mono1) simp
  then show ?thesis using assms by (simp add: rec_offset disj_ranges_def)
next
  case False
  then have "Suc j * m_rec_size dp \<le> i * m_rec_size dp" using assms(3) by (intro mult_le_mono1) simp
  then show ?thesis using assms by (simp add: rec_offset disj_ranges_def)
qed

lemma rec_size: "8 < m_rec_size dp" "m_rec_size dp < 65536"
  using layout rec_offset(2) [of 0] by (auto simp: layout_ok_def layout_defs)

lemma bitmap_before_records: "i < m_max_num_recs dp \<Longrightarrow> bitmap_byte_offset i < m_first_rec_offset dp"
  using layout covers
  by (simp add: bitmap_byte_offset_div layout_ok_def bitmap_covers_def bitmap_bytes_def)

lemma header_before_records: "FREE_BITMAP_OFF \<le> m_first_rec_offset dp"
  using layout by (simp add: layout_ok_def)

lemma header_before_bitmap: "FREE_BITMAP_OFF \<le> bitmap_byte_offset i"
  by (simp add: bitmap_byte_offset_div)

text \<open>Two pages that agree on the bitmap byte and the record bytes of a slot agree on the slot.\<close>

lemma slot_at_cong:
  assumes "DataPage_get_record_status P pg i = DataPage_get_record_status P pg' i"
    and "\<And>k. k < m_rec_size dp \<Longrightarrow>
      get_data P pg (DataPage_get_record_offset dp i + k) = get_data P pg' (DataPage_get_record_offset dp i + k)"
  shows "slot_at P dp pg i = slot_at P dp pg' i"
proof -
  let ?o = "DataPage_get_record_offset dp i"
  have "slice (get_data P pg) ?o 8 = slice (get_data P pg') ?o 8"
    using assms(2) rec_size by (auto intro!: nth_equalityI)
  moreover have "slice (get_data P pg) (?o + TRX_REF_SIZE) (m_rec_size dp - TRX_REF_SIZE)
      = slice (get_data P pg') (?o + TRX_REF_SIZE) (m_rec_size dp - TRX_REF_SIZE)"
    using assms(2) by (auto intro!: nth_equalityI simp: add.assoc)
  ultimately show ?thesis
    using assms(1) by (simp add: slot_at_def read_8 be_read_def Let_def split_beta)
qed

lemma status_write_record:
  assumes "i < m_max_num_recs dp" "m_first_rec_offset dp \<le> off"
  shows "DataPage_get_record_status P (write_integer_8 P pg off t) i = DataPage_get_record_status P pg i"
    and "DataPage_get_record_status P (write_string P pg off bs) i = DataPage_get_record_status P pg i"
  using bitmap_before_records [OF assms(1)] assms(2)
  by (simp_all add: get_record_status_bits data_writes overwrite_out)

lemma status_write_header:
  assumes "off + 2 \<le> FREE_BITMAP_OFF"
  shows "DataPage_get_record_status P (write_integer_2 P pg off h) i = DataPage_get_record_status P pg i"
  using assms header_before_bitmap [of i]
  by (simp add: get_record_status_bits data_writes overwrite_out)

end

subsection \<open>The scan for a free slot\<close>

lemma bit_FREE_BIT_MASK: "bit FREE_BIT_MASK n \<longleftrightarrow> n \<in> {1, 3, 5, 7}"
proof (cases "n < 8")
  case True
  then consider "n = 0" | "n = 1" | "n = 2" | "n = 3" | "n = 4" | "n = 5" | "n = 6" | "n = 7" by linarith
  then show ?thesis by cases (simp_all add: FREE_BIT_MASK_def bit_numeral_rec(1,2))
next
  case False
  then show ?thesis using bit_imp_le_length [of FREE_BIT_MASK n] by auto
qed

lemma free_bit_mask_full:
  "b AND FREE_BIT_MASK = FREE_BIT_MASK \<longleftrightarrow> bit b 1 \<and> bit b 3 \<and> bit b 5 \<and> bit b 7"
proof -
  have "b AND FREE_BIT_MASK = FREE_BIT_MASK \<longleftrightarrow> (\<forall>n. bit FREE_BIT_MASK n \<longrightarrow> bit b n)"
    by (rule iffI, metis bit_and_iff) (auto intro: bit_eqI simp: bit_and_iff)
  also have "\<dots> \<longleftrightarrow> bit b 1 \<and> bit b 3 \<and> bit b 5 \<and> bit b 7"
    unfolding bit_FREE_BIT_MASK by blast
  finally show ?thesis .
qed

lemma free_bit_in_byte_None:
  "DataPage_free_bit_in_byte b = None \<longleftrightarrow> (\<forall>k<4. bit b (Suc (2 * k)))"
  by (auto simp: DataPage_free_bit_in_byte_def free_bit_mask_full FREE_BIT_def less_Suc_eq numeral_eq_Suc)

lemma free_bit_in_byte_Some:
  assumes "DataPage_free_bit_in_byte b = Some o'"
  shows "\<exists>k<4. o' = 2 * k \<and> \<not> bit b (Suc (2 * k)) \<and> (\<forall>j<k. bit b (Suc (2 * j)))"
proof -
  have "o' = 0 \<and> \<not> bit b 1 \<or> o' = 2 \<and> bit b 1 \<and> \<not> bit b 3 \<or>
      o' = 4 \<and> bit b 1 \<and> bit b 3 \<and> \<not> bit b 5 \<or> o' = 6 \<and> bit b 1 \<and> bit b 3 \<and> bit b 5 \<and> \<not> bit b 7"
    using assms by (auto simp: DataPage_free_bit_in_byte_def FREE_BIT_def split: if_splits)
  then show ?thesis
  proof (elim disjE)
    assume "o' = 0 \<and> \<not> bit b 1" then show ?thesis by (intro exI [of _ 0]) simp
  next
    assume "o' = 2 \<and> bit b 1 \<and> \<not> bit b 3" then show ?thesis
      by (intro exI [of _ 1]) (simp add: numeral_eq_Suc)
  next
    assume "o' = 4 \<and> bit b 1 \<and> bit b 3 \<and> \<not> bit b 5" then show ?thesis
      by (intro exI [of _ 2]) (auto simp: numeral_eq_Suc less_Suc_eq)
  next
    assume "o' = 6 \<and> bit b 1 \<and> bit b 3 \<and> bit b 5 \<and> \<not> bit b 7" then show ?thesis
      by (intro exI [of _ 3]) (auto simp: numeral_eq_Suc less_Suc_eq)
  qed
qed

context page_api
begin

lemma status_free_bit:
  "snd (DataPage_get_record_status P pg i) \<longleftrightarrow>
     \<not> bit (read_integer_1 P pg (FREE_BITMAP_OFF + i div 4)) (Suc (2 * (i mod 4)))"
  by (simp add: get_record_status_bits bitmap_byte_offset_div bitmap_bit_offset_mod read_1_byte)

lemma scan_byte_None:
  "DataPage_free_bit_in_byte (read_integer_1 P pg (FREE_BITMAP_OFF + x)) = None \<longleftrightarrow>
     (\<forall>i. i div 4 = x \<longrightarrow> \<not> snd (DataPage_get_record_status P pg i))"
proof -
  have "(\<forall>i. i div 4 = x \<longrightarrow> Q (i mod 4)) \<longleftrightarrow> (\<forall>k<4. Q k)" for Q :: "nat \<Rightarrow> bool"
  proof (intro iffI allI impI)
    fix k :: nat assume "\<forall>i. i div 4 = x \<longrightarrow> Q (i mod 4)" "k < 4"
    from this(1) [rule_format, of "4 * x + k"] this(2) show "Q k" by simp
  qed simp
  from this [of "\<lambda>k. bit (read_integer_1 P pg (FREE_BITMAP_OFF + x)) (Suc (2 * k))"]
  show ?thesis by (auto simp: free_bit_in_byte_None status_free_bit)
qed

lemma scan_byte_Some:
  assumes "DataPage_free_bit_in_byte (read_integer_1 P pg (FREE_BITMAP_OFF + x)) = Some o'"
  shows "(x * 4 + o' div 2) div 4 = x" "snd (DataPage_get_record_status P pg (x * 4 + o' div 2))"
    and "i div 4 = x \<Longrightarrow> i < x * 4 + o' div 2 \<Longrightarrow> \<not> snd (DataPage_get_record_status P pg i)"
proof -
  from free_bit_in_byte_Some [OF assms] obtain k where k: "k < 4" "o' = 2 * k"
    "\<not> bit (read_integer_1 P pg (FREE_BITMAP_OFF + x)) (Suc (2 * k))"
    "\<forall>j<k. bit (read_integer_1 P pg (FREE_BITMAP_OFF + x)) (Suc (2 * j))" by blast
  then show "(x * 4 + o' div 2) div 4 = x" "snd (DataPage_get_record_status P pg (x * 4 + o' div 2))"
    by (simp_all add: status_free_bit)
  assume i: "i div 4 = x" "i < x * 4 + o' div 2"
  with k have "i mod 4 < k" using div_mult_mod_eq [of i 4] by simp
  with k(4) i show "\<not> snd (DataPage_get_record_status P pg i)" by (simp add: status_free_bit)
qed

text \<open>
  A scan over ascending byte indices finds the least free slot of the bytes it visits; it fails only
  when all of them are occupied.
\<close>

lemma scan_bitmap_None:
  "scan_bitmap P pg idxs = None \<Longrightarrow> i div 4 \<in> set idxs \<Longrightarrow> \<not> snd (DataPage_get_record_status P pg i)"
  by (induction idxs) (auto simp: scan_byte_None split: option.splits)

lemma scan_bitmap_Some:
  "scan_bitmap P pg idxs = Some s \<Longrightarrow> sorted idxs \<Longrightarrow> \<forall>x\<in>set idxs. x < 16384 \<Longrightarrow>
   snd (DataPage_get_record_status P pg s) \<and> s div 4 \<in> set idxs
   \<and> (\<forall>i. i div 4 \<in> set idxs \<longrightarrow> snd (DataPage_get_record_status P pg i) \<longrightarrow> s \<le> i)"
proof (induction idxs)
  case Nil
  then show ?case by simp
next
  case (Cons x idxs)
  show ?case
  proof (cases "DataPage_free_bit_in_byte (read_integer_1 P pg (FREE_BITMAP_OFF + x))")
    case None
    with Cons show ?thesis by (auto simp: scan_byte_None)
  next
    case (Some o')
    have "o' div 2 < 4" using free_bit_in_byte_Some [OF Some] by auto
    with Some Cons.prems have s: "s = x * 4 + o' div 2" by auto
    note sc = scan_byte_Some [OF Some, folded s]
    have "s \<le> i" if "i div 4 \<in> set (x # idxs)" "snd (DataPage_get_record_status P pg i)" for i
    proof (cases "i div 4 = x")
      case True
      with sc(3) that(2) show ?thesis by force
    next
      case False
      with that(1) Cons.prems(2) have "x < i div 4" by (auto simp: le_less)
      with sc(1) show ?thesis by (metis div_le_mono leI le_trans less_imp_le not_less)
    qed
    with sc show ?thesis by auto
  qed
qed

end

subsection \<open>Slots under the page operations\<close>

text \<open>A slot of the page is free for the scan exactly when its state is \<open>Free\<close>.\<close>

lemma slot_at_Free: "slot_at P dp pg i = Free \<longleftrightarrow> snd (DataPage_get_record_status P pg i)"
  by (simp add: slot_at_def Let_def split_beta)

text \<open>
  \<open>hint_safe\<close>: from the bitmap byte of the hint onwards there is a free record, or the last bitmap
  byte has no padding bits. This is what keeps the scan inside the page's records.
\<close>

definition hint_safe :: "'p page_api \<Rightarrow> data_page \<Rightarrow> 'p \<Rightarrow> nat \<Rightarrow> bool" where
  "hint_safe P dp pg hint \<longleftrightarrow> 4 dvd m_max_num_recs dp
     \<or> (\<exists>i \<in> set [4 * (hint div 4)..<m_max_num_recs dp]. slot_at P dp pg i = Free)"

context data_layout
begin

lemma max_num_recs_le: "m_max_num_recs dp \<le> 16384"
  using layout by (simp add: layout_ok_def MAX_SLOT_INDEX_def SLOT_INDEX_BITS_def)

lemma bitmap_bytes_small: "bitmap_bytes (m_max_num_recs dp) \<le> 4096"
  using max_num_recs_le by (simp add: bitmap_bytes_def)

lemma num_bitmap_bytes:
  "u16 (bits_to_bytes_ceil (m_max_num_recs dp * BITS_PER_RECORD)) = bitmap_bytes (m_max_num_recs dp)"
proof -
  have "bits_to_bytes_ceil (m_max_num_recs dp * BITS_PER_RECORD) = bitmap_bytes (m_max_num_recs dp)"
    using max_num_recs_le by (simp add: bits_to_bytes_ceil_def bitmap_bytes_def layout_defs)
  then show ?thesis using bitmap_bytes_small by simp
qed

lemma slot_byte_in_bitmap: "i < m_max_num_recs dp \<Longrightarrow> i div 4 < bitmap_bytes (m_max_num_recs dp)"
  by (simp add: bitmap_bytes_def)

lemma find_free_slot_cases:
  obtains (hint) "hint < m_max_num_recs dp" "slot_at P dp pg hint = Free"
      "DataPage_find_free_slot P dp pg hint = Some hint"
  | (scan) "DataPage_find_free_slot P dp pg hint =
      (case scan_bitmap P pg [hint div 4..<bitmap_bytes (m_max_num_recs dp)] of Some s \<Rightarrow> Some s
       | None \<Rightarrow> scan_bitmap P pg [0..<hint div 4])"
proof (cases "hint < m_max_num_recs dp \<and> snd (DataPage_get_record_status P pg hint)")
  case True
  then show thesis using hint by (simp add: DataPage_find_free_slot_def slot_at_Free)
next
  case False
  have "(hint * BITS_PER_RECORD) div 2 ^ 3 = hint div 4" by (simp add: layout_defs)
  with False have "DataPage_find_free_slot P dp pg hint =
      (case scan_bitmap P pg [hint div 4..<bitmap_bytes (m_max_num_recs dp)] of Some s \<Rightarrow> Some s
       | None \<Rightarrow> scan_bitmap P pg [0..<hint div 4])"
    unfolding DataPage_find_free_slot_def Let_def num_bitmap_bytes by (simp only: if_False)
  then show thesis by (rule scan)
qed

lemma find_free_slot_free:
  assumes "DataPage_find_free_slot P dp pg hint = Some s" "hint < 65536"
  shows "slot_at P dp pg s = Free"
proof (cases rule: find_free_slot_cases [of hint pg])
  case hint
  with assms show ?thesis by simp
next
  case scan
  have "\<forall>x\<in>set [hint div 4..<bitmap_bytes (m_max_num_recs dp)]. x < 16384"
    using bitmap_bytes_small by simp
  moreover have "\<forall>x\<in>set [0..<hint div 4]. x < 16384" using assms(2) by auto
  ultimately show ?thesis using scan assms(1) scan_bitmap_Some
    by (auto simp: slot_at_Free split: option.splits)
qed

lemma find_free_slot_None:
  assumes "DataPage_find_free_slot P dp pg hint = None" "i < m_max_num_recs dp"
  shows "slot_at P dp pg i \<noteq> Free"
proof (cases rule: find_free_slot_cases [of hint pg])
  case hint
  with assms show ?thesis by simp
next
  case scan
  have "i div 4 < bitmap_bytes (m_max_num_recs dp)" using slot_byte_in_bitmap assms(2) by simp
  then have "i div 4 \<in> set [hint div 4..<bitmap_bytes (m_max_num_recs dp)] \<or> i div 4 \<in> set [0..<hint div 4]"
    by auto
  moreover have "scan_bitmap P pg [hint div 4..<bitmap_bytes (m_max_num_recs dp)] = None"
    "scan_bitmap P pg [0..<hint div 4] = None"
    using scan assms(1) by (auto split: option.splits)
  ultimately show ?thesis using scan_bitmap_None by (metis slot_at_Free)
qed

lemma find_free_slot_in_range:
  assumes "DataPage_find_free_slot P dp pg hint = Some s" "hint < m_max_num_recs dp" "hint_safe P dp pg hint"
  shows "s < m_max_num_recs dp"
proof (cases rule: find_free_slot_cases [of hint pg])
  case hint
  with assms show ?thesis by simp
next
  case scan
  let ?n = "m_max_num_recs dp" and ?x = "[hint div 4..<bitmap_bytes (m_max_num_recs dp)]"
  have lt: "hint div 4 < bitmap_bytes ?n" using assms(2) by (simp add: slot_byte_in_bitmap)
  have sm: "\<forall>x\<in>set ?x. x < 16384" using bitmap_bytes_small by simp
  show ?thesis
  proof (cases "scan_bitmap P pg ?x")
    case (Some s')
    with scan assms(1) have s: "s' = s" by simp
    note sc = scan_bitmap_Some [OF Some [unfolded s] sorted_upt sm]
    show ?thesis
    proof (cases "4 dvd ?n")
      case True
      then have "bitmap_bytes ?n * 4 = ?n" by (auto simp: bitmap_bytes_def dvd_def)
      moreover from sc have "s div 4 < bitmap_bytes ?n" by simp
      ultimately show ?thesis by linarith
    next
      case False
      with assms(3) obtain i where i: "4 * (hint div 4) \<le> i" "i < ?n" "slot_at P dp pg i = Free"
        by (auto simp: hint_safe_def)
      from i(1) have "hint div 4 \<le> i div 4" by linarith
      with i slot_byte_in_bitmap [OF i(2)] sc have "s \<le> i" by (simp add: slot_at_Free)
      with i show ?thesis by simp
    qed
  next
    case None
    then have "s div 4 < hint div 4"
      using scan assms(1) scan_bitmap_Some [of pg "[0..<hint div 4]" s] lt bitmap_bytes_small by force
    with assms(2) show ?thesis by (metis div_le_mono leI le_less_trans less_imp_le not_less)
  qed
qed

text \<open>
  Without that condition the scan leaves the page: when every record from the hint's bitmap byte on
  is occupied, the padding bits of the last byte pass for a free record beyond the last one.
\<close>

lemma find_free_slot_padding:
  assumes "\<not> 4 dvd m_max_num_recs dp" "hint < m_max_num_recs dp"
    and occ: "\<And>i. 4 * (hint div 4) \<le> i \<Longrightarrow> i < m_max_num_recs dp \<Longrightarrow> slot_at P dp pg i \<noteq> Free"
    and pad: "slot_at P dp pg (m_max_num_recs dp) = Free"
  shows "DataPage_find_free_slot P dp pg hint = Some (m_max_num_recs dp)"
proof (cases rule: find_free_slot_cases [of hint pg])
  case hint
  have "4 * (hint div 4) \<le> hint" by simp
  with hint occ show ?thesis by blast
next
  case scan
  let ?n = "m_max_num_recs dp"
  let ?x = "[hint div 4..<bitmap_bytes ?n]"
  have sm: "\<forall>x\<in>set ?x. x < 16384" using bitmap_bytes_small by simp
  have "?n div 4 < bitmap_bytes ?n" using assms(1) unfolding bitmap_bytes_def by presburger
  then have byte: "?n div 4 \<in> set ?x" using assms(2) by (simp add: div_le_mono)
  with pad have "scan_bitmap P pg ?x \<noteq> None"
    using scan_bitmap_None [of pg ?x ?n] by (auto simp: slot_at_Free)
  then obtain s where s: "scan_bitmap P pg ?x = Some s" by auto
  note sc = scan_bitmap_Some [OF s sorted_upt sm]
  from sc byte pad have "s \<le> ?n" by (simp add: slot_at_Free)
  moreover have "4 * (hint div 4) \<le> s" using sc by auto
  moreover have "slot_at P dp pg s = Free" using sc by (simp add: slot_at_Free)
  ultimately have "s = ?n" using occ by (meson le_neq_implies_less)
  with scan s show ?thesis by simp
qed

end

context data_layout
begin

lemma slot_at_write_header:
  assumes "off + 2 \<le> FREE_BITMAP_OFF" "i < m_max_num_recs dp"
  shows "slot_at P dp (write_integer_2 P pg off h) i = slot_at P dp pg i"
  using assms header_before_records rec_offset(1) [OF assms(2)]
  by (intro slot_at_cong) (simp_all add: status_write_header data_writes overwrite_out)

lemma data_bitmap_update:
  "get_data P (DataPage_set_record_delete P s pg) k
     = (if k = bitmap_byte_offset s then set_byte_bit (bitmap_bit_offset s) (get_data P pg k) else get_data P pg k)"
  "get_data P (DataPage_set_record_undelete P s pg) k
     = (if k = bitmap_byte_offset s then clear_byte_bit (bitmap_bit_offset s) (get_data P pg k) else get_data P pg k)"
  "k \<noteq> bitmap_byte_offset s \<Longrightarrow> get_data P (DataPage_set_record_free P s pg) k = get_data P pg k"
  "k \<noteq> bitmap_byte_offset s \<Longrightarrow> get_data P (DataPage_set_record_allocated P s pg) k = get_data P pg k"
  by (simp_all add: bitmap_updates Let_def data_write_byte read_1_byte DELETE_MARK_BIT_def)

lemma record_bytes_neq_bitmap:
  assumes "s < m_max_num_recs dp" "i < m_max_num_recs dp"
  shows "DataPage_get_record_offset dp i + k \<noteq> bitmap_byte_offset s"
  using bitmap_before_records [OF assms(1)] rec_offset(1) [OF assms(2)] by simp

lemma trx_bytes_neq_bitmap:
  assumes "s < m_max_num_recs dp" "i < m_max_num_recs dp"
  shows "slice (get_data P (DataPage_set_record_delete P s pg)) (DataPage_get_record_offset dp i + k) n
       = slice (get_data P pg) (DataPage_get_record_offset dp i + k) n"
    and "slice (get_data P (DataPage_set_record_undelete P s pg)) (DataPage_get_record_offset dp i + k) n
       = slice (get_data P pg) (DataPage_get_record_offset dp i + k) n"
  using record_bytes_neq_bitmap [OF assms]
  by (auto intro!: nth_equalityI simp: data_bitmap_update add.assoc)

lemma slot_at_set_record_delete:
  assumes "s < m_max_num_recs dp" "i < m_max_num_recs dp"
  shows "slot_at P dp (DataPage_set_record_delete P s pg) i =
    (if i = s then (case slot_at P dp pg s of Free \<Rightarrow> Free | Occupied d t bs \<Rightarrow> Occupied True t bs)
     else slot_at P dp pg i)"
  using trx_bytes_neq_bitmap(1) [OF assms] trx_bytes_neq_bitmap(1) [OF assms, where k = 0]
  by (auto simp: slot_at_def Let_def split_beta status_updates read_8 be_read_def)

lemma slot_at_set_record_undelete:
  assumes "s < m_max_num_recs dp" "i < m_max_num_recs dp"
  shows "slot_at P dp (DataPage_set_record_undelete P s pg) i =
    (if i = s then (case slot_at P dp pg s of Free \<Rightarrow> Free | Occupied d t bs \<Rightarrow> Occupied False t bs)
     else slot_at P dp pg i)"
  using trx_bytes_neq_bitmap(2) [OF assms] trx_bytes_neq_bitmap(2) [OF assms, where k = 0]
  by (auto simp: slot_at_def Let_def split_beta status_updates read_8 be_read_def)

lemma slot_at_set_record_free:
  assumes "s < m_max_num_recs dp" "i < m_max_num_recs dp"
  shows "slot_at P dp (DataPage_set_record_free P s pg) i = (if i = s then Free else slot_at P dp pg i)"
proof (cases "i = s")
  case True
  then show ?thesis by (simp add: slot_at_Free status_updates)
next
  case False
  with assms show ?thesis
    by (simp, intro slot_at_cong) (simp_all add: status_updates data_bitmap_update record_bytes_neq_bitmap)
qed

text \<open>Writing the transaction reference of a record (the second half of \<^verbatim>\<open>mark_delete\<close>).\<close>

lemma slot_at_write_trx:
  assumes "s < m_max_num_recs dp" "i < m_max_num_recs dp"
  shows "slot_at P dp (write_integer_8 P pg (DataPage_get_record_offset dp s) t) i =
    (if i = s then (case slot_at P dp pg s of Free \<Rightarrow> Free | Occupied d _ bs \<Rightarrow> Occupied d t bs)
     else slot_at P dp pg i)"
proof (cases "i = s")
  case True
  let ?o = "DataPage_get_record_offset dp s"
  have "slice (get_data P (write_integer_8 P pg ?o t)) (?o + TRX_REF_SIZE) n
      = slice (get_data P pg) (?o + TRX_REF_SIZE) n" for n
    by (simp add: data_writes slice_overwrite_disj disj_ranges_def layout_defs)
  with True assms show ?thesis
    by (simp add: slot_at_def Let_def split_beta status_write_record rec_offset(1))
next
  case False
  have d: "disj_ranges (DataPage_get_record_offset dp s) (m_rec_size dp) (DataPage_get_record_offset dp i) (m_rec_size dp)"
    using rec_offset_disj [OF assms] False by simp
  with False assms rec_size show ?thesis
    by (simp, intro slot_at_cong)
      (auto simp: status_write_record rec_offset(1) data_writes disj_ranges_def intro!: overwrite_out)
qed

end

lemma slice_overwrite_inside:
  assumes "off + length bs \<le> n"
  shows "slice (overwrite f (b + off) bs) b n
       = take off (slice f b n) @ bs @ drop (off + length bs) (slice f b n)"
proof (rule nth_equalityI)
  fix i assume "i < length (slice (overwrite f (b + off) bs) b n)"
  then show "slice (overwrite f (b + off) bs) b n ! i
      = (take off (slice f b n) @ bs @ drop (off + length bs) (slice f b n)) ! i"
    using assms by (auto simp: nth_append overwrite_def)
qed (use assms in simp)

context data_layout
begin

lemma slot_at_write_data:
  assumes "s < m_max_num_recs dp" "i < m_max_num_recs dp" "off + length bs \<le> m_rec_size dp - TRX_REF_SIZE"
  shows "slot_at P dp (write_string P pg (DataPage_get_record_offset dp s + TRX_REF_SIZE + off) bs) i =
    (if i = s then (case slot_at P dp pg s of Free \<Rightarrow> Free
       | Occupied d t old \<Rightarrow> Occupied d t (take off old @ bs @ drop (off + length bs) old))
     else slot_at P dp pg i)"
proof (cases "i = s")
  case True
  let ?o = "DataPage_get_record_offset dp s"
  let ?pg = "write_string P pg (?o + TRX_REF_SIZE + off) bs"
  have "slice (get_data P ?pg) (?o + TRX_REF_SIZE) (m_rec_size dp - TRX_REF_SIZE)
      = take off (slice (get_data P pg) (?o + TRX_REF_SIZE) (m_rec_size dp - TRX_REF_SIZE)) @ bs
        @ drop (off + length bs) (slice (get_data P pg) (?o + TRX_REF_SIZE) (m_rec_size dp - TRX_REF_SIZE))"
    using assms(3) by (simp add: data_writes slice_overwrite_inside)
  moreover have "read_integer_8 P ?pg ?o = read_integer_8 P pg ?o"
    by (simp add: read_8 data_writes be_read_overwrite_disj disj_ranges_def layout_defs)
  moreover have "DataPage_get_record_status P ?pg s = DataPage_get_record_status P pg s"
    using assms by (simp add: status_write_record rec_offset(1))
  ultimately show ?thesis using True by (simp add: slot_at_def Let_def split_beta)
next
  case False
  have d: "disj_ranges (DataPage_get_record_offset dp s) (m_rec_size dp) (DataPage_get_record_offset dp i) (m_rec_size dp)"
    using rec_offset_disj [OF assms(1,2)] False by simp
  with False assms show ?thesis
    by (simp, intro slot_at_cong)
      (auto simp: status_write_record rec_offset(1) data_writes disj_ranges_def intro!: overwrite_out)
qed

lemma slot_at_set_record_allocated:
  assumes "s < m_max_num_recs dp" "i < m_max_num_recs dp"
  shows "slot_at P dp (DataPage_set_record_allocated P s pg) i =
    (if i = s then Occupied False (read_integer_8 P pg (DataPage_get_record_offset dp s))
       (slice (get_data P pg) (DataPage_get_record_offset dp s + TRX_REF_SIZE) (m_rec_size dp - TRX_REF_SIZE))
     else slot_at P dp pg i)"
proof (cases "i = s")
  case True
  have "slice (get_data P (DataPage_set_record_allocated P s pg)) (DataPage_get_record_offset dp s + k) n
      = slice (get_data P pg) (DataPage_get_record_offset dp s + k) n" for k n
    using record_bytes_neq_bitmap [OF assms(1,1)]
    by (auto intro!: nth_equalityI simp: data_bitmap_update add.assoc)
  from this [of 0] this [of TRX_REF_SIZE] True show ?thesis
    by (simp add: slot_at_def Let_def split_beta status_updates read_8 be_read_def)
next
  case False
  with assms show ?thesis
    by (simp, intro slot_at_cong) (simp_all add: status_updates data_bitmap_update record_bytes_neq_bitmap)
qed

text \<open>Insertion occupies exactly the chosen slot.\<close>

lemma DataPage_insert_slots:
  assumes ins: "DataPage_insert P dp trx data hint pg = (pg', s, h)"
    and s: "s < m_max_num_recs dp" and len: "length data = m_rec_size dp - TRX_REF_SIZE"
    and i: "i < m_max_num_recs dp"
  shows "slot_at P dp pg' i = (if i = s then Occupied False trx data else slot_at P dp pg i)"
proof -
  let ?o = "DataPage_get_record_offset dp s"
  let ?pg1 = "write_integer_8 P pg ?o trx"
  let ?pg2 = "write_string P ?pg1 (?o + TRX_REF_SIZE) data"
  have "?o + TRX_REF_SIZE < 65536"
    using rec_offset [OF s] layout rec_size by (simp add: layout_ok_def layout_defs)
  with ins s have pg': "pg' = write_integer_2 P (DataPage_set_record_allocated P s ?pg2) NUM_FREE_RECS_OFF
      (read_integer_2 P pg NUM_FREE_RECS_OFF - 1)"
    by (auto simp: DataPage_insert_def Let_def split: prod.splits)
  have "read_integer_8 P ?pg2 ?o = trx"
    by (simp add: read_8 data_writes be_read_overwrite_disj be_read_overwrite_same disj_ranges_def layout_defs)
  moreover have "slice (get_data P ?pg2) (?o + TRX_REF_SIZE) (m_rec_size dp - TRX_REF_SIZE) = data"
    using len by simp
  moreover have "slot_at P dp ?pg2 i = slot_at P dp pg i" if "i \<noteq> s"
    using slot_at_write_data [OF s i, of 0 data ?pg1] slot_at_write_trx [OF s i, of pg trx] that len by simp
  ultimately show ?thesis
    unfolding pg' using s i
    by (simp add: slot_at_write_header slot_at_set_record_allocated layout_defs)
qed

lemma header_read_2_cong:
  "(\<And>k. k < FREE_BITMAP_OFF \<Longrightarrow> get_data P pg k = get_data P pg' k) \<Longrightarrow> off + 2 \<le> FREE_BITMAP_OFF \<Longrightarrow>
   read_integer_2 P pg off = read_integer_2 P pg' off"
  by (simp add: read_2 be_read_def slice_cong [of off 2 "get_data P pg" "get_data P pg'"])

lemma DataPage_insert_header:
  assumes ins: "DataPage_insert P dp trx data hint pg = (pg', s, h)" and s: "s < m_max_num_recs dp"
  shows "same_header P pg pg'"
    and "read_integer_2 P pg' NUM_FREE_RECS_OFF = read_integer_2 P pg NUM_FREE_RECS_OFF - 1"
    and "read_integer_2 P pg' MAX_NUM_RECS_OFF = read_integer_2 P pg MAX_NUM_RECS_OFF"
proof -
  let ?o = "DataPage_get_record_offset dp s"
  have o: "FREE_BITMAP_OFF \<le> ?o" "?o + TRX_REF_SIZE < 65536"
    using rec_offset [OF s] layout rec_size header_before_records
    by (auto simp: layout_ok_def layout_defs)
  with ins s have pg': "pg' = write_integer_2 P (DataPage_set_record_allocated P s
      (write_string P (write_integer_8 P pg ?o trx) (?o + TRX_REF_SIZE) data)) NUM_FREE_RECS_OFF
      (read_integer_2 P pg NUM_FREE_RECS_OFF - 1)"
    by (auto simp: DataPage_insert_def Let_def split: prod.splits)
  show hd: "same_header P pg pg'"
    unfolding pg' same_header_def using o header_before_bitmap [of s]
    by (auto simp: data_writes data_bitmap_update overwrite_out layout_defs)
  show "read_integer_2 P pg' NUM_FREE_RECS_OFF = read_integer_2 P pg NUM_FREE_RECS_OFF - 1"
    unfolding pg' by simp
  show "read_integer_2 P pg' MAX_NUM_RECS_OFF = read_integer_2 P pg MAX_NUM_RECS_OFF"
    using hd slice_cong [of MAX_NUM_RECS_OFF 2 "get_data P pg'" "get_data P pg"]
    by (simp add: same_header_def read_2 be_read_def layout_defs)
qed

lemma DataPage_insert_inv:
  assumes ins: "DataPage_insert P dp trx data hint pg = (pg', s, h)"
    and s: "s < m_max_num_recs dp" "slot_at P dp pg s = Free"
    and len: "length data = m_rec_size dp - TRX_REF_SIZE" and inv: "data_page_inv P dp pg"
  shows "data_page_inv P dp pg'"
proof -
  let ?n = "m_max_num_recs dp" and ?c = "\<lambda>pg. count_below (m_max_num_recs dp) (\<lambda>i. slot_at P dp pg i = Free)"
  have "?c pg = Suc (?c pg')"
    using s len by (intro count_below_clear [of s]) (auto simp: DataPage_insert_slots [OF ins])
  moreover have "unat (read_integer_2 P pg NUM_FREE_RECS_OFF) = ?c pg"
    using inv by (simp add: data_page_inv_def)
  ultimately have "unat (read_integer_2 P pg NUM_FREE_RECS_OFF - 1) = ?c pg'"
    by (subst unat_minus_one) auto
  then show ?thesis
    using inv DataPage_insert_header [OF ins s(1)] by (simp add: data_page_inv_def)
qed

end

context data_layout
begin

text \<open>Purge frees exactly the named slot, and only for the transaction recorded in it.\<close>

lemma DataPage_purge_cases:
  assumes s: "s < m_max_num_recs dp"
  shows "DataPage_purge P dp s trx pg =
    (case slot_at P dp pg s of
       Free \<Rightarrow> Some (pg, False)
     | Occupied d t bs \<Rightarrow>
         if t \<noteq> trx then Some (pg, False)
         else Some (write_integer_2 P (DataPage_set_record_free P s pg) NUM_FREE_RECS_OFF
                     (read_integer_2 P pg NUM_FREE_RECS_OFF + 1), True))"
proof -
  have "read_integer_2 P (DataPage_set_record_free P s pg) NUM_FREE_RECS_OFF
      = read_integer_2 P pg NUM_FREE_RECS_OFF"
    using header_before_bitmap [of s]
    by (intro header_read_2_cong) (auto simp: data_bitmap_update layout_defs)
  with s show ?thesis
    by (simp add: DataPage_purge_def Let_def split_beta slot_at_def)
qed

lemma DataPage_purge_slots:
  assumes pu: "DataPage_purge P dp s trx pg = Some (pg', purged)"
    and s: "s < m_max_num_recs dp" and i: "i < m_max_num_recs dp"
  shows "slot_at P dp pg' i = (if i = s \<and> purged then Free else slot_at P dp pg i)"
    and "purged \<longleftrightarrow> (\<exists>d bs. slot_at P dp pg s = Occupied d trx bs)"
  using pu s i
  by (auto simp: DataPage_purge_cases slot_at_write_header slot_at_set_record_free layout_defs
      split: slot_state.splits if_splits)

lemma DataPage_purge_header:
  assumes pu: "DataPage_purge P dp s trx pg = Some (pg', purged)" and s: "s < m_max_num_recs dp"
  shows "same_header P pg pg'"
    and "read_integer_2 P pg' NUM_FREE_RECS_OFF
      = read_integer_2 P pg NUM_FREE_RECS_OFF + (if purged then 1 else 0)"
    and "read_integer_2 P pg' MAX_NUM_RECS_OFF = read_integer_2 P pg MAX_NUM_RECS_OFF"
proof -
  show hd: "same_header P pg pg'"
    using pu s header_before_bitmap [of s]
    by (auto simp: DataPage_purge_cases same_header_def data_writes data_bitmap_update overwrite_out
        layout_defs split: slot_state.splits if_splits)
  show "read_integer_2 P pg' NUM_FREE_RECS_OFF
      = read_integer_2 P pg NUM_FREE_RECS_OFF + (if purged then 1 else 0)"
    using pu s by (auto simp: DataPage_purge_cases split: slot_state.splits if_splits)
  show "read_integer_2 P pg' MAX_NUM_RECS_OFF = read_integer_2 P pg MAX_NUM_RECS_OFF"
    using hd slice_cong [of MAX_NUM_RECS_OFF 2 "get_data P pg'" "get_data P pg"]
    by (simp add: same_header_def read_2 be_read_def layout_defs)
qed

lemma DataPage_purge_inv:
  assumes pu: "DataPage_purge P dp s trx pg = Some (pg', purged)"
    and s: "s < m_max_num_recs dp" and inv: "data_page_inv P dp pg"
  shows "data_page_inv P dp pg'"
proof -
  let ?n = "m_max_num_recs dp" and ?c = "\<lambda>pg. count_below (m_max_num_recs dp) (\<lambda>i. slot_at P dp pg i = Free)"
  note hd = DataPage_purge_header [OF pu s] and sl = DataPage_purge_slots [OF pu s]
  have c: "unat (read_integer_2 P pg NUM_FREE_RECS_OFF) = ?c pg" using inv by (simp add: data_page_inv_def)
  have "unat (read_integer_2 P pg' NUM_FREE_RECS_OFF) = ?c pg'"
  proof (cases purged)
    case True
    have "?c pg' = Suc (?c pg)"
      using s True sl by (intro count_below_clear [of s]) auto
    moreover have "?c pg' \<le> 16384" using count_below_le max_num_recs_le by (rule le_trans)
    ultimately have "unat (read_integer_2 P pg NUM_FREE_RECS_OFF + 1) = ?c pg'"
      using c by (subst unat_word_ariths) simp
    with True hd(2) show ?thesis by simp
  next
    case False
    then have "?c pg' = ?c pg" using sl by (intro count_below_cong) simp
    with False c hd(2) show ?thesis by simp
  qed
  with inv hd(3) show ?thesis by (simp add: data_page_inv_def)
qed

text \<open>A formatted page has all its records free and is in no free list.\<close>

lemma DataPage_format_reads:
  "read_integer_2 P (DataPage_format P dp v r pg) FREE_SLOT_NUMBER_OFF = INVALID_SLOT"
  "read_integer_4 P (DataPage_format P dp v r pg) ROOT_PAGE_REF_OFF = r"
  "read_integer_4 P (DataPage_format P dp v r pg) PREV_FREE_PAGE_OFF = INVALID_REF"
  "read_integer_4 P (DataPage_format P dp v r pg) NEXT_FREE_PAGE_OFF = INVALID_REF"
  "read_integer_2 P (DataPage_format P dp v r pg) MAX_NUM_RECS_OFF = word_of_nat (m_max_num_recs dp)"
  "read_integer_2 P (DataPage_format P dp v r pg) NUM_FREE_RECS_OFF = word_of_nat (m_max_num_recs dp)"
  "FREE_BITMAP_OFF \<le> k \<Longrightarrow> get_data P (DataPage_format P dp v r pg) k = get_data P pg k"
  by (simp_all add: DataPage_format_def Let_def read_2 read_4 data_writes be_read_overwrite_disj
      be_read_overwrite_same disj_ranges_def layout_defs overwrite_out)

lemma DataPage_format_inv:
  assumes "\<And>k. FREE_BITMAP_OFF \<le> k \<Longrightarrow> get_data P pg k = 0"
  shows "data_page_inv P dp (DataPage_format P dp v r pg)"
    and "i < m_max_num_recs dp \<Longrightarrow> slot_at P dp (DataPage_format P dp v r pg) i = Free"
proof -
  have free: "slot_at P dp (DataPage_format P dp v r pg) i = Free" for i
    using assms header_before_bitmap [of i]
    by (simp add: slot_at_Free get_record_status_bits DataPage_format_reads)
  then show "slot_at P dp (DataPage_format P dp v r pg) i = Free" .
  have "unat (word_of_nat (m_max_num_recs dp) :: 16 word) = m_max_num_recs dp"
    using max_num_recs_le by (simp add: unat_of_nat)
  with free show "data_page_inv P dp (DataPage_format P dp v r pg)"
    by (simp add: data_page_inv_def DataPage_format_reads count_below_all)
qed

end

subsection \<open>Column references\<close>

lemma mask_32: "(0xFFFFFFFF :: column_ref) = mask 32"
  by (simp add: mask_eq_exp_minus_1)

lemma mask_14: "(word_of_nat MAX_SLOT_INDEX :: column_ref) = mask 14"
  by (simp add: mask_eq_exp_minus_1 MAX_SLOT_INDEX_def SLOT_INDEX_BITS_def)

lemma small_slot_bits: "s < 16384 \<Longrightarrow> bit s n \<Longrightarrow> n < (14 :: nat)" for s :: nat
proof -
  assume "s < 16384" "bit s n"
  then have "bit (take_bit 14 s) n" by (simp add: take_bit_nat_eq_self)
  then show ?thesis by (simp add: bit_take_bit_iff)
qed

lemma decode_column_ref_page:
  "fst (DataPage_decode_column_ref (DataPage_encode_column_ref r s OR push_bit 46 x)) = r"
  unfolding DataPage_decode_column_ref_def DataPage_encode_column_ref_def mask_32 fst_conv
  by (rule bit_word_eqI) (auto simp: bit_simps)

lemma decode_column_ref_slot:
  assumes s: "s < 16384"
  shows "snd (DataPage_decode_column_ref (DataPage_encode_column_ref r s OR push_bit 46 x)) = s"
proof -
  have "drop_bit 32 (DataPage_encode_column_ref r s OR push_bit 46 x) AND mask 14 = word_of_nat s"
    unfolding DataPage_encode_column_ref_def
    by (rule bit_word_eqI) (use s in \<open>auto simp: bit_simps dest: small_slot_bits bit_imp_le_length\<close>)
  with s show ?thesis unfolding DataPage_decode_column_ref_def mask_14 by (simp add: unat_of_nat)
qed

lemma encode_column_ref_high:
  "s < 16384 \<Longrightarrow> drop_bit 46 (DataPage_encode_column_ref r s) = 0"
  unfolding DataPage_encode_column_ref_def
  by (rule bit_word_eqI) (auto simp: bit_simps dest: small_slot_bits bit_imp_le_length)

lemma decode_encode_column_ref [simp]:
  "s < 16384 \<Longrightarrow> DataPage_decode_column_ref (DataPage_encode_column_ref r s) = (r, s)"
  using decode_column_ref_page [of r s 0] decode_column_ref_slot [of s r 0] by (simp add: prod_eq_iff)

subsection \<open>Properties of data pages\<close>

text \<open>
  Column references round trip. Decoding the reference of a page and a slot index up to
  \<open>MAX_SLOT_INDEX\<close> gives them back, even when a consumer has put its own data \<open>x\<close> into the
  bits above bit 45, and those bits are zero in every reference the encoder makes.
\<close>

theorem column_ref_roundtrip:
  assumes "s \<le> MAX_SLOT_INDEX"
  shows "DataPage_decode_column_ref (DataPage_encode_column_ref r s OR push_bit 46 x) = (r, s)
    \<and> drop_bit 46 (DataPage_encode_column_ref r s) = 0"
proof -
  have "s < 16384" using assms by (simp add: MAX_SLOT_INDEX_def SLOT_INDEX_BITS_def)
  then show ?thesis
    by (simp add: prod_eq_iff decode_column_ref_page decode_column_ref_slot encode_column_ref_high)
qed

theorem column_ref_roundtrip_witness:
  "(5 :: nat) \<le> MAX_SLOT_INDEX
   \<and> DataPage_decode_column_ref (DataPage_encode_column_ref 7 5 OR push_bit 46 1) = (7, 5)
   \<and> drop_bit 46 (DataPage_encode_column_ref 7 5) = 0"
proof -
  have "(5 :: nat) \<le> MAX_SLOT_INDEX" by (simp add: MAX_SLOT_INDEX_def SLOT_INDEX_BITS_def)
  with column_ref_roundtrip [OF this, of 7 1] show ?thesis by blast
qed

lemma DataPage_init_layout:
  assumes "page_size \<le> 65536" "0 < col_len" "TRX_REF_SIZE + col_len < avail_space page_size"
  shows "layout_ok page_size (DataPage_init page_size col_len)"
proof -
  let ?dp = "DataPage_init page_size col_len" and ?A = "avail_space page_size"
  have le: "TRX_REF_SIZE + col_len \<le> ?A" using assms by simp
  note post = DataPage_init_post [OF assms(1,2) le]
  have ok: "refine_ok ?A (m_rec_size ?dp)"
    using assms post(1) by (auto simp: refine_ok_def layout_defs avail_space_def)
  have "0 < m_max_num_recs ?dp" using refine_post_pos [OF ok post(3)] assms post(1) by simp
  moreover have "m_free_bitmap_size ?dp + m_max_num_recs ?dp * m_rec_size ?dp \<le> ?A"
    by (rule refine_post_fits [OF ok post(3)])
  ultimately show ?thesis using post assms
    by (auto simp: layout_ok_def layout_defs avail_space_def MAX_SLOT_INDEX_def SLOT_INDEX_BITS_def)
qed

text \<open>
  The layout computed by \<open>DataPage_init\<close> fits its page. For every page size up to 64 KB and
  every column length that leaves room for one record and its bitmap, there is at least one record,
  slot indices stay encodable, records start right behind the bitmap, and bitmap, records and
  trailer end inside the page.
\<close>

theorem data_page_layout_fits:
  assumes "page_size \<le> 65536" "0 < col_len" "TRX_REF_SIZE + col_len < avail_space page_size"
  shows "layout_ok page_size (DataPage_init page_size col_len)"
  using assms by (rule DataPage_init_layout)

theorem data_page_layout_fits_witness:
  "TRX_REF_SIZE + 16 < avail_space 16384 \<and> layout_ok 16384 (DataPage_init 16384 16)"
proof -
  have "TRX_REF_SIZE + 16 < avail_space 16384" by (simp add: avail_space_def layout_defs)
  with data_page_layout_fits [of 16384 16] show ?thesis by simp
qed

text \<open>
  C40: where the layout goes wrong. When the bitmap of the computed layout does not cover all
  records, the refinement loop has run into its iteration limit between two counts: the record
  count is \<open>4 * b + 1\<close> for \<open>b\<close> bitmap bytes and these fill the page exactly. The last
  record's status bits then lie in the first byte of the first record. The witness is a column of
  1247 bytes on a 16 KB page: 13 records, 3 bitmap bytes.
\<close>

theorem data_page_bitmap_shortfall:
  fixes page_size col_len :: nat
  defines "dp \<equiv> DataPage_init page_size col_len"
  assumes "page_size \<le> 65536" "0 < col_len" "TRX_REF_SIZE + col_len \<le> avail_space page_size"
    and "\<not> bitmap_covers dp"
  shows "m_max_num_recs dp = 4 * m_free_bitmap_size dp + 1
    \<and> avail_space page_size = m_max_num_recs dp * m_rec_size dp + m_free_bitmap_size dp
    \<and> bitmap_byte_offset (m_max_num_recs dp - 1) = m_first_rec_offset dp"
proof -
  note post = DataPage_init_post [OF assms(2-4), folded dp_def]
  have ok: "refine_ok (avail_space page_size) (m_rec_size dp)"
    using assms post(1) by (auto simp: refine_ok_def layout_defs avail_space_def)
  have "m_free_bitmap_size dp < bitmap_bytes (m_max_num_recs dp)"
    using assms(5) by (simp add: bitmap_covers_def)
  from bitmap_uncovered [OF ok post(3) this] show ?thesis
    using post(2) by (simp add: bitmap_byte_offset_div)
qed

theorem data_page_bitmap_shortfall_witness:
  "\<not> bitmap_covers (DataPage_init 16384 1247) \<and> m_max_num_recs (DataPage_init 16384 1247) = 13
   \<and> m_free_bitmap_size (DataPage_init 16384 1247) = 3
   \<and> bitmap_byte_offset 12 = m_first_rec_offset (DataPage_init 16384 1247)"
proof -
  have i: "DataPage_init 16384 1247 = \<lparr>m_rec_size = 1255, m_free_bitmap_size = 3, m_max_num_recs = 13,
      m_first_rec_offset = 61\<rparr>"
    by (simp add: DataPage_init_def Let_def layout_defs refine_max_recs.simps bits_to_bytes_ceil_def
        MAX_ITERATIONS_def MAX_SLOT_INDEX_def SLOT_INDEX_BITS_def)
  have "\<not> bitmap_covers (DataPage_init 16384 1247)" by (simp add: i bitmap_covers_def bitmap_bytes_def)
  with data_page_bitmap_shortfall [of 16384 1247] show ?thesis
    by (simp add: i layout_defs avail_space_def)
qed

lemma svector_no_shortfall:
  fixes k d :: nat
  assumes "16318 = (4 * k + 1) * (8 + 4 * d) + k" "0 < d"
  shows False
proof -
  have "k mod 4 = 2"
  proof -
    have "16318 = 4 * (k * (8 + 4 * d) + (2 + d)) + k" using assms(1) by (simp add: algebra_simps)
    then show ?thesis by presburger
  qed
  then obtain j where k: "k = 4 * j + 2" by (metis div_mult_mod_eq mult.commute)
  have eq: "4079 = (16 * j + 9) * (2 + d) + j"
    using assms(1) unfolding k by (simp add: algebra_simps)
  have "(16 * j + 9) * 3 \<le> (16 * j + 9) * (2 + d)" using assms(2) by (intro mult_le_mono2) simp
  then have "(16 * j + 9) * 3 + j \<le> 4079" unfolding eq by simp
  then have "j < 85" by simp
  moreover have "(4079 - j) mod (16 * j + 9) = 0"
  proof -
    have "4079 - j = (16 * j + 9) * (2 + d)" using eq by linarith
    then show ?thesis by (simp only: mod_mult_self1_is_0)
  qed
  moreover have "list_all (\<lambda>j. (4079 - j) mod (16 * j + 9) \<noteq> 0) [0..<85]"
    by (simp add: upt_conv_Cons)
  moreover have "j \<in> set [0..<85]" using \<open>j < 85\<close> by (simp only: set_upt atLeastLessThan_iff) simp
  ultimately show False unfolding list_all_iff by (metis (no_types, lifting))
qed

lemma svector_covers:
  assumes "0 < d" "d \<le> 3072"
  shows "bitmap_covers (DataPage_init 16384 (4 * d))"
proof (rule ccontr)
  assume n: "\<not> bitmap_covers (DataPage_init 16384 (4 * d))"
  let ?dp = "DataPage_init 16384 (4 * d)"
  have "(0 :: nat) < 4 * d" "TRX_REF_SIZE + 4 * d \<le> avail_space 16384"
    using assms by (simp_all add: avail_space_def layout_defs)
  note post = DataPage_init_post [OF _ this]
  have ok: "refine_ok (avail_space 16384) (m_rec_size ?dp)"
    using assms post(1) by (auto simp: refine_ok_def layout_defs avail_space_def)
  have "m_free_bitmap_size ?dp < bitmap_bytes (m_max_num_recs ?dp)"
    using n by (simp add: bitmap_covers_def)
  from bitmap_uncovered [OF ok _ this] post
  have "avail_space 16384 = (4 * m_free_bitmap_size ?dp + 1) * (TRX_REF_SIZE + 4 * d) + m_free_bitmap_size ?dp"
    by simp
  then have "16318 = (4 * m_free_bitmap_size ?dp + 1) * (8 + 4 * d) + m_free_bitmap_size ?dp"
    by (simp add: avail_space_def layout_defs)
  then show False using assms(1) by (rule svector_no_shortfall)
qed

text \<open>
  No SVECTOR column is affected. On the default 16 KB page the layout of every dimension from 1
  to the maximum of 3072 (four bytes each) has a bitmap that covers all its records.
\<close>

theorem svector_bitmap_covers:
  assumes "0 < d" "d \<le> 3072"
  shows "bitmap_covers (DataPage_init 16384 (4 * d))"
  using assms by (rule svector_covers)

theorem svector_bitmap_covers_witness:
  "(0 :: nat) < 4 \<and> bitmap_covers (DataPage_init 16384 16)"
  using svector_bitmap_covers [of 4] by simp

interpretation fake16: data_layout fake_api 16384 "DataPage_init 16384 16"
proof
  show "layout_ok 16384 (DataPage_init 16384 16)"
    by (rule DataPage_init_layout) (simp_all add: avail_space_def layout_defs)
  show "bitmap_covers (DataPage_init 16384 16)"
    using svector_covers [of 4] by simp
qed

definition fake16_page :: buffer where
  "fake16_page = DataPage_format fake_api (DataPage_init 16384 16) 1 7 (new_page fake_api)"

lemma fake16_page_facts:
  "data_page_inv fake_api (DataPage_init 16384 16) fake16_page"
  "i < m_max_num_recs (DataPage_init 16384 16) \<Longrightarrow> slot_at fake_api (DataPage_init 16384 16) fake16_page i = Free"
  "0 < m_max_num_recs (DataPage_init 16384 16)"
  "hint_safe fake_api (DataPage_init 16384 16) fake16_page 0"
proof -
  have z: "get_data fake_api (new_page fake_api) k = 0" if "FREE_BITMAP_OFF \<le> k" for k
    using that fake.new_page_zero [of k] by (simp add: layout_defs)
  show "data_page_inv fake_api (DataPage_init 16384 16) fake16_page"
    unfolding fake16_page_def by (rule fake16.DataPage_format_inv(1) [OF z])
  show free: "slot_at fake_api (DataPage_init 16384 16) fake16_page i = Free"
    if "i < m_max_num_recs (DataPage_init 16384 16)" for i
    unfolding fake16_page_def by (rule fake16.DataPage_format_inv(2) [OF z that])
  show pos: "0 < m_max_num_recs (DataPage_init 16384 16)"
    using fake16.layout by (simp add: layout_ok_def)
  show "hint_safe fake_api (DataPage_init 16384 16) fake16_page 0"
    unfolding hint_safe_def using free pos by (intro disjI2 bexI [of _ 0]) simp_all
qed

text \<open>
  The search for a free slot is sound and complete. On a well-formed layout, for a hint inside
  the page with a free record in its bitmap byte or after it (or no padding bits in the bitmap), a
  result is a free record of the page, and no result means that every record is occupied.
\<close>

theorem find_free_slot_correct:
  assumes "data_layout P page_size dp" "hint < m_max_num_recs dp" "hint_safe P dp pg hint"
  shows "case DataPage_find_free_slot P dp pg hint of
      Some s \<Rightarrow> s < m_max_num_recs dp \<and> slot_at P dp pg s = Free
    | None \<Rightarrow> (\<forall>i < m_max_num_recs dp. slot_at P dp pg i \<noteq> Free)"
proof -
  have "hint < 65536" using assms(2) data_layout.max_num_recs_le [OF assms(1)] by linarith
  with assms show ?thesis
    by (auto split: option.split intro: data_layout.find_free_slot_in_range
        data_layout.find_free_slot_free dest: data_layout.find_free_slot_None)
qed

theorem find_free_slot_correct_witness:
  "data_layout fake_api 16384 (DataPage_init 16384 16) \<and> 0 < m_max_num_recs (DataPage_init 16384 16)
   \<and> hint_safe fake_api (DataPage_init 16384 16) fake16_page 0
   \<and> (case DataPage_find_free_slot fake_api (DataPage_init 16384 16) fake16_page 0 of
        Some s \<Rightarrow> s < m_max_num_recs (DataPage_init 16384 16) | None \<Rightarrow> False)"
proof -
  note h = fake16.data_layout_axioms fake16_page_facts(3,4)
  from find_free_slot_correct [OF h] fake16_page_facts(2,3) h show ?thesis
    by (auto split: option.splits)
qed

definition fake5_dp :: data_page where
  "fake5_dp = \<lparr>m_rec_size = 3208, m_free_bitmap_size = 2, m_max_num_recs = 5, m_first_rec_offset = 60\<rparr>"

text \<open>
  The page of the counterexample: slots 1 to 4 are occupied, slot 0 is free.
\<close>

definition fake5_page :: buffer where
  "fake5_page = (DataPage_format fake_api fake5_dp 1 7 (new_page fake_api))(58 := 0xA8, 59 := 0x02)"

text \<open>
  C38: the search leaves the page when the hint's byte and all later ones hold no free record but
  the last bitmap byte has padding bits. These read as a free record, so the search
  returns the index one past the last record, although the page may have free records before the
  hint. The witness is a column of 3200 bytes on a 16 KB page: five records, slot 0 free, hint 4.
\<close>

theorem find_free_slot_overrun:
  assumes "data_layout P page_size dp" "\<not> 4 dvd m_max_num_recs dp" "hint < m_max_num_recs dp"
    and "\<And>i. 4 * (hint div 4) \<le> i \<Longrightarrow> i < m_max_num_recs dp \<Longrightarrow> slot_at P dp pg i \<noteq> Free"
    and "snd (DataPage_get_record_status P pg (m_max_num_recs dp))"
  shows "DataPage_find_free_slot P dp pg hint = Some (m_max_num_recs dp)"
  using assms by (intro data_layout.find_free_slot_padding) (simp_all add: slot_at_Free)

theorem find_free_slot_overrun_witness:
  "DataPage_init 16384 3200 = fake5_dp \<and> data_layout fake_api 16384 fake5_dp
   \<and> slot_at fake_api fake5_dp fake5_page 0 = Free
   \<and> DataPage_find_free_slot fake_api fake5_dp fake5_page 4 = Some 5 \<and> m_max_num_recs fake5_dp = 5"
proof -
  have i: "DataPage_init 16384 3200 = fake5_dp"
    by (simp add: fake5_dp_def DataPage_init_def Let_def layout_defs refine_max_recs.simps
        bits_to_bytes_ceil_def MAX_ITERATIONS_def MAX_SLOT_INDEX_def SLOT_INDEX_BITS_def)
  have l: "data_layout fake_api 16384 fake5_dp"
    by unfold_locales (simp_all add: layout_ok_def bitmap_covers_def bitmap_bytes_def fake5_dp_def
        layout_defs MAX_SLOT_INDEX_def SLOT_INDEX_BITS_def)
  have st: "slot_at fake_api fake5_dp fake5_page i = Free
      \<longleftrightarrow> \<not> bit (fake5_page (58 + i div 4)) (2 * (i mod 4) + 1)" for i
  proof -
    have "get_data fake_api p = p" for p by (simp add: fake_api_def)
    then show ?thesis
      by (simp add: slot_at_Free fake.get_record_status_bits bitmap_byte_offset_def bitmap_bit_offset_def
          layout_defs mult_mod_right mult.commute)
  qed
  have "slot_at fake_api fake5_dp fake5_page 0 = Free" "slot_at fake_api fake5_dp fake5_page 4 \<noteq> Free"
    "slot_at fake_api fake5_dp fake5_page 5 = Free"
    unfolding st by (simp_all add: fake5_page_def)
  note sl = this
  have n: "m_max_num_recs fake5_dp = 5" by (simp add: fake5_dp_def)
  have occ: "slot_at fake_api fake5_dp fake5_page i \<noteq> Free" if "4 * (4 div 4) \<le> i" "i < m_max_num_recs fake5_dp" for i
  proof -
    from that n have "i = 4" by simp
    with sl(2) show ?thesis by simp
  qed
  have "snd (DataPage_get_record_status fake_api fake5_page (m_max_num_recs fake5_dp))"
    using sl(3) n by (simp add: slot_at_Free)
  from find_free_slot_overrun [OF l _ _ occ this, of 4] i l n sl show ?thesis by simp
qed

lemma DataPage_insert_correct:
  assumes lay: "data_layout P page_size dp" and inv: "data_page_inv P dp pg"
    and hint: "hint < m_max_num_recs dp" "hint_safe P dp pg hint"
    and room: "0 < unat (read_integer_2 P pg NUM_FREE_RECS_OFF)"
    and len: "length col_data = m_rec_size dp - TRX_REF_SIZE"
  shows "case DataPage_insert P dp trx col_data hint pg of (pg', s, hint') \<Rightarrow>
      s < m_max_num_recs dp \<and> slot_at P dp pg s = Free
      \<and> (\<forall>i < m_max_num_recs dp. slot_at P dp pg' i =
            (if i = s then Occupied False trx col_data else slot_at P dp pg i))
      \<and> same_header P pg pg' \<and> data_page_inv P dp pg' \<and> hint' < m_max_num_recs dp"
proof -
  obtain pg' s hint' where ins: "DataPage_insert P dp trx col_data hint pg = (pg', s, hint')"
    by (cases "DataPage_insert P dp trx col_data hint pg")
  have ne: "\<exists>i < m_max_num_recs dp. slot_at P dp pg i = Free"
    using inv room by (simp add: data_page_inv_def count_below_pos)
  then have "DataPage_find_free_slot P dp pg hint \<noteq> None"
    using data_layout.find_free_slot_None [OF lay] by blast
  then have f: "DataPage_find_free_slot P dp pg hint = Some s"
    using ins by (auto simp: DataPage_insert_def Let_def)
  have s: "s < m_max_num_recs dp" by (rule data_layout.find_free_slot_in_range [OF lay f hint])
  have "hint < 65536" using hint(1) data_layout.max_num_recs_le [OF lay] by linarith
  then have free: "slot_at P dp pg s = Free" by (rule data_layout.find_free_slot_free [OF lay f])
  have "hint' = (if s + 1 \<ge> m_max_num_recs dp then 0 else s + 1)"
    using ins by (auto simp: DataPage_insert_def Let_def)
  then have "hint' < m_max_num_recs dp" using s by auto
  then show ?thesis
    unfolding ins using s free data_layout.DataPage_insert_slots [OF lay ins s len]
      data_layout.DataPage_insert_header(1) [OF lay ins s]
      data_layout.DataPage_insert_inv [OF lay ins s free len inv] by simp
qed

text \<open>
  C37: insertion refines the slot array. On a page that satisfies the invariant and has a free
  record, for a hint as the search needs it and a value of the column's length, insertion takes a
  free slot, makes it hold the transaction and the value without a delete mark, leaves every other
  slot and the rest of the header alone, keeps the invariant and returns a hint inside the page.
\<close>

theorem data_page_insert_refines:
  assumes "data_layout P page_size dp" and "data_page_inv P dp pg"
    and "hint < m_max_num_recs dp" "hint_safe P dp pg hint"
    and "0 < unat (read_integer_2 P pg NUM_FREE_RECS_OFF)"
    and "length col_data = m_rec_size dp - TRX_REF_SIZE"
  shows "case DataPage_insert P dp trx col_data hint pg of (pg', s, hint') \<Rightarrow>
      s < m_max_num_recs dp \<and> slot_at P dp pg s = Free
      \<and> (\<forall>i < m_max_num_recs dp. slot_at P dp pg' i =
            (if i = s then Occupied False trx col_data else slot_at P dp pg i))
      \<and> same_header P pg pg' \<and> data_page_inv P dp pg' \<and> hint' < m_max_num_recs dp"
  using assms by (rule DataPage_insert_correct)

theorem data_page_insert_refines_witness:
  "let dp = DataPage_init 16384 16; col_data = replicate 16 (3 :: byte)
   in length col_data = m_rec_size dp - TRX_REF_SIZE \<and> data_page_inv fake_api dp fake16_page
     \<and> (case DataPage_insert fake_api dp 9 col_data 0 fake16_page of (pg', s, hint') \<Rightarrow>
          s < m_max_num_recs dp \<and> slot_at fake_api dp pg' s = Occupied False 9 col_data
          \<and> data_page_inv fake_api dp pg')"
proof -
  let ?dp = "DataPage_init 16384 16" and ?c = "replicate 16 (3 :: byte)"
  have len: "length ?c = m_rec_size ?dp - TRX_REF_SIZE"
    by (subst DataPage_init_post(1)) (simp_all add: avail_space_def layout_defs)
  have "0 < unat (read_integer_2 fake_api fake16_page NUM_FREE_RECS_OFF)"
    using fake16_page_facts by (auto simp: data_page_inv_def count_below_pos)
  from data_page_insert_refines [OF fake16.data_layout_axioms fake16_page_facts(1,3,4) this len, of 9] len
  show ?thesis by (auto simp: Let_def fake16_page_facts)
qed

text \<open>
  Purge refines the slot array. An index outside the page is an error; a free slot, or one that
  holds another transaction's record, is left alone and reported as not purged; otherwise exactly
  that slot becomes free, the rest of the header is kept and the counter stays exact.
\<close>

theorem data_page_purge_refines:
  assumes lay: "data_layout P page_size dp" and inv: "data_page_inv P dp pg"
  shows "case DataPage_purge P dp s trx pg of
      None \<Rightarrow> m_max_num_recs dp \<le> s
    | Some (pg', purged) \<Rightarrow> s < m_max_num_recs dp
        \<and> (purged \<longleftrightarrow> (\<exists>d bs. slot_at P dp pg s = Occupied d trx bs))
        \<and> (\<not> purged \<longrightarrow> pg' = pg)
        \<and> (\<forall>i < m_max_num_recs dp. slot_at P dp pg' i = (if i = s \<and> purged then Free else slot_at P dp pg i))
        \<and> same_header P pg pg' \<and> data_page_inv P dp pg'"
proof (cases "s < m_max_num_recs dp")
  case False
  then show ?thesis by (simp add: DataPage_purge_def)
next
  case s: True
  have "DataPage_purge P dp s trx pg \<noteq> None"
    using s by (auto simp add: data_layout.DataPage_purge_cases [OF lay] split: slot_state.split)
  then obtain pg' purged where pu: "DataPage_purge P dp s trx pg = Some (pg', purged)" by auto
  have "\<not> purged \<longrightarrow> pg' = pg"
    using pu s by (auto simp: data_layout.DataPage_purge_cases [OF lay] split: slot_state.splits if_splits)
  with s show ?thesis
    using data_layout.DataPage_purge_slots [OF lay pu s] data_layout.DataPage_purge_header(1) [OF lay pu s]
      data_layout.DataPage_purge_inv [OF lay pu s inv] by (simp add: pu)
qed

theorem data_page_purge_refines_witness:
  "let dp = DataPage_init 16384 16
   in slot_at fake_api dp fake16_page 2 = Free
     \<and> (case DataPage_purge fake_api dp 2 9 fake16_page of None \<Rightarrow> False
        | Some (pg', purged) \<Rightarrow> \<not> purged \<and> pg' = fake16_page)"
proof -
  have "2 < m_max_num_recs (DataPage_init 16384 16)"
    by (simp add: DataPage_init_def Let_def layout_defs refine_max_recs.simps
        bits_to_bytes_ceil_def MAX_ITERATIONS_def MAX_SLOT_INDEX_def SLOT_INDEX_BITS_def)
  with data_page_purge_refines [OF fake16.data_layout_axioms fake16_page_facts(1), of 2 9]
    fake16_page_facts(2) [of 2]
  show ?thesis by (auto split: option.splits)
qed

end
