(* ===== verification/Page_List.thy ===== *)
theory Page_List
  imports Fake_Storage
begin

text \<open>
  Doubly linked lists of pages. The free-page lists of a root page and the list of all its data
  pages have the same shape: a head reference outside the list, a forward and a backward link in
  every member. The predicate \<open>chain\<close> says that the links of a page map spell out a given
  list of page references; the lemmas are what happens when a page is pushed at the head or
  unlinked from anywhere. The locale \<open>link_fields\<close> is what a pair of link fields of a page
  promises; it is interpreted for the header links here and for the free-list links in
  \<^verbatim>\<open>Root_Page\<close>.
\<close>

fun chain :: "('r \<Rightarrow> 'r) \<Rightarrow> ('r \<Rightarrow> 'r) \<Rightarrow> 'r \<Rightarrow> 'r \<Rightarrow> 'r list \<Rightarrow> 'r \<Rightarrow> bool" where
  "chain nxt prv null p [] h \<longleftrightarrow> h = null"
| "chain nxt prv null p (x # xs) h \<longleftrightarrow>
     h = x \<and> x \<noteq> null \<and> prv x = p \<and> chain nxt prv null x xs (nxt x)"

lemma chain_cong:
  "(\<And>x. x \<in> set xs \<Longrightarrow> nxt' x = nxt x \<and> prv' x = prv x) \<Longrightarrow>
   chain nxt' prv' null p xs h = chain nxt prv null p xs h"
  by (induction xs arbitrary: p h) auto

lemma chain_head: "chain nxt prv null p xs h \<Longrightarrow> h = (if xs = [] then null else hd xs)"
  by (cases xs) auto

lemma chain_not_null: "chain nxt prv null p xs h \<Longrightarrow> null \<notin> set xs"
  by (induction xs arbitrary: p h) auto

lemma chain_prev:
  "chain nxt prv null p (xs @ x # ys) h \<Longrightarrow> prv x = (if xs = [] then p else last xs)"
  by (induction xs arbitrary: p h) (auto split: if_splits)

lemma chain_next:
  "chain nxt prv null p (xs @ x # ys) h \<Longrightarrow> nxt x = (if ys = [] then null else hd ys)"
  by (induction xs arbitrary: p h) (auto dest: chain_head)

text \<open>A list is determined by its links and its head.\<close>

lemma chain_unique:
  "chain nxt prv null p xs h \<Longrightarrow> chain nxt prv null p ys h \<Longrightarrow> xs = ys"
proof (induction xs arbitrary: p h ys)
  case Nil
  then show ?case by (cases ys) auto
next
  case (Cons x xs)
  then show ?case by (cases ys) auto
qed

text \<open>Pushing at the head writes the new page's links and the old head's backward link.\<close>

lemma chain_push:
  assumes "chain nxt prv null p xs h" "distinct xs" "x \<noteq> null" "x \<notin> set xs"
    and "nxt' x = h" "prv' x = p"
    and "\<And>y. y \<in> set xs \<Longrightarrow> nxt' y = nxt y"
    and "\<And>y. y \<in> set xs \<Longrightarrow> prv' y = (if y = h then x else prv y)"
  shows "chain nxt' prv' null p (x # xs) x"
proof (cases xs)
  case Nil
  with assms show ?thesis by simp
next
  case (Cons y ys)
  with assms have "h = y" by simp
  have "chain nxt' prv' null y ys (nxt y) = chain nxt prv null y ys (nxt y)"
    using assms Cons \<open>h = y\<close> by (intro chain_cong) auto
  with assms Cons \<open>h = y\<close> show ?thesis by auto
qed

text \<open>Unlinking a page writes one forward link (or the head) and one backward link.\<close>

lemma chain_remove:
  assumes "chain nxt prv null p (xs @ x # ys) h" "distinct (xs @ x # ys)" "p \<notin> set (xs @ x # ys)"
    and "\<And>y. y \<in> set xs \<union> set ys \<Longrightarrow> nxt' y = (if y = prv x then nxt x else nxt y)"
    and "\<And>y. y \<in> set xs \<union> set ys \<Longrightarrow> prv' y = (if y = nxt x then prv x else prv y)"
  shows "chain nxt' prv' null p (xs @ ys) (if prv x = p then nxt x else h)"
  using assms
proof (induction xs arbitrary: p h)
  case Nil
  then have c: "chain nxt prv null x ys (nxt x)" and px: "prv x = p" by auto
  show ?case
  proof (cases ys)
    case Nil
    with c px show ?thesis by simp
  next
    case (Cons z zs)
    with c have nx: "nxt x = z" by simp
    have "chain nxt' prv' null z zs (nxt z) = chain nxt prv null z zs (nxt z)"
      using Nil.prems Cons nx px by (intro chain_cong) auto
    with c Cons nx px Nil.prems show ?thesis by auto
  qed
next
  case (Cons a xs)
  have c: "chain nxt prv null a (xs @ x # ys) (nxt a)" and ha: "h = a" "a \<noteq> null" "prv a = p"
    using Cons.prems by auto
  have nx: "nxt x \<noteq> a"
    using chain_next [OF c] Cons.prems(2) ha(2) by (cases ys) auto
  have px: "prv x = (if xs = [] then a else last xs)" using chain_prev [OF c] .
  then have ne: "prv x \<noteq> p" using Cons.prems(3) by (auto split: if_splits)
  have "chain nxt' prv' null a (xs @ ys) (if prv x = a then nxt x else nxt a)"
    using Cons.prems by (intro Cons.IH [OF c]) auto
  then show ?case using Cons.prems ha ne nx by auto
qed

lemma chain_remove_last:
  assumes "chain nxt prv null p (xs @ x # ys) h" "p = null"
  shows "(if xs @ ys = [] then null else last (xs @ ys)) = (if nxt x = null then prv x else last (xs @ x # ys))"
proof -
  have "nxt x = null \<longleftrightarrow> ys = []"
    using chain_next [OF assms(1)] chain_not_null [OF assms(1)] by (cases ys) auto
  with chain_prev [OF assms(1)] assms(2) show ?thesis by auto
qed

subsection \<open>Link fields of a page\<close>

locale link_fields =
  fixes get_prev get_next :: "'p \<Rightarrow> page_ref" and set_prev set_next :: "'p \<Rightarrow> page_ref \<Rightarrow> 'p"
  assumes get_set_prev: "get_prev (set_prev pg r) = r"
    and get_set_next: "get_next (set_next pg r) = r"
    and next_set_prev: "get_next (set_prev pg r) = get_next pg"
    and prev_set_next: "get_prev (set_next pg r) = get_prev pg"
begin

lemmas link_simps = get_set_prev get_set_next next_set_prev prev_set_next

text \<open>A push on the page map: the old head (if any) is relinked, the new page gets both links.\<close>

lemma chain_push_pages:
  assumes c: "chain (\<lambda>r. get_next (the (m r))) (\<lambda>r. get_prev (the (m r))) null p xs h"
    and "distinct xs" "x \<noteq> null" "x \<notin> set xs"
    and new: "get_next (the (m' x)) = h" "get_prev (the (m' x)) = p"
    and old: "\<And>y. y \<in> set xs \<Longrightarrow> y \<noteq> h \<Longrightarrow>
      get_next (the (m' y)) = get_next (the (m y)) \<and> get_prev (the (m' y)) = get_prev (the (m y))"
    and head: "h \<noteq> null \<Longrightarrow> m' h = Some (set_prev (the (m h)) x)"
  shows "chain (\<lambda>r. get_next (the (m' r))) (\<lambda>r. get_prev (the (m' r))) null p (x # xs) x"
proof (rule chain_push [OF c])
  have hd: "h \<noteq> null" if "y \<in> set xs" "y = h" for y
    using chain_not_null [OF c] that by auto
  show "get_next (the (m' y)) = get_next (the (m y))" if "y \<in> set xs" for y
    using old [OF that] head hd [OF that] by (cases "y = h") (auto simp: link_simps)
  show "get_prev (the (m' y)) = (if y = h then x else get_prev (the (m y)))" if "y \<in> set xs" for y
    using old [OF that] head hd [OF that] by (cases "y = h") (auto simp: link_simps)
qed (use assms in auto)

end

sublocale page_api \<subseteq> fil: link_fields "read_prev_link P" "read_next_link P" "write_prev_link P"
  "write_next_link P"
  by unfold_locales
    (simp_all add: prev_link next_link data_prev_link data_next_link be_read_overwrite_same
      be_read_overwrite_disj disj_ranges_def layout_defs)

end
