(* ===== verification/Root_Page.thy ===== *)
theory Root_Page
  imports Data_Page Page_List
begin

text \<open>
  Root pages (\<^verbatim>\<open>src/storage/root_page.h\<close>, \<^verbatim>\<open>root_page.cc\<close>). A root page
  holds the storage metadata, the references of the other root pages, the list of all its data pages
  and an array of slots, each the head of a list of data pages that have free records. Operations
  that touch several pages run in the storage monad and name pages by reference, so that a page that
  plays two roles at once is one page in the model too.

  The lemmas show that the slot array and the page list are kept as lists: every operation is a push
  or an unlink on the abstract lists, leaves the records of all pages alone, and fails only before
  its first write.
\<close>

subsection \<open>Layout\<close>

record root_page =
  m_num_segments :: nat
  m_num_other_root_pages :: nat
  m_storage_metadata_len :: nat
  m_max_free_slots :: nat
  m_column_size :: nat

definition init_root_page_members :: root_page where
  "init_root_page_members = \<lparr>m_num_segments = 0, m_num_other_root_pages = 0,
     m_storage_metadata_len = 0, m_max_free_slots = 2048, m_column_size = 0\<rparr>"

definition VERSION_LEN :: nat where [layout_defs]: "VERSION_LEN = 1"
definition PAGE_TYPE_LEN :: nat where [layout_defs]: "PAGE_TYPE_LEN = 1"
definition STORAGE_METADATA_LEN_SIZE :: nat where [layout_defs]: "STORAGE_METADATA_LEN_SIZE = 1"
definition NUM_OTHER_ROOT_PAGES_LEN :: nat where [layout_defs]: "NUM_OTHER_ROOT_PAGES_LEN = 1"
definition ROOT_PAGE_REF_LEN :: nat where [layout_defs]: "ROOT_PAGE_REF_LEN = 4"
definition COLUMN_SIZE_LEN :: nat where [layout_defs]: "COLUMN_SIZE_LEN = 2"
definition ALL_SLOT_HEAD_LEN :: nat where [layout_defs]: "ALL_SLOT_HEAD_LEN = 4"
definition ALL_SLOT_TAIL_LEN :: nat where [layout_defs]: "ALL_SLOT_TAIL_LEN = 4"
definition TOTAL_DATA_PAGES_LEN :: nat where [layout_defs]: "TOTAL_DATA_PAGES_LEN = 4"
definition TOTAL_FREE_PAGES_LEN :: nat where [layout_defs]: "TOTAL_FREE_PAGES_LEN = 4"
definition FREE_SLOT_ARRAY_MAX_SIZE_LEN :: nat where [layout_defs]: "FREE_SLOT_ARRAY_MAX_SIZE_LEN = 2"
definition FREE_SLOT_ARRAY_CUR_SIZE_LEN :: nat where [layout_defs]: "FREE_SLOT_ARRAY_CUR_SIZE_LEN = 2"
definition FREE_SLOT_LEN :: nat where [layout_defs]: "FREE_SLOT_LEN = 4"
definition NUM_FREE_SLOTS_INITIAL :: nat where "NUM_FREE_SLOTS_INITIAL = 1"
definition NULL_FREE_PAGE_REF :: page_ref where "NULL_FREE_PAGE_REF = INVALID_REF"
definition MAX_FREE_SLOT_STEP :: nat where "MAX_FREE_SLOT_STEP = 16"

text \<open>
  The offset functions. The members they add up are bytes, so no sum leaves the 16 bits of a page
  offset (lemma \<open>root_offsets_small\<close>); the offset of a slot is truncated as the code does.
\<close>

named_theorems root_offs \<open>offset functions of the root page\<close>

definition version_off :: "root_page \<Rightarrow> nat" where
  [root_offs]: "version_off rp = HEADER_SIZE + NUM_SEGMENTS_SIZE + SEGMENT_HEADER_SIZE * m_num_segments rp"

definition page_type_off :: "root_page \<Rightarrow> nat" where
  [root_offs]: "page_type_off rp = version_off rp + VERSION_LEN"

definition storage_metadata_len_off :: "root_page \<Rightarrow> nat" where
  [root_offs]: "storage_metadata_len_off rp = page_type_off rp + PAGE_TYPE_LEN"

definition storage_metadata_off :: "root_page \<Rightarrow> nat" where
  [root_offs]: "storage_metadata_off rp = storage_metadata_len_off rp + STORAGE_METADATA_LEN_SIZE"

definition num_other_root_pages_off :: "root_page \<Rightarrow> nat" where
  [root_offs]: "num_other_root_pages_off rp = storage_metadata_off rp + m_storage_metadata_len rp"

definition other_root_pages_off :: "root_page \<Rightarrow> nat" where
  [root_offs]: "other_root_pages_off rp = num_other_root_pages_off rp + NUM_OTHER_ROOT_PAGES_LEN"

definition column_size_off :: "root_page \<Rightarrow> nat" where
  [root_offs]: "column_size_off rp = other_root_pages_off rp + ROOT_PAGE_REF_LEN * m_num_other_root_pages rp"

definition all_slot_head_off :: "root_page \<Rightarrow> nat" where
  [root_offs]: "all_slot_head_off rp = column_size_off rp + COLUMN_SIZE_LEN"

definition all_slot_tail_off :: "root_page \<Rightarrow> nat" where
  [root_offs]: "all_slot_tail_off rp = all_slot_head_off rp + ALL_SLOT_HEAD_LEN"

definition total_data_pages_off :: "root_page \<Rightarrow> nat" where
  [root_offs]: "total_data_pages_off rp = all_slot_tail_off rp + ALL_SLOT_TAIL_LEN"

definition total_free_pages_off :: "root_page \<Rightarrow> nat" where
  [root_offs]: "total_free_pages_off rp = total_data_pages_off rp + TOTAL_DATA_PAGES_LEN"

definition free_slot_array_max_size_off :: "root_page \<Rightarrow> nat" where
  [root_offs]: "free_slot_array_max_size_off rp = total_free_pages_off rp + TOTAL_FREE_PAGES_LEN"

definition free_slot_array_cur_size_off :: "root_page \<Rightarrow> nat" where
  [root_offs]: "free_slot_array_cur_size_off rp = free_slot_array_max_size_off rp + FREE_SLOT_ARRAY_MAX_SIZE_LEN"

definition free_slot_array_off :: "root_page \<Rightarrow> nat" where
  [root_offs]: "free_slot_array_off rp = free_slot_array_cur_size_off rp + FREE_SLOT_ARRAY_CUR_SIZE_LEN"

definition free_slot_off :: "root_page \<Rightarrow> nat \<Rightarrow> nat" where
  "free_slot_off rp slot_number = u16 (free_slot_array_off rp + slot_number * FREE_SLOT_LEN)"

definition RootPage_set_layout :: "nat \<Rightarrow> nat \<Rightarrow> nat \<Rightarrow> root_page \<Rightarrow> root_page" where
  "RootPage_set_layout num_segments storage_metadata_len num_other_root_pages rp =
     rp\<lparr>m_num_segments := num_segments, m_storage_metadata_len := storage_metadata_len,
        m_num_other_root_pages := num_other_root_pages\<rparr>"

definition RootPage_init :: "'p page_api \<Rightarrow> nat \<Rightarrow> nat \<Rightarrow> nat \<Rightarrow> nat \<Rightarrow> root_page \<Rightarrow> root_page" where
  "RootPage_init P col_len num_segments num_root_pages storage_metadata_len rp =
     (let rp1 = rp\<lparr>m_num_segments := num_segments,
            m_num_other_root_pages := (if num_root_pages > 0 then num_root_pages - 1 else 0),
            m_storage_metadata_len := storage_metadata_len, m_column_size := col_len\<rparr>;
          page_size = get_size P;
          available_space = sub32 (sub32 page_size (free_slot_array_off rp1)) TRAILER_SIZE;
          max_slots = u16 (available_space div FREE_SLOT_LEN);
          max_slots' = (if max_slots > m_max_free_slots rp1 then m_max_free_slots rp1 else max_slots)
      in rp1\<lparr>m_max_free_slots := max_slots'\<rparr>)"

subsection \<open>Formatting and metadata\<close>

definition RootPage_clear_slots :: "'p page_api \<Rightarrow> root_page \<Rightarrow> nat list \<Rightarrow> 'p \<Rightarrow> 'p" where
  "RootPage_clear_slots P rp slots pg =
     fold (\<lambda>i pg. write_integer_4 P pg (free_slot_off rp i) NULL_FREE_PAGE_REF) slots pg"

text \<open>
  \<open>None\<close> is the error return. The segment count is read back from the page into the members.
\<close>

definition RootPage_format ::
    "'p page_api \<Rightarrow> byte \<Rightarrow> byte list \<Rightarrow> root_page \<Rightarrow> 'p \<Rightarrow> (root_page \<times> 'p) option" where
  "RootPage_format P format_version metadata rp pg =
     (if m_column_size rp = 0 \<or> m_max_free_slots rp = 0 \<or> length metadata > 255 then None
      else
        let rp' = rp\<lparr>m_num_segments := unat (read_integer_1 P pg HEADER_SIZE)\<rparr>;
            pg1 = write_integer_1 P pg (version_off rp') format_version;
            pg2 = write_integer_1 P pg1 (page_type_off rp') ROOT_PAGE_TYPE;
            pg3 = write_integer_1 P pg2 (storage_metadata_len_off rp') (word_of_nat (length metadata));
            pg4 = write_string P pg3 (storage_metadata_off rp') metadata;
            pg5 = write_integer_1 P pg4 (num_other_root_pages_off rp') (word_of_nat (m_num_other_root_pages rp'));
            pg6 = fold (\<lambda>i pg. write_integer_4 P pg (other_root_pages_off rp' + i * ROOT_PAGE_REF_LEN) INVALID_REF)
                    [0..<m_num_other_root_pages rp'] pg5;
            pg7 = write_integer_2 P pg6 (column_size_off rp') (word_of_nat (m_column_size rp'));
            pg8 = write_integer_4 P pg7 (all_slot_head_off rp') INVALID_REF;
            pg9 = write_integer_4 P pg8 (all_slot_tail_off rp') INVALID_REF;
            pg10 = write_integer_2 P pg9 (free_slot_array_max_size_off rp') (word_of_nat (m_max_free_slots rp'));
            pg11 = write_integer_2 P pg10 (free_slot_array_cur_size_off rp') (word_of_nat NUM_FREE_SLOTS_INITIAL)
        in Some (rp', RootPage_clear_slots P rp' [0..<NUM_FREE_SLOTS_INITIAL] pg11))"

definition RootPage_read_metadata :: "'p page_api \<Rightarrow> root_page \<Rightarrow> 'p \<Rightarrow> byte list" where
  "RootPage_read_metadata P rp pg =
     slice (get_data P pg) (storage_metadata_off rp) (unat (read_integer_1 P pg (storage_metadata_len_off rp)))"

definition RootPage_update_header :: "'p page_api \<Rightarrow> root_page \<Rightarrow> byte list \<Rightarrow> 'p \<Rightarrow> 'p option" where
  "RootPage_update_header P rp metadata pg =
     (if length metadata \<noteq> m_storage_metadata_len rp then None
      else Some (write_string P pg (storage_metadata_off rp) metadata))"

subsection \<open>Slot selection\<close>

definition RootPage_get_random_slot :: "nat \<Rightarrow> ('p, nat) op" where
  "RootPage_get_random_slot max_size = (if max_size = 0 then ret 0 else uniform_draw max_size)"

definition RootPage_get_cached_slot_number ::
    "space_ref \<Rightarrow> page_ref \<Rightarrow> nat \<Rightarrow> last_slot_info \<Rightarrow> nat option" where
  "RootPage_get_cached_slot_number space_ref page_ref max_slots lsi =
     (if lsi_space_ref lsi \<noteq> space_ref then None
      else if lsi_page_ref lsi \<noteq> page_ref then None
      else if lsi_slot_number lsi \<ge> max_slots then None
      else Some (lsi_slot_number lsi))"

definition RootPage_grow_free_slots :: "'p page_api \<Rightarrow> root_page \<Rightarrow> 'p \<Rightarrow> 'p" where
  "RootPage_grow_free_slots P rp pg =
     (let cur_free_slots = unat (read_integer_2 P pg (free_slot_array_cur_size_off rp));
          growth = min cur_free_slots MAX_FREE_SLOT_STEP;
          new_free_slots = u16 (cur_free_slots + growth);
          new_free_slots' = (if new_free_slots > m_max_free_slots rp then m_max_free_slots rp else new_free_slots);
          pg1 = RootPage_clear_slots P rp [cur_free_slots..<new_free_slots'] pg
      in write_integer_2 P pg1 (free_slot_array_cur_size_off rp) (word_of_nat new_free_slots'))"

text \<open>The slot a root page offers to an insert, and the number of slots.\<close>

definition RootPage_page_select ::
    "'p page_api \<Rightarrow> root_page \<Rightarrow> page_ref \<Rightarrow> space_ref \<Rightarrow> ('p, page_ref \<times> nat) op" where
  "RootPage_page_select P rp root_ref space_ref =
     bind_op (peek root_ref) (\<lambda>pg.
     let cur_free_slots = unat (read_integer_2 P pg (free_slot_array_cur_size_off rp)) in
     bind_op (gets s_last_slot_info) (\<lambda>lsi.
     bind_op (case RootPage_get_cached_slot_number space_ref root_ref cur_free_slots lsi of
         Some slot_number \<Rightarrow> ret slot_number
       | None \<Rightarrow>
           bind_op (RootPage_get_random_slot cur_free_slots) (\<lambda>slot_number.
           bind_op (modify (\<lambda>s. s\<lparr>s_last_slot_info := \<lparr>lsi_space_ref = space_ref, lsi_page_ref = root_ref,
              lsi_slot_number = slot_number, lsi_next_free_rec_hint = 0\<rparr>\<rparr>)) (\<lambda>_.
           ret slot_number))) (\<lambda>slot_number.
     let data_page_ref = read_integer_4 P pg (free_slot_off rp slot_number) in
     ret (if data_page_ref = NULL_FREE_PAGE_REF then INVALID_REF else data_page_ref, cur_free_slots))))"

definition RootPage_get_free_slot :: "'p page_api \<Rightarrow> root_page \<Rightarrow> page_ref \<Rightarrow> ('p, nat) op" where
  "RootPage_get_free_slot P rp root_ref =
     bind_op (peek root_ref) (\<lambda>pg.
     let cur_free_slots = unat (read_integer_2 P pg (free_slot_array_cur_size_off rp)) in
     case List.find (\<lambda>slot_idx. read_integer_4 P pg (free_slot_off rp slot_idx) = NULL_FREE_PAGE_REF)
            [0..<cur_free_slots] of
       Some slot_idx \<Rightarrow> ret slot_idx
     | None \<Rightarrow> RootPage_get_random_slot cur_free_slots)"

subsection \<open>The lists of pages\<close>

text \<open>
  The argument \<open>e\<close> is the error the caller reports when the function returns \<open>true\<close>.
\<close>

definition RootPage_add_free_page ::
    "'p page_api \<Rightarrow> root_page \<Rightarrow> page_ref \<Rightarrow> page_ref \<Rightarrow> nat \<Rightarrow> store_error \<Rightarrow> ('p, unit) op" where
  "RootPage_add_free_page P rp root_ref data_ref slot_number e =
     bind_op (peek root_ref) (\<lambda>root.
     let slot_offset = free_slot_off rp slot_number;
         slot_page_ref = read_integer_4 P root slot_offset in
     bind_op (when_op (slot_page_ref \<noteq> NULL_FREE_PAGE_REF)
        (bind_op (load slot_page_ref EXCLUSIVE e) (\<lambda>_.
         upd slot_page_ref (DataPage_set_free_links P (Some data_ref) None)))) (\<lambda>_.
     bind_op (upd root_ref (\<lambda>pg. write_integer_4 P pg slot_offset data_ref)) (\<lambda>_.
     bind_op (upd data_ref (DataPage_set_free_links P (Some root_ref) (Some slot_page_ref))) (\<lambda>_.
     bind_op (upd data_ref (DataPage_set_free_slot_number P (word_of_nat slot_number))) (\<lambda>_.
     upd root_ref (\<lambda>pg. write_integer_4 P pg (total_free_pages_off rp)
       (read_integer_4 P pg (total_free_pages_off rp) + 1)))))))"

definition RootPage_remove_free_page ::
    "'p page_api \<Rightarrow> root_page \<Rightarrow> page_ref \<Rightarrow> page_ref \<Rightarrow> store_error \<Rightarrow> ('p, unit) op" where
  "RootPage_remove_free_page P rp root_ref data_ref e =
     bind_op (peek data_ref) (\<lambda>data.
     let slot_number = unat (DataPage_get_free_slot_number P data);
         slot_offset = free_slot_off rp slot_number;
         (prev_ref, next_ref) = DataPage_get_free_links P data in
     bind_op (when_op (prev_ref \<noteq> root_ref) (load prev_ref EXCLUSIVE e)) (\<lambda>_.
     bind_op (when_op (next_ref \<noteq> NULL_FREE_PAGE_REF) (load next_ref EXCLUSIVE e)) (\<lambda>_.
     bind_op (if prev_ref = root_ref
        then upd root_ref (\<lambda>pg. write_integer_4 P pg slot_offset next_ref)
        else upd prev_ref (DataPage_set_free_links P None (Some next_ref))) (\<lambda>_.
     bind_op (when_op (next_ref \<noteq> NULL_FREE_PAGE_REF)
        (upd next_ref (DataPage_set_free_links P (Some prev_ref) None))) (\<lambda>_.
     bind_op (upd data_ref (DataPage_set_free_links P (Some NULL_FREE_PAGE_REF) (Some NULL_FREE_PAGE_REF))) (\<lambda>_.
     upd root_ref (\<lambda>pg. write_integer_4 P pg (total_free_pages_off rp)
       (read_integer_4 P pg (total_free_pages_off rp) - 1))))))))"

text \<open>\<^verbatim>\<open>Page::write_links\<close> sets both header links.\<close>

definition write_links :: "'p page_api \<Rightarrow> page_ref \<Rightarrow> page_ref \<Rightarrow> 'p \<Rightarrow> 'p" where
  "write_links P prev next pg = write_next_link P (write_prev_link P pg prev) next"

definition RootPage_add_data_page ::
    "'p page_api \<Rightarrow> root_page \<Rightarrow> page_ref \<Rightarrow> page_ref \<Rightarrow> store_error \<Rightarrow> ('p, unit) op" where
  "RootPage_add_data_page P rp root_ref data_ref e =
     bind_op (peek root_ref) (\<lambda>root.
     let head_ref = read_integer_4 P root (all_slot_head_off rp) in
     bind_op (if head_ref = INVALID_REF
        then upd root_ref (\<lambda>pg. write_integer_4 P pg (all_slot_tail_off rp) data_ref)
        else bind_op (load head_ref EXCLUSIVE e) (\<lambda>_. upd head_ref (\<lambda>pg. write_prev_link P pg data_ref))) (\<lambda>_.
     bind_op (upd data_ref (write_links P INVALID_REF head_ref)) (\<lambda>_.
     bind_op (upd root_ref (\<lambda>pg. write_integer_4 P pg (all_slot_head_off rp) data_ref)) (\<lambda>_.
     upd root_ref (\<lambda>pg. write_integer_4 P pg (total_data_pages_off rp)
       (read_integer_4 P pg (total_data_pages_off rp) + 1))))))"

definition RootPage_remove_data_page ::
    "'p page_api \<Rightarrow> root_page \<Rightarrow> page_ref \<Rightarrow> page_ref \<Rightarrow> store_error \<Rightarrow> ('p, unit) op" where
  "RootPage_remove_data_page P rp root_ref data_ref e =
     bind_op (peek data_ref) (\<lambda>data.
     let prev_ref = read_prev_link P data; next_ref = read_next_link P data in
     bind_op (when_op (prev_ref \<noteq> INVALID_REF) (load prev_ref EXCLUSIVE e)) (\<lambda>_.
     bind_op (when_op (next_ref \<noteq> INVALID_REF) (load next_ref EXCLUSIVE e)) (\<lambda>_.
     bind_op (if prev_ref = INVALID_REF
        then upd root_ref (\<lambda>pg. write_integer_4 P pg (all_slot_head_off rp) next_ref)
        else upd prev_ref (\<lambda>pg. write_next_link P pg next_ref)) (\<lambda>_.
     bind_op (if next_ref = INVALID_REF
        then upd root_ref (\<lambda>pg. write_integer_4 P pg (all_slot_tail_off rp) prev_ref)
        else upd next_ref (\<lambda>pg. write_prev_link P pg prev_ref)) (\<lambda>_.
     bind_op (upd data_ref (write_links P INVALID_REF INVALID_REF)) (\<lambda>_.
     upd root_ref (\<lambda>pg. write_integer_4 P pg (total_data_pages_off rp)
       (read_integer_4 P pg (total_data_pages_off rp) - 1))))))))"

subsection \<open>The layout of a root page\<close>

definition root_ok :: "'p page_api \<Rightarrow> root_page \<Rightarrow> bool" where
  "root_ok P rp \<longleftrightarrow> m_num_segments rp < 256 \<and> m_num_other_root_pages rp < 256
     \<and> m_storage_metadata_len rp < 256 \<and> 0 < m_column_size rp \<and> m_column_size rp < 65536
     \<and> 0 < m_max_free_slots rp \<and> m_max_free_slots rp \<le> 2048
     \<and> free_slot_array_off rp + m_max_free_slots rp * FREE_SLOT_LEN + TRAILER_SIZE \<le> get_size P
     \<and> get_size P \<le> 65536"

lemma root_offsets_small:
  assumes "m_num_segments rp < 256" "m_num_other_root_pages rp < 256" "m_storage_metadata_len rp < 256"
  shows "free_slot_array_off rp < 4096"
  using assms by (simp add: root_offs layout_defs)

lemma RootPage_init_ok:
  assumes "num_segments < 256" "num_root_pages \<le> 256" "storage_metadata_len < 256" "0 < col_len" "col_len < 65536"
    and "get_size P \<le> 65536"
  defines "rp \<equiv> RootPage_init P col_len num_segments num_root_pages storage_metadata_len init_root_page_members"
  assumes "free_slot_array_off rp + FREE_SLOT_LEN + TRAILER_SIZE \<le> get_size P"
  shows "root_ok P rp"
proof -
  let ?a = "free_slot_array_off rp" and ?s = "get_size P"
  have f: "m_num_segments rp = num_segments" "m_num_other_root_pages rp = num_root_pages - 1"
    "m_storage_metadata_len rp = storage_metadata_len" "m_column_size rp = col_len"
    unfolding rp_def by (simp_all add: RootPage_init_def Let_def)
  have off: "free_slot_array_off (r\<lparr>m_max_free_slots := n\<rparr>) = free_slot_array_off r" for r n
    by (simp add: root_offs)
  define rp1 where "rp1 = init_root_page_members\<lparr>m_num_segments := num_segments,
      m_num_other_root_pages := num_root_pages - 1, m_storage_metadata_len := storage_metadata_len,
      m_column_size := col_len\<rparr>"
  define ms where "ms = u16 (sub32 (sub32 ?s (free_slot_array_off rp1)) TRAILER_SIZE div FREE_SLOT_LEN)"
  have rp: "rp = rp1\<lparr>m_max_free_slots := if ms > 2048 then 2048 else ms\<rparr>"
    unfolding rp_def RootPage_init_def Let_def rp1_def ms_def
    by (cases "num_root_pages > 0") (simp_all add: init_root_page_members_def)
  then have m: "m_max_free_slots rp = min 2048 (u16 (sub32 (sub32 ?s ?a) TRAILER_SIZE div FREE_SLOT_LEN))"
    unfolding rp off ms_def [symmetric] by simp
  have "sub32 (sub32 ?s ?a) TRAILER_SIZE = ?s - ?a - TRAILER_SIZE"
    using assms(6,8) by (simp add: layout_defs)
  then have "m_max_free_slots rp = min 2048 ((?s - ?a - TRAILER_SIZE) div FREE_SLOT_LEN)"
    using m assms(6) by (simp add: layout_defs)
  then show ?thesis using assms f unfolding root_ok_def by (auto simp: layout_defs)
qed

locale root_layout = page_api P for P :: "'p page_api" +
  fixes rp :: root_page
  assumes root_ok: "root_ok P rp"
begin

lemma slot_off:
  assumes "k < m_max_free_slots rp"
  shows "free_slot_off rp k = free_slot_array_off rp + 4 * k"
proof -
  have "k * 4 \<le> m_max_free_slots rp * 4" using assms by simp
  then show ?thesis using root_ok by (simp add: free_slot_off_def root_ok_def layout_defs)
qed

lemma max_slots: "0 < m_max_free_slots rp" "m_max_free_slots rp \<le> 2048"
  using root_ok by (auto simp: root_ok_def)

end

subsection \<open>Free lists and the list of data pages\<close>

definition slot_head :: "'p page_api \<Rightarrow> root_page \<Rightarrow> 'p \<Rightarrow> nat \<Rightarrow> page_ref" where
  "slot_head P rp pg k = read_integer_4 P pg (free_slot_off rp k)"

definition cur_slots :: "'p page_api \<Rightarrow> root_page \<Rightarrow> 'p \<Rightarrow> nat" where
  "cur_slots P rp pg = unat (read_integer_2 P pg (free_slot_array_cur_size_off rp))"

text \<open>
  \<open>free_list\<close>: the pages \<open>xs\<close> hang off slot \<open>k\<close> of the root page, and each of them
  records that slot number.
\<close>

definition free_list :: "'p page_api \<Rightarrow> root_page \<Rightarrow> (page_ref \<Rightarrow> 'p option) \<Rightarrow> page_ref \<Rightarrow> nat \<Rightarrow> page_ref list \<Rightarrow> bool" where
  "free_list P rp m root k xs \<longleftrightarrow>
     chain (\<lambda>r. read_integer_4 P (the (m r)) NEXT_FREE_PAGE_OFF)
           (\<lambda>r. read_integer_4 P (the (m r)) PREV_FREE_PAGE_OFF)
           INVALID_REF root xs (slot_head P rp (the (m root)) k)
     \<and> distinct xs \<and> root \<notin> set xs
     \<and> (\<forall>x\<in>set xs. m x \<noteq> None \<and> DataPage_get_free_slot_number P (the (m x)) = word_of_nat k)"

definition free_lists :: "'p page_api \<Rightarrow> root_page \<Rightarrow> (page_ref \<Rightarrow> 'p option) \<Rightarrow> page_ref \<Rightarrow> (nat \<Rightarrow> page_ref list) \<Rightarrow> bool" where
  "free_lists P rp m root fl \<longleftrightarrow> m root \<noteq> None \<and> root \<noteq> INVALID_REF
     \<and> 0 < cur_slots P rp (the (m root)) \<and> cur_slots P rp (the (m root)) \<le> m_max_free_slots rp
     \<and> (\<forall>k. if k < cur_slots P rp (the (m root)) then free_list P rp m root k (fl k) else fl k = [])
     \<and> read_integer_4 P (the (m root)) (total_free_pages_off rp)
         = word_of_nat (\<Sum>k<cur_slots P rp (the (m root)). length (fl k))"

definition data_list :: "'p page_api \<Rightarrow> root_page \<Rightarrow> (page_ref \<Rightarrow> 'p option) \<Rightarrow> page_ref \<Rightarrow> page_ref list \<Rightarrow> bool" where
  "data_list P rp m root dl \<longleftrightarrow> m root \<noteq> None \<and> root \<noteq> INVALID_REF
     \<and> chain (\<lambda>r. read_next_link P (the (m r))) (\<lambda>r. read_prev_link P (the (m r))) INVALID_REF INVALID_REF dl
         (read_integer_4 P (the (m root)) (all_slot_head_off rp))
     \<and> read_integer_4 P (the (m root)) (all_slot_tail_off rp) = (if dl = [] then INVALID_REF else last dl)
     \<and> distinct dl \<and> root \<notin> set dl \<and> (\<forall>x\<in>set dl. m x \<noteq> None)
     \<and> read_integer_4 P (the (m root)) (total_data_pages_off rp) = word_of_nat (length dl)"

text \<open>
  What an operation on the lists does to the rest of the environment, and its two outcomes: the
  pages \<open>m\<close>, or the caller's error with no page written. It can only fail when an API call does.
\<close>

definition env_frame :: "'p env \<Rightarrow> 'p env \<Rightarrow> bool" where
  "env_frame s s' \<longleftrightarrow> fresh s' = fresh s \<and> draws s' = draws s \<and> s_last_slot_info s' = s_last_slot_info s
     \<and> seg_of s' = seg_of s \<and> (\<forall>r. latches s r = Some EXCLUSIVE \<longrightarrow> latches s' r = Some EXCLUSIVE)
     \<and> (faults s = [] \<longrightarrow> faults s' = [])"

definition writes_or_fails ::
    "'p env \<Rightarrow> store_error \<Rightarrow> (page_ref \<Rightarrow> 'p option) \<Rightarrow> 'p env \<times> (store_error + unit) \<Rightarrow> bool" where
  "writes_or_fails s e m res \<longleftrightarrow> env_frame s (fst res)
     \<and> (case snd res of Inr _ \<Rightarrow> pages (fst res) = m
        | Inl e' \<Rightarrow> e' = e \<and> pages (fst res) = pages s \<and> faults s \<noteq> [])"

definition add_free_page_pages ::
    "'p page_api \<Rightarrow> root_page \<Rightarrow> page_ref \<Rightarrow> page_ref \<Rightarrow> nat \<Rightarrow> (page_ref \<Rightarrow> 'p option) \<Rightarrow> page_ref \<Rightarrow> 'p option" where
  "add_free_page_pages P rp root data k m =
     (let h = slot_head P rp (the (m root)) k;
          m1 = (if h = INVALID_REF then m else m(h \<mapsto> write_integer_4 P (the (m h)) PREV_FREE_PAGE_OFF data));
          r1 = write_integer_4 P (the (m root)) (free_slot_off rp k) data
      in m1(data \<mapsto> write_integer_2 P (write_integer_4 P (write_integer_4 P (the (m data)) PREV_FREE_PAGE_OFF root)
                      NEXT_FREE_PAGE_OFF h) FREE_SLOT_NUMBER_OFF (word_of_nat k),
            root \<mapsto> write_integer_4 P r1 (total_free_pages_off rp) (read_integer_4 P r1 (total_free_pages_off rp) + 1)))"

lemma add_free_page_run:
  assumes r: "pages s root = Some rpg" "latches s root = Some EXCLUSIVE"
    and d: "pages s data = Some dpg" "latches s data = Some EXCLUSIVE" and ne: "root \<noteq> data"
    and h: "slot_head P rp rpg k \<noteq> root" "slot_head P rp rpg k \<noteq> data"
      "slot_head P rp rpg k \<noteq> INVALID_REF \<Longrightarrow> pages s (slot_head P rp rpg k) \<noteq> None"
  shows "writes_or_fails s e (add_free_page_pages P rp root data k (pages s))
    (RootPage_add_free_page P rp root data k e s)"
proof (cases "slot_head P rp rpg k = INVALID_REF")
  case True
  then show ?thesis using r d ne
    by (simp add: writes_or_fails_def env_frame_def RootPage_add_free_page_def op_defs slot_head_def Let_def
        NULL_FREE_PAGE_REF_def add_free_page_pages_def DataPage_set_free_links_def
        DataPage_set_free_slot_number_def)
next
  case False
  let ?h = "slot_head P rp rpg k"
  have rd: "read_integer_4 P rpg (free_slot_off rp k) = ?h" by (simp add: slot_head_def)
  show ?thesis
  proof (cases rule: load_cases [of s ?h EXCLUSIVE e])
    case (ok fs)
    then obtain hpg where "pages s ?h = Some hpg" by auto
    with ok False r d ne h show ?thesis
      by (auto simp: writes_or_fails_def env_frame_def RootPage_add_free_page_def op_defs rd Let_def
          NULL_FREE_PAGE_REF_def add_free_page_pages_def DataPage_set_free_links_def
          DataPage_set_free_slot_number_def)
  next
    case (err fs)
    with False r h(3) show ?thesis
      by (auto simp: writes_or_fails_def env_frame_def RootPage_add_free_page_def op_defs rd Let_def
          NULL_FREE_PAGE_REF_def)
  qed
qed

definition remove_free_page_pages ::
    "'p page_api \<Rightarrow> root_page \<Rightarrow> page_ref \<Rightarrow> page_ref \<Rightarrow> (page_ref \<Rightarrow> 'p option) \<Rightarrow> page_ref \<Rightarrow> 'p option" where
  "remove_free_page_pages P rp root data m =
     (let k = unat (DataPage_get_free_slot_number P (the (m data)));
          pv = read_integer_4 P (the (m data)) PREV_FREE_PAGE_OFF;
          nx = read_integer_4 P (the (m data)) NEXT_FREE_PAGE_OFF;
          m1 = (if pv = root then m(root \<mapsto> write_integer_4 P (the (m root)) (free_slot_off rp k) nx)
                else m(pv \<mapsto> write_integer_4 P (the (m pv)) NEXT_FREE_PAGE_OFF nx));
          m2 = (if nx = INVALID_REF then m1 else m1(nx \<mapsto> write_integer_4 P (the (m nx)) PREV_FREE_PAGE_OFF pv));
          r1 = the (m1 root)
      in m2(data \<mapsto> write_integer_4 P (write_integer_4 P (the (m data)) PREV_FREE_PAGE_OFF INVALID_REF)
                     NEXT_FREE_PAGE_OFF INVALID_REF,
            root \<mapsto> write_integer_4 P r1 (total_free_pages_off rp) (read_integer_4 P r1 (total_free_pages_off rp) - 1)))"

lemma remove_free_page_run:
  assumes r: "pages s root = Some rpg" "latches s root = Some EXCLUSIVE"
    and d: "pages s data = Some dpg" "latches s data = Some EXCLUSIVE" and ne: "root \<noteq> data"
    and pv: "pv = read_integer_4 P dpg PREV_FREE_PAGE_OFF" "pv \<noteq> data" "pages s pv \<noteq> None"
    and nx: "nx = read_integer_4 P dpg NEXT_FREE_PAGE_OFF" "nx \<noteq> data" "nx \<noteq> root" "nx \<noteq> pv"
      "nx \<noteq> INVALID_REF \<Longrightarrow> pages s nx \<noteq> None"
  shows "writes_or_fails s e (remove_free_page_pages P rp root data (pages s))
    (RootPage_remove_free_page P rp root data e s)"
proof -
  note defs = writes_or_fails_def env_frame_def RootPage_remove_free_page_def op_defs Let_def
    NULL_FREE_PAGE_REF_def remove_free_page_pages_def DataPage_set_free_links_def
    DataPage_get_free_links_def
  obtain ppg where p: "pages s pv = Some ppg" using pv(3) by auto
  have tail: "writes_or_fails s e (remove_free_page_pages P rp root data (pages s))
      (RootPage_remove_free_page P rp root data e s)"
    if first: "when_op (pv \<noteq> root) (load pv EXCLUSIVE e) s = (s1, Inr ())"
      and s1: "s1 = s\<lparr>faults := fs, latches := (if pv \<noteq> root then (latches s)(pv := Some EXCLUSIVE) else latches s)\<rparr>"
      "faults s = [] \<longrightarrow> fs = []" for s1 fs
  proof (cases "nx = INVALID_REF")
    case True
    with first s1 r d ne pv(1,2) p nx(1-4) show ?thesis
      by (auto simp: defs split: if_splits)
  next
    case False
    then obtain npg where n: "pages s nx = Some npg" using nx(5) by auto
    show ?thesis
    proof (cases rule: load_cases [of s1 nx EXCLUSIVE e])
      case (ok fs')
      with False first s1 r d ne pv(1,2) p nx(1-4) n show ?thesis
        by (cases "pv = root") (auto simp: defs)
    next
      case (err fs')
      with False first s1 r d ne pv(1,2) p nx(1-4) n show ?thesis
        by (cases "pv = root") (auto simp: defs)
    qed
  qed
  show ?thesis
  proof (cases "pv = root")
    case True
    then show ?thesis by (intro tail [of s "faults s"]) (simp_all add: op_defs)
  next
    case False
    show ?thesis
    proof (cases rule: load_cases [of s pv EXCLUSIVE e])
      case (ok fs)
      with False show ?thesis by (intro tail [OF _ refl]) (simp_all add: when_op_def)
    next
      case (err fs)
      with False d pv(1) p show ?thesis by (auto simp: defs)
    qed
  qed
qed

definition add_data_page_pages ::
    "'p page_api \<Rightarrow> root_page \<Rightarrow> page_ref \<Rightarrow> page_ref \<Rightarrow> (page_ref \<Rightarrow> 'p option) \<Rightarrow> page_ref \<Rightarrow> 'p option" where
  "add_data_page_pages P rp root data m =
     (let h = read_integer_4 P (the (m root)) (all_slot_head_off rp);
          r0 = (if h = INVALID_REF then write_integer_4 P (the (m root)) (all_slot_tail_off rp) data else the (m root));
          m1 = (if h = INVALID_REF then m else m(h \<mapsto> write_prev_link P (the (m h)) data));
          r1 = write_integer_4 P r0 (all_slot_head_off rp) data
      in m1(data \<mapsto> write_links P INVALID_REF h (the (m data)),
            root \<mapsto> write_integer_4 P r1 (total_data_pages_off rp) (read_integer_4 P r1 (total_data_pages_off rp) + 1)))"

lemma add_data_page_run:
  assumes r: "pages s root = Some rpg" "latches s root = Some EXCLUSIVE"
    and d: "pages s data = Some dpg" "latches s data = Some EXCLUSIVE" and ne: "root \<noteq> data"
    and h: "h = read_integer_4 P rpg (all_slot_head_off rp)" "h \<noteq> root" "h \<noteq> data"
      "h \<noteq> INVALID_REF \<Longrightarrow> pages s h \<noteq> None"
  shows "writes_or_fails s e (add_data_page_pages P rp root data (pages s))
    (RootPage_add_data_page P rp root data e s)"
proof -
  note defs = writes_or_fails_def env_frame_def RootPage_add_data_page_def op_defs Let_def
    add_data_page_pages_def
  show ?thesis
  proof (cases "h = INVALID_REF")
    case True
    with r d ne h show ?thesis by (auto simp: defs)
  next
    case False
    then obtain hpg where hp: "pages s h = Some hpg" using h(4) by auto
    show ?thesis
    proof (cases rule: load_cases [of s h EXCLUSIVE e])
      case (ok fs)
      with False r d ne h(1-3) hp show ?thesis by (auto simp: defs)
    next
      case (err fs)
      with False r h(1) hp show ?thesis by (auto simp: defs)
    qed
  qed
qed

definition remove_data_page_pages ::
    "'p page_api \<Rightarrow> root_page \<Rightarrow> page_ref \<Rightarrow> page_ref \<Rightarrow> (page_ref \<Rightarrow> 'p option) \<Rightarrow> page_ref \<Rightarrow> 'p option" where
  "remove_data_page_pages P rp root data m =
     (let pv = read_prev_link P (the (m data)); nx = read_next_link P (the (m data));
          r0 = (if pv = INVALID_REF then write_integer_4 P (the (m root)) (all_slot_head_off rp) nx else the (m root));
          r1 = (if nx = INVALID_REF then write_integer_4 P r0 (all_slot_tail_off rp) pv else r0);
          m1 = (if pv = INVALID_REF then m else m(pv \<mapsto> write_next_link P (the (m pv)) nx));
          m2 = (if nx = INVALID_REF then m1 else m1(nx \<mapsto> write_prev_link P (the (m nx)) pv))
      in m2(data \<mapsto> write_links P INVALID_REF INVALID_REF (the (m data)),
            root \<mapsto> write_integer_4 P r1 (total_data_pages_off rp) (read_integer_4 P r1 (total_data_pages_off rp) - 1)))"

lemma remove_data_page_run:
  assumes r: "pages s root = Some rpg" "latches s root = Some EXCLUSIVE"
    and d: "pages s data = Some dpg" "latches s data = Some EXCLUSIVE" and ne: "root \<noteq> data"
    and pv: "pv = read_prev_link P dpg" "pv \<noteq> data" "pv \<noteq> root" "pv \<noteq> INVALID_REF \<Longrightarrow> pages s pv \<noteq> None"
    and nx: "nx = read_next_link P dpg" "nx \<noteq> data" "nx \<noteq> root" "nx \<noteq> pv \<or> nx = INVALID_REF"
      "nx \<noteq> INVALID_REF \<Longrightarrow> pages s nx \<noteq> None"
  shows "writes_or_fails s e (remove_data_page_pages P rp root data (pages s))
    (RootPage_remove_data_page P rp root data e s)"
proof -
  note defs = writes_or_fails_def env_frame_def RootPage_remove_data_page_def op_defs Let_def
    remove_data_page_pages_def
  have tail: "writes_or_fails s e (remove_data_page_pages P rp root data (pages s))
      (RootPage_remove_data_page P rp root data e s)"
    if first: "when_op (pv \<noteq> INVALID_REF) (load pv EXCLUSIVE e) s = (s1, Inr ())"
      and s1: "s1 = s\<lparr>faults := fs, latches := (if pv \<noteq> INVALID_REF then (latches s)(pv := Some EXCLUSIVE) else latches s)\<rparr>"
      "faults s = [] \<longrightarrow> fs = []" for s1 fs
  proof (cases "nx = INVALID_REF")
    case True
    with first s1 r d ne pv nx(1-4) show ?thesis
      by (cases "pv = INVALID_REF") (auto simp: defs)
  next
    case False
    then obtain npg where n: "pages s nx = Some npg" using nx(5) by auto
    show ?thesis
    proof (cases rule: load_cases [of s1 nx EXCLUSIVE e])
      case (ok fs')
      with False first s1 r d ne pv nx(1-4) n show ?thesis
        by (cases "pv = INVALID_REF") (auto simp: defs)
    next
      case (err fs')
      with False first s1 r d ne pv nx(1-4) n show ?thesis
        by (cases "pv = INVALID_REF") (auto simp: defs)
    qed
  qed
  show ?thesis
  proof (cases "pv = INVALID_REF")
    case True
    then show ?thesis by (intro tail [of s "faults s"]) (simp_all add: op_defs)
  next
    case False
    show ?thesis
    proof (cases rule: load_cases [of s pv EXCLUSIVE e])
      case (ok fs)
      with False show ?thesis by (intro tail [OF _ refl]) (simp_all add: when_op_def)
    next
      case (err fs)
      with False d pv(1,4) show ?thesis by (auto simp: defs)
    qed
  qed
qed

subsection \<open>The operations on the abstract lists\<close>

sublocale page_api \<subseteq> free: link_fields "\<lambda>pg. read_integer_4 P pg PREV_FREE_PAGE_OFF"
  "\<lambda>pg. read_integer_4 P pg NEXT_FREE_PAGE_OFF" "\<lambda>pg. write_integer_4 P pg PREV_FREE_PAGE_OFF"
  "\<lambda>pg. write_integer_4 P pg NEXT_FREE_PAGE_OFF"
  by unfold_locales (simp_all add: read_frames layout_defs)

text \<open>The records of a page: everything from the capacity field on, and the owning root page.\<close>

definition same_records :: "'p page_api \<Rightarrow> 'p \<Rightarrow> 'p \<Rightarrow> bool" where
  "same_records P pg pg' \<longleftrightarrow> (\<forall>i \<ge> MAX_NUM_RECS_OFF. get_data P pg' i = get_data P pg i)
     \<and> DataPage_get_root_page_ref P pg' = DataPage_get_root_page_ref P pg"

lemma same_records_refl [simp]: "same_records P pg pg"
  by (simp add: same_records_def)

lemma same_records_trans: "same_records P a b \<Longrightarrow> same_records P b c \<Longrightarrow> same_records P a c"
  by (simp add: same_records_def)

lemma free_list_member_slot:
  "free_list P rp m root k xs \<Longrightarrow> x \<in> set xs \<Longrightarrow> DataPage_get_free_slot_number P (the (m x)) = word_of_nat k"
  by (simp add: free_list_def)

lemma free_list_head:
  "free_list P rp m root k xs \<Longrightarrow> slot_head P rp (the (m root)) k = (if xs = [] then INVALID_REF else hd xs)"
  unfolding free_list_def by (blast dest: chain_head)

lemma free_list_valid: "free_list P rp m root k xs \<Longrightarrow> INVALID_REF \<notin> set xs"
  unfolding free_list_def by (blast dest: chain_not_null)

context page_api
begin

lemma same_records_write_4:
  "off = PREV_FREE_PAGE_OFF \<or> off = NEXT_FREE_PAGE_OFF \<Longrightarrow> same_records P pg (write_integer_4 P pg off v)"
  by (auto simp: same_records_def data_writes overwrite_out DataPage_get_root_page_ref_def read_frames layout_defs)

lemma same_records_slot_number: "same_records P pg (write_integer_2 P pg FREE_SLOT_NUMBER_OFF v)"
  by (auto simp: same_records_def data_writes overwrite_out DataPage_get_root_page_ref_def read_frames layout_defs)

lemma same_records_links:
  "same_records P pg (write_prev_link P pg r)" "same_records P pg (write_next_link P pg r)"
  by (auto simp: same_records_def data_writes overwrite_out DataPage_get_root_page_ref_def link_frames layout_defs)

lemma slot_number_write_4:
  "off = PREV_FREE_PAGE_OFF \<or> off = NEXT_FREE_PAGE_OFF \<Longrightarrow>
   DataPage_get_free_slot_number P (write_integer_4 P pg off v) = DataPage_get_free_slot_number P pg"
  by (auto simp: DataPage_get_free_slot_number_def read_frames layout_defs)

lemma fil_links_write:
  "off \<in> {PREV_FREE_PAGE_OFF, NEXT_FREE_PAGE_OFF} \<Longrightarrow> read_prev_link P (write_integer_4 P pg off v) = read_prev_link P pg"
  "off \<in> {PREV_FREE_PAGE_OFF, NEXT_FREE_PAGE_OFF} \<Longrightarrow> read_next_link P (write_integer_4 P pg off v) = read_next_link P pg"
  "read_prev_link P (write_integer_2 P pg FREE_SLOT_NUMBER_OFF h) = read_prev_link P pg"
  "read_next_link P (write_integer_2 P pg FREE_SLOT_NUMBER_OFF h) = read_next_link P pg"
  by (auto simp: link_frames layout_defs)

lemma free_links_fil:
  "off \<in> {PREV_FREE_PAGE_OFF, NEXT_FREE_PAGE_OFF} \<Longrightarrow> read_integer_4 P (write_prev_link P pg r) off = read_integer_4 P pg off"
  "off \<in> {PREV_FREE_PAGE_OFF, NEXT_FREE_PAGE_OFF} \<Longrightarrow> read_integer_4 P (write_next_link P pg r) off = read_integer_4 P pg off"
  "DataPage_get_free_slot_number P (write_prev_link P pg r) = DataPage_get_free_slot_number P pg"
  "DataPage_get_free_slot_number P (write_next_link P pg r) = DataPage_get_free_slot_number P pg"
  by (auto simp: link_frames layout_defs DataPage_get_free_slot_number_def)

end

context root_layout
begin

text \<open>Writing a slot, a counter or a list end of the root page leaves the other fields.\<close>

lemma root_write_slot:
  assumes "k < m_max_free_slots rp"
  shows "j < m_max_free_slots rp \<Longrightarrow>
      slot_head P rp (write_integer_4 P pg (free_slot_off rp k) v) j = (if j = k then v else slot_head P rp pg j)"
    and "cur_slots P rp (write_integer_4 P pg (free_slot_off rp k) v) = cur_slots P rp pg"
    and "off \<in> {total_free_pages_off rp, total_data_pages_off rp, all_slot_head_off rp, all_slot_tail_off rp} \<Longrightarrow>
      read_integer_4 P (write_integer_4 P pg (free_slot_off rp k) v) off = read_integer_4 P pg off"
proof -
  show "slot_head P rp (write_integer_4 P pg (free_slot_off rp k) v) j = (if j = k then v else slot_head P rp pg j)"
    if "j < m_max_free_slots rp"
    using that assms by (cases j k rule: linorder_cases) (simp_all add: slot_head_def slot_off read_frames)
qed (use assms in \<open>auto simp: cur_slots_def slot_off read_frames root_offs layout_defs\<close>)

lemma root_write_total_free:
  shows "j < m_max_free_slots rp \<Longrightarrow> slot_head P rp (write_integer_4 P pg (total_free_pages_off rp) v) j = slot_head P rp pg j"
    and "cur_slots P rp (write_integer_4 P pg (total_free_pages_off rp) v) = cur_slots P rp pg"
    and "off \<in> {total_data_pages_off rp, all_slot_head_off rp, all_slot_tail_off rp} \<Longrightarrow>
      read_integer_4 P (write_integer_4 P pg (total_free_pages_off rp) v) off = read_integer_4 P pg off"
  by (auto simp: slot_head_def cur_slots_def slot_off read_frames root_offs layout_defs)

lemma root_write_data_fields:
  assumes "off \<in> {total_data_pages_off rp, all_slot_head_off rp, all_slot_tail_off rp}"
  shows "j < m_max_free_slots rp \<Longrightarrow> slot_head P rp (write_integer_4 P pg off v) j = slot_head P rp pg j"
    and "cur_slots P rp (write_integer_4 P pg off v) = cur_slots P rp pg"
    and "read_integer_4 P (write_integer_4 P pg off v) (total_free_pages_off rp) = read_integer_4 P pg (total_free_pages_off rp)"
    and "off' \<in> {total_data_pages_off rp, all_slot_head_off rp, all_slot_tail_off rp} \<Longrightarrow>
      read_integer_4 P (write_integer_4 P pg off v) off' = (if off = off' then v else read_integer_4 P pg off')"
  using assms by (auto simp: slot_head_def cur_slots_def slot_off read_frames root_offs layout_defs)

lemma data_offs_distinct:
  "total_data_pages_off rp \<noteq> all_slot_head_off rp" "total_data_pages_off rp \<noteq> all_slot_tail_off rp"
  "all_slot_head_off rp \<noteq> all_slot_tail_off rp"
  by (auto simp: root_offs layout_defs)

lemmas root_writes = root_write_slot root_write_total_free

text \<open>A page hangs off at most one slot.\<close>

lemma free_lists_disjoint:
  assumes fl: "free_lists P rp m root fl" and x: "x \<in> set (fl j)" "x \<in> set (fl k)"
  shows "j = k"
proof -
  let ?n = "cur_slots P rp (the (m root))"
  have jk: "j < ?n" "k < ?n" using fl x by (auto simp: free_lists_def split: if_splits)
  with fl have "free_list P rp m root j (fl j)" "free_list P rp m root k (fl k)"
    by (auto simp: free_lists_def)
  with x have "(word_of_nat j :: 16 word) = word_of_nat k"
    using free_list_member_slot by metis
  moreover have "j < 2 ^ 16" "k < 2 ^ 16" using jk fl max_slots by (auto simp: free_lists_def)
  ultimately show ?thesis by (simp add: word_of_nat_eq_iff take_bit_nat_eq_self)
qed

lemma free_lists_slot:
  assumes "free_lists P rp m root fl" "x \<in> set (fl k)"
  shows "k < cur_slots P rp (the (m root))" "free_list P rp m root k (fl k)"
    "unat (DataPage_get_free_slot_number P (the (m x))) = k" "x \<noteq> root" "m x \<noteq> None" "x \<noteq> INVALID_REF"
proof -
  show k: "k < cur_slots P rp (the (m root))" using assms by (auto simp: free_lists_def split: if_splits)
  then show f: "free_list P rp m root k (fl k)" using assms by (auto simp: free_lists_def)
  have "k < 65536" using k assms max_slots by (auto simp: free_lists_def)
  then show "unat (DataPage_get_free_slot_number P (the (m x))) = k"
    using free_list_member_slot [OF f assms(2)] by (simp add: unat_of_nat)
  show "x \<noteq> root" "m x \<noteq> None" using f assms(2) by (auto simp: free_list_def)
  show "x \<noteq> INVALID_REF" using free_list_valid [OF f] assms(2) by auto
qed

text \<open>A list none of whose members or links changed is still a list.\<close>

lemma free_list_frame:
  assumes f: "free_list P rp m root j xs"
    and h: "slot_head P rp (the (m' root)) j = slot_head P rp (the (m root)) j"
    and y: "\<And>y. y \<in> set xs \<Longrightarrow> m' y = m y"
  shows "free_list P rp m' root j xs"
proof -
  have "chain (\<lambda>r. read_integer_4 P (the (m' r)) NEXT_FREE_PAGE_OFF)
      (\<lambda>r. read_integer_4 P (the (m' r)) PREV_FREE_PAGE_OFF) INVALID_REF root xs (slot_head P rp (the (m root)) j)
    = chain (\<lambda>r. read_integer_4 P (the (m r)) NEXT_FREE_PAGE_OFF)
      (\<lambda>r. read_integer_4 P (the (m r)) PREV_FREE_PAGE_OFF) INVALID_REF root xs (slot_head P rp (the (m root)) j)"
    by (intro chain_cong) (simp add: y)
  with assms show ?thesis by (simp add: free_list_def)
qed

lemma sum_length_push:
  "k < n \<Longrightarrow> (\<Sum>j<n. length ((fl(k := x # fl k)) j)) = Suc (\<Sum>j<(n::nat). length (fl j))"
  by (simp add: sum.remove [of "{..<n}" k])

lemma sum_length_remove:
  "k < n \<Longrightarrow> fl k = xs @ x # ys \<Longrightarrow>
   (\<Sum>j<n. length (fl j)) = Suc (\<Sum>j<(n::nat). length ((fl(k := xs @ ys)) j))"
  by (simp add: sum.remove [of "{..<n}" k])

lemma add_free_page_lists:
  assumes fl: "free_lists P rp m root fl" and k: "k < cur_slots P rp (the (m root))"
    and d: "m data \<noteq> None" "data \<noteq> root" "data \<noteq> INVALID_REF" "\<And>j. data \<notin> set (fl j)"
  shows "free_lists P rp (add_free_page_pages P rp root data k m) root (fl(k := data # fl k))"
proof -
  let ?m = "add_free_page_pages P rp root data k m" and ?n = "cur_slots P rp (the (m root))"
  let ?h = "slot_head P rp (the (m root)) k"
  have kmax: "k < m_max_free_slots rp" using fl k by (auto simp: free_lists_def)
  have fk: "free_list P rp m root k (fl k)" using fl k by (auto simp: free_lists_def)
  have hd: "?h = (if fl k = [] then INVALID_REF else hd (fl k))"
    by (rule free_list_head [OF fk])
  have h_in: "?h \<in> set (fl k)" if "?h \<noteq> INVALID_REF" using hd that by (auto split: if_splits)
  then have h: "?h \<noteq> data" "?h \<noteq> root" if "?h \<noteq> INVALID_REF"
    using that d(4) free_lists_slot(4) [OF fl] by blast+
  have root: "slot_head P rp (the (?m root)) j = (if j = k then data else slot_head P rp (the (m root)) j)"
    if "j < m_max_free_slots rp" for j
    using that kmax d(2) h by (simp add: add_free_page_pages_def Let_def root_writes)
  have cur: "cur_slots P rp (the (?m root)) = ?n" "?m root \<noteq> None"
    using d(2) kmax by (simp_all add: add_free_page_pages_def Let_def root_writes)
  have tot: "read_integer_4 P (the (?m root)) (total_free_pages_off rp)
      = read_integer_4 P (the (m root)) (total_free_pages_off rp) + 1"
    using d(2) kmax by (simp add: add_free_page_pages_def Let_def root_writes)
  have other: "?m y = m y" if "y \<noteq> root" "y \<noteq> data" "y \<noteq> ?h" for y
    using that by (simp add: add_free_page_pages_def Let_def)
  have member: "?m y = m y" if "y \<in> set (fl j)" "y \<noteq> ?h" for y j
    using that free_lists_slot(4) [OF fl that(1)] d(4) by (intro other) auto
  have head: "?m ?h = Some (write_integer_4 P (the (m ?h)) PREV_FREE_PAGE_OFF data)" if "?h \<noteq> INVALID_REF"
    using that h by (simp add: add_free_page_pages_def Let_def)
  have data: "read_integer_4 P (the (?m data)) NEXT_FREE_PAGE_OFF = ?h"
    "read_integer_4 P (the (?m data)) PREV_FREE_PAGE_OFF = root"
    "DataPage_get_free_slot_number P (the (?m data)) = word_of_nat k" "?m data \<noteq> None"
    using d(2) by (simp_all add: add_free_page_pages_def Let_def read_frames layout_defs
        DataPage_get_free_slot_number_def)
  have "free_list P rp ?m root k (data # fl k)"
  proof -
    have "chain (\<lambda>r. read_integer_4 P (the (?m r)) NEXT_FREE_PAGE_OFF)
        (\<lambda>r. read_integer_4 P (the (?m r)) PREV_FREE_PAGE_OFF) INVALID_REF root (data # fl k) data"
    proof (rule free.chain_push_pages [where m = m and h = ?h])
      show "read_integer_4 P (the (?m y)) NEXT_FREE_PAGE_OFF = read_integer_4 P (the (m y)) NEXT_FREE_PAGE_OFF
          \<and> read_integer_4 P (the (?m y)) PREV_FREE_PAGE_OFF = read_integer_4 P (the (m y)) PREV_FREE_PAGE_OFF"
        if "y \<in> set (fl k)" "y \<noteq> ?h" for y using member [OF that] by simp
    qed (use fk d data head in \<open>simp_all add: free_list_def\<close>)
    moreover have "DataPage_get_free_slot_number P (the (?m x)) = word_of_nat k \<and> ?m x \<noteq> None"
      if "x \<in> set (fl k)" for x
    proof (cases "x = ?h")
      case True
      with that fk head free_lists_slot(6) [OF fl that] show ?thesis
        by (simp add: free_list_def slot_number_write_4)
    next
      case False
      with that fk member [OF that] show ?thesis by (simp add: free_list_def)
    qed
    ultimately show ?thesis using fk d kmax data(3,4) by (auto simp: free_list_def root)
  qed
  moreover have "free_list P rp ?m root j (fl j)" if "j < ?n" "j \<noteq> k" for j
  proof (rule free_list_frame)
    show "free_list P rp m root j (fl j)" using fl that by (auto simp: free_lists_def)
    show "slot_head P rp (the (?m root)) j = slot_head P rp (the (m root)) j"
      using root [of j] that fl by (auto simp: free_lists_def)
    show "?m y = m y" if y: "y \<in> set (fl j)" for y
    proof (rule member [OF y], rule notI)
      assume "y = ?h"
      with free_lists_slot(6) [OF fl y] h_in have "y \<in> set (fl k)" by simp
      with free_lists_disjoint [OF fl y] \<open>j \<noteq> k\<close> show False by blast
    qed
  qed
  ultimately show ?thesis
    using fl k cur tot sum_length_push [OF k, of fl data] by (auto simp: free_lists_def)
qed

end

context root_layout
begin

lemma remove_free_page_neighbours:
  assumes fl: "free_lists P rp m root fl" and x: "fl k = xs @ data # ys"
  defines "pv \<equiv> read_integer_4 P (the (m data)) PREV_FREE_PAGE_OFF"
    and "nx \<equiv> read_integer_4 P (the (m data)) NEXT_FREE_PAGE_OFF"
  shows "pv = (if xs = [] then root else last xs)" "nx = (if ys = [] then INVALID_REF else hd ys)"
    "pv \<noteq> data" "nx \<noteq> data" "nx \<noteq> root" "m pv \<noteq> None" "nx \<noteq> INVALID_REF \<Longrightarrow> m nx \<noteq> None"
    "nx \<noteq> pv" "data \<noteq> root" "m data \<noteq> None" "data \<noteq> INVALID_REF"
proof -
  have d: "data \<in> set (fl k)" using x by simp
  have f: "free_list P rp m root k (xs @ data # ys)" using free_lists_slot(2) [OF fl d] x by simp
  have dist: "distinct (xs @ data # ys)" "root \<notin> set (xs @ data # ys)" "INVALID_REF \<notin> set (xs @ data # ys)"
    using f free_list_valid [OF f] by (auto simp: free_list_def)
  show pv: "pv = (if xs = [] then root else last xs)" and nx: "nx = (if ys = [] then INVALID_REF else hd ys)"
  proof -
    have c: "chain (\<lambda>r. read_integer_4 P (the (m r)) NEXT_FREE_PAGE_OFF)
        (\<lambda>r. read_integer_4 P (the (m r)) PREV_FREE_PAGE_OFF) INVALID_REF root (xs @ data # ys)
        (slot_head P rp (the (m root)) k)" using f by (simp add: free_list_def)
    show "pv = (if xs = [] then root else last xs)" "nx = (if ys = [] then INVALID_REF else hd ys)"
      unfolding pv_def nx_def using chain_prev [OF c] chain_next [OF c] by simp_all
  qed
  show "data \<noteq> root" "m data \<noteq> None" using free_lists_slot [OF fl d] by auto
  have m: "m y \<noteq> None" if "y \<in> set xs \<union> set ys" for y using f that by (auto simp: free_list_def)
  have mr: "m root \<noteq> None" and rt: "root \<noteq> INVALID_REF" using fl by (simp_all add: free_lists_def)
  have lx: "last xs \<in> set xs" if "xs \<noteq> []" using that by simp
  have hy: "hd ys \<in> set ys" if "ys \<noteq> []" using that by simp
  show "pv \<noteq> data" using pv lx dist \<open>data \<noteq> root\<close> by (auto split: if_splits)
  have nx_in: "nx \<in> insert INVALID_REF (set ys)" using nx hy by auto
  have pv_in: "pv \<in> insert root (set xs)" using pv lx by auto
  show "nx \<noteq> data" "nx \<noteq> root" using nx_in dist rt by auto
  show "m pv \<noteq> None" using pv lx m mr by (cases "xs = []") auto
  show "nx \<noteq> INVALID_REF \<Longrightarrow> m nx \<noteq> None" using nx hy m by (cases "ys = []") auto
  show "nx \<noteq> pv" using nx_in pv_in dist rt by auto
  show "data \<noteq> INVALID_REF" using dist by auto
qed

end

context root_layout
begin

lemma remove_free_page_lists:
  assumes fl: "free_lists P rp m root fl" and x: "fl k = xs @ data # ys"
  shows "free_lists P rp (remove_free_page_pages P rp root data m) root (fl(k := xs @ ys))"
proof -
  let ?m = "remove_free_page_pages P rp root data m" and ?n = "cur_slots P rp (the (m root))"
  define pv where "pv = read_integer_4 P (the (m data)) PREV_FREE_PAGE_OFF"
  define nx where "nx = read_integer_4 P (the (m data)) NEXT_FREE_PAGE_OFF"
  note nb = remove_free_page_neighbours [OF fl x, folded pv_def nx_def]
  have d: "data \<in> set (fl k)" using x by simp
  note slot = free_lists_slot [OF fl d]
  have kmax: "k < m_max_free_slots rp" using fl slot(1) by (auto simp: free_lists_def)
  have f: "free_list P rp m root k (xs @ data # ys)" using slot(2) x by simp
  note defs = remove_free_page_pages_def Let_def pv_def [symmetric] nx_def [symmetric] slot(3)
  have root: "slot_head P rp (the (?m root)) j
      = (if j = k \<and> pv = root then nx else slot_head P rp (the (m root)) j)"
    if "j < m_max_free_slots rp" for j
    using that kmax nb by (auto simp: defs root_writes)
  have cur: "cur_slots P rp (the (?m root)) = ?n" "?m root \<noteq> None"
    using nb kmax by (auto simp: defs root_writes)
  have tot: "read_integer_4 P (the (?m root)) (total_free_pages_off rp)
      = read_integer_4 P (the (m root)) (total_free_pages_off rp) - 1"
    using nb kmax by (auto simp: defs root_writes)
  have other: "?m y = m y" if "y \<noteq> root" "y \<noteq> data" "y \<noteq> pv" "y \<noteq> nx" for y
    using that by (simp add: defs)
  have links: "read_integer_4 P (the (?m y)) NEXT_FREE_PAGE_OFF
        = (if y = pv then nx else read_integer_4 P (the (m y)) NEXT_FREE_PAGE_OFF)"
      "read_integer_4 P (the (?m y)) PREV_FREE_PAGE_OFF
        = (if y = nx then pv else read_integer_4 P (the (m y)) PREV_FREE_PAGE_OFF)"
      "DataPage_get_free_slot_number P (the (?m y)) = DataPage_get_free_slot_number P (the (m y))"
      "?m y \<noteq> None"
    if "y \<in> set xs \<union> set ys" for y
  proof -
    have y: "y \<noteq> root" "y \<noteq> data" "m y \<noteq> None" "y \<noteq> INVALID_REF"
      using that f free_list_valid [OF f] by (auto simp: free_list_def)
    then show "read_integer_4 P (the (?m y)) NEXT_FREE_PAGE_OFF
        = (if y = pv then nx else read_integer_4 P (the (m y)) NEXT_FREE_PAGE_OFF)"
      "read_integer_4 P (the (?m y)) PREV_FREE_PAGE_OFF
        = (if y = nx then pv else read_integer_4 P (the (m y)) PREV_FREE_PAGE_OFF)"
      "DataPage_get_free_slot_number P (the (?m y)) = DataPage_get_free_slot_number P (the (m y))"
      "?m y \<noteq> None"
      using nb by (auto simp: defs free.link_simps slot_number_write_4)
  qed
  have "free_list P rp ?m root k (xs @ ys)"
  proof -
    have "chain (\<lambda>r. read_integer_4 P (the (?m r)) NEXT_FREE_PAGE_OFF)
        (\<lambda>r. read_integer_4 P (the (?m r)) PREV_FREE_PAGE_OFF) INVALID_REF root (xs @ ys)
        (if pv = root then nx else slot_head P rp (the (m root)) k)"
      unfolding pv_def nx_def
      by (rule chain_remove) (use f links in \<open>simp_all add: free_list_def pv_def nx_def\<close>)
    then show ?thesis using f links kmax by (auto simp: free_list_def root)
  qed
  moreover have "free_list P rp ?m root j (fl j)" if "j < ?n" "j \<noteq> k" for j
  proof (rule free_list_frame)
    show "free_list P rp m root j (fl j)" using fl that by (auto simp: free_lists_def)
    show "slot_head P rp (the (?m root)) j = slot_head P rp (the (m root)) j"
      using root [of j] that fl by (auto simp: free_lists_def)
    show "?m y = m y" if y: "y \<in> set (fl j)" for y
    proof (rule other)
      have "y \<notin> set (fl k)" using free_lists_disjoint [OF fl y] \<open>j \<noteq> k\<close> by blast
      then have "y \<notin> set xs" "y \<noteq> data" "y \<notin> set ys" using x by auto
      with free_lists_slot(4,6) [OF fl y] nb(1,2)
      show "y \<noteq> root" "y \<noteq> data" "y \<noteq> pv" "y \<noteq> nx" by (auto split: if_splits)
    qed
  qed
  ultimately show ?thesis
    using fl cur tot sum_length_remove [OF slot(1), of fl, OF x] by (auto simp: free_lists_def)
qed

end

context root_layout
begin

lemma add_data_page_list:
  assumes dl: "data_list P rp m root dl" and d: "m data \<noteq> None" "data \<noteq> root" "data \<noteq> INVALID_REF" "data \<notin> set dl"
  shows "data_list P rp (add_data_page_pages P rp root data m) root (data # dl)"
proof -
  let ?m = "add_data_page_pages P rp root data m" and ?r = "the (m root)"
  define h where "h = read_integer_4 P ?r (all_slot_head_off rp)"
  have c: "chain (\<lambda>r. read_next_link P (the (m r))) (\<lambda>r. read_prev_link P (the (m r))) INVALID_REF INVALID_REF dl h"
    using dl by (simp add: data_list_def h_def)
  have hd: "h = (if dl = [] then INVALID_REF else List.hd dl)" by (rule chain_head [OF c])
  then have h_in: "h \<in> set dl" if "h \<noteq> INVALID_REF" using that by (auto split: if_splits)
  then have h: "h \<noteq> data" "h \<noteq> root" if "h \<noteq> INVALID_REF" using that d dl by (auto simp: data_list_def)
  note defs = add_data_page_pages_def Let_def h_def [symmetric]
  have root: "read_integer_4 P (the (?m root)) (all_slot_head_off rp) = data"
    "read_integer_4 P (the (?m root)) (all_slot_tail_off rp)
       = (if h = INVALID_REF then data else read_integer_4 P ?r (all_slot_tail_off rp))"
    "read_integer_4 P (the (?m root)) (total_data_pages_off rp) = read_integer_4 P ?r (total_data_pages_off rp) + 1"
    "?m root \<noteq> None"
    using data_offs_distinct by (simp_all add: defs root_write_data_fields)
  have new: "read_next_link P (the (?m data)) = h" "read_prev_link P (the (?m data)) = INVALID_REF" "?m data \<noteq> None"
    using d(2) by (simp_all add: defs write_links_def fil.link_simps)
  have other: "?m y = m y" if "y \<in> set dl" "y \<noteq> h" for y
    using that d dl by (auto simp: defs data_list_def)
  have head: "?m h = Some (write_prev_link P (the (m h)) data)" if "h \<noteq> INVALID_REF"
    using that h by (simp add: defs)
  have "chain (\<lambda>r. read_next_link P (the (?m r))) (\<lambda>r. read_prev_link P (the (?m r))) INVALID_REF INVALID_REF
      (data # dl) data"
    by (rule fil.chain_push_pages [OF c]) (use dl d new head other in \<open>simp_all add: data_list_def\<close>)
  moreover have "?m y \<noteq> None" if "y \<in> set dl" for y
    using other [OF that] head dl that chain_not_null [OF c] by (cases "y = h") (auto simp: data_list_def)
  moreover have "dl = [] \<longleftrightarrow> h = INVALID_REF" using hd chain_not_null [OF c] by (cases dl) auto
  ultimately show ?thesis using dl d root new(3) by (simp add: data_list_def)
qed

lemma data_list_neighbours:
  assumes dl: "data_list P rp m root (xs @ data # ys)"
  defines "pv \<equiv> read_prev_link P (the (m data))" and "nx \<equiv> read_next_link P (the (m data))"
  shows "pv = (if xs = [] then INVALID_REF else last xs)" "nx = (if ys = [] then INVALID_REF else hd ys)"
    "pv \<noteq> data" "nx \<noteq> data" "pv \<noteq> root" "nx \<noteq> root" "nx \<noteq> pv \<or> nx = INVALID_REF"
    "pv \<noteq> INVALID_REF \<Longrightarrow> m pv \<noteq> None" "nx \<noteq> INVALID_REF \<Longrightarrow> m nx \<noteq> None"
proof -
  have c: "chain (\<lambda>r. read_next_link P (the (m r))) (\<lambda>r. read_prev_link P (the (m r))) INVALID_REF INVALID_REF
      (xs @ data # ys) (read_integer_4 P (the (m root)) (all_slot_head_off rp))"
    using dl by (simp add: data_list_def)
  show pv: "pv = (if xs = [] then INVALID_REF else last xs)" and nx: "nx = (if ys = [] then INVALID_REF else hd ys)"
    unfolding pv_def nx_def using chain_prev [OF c] chain_next [OF c] by simp_all
  have pv_in: "pv \<in> insert INVALID_REF (set xs)" and nx_in: "nx \<in> insert INVALID_REF (set ys)"
    using pv nx by auto
  note facts = chain_not_null [OF c] dl [unfolded data_list_def]
  show "pv \<noteq> data" "nx \<noteq> data" "pv \<noteq> root" "nx \<noteq> root" "nx \<noteq> pv \<or> nx = INVALID_REF"
    "pv \<noteq> INVALID_REF \<Longrightarrow> m pv \<noteq> None" "nx \<noteq> INVALID_REF \<Longrightarrow> m nx \<noteq> None"
    using pv_in nx_in facts by auto
qed

lemma remove_data_page_list:
  assumes dl: "data_list P rp m root (xs @ data # ys)"
  shows "data_list P rp (remove_data_page_pages P rp root data m) root (xs @ ys)"
proof -
  let ?m = "remove_data_page_pages P rp root data m" and ?r = "the (m root)"
  define pv where "pv = read_prev_link P (the (m data))"
  define nx where "nx = read_next_link P (the (m data))"
  define h where "h = read_integer_4 P ?r (all_slot_head_off rp)"
  note nb = data_list_neighbours [OF dl, folded pv_def nx_def]
  have c: "chain (\<lambda>r. read_next_link P (the (m r))) (\<lambda>r. read_prev_link P (the (m r))) INVALID_REF INVALID_REF
      (xs @ data # ys) h" using dl by (simp add: data_list_def h_def)
  note defs = remove_data_page_pages_def Let_def pv_def [symmetric] nx_def [symmetric]
  have dr: "data \<noteq> root" using dl by (auto simp: data_list_def)
  have root: "read_integer_4 P (the (?m root)) (all_slot_head_off rp) = (if pv = INVALID_REF then nx else h)"
    "read_integer_4 P (the (?m root)) (all_slot_tail_off rp)
       = (if nx = INVALID_REF then pv else read_integer_4 P ?r (all_slot_tail_off rp))"
    "read_integer_4 P (the (?m root)) (total_data_pages_off rp) = read_integer_4 P ?r (total_data_pages_off rp) - 1"
    "?m root \<noteq> None"
    using data_offs_distinct by (simp_all add: defs root_write_data_fields h_def)
  have links: "read_next_link P (the (?m y)) = (if y = pv then nx else read_next_link P (the (m y)))"
      "read_prev_link P (the (?m y)) = (if y = nx then pv else read_prev_link P (the (m y)))" "?m y \<noteq> None"
    if "y \<in> set xs \<union> set ys" for y
  proof -
    have "y \<noteq> root" "y \<noteq> data" "m y \<noteq> None" "y \<noteq> INVALID_REF"
      using that dl chain_not_null [OF c] by (auto simp: data_list_def)
    then show "read_next_link P (the (?m y)) = (if y = pv then nx else read_next_link P (the (m y)))"
      "read_prev_link P (the (?m y)) = (if y = nx then pv else read_prev_link P (the (m y)))" "?m y \<noteq> None"
      using nb by (auto simp: defs fil.link_simps)
  qed
  have "chain (\<lambda>r. read_next_link P (the (?m r))) (\<lambda>r. read_prev_link P (the (?m r))) INVALID_REF INVALID_REF
      (xs @ ys) (if pv = INVALID_REF then nx else h)"
    unfolding pv_def nx_def
    by (rule chain_remove [OF c])
      (use dl links chain_not_null [OF c] in \<open>simp_all add: data_list_def pv_def nx_def\<close>)
  moreover have "(if xs @ ys = [] then INVALID_REF else last (xs @ ys))
      = (if nx = INVALID_REF then pv else last (xs @ data # ys))"
    using chain_remove_last [OF c refl] by (simp add: pv_def nx_def)
  ultimately show ?thesis using dl root links dr by (auto simp: data_list_def)
qed

text \<open>Each list is untouched by the operations on the other.\<close>

lemma free_lists_frame:
  assumes fl: "free_lists P rp m root fl" and root: "m' root \<noteq> None"
    "\<And>j. j < m_max_free_slots rp \<Longrightarrow> slot_head P rp (the (m' root)) j = slot_head P rp (the (m root)) j"
    "cur_slots P rp (the (m' root)) = cur_slots P rp (the (m root))"
    "read_integer_4 P (the (m' root)) (total_free_pages_off rp) = read_integer_4 P (the (m root)) (total_free_pages_off rp)"
    and y: "\<And>y k. y \<in> set (fl k) \<Longrightarrow> m' y \<noteq> None
      \<and> read_integer_4 P (the (m' y)) NEXT_FREE_PAGE_OFF = read_integer_4 P (the (m y)) NEXT_FREE_PAGE_OFF
      \<and> read_integer_4 P (the (m' y)) PREV_FREE_PAGE_OFF = read_integer_4 P (the (m y)) PREV_FREE_PAGE_OFF
      \<and> DataPage_get_free_slot_number P (the (m' y)) = DataPage_get_free_slot_number P (the (m y))"
  shows "free_lists P rp m' root fl"
proof -
  have "free_list P rp m' root k (fl k)" if k: "k < cur_slots P rp (the (m root))" for k
  proof -
    have f: "free_list P rp m root k (fl k)" and "k < m_max_free_slots rp"
      using fl k by (auto simp: free_lists_def)
    have "chain (\<lambda>r. read_integer_4 P (the (m' r)) NEXT_FREE_PAGE_OFF)
        (\<lambda>r. read_integer_4 P (the (m' r)) PREV_FREE_PAGE_OFF) INVALID_REF root (fl k) (slot_head P rp (the (m root)) k)
      = chain (\<lambda>r. read_integer_4 P (the (m r)) NEXT_FREE_PAGE_OFF)
        (\<lambda>r. read_integer_4 P (the (m r)) PREV_FREE_PAGE_OFF) INVALID_REF root (fl k) (slot_head P rp (the (m root)) k)"
      using y by (intro chain_cong) blast
    with f y root(2) \<open>k < m_max_free_slots rp\<close> show ?thesis by (simp add: free_list_def)
  qed
  then show ?thesis using fl root by (simp add: free_lists_def)
qed

lemma data_list_frame:
  assumes dl: "data_list P rp m root dl" and root: "m' root \<noteq> None"
    "\<And>off. off \<in> {total_data_pages_off rp, all_slot_head_off rp, all_slot_tail_off rp} \<Longrightarrow>
       read_integer_4 P (the (m' root)) off = read_integer_4 P (the (m root)) off"
    and y: "\<And>y. y \<in> set dl \<Longrightarrow> m' y \<noteq> None \<and> read_next_link P (the (m' y)) = read_next_link P (the (m y))
      \<and> read_prev_link P (the (m' y)) = read_prev_link P (the (m y))"
  shows "data_list P rp m' root dl"
proof -
  have "chain (\<lambda>r. read_next_link P (the (m' r))) (\<lambda>r. read_prev_link P (the (m' r))) INVALID_REF INVALID_REF dl
      (read_integer_4 P (the (m root)) (all_slot_head_off rp))
    = chain (\<lambda>r. read_next_link P (the (m r))) (\<lambda>r. read_prev_link P (the (m r))) INVALID_REF INVALID_REF dl
      (read_integer_4 P (the (m root)) (all_slot_head_off rp))"
    using y by (intro chain_cong) blast
  with dl root y show ?thesis by (simp add: data_list_def)
qed

end

text \<open>
  The list invariant of a root page: the free lists, the data page list, and every page of a free
  list is a data page of the store.
\<close>

definition root_lists ::
    "'p page_api \<Rightarrow> root_page \<Rightarrow> (page_ref \<Rightarrow> 'p option) \<Rightarrow> page_ref \<Rightarrow> (nat \<Rightarrow> page_ref list) \<Rightarrow> page_ref list \<Rightarrow> bool" where
  "root_lists P rp m root fl dl \<longleftrightarrow> free_lists P rp m root fl \<and> data_list P rp m root dl
     \<and> (\<forall>k. set (fl k) \<subseteq> set dl)"

text \<open>Pages keep their records: no page disappears and only list fields and links change.\<close>

definition keeps_records :: "'p page_api \<Rightarrow> page_ref \<Rightarrow> (page_ref \<Rightarrow> 'p option) \<Rightarrow> (page_ref \<Rightarrow> 'p option) \<Rightarrow> bool" where
  "keeps_records P root m m' \<longleftrightarrow> (\<forall>x. (m' x = None \<longleftrightarrow> m x = None)
     \<and> (x \<noteq> root \<longrightarrow> m x \<noteq> None \<longrightarrow> same_records P (the (m x)) (the (m' x))))"

text \<open>Only the root page and the pages of a set may change.\<close>

definition untouched :: "page_ref \<Rightarrow> page_ref set \<Rightarrow> (page_ref \<Rightarrow> 'p option) \<Rightarrow> (page_ref \<Rightarrow> 'p option) \<Rightarrow> bool" where
  "untouched root T m m' \<longleftrightarrow> (\<forall>x. x \<noteq> root \<longrightarrow> x \<notin> T \<longrightarrow> m' x = m x)"

lemma keeps_records_trans:
  "keeps_records P root m m1 \<Longrightarrow> keeps_records P root m1 m2 \<Longrightarrow> keeps_records P root m m2"
  unfolding keeps_records_def by (metis same_records_trans)

context root_layout
begin

lemma root_lists_slot_head:
  assumes "root_lists P rp m root fl dl" "k < cur_slots P rp (the (m root))"
  shows "slot_head P rp (the (m root)) k = (if fl k = [] then INVALID_REF else hd (fl k))"
    "slot_head P rp (the (m root)) k \<noteq> root"
    "slot_head P rp (the (m root)) k \<noteq> INVALID_REF \<Longrightarrow> slot_head P rp (the (m root)) k \<in> set (fl k)"
    "slot_head P rp (the (m root)) k \<noteq> INVALID_REF \<Longrightarrow> m (slot_head P rp (the (m root)) k) \<noteq> None"
proof -
  have fl: "free_lists P rp m root fl" using assms by (simp add: root_lists_def)
  have f: "free_list P rp m root k (fl k)" using fl assms(2) by (auto simp: free_lists_def)
  show h: "slot_head P rp (the (m root)) k = (if fl k = [] then INVALID_REF else hd (fl k))"
    by (rule free_list_head [OF f])
  show i: "slot_head P rp (the (m root)) k \<in> set (fl k)" if "slot_head P rp (the (m root)) k \<noteq> INVALID_REF"
    using h that by (auto split: if_splits)
  show "slot_head P rp (the (m root)) k \<noteq> root" "slot_head P rp (the (m root)) k \<noteq> INVALID_REF \<Longrightarrow>
      m (slot_head P rp (the (m root)) k) \<noteq> None"
    using i f fl by (auto simp: free_list_def free_lists_def)
qed

lemma add_free_page_root_lists:
  assumes rl: "root_lists P rp m root fl dl" and k: "k < cur_slots P rp (the (m root))"
    and d: "data \<in> set dl" "\<And>j. data \<notin> set (fl j)"
  shows "root_lists P rp (add_free_page_pages P rp root data k m) root (fl(k := data # fl k)) dl"
    and "keeps_records P root m (add_free_page_pages P rp root data k m)"
    and "untouched root (set dl) m (add_free_page_pages P rp root data k m)"
proof -
  let ?m = "add_free_page_pages P rp root data k m"
  have fl: "free_lists P rp m root fl" and dl: "data_list P rp m root dl" using rl by (auto simp: root_lists_def)
  have dd: "m data \<noteq> None" "data \<noteq> root" "data \<noteq> INVALID_REF"
    using dl d(1) by (auto simp: data_list_def dest: chain_not_null)
  have kmax: "k < m_max_free_slots rp" using fl k by (auto simp: free_lists_def)
  note h = root_lists_slot_head [OF rl k]
  have hd: "slot_head P rp (the (m root)) k \<noteq> data"
    using h(3) d(2) dd(3) by metis
  have mr: "m root \<noteq> None" using fl by (simp add: free_lists_def)
  have "data_list P rp ?m root dl"
    by (rule data_list_frame [OF dl])
      (use kmax dl h hd dd in \<open>auto simp: add_free_page_pages_def Let_def root_writes fil_links_write data_list_def\<close>)
  then show "root_lists P rp ?m root (fl(k := data # fl k)) dl"
    using add_free_page_lists [OF fl k dd d(2)] rl d(1) by (auto simp: root_lists_def)
  show "keeps_records P root m ?m"
    using h(2,4) hd dd mr
    by (auto simp: keeps_records_def add_free_page_pages_def Let_def
        intro: same_records_write_4 same_records_trans [OF same_records_write_4]
          same_records_trans [OF same_records_trans [OF same_records_write_4 same_records_write_4] same_records_slot_number])
  have "set (fl k) \<subseteq> set dl" using rl unfolding root_lists_def by blast
  with h(3) d(1) show "untouched root (set dl) m ?m"
    by (auto simp: untouched_def add_free_page_pages_def Let_def)
qed

lemma remove_free_page_root_lists:
  assumes rl: "root_lists P rp m root fl dl" and x: "fl k = xs @ data # ys"
  shows "root_lists P rp (remove_free_page_pages P rp root data m) root (fl(k := xs @ ys)) dl"
    and "keeps_records P root m (remove_free_page_pages P rp root data m)"
    and "untouched root (set dl) m (remove_free_page_pages P rp root data m)"
proof -
  let ?m = "remove_free_page_pages P rp root data m"
  have fl: "free_lists P rp m root fl" and dl: "data_list P rp m root dl" using rl by (auto simp: root_lists_def)
  note nb = remove_free_page_neighbours [OF fl x]
  have "data \<in> set (fl k)" using x by simp
  note slot = free_lists_slot [OF fl this]
  have kmax: "k < m_max_free_slots rp" using fl slot(1) by (auto simp: free_lists_def)
  have mr: "m root \<noteq> None" using fl by (simp add: free_lists_def)
  have "data_list P rp ?m root dl"
    by (rule data_list_frame [OF dl])
      (use kmax dl nb(3-) slot(3) in \<open>auto simp: remove_free_page_pages_def Let_def root_writes fil_links_write data_list_def\<close>)
  moreover have sub: "set xs \<subseteq> set dl" "set ys \<subseteq> set dl"
  proof -
    have "set (fl k) \<subseteq> set dl" using rl unfolding root_lists_def by blast
    then show "set xs \<subseteq> set dl" "set ys \<subseteq> set dl" unfolding x by auto
  qed
  ultimately show "root_lists P rp ?m root (fl(k := xs @ ys)) dl"
    using remove_free_page_lists [OF fl x] rl sub by (simp add: root_lists_def)
  show "keeps_records P root m ?m"
    using nb(3-) mr
    by (auto simp: keeps_records_def remove_free_page_pages_def Let_def
        intro: same_records_write_4 same_records_trans [OF same_records_write_4 same_records_write_4])
  have "read_integer_4 P (the (m data)) PREV_FREE_PAGE_OFF \<in> insert root (set xs)"
    "read_integer_4 P (the (m data)) NEXT_FREE_PAGE_OFF \<in> insert INVALID_REF (set ys)"
    unfolding nb(1) nb(2) by auto
  moreover have "set (fl k) \<subseteq> set dl" using rl unfolding root_lists_def by blast
  ultimately show "untouched root (set dl) m ?m"
    unfolding x by (auto simp: untouched_def remove_free_page_pages_def Let_def)
qed

lemma add_data_page_root_lists:
  assumes rl: "root_lists P rp m root fl dl"
    and d: "m data \<noteq> None" "data \<noteq> root" "data \<noteq> INVALID_REF" "data \<notin> set dl"
  shows "root_lists P rp (add_data_page_pages P rp root data m) root fl (data # dl)"
    and "keeps_records P root m (add_data_page_pages P rp root data m)"
    and "untouched root (insert data (set dl)) m (add_data_page_pages P rp root data m)"
proof -
  let ?m = "add_data_page_pages P rp root data m"
  define h where "h = read_integer_4 P (the (m root)) (all_slot_head_off rp)"
  have fl: "free_lists P rp m root fl" and dl: "data_list P rp m root dl" using rl by (auto simp: root_lists_def)
  have "h = (if dl = [] then INVALID_REF else hd dl)"
    using dl unfolding data_list_def h_def by (blast dest: chain_head)
  then have h: "h \<in> set dl" if "h \<noteq> INVALID_REF" using that by (auto split: if_splits)
  then have h': "h \<noteq> root" "h \<noteq> data" "m h \<noteq> None" if "h \<noteq> INVALID_REF" using that dl d by (auto simp: data_list_def)
  have mr: "m root \<noteq> None" using fl by (simp add: free_lists_def)
  have y: "y \<noteq> root" "y \<noteq> data" "m y \<noteq> None" if "y \<in> set (fl k)" for y k
    using that rl dl d(4) by (auto simp: root_lists_def data_list_def)
  have "free_lists P rp ?m root fl"
    by (rule free_lists_frame [OF fl])
      (use y h' in \<open>auto simp: add_data_page_pages_def Let_def root_write_data_fields h_def [symmetric] free_links_fil\<close>)
  then show "root_lists P rp ?m root fl (data # dl)"
    using add_data_page_list [OF dl d] rl by (auto simp: root_lists_def)
  show "keeps_records P root m ?m"
    using h' d mr
    by (auto simp: keeps_records_def add_data_page_pages_def Let_def h_def [symmetric] write_links_def
        intro: same_records_links same_records_trans [OF same_records_links(1) same_records_links(2)])
  show "untouched root (insert data (set dl)) m ?m"
    using h by (auto simp: untouched_def add_data_page_pages_def Let_def h_def [symmetric])
qed

lemma remove_data_page_root_lists:
  assumes rl: "root_lists P rp m root fl (xs @ data # ys)" and d: "\<And>k. data \<notin> set (fl k)"
  shows "root_lists P rp (remove_data_page_pages P rp root data m) root fl (xs @ ys)"
    and "keeps_records P root m (remove_data_page_pages P rp root data m)"
    and "untouched root (set (xs @ data # ys)) m (remove_data_page_pages P rp root data m)"
proof -
  let ?m = "remove_data_page_pages P rp root data m"
  have fl: "free_lists P rp m root fl" and dl: "data_list P rp m root (xs @ data # ys)"
    using rl by (auto simp: root_lists_def)
  note nb = data_list_neighbours [OF dl]
  have mr: "m root \<noteq> None" using fl by (simp add: free_lists_def)
  have dd: "m data \<noteq> None" "data \<noteq> root" using dl by (auto simp: data_list_def)
  have y: "y \<noteq> root" "y \<noteq> data" "m y \<noteq> None" if "y \<in> set (fl k)" for y k
    using free_lists_slot(4,5) [OF fl that] that d by auto
  have "free_lists P rp ?m root fl"
    by (rule free_lists_frame [OF fl])
      (use y nb(3-) in \<open>auto simp: remove_data_page_pages_def Let_def root_write_data_fields free_links_fil\<close>)
  then show "root_lists P rp ?m root fl (xs @ ys)"
    using remove_data_page_list [OF dl] rl d unfolding root_lists_def by auto
  show "keeps_records P root m ?m"
    using nb(3-) dd mr
    by (auto simp: keeps_records_def remove_data_page_pages_def Let_def write_links_def
        intro: same_records_links same_records_trans [OF same_records_links(1) same_records_links(2)])
  have "read_prev_link P (the (m data)) \<in> insert INVALID_REF (set xs)"
    "read_next_link P (the (m data)) \<in> insert INVALID_REF (set ys)"
    unfolding nb(1) nb(2) by auto
  then show "untouched root (set (xs @ data # ys)) m ?m"
    by (auto simp: untouched_def remove_data_page_pages_def Let_def)
qed

end

subsection \<open>Formatting and growing\<close>

context page_api
begin

text \<open>A loop that writes one reference per index, at disjoint offsets.\<close>

lemma fold_write_4_byte:
  "(\<And>i. i \<in> set is \<Longrightarrow> b < off i \<or> off i + 4 \<le> b) \<Longrightarrow>
   get_data P (fold (\<lambda>i pg. write_integer_4 P pg (off i) v) is pg) b = get_data P pg b"
  by (induction "is" arbitrary: pg) (auto simp: data_writes overwrite_out)

lemma fold_write_4_read:
  assumes "\<And>i. i \<in> set is \<Longrightarrow> off i + 4 \<le> b \<or> b + n \<le> off i"
  shows "be_read (get_data P (fold (\<lambda>i pg. write_integer_4 P pg (off i) v) is pg)) b n = be_read (get_data P pg) b n"
  unfolding be_read_def
proof (rule arg_cong [where f = be_value], rule slice_cong)
  fix j assume "b \<le> j" "j < b + n"
  then show "get_data P (fold (\<lambda>i pg. write_integer_4 P pg (off i) v) is pg) j = get_data P pg j"
    using assms by (intro fold_write_4_byte) fastforce
qed

lemma fold_write_4_reads:
  "(\<And>i. i \<in> set is \<Longrightarrow> off i + 4 \<le> b \<or> b + 4 \<le> off i) \<Longrightarrow>
     read_integer_4 P (fold (\<lambda>i pg. write_integer_4 P pg (off i) v) is pg) b = read_integer_4 P pg b"
  "(\<And>i. i \<in> set is \<Longrightarrow> off i + 4 \<le> b \<or> b + 2 \<le> off i) \<Longrightarrow>
     read_integer_2 P (fold (\<lambda>i pg. write_integer_4 P pg (off i) v) is pg) b = read_integer_2 P pg b"
  "(\<And>i. i \<in> set is \<Longrightarrow> off i + 4 \<le> b \<or> b + 1 \<le> off i) \<Longrightarrow>
     read_integer_1 P (fold (\<lambda>i pg. write_integer_4 P pg (off i) v) is pg) b = read_integer_1 P pg b"
  by (simp_all add: read_4 read_2 read_1 fold_write_4_read del: be_read_1)

lemma fold_write_4_own:
  assumes "\<And>i j. i \<in> set is \<Longrightarrow> j \<in> set is \<Longrightarrow> i \<noteq> j \<Longrightarrow> off i + 4 \<le> off j \<or> off j + 4 \<le> off i"
    and "j \<in> set is"
  shows "read_integer_4 P (fold (\<lambda>i pg. write_integer_4 P pg (off i) v) is pg) (off j) = v"
  using assms
proof (induction "is" arbitrary: pg rule: rev_induct)
  case Nil
  then show ?case by simp
next
  case (snoc i xs)
  show ?case
  proof (cases "j = i")
    case True
    then show ?thesis by simp
  next
    case False
    with snoc.prems have "off i + 4 \<le> off j \<or> off j + 4 \<le> off i" "j \<in> set xs" by auto
    with snoc show ?thesis by (simp add: read_frames)
  qed
qed

end

definition grown_slots :: "root_page \<Rightarrow> nat \<Rightarrow> nat" where
  "grown_slots rp n = min (m_max_free_slots rp) (n + min n MAX_FREE_SLOT_STEP)"

context root_layout
begin

lemma slots_disjoint:
  "i < m_max_free_slots rp \<Longrightarrow> j < m_max_free_slots rp \<Longrightarrow> i \<noteq> j \<Longrightarrow>
   free_slot_off rp i + 4 \<le> free_slot_off rp j \<or> free_slot_off rp j + 4 \<le> free_slot_off rp i"
  by (simp add: slot_off) linarith

lemma clear_slots_read:
  assumes "\<And>i. i \<in> set ks \<Longrightarrow> i < m_max_free_slots rp"
  shows "b + 4 \<le> free_slot_array_off rp \<Longrightarrow>
      read_integer_4 P (RootPage_clear_slots P rp ks pg) b = read_integer_4 P pg b"
    and "b + 2 \<le> free_slot_array_off rp \<Longrightarrow>
      read_integer_2 P (RootPage_clear_slots P rp ks pg) b = read_integer_2 P pg b"
    and "b < free_slot_array_off rp \<Longrightarrow> get_data P (RootPage_clear_slots P rp ks pg) b = get_data P pg b"
    and "k < m_max_free_slots rp \<Longrightarrow> slot_head P rp (RootPage_clear_slots P rp ks pg) k
      = (if k \<in> set ks then INVALID_REF else slot_head P rp pg k)"
proof -
  have o: "free_slot_array_off rp \<le> free_slot_off rp i" if "i \<in> set ks" for i
    using slot_off [OF assms [OF that]] by simp
  show "b + 4 \<le> free_slot_array_off rp \<Longrightarrow>
      read_integer_4 P (RootPage_clear_slots P rp ks pg) b = read_integer_4 P pg b"
    unfolding RootPage_clear_slots_def by (rule fold_write_4_reads) (use o in force)
  show "b + 2 \<le> free_slot_array_off rp \<Longrightarrow>
      read_integer_2 P (RootPage_clear_slots P rp ks pg) b = read_integer_2 P pg b"
    unfolding RootPage_clear_slots_def by (rule fold_write_4_reads) (use o in force)
  show "b < free_slot_array_off rp \<Longrightarrow> get_data P (RootPage_clear_slots P rp ks pg) b = get_data P pg b"
    unfolding RootPage_clear_slots_def by (rule fold_write_4_byte) (use o in force)
  show "slot_head P rp (RootPage_clear_slots P rp ks pg) k = (if k \<in> set ks then INVALID_REF else slot_head P rp pg k)"
    if k: "k < m_max_free_slots rp"
  proof (cases "k \<in> set ks")
    case True
    with slots_disjoint assms show ?thesis
      unfolding slot_head_def RootPage_clear_slots_def by (subst fold_write_4_own) (auto simp: NULL_FREE_PAGE_REF_def)
  next
    case False
    with slots_disjoint [OF assms k] show ?thesis
      unfolding slot_head_def RootPage_clear_slots_def by (subst fold_write_4_reads(1)) auto
  qed
qed

text \<open>Growing the slot array adds empty slots and keeps the lists.\<close>

lemma grow_free_slots_reads:
  assumes cur: "cur_slots P rp pg \<le> m_max_free_slots rp"
  defines "n \<equiv> grown_slots rp (cur_slots P rp pg)"
  shows "cur_slots P rp (RootPage_grow_free_slots P rp pg) = n"
    and "k < m_max_free_slots rp \<Longrightarrow> slot_head P rp (RootPage_grow_free_slots P rp pg) k
      = (if k \<in> {cur_slots P rp pg..<n} then INVALID_REF else slot_head P rp pg k)"
    and "off \<in> {total_free_pages_off rp, total_data_pages_off rp, all_slot_head_off rp, all_slot_tail_off rp} \<Longrightarrow>
      read_integer_4 P (RootPage_grow_free_slots P rp pg) off = read_integer_4 P pg off"
proof -
  let ?c = "cur_slots P rp pg"
  have c: "?c \<le> 2048" using cur max_slots by simp
  then have u: "u16 (?c + min ?c MAX_FREE_SLOT_STEP) = ?c + min ?c MAX_FREE_SLOT_STEP"
    by (simp add: MAX_FREE_SLOT_STEP_def)
  have g: "RootPage_grow_free_slots P rp pg
      = write_integer_2 P (RootPage_clear_slots P rp [?c..<n] pg) (free_slot_array_cur_size_off rp) (word_of_nat n)"
    unfolding RootPage_grow_free_slots_def Let_def cur_slots_def [symmetric] u n_def grown_slots_def
    by (simp add: min_def)
  have ks: "i < m_max_free_slots rp" if "i \<in> set [?c..<n]" for i
    using that by (auto simp: n_def grown_slots_def)
  have "n \<le> 2048" using max_slots by (simp add: n_def grown_slots_def)
  then show "cur_slots P rp (RootPage_grow_free_slots P rp pg) = n"
    unfolding g by (simp add: cur_slots_def unat_of_nat)
  show "slot_head P rp (RootPage_grow_free_slots P rp pg) k
      = (if k \<in> {?c..<n} then INVALID_REF else slot_head P rp pg k)" if k: "k < m_max_free_slots rp"
  proof -
    have "slot_head P rp (RootPage_grow_free_slots P rp pg) k = slot_head P rp (RootPage_clear_slots P rp [?c..<n] pg) k"
      unfolding g slot_head_def using slot_off [OF k] by (simp add: read_frames root_offs layout_defs)
    then show ?thesis using clear_slots_read(4) [of "[?c..<n]", OF ks k, of pg] by simp
  qed
  show "read_integer_4 P (RootPage_grow_free_slots P rp pg) off = read_integer_4 P pg off"
    if o: "off \<in> {total_free_pages_off rp, total_data_pages_off rp, all_slot_head_off rp, all_slot_tail_off rp}"
  proof -
    have "off + 4 \<le> free_slot_array_cur_size_off rp" "off + 4 \<le> free_slot_array_off rp"
      using o by (auto simp: root_offs layout_defs)
    then show ?thesis unfolding g using clear_slots_read(1) [of "[?c..<n]" off pg, OF ks] by (simp add: read_frames)
  qed
qed

lemma grow_free_slots_root_lists:
  assumes rl: "root_lists P rp m root fl dl" and pg: "m root = Some pg"
  shows "root_lists P rp (m(root \<mapsto> RootPage_grow_free_slots P rp pg)) root fl dl"
    and "keeps_records P root m (m(root \<mapsto> RootPage_grow_free_slots P rp pg))"
proof -
  let ?m = "m(root \<mapsto> RootPage_grow_free_slots P rp pg)"
  have fl: "free_lists P rp m root fl" and dl: "data_list P rp m root dl" using rl by (auto simp: root_lists_def)
  have cur: "cur_slots P rp pg \<le> m_max_free_slots rp" "0 < cur_slots P rp pg"
    using fl pg by (auto simp: free_lists_def)
  note g = grow_free_slots_reads [OF cur(1)]
  let ?n = "grown_slots rp (cur_slots P rp pg)"
  have n: "cur_slots P rp pg \<le> ?n" "?n \<le> m_max_free_slots rp" using cur by (auto simp: grown_slots_def)
  have "data_list P rp ?m root dl"
    by (rule data_list_frame [OF dl]) (use dl pg g(3) in \<open>auto simp: data_list_def\<close>)
  moreover have "free_list P rp ?m root k (fl k)" if "k < ?n" for k
  proof (cases "k < cur_slots P rp pg")
    case True
    then have f: "free_list P rp m root k (fl k)" using fl pg by (auto simp: free_lists_def)
    then show ?thesis
      by (rule free_list_frame) (use True that n pg g(2) [of k] f in \<open>auto simp: free_list_def\<close>)
  next
    case False
    then have "fl k = []" using fl pg by (simp add: free_lists_def)
    with False that n show ?thesis by (simp add: free_list_def g(2))
  qed
  moreover have "(\<Sum>k<?n. length (fl k)) = (\<Sum>k<cur_slots P rp pg. length (fl k))"
    using fl pg n(1) by (intro sum.mono_neutral_right) (auto simp: free_lists_def)
  ultimately show "root_lists P rp ?m root fl dl"
    using rl pg g(1,3) n cur by (auto simp: root_lists_def free_lists_def)
  show "keeps_records P root m ?m" using pg by (simp add: keeps_records_def)
qed

end

text \<open>
  A page is blank when everything behind its segment headers is zero, as a fresh page or a fresh
  segment root page is.
\<close>

definition blank_root :: "'p page_api \<Rightarrow> root_page \<Rightarrow> 'p \<Rightarrow> bool" where
  "blank_root P rp pg \<longleftrightarrow> unat (read_integer_1 P pg HEADER_SIZE) = m_num_segments rp
     \<and> (\<forall>i \<ge> version_off rp. get_data P pg i = 0)"

context root_layout
begin

text \<open>What a formatted root page holds; the bytes below the version field are kept.\<close>

lemma RootPage_format_page:
  assumes blank: "blank_root P rp pg" and len: "length md = m_storage_metadata_len rp"
  shows "\<exists>pg'. RootPage_format P v md rp pg = Some (rp, pg')
    \<and> (\<forall>i < version_off rp. get_data P pg' i = get_data P pg i)
    \<and> unat (read_integer_1 P pg' (storage_metadata_len_off rp)) = m_storage_metadata_len rp
    \<and> slice (get_data P pg') (storage_metadata_off rp) (length md) = md
    \<and> unat (read_integer_1 P pg' (num_other_root_pages_off rp)) = m_num_other_root_pages rp
    \<and> (\<forall>i < m_num_other_root_pages rp. read_integer_4 P pg' (other_root_pages_off rp + i * ROOT_PAGE_REF_LEN) = INVALID_REF)
    \<and> unat (read_integer_2 P pg' (column_size_off rp)) = m_column_size rp
    \<and> read_integer_4 P pg' (all_slot_head_off rp) = INVALID_REF
    \<and> read_integer_4 P pg' (all_slot_tail_off rp) = INVALID_REF
    \<and> read_integer_4 P pg' (total_data_pages_off rp) = 0
    \<and> read_integer_4 P pg' (total_free_pages_off rp) = 0
    \<and> cur_slots P rp pg' = 1 \<and> slot_head P rp pg' 0 = INVALID_REF"
proof -
  let ?refs = "\<lambda>pg. fold (\<lambda>i pg. write_integer_4 P pg (other_root_pages_off rp + i * ROOT_PAGE_REF_LEN) INVALID_REF)
      [0..<m_num_other_root_pages rp] pg"
  define pg1 where "pg1 = write_integer_1 P pg (version_off rp) v"
  define pg2 where "pg2 = write_integer_1 P pg1 (page_type_off rp) ROOT_PAGE_TYPE"
  define pg3 where "pg3 = write_integer_1 P pg2 (storage_metadata_len_off rp) (word_of_nat (length md))"
  define pg4 where "pg4 = write_string P pg3 (storage_metadata_off rp) md"
  define pg5 where "pg5 = write_integer_1 P pg4 (num_other_root_pages_off rp) (word_of_nat (m_num_other_root_pages rp))"
  define pg6 where "pg6 = ?refs pg5"
  define pg7 where "pg7 = write_integer_2 P pg6 (column_size_off rp) (word_of_nat (m_column_size rp))"
  define pg8 where "pg8 = write_integer_4 P pg7 (all_slot_head_off rp) INVALID_REF"
  define pg9 where "pg9 = write_integer_4 P pg8 (all_slot_tail_off rp) INVALID_REF"
  define pg10 where "pg10 = write_integer_2 P pg9 (free_slot_array_max_size_off rp) (word_of_nat (m_max_free_slots rp))"
  define pg11 where "pg11 = write_integer_2 P pg10 (free_slot_array_cur_size_off rp) (word_of_nat NUM_FREE_SLOTS_INITIAL)"
  define pg' where "pg' = write_integer_4 P pg11 (free_slot_off rp 0) INVALID_REF"
  have b: "m_num_segments rp < 256" "m_num_other_root_pages rp < 256" "m_storage_metadata_len rp < 256"
    "0 < m_column_size rp" "m_column_size rp < 65536" "0 < m_max_free_slots rp"
    using root_ok by (auto simp: root_ok_def)
  have so: "free_slot_off rp 0 = free_slot_array_off rp" using slot_off [of 0] b by simp
  have "rp\<lparr>m_num_segments := unat (read_integer_1 P pg HEADER_SIZE)\<rparr> = rp" using blank by (simp add: blank_root_def)
  then have run: "RootPage_format P v md rp pg = Some (rp, pg')"
    using b len unfolding RootPage_format_def Let_def pg'_def pg11_def pg10_def pg9_def pg8_def pg7_def pg6_def
      pg5_def pg4_def pg3_def pg2_def pg1_def
    by (simp add: RootPage_clear_slots_def NUM_FREE_SLOTS_INITIAL_def NULL_FREE_PAGE_REF_def)
  note pgs = pg'_def pg11_def pg10_def pg9_def pg8_def pg7_def
  note low = pg5_def pg4_def pg3_def pg2_def pg1_def
  have six: "get_data P pg6 i = get_data P pg5 i"
    if "i < other_root_pages_off rp \<or> column_size_off rp \<le> i" for i
    unfolding pg6_def by (rule fold_write_4_byte) (use that in \<open>auto simp: root_offs layout_defs\<close>)
  have zero: "be_read (get_data P pg6) off 4 = 0" if "column_size_off rp \<le> off" for off
  proof -
    have "slice (get_data P pg6) off 4 = slice (get_data P pg) off 4"
    proof (rule slice_cong)
      fix i assume "off \<le> i"
      with that have "column_size_off rp \<le> i" by simp
      then show "get_data P pg6 i = get_data P pg i"
        using six [of i] len by (simp add: low data_writes overwrite_out root_offs layout_defs)
    qed
    also have "\<dots> = replicate 4 0"
      using blank that by (auto intro!: nth_equalityI simp: blank_root_def root_offs layout_defs)
    finally show ?thesis by (simp add: be_read_def be_value_def numeral_eq_Suc)
  qed
  have low_same: "get_data P pg' i = get_data P pg5 i" if "i < other_root_pages_off rp" for i
    using that six [of i] by (simp add: pgs data_writes overwrite_out so root_offs layout_defs)
  have "get_data P pg' i = get_data P pg i" if "i < version_off rp" for i
    using that low_same [of i] by (simp add: low data_writes overwrite_out root_offs layout_defs)
  moreover have "unat (read_integer_1 P pg' (storage_metadata_len_off rp)) = m_storage_metadata_len rp"
    using low_same [of "storage_metadata_len_off rp"] b len
    by (simp add: read_1_byte low data_writes overwrite_def root_offs layout_defs unat_of_nat)
  moreover have "slice (get_data P pg') (storage_metadata_off rp) (length md) = md"
  proof -
    have "slice (get_data P pg') (storage_metadata_off rp) (length md)
        = slice (get_data P pg4) (storage_metadata_off rp) (length md)"
    proof (rule slice_cong)
      fix i assume "i < storage_metadata_off rp + length md"
      with len have "i < num_other_root_pages_off rp" by (simp add: num_other_root_pages_off_def)
      then show "get_data P pg' i = get_data P pg4 i"
        using low_same [of i] by (simp add: pg5_def data_writes overwrite_out other_root_pages_off_def)
    qed
    then show ?thesis by (simp add: pg4_def)
  qed
  moreover have "unat (read_integer_1 P pg' (num_other_root_pages_off rp)) = m_num_other_root_pages rp"
    using low_same [of "num_other_root_pages_off rp"] b
    by (simp add: read_1_byte pg5_def data_writes overwrite_def other_root_pages_off_def layout_defs unat_of_nat)
  moreover have "read_integer_4 P pg' (other_root_pages_off rp + i * ROOT_PAGE_REF_LEN) = INVALID_REF"
    if "i < m_num_other_root_pages rp" for i
  proof -
    have "read_integer_4 P pg' (other_root_pages_off rp + i * ROOT_PAGE_REF_LEN)
        = read_integer_4 P pg6 (other_root_pages_off rp + i * ROOT_PAGE_REF_LEN)"
      using that by (simp add: pgs read_frames so root_offs layout_defs)
    also have "\<dots> = INVALID_REF"
      unfolding pg6_def by (rule fold_write_4_own) (use that in \<open>auto simp: layout_defs\<close>)
    finally show ?thesis .
  qed
  moreover have "unat (read_integer_2 P pg' (column_size_off rp)) = m_column_size rp"
    using b by (simp add: pgs read_frames so root_offs layout_defs unat_of_nat)
  moreover have "read_integer_4 P pg' (all_slot_head_off rp) = INVALID_REF"
    "read_integer_4 P pg' (all_slot_tail_off rp) = INVALID_REF"
    by (simp_all add: pgs read_frames so root_offs layout_defs)
  moreover have "read_integer_4 P pg' (total_data_pages_off rp) = 0" "read_integer_4 P pg' (total_free_pages_off rp) = 0"
    using zero [of "total_data_pages_off rp"] zero [of "total_free_pages_off rp"]
    by (simp_all add: pgs read_frames so root_offs layout_defs) (simp_all add: read_4)
  moreover have "cur_slots P rp pg' = 1" "slot_head P rp pg' 0 = INVALID_REF"
    by (simp_all add: pgs read_frames so root_offs layout_defs cur_slots_def slot_head_def NUM_FREE_SLOTS_INITIAL_def)
  ultimately show ?thesis using run by blast
qed

lemma RootPage_format_root_lists:
  assumes blank: "blank_root P rp pg" and len: "length md = m_storage_metadata_len rp"
    and root: "root \<noteq> INVALID_REF" and run: "RootPage_format P v md rp pg = Some (rp', pg')"
  shows "root_lists P rp (m(root \<mapsto> pg')) root (\<lambda>_. []) []"
proof -
  obtain pg'' where f: "RootPage_format P v md rp pg = Some (rp, pg'')" "cur_slots P rp pg'' = 1"
    "slot_head P rp pg'' 0 = INVALID_REF" "read_integer_4 P pg'' (all_slot_head_off rp) = INVALID_REF"
    "read_integer_4 P pg'' (all_slot_tail_off rp) = INVALID_REF"
    "read_integer_4 P pg'' (total_data_pages_off rp) = 0" "read_integer_4 P pg'' (total_free_pages_off rp) = 0"
    using RootPage_format_page [OF blank len, of v] by blast
  with run have "pg'' = pg'" by simp
  with f root max_slots show ?thesis
    by (auto simp: root_lists_def free_lists_def data_list_def free_list_def)
qed

end

subsection \<open>The operations on the storage environment\<close>

text \<open>
  The outcome of a list operation: it succeeds with new lists, all records kept and only the root
  page and pages of \<open>T\<close> changed, or it reports the caller's error with every page as before, and then some API call has failed.
\<close>

definition list_outcome ::
    "'p page_api \<Rightarrow> root_page \<Rightarrow> page_ref \<Rightarrow> page_ref set \<Rightarrow> (nat \<Rightarrow> page_ref list) \<Rightarrow> page_ref list \<Rightarrow>
     store_error \<Rightarrow> 'p env \<Rightarrow> 'p env \<times> (store_error + unit) \<Rightarrow> bool" where
  "list_outcome P rp root T fl dl e s res \<longleftrightarrow> env_frame s (fst res)
     \<and> (case snd res of
          Inr _ \<Rightarrow> root_lists P rp (pages (fst res)) root fl dl \<and> keeps_records P root (pages s) (pages (fst res))
            \<and> untouched root T (pages s) (pages (fst res))
        | Inl e' \<Rightarrow> e' = e \<and> pages (fst res) = pages s \<and> faults s \<noteq> [])"

lemma writes_or_fails_outcome:
  "writes_or_fails s e m res \<Longrightarrow> root_lists P rp m root fl dl \<Longrightarrow> keeps_records P root (pages s) m \<Longrightarrow>
   untouched root T (pages s) m \<Longrightarrow> list_outcome P rp root T fl dl e s res"
  by (auto simp: writes_or_fails_def list_outcome_def split: sum.splits)

lemma list_outcome_ok:
  "list_outcome P rp root T fl dl e s res \<Longrightarrow> faults s = [] \<Longrightarrow>
   \<exists>s'. res = (s', Inr ()) \<and> env_frame s s' \<and> root_lists P rp (pages s') root fl dl
     \<and> keeps_records P root (pages s) (pages s') \<and> untouched root T (pages s) (pages s')"
  by (cases res) (auto simp: list_outcome_def split: sum.splits)

definition latched :: "'p env \<Rightarrow> page_ref \<Rightarrow> bool" where
  "latched s r \<longleftrightarrow> latches s r = Some EXCLUSIVE"

lemma root_lists_member:
  assumes "root_lists P rp m root fl dl"
  shows "m root \<noteq> None" "root \<noteq> INVALID_REF" "x \<in> set dl \<Longrightarrow> m x \<noteq> None" "x \<in> set dl \<Longrightarrow> x \<noteq> root"
    "x \<in> set dl \<Longrightarrow> x \<noteq> INVALID_REF" "x \<in> set (fl k) \<Longrightarrow> x \<in> set dl"
proof -
  have dl: "data_list P rp m root dl" using assms by (simp add: root_lists_def)
  then show "m root \<noteq> None" "root \<noteq> INVALID_REF" "x \<in> set dl \<Longrightarrow> m x \<noteq> None" "x \<in> set dl \<Longrightarrow> x \<noteq> root"
    by (auto simp: data_list_def)
  have "INVALID_REF \<notin> set dl" using dl unfolding data_list_def by (metis chain_not_null)
  then show "x \<in> set dl \<Longrightarrow> x \<noteq> INVALID_REF" by blast
  show "x \<in> set (fl k) \<Longrightarrow> x \<in> set dl" using assms unfolding root_lists_def by blast
qed

context root_layout
begin

lemma add_free_page_op:
  assumes rl: "root_lists P rp (pages s) root fl dl" and la: "latched s root" "latched s data"
    and k: "k < cur_slots P rp (the (pages s root))" and d: "data \<in> set dl" "\<And>j. data \<notin> set (fl j)"
  shows "list_outcome P rp root (set dl) (fl(k := data # fl k)) dl e s (RootPage_add_free_page P rp root data k e s)"
    and "writes_or_fails s e (add_free_page_pages P rp root data k (pages s)) (RootPage_add_free_page P rp root data k e s)"
proof -
  obtain rpg dpg where pg: "pages s root = Some rpg" "pages s data = Some dpg" "root \<noteq> data"
    using root_lists_member(1) [OF rl] root_lists_member(3,4) [OF rl d(1)] by blast
  note h = root_lists_slot_head [OF rl k]
  have di: "data \<noteq> INVALID_REF"
    by (rule root_lists_member(5) [OF rl d(1)])
  have "slot_head P rp rpg k \<noteq> data"
  proof
    assume eq: "slot_head P rp rpg k = data"
    with h(3) pg di have "data \<in> set (fl k)" by simp
    with d(2) show False by blast
  qed
  with pg h la show w: "writes_or_fails s e (add_free_page_pages P rp root data k (pages s))
      (RootPage_add_free_page P rp root data k e s)"
    by (intro add_free_page_run) (auto simp: latched_def)
  show "list_outcome P rp root (set dl) (fl(k := data # fl k)) dl e s (RootPage_add_free_page P rp root data k e s)"
    by (rule writes_or_fails_outcome [OF w add_free_page_root_lists [OF rl k d]])
qed

lemma remove_free_page_op:
  assumes rl: "root_lists P rp (pages s) root fl dl" and la: "latched s root" "latched s data"
    and d: "data \<in> set (fl k)"
  shows "list_outcome P rp root (set dl) (fl(k := remove1 data (fl k))) dl e s (RootPage_remove_free_page P rp root data e s)"
    and "writes_or_fails s e (remove_free_page_pages P rp root data (pages s)) (RootPage_remove_free_page P rp root data e s)"
proof -
  obtain xs ys where x: "fl k = xs @ data # ys" using d by (meson split_list)
  have fl: "free_lists P rp (pages s) root fl" using rl by (simp add: root_lists_def)
  note nb = remove_free_page_neighbours [OF fl x]
  have "distinct (fl k)" using free_lists_slot(2) [OF fl d] by (simp add: free_list_def)
  then have r: "remove1 data (fl k) = xs @ ys" unfolding x by (simp add: remove1_append)
  obtain rpg dpg where pg: "pages s root = Some rpg" "pages s data = Some dpg"
    using fl nb(10) by (auto simp: free_lists_def)
  show w: "writes_or_fails s e (remove_free_page_pages P rp root data (pages s))
      (RootPage_remove_free_page P rp root data e s)"
    by (rule remove_free_page_run [OF pg(1) _ pg(2) _ _ refl _ _ refl]) (use nb la pg in \<open>auto simp: latched_def\<close>)
  show "list_outcome P rp root (set dl) (fl(k := remove1 data (fl k))) dl e s (RootPage_remove_free_page P rp root data e s)"
    unfolding r by (rule writes_or_fails_outcome [OF w remove_free_page_root_lists [OF rl x]])
qed

lemma add_data_page_op:
  assumes rl: "root_lists P rp (pages s) root fl dl" and la: "latched s root" "latched s data"
    and d: "pages s data \<noteq> None" "data \<noteq> root" "data \<noteq> INVALID_REF" "data \<notin> set dl"
  shows "list_outcome P rp root (insert data (set dl)) fl (data # dl) e s (RootPage_add_data_page P rp root data e s)"
    and "writes_or_fails s e (add_data_page_pages P rp root data (pages s)) (RootPage_add_data_page P rp root data e s)"
proof -
  have dl: "data_list P rp (pages s) root dl" using rl by (simp add: root_lists_def)
  obtain rpg dpg where pg: "pages s root = Some rpg" "pages s data = Some dpg"
    using dl d(1) by (auto simp: data_list_def)
  define h where "h = read_integer_4 P rpg (all_slot_head_off rp)"
  have "h = (if dl = [] then INVALID_REF else hd dl)"
    using dl pg unfolding data_list_def h_def by (auto dest: chain_head)
  then have "h \<in> insert INVALID_REF (set dl)" by auto
  then have h: "h \<noteq> root" "h \<noteq> data" "h \<noteq> INVALID_REF \<Longrightarrow> pages s h \<noteq> None"
    using dl d by (auto simp: data_list_def)
  show w: "writes_or_fails s e (add_data_page_pages P rp root data (pages s))
      (RootPage_add_data_page P rp root data e s)"
    by (rule add_data_page_run [OF pg(1) _ pg(2) _ _ h_def]) (use h d la in \<open>auto simp: latched_def\<close>)
  show "list_outcome P rp root (insert data (set dl)) fl (data # dl) e s (RootPage_add_data_page P rp root data e s)"
    by (rule writes_or_fails_outcome [OF w add_data_page_root_lists [OF rl d]])
qed

lemma remove_data_page_op:
  assumes rl: "root_lists P rp (pages s) root fl dl" and la: "latched s root" "latched s data"
    and d: "data \<in> set dl" "\<And>k. data \<notin> set (fl k)"
  shows "list_outcome P rp root (set dl) fl (remove1 data dl) e s (RootPage_remove_data_page P rp root data e s)"
proof -
  obtain xs ys where x: "dl = xs @ data # ys" using d by (meson split_list)
  have dl: "data_list P rp (pages s) root (xs @ data # ys)" using rl x by (simp add: root_lists_def)
  note nb = data_list_neighbours [OF dl]
  have r: "remove1 data dl = xs @ ys" using dl unfolding x data_list_def by (simp add: remove1_append)
  obtain rpg dpg where pg: "pages s root = Some rpg" "pages s data = Some dpg" "root \<noteq> data"
    using dl by (auto simp: data_list_def)
  have w: "writes_or_fails s e (remove_data_page_pages P rp root data (pages s))
      (RootPage_remove_data_page P rp root data e s)"
    by (rule remove_data_page_run [OF pg(1) _ pg(2) _ pg(3) refl _ _ _ refl]) (use nb la pg in \<open>auto simp: latched_def\<close>)
  show ?thesis
    unfolding r by (rule writes_or_fails_outcome [OF w remove_data_page_root_lists [OF rl [unfolded x] d(2), folded x]])
qed

text \<open>The page that was unlinked keeps its old slot number.\<close>

lemma remove_free_page_stale_slot:
  assumes rl: "root_lists P rp (pages s) root fl dl" and la: "latched s root" "latched s data"
    and d: "data \<in> set (fl k)" and run: "RootPage_remove_free_page P rp root data e s = (s', Inr ())"
  shows "DataPage_get_free_slot_number P (the (pages s' data)) = word_of_nat k"
proof -
  have "pages s' = remove_free_page_pages P rp root data (pages s)"
    using remove_free_page_op(2) [OF rl la d, of e] run by (simp add: writes_or_fails_def)
  moreover have fl: "free_lists P rp (pages s) root fl" using rl by (simp add: root_lists_def)
  moreover have "DataPage_get_free_slot_number P (the (pages s data)) = word_of_nat k"
    using free_list_member_slot [OF free_lists_slot(2) [OF fl d] d] .
  ultimately show ?thesis
    using free_lists_slot(4) [OF fl d] by (simp add: remove_free_page_pages_def Let_def slot_number_write_4)
qed

end

subsection \<open>A root page of the test backend\<close>

definition svector_metadata :: "byte list" where
  "svector_metadata = map (\<lambda>c. word_of_nat (of_char c)) ''SVECTOR''"

definition fake_rp :: root_page where
  "fake_rp = RootPage_init fake_api 16 1 1 7 init_root_page_members"

interpretation fake_root: root_layout fake_api fake_rp
proof
  show "Root_Page.root_ok fake_api fake_rp"
    unfolding fake_rp_def
    by (rule RootPage_init_ok)
      (simp_all add: fake_api_def kPageSize_def RootPage_init_def Let_def root_offs layout_defs init_root_page_members_def)
qed

lemma length_svector_metadata [simp]: "length svector_metadata = 7"
  by (simp add: svector_metadata_def)

lemma fake_rp_members: "m_storage_metadata_len fake_rp = 7" "m_num_segments fake_rp = 1" "m_num_other_root_pages fake_rp = 0"
  by (simp_all add: fake_rp_def RootPage_init_def Let_def)

lemma fake_segment_root_blank: "blank_root fake_api fake_rp (segment_root fake_api 1)"
  unfolding blank_root_def
  using fake.segment_root_count [of 1] fake.segment_root_zero [of 1]
  by (auto simp: fake.read_1_byte fake_rp_members version_off_def)

definition fake_root_page :: buffer where
  "fake_root_page = snd (the (RootPage_format fake_api 1 svector_metadata fake_rp (segment_root fake_api 1)))"

lemma fake_root_page_format:
  "RootPage_format fake_api 1 svector_metadata fake_rp (segment_root fake_api 1) = Some (fake_rp, fake_root_page)"
  using fake_root.RootPage_format_page [OF fake_segment_root_blank, of svector_metadata 1]
  by (auto simp: fake_root_page_def fake_rp_members)

text \<open>Page 1 is the root page, page 2 a fresh data page of the store, both latched.\<close>

definition fake_s0 :: "buffer env" where
  "fake_s0 = fake_env\<lparr>pages := [1 \<mapsto> fake_root_page, 2 \<mapsto> fake16_page],
     latches := (\<lambda>_. None)(1 := Some EXCLUSIVE, 2 := Some EXCLUSIVE)\<rparr>"

definition fake_s1 :: "buffer env" where
  "fake_s1 = fst (RootPage_add_data_page fake_api fake_rp 1 2 (Remote ''e'') fake_s0)"

definition fake_s2 :: "buffer env" where
  "fake_s2 = fst (RootPage_add_free_page fake_api fake_rp 1 2 0 (Remote ''e'') fake_s1)"

lemma fake_s0_facts:
  "root_lists fake_api fake_rp (pages fake_s0) 1 (\<lambda>_. []) []" "latched fake_s0 1" "latched fake_s0 2"
  "pages fake_s0 2 \<noteq> None" "(2 :: page_ref) \<noteq> 1" "(2 :: page_ref) \<noteq> INVALID_REF" "faults fake_s0 = []"
proof -
  have "root_lists fake_api fake_rp ([2 \<mapsto> fake16_page](1 \<mapsto> fake_root_page)) 1 (\<lambda>_. []) []"
    by (rule fake_root.RootPage_format_root_lists [OF fake_segment_root_blank _ _ fake_root_page_format])
      (simp_all add: fake_rp_members INVALID_REF_def)
  moreover have "pages fake_s0 = [2 \<mapsto> fake16_page](1 \<mapsto> fake_root_page)"
    by (auto simp: fake_s0_def fun_eq_iff)
  ultimately show "root_lists fake_api fake_rp (pages fake_s0) 1 (\<lambda>_. []) []" by simp
qed (simp_all add: fake_s0_def fake_env_def latched_def INVALID_REF_def)

lemma fake_s1_facts:
  "root_lists fake_api fake_rp (pages fake_s1) 1 (\<lambda>_. []) [2]" "latched fake_s1 1" "latched fake_s1 2" "faults fake_s1 = []"
proof -
  obtain s' where s': "RootPage_add_data_page fake_api fake_rp 1 2 (Remote ''e'') fake_s0 = (s', Inr ())"
    "env_frame fake_s0 s'" "root_lists fake_api fake_rp (pages s') 1 (\<lambda>_. []) [2]"
    using list_outcome_ok [OF fake_root.add_data_page_op(1) [OF fake_s0_facts(1-6)]] fake_s0_facts(7) by auto
  then have "fake_s1 = s'" by (simp add: fake_s1_def)
  with s' fake_s0_facts show "root_lists fake_api fake_rp (pages fake_s1) 1 (\<lambda>_. []) [2]" "latched fake_s1 1"
    "latched fake_s1 2" "faults fake_s1 = []"
    by (auto simp: env_frame_def latched_def)
qed

lemma fake_s2_facts:
  "root_lists fake_api fake_rp (pages fake_s2) 1 ((\<lambda>_. [])(0 := [2])) [2]" "latched fake_s2 1" "latched fake_s2 2"
  "faults fake_s2 = []"
proof -
  have k: "0 < cur_slots fake_api fake_rp (the (pages fake_s1 1))"
    using fake_s1_facts(1) by (simp add: root_lists_def free_lists_def)
  obtain s' where s': "RootPage_add_free_page fake_api fake_rp 1 2 0 (Remote ''e'') fake_s1 = (s', Inr ())"
    "env_frame fake_s1 s'" "root_lists fake_api fake_rp (pages s') 1 ((\<lambda>_. [])(0 := [2])) [2]"
    using list_outcome_ok [OF fake_root.add_free_page_op(1) [OF fake_s1_facts(1-3) k]] fake_s1_facts(4) by auto
  then have "fake_s2 = s'" by (simp add: fake_s2_def)
  with s' fake_s1_facts show "root_lists fake_api fake_rp (pages fake_s2) 1 ((\<lambda>_. [])(0 := [2])) [2]"
    "latched fake_s2 1" "latched fake_s2 2" "faults fake_s2 = []"
    by (auto simp: env_frame_def latched_def)
qed

context root_layout
begin

lemma update_metadata_page:
  assumes "length md = m_storage_metadata_len rp"
    "unat (read_integer_1 P pg (storage_metadata_len_off rp)) = m_storage_metadata_len rp"
  shows "RootPage_read_metadata P rp (write_string P pg (storage_metadata_off rp) md) = md"
  using assms by (simp add: RootPage_read_metadata_def read_frames storage_metadata_off_def layout_defs)

lemma update_metadata_root_lists:
  assumes len: "length md = m_storage_metadata_len rp" and rl: "root_lists P rp (m(root \<mapsto> pg)) root fl dl"
  shows "root_lists P rp (m(root \<mapsto> write_string P pg (storage_metadata_off rp) md)) root fl dl"
proof -
  let ?w = "write_string P pg (storage_metadata_off rp) md"
  have fl: "free_lists P rp (m(root \<mapsto> pg)) root fl" and dl: "data_list P rp (m(root \<mapsto> pg)) root dl"
    using rl by (auto simp: root_lists_def)
  have o: "storage_metadata_off rp + length md \<le> all_slot_head_off rp"
    using len by (simp add: root_offs)
  have "free_lists P rp (m(root \<mapsto> ?w)) root fl"
    by (rule free_lists_frame [OF fl])
      (use o free_lists_slot(4,5) [OF fl] in
        \<open>auto simp: slot_head_def cur_slots_def slot_off read_frames root_offs layout_defs len\<close>)
  moreover have "data_list P rp (m(root \<mapsto> ?w)) root dl"
    by (rule data_list_frame [OF dl])
      (use o root_lists_member(3,4) [OF rl] in \<open>auto simp: read_frames root_offs layout_defs len\<close>)
  ultimately show ?thesis using rl by (simp add: root_lists_def)
qed

end

text \<open>A sequence of purges on one page; an index outside the page changes nothing.\<close>

definition purge_all :: "'p page_api \<Rightarrow> data_page \<Rightarrow> (nat \<times> trx_ref) list \<Rightarrow> 'p \<Rightarrow> 'p" where
  "purge_all P dp ps pg =
     fold (\<lambda>(slot, trx) pg. case DataPage_purge P dp slot trx pg of Some (pg', _) \<Rightarrow> pg' | None \<Rightarrow> pg) ps pg"

context data_layout
begin

lemma purge_slot_number:
  assumes "DataPage_purge P dp slot trx pg = Some (pg', b)"
  shows "DataPage_get_free_slot_number P pg' = DataPage_get_free_slot_number P pg"
proof -
  have "slot < m_max_num_recs dp" using assms by (simp add: DataPage_purge_def split: if_splits)
  from DataPage_purge_header(1) [OF assms this] show ?thesis
    using slice_cong [of FREE_SLOT_NUMBER_OFF 2 "get_data P pg'" "get_data P pg"]
    by (simp add: same_header_def DataPage_get_free_slot_number_def read_2 be_read_def layout_defs)
qed

lemma purge_all_slot_number:
  "DataPage_get_free_slot_number P (purge_all P dp ps pg) = DataPage_get_free_slot_number P pg"
  unfolding purge_all_def
proof (induction ps arbitrary: pg)
  case Nil
  then show ?case by simp
next
  case (Cons p ps)
  show ?case
    by (cases p) (auto simp: Cons.IH purge_slot_number split: option.splits)
qed

end

subsection \<open>Properties of root pages\<close>

text \<open>
  Adding a page to a free list. With both pages latched and a slot of the array, the operation
  makes the page the head of that slot's list and leaves the other lists, the list of data pages
  and all records alone; or it reports the caller's error, has written nothing, and an API call has
  failed.
\<close>

theorem root_add_free_page:
  assumes "root_layout P rp" "root_lists P rp (pages s) root fl dl" "latched s root" "latched s data"
    and "k < cur_slots P rp (the (pages s root))" "data \<in> set dl" "\<And>j. data \<notin> set (fl j)"
  shows "list_outcome P rp root (set dl) (fl(k := data # fl k)) dl e s (RootPage_add_free_page P rp root data k e s)"
  using assms by (rule root_layout.add_free_page_op)

theorem root_add_free_page_witness:
  "root_lists fake_api fake_rp (pages fake_s1) 1 (\<lambda>_. []) [2]
   \<and> list_outcome fake_api fake_rp 1 {2} ((\<lambda>_. [])(0 := [2])) [2] (Remote ''e'') fake_s1
       (RootPage_add_free_page fake_api fake_rp 1 2 0 (Remote ''e'') fake_s1)"
proof -
  have k: "0 < cur_slots fake_api fake_rp (the (pages fake_s1 1))"
    using fake_s1_facts(1) by (simp add: root_lists_def free_lists_def)
  from root_add_free_page [OF fake_root.root_layout_axioms fake_s1_facts(1-3) k] fake_s1_facts(1)
  show ?thesis by simp
qed

text \<open>
  Removing a page from its free list unlinks exactly that page, wherever it is in the list, and
  keeps all records; or nothing is written and the caller's error is reported.
\<close>

theorem root_remove_free_page:
  assumes "root_layout P rp" "root_lists P rp (pages s) root fl dl" "latched s root" "latched s data"
    and "data \<in> set (fl k)"
  shows "list_outcome P rp root (set dl) (fl(k := remove1 data (fl k))) dl e s (RootPage_remove_free_page P rp root data e s)"
  using assms by (rule root_layout.remove_free_page_op)

theorem root_remove_free_page_witness:
  "root_lists fake_api fake_rp (pages fake_s2) 1 ((\<lambda>_. [])(0 := [2])) [2]
   \<and> list_outcome fake_api fake_rp 1 {2} (\<lambda>_. []) [2] (Remote ''e'') fake_s2
       (RootPage_remove_free_page fake_api fake_rp 1 2 (Remote ''e'') fake_s2)"
proof -
  have "(2 :: page_ref) \<in> set (((\<lambda>_. [])(0 := [2])) (0 :: nat))" by simp
  note out = root_remove_free_page [OF fake_root.root_layout_axioms fake_s2_facts(1-3) this, of "Remote ''e''"]
  have "((\<lambda>_. [])(0 := [2 :: page_ref]))(0 := remove1 2 (((\<lambda>_. [])(0 := [2])) 0)) = (\<lambda>_ :: nat. [])"
    by (simp add: fun_eq_iff)
  from out [unfolded this] fake_s2_facts(1) show ?thesis by simp
qed

text \<open>
  A new data page becomes the head of the list of data pages, and the tail when the list was
  empty; the free lists and all records are kept; or nothing is written.
\<close>

theorem root_add_data_page:
  assumes "root_layout P rp" "root_lists P rp (pages s) root fl dl" "latched s root" "latched s data"
    and "pages s data \<noteq> None" "data \<noteq> root" "data \<noteq> INVALID_REF" "data \<notin> set dl"
  shows "list_outcome P rp root (insert data (set dl)) fl (data # dl) e s (RootPage_add_data_page P rp root data e s)"
  using assms by (rule root_layout.add_data_page_op)

theorem root_add_data_page_witness:
  "root_lists fake_api fake_rp (pages fake_s0) 1 (\<lambda>_. []) []
   \<and> list_outcome fake_api fake_rp 1 {2} (\<lambda>_. []) [2] (Remote ''e'') fake_s0
       (RootPage_add_data_page fake_api fake_rp 1 2 (Remote ''e'') fake_s0)"
  using root_add_data_page [OF fake_root.root_layout_axioms fake_s0_facts(1-6)] fake_s0_facts(1) by simp

text \<open>
  Removing a data page unlinks exactly that page from the list of data pages, whether it is the
  head, the tail or inside, and keeps the free lists and all records; or nothing is written.
\<close>

theorem root_remove_data_page:
  assumes "root_layout P rp" "root_lists P rp (pages s) root fl dl" "latched s root" "latched s data"
    and "data \<in> set dl" "\<And>k. data \<notin> set (fl k)"
  shows "list_outcome P rp root (set dl) fl (remove1 data dl) e s (RootPage_remove_data_page P rp root data e s)"
  using assms by (rule root_layout.remove_data_page_op)

theorem root_remove_data_page_witness:
  "root_lists fake_api fake_rp (pages fake_s1) 1 (\<lambda>_. []) [2]
   \<and> list_outcome fake_api fake_rp 1 {2} (\<lambda>_. []) [] (Remote ''e'') fake_s1
       (RootPage_remove_data_page fake_api fake_rp 1 2 (Remote ''e'') fake_s1)"
  using root_remove_data_page [OF fake_root.root_layout_axioms fake_s1_facts(1-3), of "Remote ''e''"]
    fake_s1_facts(1) by simp

text \<open>
  Growing the slot array at least doubles it below sixteen slots, adds sixteen above, never
  exceeds the maximum, and keeps every list; the new slots are empty.
\<close>

theorem root_grow_free_slots:
  assumes "root_layout P rp" "root_lists P rp m root fl dl" "m root = Some pg"
  shows "root_lists P rp (m(root \<mapsto> RootPage_grow_free_slots P rp pg)) root fl dl
    \<and> cur_slots P rp (RootPage_grow_free_slots P rp pg)
        = min (m_max_free_slots rp) (cur_slots P rp pg + min (cur_slots P rp pg) MAX_FREE_SLOT_STEP)"
proof -
  have "cur_slots P rp pg \<le> m_max_free_slots rp"
    using assms(2,3) by (simp add: root_lists_def free_lists_def)
  then show ?thesis
    using root_layout.grow_free_slots_root_lists(1) [OF assms] root_layout.grow_free_slots_reads(1) [OF assms(1)]
    by (simp add: grown_slots_def)
qed

theorem root_grow_free_slots_witness:
  "\<exists>pg. pages fake_s2 1 = Some pg
   \<and> root_lists fake_api fake_rp ((pages fake_s2)(1 \<mapsto> RootPage_grow_free_slots fake_api fake_rp pg)) 1
       ((\<lambda>_. [])(0 := [2])) [2]"
proof -
  obtain pg where "pages fake_s2 1 = Some pg" using root_lists_member(1) [OF fake_s2_facts(1)] by blast
  with root_grow_free_slots [OF fake_root.root_layout_axioms fake_s2_facts(1) this] show ?thesis by blast
qed

text \<open>
  The storage metadata of a root page round trips. Formatting a blank page writes it, reading it
  back gives the same bytes, and overwriting it with bytes of the same length is read back as well
  and keeps the lists; any other length is refused.
\<close>

theorem root_metadata_roundtrip:
  assumes lay: "root_layout P rp" and blank: "blank_root P rp pg"
    and len: "length md = m_storage_metadata_len rp" and root: "root \<noteq> INVALID_REF"
  shows "\<exists>pg'. RootPage_format P v md rp pg = Some (rp, pg') \<and> RootPage_read_metadata P rp pg' = md
    \<and> root_lists P rp (m(root \<mapsto> pg')) root (\<lambda>_. []) []
    \<and> (case RootPage_update_header P rp md' pg' of
          None \<Rightarrow> length md' \<noteq> m_storage_metadata_len rp
        | Some pg'' \<Rightarrow> length md' = m_storage_metadata_len rp \<and> RootPage_read_metadata P rp pg'' = md'
            \<and> root_lists P rp (m(root \<mapsto> pg'')) root (\<lambda>_. []) [])"
proof -
  obtain pg' where f: "RootPage_format P v md rp pg = Some (rp, pg')"
    and ml: "unat (read_integer_1 P pg' (storage_metadata_len_off rp)) = m_storage_metadata_len rp"
    and sl: "slice (get_data P pg') (storage_metadata_off rp) (length md) = md"
    using root_layout.RootPage_format_page [OF lay blank len, of v] by blast
  have rl: "root_lists P rp (m(root \<mapsto> pg')) root (\<lambda>_. []) []"
    by (rule root_layout.RootPage_format_root_lists [OF lay blank len root f])
  have upd: "RootPage_read_metadata P rp (write_string P pg' (storage_metadata_off rp) md') = md'
      \<and> root_lists P rp (m(root \<mapsto> write_string P pg' (storage_metadata_off rp) md')) root (\<lambda>_. []) []"
    if "length md' = m_storage_metadata_len rp"
    using root_layout.update_metadata_page [OF lay that ml] root_layout.update_metadata_root_lists [OF lay that rl]
    by simp
  with f ml sl len rl show ?thesis
    by (auto simp: RootPage_read_metadata_def RootPage_update_header_def)
qed

theorem root_metadata_roundtrip_witness:
  "blank_root fake_api fake_rp (segment_root fake_api 1)
   \<and> (\<exists>pg'. RootPage_format fake_api 1 svector_metadata fake_rp (segment_root fake_api 1) = Some (fake_rp, pg')
        \<and> RootPage_read_metadata fake_api fake_rp pg' = svector_metadata)"
proof -
  have "length svector_metadata = m_storage_metadata_len fake_rp" by (simp add: fake_rp_members)
  moreover have "(1 :: page_ref) \<noteq> INVALID_REF" by (simp add: INVALID_REF_def)
  ultimately show ?thesis
    using root_metadata_roundtrip [OF fake_root.root_layout_axioms fake_segment_root_blank, of svector_metadata 1 1
        "\<lambda>_. None" svector_metadata] fake_segment_root_blank by blast
qed

text \<open>
  C39: a page that has left its free list never comes back. Removing a page does not reset its
  slot number, so the test for re-adding it says that it is still listed, whatever is purged
  from it afterwards, until it is reformatted. A page that filled up once stays out of the free
  lists even when all its records have been purged.
\<close>

theorem removed_page_never_readded:
  assumes lay: "root_layout P rp" "data_layout P page_size dp"
    and rl: "root_lists P rp (pages s) root fl dl" "latched s root" "latched s data" "data \<in> set (fl k)"
    and run: "RootPage_remove_free_page P rp root data e s = (s', Inr ())"
  shows "\<not> DataPage_needs_add_to_free_list P pre_purge (purge_all P dp ps (the (pages s' data)))
    \<and> root_lists P rp (pages s') root (fl(k := remove1 data (fl k))) dl \<and> data \<notin> set (remove1 data (fl k))"
proof -
  have fl: "free_lists P rp (pages s) root fl" using rl(1) by (simp add: root_lists_def)
  have n: "DataPage_get_free_slot_number P (the (pages s' data)) = word_of_nat k"
    by (rule root_layout.remove_free_page_stale_slot [OF lay(1) rl run])
  have "k < 2048" "distinct (fl k)"
    using root_layout.free_lists_slot(1,2) [OF lay(1) fl rl(4)] fl root_layout.max_slots [OF lay(1)]
    by (auto simp: free_lists_def free_list_def)
  then have "(word_of_nat k :: 16 word) \<noteq> INVALID_SLOT"
    by (simp add: INVALID_SLOT_def word_unat_eq_iff unat_of_nat)
  moreover have "root_lists P rp (pages s') root (fl(k := remove1 data (fl k))) dl"
    using root_layout.remove_free_page_op(1) [OF lay(1) rl, of e] run by (simp add: list_outcome_def)
  ultimately show ?thesis
    using n data_layout.purge_all_slot_number [OF lay(2)] \<open>distinct (fl k)\<close>
    by (simp add: DataPage_needs_add_to_free_list_def)
qed

theorem removed_page_never_readded_witness:
  "\<exists>s'. RootPage_remove_free_page fake_api fake_rp 1 2 (Remote ''e'') fake_s2 = (s', Inr ())
   \<and> \<not> DataPage_needs_add_to_free_list fake_api True
        (purge_all fake_api (DataPage_init 16384 16) [(0, 5), (1, 5)] (the (pages s' 2)))"
proof -
  have i: "(2 :: page_ref) \<in> set (((\<lambda>_. [])(0 := [2])) (0 :: nat))" by simp
  obtain s' where "RootPage_remove_free_page fake_api fake_rp 1 2 (Remote ''e'') fake_s2 = (s', Inr ())"
    using list_outcome_ok [OF fake_root.remove_free_page_op(1) [OF fake_s2_facts(1-3) i] fake_s2_facts(4)] by blast
  with removed_page_never_readded [OF fake_root.root_layout_axioms fake16.data_layout_axioms fake_s2_facts(1-3) i this]
  show ?thesis by blast
qed

end
