(* ===== verification/Op_Logic.thy ===== *)
theory Op_Logic
  imports Page_Api
begin

text \<open>
  A Hoare logic for the storage monad. A triple has one postcondition for success and one for
  errors, because the code reports an error with the pages as they are at that point. The rules
  follow the combinators of \<^verbatim>\<open>Page_Api\<close>; a proof walks along the operation with
  \<open>triple_bind\<close> and names the assertion between two calls.
\<close>

definition triple ::
    "('p env \<Rightarrow> bool) \<Rightarrow> ('p, 'a) op \<Rightarrow> ('a \<Rightarrow> 'p env \<Rightarrow> bool) \<Rightarrow> (store_error \<Rightarrow> 'p env \<Rightarrow> bool) \<Rightarrow> bool" where
  "triple A m Q E \<longleftrightarrow> (\<forall>s. A s \<longrightarrow> (case m s of (s', Inr x) \<Rightarrow> Q x s' | (s', Inl e) \<Rightarrow> E e s'))"

lemma tripleI:
  "(\<And>s s' x. A s \<Longrightarrow> m s = (s', Inr x) \<Longrightarrow> Q x s') \<Longrightarrow> (\<And>s s' e. A s \<Longrightarrow> m s = (s', Inl e) \<Longrightarrow> E e s') \<Longrightarrow>
   triple A m Q E"
  by (auto simp: triple_def split: prod.splits sum.splits)

lemma tripleD1: "triple A m Q E \<Longrightarrow> A s \<Longrightarrow> m s = (s', Inr x) \<Longrightarrow> Q x s'"
  by (auto simp: triple_def)

lemma tripleD2: "triple A m Q E \<Longrightarrow> A s \<Longrightarrow> m s = (s', Inl e) \<Longrightarrow> E e s'"
  by (auto simp: triple_def)

lemma triple_bind:
  assumes "triple A m B E" "\<And>x. triple (B x) (f x) Q E"
  shows "triple A (bind_op m f) Q E"
proof (rule tripleI)
  fix s s' y assume A: "A s" and r: "bind_op m f s = (s', Inr y)"
  then obtain s1 x where m: "m s = (s1, Inr x)" and f: "f x s1 = (s', Inr y)" by (auto simp: bind_op_Inr_iff)
  show "Q y s'" by (rule tripleD1 [OF assms(2) tripleD1 [OF assms(1) A m] f])
next
  fix s s' e assume A: "A s" and r: "bind_op m f s = (s', Inl e)"
  then consider "m s = (s', Inl e)" | s1 x where "m s = (s1, Inr x)" "f x s1 = (s', Inl e)"
    by (auto simp: bind_op_Inl_iff)
  then show "E e s'"
  proof cases
    case 1
    show ?thesis by (rule tripleD2 [OF assms(1) A 1])
  next
    case 2
    show ?thesis by (rule tripleD2 [OF assms(2) tripleD1 [OF assms(1) A 2(1)] 2(2)])
  qed
qed

lemma triple_pre: "triple A m Q E \<Longrightarrow> (\<And>s. B s \<Longrightarrow> A s) \<Longrightarrow> triple B m Q E"
  by (auto simp: triple_def)

lemma triple_post: "triple A m Q E \<Longrightarrow> (\<And>x s. Q x s \<Longrightarrow> R x s) \<Longrightarrow> triple A m R E"
  by (auto simp: triple_def split: prod.splits sum.splits)

lemma triple_conseq:
  "triple A m Q E \<Longrightarrow> (\<And>s. B s \<Longrightarrow> A s) \<Longrightarrow> (\<And>x s. Q x s \<Longrightarrow> R x s) \<Longrightarrow> (\<And>e s. E e s \<Longrightarrow> F e s) \<Longrightarrow> triple B m R F"
  unfolding triple_def by (fastforce split: prod.splits sum.splits)

lemma triple_ret: "(\<And>s. A s \<Longrightarrow> Q x s) \<Longrightarrow> triple A (ret x) Q E"
  by (simp add: triple_def ret_def)

lemma triple_fail: "(\<And>s. A s \<Longrightarrow> E e s) \<Longrightarrow> triple A (fail e) Q E"
  by (simp add: triple_def fail_def)

lemma triple_gets: "(\<And>s. A s \<Longrightarrow> Q (f s) s) \<Longrightarrow> triple A (gets f) Q E"
  by (simp add: triple_def gets_def)

lemma triple_modify: "(\<And>s. A s \<Longrightarrow> Q () (f s)) \<Longrightarrow> triple A (modify f) Q E"
  by (simp add: triple_def modify_def)

lemma triple_if:
  "(b \<Longrightarrow> triple A m Q E) \<Longrightarrow> (\<not> b \<Longrightarrow> triple A n Q E) \<Longrightarrow> triple A (if b then m else n) Q E"
  by simp

lemma triple_when:
  "(b \<Longrightarrow> triple A m Q E) \<Longrightarrow> (\<And>s. \<not> b \<Longrightarrow> A s \<Longrightarrow> Q () s) \<Longrightarrow> triple A (when_op b m) Q E"
  by (simp add: when_op_def triple_ret)

lemma triple_require:
  "(\<And>s. b \<Longrightarrow> A s \<Longrightarrow> Q () s) \<Longrightarrow> (\<And>s. \<not> b \<Longrightarrow> A s \<Longrightarrow> E e s) \<Longrightarrow> triple A (require b e) Q E"
  by (simp add: require_def triple_ret triple_fail)

lemma triple_peek:
  assumes "\<And>s. A s \<Longrightarrow> pages s r \<noteq> None \<and> latches s r \<noteq> None"
    and "\<And>s pg. A s \<Longrightarrow> pages s r = Some pg \<Longrightarrow> Q pg s"
  shows "triple A (peek r) Q E"
  unfolding triple_def
proof (intro allI impI)
  fix s assume A: "A s"
  then obtain pg l where "pages s r = Some pg" "latches s r = Some l" using assms(1) by blast
  then show "case peek r s of (s', Inr x) \<Rightarrow> Q x s' | (s', Inl e) \<Rightarrow> E e s'"
    using assms(2) A by (simp add: peek_def)
qed

lemma triple_upd:
  assumes "\<And>s. A s \<Longrightarrow> pages s r \<noteq> None \<and> latches s r = Some EXCLUSIVE"
    and "\<And>s pg. A s \<Longrightarrow> pages s r = Some pg \<Longrightarrow> Q () (s\<lparr>pages := (pages s)(r \<mapsto> f pg)\<rparr>)"
  shows "triple A (upd r f) Q E"
  unfolding triple_def
proof (intro allI impI)
  fix s assume A: "A s"
  then obtain pg where "pages s r = Some pg" "latches s r = Some EXCLUSIVE" using assms(1) by blast
  then show "case upd r f s of (s', Inr x) \<Rightarrow> Q x s' | (s', Inl e) \<Rightarrow> E e s'"
    using assms(2) A by (simp add: upd_def)
qed

lemma triple_load:
  assumes "\<And>s fs. A s \<Longrightarrow> pages s r \<noteq> None \<Longrightarrow> faults s = [] \<longrightarrow> fs = [] \<Longrightarrow>
      Q () (s\<lparr>faults := fs, latches := (latches s)(r := Some l)\<rparr>)"
    and "\<And>s fs. A s \<Longrightarrow> faults s = [] \<longrightarrow> pages s r = None \<Longrightarrow> E e (s\<lparr>faults := fs\<rparr>)"
  shows "triple A (load r l e) Q E"
  unfolding triple_def
proof (intro allI impI)
  fix s assume A: "A s"
  show "case load r l e s of (s', Inr x) \<Rightarrow> Q x s' | (s', Inl e) \<Rightarrow> E e s'"
    by (cases rule: load_cases [of s r l e]) (use assms A in simp_all)
qed

lemma triple_release:
  assumes "\<And>s fs. A s \<Longrightarrow> faults s = [] \<longrightarrow> fs = [] \<Longrightarrow> Q () (s\<lparr>faults := fs, latches := (latches s)(r := None)\<rparr>)"
    and "\<And>s fs. A s \<Longrightarrow> faults s \<noteq> [] \<Longrightarrow> E e (s\<lparr>faults := fs\<rparr>)"
  shows "triple A (release r e) Q E"
  unfolding triple_def
proof (intro allI impI)
  fix s assume A: "A s"
  show "case release r e s of (s', Inr x) \<Rightarrow> Q x s' | (s', Inl e) \<Rightarrow> E e s'"
  proof (cases "faults s")
    case Nil
    then have "s\<lparr>faults := [], latches := (latches s)(r := None)\<rparr> = s\<lparr>latches := (latches s)(r := None)\<rparr>"
      by (cases s) simp
    with Nil assms(1) [OF A, of "[]"] show ?thesis
      by (simp add: release_def api_call_def bind_op_def modify_def)
  next
    case (Cons b bs)
    with assms(1) [OF A, of bs] assms(2) [OF A, of bs] show ?thesis
      by (auto simp: release_def api_call_def bind_op_def modify_def)
  qed
qed

lemma triple_take_fresh:
  assumes "\<And>s fs r rs. A s \<Longrightarrow> fresh s = r # rs \<Longrightarrow> faults s = [] \<longrightarrow> fs = [] \<Longrightarrow>
      Q r (s\<lparr>faults := fs, fresh := rs, pages := (pages s)(r \<mapsto> pg), seg_of := (seg_of s)(r := seg),
             latches := (latches s)(r := Some EXCLUSIVE)\<rparr>)"
    and "\<And>s fs. A s \<Longrightarrow> faults s \<noteq> [] \<or> fresh s = [] \<Longrightarrow> E e (s\<lparr>faults := fs\<rparr>)"
  shows "triple A (take_fresh pg seg e) Q E"
  unfolding triple_def
proof (intro allI impI)
  fix s assume A: "A s"
  obtain b bs where fb: "faults s = [] \<and> \<not> b \<and> bs = [] \<or> faults s = b # bs" by (cases "faults s") auto
  have api: "api_call e s = (s\<lparr>faults := bs\<rparr>, if b then Inl e else Inr ())"
    using fb by (cases s) (auto simp: api_call_def)
  show "case take_fresh pg seg e s of (s', Inr x) \<Rightarrow> Q x s' | (s', Inl e) \<Rightarrow> E e s'"
  proof (cases b)
    case True
    with fb assms(2) [OF A, of bs] api show ?thesis by (simp add: take_fresh_def bind_op_def)
  next
    case False
    show ?thesis
    proof (cases "fresh s")
      case Nil
      with False assms(2) [OF A, of bs] api show ?thesis by (simp add: take_fresh_def bind_op_def)
    next
      case (Cons r rs)
      with False assms(1) [OF A Cons, of bs] fb api show ?thesis
        by (auto simp: take_fresh_def bind_op_def)
    qed
  qed
qed

end
