(* ===== verification/Column_Store.thy ===== *)
theory Column_Store
  imports Root_Page Op_Logic
begin

text \<open>
  Column stores (\<^verbatim>\<open>src/storage/storage.h\<close>, \<^verbatim>\<open>storage.cc\<close>): one
  \<open>ColumnStore\<close> keeps the values of a column in the data pages of one root page, a
  \<open>MultiColumnStore\<close> groups several stores under the segments of a primary root page, and
  \<open>ColumnStorage\<close> is the entry point the server calls.

  The operations run in the storage monad. A debug assertion on latches is a branch of the monad;
  all other assertions are left out, as in a release build, and what they state is proved where it
  matters. The insert concurrency counter is shared between threads, so the value an insert reads
  from it is an argument.
\<close>

subsection \<open>State\<close>

record storage_spec =
  spec_col_len :: nat
  spec_metadata :: "byte list"

record column_store =
  m_root :: root_page
  m_data :: data_page
  m_space_ref :: space_ref
  m_root_page_ref :: page_ref
  m_primary_root_page_ref :: page_ref
  m_segment_index :: nat
  m_metadata :: "byte list"

definition new_column_store :: column_store where
  "new_column_store = \<lparr>m_root = init_root_page_members,
     m_data = \<lparr>m_rec_size = 0, m_free_bitmap_size = 0, m_max_num_recs = 0, m_first_rec_offset = 0\<rparr>,
     m_space_ref = 0, m_root_page_ref = INVALID_REF, m_primary_root_page_ref = INVALID_REF,
     m_segment_index = 0, m_metadata = []\<rparr>"

record multi_column_store =
  m_ref :: "64 word"
  m_stores :: "column_store list"

definition FORMAT_VERSION :: byte where "FORMAT_VERSION = 1"

definition ColumnStore_init ::
    "'p page_api \<Rightarrow> space_ref \<Rightarrow> page_ref \<Rightarrow> nat \<Rightarrow> nat \<Rightarrow> nat \<Rightarrow> byte list \<Rightarrow> column_store \<Rightarrow> column_store" where
  "ColumnStore_init P space_ref root_page_ref col_len num_segments num_root_pages metadata cs =
     cs\<lparr>m_space_ref := space_ref, m_root_page_ref := root_page_ref, m_metadata := metadata,
        m_root := RootPage_init P col_len num_segments num_root_pages (u8 (length metadata)) (m_root cs),
        m_data := DataPage_init (get_size P) col_len\<rparr>"

definition ColumnStore_initialized :: "column_store \<Rightarrow> bool" where
  "ColumnStore_initialized cs \<longleftrightarrow> m_root_page_ref cs \<noteq> INVALID_REF"

subsection \<open>Insertion\<close>

text \<open>
  A new data page for the store: it comes from the store's segment on the primary root page, is
  formatted, entered into the list of data pages and, unless its only record is about to be taken,
  into the free list of the slot the thread works on.
\<close>

definition ColumnStore_new_data_page :: "'p page_api \<Rightarrow> column_store \<Rightarrow> ('p, page_ref) op" where
  "ColumnStore_new_data_page P cs =
     (let root_ref = m_root_page_ref cs; primary_ref = m_primary_root_page_ref cs;
          own_owning_root = (primary_ref \<noteq> root_ref) in
     bind_op (when_op own_owning_root
       (load primary_ref EXCLUSIVE (Remote ''insert: failed to load primary root page for segment''))) (\<lambda>_.
     bind_op (load_new P (if own_owning_root then primary_ref else root_ref, m_segment_index cs)
       (Remote ''insert: failed to allocate new data page'')) (\<lambda>data_ref.
     bind_op (when_op own_owning_root
       (release primary_ref (Remote ''insert: failed to release primary root page''))) (\<lambda>_.
     bind_op (upd data_ref (DataPage_format P (m_data cs) FORMAT_VERSION root_ref)) (\<lambda>_.
     bind_op (RootPage_add_data_page P (m_root cs) root_ref data_ref
       (Local ''insert: failed to register new data page'' [])) (\<lambda>_.
     bind_op (peek data_ref) (\<lambda>data.
     bind_op (gets s_last_slot_info) (\<lambda>lsi.
     bind_op (when_op (\<not> DataPage_has_last_free_slot P data)
       (RootPage_add_free_page P (m_root cs) root_ref data_ref (lsi_slot_number lsi)
         (Local ''insert: failed to register new data page'' []))) (\<lambda>_.
     ret data_ref)))))))))"

text \<open>
  The pessimistic path: the shared latch on the root page is given up for an exclusive one, the slot
  array grows when needed, and the slot is read again.
\<close>

definition ColumnStore_pessimistic_page :: "'p page_api \<Rightarrow> column_store \<Rightarrow> bool \<Rightarrow> ('p, page_ref) op" where
  "ColumnStore_pessimistic_page P cs need_grow =
     (let root_ref = m_root_page_ref cs in
     bind_op (release root_ref (Remote ''insert: failed to release root page'')) (\<lambda>_.
     bind_op (load root_ref EXCLUSIVE (Remote ''insert: failed to load root page'')) (\<lambda>_.
     bind_op (when_op need_grow (upd root_ref (RootPage_grow_free_slots P (m_root cs)))) (\<lambda>_.
     bind_op (RootPage_page_select P (m_root cs) root_ref (m_space_ref cs)) (\<lambda>(data_page_ref, cur_free_slots).
     if data_page_ref = INVALID_REF then ColumnStore_new_data_page P cs
     else
       bind_op (load data_page_ref EXCLUSIVE (Remote ''insert: failed to load data page'')) (\<lambda>_.
       bind_op (peek data_page_ref) (\<lambda>data.
       bind_op (when_op (DataPage_has_last_free_slot P data)
         (RootPage_remove_free_page P (m_root cs) root_ref data_page_ref
           (Local ''insert: failed to remove full page from free list'' []))) (\<lambda>_.
       ret data_page_ref))))))))"

text \<open>\<^verbatim>\<open>DataPage::insert\<close> on a latched page, with the thread's hint.\<close>

definition ColumnStore_insert_record ::
    "'p page_api \<Rightarrow> column_store \<Rightarrow> page_ref \<Rightarrow> trx_ref \<Rightarrow> byte list \<Rightarrow> ('p, column_ref) op" where
  "ColumnStore_insert_record P cs data_ref trx col_data =
     bind_op (gets s_last_slot_info) (\<lambda>lsi.
     bind_op (peek data_ref) (\<lambda>pg.
     let (pg', slot_index, hint_index) = DataPage_insert P (m_data cs) trx col_data (lsi_next_free_rec_hint lsi) pg in
     bind_op (upd data_ref (\<lambda>_. pg')) (\<lambda>_.
     bind_op (modify (\<lambda>s. s\<lparr>s_last_slot_info := lsi\<lparr>lsi_next_free_rec_hint := hint_index\<rparr>\<rparr>)) (\<lambda>_.
     ret (DataPage_encode_column_ref data_ref slot_index)))))"

text \<open>
  Steps 2 to 6 of \<^verbatim>\<open>ColumnStore::insert\<close>: the page that takes the record, latched.
\<close>

definition ColumnStore_select_page :: "'p page_api \<Rightarrow> column_store \<Rightarrow> nat \<Rightarrow> ('p, page_ref) op" where
  "ColumnStore_select_page P cs concurrency =
     (let root_ref = m_root_page_ref cs in
     bind_op (load root_ref SHARED (Remote ''insert: failed to load root page'')) (\<lambda>_.
     bind_op (RootPage_page_select P (m_root cs) root_ref (m_space_ref cs)) (\<lambda>(data_page_ref, cur_free_slots).
     let need_grow = (concurrency > cur_free_slots \<and> cur_free_slots < m_max_free_slots (m_root cs)) in
     bind_op (if \<not> need_grow \<and> data_page_ref \<noteq> INVALID_REF then
         bind_op (load data_page_ref EXCLUSIVE (Remote ''insert: failed to load data page'')) (\<lambda>_.
         bind_op (peek data_page_ref) (\<lambda>data.
         if DataPage_has_last_free_slot P data
         then bind_op (release data_page_ref (Remote ''insert: failed to release data page'')) (\<lambda>_. ret True)
         else ret False))
       else ret True) (\<lambda>need_pessimistic.
     if need_pessimistic then ColumnStore_pessimistic_page P cs need_grow
     else bind_op (release root_ref (Remote ''insert: failed to release root page'')) (\<lambda>_. ret data_page_ref)))))"

definition ColumnStore_insert ::
    "'p page_api \<Rightarrow> column_store \<Rightarrow> nat \<Rightarrow> trx_ref \<Rightarrow> byte list option \<Rightarrow> ('p, column_ref) op" where
  "ColumnStore_insert P cs concurrency trx col_data =
     (case col_data of
        None \<Rightarrow> fail (Local ''insert: NULL column data'' [])
      | Some data \<Rightarrow>
          bind_op (require (length data = m_column_size (m_root cs))
            (Local ''insert: data size mismatch: size=%u, expected=%u'' [length data, m_column_size (m_root cs)])) (\<lambda>_.
          bind_op (ColumnStore_select_page P cs concurrency) (\<lambda>data_ref.
          ColumnStore_insert_record P cs data_ref trx data)))"

subsection \<open>Fetch, update, delete mark, purge\<close>

text \<open>The result is the value, the transaction and the delete mark; there is no row id prefix.\<close>

definition ColumnStore_fetch ::
    "'p page_api \<Rightarrow> column_store \<Rightarrow> column_ref \<Rightarrow> bool \<Rightarrow> ('p, byte list \<times> trx_ref \<times> bool) op" where
  "ColumnStore_fetch P cs col_ref for_update =
     (let (data_page_ref, slot_index) = DataPage_decode_column_ref col_ref in
     bind_op (load data_page_ref (if for_update then EXCLUSIVE else SHARED) (Remote ''fetch: failed to load data page'')) (\<lambda>_.
     bind_op (peek data_page_ref) (\<lambda>pg.
     let (delete_marked, is_free) = DataPage_get_record_status P pg slot_index in
     bind_op (require (\<not> is_free) (Local ''fetch: slot %u is free'' [slot_index])) (\<lambda>_.
     let rec_offset = DataPage_get_record_offset (m_data cs) slot_index;
         col_data_offset = u16 (rec_offset + TRX_REF_SIZE) in
     ret (slice (get_data P pg) col_data_offset (m_column_size (m_root cs)), read_integer_8 P pg rec_offset,
          delete_marked)))))"

text \<open>
  The checks of \<^verbatim>\<open>ColumnStore::update\<close> before its first write: the first bad chunk index in
  order, as the error the code reports for it. \<open>prev\<close> is the index before.
\<close>

fun update_check_chunks :: "nat \<Rightarrow> nat \<Rightarrow> nat option \<Rightarrow> nat list \<Rightarrow> store_error option" where
  "update_check_chunks chunk_size len prev [] = None"
| "update_check_chunks chunk_size len prev (c # cs) =
     (case prev of
        Some p \<Rightarrow>
          if c \<le> p then Some (Local ''update: chunk indexes not in strictly increasing order: %u follows %u'' [c, p])
          else if c * chunk_size + chunk_size > len
            then Some (Local ''update: chunk %u out of bounds: end=%llu, length=%u'' [c, c * chunk_size + chunk_size, len])
            else update_check_chunks chunk_size len (Some c) cs
      | None \<Rightarrow>
          if c * chunk_size + chunk_size > len
            then Some (Local ''update: chunk %u out of bounds: end=%llu, length=%u'' [c, c * chunk_size + chunk_size, len])
            else update_check_chunks chunk_size len (Some c) cs)"

text \<open>The length of the run of consecutive indexes at the head of a list.\<close>

fun run_length :: "nat list \<Rightarrow> nat" where
  "run_length [] = 0"
| "run_length [c] = 1"
| "run_length (c # d # cs) = (if d = c + 1 then Suc (run_length (d # cs)) else 1)"

lemma run_length_pos: "0 < run_length (c # cs)"
  by (cases cs) auto

function write_chunks :: "'p page_api \<Rightarrow> nat \<Rightarrow> byte list \<Rightarrow> nat \<Rightarrow> nat list \<Rightarrow> 'p \<Rightarrow> 'p" where
  "write_chunks P col_offset col_data chunk_size [] pg = pg"
| "write_chunks P col_offset col_data chunk_size (c # cs) pg =
     (let n = run_length (c # cs);
          offset = u32 (c * chunk_size);
          pg' = write_string P pg (u16 (col_offset + u16 offset)) (take (n * chunk_size) (drop offset col_data))
      in write_chunks P col_offset col_data chunk_size (drop n (c # cs)) pg')"
  by pat_completeness auto
termination
  by (relation "measure (\<lambda>(_, _, _, _, cs, _). length cs)") (use run_length_pos in force)+

definition ColumnStore_update ::
    "'p page_api \<Rightarrow> column_store \<Rightarrow> column_ref \<Rightarrow> byte list option \<Rightarrow> nat list \<Rightarrow> nat \<Rightarrow> ('p, unit) op" where
  "ColumnStore_update P cs col_ref col_data chunk_ids chunk_size =
     (if chunk_ids = [] then ret ()
      else
        case col_data of
          None \<Rightarrow> fail (Local ''update: bad arguments: data=%p, chunk_size=%u, length=%u, column_size=%u''
                     [chunk_size, m_column_size (m_root cs)])
        | Some data \<Rightarrow>
            if chunk_size = 0 \<or> length data \<noteq> m_column_size (m_root cs)
            then fail (Local ''update: bad arguments: data=%p, chunk_size=%u, length=%u, column_size=%u''
                   [chunk_size, length data, m_column_size (m_root cs)])
            else
              case update_check_chunks chunk_size (length data) None chunk_ids of
                Some e \<Rightarrow> fail e
              | None \<Rightarrow>
                  (let (data_page_ref, slot_index) = DataPage_decode_column_ref col_ref in
                  bind_op (load data_page_ref EXCLUSIVE (Remote ''update: failed to load data page'')) (\<lambda>_.
                  bind_op (peek data_page_ref) (\<lambda>pg.
                  bind_op (require (\<not> snd (DataPage_get_record_status P pg slot_index))
                    (Local ''update: slot %u is free'' [slot_index])) (\<lambda>_.
                  upd data_page_ref (write_chunks P
                    (u16 (DataPage_get_record_offset (m_data cs) slot_index + TRX_REF_SIZE)) data chunk_size chunk_ids))))))"

definition ColumnStore_mark_delete ::
    "'p page_api \<Rightarrow> column_store \<Rightarrow> trx_ref \<Rightarrow> column_ref \<Rightarrow> bool \<Rightarrow> ('p, unit) op" where
  "ColumnStore_mark_delete P cs trx col_ref delete_mark =
     (let (data_page_ref, slot_index) = DataPage_decode_column_ref col_ref in
     bind_op (load data_page_ref EXCLUSIVE (Remote ''mark_delete: failed to load data page'')) (\<lambda>_.
     bind_op (peek data_page_ref) (\<lambda>pg.
     let rec_offset = DataPage_get_record_offset (m_data cs) slot_index;
         trx_id_match = (read_integer_8 P pg rec_offset = trx) in
     bind_op (upd data_page_ref (if delete_mark then DataPage_set_record_delete P slot_index
                                 else DataPage_set_record_undelete P slot_index)) (\<lambda>_.
     when_op (\<not> trx_id_match) (upd data_page_ref (\<lambda>pg. write_integer_8 P pg rec_offset trx))))))"

definition ColumnStore_purge :: "'p page_api \<Rightarrow> column_store \<Rightarrow> trx_ref \<Rightarrow> column_ref \<Rightarrow> ('p, unit) op" where
  "ColumnStore_purge P cs trx col_ref =
     (let (data_page_ref, slot_index) = DataPage_decode_column_ref col_ref; root_ref = m_root_page_ref cs in
     bind_op (load data_page_ref EXCLUSIVE (Remote ''purge: failed to load data page'')) (\<lambda>_.
     bind_op (peek data_page_ref) (\<lambda>pg0.
     let need_pessimistic = DataPage_needs_add_to_free_list P True pg0 in
     bind_op (when_op need_pessimistic
       (bind_op (release data_page_ref (Remote ''purge: failed to release data page'')) (\<lambda>_.
        bind_op (load root_ref EXCLUSIVE (Remote ''purge: failed to load root page'')) (\<lambda>_.
        load data_page_ref EXCLUSIVE (Remote ''purge: failed to reload data page''))))) (\<lambda>_.
     bind_op (peek data_page_ref) (\<lambda>pg.
     case DataPage_purge P (m_data cs) slot_index trx pg of
       None \<Rightarrow> fail (Local ''purge: failed on page %u slot %u'' [unat data_page_ref, slot_index])
     | Some (pg', purged) \<Rightarrow>
         bind_op (upd data_page_ref (\<lambda>_. pg')) (\<lambda>_.
         when_op (need_pessimistic \<and> purged \<and> DataPage_needs_add_to_free_list P False pg')
           (bind_op (RootPage_get_free_slot P (m_root cs) root_ref) (\<lambda>slot_number.
            RootPage_add_free_page P (m_root cs) root_ref data_page_ref slot_number
              (Local ''purge: failed to add page %u to free list'' [unat data_page_ref])))))))))"

text \<open>The store with its metadata replaced.\<close>

definition ColumnStore_update_metadata ::
    "'p page_api \<Rightarrow> column_store \<Rightarrow> byte list \<Rightarrow> ('p, column_store) op" where
  "ColumnStore_update_metadata P cs metadata =
     (let root_ref = m_root_page_ref cs in
     bind_op (load root_ref EXCLUSIVE (Remote ''update_metadata: failed to load root page'')) (\<lambda>_.
     bind_op (peek root_ref) (\<lambda>pg.
     case RootPage_update_header P (m_root cs) metadata pg of
       None \<Rightarrow> fail (Local ''update_metadata: size mismatch: got=%zu, expected=%u''
                  [length metadata, m_storage_metadata_len (m_root cs)])
     | Some pg' \<Rightarrow> bind_op (upd root_ref (\<lambda>_. pg')) (\<lambda>_. ret (cs\<lparr>m_metadata := metadata\<rparr>)))))"

subsection \<open>Groups of stores\<close>

text \<open>
  A mini-transaction of its own: it starts without latches, and the latches it took are gone when it
  commits, whether its body succeeded or not.
\<close>

definition with_mtr :: "('p, 'a) op \<Rightarrow> ('p, 'a) op" where
  "with_mtr m = (\<lambda>s. let (s', r) = m (s\<lparr>latches := (\<lambda>_. None)\<rparr>) in (s'\<lparr>latches := latches s\<rparr>, r))"

definition MultiColumnStore_encode_ref :: "space_ref \<Rightarrow> page_ref \<Rightarrow> 64 word" where
  "MultiColumnStore_encode_ref space_ref page_ref = ucast space_ref OR push_bit 32 (ucast page_ref)"

definition MultiColumnStore_decode_ref :: "64 word \<Rightarrow> space_ref \<times> page_ref" where
  "MultiColumnStore_decode_ref r = (ucast (r AND 0xFFFFFFFF), ucast (drop_bit 32 r))"

text \<open>
  \<^verbatim>\<open>MultiColumnStore::create\<close> on an empty object; the result is the object afterwards. When it
  fails the caller drops the object.
\<close>

definition MultiColumnStore_create ::
    "'p page_api \<Rightarrow> space_ref \<Rightarrow> storage_spec list \<Rightarrow> nat \<Rightarrow> ('p, multi_column_store) op" where
  "MultiColumnStore_create P space_ref storages num_segments =
     bind_op (segment_create P num_segments (Remote ''create: failed to create segment'')) (\<lambda>root_page_ref.
     let num_root_pages = u8 (length storages);
         primary = (ColumnStore_init P space_ref root_page_ref (spec_col_len (hd storages)) num_segments
                      num_root_pages (spec_metadata (hd storages)) new_column_store)
                   \<lparr>m_primary_root_page_ref := root_page_ref, m_segment_index := 0\<rparr>;
         others = map (\<lambda>sp. ColumnStore_init P space_ref INVALID_REF (spec_col_len sp) 0 1 (spec_metadata sp)
                     new_column_store) (tl storages) in
     bind_op (with_mtr
       (bind_op (load root_page_ref EXCLUSIVE (Remote ''create: failed to load root page'')) (\<lambda>_.
        bind_op (peek root_page_ref) (\<lambda>pg.
        case RootPage_format P FORMAT_VERSION (m_metadata primary) (m_root primary) pg of
          None \<Rightarrow> fail (Local ''create: failed to format root page'' [])
        | Some (rp', pg') \<Rightarrow> bind_op (upd root_page_ref (\<lambda>_. pg')) (\<lambda>_. ret rp'))))) (\<lambda>rp'.
     ret \<lparr>m_ref = MultiColumnStore_encode_ref space_ref root_page_ref,
          m_stores = primary\<lparr>m_root := rp'\<rparr> # others\<rparr>))"

text \<open>Dropping the segment returns its pages to the server.\<close>

definition MultiColumnStore_drop :: "multi_column_store \<Rightarrow> ('p, unit) op" where
  "MultiColumnStore_drop ms = api_call (Remote ''drop: failed to drop segment'')"

definition MultiColumnStore_init_root_page ::
    "'p page_api \<Rightarrow> nat \<Rightarrow> nat \<Rightarrow> multi_column_store \<Rightarrow> ('p, multi_column_store) op" where
  "MultiColumnStore_init_root_page P seg_idx root_idx ms =
     (let primary = m_stores ms ! 0; target = m_stores ms ! root_idx;
          primary_ref = m_root_page_ref primary in
     bind_op (with_mtr
       (bind_op (load primary_ref EXCLUSIVE (Remote ''init_root_page: failed to load primary root page'')) (\<lambda>_.
        bind_op (load_new P (primary_ref, seg_idx) (Remote ''init_root_page: failed to allocate page'')) (\<lambda>new_ref.
        bind_op (peek new_ref) (\<lambda>pg.
        case RootPage_format P FORMAT_VERSION (m_metadata target) (m_root target) pg of
          None \<Rightarrow> fail (Local ''init_root_page: failed to format root page'' [])
        | Some (rp', pg') \<Rightarrow>
            bind_op (upd new_ref (\<lambda>_. pg')) (\<lambda>_.
            bind_op (upd primary_ref (\<lambda>pg. write_integer_4 P pg
              (other_root_pages_off (m_root primary) + (root_idx - 1) * ROOT_PAGE_REF_LEN) new_ref)) (\<lambda>_.
            ret (rp', new_ref)))))))) (\<lambda>(rp', new_ref).
     ret (ms\<lparr>m_stores := (m_stores ms)[root_idx := target\<lparr>m_root := rp', m_root_page_ref := new_ref,
            m_primary_root_page_ref := primary_ref, m_segment_index := seg_idx\<rparr>]\<rparr>)))"

text \<open>\<^verbatim>\<open>PageInfo\<close>: what \<^verbatim>\<open>read_page_info\<close> reads off a root page in three stages.\<close>

record page_info =
  num_segs :: nat
  num_other_root_pages :: nat
  info_col_len :: nat
  info_metadata :: "byte list"
  info_rp :: root_page

definition read_page_info :: "'p page_api \<Rightarrow> 'p \<Rightarrow> page_info" where
  "read_page_info P pg =
     (let ns = unat (read_integer_1 P pg HEADER_SIZE);
          rp1 = RootPage_set_layout ns 0 1 init_root_page_members;
          ml = unat (read_integer_1 P pg (storage_metadata_len_off rp1));
          rp2 = RootPage_set_layout ns ml 1 rp1;
          nrp = unat (read_integer_1 P pg (num_other_root_pages_off rp2));
          rp3 = RootPage_set_layout ns ml nrp rp2
      in \<lparr>num_segs = ns, num_other_root_pages = nrp,
          info_col_len = unat (read_integer_2 P pg (column_size_off rp3)),
          info_metadata = RootPage_read_metadata P rp3 pg, info_rp = rp3\<rparr>)"

text \<open>
  One secondary store of \<^verbatim>\<open>MultiColumnStore::load\<close>. A store without a root page keeps its
  specification; otherwise the page says how it was laid out.
\<close>

definition load_secondary ::
    "'p page_api \<Rightarrow> space_ref \<Rightarrow> page_ref \<Rightarrow> page_ref \<Rightarrow> storage_spec \<Rightarrow> ('p, column_store) op" where
  "load_secondary P space_ref root_page_ref r sp =
     (if r = INVALID_REF
     then ret (ColumnStore_init P space_ref INVALID_REF (spec_col_len sp) 0 1 (spec_metadata sp) new_column_store)
     else
       bind_op (with_mtr
         (bind_op (load r SHARED (Remote ''load: failed to load secondary root page'')) (\<lambda>_.
          bind_op (peek r) (\<lambda>pg. ret (read_page_info P pg))))) (\<lambda>info.
       ret ((ColumnStore_init P space_ref r (info_col_len info) (num_segs info) (u8 (num_other_root_pages info + 1))
              (info_metadata info) new_column_store)\<lparr>m_primary_root_page_ref := root_page_ref\<rparr>)))"

fun map_op :: "('a \<Rightarrow> ('p, 'b) op) \<Rightarrow> 'a list \<Rightarrow> ('p, 'b list) op" where
  "map_op f [] = ret []"
| "map_op f (x # xs) = bind_op (f x) (\<lambda>y. bind_op (map_op f xs) (\<lambda>ys. ret (y # ys)))"

definition MultiColumnStore_load ::
    "'p page_api \<Rightarrow> 64 word \<Rightarrow> storage_spec list \<Rightarrow> ('p, multi_column_store) op" where
  "MultiColumnStore_load P storage_ref specs =
     (let (space_ref, root_page_ref) = MultiColumnStore_decode_ref storage_ref in
     bind_op (with_mtr
       (bind_op (load root_page_ref SHARED (Remote ''load: failed to load primary root page'')) (\<lambda>_.
        bind_op (peek root_page_ref) (\<lambda>pg.
        let info0 = read_page_info P pg in
        ret (info0, map (\<lambda>i. read_integer_4 P pg (other_root_pages_off (info_rp info0) + i * ROOT_PAGE_REF_LEN))
                      [0..<num_other_root_pages info0]))))) (\<lambda>(info0, other_refs).
     let num_root_pages = u8 (num_other_root_pages info0 + 1);
         primary = (ColumnStore_init P space_ref root_page_ref (info_col_len info0) (num_segs info0) num_root_pages
                      (info_metadata info0) new_column_store)
                   \<lparr>m_primary_root_page_ref := root_page_ref, m_segment_index := 0\<rparr> in
     bind_op (map_op (\<lambda>i. load_secondary P space_ref root_page_ref (other_refs ! (i - 1)) (specs ! i))
       [1..<num_root_pages]) (\<lambda>others.
     ret \<lparr>m_ref = MultiColumnStore_encode_ref space_ref root_page_ref, m_stores = primary # others\<rparr>)))"

definition MultiColumnStore_get_root_index ::
    "'p page_api \<Rightarrow> multi_column_store \<Rightarrow> column_ref \<Rightarrow> ('p, nat) op" where
  "MultiColumnStore_get_root_index P ms col_ref =
     (let (data_page_ref, slot_index) = DataPage_decode_column_ref col_ref in
     bind_op (load data_page_ref SHARED (Remote ''get_root_index: failed to load data page'')) (\<lambda>_.
     bind_op (peek data_page_ref) (\<lambda>pg.
     let root_page_ref = DataPage_get_root_page_ref P pg in
     case List.find (\<lambda>i. m_root_page_ref (m_stores ms ! i) = root_page_ref) [0..<length (m_stores ms)] of
       Some i \<Rightarrow> ret (u8 i)
     | None \<Rightarrow> fail (Local ''get_root_index: no store matches root page ref'' []))))"

subsection \<open>The column storage entry points\<close>

definition COLUMN_REF_SIZE :: nat where "COLUMN_REF_SIZE = 8"

definition ColumnStorage_create :: "'p page_api \<Rightarrow> space_ref \<Rightarrow> nat \<Rightarrow> ('p, multi_column_store) op" where
  "ColumnStorage_create P space col_len =
     (if col_len \<ge> get_size P \<or> col_len < COLUMN_REF_SIZE
      then fail (Local ''create: column length %u out of range for page size %u'' [col_len, get_size P])
      else MultiColumnStore_create P space
             [\<lparr>spec_col_len = u16 (col_len - COLUMN_REF_SIZE), spec_metadata = svector_metadata\<rparr>] 1)"

definition ColumnStorage_drop :: "multi_column_store \<Rightarrow> ('p, unit) op" where
  "ColumnStorage_drop ms = MultiColumnStore_drop ms"

definition ColumnStorage_load :: "'p page_api \<Rightarrow> 64 word \<Rightarrow> ('p, multi_column_store) op" where
  "ColumnStorage_load P storage_ref = MultiColumnStore_load P storage_ref [\<lparr>spec_col_len = 0, spec_metadata = []\<rparr>]"

definition ColumnStorage_insert ::
    "'p page_api \<Rightarrow> multi_column_store \<Rightarrow> nat \<Rightarrow> trx_ref \<Rightarrow> byte list option \<Rightarrow> ('p, column_ref) op" where
  "ColumnStorage_insert P ms concurrency trx col_data = ColumnStore_insert P (m_stores ms ! 0) concurrency trx col_data"

definition ColumnStorage_select ::
    "'p page_api \<Rightarrow> multi_column_store \<Rightarrow> column_ref \<Rightarrow> ('p, byte list \<times> trx_ref \<times> bool) op" where
  "ColumnStorage_select P ms col_ref = ColumnStore_fetch P (m_stores ms ! 0) col_ref False"

definition ColumnStorage_mark_delete ::
    "'p page_api \<Rightarrow> multi_column_store \<Rightarrow> trx_ref \<Rightarrow> column_ref \<Rightarrow> bool \<Rightarrow> ('p, unit) op" where
  "ColumnStorage_mark_delete P ms trx col_ref delete_mark =
     ColumnStore_mark_delete P (m_stores ms ! 0) trx col_ref delete_mark"

definition ColumnStorage_purge :: "'p page_api \<Rightarrow> multi_column_store \<Rightarrow> trx_ref \<Rightarrow> column_ref \<Rightarrow> ('p, unit) op" where
  "ColumnStorage_purge P ms trx col_ref = ColumnStore_purge P (m_stores ms ! 0) trx col_ref"

end
