(* ===== verification/Column_Refinement.thy ===== *)
theory Column_Refinement
  imports Column_Store
begin

text \<open>
  The column store against its specification. \<open>store_inv\<close> is the invariant of a store,
  \<open>store_slots\<close> its content as a map from page and slot index to slot states. Every operation is
  shown to be the expected update of that map on success, to leave map and invariant as they were on
  every error return, and to fail only when an API call fails or the arguments are bad.
\<close>

subsection \<open>The store invariant\<close>

definition num_free :: "'p page_api \<Rightarrow> 'p \<Rightarrow> nat" where
  "num_free P pg = unat (read_integer_2 P pg NUM_FREE_RECS_OFF)"

text \<open>
  \<open>store_inv\<close>: the lists of the root page are intact, every data page satisfies the page invariant
  and points back to the root page, and pages in a free list have a free record.
\<close>

definition store_inv ::
    "'p page_api \<Rightarrow> column_store \<Rightarrow> (page_ref \<Rightarrow> 'p option) \<Rightarrow> (nat \<Rightarrow> page_ref list) \<Rightarrow> page_ref list \<Rightarrow> bool" where
  "store_inv P cs m fl dl \<longleftrightarrow> root_lists P (m_root cs) m (m_root_page_ref cs) fl dl
     \<and> (\<forall>x\<in>set dl. data_page_inv P (m_data cs) (the (m x))
          \<and> DataPage_get_root_page_ref P (the (m x)) = m_root_page_ref cs)
     \<and> (\<forall>k. \<forall>x\<in>set (fl k). 0 < num_free P (the (m x)))"

text \<open>
  \<open>store_ext\<close>: what the store may look like before the record of an insert is written. The old
  pages have the same slots, a page added to the list was not there before and is empty, and pages
  of other stores are as they were.
\<close>

definition store_ext ::
    "'p page_api \<Rightarrow> column_store \<Rightarrow> (page_ref \<Rightarrow> 'p option) \<Rightarrow> page_ref list \<Rightarrow> (page_ref \<Rightarrow> 'p option) \<Rightarrow> page_ref list \<Rightarrow> bool" where
  "store_ext P cs m0 dl0 m dl \<longleftrightarrow> (\<exists>new. dl = new @ dl0 \<and> (\<forall>x\<in>set new. m0 x = None))
     \<and> (\<forall>x\<in>set dl. \<forall>i < m_max_num_recs (m_data cs). slot_at P (m_data cs) (the (m x)) i =
          (if x \<in> set dl0 then slot_at P (m_data cs) (the (m0 x)) i else Free))
     \<and> (\<forall>x. x \<noteq> m_root_page_ref cs \<longrightarrow> x \<notin> set dl \<longrightarrow> m0 x \<noteq> None \<longrightarrow> m x = m0 x)"

locale store_layout = root_layout P "m_root cs" + data_layout P "get_size P" "m_data cs"
  for P :: "'p page_api" and cs :: column_store +
  assumes rec_size_col: "m_rec_size (m_data cs) = TRX_REF_SIZE + m_column_size (m_root cs)"
begin

lemma same_records_slot:
  assumes sr: "same_records P pg pg'"
  shows "i < m_max_num_recs (m_data cs) \<Longrightarrow> slot_at P (m_data cs) pg' i = slot_at P (m_data cs) pg i"
    and "num_free P pg' = num_free P pg"
    and "data_page_inv P (m_data cs) pg' = data_page_inv P (m_data cs) pg"
proof -
  have b: "get_data P pg' k = get_data P pg k" if "MAX_NUM_RECS_OFF \<le> k" for k
    using sr that by (simp add: same_records_def)
  have rd: "read_integer_2 P pg' off = read_integer_2 P pg off" if "MAX_NUM_RECS_OFF \<le> off" for off
    using that b by (simp add: read_2 be_read_def slice_cong [of off 2 "get_data P pg'" "get_data P pg"])
  show sl: "slot_at P (m_data cs) pg' i = slot_at P (m_data cs) pg i" if i: "i < m_max_num_recs (m_data cs)" for i
  proof (rule slot_at_cong)
    show "DataPage_get_record_status P pg' i = DataPage_get_record_status P pg i"
      using b header_before_bitmap [of i] by (simp add: get_record_status_bits layout_defs)
    show "get_data P pg' (DataPage_get_record_offset (m_data cs) i + k)
        = get_data P pg (DataPage_get_record_offset (m_data cs) i + k)" for k
      using rec_offset(1) [OF i] header_before_records by (intro b) (simp add: layout_defs)
  qed
  show nf: "num_free P pg' = num_free P pg" using rd by (simp add: num_free_def layout_defs)
  have "count_below (m_max_num_recs (m_data cs)) (\<lambda>i. slot_at P (m_data cs) pg' i = Free)
      = count_below (m_max_num_recs (m_data cs)) (\<lambda>i. slot_at P (m_data cs) pg i = Free)"
    using sl by (intro count_below_cong) simp
  then show "data_page_inv P (m_data cs) pg' = data_page_inv P (m_data cs) pg"
    using rd by (simp add: data_page_inv_def layout_defs)
qed

lemma same_header_reads:
  assumes sh: "same_header P pg pg'"
  shows "DataPage_get_free_slot_number P pg' = DataPage_get_free_slot_number P pg"
    and "DataPage_get_root_page_ref P pg' = DataPage_get_root_page_ref P pg"
    and "read_integer_4 P pg' NEXT_FREE_PAGE_OFF = read_integer_4 P pg NEXT_FREE_PAGE_OFF"
    and "read_integer_4 P pg' PREV_FREE_PAGE_OFF = read_integer_4 P pg PREV_FREE_PAGE_OFF"
    and "read_next_link P pg' = read_next_link P pg" and "read_prev_link P pg' = read_prev_link P pg"
proof -
  have "be_read (get_data P pg') off n = be_read (get_data P pg) off n" if "off + n \<le> NUM_FREE_RECS_OFF" for off n
    unfolding be_read_def using sh that
    by (simp add: same_header_def slice_cong [of off n "get_data P pg'" "get_data P pg"])
  then show "DataPage_get_free_slot_number P pg' = DataPage_get_free_slot_number P pg"
    "DataPage_get_root_page_ref P pg' = DataPage_get_root_page_ref P pg"
    "read_integer_4 P pg' NEXT_FREE_PAGE_OFF = read_integer_4 P pg NEXT_FREE_PAGE_OFF"
    "read_integer_4 P pg' PREV_FREE_PAGE_OFF = read_integer_4 P pg PREV_FREE_PAGE_OFF"
    "read_next_link P pg' = read_next_link P pg" "read_prev_link P pg' = read_prev_link P pg"
    by (simp_all add: DataPage_get_free_slot_number_def DataPage_get_root_page_ref_def data_reads layout_defs)
qed

lemma store_inv_lists: "store_inv P cs m fl dl \<Longrightarrow> root_lists P (m_root cs) m (m_root_page_ref cs) fl dl"
  by (simp add: store_inv_def)

lemmas store_member = root_lists_member [OF store_inv_lists]

text \<open>An operation on the lists keeps the invariant and the slots.\<close>

lemma store_inv_keeps:
  assumes si: "store_inv P cs m fl dl" and k: "keeps_records P (m_root_page_ref cs) m m'"
    and rl: "root_lists P (m_root cs) m' (m_root_page_ref cs) fl' dl"
    and nf: "\<And>k x. x \<in> set (fl' k) \<Longrightarrow> 0 < num_free P (the (m x))"
  shows "store_inv P cs m' fl' dl"
proof -
  have sr: "same_records P (the (m x)) (the (m' x))" if "x \<in> set dl" for x
    using k store_member(3,4) [OF si that] by (simp add: keeps_records_def)
  have fl: "x \<in> set dl" if "x \<in> set (fl' k)" for x k using root_lists_member(6) [OF rl that] .
  show ?thesis
    unfolding store_inv_def
  proof (intro conjI ballI allI)
    show "data_page_inv P (m_data cs) (the (m' x))" "DataPage_get_root_page_ref P (the (m' x)) = m_root_page_ref cs"
      if "x \<in> set dl" for x
      using si that same_records_slot(3) [OF sr [OF that]] sr [OF that]
      by (auto simp: store_inv_def same_records_def)
    show "0 < num_free P (the (m' x))" if "x \<in> set (fl' k)" for k x
      using nf [OF that] same_records_slot(2) [OF sr [OF fl [OF that]]] by simp
  qed (rule rl)
qed

lemma store_ext_keeps:
  assumes ex: "store_ext P cs m0 dl0 m dl" and si: "store_inv P cs m fl dl"
    and k: "keeps_records P (m_root_page_ref cs) m m'" and u: "untouched (m_root_page_ref cs) (set dl) m m'"
  shows "store_ext P cs m0 dl0 m' dl"
proof -
  have "slot_at P (m_data cs) (the (m' x)) i = slot_at P (m_data cs) (the (m x)) i"
    if "x \<in> set dl" "i < m_max_num_recs (m_data cs)" for x i
    using k store_member(3,4) [OF si that(1)] that(2) by (intro same_records_slot) (auto simp: keeps_records_def)
  with ex u show ?thesis by (auto simp: store_ext_def untouched_def)
qed

text \<open>Rewriting the records of one page keeps the lists when its header stays.\<close>

lemma root_lists_same_header:
  assumes rl: "root_lists P (m_root cs) m (m_root_page_ref cs) fl dl" and x: "x \<in> set dl"
    and sh: "same_header P (the (m x)) pg'"
  shows "root_lists P (m_root cs) (m(x \<mapsto> pg')) (m_root_page_ref cs) fl dl"
proof -
  have fl: "free_lists P (m_root cs) m (m_root_page_ref cs) fl" and dl: "data_list P (m_root cs) m (m_root_page_ref cs) dl"
    using rl by (auto simp: root_lists_def)
  note r = root_lists_member [OF rl] and hd = same_header_reads [OF sh]
  have "free_lists P (m_root cs) (m(x \<mapsto> pg')) (m_root_page_ref cs) fl"
    by (rule free_lists_frame [OF fl]) (use r(1) r(3,4) [OF x] r(3) [OF r(6)] hd in auto)
  moreover have "data_list P (m_root cs) (m(x \<mapsto> pg')) (m_root_page_ref cs) dl"
    by (rule data_list_frame [OF dl]) (use r(1) r(3,4) [OF x] r(3) hd in auto)
  ultimately show ?thesis using rl by (simp add: root_lists_def)
qed

lemma store_inv_update:
  assumes si: "store_inv P cs m fl dl" and x: "x \<in> set dl" and sh: "same_header P (the (m x)) pg'"
    and inv: "data_page_inv P (m_data cs) pg'" and nf: "\<And>k. x \<in> set (fl k) \<Longrightarrow> 0 < num_free P pg'"
  shows "store_inv P cs (m(x \<mapsto> pg')) fl dl"
  using si root_lists_same_header [OF store_inv_lists [OF si] x sh] inv nf same_header_reads(2) [OF sh] x
  by (auto simp: store_inv_def)

text \<open>A page outside the store does not matter to it.\<close>

lemma store_inv_other:
  assumes si: "store_inv P cs m fl dl" and x: "x \<noteq> m_root_page_ref cs" "x \<notin> set dl"
  shows "store_inv P cs (m(x := pg)) fl dl"
proof -
  have rl: "root_lists P (m_root cs) m (m_root_page_ref cs) fl dl" using si by (rule store_inv_lists)
  have fl: "free_lists P (m_root cs) m (m_root_page_ref cs) fl" and dl: "data_list P (m_root cs) m (m_root_page_ref cs) dl"
    using rl by (auto simp: root_lists_def)
  note r = root_lists_member [OF rl]
  have y: "y \<noteq> x" if "y \<in> set (fl k)" for y k using r(6) [OF that] x by auto
  have "free_lists P (m_root cs) (m(x := pg)) (m_root_page_ref cs) fl"
    by (rule free_lists_frame [OF fl]) (use r(1) r(3) [OF r(6)] x y in auto)
  moreover have "data_list P (m_root cs) (m(x := pg)) (m_root_page_ref cs) dl"
    by (rule data_list_frame [OF dl]) (use r(1,3) x in auto)
  ultimately show ?thesis using si x y by (auto simp: store_inv_def root_lists_def)
qed

lemma store_ext_other:
  "store_ext P cs m0 dl0 m dl \<Longrightarrow> m0 x = None \<Longrightarrow> x \<notin> set dl \<Longrightarrow> store_ext P cs m0 dl0 (m(x := pg)) dl"
  unfolding store_ext_def by auto

lemma store_ext_refl: "store_ext P cs m dl m dl"
  by (simp add: store_ext_def)

lemma page_has_free:
  assumes "data_page_inv P (m_data cs) pg" "0 < num_free P pg"
  shows "\<exists>i < m_max_num_recs (m_data cs). slot_at P (m_data cs) pg i = Free"
  using assms by (simp add: data_page_inv_def num_free_def count_below_pos)

lemma hint_safe_cong:
  "(\<And>i. i < m_max_num_recs (m_data cs) \<Longrightarrow> slot_at P (m_data cs) pg' i = slot_at P (m_data cs) pg i) \<Longrightarrow>
   hint_safe P (m_data cs) pg' h = hint_safe P (m_data cs) pg h"
  by (simp add: hint_safe_def)

lemma hint_safe_0: "\<exists>i < m_max_num_recs (m_data cs). slot_at P (m_data cs) pg i = Free \<Longrightarrow> hint_safe P (m_data cs) pg 0"
  by (auto simp: hint_safe_def)

end
subsection \<open>Choosing the page of an insert\<close>

text \<open>The slot a root page offers: the thread's slot, or a random one with the hint reset.\<close>

lemma page_select_run:
  assumes pg: "pages s root = Some rpg" "latches s root \<noteq> None" and cur: "0 < cur_slots P rp rpg"
  obtains k ds lsi where
    "RootPage_page_select P rp root sp s
       = (s\<lparr>draws := ds, s_last_slot_info := lsi\<rparr>, Inr (slot_head P rp rpg k, cur_slots P rp rpg))"
    "k < cur_slots P rp rpg" "lsi_space_ref lsi = sp" "lsi_page_ref lsi = root" "lsi_slot_number lsi = k"
    "lsi = s_last_slot_info s \<or> lsi_next_free_rec_hint lsi = 0"
proof -
  let ?l = "s_last_slot_info s" and ?c = "cur_slots P rp rpg"
  have pk: "peek root s = (s, Inr rpg)" using pg by (auto simp: peek_def split: option.splits)
  show thesis
  proof (cases "RootPage_get_cached_slot_number sp root ?c ?l")
    case (Some k)
    then have k: "lsi_space_ref ?l = sp" "lsi_page_ref ?l = root" "lsi_slot_number ?l = k" "k < ?c"
      by (auto simp: RootPage_get_cached_slot_number_def split: if_splits)
    have "RootPage_page_select P rp root sp s = (s\<lparr>draws := draws s, s_last_slot_info := ?l\<rparr>, Inr (slot_head P rp rpg k, ?c))"
      unfolding RootPage_page_select_def
      by (simp add: bind_op_def pk Let_def cur_slots_def [symmetric] gets_def Some ret_def slot_head_def
          NULL_FREE_PAGE_REF_def)
    then show thesis using that k by blast
  next
    case None
    define d where "d = (case draws s of [] \<Rightarrow> (0 :: nat) | d # _ \<Rightarrow> d mod ?c)"
    define ds where "ds = (case draws s of [] \<Rightarrow> [] | _ # ds \<Rightarrow> ds)"
    define lsi where "lsi = \<lparr>lsi_space_ref = sp, lsi_page_ref = root, lsi_slot_number = d, lsi_next_free_rec_hint = 0\<rparr>"
    have "uniform_draw ?c s = (s\<lparr>draws := ds\<rparr>, Inr d)"
      by (cases "draws s"; cases s) (simp_all add: uniform_draw_def d_def ds_def)
    then have "RootPage_page_select P rp root sp s = (s\<lparr>draws := ds, s_last_slot_info := lsi\<rparr>, Inr (slot_head P rp rpg d, ?c))"
      unfolding RootPage_page_select_def
      using cur by (simp add: bind_op_def pk Let_def cur_slots_def [symmetric] gets_def None ret_def slot_head_def
          NULL_FREE_PAGE_REF_def RootPage_get_random_slot_def modify_def lsi_def)
    moreover have "d < ?c" using cur by (simp add: d_def split: list.split)
    ultimately show thesis using that by (simp add: lsi_def)
  qed
qed

definition fresh_ok :: "'p env \<Rightarrow> bool" where
  "fresh_ok s \<longleftrightarrow> distinct (fresh s) \<and> (\<forall>r\<in>set (fresh s). pages s r = None \<and> r \<noteq> INVALID_REF)"

definition lsi_at :: "column_store \<Rightarrow> 'p env \<Rightarrow> bool" where
  "lsi_at cs s \<longleftrightarrow> lsi_space_ref (s_last_slot_info s) = m_space_ref cs
     \<and> lsi_page_ref (s_last_slot_info s) = m_root_page_ref cs"

text \<open>The thread's hint is an index of the page and the search from it stays inside every page.\<close>

definition hint_ok :: "'p page_api \<Rightarrow> column_store \<Rightarrow> (page_ref \<Rightarrow> 'p option) \<Rightarrow> page_ref list \<Rightarrow> nat \<Rightarrow> bool" where
  "hint_ok P cs m dl h \<longleftrightarrow> h < m_max_num_recs (m_data cs)
     \<and> (\<forall>x\<in>set dl. 0 < num_free P (the (m x)) \<longrightarrow> hint_safe P (m_data cs) (the (m x)) h)"

text \<open>
  What an insert needs besides the invariant: new pages really are new, the page with the segments
  exists, and the hint of a thread that is at this store is safe.
\<close>

definition insert_ready :: "'p page_api \<Rightarrow> column_store \<Rightarrow> page_ref list \<Rightarrow> 'p env \<Rightarrow> bool" where
  "insert_ready P cs dl s \<longleftrightarrow> fresh_ok s \<and> pages s (m_primary_root_page_ref cs) \<noteq> None
     \<and> (lsi_at cs s \<longrightarrow> hint_ok P cs (pages s) dl (lsi_next_free_rec_hint (s_last_slot_info s)))"

text \<open>
  The assertions of the insert, relative to its initial state \<open>s0\<close> and data pages \<open>dl0\<close>:
  \<open>ins_base\<close> holds all along, \<open>ins_state\<close> until a page is allocated, \<open>ins_slot\<close>
  once a slot is chosen, \<open>ins_page\<close> when the page for the record is found, \<open>ins_error\<close>
  at every error return.
\<close>

definition ins_base ::
    "'p page_api \<Rightarrow> column_store \<Rightarrow> 'p env \<Rightarrow> page_ref list \<Rightarrow> (nat \<Rightarrow> page_ref list) \<Rightarrow> page_ref list \<Rightarrow> 'p env \<Rightarrow> bool" where
  "ins_base P cs s0 dl0 fl dl s \<longleftrightarrow> store_inv P cs (pages s) fl dl \<and> store_ext P cs (pages s0) dl0 (pages s) dl
     \<and> (faults s0 = [] \<longrightarrow> faults s = [])"

definition ins_state ::
    "'p page_api \<Rightarrow> column_store \<Rightarrow> 'p env \<Rightarrow> page_ref list \<Rightarrow> (nat \<Rightarrow> page_ref list) \<Rightarrow> 'p env \<Rightarrow> bool" where
  "ins_state P cs s0 dl0 fl s \<longleftrightarrow> ins_base P cs s0 dl0 fl dl0 s \<and> fresh s = fresh s0 \<and> fresh_ok s \<and> fresh_ok s0
     \<and> pages s (m_primary_root_page_ref cs) \<noteq> None"

definition ins_slot :: "'p page_api \<Rightarrow> column_store \<Rightarrow> 'p env \<Rightarrow> page_ref list \<Rightarrow> 'p env \<Rightarrow> bool" where
  "ins_slot P cs s0 dl0 s \<longleftrightarrow> lsi_at cs s
     \<and> lsi_slot_number (s_last_slot_info s) < cur_slots P (m_root cs) (the (pages s (m_root_page_ref cs)))
     \<and> hint_ok P cs (pages s0) dl0 (lsi_next_free_rec_hint (s_last_slot_info s))"

definition ins_page :: "'p page_api \<Rightarrow> column_store \<Rightarrow> 'p env \<Rightarrow> page_ref list \<Rightarrow> page_ref \<Rightarrow> 'p env \<Rightarrow> bool" where
  "ins_page P cs s0 dl0 x s \<longleftrightarrow> (\<exists>fl dl. ins_base P cs s0 dl0 fl dl s \<and> x \<in> set dl
     \<and> 0 < num_free P (the (pages s x)) \<and> (num_free P (the (pages s x)) = 1 \<longrightarrow> (\<forall>k. x \<notin> set (fl k)))
     \<and> latched s x \<and> lsi_at cs s \<and> lsi_next_free_rec_hint (s_last_slot_info s) < m_max_num_recs (m_data cs)
     \<and> hint_safe P (m_data cs) (the (pages s x)) (lsi_next_free_rec_hint (s_last_slot_info s)))"

definition ins_error :: "'p page_api \<Rightarrow> column_store \<Rightarrow> 'p env \<Rightarrow> page_ref list \<Rightarrow> store_error \<Rightarrow> 'p env \<Rightarrow> bool" where
  "ins_error P cs s0 dl0 e s \<longleftrightarrow> (faults s0 \<noteq> [] \<or> fresh s0 = [])
     \<and> (\<exists>fl dl. store_inv P cs (pages s) fl dl \<and> store_ext P cs (pages s0) dl0 (pages s) dl)"

named_theorems env_simps \<open>assertions that ignore latches, outcomes and random draws\<close>

lemma ins_env [env_simps]:
  "ins_base P cs s0 dl0 fl dl (s\<lparr>latches := l\<rparr>) = ins_base P cs s0 dl0 fl dl s"
  "ins_base P cs s0 dl0 fl dl (s\<lparr>draws := d\<rparr>) = ins_base P cs s0 dl0 fl dl s"
  "ins_base P cs s0 dl0 fl dl (s\<lparr>s_last_slot_info := i\<rparr>) = ins_base P cs s0 dl0 fl dl s"
  "ins_state P cs s0 dl0 fl (s\<lparr>latches := l\<rparr>) = ins_state P cs s0 dl0 fl s"
  "ins_state P cs s0 dl0 fl (s\<lparr>draws := d\<rparr>) = ins_state P cs s0 dl0 fl s"
  "ins_state P cs s0 dl0 fl (s\<lparr>s_last_slot_info := i\<rparr>) = ins_state P cs s0 dl0 fl s"
  "ins_slot P cs s0 dl0 (s\<lparr>latches := l\<rparr>) = ins_slot P cs s0 dl0 s"
  "ins_slot P cs s0 dl0 (s\<lparr>draws := d\<rparr>) = ins_slot P cs s0 dl0 s"
  "ins_slot P cs s0 dl0 (s\<lparr>faults := f\<rparr>) = ins_slot P cs s0 dl0 s"
  "ins_error P cs s0 dl0 e (s\<lparr>faults := f\<rparr>) = ins_error P cs s0 dl0 e s"
  "lsi_at cs (s\<lparr>latches := l\<rparr>) = lsi_at cs s"
  "lsi_at cs (s\<lparr>faults := f\<rparr>) = lsi_at cs s"
  by (simp_all add: ins_base_def ins_state_def ins_slot_def ins_error_def fresh_ok_def lsi_at_def)

lemma ins_faults:
  "ins_base P cs s0 dl0 fl dl s \<Longrightarrow> (faults s = [] \<longrightarrow> f = []) \<Longrightarrow> ins_base P cs s0 dl0 fl dl (s\<lparr>faults := f\<rparr>)"
  "ins_state P cs s0 dl0 fl s \<Longrightarrow> (faults s = [] \<longrightarrow> f = []) \<Longrightarrow> ins_state P cs s0 dl0 fl (s\<lparr>faults := f\<rparr>)"
  by (auto simp: ins_base_def ins_state_def fresh_ok_def)

lemma ins_failed:
  "ins_base P cs s0 dl0 fl dl s \<Longrightarrow> faults s \<noteq> [] \<Longrightarrow> ins_error P cs s0 dl0 e s"
  "ins_state P cs s0 dl0 fl s \<Longrightarrow> faults s \<noteq> [] \<or> fresh s = [] \<Longrightarrow> ins_error P cs s0 dl0 e s"
  by (auto simp: ins_base_def ins_state_def ins_error_def)

lemma ins_state_member:
  assumes "ins_state P cs s0 dl0 fl s"
  shows "pages s (m_root_page_ref cs) \<noteq> None" "x \<in> set dl0 \<Longrightarrow> pages s x \<noteq> None"
    "0 < cur_slots P (m_root cs) (the (pages s (m_root_page_ref cs)))"
proof -
  have si: "store_inv P cs (pages s) fl dl0" using assms by (simp add: ins_state_def ins_base_def)
  then have rl: "root_lists P (m_root cs) (pages s) (m_root_page_ref cs) fl dl0" by (simp add: store_inv_def)
  show "pages s (m_root_page_ref cs) \<noteq> None" "x \<in> set dl0 \<Longrightarrow> pages s x \<noteq> None"
    using root_lists_member(1,3) [OF rl] by auto
  show "0 < cur_slots P (m_root cs) (the (pages s (m_root_page_ref cs)))"
    using rl by (simp add: root_lists_def free_lists_def)
qed

lemma ins_state_primary: "ins_state P cs s0 dl0 fl s \<Longrightarrow> pages s (m_primary_root_page_ref cs) \<noteq> None"
  by (simp add: ins_state_def)

lemma has_last_free_slot_iff: "DataPage_has_last_free_slot P pg \<longleftrightarrow> num_free P pg = 1"
  by (simp add: DataPage_has_last_free_slot_def num_free_def word_unat_eq_iff)
context store_layout
begin

lemma load_state_triple:
  assumes "\<And>s. A s \<Longrightarrow> ins_state P cs s0 dl0 fl s \<and> pages s r \<noteq> None"
    and "\<And>s f. A s \<Longrightarrow> ins_state P cs s0 dl0 fl (s\<lparr>faults := f\<rparr>) \<Longrightarrow>
      Q () (s\<lparr>faults := f, latches := (latches s)(r := Some l)\<rparr>)"
  shows "triple A (load r l e) Q (ins_error P cs s0 dl0)"
proof (rule triple_load)
  fix s :: "'p env" and fs :: "bool list" assume "A s" "faults s = [] \<longrightarrow> fs = []"
  then show "Q () (s\<lparr>faults := fs, latches := (latches s)(r := Some l)\<rparr>)"
    using assms by (blast intro: ins_faults)
next
  fix s fs assume A: "A s" "faults s = [] \<longrightarrow> pages s r = None"
  with assms(1) [OF A(1)] have "ins_state P cs s0 dl0 fl s" "faults s \<noteq> []" by auto
  then show "ins_error P cs s0 dl0 e (s\<lparr>faults := fs\<rparr>)" by (simp add: env_simps ins_failed)
qed

lemma release_state_triple:
  assumes "\<And>s. A s \<Longrightarrow> ins_base P cs s0 dl0 fl dl s"
    and "\<And>s f. A s \<Longrightarrow> (faults s = [] \<longrightarrow> f = []) \<Longrightarrow> Q () (s\<lparr>faults := f, latches := (latches s)(r := None)\<rparr>)"
  shows "triple A (release r e) Q (ins_error P cs s0 dl0)"
proof (rule triple_release)
  fix s :: "'p env" and fs :: "bool list" assume A: "A s" and f: "faults s \<noteq> []"
  show "ins_error P cs s0 dl0 e (s\<lparr>faults := fs\<rparr>)"
    using ins_failed(1) [OF assms(1) [OF A] f] by (simp add: env_simps)
qed (use assms in auto)

text \<open>The chosen slot is the thread's slot, its head is what was read, and the hint is safe.\<close>

lemma page_select_triple:
  "triple (\<lambda>s. ins_state P cs s0 dl0 fl s \<and> latches s (m_root_page_ref cs) = Some l
      \<and> (lsi_at cs s \<longrightarrow> hint_ok P cs (pages s0) dl0 (lsi_next_free_rec_hint (s_last_slot_info s)))
      \<and> (\<forall>x\<in>set dl0. 0 < num_free P (the (pages s0 x)) \<longrightarrow> data_page_inv P (m_data cs) (the (pages s0 x))))
    (RootPage_page_select P (m_root cs) (m_root_page_ref cs) (m_space_ref cs))
    (\<lambda>(r, cur) s. ins_state P cs s0 dl0 fl s \<and> latches s (m_root_page_ref cs) = Some l \<and> ins_slot P cs s0 dl0 s
      \<and> r = slot_head P (m_root cs) (the (pages s (m_root_page_ref cs))) (lsi_slot_number (s_last_slot_info s))
      \<and> cur = cur_slots P (m_root cs) (the (pages s (m_root_page_ref cs)))) E"
  (is "triple ?A _ ?Q _")
  unfolding triple_def
proof (intro allI impI)
  fix s assume A: "?A s"
  let ?root = "m_root_page_ref cs"
  obtain rpg where r: "pages s ?root = Some rpg" using A ins_state_member(1) by blast
  have cur: "0 < cur_slots P (m_root cs) rpg" using A ins_state_member(3) r by fastforce
  obtain k ds lsi where sel: "RootPage_page_select P (m_root cs) ?root (m_space_ref cs) s
      = (s\<lparr>draws := ds, s_last_slot_info := lsi\<rparr>, Inr (slot_head P (m_root cs) rpg k, cur_slots P (m_root cs) rpg))"
    "k < cur_slots P (m_root cs) rpg" "lsi_space_ref lsi = m_space_ref cs" "lsi_page_ref lsi = ?root"
    "lsi_slot_number lsi = k" "lsi = s_last_slot_info s \<or> lsi_next_free_rec_hint lsi = 0"
    using page_select_run [OF r _ cur, of "m_space_ref cs"] A by (metis option.distinct(1))
  have "hint_ok P cs (pages s0) dl0 (lsi_next_free_rec_hint lsi)"
  proof (cases "lsi_next_free_rec_hint lsi = 0")
    case True
    have "0 < m_max_num_recs (m_data cs)" using layout by (simp add: layout_ok_def)
    with True A show ?thesis by (auto simp: hint_ok_def intro: hint_safe_0 page_has_free)
  next
    case False
    with sel have "lsi = s_last_slot_info s" by simp
    with sel A show ?thesis by (simp add: lsi_at_def)
  qed
  with sel r A show "case RootPage_page_select P (m_root cs) ?root (m_space_ref cs) s of
      (s', Inr x) \<Rightarrow> ?Q x s' | (s', Inl e) \<Rightarrow> E e s'"
    by (simp add: env_simps ins_slot_def lsi_at_def)
qed

end
context store_layout
begin

lemma formatted_page:
  fixes v :: byte and root :: page_ref and pg :: 'p
  assumes z: "\<And>k. FREE_BITMAP_OFF \<le> k \<Longrightarrow> get_data P pg k = 0"
  defines "pg' \<equiv> DataPage_format P (m_data cs) v root pg"
  shows "data_page_inv P (m_data cs) pg'" "DataPage_get_root_page_ref P pg' = root"
    "num_free P pg' = m_max_num_recs (m_data cs)"
    "i < m_max_num_recs (m_data cs) \<Longrightarrow> slot_at P (m_data cs) pg' i = Free"
proof -
  show "data_page_inv P (m_data cs) pg'" "i < m_max_num_recs (m_data cs) \<Longrightarrow> slot_at P (m_data cs) pg' i = Free"
    unfolding pg'_def using DataPage_format_inv [OF z] by simp_all
  show "DataPage_get_root_page_ref P pg' = root" "num_free P pg' = m_max_num_recs (m_data cs)"
    unfolding pg'_def using max_num_recs_le
    by (simp_all add: DataPage_get_root_page_ref_def num_free_def DataPage_format_reads unat_of_nat)
qed

lemma store_inv_add_page:
  assumes si: "store_inv P cs m fl dl" and k: "keeps_records P (m_root_page_ref cs) m m'"
    and rl: "root_lists P (m_root cs) m' (m_root_page_ref cs) fl (r # dl)"
    and inv: "data_page_inv P (m_data cs) (the (m r))" "DataPage_get_root_page_ref P (the (m r)) = m_root_page_ref cs"
  shows "store_inv P cs m' fl (r # dl)"
proof -
  have m: "m x \<noteq> None" "x \<noteq> m_root_page_ref cs" if "x \<in> set (r # dl)" for x
    using root_lists_member(3,4) [OF rl that] k by (auto simp: keeps_records_def)
  have sr: "same_records P (the (m x)) (the (m' x))" if "x \<in> set (r # dl)" for x
    using k m [OF that] by (simp add: keeps_records_def)
  have fl: "x \<in> set (r # dl)" if "x \<in> set (fl k)" for x k using root_lists_member(6) [OF rl that] .
  show ?thesis
    unfolding store_inv_def
  proof (intro conjI ballI allI)
    show "data_page_inv P (m_data cs) (the (m' x))" "DataPage_get_root_page_ref P (the (m' x)) = m_root_page_ref cs"
      if "x \<in> set (r # dl)" for x
      using si inv that same_records_slot(3) [OF sr [OF that]] sr [OF that]
      by (auto simp: store_inv_def same_records_def)
    show "0 < num_free P (the (m' x))" if "x \<in> set (fl k)" for k x
      using si that same_records_slot(2) [OF sr [OF fl [OF that]]] by (auto simp: store_inv_def)
  qed (rule rl)
qed

lemma store_ext_add_page:
  assumes ex: "store_ext P cs m0 dl0 m dl0" and k: "keeps_records P (m_root_page_ref cs) m m'"
    and u: "untouched (m_root_page_ref cs) (insert r (set dl0)) m m'"
    and rl: "root_lists P (m_root cs) m' (m_root_page_ref cs) fl (r # dl0)"
    and new: "m0 r = None" "r \<notin> set dl0" "\<And>i. i < m_max_num_recs (m_data cs) \<Longrightarrow> slot_at P (m_data cs) (the (m r)) i = Free"
  shows "store_ext P cs m0 dl0 m' (r # dl0)"
proof -
  have "m x \<noteq> None" "x \<noteq> m_root_page_ref cs" if "x \<in> set (r # dl0)" for x
    using root_lists_member(3,4) [OF rl that] k by (auto simp: keeps_records_def)
  then have sl: "slot_at P (m_data cs) (the (m' x)) i = slot_at P (m_data cs) (the (m x)) i"
    if "x \<in> set (r # dl0)" "i < m_max_num_recs (m_data cs)" for x i
    using k that by (intro same_records_slot) (auto simp: keeps_records_def)
  show ?thesis
    unfolding store_ext_def
  proof (intro conjI)
    show "\<exists>new. r # dl0 = new @ dl0 \<and> (\<forall>x\<in>set new. m0 x = None)" using new by (intro exI [of _ "[r]"]) simp
    show "\<forall>x\<in>set (r # dl0). \<forall>i<m_max_num_recs (m_data cs). slot_at P (m_data cs) (the (m' x)) i =
        (if x \<in> set dl0 then slot_at P (m_data cs) (the (m0 x)) i else Free)"
      using ex sl new by (auto simp: store_ext_def)
    show "\<forall>x. x \<noteq> m_root_page_ref cs \<longrightarrow> x \<notin> set (r # dl0) \<longrightarrow> m0 x \<noteq> None \<longrightarrow> m' x = m0 x"
      using ex u by (simp add: store_ext_def untouched_def)
  qed
qed

lemma cur_slots_add_data_page:
  "root \<noteq> data \<Longrightarrow> cur_slots P (m_root cs) (the (add_data_page_pages P (m_root cs) root data m root))
    = cur_slots P (m_root cs) (the (m root))"
  by (simp add: add_data_page_pages_def Let_def root_write_data_fields)

lemma hint_safe_empty_page:
  "(\<And>i. i < m_max_num_recs (m_data cs) \<Longrightarrow> slot_at P (m_data cs) pg i = Free) \<Longrightarrow> h < m_max_num_recs (m_data cs) \<Longrightarrow>
   hint_safe P (m_data cs) pg h"
  unfolding hint_safe_def by (intro disjI2 bexI [of _ "4 * (h div 4)"]) auto

end

text \<open>A page that has been allocated for the store but is not yet in its list.\<close>

definition ins_new ::
    "'p page_api \<Rightarrow> column_store \<Rightarrow> 'p env \<Rightarrow> page_ref list \<Rightarrow> (nat \<Rightarrow> page_ref list) \<Rightarrow> 'p \<Rightarrow> page_ref \<Rightarrow> 'p env \<Rightarrow> bool" where
  "ins_new P cs s0 dl0 fl pg r s \<longleftrightarrow> ins_base P cs s0 dl0 fl dl0 s \<and> ins_slot P cs s0 dl0 s
     \<and> pages s r = Some pg \<and> pages s0 r = None \<and> r \<notin> set dl0 \<and> r \<noteq> m_root_page_ref cs \<and> r \<noteq> INVALID_REF
     \<and> r \<noteq> m_primary_root_page_ref cs \<and> latched s (m_root_page_ref cs) \<and> latched s r"

context store_layout
begin

lemma load_new_triple:
  "triple (\<lambda>s. ins_state P cs s0 dl0 fl s \<and> latched s (m_root_page_ref cs) \<and> ins_slot P cs s0 dl0 s)
     (load_new P seg e) (ins_new P cs s0 dl0 fl (new_page P)) (ins_error P cs s0 dl0)"
  unfolding load_new_def
proof (rule triple_take_fresh)
  fix s :: "'p env" and fs :: "bool list" and r rs
  assume A: "ins_state P cs s0 dl0 fl s \<and> latched s (m_root_page_ref cs) \<and> ins_slot P cs s0 dl0 s"
    and fr: "fresh s = r # rs" and fs: "faults s = [] \<longrightarrow> fs = []"
  let ?s = "s\<lparr>faults := fs, fresh := rs, pages := (pages s)(r \<mapsto> new_page P), seg_of := (seg_of s)(r := Some seg),
    latches := (latches s)(r := Some EXCLUSIVE)\<rparr>"
  have si: "store_inv P cs (pages s) fl dl0" and ex: "store_ext P cs (pages s0) dl0 (pages s) dl0"
    using A by (auto simp: ins_state_def ins_base_def)
  have "fresh s0 = r # rs" "fresh_ok s" "fresh_ok s0" using A fr by (auto simp: ins_state_def)
  with fr have r: "pages s r = None" "r \<noteq> INVALID_REF" "pages s0 r = None"
    by (auto simp: fresh_ok_def)
  have mem: "r \<notin> set dl0" "r \<noteq> m_root_page_ref cs" "r \<noteq> m_primary_root_page_ref cs"
  proof -
    show "r \<notin> set dl0" using store_member(3) [OF si, of r] r(1) by blast
    show "r \<noteq> m_root_page_ref cs" "r \<noteq> m_primary_root_page_ref cs"
      using store_member(1) [OF si] r(1) A unfolding ins_state_def by metis+
  qed
  have "ins_base P cs s0 dl0 fl dl0 ?s"
    using A fs store_inv_other [OF si mem(2,1)] store_ext_other [OF ex r(3) mem(1)]
    by (auto simp: ins_state_def ins_base_def)
  with A mem r show "ins_new P cs s0 dl0 fl (new_page P) r ?s"
    by (auto simp: ins_new_def ins_slot_def lsi_at_def latched_def)
next
  fix s :: "'p env" and fs :: "bool list"
  assume "ins_state P cs s0 dl0 fl s \<and> latched s (m_root_page_ref cs) \<and> ins_slot P cs s0 dl0 s"
    and "faults s \<noteq> [] \<or> fresh s = []"
  then show "ins_error P cs s0 dl0 e (s\<lparr>faults := fs\<rparr>)" unfolding env_simps using ins_failed(2) by blast
qed

lemma format_new_triple:
  "triple (ins_new P cs s0 dl0 fl pg r) (upd r f) (\<lambda>_. ins_new P cs s0 dl0 fl (f pg) r) E"
proof (rule triple_upd)
  fix s pg' assume A: "ins_new P cs s0 dl0 fl pg r s" and pg: "pages s r = Some pg'"
  then have si: "store_inv P cs (pages s) fl dl0" and ex: "store_ext P cs (pages s0) dl0 (pages s) dl0"
    and r: "r \<noteq> m_root_page_ref cs" "r \<notin> set dl0" "pages s0 r = None" "pg' = pg"
    by (auto simp: ins_new_def ins_base_def)
  with A store_inv_other [OF si r(1,2)] store_ext_other [OF ex r(3,2)]
  show "ins_new P cs s0 dl0 fl (f pg) r (s\<lparr>pages := (pages s)(r \<mapsto> f pg')\<rparr>)"
    by (auto simp: ins_new_def ins_base_def ins_slot_def lsi_at_def latched_def)
qed (auto simp: ins_new_def latched_def)

text \<open>A new page in the list of the store, empty and not in any free list.\<close>

lemma add_new_page_triple:
  assumes pg: "data_page_inv P (m_data cs) pg" "DataPage_get_root_page_ref P pg = m_root_page_ref cs"
    "\<And>i. i < m_max_num_recs (m_data cs) \<Longrightarrow> slot_at P (m_data cs) pg i = Free" "num_free P pg = m_max_num_recs (m_data cs)"
  shows "triple (ins_new P cs s0 dl0 fl pg r) (RootPage_add_data_page P (m_root cs) (m_root_page_ref cs) r e)
    (\<lambda>_ s. ins_base P cs s0 dl0 fl (r # dl0) s \<and> ins_slot P cs s0 dl0 s \<and> latched s (m_root_page_ref cs) \<and> latched s r
       \<and> r \<notin> set dl0 \<and> num_free P (the (pages s r)) = m_max_num_recs (m_data cs)
       \<and> (\<forall>i < m_max_num_recs (m_data cs). slot_at P (m_data cs) (the (pages s r)) i = Free)
       \<and> (\<forall>k. r \<notin> set (fl k)))
    (ins_error P cs s0 dl0)"
proof (rule tripleI)
  fix s s' :: "'p env" and u
  assume A: "ins_new P cs s0 dl0 fl pg r s"
    and run: "RootPage_add_data_page P (m_root cs) (m_root_page_ref cs) r e s = (s', Inr u)"
  let ?root = "m_root_page_ref cs"
  from A have si: "store_inv P cs (pages s) fl dl0" and ex: "store_ext P cs (pages s0) dl0 (pages s) dl0"
    and r: "pages s r = Some pg" "pages s0 r = None" "r \<notin> set dl0" "r \<noteq> ?root" "r \<noteq> INVALID_REF"
    and la: "latched s ?root" "latched s r"
    by (auto simp: ins_new_def ins_base_def)
  have "pages s r \<noteq> None" using r by simp
  note op = add_data_page_op [OF store_inv_lists [OF si] la this r(4,5,3), of e, unfolded run]
  have fr: "env_frame s s'" and rl: "root_lists P (m_root cs) (pages s') ?root fl (r # dl0)"
    and k: "keeps_records P ?root (pages s) (pages s')" and un: "untouched ?root (insert r (set dl0)) (pages s) (pages s')"
    using op(1) by (auto simp: list_outcome_def)
  have m': "pages s' = add_data_page_pages P (m_root cs) ?root r (pages s)"
    using op(2) by (simp add: writes_or_fails_def)
  have inv: "data_page_inv P (m_data cs) (the (pages s r))" "DataPage_get_root_page_ref P (the (pages s r)) = ?root"
    using pg r by simp_all
  have "store_ext P cs (pages s0) dl0 (pages s') (r # dl0)"
    by (rule store_ext_add_page [OF ex k un rl r(2,3)]) (use pg r in simp)
  with store_inv_add_page [OF si k rl inv] A fr have "ins_base P cs s0 dl0 fl (r # dl0) s'"
    by (auto simp: ins_base_def ins_new_def env_frame_def)
  moreover have "ins_slot P cs s0 dl0 s'"
    using A fr cur_slots_add_data_page [of ?root r "pages s"] r(4)
    by (auto simp: ins_new_def ins_slot_def lsi_at_def env_frame_def m')
  moreover have "same_records P pg (the (pages s' r))"
    using k r by (metis keeps_records_def option.sel option.distinct(1))
  ultimately show "ins_base P cs s0 dl0 fl (r # dl0) s' \<and> ins_slot P cs s0 dl0 s' \<and> latched s' ?root \<and> latched s' r
       \<and> r \<notin> set dl0 \<and> num_free P (the (pages s' r)) = m_max_num_recs (m_data cs)
       \<and> (\<forall>i < m_max_num_recs (m_data cs). slot_at P (m_data cs) (the (pages s' r)) i = Free)
       \<and> (\<forall>k. r \<notin> set (fl k))"
    using same_records_slot pg la fr r store_member(6) [OF si] by (auto simp: env_frame_def latched_def)
next
  fix s s' :: "'p env" and e'
  assume A: "ins_new P cs s0 dl0 fl pg r s"
    and run: "RootPage_add_data_page P (m_root cs) (m_root_page_ref cs) r e s = (s', Inl e')"
  then have si: "store_inv P cs (pages s) fl dl0" and r: "pages s r \<noteq> None" "r \<noteq> m_root_page_ref cs" "r \<noteq> INVALID_REF" "r \<notin> set dl0"
    and la: "latched s (m_root_page_ref cs)" "latched s r" by (auto simp: ins_new_def ins_base_def)
  have "pages s' = pages s" "faults s \<noteq> []"
    using add_data_page_op(1) [OF store_inv_lists [OF si] la r, of e] run by (auto simp: list_outcome_def)
  with A show "ins_error P cs s0 dl0 e' s'"
    by (auto simp: ins_new_def ins_base_def ins_error_def)
qed

end
context store_layout
begin

lemma add_to_free_triple:
  "triple (\<lambda>s. ins_base P cs s0 dl0 fl (r # dl0) s \<and> ins_slot P cs s0 dl0 s \<and> latched s (m_root_page_ref cs) \<and> latched s r
       \<and> r \<notin> set dl0 \<and> num_free P (the (pages s r)) = m_max_num_recs (m_data cs)
       \<and> (\<forall>i < m_max_num_recs (m_data cs). slot_at P (m_data cs) (the (pages s r)) i = Free)
       \<and> m_max_num_recs (m_data cs) \<noteq> 1 \<and> (\<forall>k. r \<notin> set (fl k)) \<and> lsi = s_last_slot_info s)
    (RootPage_add_free_page P (m_root cs) (m_root_page_ref cs) r (lsi_slot_number lsi) e)
    (\<lambda>_. ins_page P cs s0 dl0 r) (ins_error P cs s0 dl0)"
  (is "triple ?A _ _ _")
proof (rule tripleI)
  fix s s' :: "'p env" and u
  assume A: "?A s" and run: "RootPage_add_free_page P (m_root cs) (m_root_page_ref cs) r (lsi_slot_number lsi) e s = (s', Inr u)"
  let ?root = "m_root_page_ref cs" and ?k = "lsi_slot_number lsi"
  from A have si: "store_inv P cs (pages s) fl (r # dl0)" and la: "latched s ?root" "latched s r"
    and k: "?k < cur_slots P (m_root cs) (the (pages s ?root))" and fl: "\<And>k. r \<notin> set (fl k)"
    by (auto simp: ins_base_def ins_slot_def)
  have mem: "r \<in> set (r # dl0)" by simp
  have fr: "env_frame s s'" and rl: "root_lists P (m_root cs) (pages s') ?root (fl(?k := r # fl ?k)) (r # dl0)"
    and kr: "keeps_records P ?root (pages s) (pages s')" and un: "untouched ?root (set (r # dl0)) (pages s) (pages s')"
    using add_free_page_op(1) [OF store_inv_lists [OF si] la k mem fl, of e] run by (auto simp: list_outcome_def)
  have pos: "0 < m_max_num_recs (m_data cs)" using layout by (simp add: layout_ok_def)
  have nf: "0 < num_free P (the (pages s x))" if "x \<in> set ((fl(?k := r # fl ?k)) j)" for j x
    using that si A pos by (auto simp: store_inv_def split: if_splits)
  have base: "ins_base P cs s0 dl0 (fl(?k := r # fl ?k)) (r # dl0) s'"
    using A fr store_inv_keeps [OF si kr rl nf] store_ext_keeps [OF _ si kr un]
    by (auto simp: ins_base_def env_frame_def)
  have sr: "same_records P (the (pages s r)) (the (pages s' r))"
    using kr store_member(3,4) [OF si mem] by (simp add: keeps_records_def)
  have h: "hint_safe P (m_data cs) (the (pages s' r)) (lsi_next_free_rec_hint (s_last_slot_info s'))"
    "lsi_next_free_rec_hint (s_last_slot_info s') < m_max_num_recs (m_data cs)"
    using A fr same_records_slot(1) [OF sr] by (auto simp: env_frame_def ins_slot_def hint_ok_def intro!: hint_safe_empty_page)
  show "ins_page P cs s0 dl0 r s'"
    unfolding ins_page_def
    using base h A fr same_records_slot(2) [OF sr] pos la
    by (intro exI [of _ "fl(?k := r # fl ?k)"] exI [of _ "r # dl0"])
      (auto simp: env_frame_def latched_def ins_slot_def lsi_at_def)
next
  fix s s' :: "'p env" and e'
  assume A: "?A s" and run: "RootPage_add_free_page P (m_root cs) (m_root_page_ref cs) r (lsi_slot_number lsi) e s = (s', Inl e')"
  let ?root = "m_root_page_ref cs" and ?k = "lsi_slot_number lsi"
  from A have si: "store_inv P cs (pages s) fl (r # dl0)" and la: "latched s ?root" "latched s r"
    and k: "?k < cur_slots P (m_root cs) (the (pages s ?root))" and fl: "\<And>k. r \<notin> set (fl k)"
    by (auto simp: ins_base_def ins_slot_def)
  have mem: "r \<in> set (r # dl0)" by simp
  have "pages s' = pages s" "faults s \<noteq> []"
    using add_free_page_op(1) [OF store_inv_lists [OF si] la k mem fl, of e] run by (auto simp: list_outcome_def)
  with A show "ins_error P cs s0 dl0 e' s'"
    by (auto simp: ins_base_def ins_error_def)
qed

lemma register_page_triple:
  "triple (\<lambda>s. ins_base P cs s0 dl0 fl (r # dl0) s \<and> ins_slot P cs s0 dl0 s \<and> latched s (m_root_page_ref cs) \<and> latched s r
       \<and> r \<notin> set dl0 \<and> num_free P (the (pages s r)) = m_max_num_recs (m_data cs)
       \<and> (\<forall>i < m_max_num_recs (m_data cs). slot_at P (m_data cs) (the (pages s r)) i = Free)
       \<and> (\<forall>k. r \<notin> set (fl k)) \<and> lsi = s_last_slot_info s \<and> data = the (pages s r))
    (when_op (\<not> DataPage_has_last_free_slot P data)
       (RootPage_add_free_page P (m_root cs) (m_root_page_ref cs) r (lsi_slot_number lsi) e))
    (\<lambda>_. ins_page P cs s0 dl0 r) (ins_error P cs s0 dl0)"
  (is "triple ?A _ _ _")
proof (rule triple_when)
  assume nl: "\<not> DataPage_has_last_free_slot P data"
  show "triple ?A (RootPage_add_free_page P (m_root cs) (m_root_page_ref cs) r (lsi_slot_number lsi) e)
      (\<lambda>_. ins_page P cs s0 dl0 r) (ins_error P cs s0 dl0)"
    by (rule triple_pre [OF add_to_free_triple [of s0 dl0 fl]])
      (use nl in \<open>auto simp: has_last_free_slot_iff\<close>)
next
  fix s :: "'p env" assume l: "\<not> \<not> DataPage_has_last_free_slot P data" and A: "?A s"
  then have "num_free P (the (pages s r)) = 1" by (simp add: has_last_free_slot_iff)
  with A show "ins_page P cs s0 dl0 r s"
    unfolding ins_page_def
    by (intro exI [of _ fl] exI [of _ "r # dl0"])
      (auto simp: ins_slot_def hint_ok_def intro!: hint_safe_empty_page)
qed

lemma new_data_page_triple:
  "triple (\<lambda>s. ins_state P cs s0 dl0 fl s \<and> latched s (m_root_page_ref cs) \<and> ins_slot P cs s0 dl0 s)
    (ColumnStore_new_data_page P cs) (ins_page P cs s0 dl0) (ins_error P cs s0 dl0)"
proof -
  let ?root = "m_root_page_ref cs" and ?prim = "m_primary_root_page_ref cs"
  let ?A = "\<lambda>s. ins_state P cs s0 dl0 fl s \<and> latched s ?root \<and> ins_slot P cs s0 dl0 s"
  let ?N = "\<lambda>r s. ins_base P cs s0 dl0 fl (r # dl0) s \<and> ins_slot P cs s0 dl0 s \<and> latched s ?root \<and> latched s r
       \<and> r \<notin> set dl0 \<and> num_free P (the (pages s r)) = m_max_num_recs (m_data cs)
       \<and> (\<forall>i < m_max_num_recs (m_data cs). slot_at P (m_data cs) (the (pages s r)) i = Free)
       \<and> (\<forall>k. r \<notin> set (fl k))"
  let ?E = "ins_error P cs s0 dl0"
  have z: "get_data P (new_page P) k = 0" if "FREE_BITMAP_OFF \<le> k" for k
    using that new_page_zero [of k] by (simp add: layout_defs)
  note fmt = formatted_page [OF z, where v = FORMAT_VERSION and root = ?root]
  have t1: "triple ?A (when_op (?prim \<noteq> ?root) (load ?prim EXCLUSIVE e)) (\<lambda>_. ?A) ?E" for e
    by (rule triple_when, rule load_state_triple) (auto simp: env_simps latched_def dest: ins_state_primary)
  have t3: "triple (ins_new P cs s0 dl0 fl pg r) (when_op (?prim \<noteq> ?root) (release ?prim e))
      (\<lambda>_. ins_new P cs s0 dl0 fl pg r) ?E" for e r pg
    by (rule triple_when, rule release_state_triple)
      (auto simp: ins_new_def env_simps latched_def intro: ins_faults)
  have t6: "triple (?N r) (peek r) (\<lambda>data s. ?N r s \<and> data = the (pages s r)) ?E" for r
    by (rule triple_peek) (auto simp: latched_def ins_base_def dest: store_member(3))
  have t7: "triple (\<lambda>s. ?N r s \<and> data = the (pages s r)) (gets s_last_slot_info)
      (\<lambda>lsi s. ?N r s \<and> lsi = s_last_slot_info s \<and> data = the (pages s r)) ?E" for r data
    by (rule triple_gets) simp
  have t8: "triple (\<lambda>s. ?N r s \<and> lsi = s_last_slot_info s \<and> data = the (pages s r))
      (when_op (\<not> DataPage_has_last_free_slot P data) (RootPage_add_free_page P (m_root cs) ?root r (lsi_slot_number lsi) e))
      (\<lambda>_. ins_page P cs s0 dl0 r) ?E" for r data lsi e
    by (rule triple_pre [OF register_page_triple [of s0 dl0 fl]]) simp
  have t9: "triple (ins_page P cs s0 dl0 r) (ret r) (ins_page P cs s0 dl0) ?E" for r
    by (rule triple_ret)
  show ?thesis
    unfolding ColumnStore_new_data_page_def Let_def
    by (intro triple_bind [OF t1] triple_bind [OF load_new_triple] triple_bind [OF t3] triple_bind [OF format_new_triple]
        triple_bind [OF add_new_page_triple] triple_bind [OF t6] triple_bind [OF t7] triple_bind [OF t8] t9 fmt)
qed

end
text \<open>A page from the free list of the thread's slot, latched for the insert.\<close>

definition ins_listed ::
    "'p page_api \<Rightarrow> column_store \<Rightarrow> 'p env \<Rightarrow> page_ref list \<Rightarrow> (nat \<Rightarrow> page_ref list) \<Rightarrow> page_ref \<Rightarrow> 'p env \<Rightarrow> bool" where
  "ins_listed P cs s0 dl0 fl r s \<longleftrightarrow> ins_state P cs s0 dl0 fl s \<and> ins_slot P cs s0 dl0 s \<and> latched s r
     \<and> (\<exists>k. r \<in> set (fl k))"

lemma ins_listed_latched: "ins_listed P cs s0 dl0 fl r s \<Longrightarrow> latched s r"
  by (simp add: ins_listed_def)

lemma ins_state_base: "ins_state P cs s0 dl0 fl s \<Longrightarrow> ins_base P cs s0 dl0 fl dl0 s"
  by (simp add: ins_state_def)

context store_layout
begin

lemma num_free_count:
  "data_page_inv P (m_data cs) pg \<Longrightarrow>
   num_free P pg = count_below (m_max_num_recs (m_data cs)) (\<lambda>i. slot_at P (m_data cs) pg i = Free)"
  by (simp add: data_page_inv_def num_free_def)

text \<open>A page of the store has the same free records and the same safe hints as at the start.\<close>

lemma ins_hint_safe:
  assumes D: "\<forall>x\<in>set dl0. data_page_inv P (m_data cs) (the (pages s0 x))"
    and b: "ins_base P cs s0 dl0 fl dl0 s" and sl: "ins_slot P cs s0 dl0 s" and x: "x \<in> set dl0" "0 < num_free P (the (pages s x))"
  shows "hint_safe P (m_data cs) (the (pages s x)) (lsi_next_free_rec_hint (s_last_slot_info s))"
    and "lsi_next_free_rec_hint (s_last_slot_info s) < m_max_num_recs (m_data cs)"
proof -
  have eq: "slot_at P (m_data cs) (the (pages s x)) i = slot_at P (m_data cs) (the (pages s0 x)) i"
    if "i < m_max_num_recs (m_data cs)" for i
    using b x(1) that by (simp add: ins_base_def store_ext_def)
  have "data_page_inv P (m_data cs) (the (pages s x))" using b x(1) by (simp add: ins_base_def store_inv_def)
  then have "num_free P (the (pages s x)) = num_free P (the (pages s0 x))"
    using D x(1) eq by (simp add: num_free_count cong: count_below_cong)
  with x sl show "hint_safe P (m_data cs) (the (pages s x)) (lsi_next_free_rec_hint (s_last_slot_info s))"
    using hint_safe_cong [OF eq] by (simp add: ins_slot_def hint_ok_def)
  show "lsi_next_free_rec_hint (s_last_slot_info s) < m_max_num_recs (m_data cs)"
    using sl by (simp add: ins_slot_def hint_ok_def)
qed

lemma ins_listed_member:
  assumes "ins_listed P cs s0 dl0 fl r s"
  shows "r \<in> set dl0" "pages s r \<noteq> None" "r \<noteq> m_root_page_ref cs" "0 < num_free P (the (pages s r))"
proof -
  obtain k where si: "store_inv P cs (pages s) fl dl0" and k: "r \<in> set (fl k)"
    using assms by (auto simp: ins_listed_def ins_state_def ins_base_def)
  show d: "r \<in> set dl0" by (rule store_member(6) [OF si k])
  show "pages s r \<noteq> None" "r \<noteq> m_root_page_ref cs" using store_member(3,4) [OF si d] by auto
  show "0 < num_free P (the (pages s r))" using si k by (auto simp: store_inv_def)
qed

lemma ins_listed_page:
  assumes D: "\<forall>x\<in>set dl0. data_page_inv P (m_data cs) (the (pages s0 x))"
    and A: "ins_listed P cs s0 dl0 fl r s" "num_free P (the (pages s r)) \<noteq> 1"
  shows "ins_page P cs s0 dl0 r s"
proof -
  note m = ins_listed_member [OF A(1)]
  from A have b: "ins_base P cs s0 dl0 fl dl0 s" "ins_slot P cs s0 dl0 s" by (auto simp: ins_listed_def ins_state_def)
  show ?thesis
    unfolding ins_page_def
    using A m b ins_hint_safe [OF D b m(1,4)]
    by (intro exI [of _ fl] exI [of _ dl0]) (auto simp: ins_listed_def ins_slot_def)
qed

lemma remove_full_triple:
  assumes D: "\<forall>x\<in>set dl0. data_page_inv P (m_data cs) (the (pages s0 x))"
  shows "triple (\<lambda>s. ins_listed P cs s0 dl0 fl r s \<and> latched s (m_root_page_ref cs) \<and> num_free P (the (pages s r)) = 1)
    (RootPage_remove_free_page P (m_root cs) (m_root_page_ref cs) r e)
    (\<lambda>_. ins_page P cs s0 dl0 r) (ins_error P cs s0 dl0)"
  (is "triple ?A _ _ _")
proof (rule tripleI)
  fix s s' :: "'p env" and u
  assume A: "?A s" and run: "RootPage_remove_free_page P (m_root cs) (m_root_page_ref cs) r e s = (s', Inr u)"
  let ?root = "m_root_page_ref cs"
  from A obtain k where k: "r \<in> set (fl k)" and si: "store_inv P cs (pages s) fl dl0"
    and ex: "store_ext P cs (pages s0) dl0 (pages s) dl0"
    and la: "latched s ?root" "latched s r" and l: "ins_listed P cs s0 dl0 fl r s"
    by (auto simp: ins_listed_def ins_state_def ins_base_def)
  note m = ins_listed_member [OF l]
  let ?fl = "fl(k := remove1 r (fl k))"
  have fr: "env_frame s s'" and rl: "root_lists P (m_root cs) (pages s') ?root ?fl dl0"
    and kr: "keeps_records P ?root (pages s) (pages s')" and un: "untouched ?root (set dl0) (pages s) (pages s')"
    using remove_free_page_op(1) [OF store_inv_lists [OF si] la k, of e] run by (auto simp: list_outcome_def)
  have sub: "set (?fl j) \<subseteq> set (fl j)" for j by (simp add: set_remove1_subset)
  have nf: "0 < num_free P (the (pages s x))" if "x \<in> set (?fl j)" for j x
  proof -
    have "x \<in> set (fl j)" using that sub by blast
    then show ?thesis using si unfolding store_inv_def by blast
  qed
  have base: "ins_base P cs s0 dl0 ?fl dl0 s'"
    using A fr store_inv_keeps [OF si kr rl nf] store_ext_keeps [OF ex si kr un]
    by (auto simp: ins_base_def ins_listed_def ins_state_def env_frame_def)
  have flp: "free_lists P (m_root cs) (pages s) ?root fl" using store_inv_lists [OF si] by (simp add: root_lists_def)
  have out: "r \<notin> set (?fl j)" for j
  proof (cases "j = k")
    case True
    have "distinct (fl k)" using free_lists_slot(2) [OF flp k] by (simp add: free_list_def)
    with True show ?thesis by simp
  next
    case False
    with free_lists_disjoint [OF flp k] show ?thesis by auto
  qed
  have sr: "same_records P (the (pages s r)) (the (pages s' r))"
    using kr m by (simp add: keeps_records_def)
  have h: "hint_safe P (m_data cs) (the (pages s' r)) (lsi_next_free_rec_hint (s_last_slot_info s'))"
    "lsi_next_free_rec_hint (s_last_slot_info s') < m_max_num_recs (m_data cs)"
    using ins_hint_safe [OF D _ _ m(1,4)] l fr hint_safe_cong [OF same_records_slot(1) [OF sr]]
    by (auto simp: ins_listed_def ins_state_def env_frame_def)
  show "ins_page P cs s0 dl0 r s'"
    unfolding ins_page_def
    using base out h m A fr same_records_slot(2) [OF sr] la
    by (intro exI [of _ ?fl] exI [of _ dl0])
      (auto simp: env_frame_def latched_def ins_listed_def ins_slot_def lsi_at_def)
next
  fix s s' :: "'p env" and e'
  assume A: "?A s" and run: "RootPage_remove_free_page P (m_root cs) (m_root_page_ref cs) r e s = (s', Inl e')"
  from A obtain k where k: "r \<in> set (fl k)" and si: "store_inv P cs (pages s) fl dl0"
    and la: "latched s (m_root_page_ref cs)" "latched s r"
    by (auto simp: ins_listed_def ins_state_def ins_base_def)
  have "pages s' = pages s" "faults s \<noteq> []"
    using remove_free_page_op(1) [OF store_inv_lists [OF si] la k, of e] run by (auto simp: list_outcome_def)
  with A show "ins_error P cs s0 dl0 e' s'"
    by (auto simp: ins_listed_def ins_state_def ins_base_def ins_error_def)
qed

lemma grow_triple:
  "triple (\<lambda>s. ins_state P cs s0 dl0 fl s \<and> ins_slot P cs s0 dl0 s \<and> latched s (m_root_page_ref cs))
    (upd (m_root_page_ref cs) (RootPage_grow_free_slots P (m_root cs)))
    (\<lambda>_ s. ins_state P cs s0 dl0 fl s \<and> ins_slot P cs s0 dl0 s \<and> latched s (m_root_page_ref cs)) E"
  (is "triple ?A _ _ _")
proof (rule triple_upd)
  fix s pg assume A: "?A s" and pg: "pages s (m_root_page_ref cs) = Some pg"
  let ?root = "m_root_page_ref cs" and ?pg = "RootPage_grow_free_slots P (m_root cs) pg"
  from A have si: "store_inv P cs (pages s) fl dl0" and ex: "store_ext P cs (pages s0) dl0 (pages s) dl0"
    by (auto simp: ins_state_def ins_base_def)
  note g = grow_free_slots_root_lists [OF store_inv_lists [OF si] pg]
  have nf: "0 < num_free P (the (pages s x))" if "x \<in> set (fl k)" for k x using si that by (auto simp: store_inv_def)
  have un: "untouched ?root (set dl0) (pages s) ((pages s)(?root \<mapsto> ?pg))" by (simp add: untouched_def)
  have cur: "cur_slots P (m_root cs) pg \<le> m_max_free_slots (m_root cs)"
    using store_inv_lists [OF si] pg by (simp add: root_lists_def free_lists_def)
  have "cur_slots P (m_root cs) pg \<le> cur_slots P (m_root cs) ?pg"
    using grow_free_slots_reads(1) [OF cur] cur by (simp add: grown_slots_def)
  with A pg store_inv_keeps [OF si g(2,1) nf] store_ext_keeps [OF ex si g(2) un]
  show "ins_state P cs s0 dl0 fl (s\<lparr>pages := (pages s)(?root \<mapsto> ?pg)\<rparr>)
      \<and> ins_slot P cs s0 dl0 (s\<lparr>pages := (pages s)(?root \<mapsto> ?pg)\<rparr>) \<and> latched (s\<lparr>pages := (pages s)(?root \<mapsto> ?pg)\<rparr>) ?root"
    by (auto simp: ins_state_def ins_base_def ins_slot_def lsi_at_def latched_def fresh_ok_def)
qed (auto simp: latched_def dest: ins_state_member(1))

end
context store_layout
begin

text \<open>The slot chosen by \<open>page_select\<close> is empty or its head is a listed page.\<close>

lemma slot_head_listed:
  assumes A: "ins_state P cs s0 dl0 fl s" "ins_slot P cs s0 dl0 s"
    and r: "r = slot_head P (m_root cs) (the (pages s (m_root_page_ref cs))) (lsi_slot_number (s_last_slot_info s))"
      "r \<noteq> INVALID_REF"
  shows "\<exists>k. r \<in> set (fl k)" "pages s r \<noteq> None" "r \<noteq> m_root_page_ref cs"
proof -
  have si: "store_inv P cs (pages s) fl dl0" using A by (simp add: ins_state_def ins_base_def)
  note h = root_lists_slot_head [OF store_inv_lists [OF si], of "lsi_slot_number (s_last_slot_info s)"]
  have k: "lsi_slot_number (s_last_slot_info s) < cur_slots P (m_root cs) (the (pages s (m_root_page_ref cs)))"
    using A by (simp add: ins_slot_def)
  show "\<exists>k. r \<in> set (fl k)" "pages s r \<noteq> None" "r \<noteq> m_root_page_ref cs"
    using h(2-4) [OF k] r by auto
qed

lemma select_pre:
  "\<forall>x\<in>set dl0. data_page_inv P (m_data cs) (the (pages s0 x)) \<Longrightarrow>
   triple (\<lambda>s. ins_state P cs s0 dl0 fl s \<and> latches s (m_root_page_ref cs) = Some l \<and> ins_slot P cs s0 dl0 s)
    (RootPage_page_select P (m_root cs) (m_root_page_ref cs) (m_space_ref cs))
    (\<lambda>(r, cur) s. ins_state P cs s0 dl0 fl s \<and> latches s (m_root_page_ref cs) = Some l \<and> ins_slot P cs s0 dl0 s
      \<and> r = slot_head P (m_root cs) (the (pages s (m_root_page_ref cs))) (lsi_slot_number (s_last_slot_info s))
      \<and> cur = cur_slots P (m_root cs) (the (pages s (m_root_page_ref cs)))) E"
  by (rule triple_pre [OF page_select_triple]) (auto simp: ins_slot_def)

lemma listed_page_triple:
  assumes D: "\<forall>x\<in>set dl0. data_page_inv P (m_data cs) (the (pages s0 x))"
  shows "triple (\<lambda>s. ins_state P cs s0 dl0 fl s \<and> latched s (m_root_page_ref cs) \<and> ins_slot P cs s0 dl0 s
      \<and> r = slot_head P (m_root cs) (the (pages s (m_root_page_ref cs))) (lsi_slot_number (s_last_slot_info s))
      \<and> r \<noteq> INVALID_REF)
    (bind_op (load r EXCLUSIVE e1) (\<lambda>_. bind_op (peek r) (\<lambda>data.
     bind_op (when_op (DataPage_has_last_free_slot P data)
       (RootPage_remove_free_page P (m_root cs) (m_root_page_ref cs) r e2)) (\<lambda>_. ret r))))
    (ins_page P cs s0 dl0) (ins_error P cs s0 dl0)"
    (is "triple ?A _ ?Q ?E")
proof -
  let ?L = "\<lambda>s. ins_listed P cs s0 dl0 fl r s \<and> latched s (m_root_page_ref cs)"
  have t1: "triple ?A (load r EXCLUSIVE e1) (\<lambda>_. ?L) ?E"
  proof (rule load_state_triple)
    show "ins_state P cs s0 dl0 fl s \<and> pages s r \<noteq> None" if "?A s" for s
      using that slot_head_listed(2) [of s0 dl0 fl s r] by blast
    show "?L (s\<lparr>faults := f, latches := (latches s)(r \<mapsto> EXCLUSIVE)\<rparr>)"
      if "?A s" "ins_state P cs s0 dl0 fl (s\<lparr>faults := f\<rparr>)" for s f
    proof -
      have "\<exists>k. r \<in> set (fl k)" "r \<noteq> m_root_page_ref cs"
        using that slot_head_listed(1,3) [of s0 dl0 fl s r] by blast+
      with that show ?thesis by (simp add: ins_listed_def env_simps latched_def)
    qed
  qed
  have t2: "triple ?L (peek r) (\<lambda>data s. ?L s \<and> data = the (pages s r)) ?E"
    by (rule triple_peek) (auto simp: latched_def dest: ins_listed_member(2) ins_listed_latched)
  have t3: "triple (\<lambda>s. ?L s \<and> data = the (pages s r))
      (when_op (DataPage_has_last_free_slot P data) (RootPage_remove_free_page P (m_root cs) (m_root_page_ref cs) r e2))
      (\<lambda>_. ins_page P cs s0 dl0 r) ?E" for data
  proof (rule triple_when)
    show "triple (\<lambda>s. ?L s \<and> data = the (pages s r)) (RootPage_remove_free_page P (m_root cs) (m_root_page_ref cs) r e2)
        (\<lambda>_. ins_page P cs s0 dl0 r) ?E" if "DataPage_has_last_free_slot P data"
      by (rule triple_pre [OF remove_full_triple [OF D]]) (use that in \<open>auto simp: has_last_free_slot_iff\<close>)
    show "ins_page P cs s0 dl0 r s" if "\<not> DataPage_has_last_free_slot P data" "?L s \<and> data = the (pages s r)" for s
      using that by (intro ins_listed_page [OF D]) (auto simp: has_last_free_slot_iff)
  qed
  have t4: "triple (ins_page P cs s0 dl0 r) (ret r) (ins_page P cs s0 dl0) ?E" by (rule triple_ret)
  show ?thesis by (intro triple_bind [OF t1] triple_bind [OF t2] triple_bind [OF t3] t4)
qed

lemma pessimistic_page_triple:
  assumes D: "\<forall>x\<in>set dl0. data_page_inv P (m_data cs) (the (pages s0 x))"
  shows "triple (\<lambda>s. ins_state P cs s0 dl0 fl s \<and> ins_slot P cs s0 dl0 s)
    (ColumnStore_pessimistic_page P cs need_grow) (ins_page P cs s0 dl0) (ins_error P cs s0 dl0)"
proof -
  let ?root = "m_root_page_ref cs" and ?E = "ins_error P cs s0 dl0"
  let ?A = "\<lambda>s. ins_state P cs s0 dl0 fl s \<and> ins_slot P cs s0 dl0 s"
  let ?B = "\<lambda>s. ins_state P cs s0 dl0 fl s \<and> ins_slot P cs s0 dl0 s \<and> latched s ?root"
  let ?S = "\<lambda>(r, cur) s. ins_state P cs s0 dl0 fl s \<and> latches s ?root = Some EXCLUSIVE \<and> ins_slot P cs s0 dl0 s
      \<and> r = slot_head P (m_root cs) (the (pages s ?root)) (lsi_slot_number (s_last_slot_info s))
      \<and> cur = cur_slots P (m_root cs) (the (pages s ?root))"
  have t1: "triple ?A (release ?root e) (\<lambda>_. ?A) ?E" for e
    by (rule release_state_triple [of _ _ _ fl dl0]) (auto simp: env_simps dest: ins_state_base intro: ins_faults)
  have t2: "triple ?A (load ?root EXCLUSIVE e) (\<lambda>_. ?B) ?E" for e
    by (rule load_state_triple) (auto simp: env_simps latched_def dest: ins_state_member(1))
  have t3: "triple ?B (when_op need_grow (upd ?root (RootPage_grow_free_slots P (m_root cs)))) (\<lambda>_. ?B) ?E"
    by (rule triple_when, rule grow_triple) simp
  have t4: "triple ?B (RootPage_page_select P (m_root cs) ?root (m_space_ref cs)) ?S ?E"
    by (rule triple_pre [OF select_pre [OF D]]) (simp add: latched_def)
  have t5: "triple (?S x) (case x of (r, cur) \<Rightarrow>
      if r = INVALID_REF then ColumnStore_new_data_page P cs
      else bind_op (load r EXCLUSIVE e1) (\<lambda>_. bind_op (peek r) (\<lambda>data.
        bind_op (when_op (DataPage_has_last_free_slot P data) (RootPage_remove_free_page P (m_root cs) ?root r e2)) (\<lambda>_.
        ret r)))) (ins_page P cs s0 dl0) ?E" for x e1 e2
  proof (cases x)
    case (Pair r cur)
    show ?thesis
    proof (cases "r = INVALID_REF")
      case True
      with Pair show ?thesis
        by (simp, intro triple_pre [OF new_data_page_triple]) (auto simp: latched_def)
    next
      case False
      with Pair show ?thesis
        by (simp, intro triple_pre [OF listed_page_triple [OF D]]) (auto simp: latched_def)
    qed
  qed
  show ?thesis
    unfolding ColumnStore_pessimistic_page_def Let_def
    by (intro triple_bind [OF t1] triple_bind [OF t2] triple_bind [OF t3] triple_bind [OF t4] t5)
qed

end
context store_layout
begin

lemma select_page_triple:
  assumes D: "\<forall>x\<in>set dl0. data_page_inv P (m_data cs) (the (pages s0 x))"
  shows "triple (\<lambda>s. ins_state P cs s0 dl0 fl s
      \<and> (lsi_at cs s \<longrightarrow> hint_ok P cs (pages s0) dl0 (lsi_next_free_rec_hint (s_last_slot_info s))))
    (ColumnStore_select_page P cs concurrency) (ins_page P cs s0 dl0) (ins_error P cs s0 dl0)"
    (is "triple ?A _ _ _")
proof -
  let ?root = "m_root_page_ref cs" and ?E = "ins_error P cs s0 dl0"
  let ?C = "\<lambda>s. ins_state P cs s0 dl0 fl s \<and> ins_slot P cs s0 dl0 s"
  let ?S = "\<lambda>(r, cur) s. ins_state P cs s0 dl0 fl s \<and> latches s ?root = Some SHARED \<and> ins_slot P cs s0 dl0 s
      \<and> r = slot_head P (m_root cs) (the (pages s ?root)) (lsi_slot_number (s_last_slot_info s))
      \<and> cur = cur_slots P (m_root cs) (the (pages s ?root))"
  let ?L = "\<lambda>r s. ins_listed P cs s0 dl0 fl r s"
  have t1: "triple ?A (load ?root SHARED e) (\<lambda>_ s. ?A s \<and> latches s ?root = Some SHARED) ?E" for e
    by (rule load_state_triple) (auto simp: env_simps dest: ins_state_member(1))
  have t2: "triple (\<lambda>s. ?A s \<and> latches s ?root = Some SHARED) (RootPage_page_select P (m_root cs) ?root (m_space_ref cs)) ?S ?E"
    by (rule triple_pre [OF page_select_triple]) (use D in auto)
  have u1: "triple (\<lambda>s. ?S (r, cur) s \<and> r \<noteq> INVALID_REF) (load r EXCLUSIVE e) (\<lambda>_. ?L r) ?E" for r cur e
  proof (rule load_state_triple)
    show "ins_state P cs s0 dl0 fl s \<and> pages s r \<noteq> None" if "?S (r, cur) s \<and> r \<noteq> INVALID_REF" for s
      using that slot_head_listed(2) [of s0 dl0 fl s r] by auto
    show "?L r (s\<lparr>faults := f, latches := (latches s)(r \<mapsto> EXCLUSIVE)\<rparr>)"
      if "?S (r, cur) s \<and> r \<noteq> INVALID_REF" "ins_state P cs s0 dl0 fl (s\<lparr>faults := f\<rparr>)" for s f
      using that slot_head_listed(1) [of s0 dl0 fl s r] by (auto simp: ins_listed_def env_simps latched_def)
  qed
  have u2: "triple (?L r) (peek r) (\<lambda>data s. ?L r s \<and> data = the (pages s r)) ?E" for r
    by (rule triple_peek) (auto simp: latched_def dest: ins_listed_member(2) ins_listed_latched)
  have u3: "triple (\<lambda>s. ?L r s \<and> data = the (pages s r))
      (if DataPage_has_last_free_slot P data then bind_op (release r e) (\<lambda>_. ret True) else ret False)
      (\<lambda>np s. if np then ?C s else ?L r s \<and> num_free P (the (pages s r)) \<noteq> 1) ?E" for r data e
  proof (rule triple_if)
    show "triple (\<lambda>s. ?L r s \<and> data = the (pages s r)) (bind_op (release r e) (\<lambda>_. ret True))
        (\<lambda>np s. if np then ?C s else ?L r s \<and> num_free P (the (pages s r)) \<noteq> 1) ?E"
      by (rule triple_bind [OF release_state_triple [of _ _ _ fl dl0, where Q = "\<lambda>_. ?C"]])
        (auto simp: ins_listed_def env_simps dest: ins_state_base intro: ins_faults triple_ret)
    show "triple (\<lambda>s. ?L r s \<and> data = the (pages s r)) (ret False)
        (\<lambda>np s. if np then ?C s else ?L r s \<and> num_free P (the (pages s r)) \<noteq> 1) ?E"
      if "\<not> DataPage_has_last_free_slot P data"
      by (rule triple_ret) (use that in \<open>auto simp: has_last_free_slot_iff\<close>)
  qed
  have t3: "triple (?S (r, cur)) (if \<not> ng \<and> r \<noteq> INVALID_REF then
         bind_op (load r EXCLUSIVE e1) (\<lambda>_. bind_op (peek r) (\<lambda>data.
         if DataPage_has_last_free_slot P data then bind_op (release r e2) (\<lambda>_. ret True) else ret False))
       else ret True) (\<lambda>np s. if np then ?C s else ?L r s \<and> num_free P (the (pages s r)) \<noteq> 1) ?E" for r cur ng e1 e2
  proof (rule triple_if)
    assume "\<not> ng \<and> r \<noteq> INVALID_REF"
    then show "triple (?S (r, cur)) (bind_op (load r EXCLUSIVE e1) (\<lambda>_. bind_op (peek r) (\<lambda>data.
         if DataPage_has_last_free_slot P data then bind_op (release r e2) (\<lambda>_. ret True) else ret False)))
         (\<lambda>np s. if np then ?C s else ?L r s \<and> num_free P (the (pages s r)) \<noteq> 1) ?E"
      by (intro triple_pre [OF triple_bind [OF u1 triple_bind [OF u2 u3]]]) auto
  next
    show "triple (?S (r, cur)) (ret True) (\<lambda>np s. if np then ?C s else ?L r s \<and> num_free P (the (pages s r)) \<noteq> 1) ?E"
      by (rule triple_ret) auto
  qed
  have t4: "triple (\<lambda>s. if np then ?C s else ?L r s \<and> num_free P (the (pages s r)) \<noteq> 1)
      (if np then ColumnStore_pessimistic_page P cs ng else bind_op (release ?root e) (\<lambda>_. ret r))
      (ins_page P cs s0 dl0) ?E" for np ng r e
  proof (cases np)
    case True
    then show ?thesis using pessimistic_page_triple [OF D, of fl ng] by simp
  next
    case False
    have r: "triple (\<lambda>s. ?L r s \<and> num_free P (the (pages s r)) \<noteq> 1) (release ?root e) (\<lambda>_. ins_page P cs s0 dl0 r) ?E"
    proof (rule release_state_triple [of _ _ _ fl dl0])
      fix s :: "'p env" and f :: "bool list" assume L: "?L r s \<and> num_free P (the (pages s r)) \<noteq> 1" and f: "faults s = [] \<longrightarrow> f = []"
      have "ins_listed P cs s0 dl0 fl r (s\<lparr>faults := f, latches := (latches s)(?root := None)\<rparr>)"
        using L f ins_listed_member(3) [of s0 dl0 fl r s]
        by (auto simp: ins_listed_def env_simps latched_def intro: ins_faults)
      then show "ins_page P cs s0 dl0 r (s\<lparr>faults := f, latches := (latches s)(?root := None)\<rparr>)"
        by (rule ins_listed_page [OF D]) (use L in simp)
    qed (auto simp: ins_listed_def dest: ins_state_base)
    have "triple (ins_page P cs s0 dl0 r) (ret r) (ins_page P cs s0 dl0) ?E" by (rule triple_ret)
    then show ?thesis using False triple_bind [OF r] by simp
  qed
  have t5: "triple (?S x) (case x of (data_page_ref, cur_free_slots) \<Rightarrow>
     let need_grow = (concurrency > cur_free_slots \<and> cur_free_slots < m_max_free_slots (m_root cs)) in
     bind_op (if \<not> need_grow \<and> data_page_ref \<noteq> INVALID_REF then
         bind_op (load data_page_ref EXCLUSIVE e1) (\<lambda>_.
         bind_op (peek data_page_ref) (\<lambda>data.
         if DataPage_has_last_free_slot P data then bind_op (release data_page_ref e2) (\<lambda>_. ret True) else ret False))
       else ret True) (\<lambda>need_pessimistic.
     if need_pessimistic then ColumnStore_pessimistic_page P cs need_grow
     else bind_op (release ?root e3) (\<lambda>_. ret data_page_ref))) (ins_page P cs s0 dl0) ?E" for x e1 e2 e3
    by (cases x) (simp only: prod.case Let_def, rule triple_bind [OF t3 t4, simplified prod.case])
  show ?thesis
    unfolding ColumnStore_select_page_def Let_def
    by (intro triple_bind [OF t1] triple_bind [OF t2] t5 [unfolded Let_def])
qed

end
subsection \<open>A store as a map from references to records\<close>

text \<open>
  The abstract content of a store: the state of every slot of its data pages, \<open>Free\<close> everywhere
  else. A column reference denotes the pair of page and slot index it encodes.
\<close>

definition store_slots ::
    "'p page_api \<Rightarrow> column_store \<Rightarrow> (page_ref \<Rightarrow> 'p option) \<Rightarrow> page_ref list \<Rightarrow> page_ref \<times> nat \<Rightarrow> slot_state" where
  "store_slots P cs m dl = (\<lambda>(x, i). if x \<in> set dl \<and> i < m_max_num_recs (m_data cs)
     then slot_at P (m_data cs) (the (m x)) i else Free)"

text \<open>Pages outside the store are as before.\<close>

definition others_kept :: "column_store \<Rightarrow> page_ref list \<Rightarrow> (page_ref \<Rightarrow> 'p option) \<Rightarrow> (page_ref \<Rightarrow> 'p option) \<Rightarrow> bool" where
  "others_kept cs dl m m' \<longleftrightarrow> (\<forall>x. x \<noteq> m_root_page_ref cs \<longrightarrow> x \<notin> set dl \<longrightarrow> m x \<noteq> None \<longrightarrow> m' x = m x)"

lemma store_ext_slots:
  assumes "store_ext P cs m0 dl0 m dl"
  shows "store_slots P cs m dl = store_slots P cs m0 dl0" "set dl0 \<subseteq> set dl" "others_kept cs dl m0 m"
proof -
  obtain new where dl: "dl = new @ dl0" using assms by (auto simp: store_ext_def)
  then show "set dl0 \<subseteq> set dl" by auto
  then show "store_slots P cs m dl = store_slots P cs m0 dl0"
    using assms by (auto simp: fun_eq_iff store_slots_def store_ext_def)
  show "others_kept cs dl m0 m" using assms by (simp add: store_ext_def others_kept_def)
qed

lemma store_slots_upd:
  "x \<in> set dl \<Longrightarrow> (\<And>j. j < m_max_num_recs (m_data cs) \<Longrightarrow>
     slot_at P (m_data cs) pg' j = (if j = i then v else slot_at P (m_data cs) (the (m x)) j)) \<Longrightarrow>
   i < m_max_num_recs (m_data cs) \<Longrightarrow>
   store_slots P cs (m(x \<mapsto> pg')) dl = (store_slots P cs m dl)((x, i) := v)"
  by (auto simp: fun_eq_iff store_slots_def)

text \<open>The successful end of an insert that started in \<open>s0\<close> with data pages \<open>dl0\<close>.\<close>

definition ins_done ::
    "'p page_api \<Rightarrow> column_store \<Rightarrow> 'p env \<Rightarrow> page_ref list \<Rightarrow> trx_ref \<Rightarrow> byte list \<Rightarrow> column_ref \<Rightarrow> 'p env \<Rightarrow> bool" where
  "ins_done P cs s0 dl0 trx col_data col_ref s \<longleftrightarrow> (\<exists>x i fl dl. col_ref = DataPage_encode_column_ref x i
     \<and> x \<in> set dl \<and> i < m_max_num_recs (m_data cs) \<and> store_inv P cs (pages s) fl dl
     \<and> store_slots P cs (pages s0) dl0 (x, i) = Free
     \<and> store_slots P cs (pages s) dl = (store_slots P cs (pages s0) dl0)((x, i) := Occupied False trx col_data)
     \<and> set dl0 \<subseteq> set dl \<and> (\<forall>y\<in>set dl - set dl0. pages s0 y = None)
     \<and> others_kept cs dl (pages s0) (pages s) \<and> (faults s0 = [] \<longrightarrow> faults s = []))"

context store_layout
begin

lemma insert_record_triple:
  assumes len: "length col_data = m_column_size (m_root cs)"
  shows "triple (ins_page P cs s0 dl0 x) (ColumnStore_insert_record P cs x trx col_data)
    (ins_done P cs s0 dl0 trx col_data) (ins_error P cs s0 dl0)"
proof (rule tripleI)
  fix s s' :: "'p env" and col_ref
  assume A: "ins_page P cs s0 dl0 x s" and run: "ColumnStore_insert_record P cs x trx col_data s = (s', Inr col_ref)"
  from A obtain fl dl where si: "store_inv P cs (pages s) fl dl" and ex: "store_ext P cs (pages s0) dl0 (pages s) dl"
    and x: "x \<in> set dl" and nf: "0 < num_free P (the (pages s x))"
      "num_free P (the (pages s x)) = 1 \<longrightarrow> (\<forall>k. x \<notin> set (fl k))"
    and la: "latched s x" and h: "lsi_next_free_rec_hint (s_last_slot_info s) < m_max_num_recs (m_data cs)"
      "hint_safe P (m_data cs) (the (pages s x)) (lsi_next_free_rec_hint (s_last_slot_info s))"
    and flt: "faults s0 = [] \<longrightarrow> faults s = []"
    by (auto simp: ins_page_def ins_base_def)
  obtain pg where pg: "pages s x = Some pg" using store_member(3) [OF si x] by blast
  have inv: "data_page_inv P (m_data cs) pg" using si x pg by (auto simp: store_inv_def)
  obtain pg' i h' where ins: "DataPage_insert P (m_data cs) trx col_data (lsi_next_free_rec_hint (s_last_slot_info s)) pg = (pg', i, h')"
    by (cases "DataPage_insert P (m_data cs) trx col_data (lsi_next_free_rec_hint (s_last_slot_info s)) pg")
  have room: "0 < unat (read_integer_2 P pg NUM_FREE_RECS_OFF)" using nf pg by (simp add: num_free_def)
  have len': "length col_data = m_rec_size (m_data cs) - TRX_REF_SIZE" using len rec_size_col by simp
  from DataPage_insert_correct [OF data_layout_axioms inv h(1) _ room len', of trx] h(2) pg ins
  have i: "i < m_max_num_recs (m_data cs)" "slot_at P (m_data cs) pg i = Free"
    and sl: "\<And>j. j < m_max_num_recs (m_data cs) \<Longrightarrow>
      slot_at P (m_data cs) pg' j = (if j = i then Occupied False trx col_data else slot_at P (m_data cs) pg j)"
    and sh: "same_header P pg pg'" and inv': "data_page_inv P (m_data cs) pg'"
    by auto
  have nf': "num_free P pg = Suc (num_free P pg')"
    unfolding num_free_count [OF inv] num_free_count [OF inv']
    using i sl by (intro count_below_clear [of i]) auto
  have "s' = s\<lparr>pages := (pages s)(x \<mapsto> pg'), s_last_slot_info := (s_last_slot_info s)\<lparr>lsi_next_free_rec_hint := h'\<rparr>\<rparr>"
    and cr: "col_ref = DataPage_encode_column_ref x i"
    using run la pg ins
    by (auto simp: ColumnStore_insert_record_def bind_op_def gets_def peek_def upd_def modify_def ret_def latched_def)
  then have ps: "pages s' = (pages s)(x \<mapsto> pg')" and f': "faults s' = faults s" by simp_all
  have si': "store_inv P cs (pages s') fl dl"
    unfolding ps using nf nf' pg by (intro store_inv_update [OF si x _ inv']) (auto simp: sh)
  have slots: "store_slots P cs (pages s') dl = (store_slots P cs (pages s) dl)((x, i) := Occupied False trx col_data)"
    unfolding ps using sl pg by (intro store_slots_upd [OF x _ i(1)]) simp
  have "others_kept cs dl (pages s0) (pages s')"
    using store_ext_slots(3) [OF ex] x unfolding ps others_kept_def by auto
  moreover have "store_slots P cs (pages s) dl (x, i) = Free" using x i pg by (simp add: store_slots_def)
  moreover have "\<forall>y\<in>set dl - set dl0. pages s0 y = None" using ex by (auto simp: store_ext_def)
  ultimately show "ins_done P cs s0 dl0 trx col_data col_ref s'"
    unfolding ins_done_def
    using cr x i si' slots store_ext_slots(1,2) [OF ex] flt f'
    by (intro exI [of _ x] exI [of _ i] exI [of _ fl] exI [of _ dl]) simp
next
  fix s s' :: "'p env" and e
  assume A: "ins_page P cs s0 dl0 x s" and run: "ColumnStore_insert_record P cs x trx col_data s = (s', Inl e)"
  then obtain fl dl where "store_inv P cs (pages s) fl dl" "x \<in> set dl" "latched s x"
    by (auto simp: ins_page_def ins_base_def)
  with store_member(3) have "pages s x \<noteq> None" "latches s x = Some EXCLUSIVE" by (auto simp: latched_def)
  with run show "ins_error P cs s0 dl0 e s'"
    by (auto simp: ColumnStore_insert_record_def bind_op_def gets_def peek_def upd_def modify_def ret_def split: prod.splits)
qed

lemma insert_outcome:
  assumes si: "store_inv P cs (pages s) fl dl" and ready: "insert_ready P cs dl s"
    and len: "length col_data = m_column_size (m_root cs)"
  shows "case ColumnStore_insert P cs concurrency trx (Some col_data) s of
      (s', Inr col_ref) \<Rightarrow> ins_done P cs s dl trx col_data col_ref s'
    | (s', Inl e) \<Rightarrow> ins_error P cs s dl e s'"
proof -
  have D: "\<forall>x\<in>set dl. data_page_inv P (m_data cs) (the (pages s x))" using si by (simp add: store_inv_def)
  have A: "ins_state P cs s dl fl s
      \<and> (lsi_at cs s \<longrightarrow> hint_ok P cs (pages s) dl (lsi_next_free_rec_hint (s_last_slot_info s)))"
    using si ready store_ext_refl by (simp add: ins_state_def ins_base_def insert_ready_def)
  have "triple (\<lambda>s'. s' = s) (ColumnStore_insert P cs concurrency trx (Some col_data))
      (ins_done P cs s dl trx col_data) (ins_error P cs s dl)"
    unfolding ColumnStore_insert_def option.case
    by (rule triple_bind [OF triple_require [where Q = "\<lambda>_ s'. s' = s"]])
      (use len A in \<open>auto intro!: triple_bind [OF triple_pre [OF select_page_triple [OF D]]] insert_record_triple [OF len]\<close>)
  then show ?thesis by (auto simp: triple_def)
qed

end

subsection \<open>Fetch, delete mark and chunk update\<close>

text \<open>The slot after a delete mark was set or cleared by a transaction; a free slot stays free.\<close>

definition marked_slot :: "bool \<Rightarrow> trx_ref \<Rightarrow> slot_state \<Rightarrow> slot_state" where
  "marked_slot delete_mark trx v = (case v of Free \<Rightarrow> Free | Occupied d t bs \<Rightarrow> Occupied delete_mark trx bs)"

text \<open>Bytes \<open>j\<close> of a value whose chunk is in the list come from \<open>new\<close>, the others from \<open>old\<close>.\<close>

definition merge_chunks :: "nat \<Rightarrow> nat list \<Rightarrow> byte list \<Rightarrow> byte list \<Rightarrow> byte list" where
  "merge_chunks chunk_size ids new old =
     map (\<lambda>j. if j div chunk_size \<in> set ids then new ! j else old ! j) [0..<length old]"

lemma length_merge_chunks [simp]: "length (merge_chunks n ids new old) = length old"
  by (simp add: merge_chunks_def)

lemma merge_chunks_Nil [simp]: "merge_chunks n [] new old = old"
  by (simp add: merge_chunks_def map_nth)

lemma run_length_le: "run_length ids \<le> length ids"
  by (induction ids rule: run_length.induct) auto

lemma run_length_take: "take (run_length (c # ids)) (c # ids) = [c..<c + run_length (c # ids)]"
proof (induction ids arbitrary: c)
  case Nil
  then show ?case by simp
next
  case (Cons d ids)
  then show ?case by (auto simp: upt_conv_Cons simp del: upt_Suc)
qed

text \<open>Writing a run of consecutive chunks at once is the chunkwise merge.\<close>

lemma merge_chunks_run:
  assumes "0 < n" "(c + r) * n \<le> length old" "length new = length old"
  shows "take (c * n) old @ take (r * n) (drop (c * n) new) @ drop (c * n + r * n) old
    = merge_chunks n [c..<c + r] new old"
proof (rule nth_equalityI)
  have le: "c * n + r * n \<le> length old" using assms(2) by (simp add: add_mult_distrib)
  show "length (take (c * n) old @ take (r * n) (drop (c * n) new) @ drop (c * n + r * n) old)
      = length (merge_chunks n [c..<c + r] new old)"
    using le assms(3) by simp
  fix j assume "j < length (take (c * n) old @ take (r * n) (drop (c * n) new) @ drop (c * n + r * n) old)"
  then have j: "j < length old" using le assms(3) by simp
  have d: "c \<le> j div n \<longleftrightarrow> c * n \<le> j" "j div n < c + r \<longleftrightarrow> j < c * n + r * n"
    using assms(1) by (simp_all add: less_eq_div_iff_mult_less_eq div_less_iff_less_mult add_mult_distrib)
  show "(take (c * n) old @ take (r * n) (drop (c * n) new) @ drop (c * n + r * n) old) ! j
      = merge_chunks n [c..<c + r] new old ! j"
    using j le assms(3) by (auto simp: merge_chunks_def nth_append d min_def)
qed

lemma merge_chunks_append:
  "length new = length old \<Longrightarrow>
   merge_chunks n b new (merge_chunks n a new old) = merge_chunks n (a @ b) new old"
  by (auto simp: merge_chunks_def intro!: nth_equalityI)

lemma update_check_bounds:
  "update_check_chunks n len prev ids = None \<Longrightarrow> c \<in> set ids \<Longrightarrow> c * n + n \<le> len"
proof (induction ids arbitrary: prev)
  case Nil
  then show ?case by simp
next
  case (Cons d ids)
  then show ?case by (cases prev) (auto split: if_splits)
qed

lemma update_check_sorted:
  "update_check_chunks n len prev ids = None \<longleftrightarrow>
   sorted_wrt (<) (case prev of None \<Rightarrow> ids | Some p \<Rightarrow> p # ids) \<and> (\<forall>c\<in>set ids. c * n + n \<le> len)"
proof (induction ids arbitrary: prev)
  case Nil
  then show ?case by (cases prev) auto
next
  case (Cons d ids)
  then show ?case by (cases prev) (auto split: option.splits)
qed

context store_layout
begin

lemma chunk_run:
  assumes "\<forall>c\<in>set (c # ids). c * n + n \<le> len"
  shows "(c + run_length (c # ids)) * n \<le> len"
proof -
  let ?r = "run_length (c # ids)"
  have "0 < ?r" by (rule run_length_pos)
  then have "c + ?r - 1 \<in> set (take ?r (c # ids))" unfolding run_length_take by auto
  then have "c + ?r - 1 \<in> set (c # ids)" by (rule in_set_takeD)
  with assms have "(c + ?r - 1) * n + n \<le> len" by blast
  then have "Suc (c + ?r - 1) * n \<le> len" by simp
  then show ?thesis using \<open>0 < ?r\<close> by simp
qed

lemma write_chunks_slots:
  fixes pg :: 'p
  assumes s: "s < m_max_num_recs (m_data cs)" and n: "0 < n" and len: "length new = m_column_size (m_root cs)"
    and i: "i < m_max_num_recs (m_data cs)" and ids: "\<forall>c\<in>set ids. c * n + n \<le> length new"
  shows "slot_at P (m_data cs) (write_chunks P (DataPage_get_record_offset (m_data cs) s + TRX_REF_SIZE) new n ids pg) i =
    (if i = s then (case slot_at P (m_data cs) pg s of Free \<Rightarrow> Free
       | Occupied d t old \<Rightarrow> Occupied d t (merge_chunks n ids new old))
     else slot_at P (m_data cs) pg i)"
  using ids
proof (induction "length ids" arbitrary: ids pg rule: less_induct)
  case less
  let ?o = "DataPage_get_record_offset (m_data cs) s + TRX_REF_SIZE"
  show ?case
  proof (cases ids)
    case Nil
    then show ?thesis by (auto split: slot_state.splits)
  next
    case (Cons c cs')
    let ?r = "run_length ids"
    have r: "0 < ?r" using Cons run_length_pos by simp
    have run: "(c + ?r) * n \<le> length new" using chunk_run less.prems Cons by simp
    then have le: "c * n + ?r * n \<le> m_column_size (m_root cs)" using len by (simp add: add_mult_distrib)
    have o: "?o + m_column_size (m_root cs) < 65536"
      using rec_offset [OF s] rec_size_col layout by (simp add: layout_ok_def layout_defs)
    have cn: "u32 (c * n) = c * n" "u16 (c * n) = c * n" "u16 (?o + c * n) = ?o + c * n"
      using le o by simp_all
    let ?bs = "take (?r * n) (drop (c * n) new)"
    let ?pg = "write_string P pg (?o + c * n) ?bs"
    have lb: "length ?bs = ?r * n" using le len by simp
    have ls: "c * n + length ?bs \<le> m_rec_size (m_data cs) - TRX_REF_SIZE" using le lb rec_size_col by simp
    have step: "write_chunks P ?o new n ids pg = write_chunks P ?o new n (drop ?r ids) ?pg"
      using Cons by (simp add: cn Let_def)
    have sub: "\<forall>c\<in>set (drop ?r ids). c * n + n \<le> length new" using less.prems in_set_dropD by metis
    have lt: "length (drop ?r ids) < length ids" using r Cons by simp
    have old_len: "length old = m_column_size (m_root cs)" if "slot_at P (m_data cs) pg s = Occupied d t old" for d t old
      using that rec_size_col by (auto simp: slot_at_def Let_def split_beta split: if_splits)
    have tk: "take ?r ids = [c..<c + ?r]" using Cons run_length_take by simp
    have mc: "merge_chunks n (drop ?r ids) new (take (c * n) old @ ?bs @ drop (c * n + length ?bs) old)
        = merge_chunks n ids new old" if "slot_at P (m_data cs) pg s = Occupied d t old" for d t old
    proof -
      have "take (c * n) old @ ?bs @ drop (c * n + length ?bs) old = merge_chunks n (take ?r ids) new old"
        unfolding lb tk using merge_chunks_run [OF n] run old_len [OF that] len by simp
      then show ?thesis using merge_chunks_append [of new old n "drop ?r ids" "take ?r ids"] old_len [OF that] len
        by simp
    qed
    have w: "slot_at P (m_data cs) ?pg j = (if j = s then (case slot_at P (m_data cs) pg s of Free \<Rightarrow> Free
         | Occupied d t old \<Rightarrow> Occupied d t (take (c * n) old @ ?bs @ drop (c * n + length ?bs) old))
       else slot_at P (m_data cs) pg j)" if "j < m_max_num_recs (m_data cs)" for j
      by (rule slot_at_write_data [OF s that ls])
    show ?thesis
    proof (cases "slot_at P (m_data cs) pg s")
      case Free
      then show ?thesis unfolding step less.hyps [OF lt sub] using w [OF i] w [OF s] by simp
    next
      case (Occupied d t old)
      then show ?thesis unfolding step less.hyps [OF lt sub] using w [OF i] w [OF s] mc [OF Occupied] by simp
    qed
  qed
qed

lemma write_chunks_below:
  assumes "k < m_first_rec_offset (m_data cs)" "s < m_max_num_recs (m_data cs)" "length new = m_column_size (m_root cs)"
    "\<forall>c\<in>set ids. c * n + n \<le> length new"
  shows "get_data P (write_chunks P (DataPage_get_record_offset (m_data cs) s + TRX_REF_SIZE) new n ids pg) k = get_data P pg k"
  using assms(4)
proof (induction "length ids" arbitrary: ids pg rule: less_induct)
  case less
  let ?o = "DataPage_get_record_offset (m_data cs) s + TRX_REF_SIZE"
  show ?case
  proof (cases ids)
    case Nil
    then show ?thesis by simp
  next
    case (Cons c cs')
    let ?r = "run_length ids"
    have r: "0 < ?r" using Cons run_length_pos by simp
    have "c * n \<le> m_column_size (m_root cs)" using less.prems Cons assms(3) by simp
    moreover have o: "?o + m_column_size (m_root cs) < 65536" "m_first_rec_offset (m_data cs) \<le> ?o"
      using rec_offset [OF assms(2)] rec_size_col layout by (simp_all add: layout_ok_def layout_defs)
    ultimately have "u32 (c * n) = c * n" "u16 (c * n) = c * n" "u16 (?o + c * n) = ?o + c * n" by simp_all
    then have "write_chunks P ?o new n ids pg
        = write_chunks P ?o new n (drop ?r ids) (write_string P pg (?o + c * n) (take (?r * n) (drop (c * n) new)))"
      using Cons by (simp add: Let_def)
    moreover have "\<forall>c\<in>set (drop ?r ids). c * n + n \<le> length new" using less.prems in_set_dropD by metis
    moreover have "length (drop ?r ids) < length ids" using r Cons by simp
    ultimately show ?thesis
      using less.hyps [of "drop ?r ids"] assms(1) o by (simp add: data_writes overwrite_out)
  qed
qed

end

context store_layout
begin

text \<open>A page rewritten behind its header, with the same free slots, keeps the page invariant.\<close>

lemma rewrite_records:
  assumes hd: "\<And>k. k < FREE_BITMAP_OFF \<Longrightarrow> get_data P pg' k = get_data P pg k"
    and free: "\<And>i. i < m_max_num_recs (m_data cs) \<Longrightarrow> slot_at P (m_data cs) pg' i = Free \<longleftrightarrow> slot_at P (m_data cs) pg i = Free"
  shows "same_header P pg pg'" "num_free P pg' = num_free P pg"
    "data_page_inv P (m_data cs) pg \<Longrightarrow> data_page_inv P (m_data cs) pg'"
proof -
  show "same_header P pg pg'" using hd by (simp add: same_header_def layout_defs)
  have rd: "read_integer_2 P pg' off = read_integer_2 P pg off" if "off + 2 \<le> FREE_BITMAP_OFF" for off
    using that hd by (intro header_read_2_cong) auto
  then show "num_free P pg' = num_free P pg" by (simp add: num_free_def layout_defs)
  have "count_below (m_max_num_recs (m_data cs)) (\<lambda>i. slot_at P (m_data cs) pg' i = Free)
      = count_below (m_max_num_recs (m_data cs)) (\<lambda>i. slot_at P (m_data cs) pg i = Free)"
    using free by (intro count_below_cong) simp
  then show "data_page_inv P (m_data cs) pg \<Longrightarrow> data_page_inv P (m_data cs) pg'"
    using rd by (simp add: data_page_inv_def layout_defs)
qed

lemma store_rewrite:
  assumes si: "store_inv P cs m fl dl" and x: "x \<in> set dl" and i: "i < m_max_num_recs (m_data cs)"
    and hd: "\<And>k. k < FREE_BITMAP_OFF \<Longrightarrow> get_data P pg' k = get_data P (the (m x)) k"
    and sl: "\<And>j. j < m_max_num_recs (m_data cs) \<Longrightarrow>
      slot_at P (m_data cs) pg' j = (if j = i then v else slot_at P (m_data cs) (the (m x)) j)"
    and v: "v = Free \<longleftrightarrow> slot_at P (m_data cs) (the (m x)) i = Free"
  shows "store_inv P cs (m(x \<mapsto> pg')) fl dl"
    and "store_slots P cs (m(x \<mapsto> pg')) dl = (store_slots P cs m dl)((x, i) := v)"
proof -
  have free: "slot_at P (m_data cs) pg' j = Free \<longleftrightarrow> slot_at P (m_data cs) (the (m x)) j = Free"
    if "j < m_max_num_recs (m_data cs)" for j using sl [OF that] v by simp
  note rw = rewrite_records [OF hd free]
  show "store_inv P cs (m(x \<mapsto> pg')) fl dl"
    by (rule store_inv_update [OF si x rw(1)]) (use si x rw(2,3) in \<open>auto simp: store_inv_def\<close>)
  show "store_slots P cs (m(x \<mapsto> pg')) dl = (store_slots P cs m dl)((x, i) := v)"
    by (rule store_slots_upd) (use x sl i in auto)
qed

lemma col_ref_slot: "i < m_max_num_recs (m_data cs) \<Longrightarrow> DataPage_decode_column_ref (DataPage_encode_column_ref x i) = (x, i)"
  using max_num_recs_le by simp

lemma record_value:
  assumes "i < m_max_num_recs (m_data cs)"
  shows "slot_at P (m_data cs) pg i =
    (let (d, free) = DataPage_get_record_status P pg i; off = DataPage_get_record_offset (m_data cs) i
     in if free then Free else Occupied d (read_integer_8 P pg off)
          (slice (get_data P pg) (u16 (off + TRX_REF_SIZE)) (m_column_size (m_root cs))))"
proof -
  have "u16 (DataPage_get_record_offset (m_data cs) i + TRX_REF_SIZE) = DataPage_get_record_offset (m_data cs) i + TRX_REF_SIZE"
    using rec_offset [OF assms] rec_size layout by (simp add: layout_ok_def layout_defs)
  then show ?thesis using rec_size_col by (simp add: slot_at_def Let_def split_beta)
qed

text \<open>The three operations on one record: the outcome for every state of the slot.\<close>

lemma fetch_outcome:
  assumes si: "store_inv P cs (pages s) fl dl" and x: "x \<in> set dl" and i: "i < m_max_num_recs (m_data cs)"
  shows "case ColumnStore_fetch P cs (DataPage_encode_column_ref x i) for_update s of
      (s', res) \<Rightarrow> pages s' = pages s \<and>
        (res = Inl (Remote ''fetch: failed to load data page'') \<and> faults s \<noteq> []
         \<or> res = (case store_slots P cs (pages s) dl (x, i) of
              Free \<Rightarrow> Inl (Local ''fetch: slot %u is free'' [i])
            | Occupied d t bs \<Rightarrow> Inr (bs, t, d)))"
proof -
  obtain pg where pg: "pages s x = Some pg" using store_member(3) [OF si x] by blast
  have sl: "store_slots P cs (pages s) dl (x, i) = slot_at P (m_data cs) pg i" using x i pg by (simp add: store_slots_def)
  note defs = ColumnStore_fetch_def col_ref_slot [OF i] Let_def bind_op_def
  show ?thesis
  proof (cases rule: load_cases [of s x "if for_update then EXCLUSIVE else SHARED" "Remote ''fetch: failed to load data page''"])
    case (ok fs)
    with pg show ?thesis
      unfolding sl record_value [OF i]
      by (simp add: defs peek_def require_def ret_def fail_def split: prod.split)
  next
    case (err fs)
    with pg show ?thesis by (simp add: defs)
  qed
qed

lemma mark_delete_outcome:
  assumes si: "store_inv P cs (pages s) fl dl" and x: "x \<in> set dl" and i: "i < m_max_num_recs (m_data cs)"
  shows "case ColumnStore_mark_delete P cs trx (DataPage_encode_column_ref x i) delete_mark s of
      (s', Inr _) \<Rightarrow> store_inv P cs (pages s') fl dl
        \<and> store_slots P cs (pages s') dl = (store_slots P cs (pages s) dl)
             ((x, i) := marked_slot delete_mark trx (store_slots P cs (pages s) dl (x, i)))
        \<and> (\<forall>y. y \<noteq> x \<longrightarrow> pages s' y = pages s y)
    | (s', Inl e) \<Rightarrow> pages s' = pages s \<and> faults s \<noteq> []"
proof -
  obtain pg where pg: "pages s x = Some pg" using store_member(3) [OF si x] by blast
  have st: "store_slots P cs (pages s) dl (x, i) = slot_at P (m_data cs) pg i" using x i pg by (simp add: store_slots_def)
  let ?off = "DataPage_get_record_offset (m_data cs) i" and ?v = "marked_slot delete_mark trx (slot_at P (m_data cs) pg i)"
  let ?pg1 = "(if delete_mark then DataPage_set_record_delete P i else DataPage_set_record_undelete P i) pg"
  let ?pg2 = "if read_integer_8 P pg ?off = trx then ?pg1 else write_integer_8 P ?pg1 ?off trx"
  have t: "read_integer_8 P pg ?off = t" if "slot_at P (m_data cs) pg i = Occupied d t bs" for d t bs
    using that by (auto simp: slot_at_def Let_def split_beta split: if_splits)
  have off: "FREE_BITMAP_OFF \<le> ?off" using rec_offset(1) [OF i] header_before_records by simp
  have two: "slot_at P (m_data cs) ?pg2 j = (if j = i then ?v else slot_at P (m_data cs) (the (pages s x)) j)"
    if "j < m_max_num_recs (m_data cs)" for j
    using that i t pg
    by (cases "slot_at P (m_data cs) pg i")
      (simp_all add: slot_at_set_record_delete slot_at_set_record_undelete slot_at_write_trx marked_slot_def)
  have hd: "get_data P ?pg2 k = get_data P (the (pages s x)) k" if "k < FREE_BITMAP_OFF" for k
    using that off header_before_bitmap [of i] pg by (simp add: data_writes data_bitmap_update overwrite_out)
  have v: "?v = Free \<longleftrightarrow> slot_at P (m_data cs) (the (pages s x)) i = Free"
    using pg by (simp add: marked_slot_def split: slot_state.split)
  note rw = store_rewrite [OF si x i hd two v]
  note defs = ColumnStore_mark_delete_def col_ref_slot [OF i] Let_def bind_op_def
  show ?thesis
  proof (cases rule: load_cases [of s x EXCLUSIVE "Remote ''mark_delete: failed to load data page''"])
    case (ok fs)
    have "ColumnStore_mark_delete P cs trx (DataPage_encode_column_ref x i) delete_mark s
        = (s\<lparr>faults := fs, latches := (latches s)(x \<mapsto> EXCLUSIVE), pages := (pages s)(x \<mapsto> ?pg2)\<rparr>, Inr ())"
      using ok pg by (simp add: defs peek_def upd_def when_op_def ret_def)
    with rw st show ?thesis by simp
  next
    case (err fs)
    with pg show ?thesis by (simp add: defs)
  qed
qed

lemma update_outcome:
  assumes si: "store_inv P cs (pages s) fl dl" and x: "x \<in> set dl" and i: "i < m_max_num_recs (m_data cs)"
    and args: "chunk_ids \<noteq> []" "0 < chunk_size" "length col_data = m_column_size (m_root cs)"
    and ids: "sorted_wrt (<) chunk_ids" "\<forall>c\<in>set chunk_ids. c * chunk_size + chunk_size \<le> length col_data"
  shows "case ColumnStore_update P cs (DataPage_encode_column_ref x i) (Some col_data) chunk_ids chunk_size s of
      (s', Inr _) \<Rightarrow> store_inv P cs (pages s') fl dl
        \<and> (\<exists>d t old. store_slots P cs (pages s) dl (x, i) = Occupied d t old
            \<and> store_slots P cs (pages s') dl = (store_slots P cs (pages s) dl)
                ((x, i) := Occupied d t (merge_chunks chunk_size chunk_ids col_data old)))
        \<and> (\<forall>y. y \<noteq> x \<longrightarrow> pages s' y = pages s y)
    | (s', Inl e) \<Rightarrow> pages s' = pages s \<and> (faults s \<noteq> [] \<or> store_slots P cs (pages s) dl (x, i) = Free)"
proof -
  obtain pg where pg: "pages s x = Some pg" using store_member(3) [OF si x] by blast
  have st: "store_slots P cs (pages s) dl (x, i) = slot_at P (m_data cs) pg i" using x i pg by (simp add: store_slots_def)
  let ?o = "DataPage_get_record_offset (m_data cs) i + TRX_REF_SIZE"
  let ?pg = "write_chunks P ?o col_data chunk_size chunk_ids pg"
  have u: "u16 ?o = ?o" using rec_offset [OF i] rec_size layout by (simp add: layout_ok_def layout_defs)
  have chk: "update_check_chunks chunk_size (length col_data) None chunk_ids = None"
    using ids by (simp add: update_check_sorted)
  have free: "snd (DataPage_get_record_status P pg i) \<longleftrightarrow> slot_at P (m_data cs) pg i = Free" by (simp add: slot_at_Free)
  note defs = ColumnStore_update_def col_ref_slot [OF i] Let_def bind_op_def
  show ?thesis
  proof (cases rule: load_cases [of s x EXCLUSIVE "Remote ''update: failed to load data page''"])
    case (ok fs)
    show ?thesis
    proof (cases "slot_at P (m_data cs) pg i")
      case Free
      with ok pg args chk free st show ?thesis by (simp add: defs peek_def require_def fail_def)
    next
      case (Occupied d t old)
      let ?v = "Occupied d t (merge_chunks chunk_size chunk_ids col_data old)"
      have sl: "slot_at P (m_data cs) ?pg j = (if j = i then ?v else slot_at P (m_data cs) (the (pages s x)) j)"
        if "j < m_max_num_recs (m_data cs)" for j
        using write_chunks_slots [OF i args(2,3) that ids(2), of pg] Occupied pg by simp
      have hd: "get_data P ?pg k = get_data P (the (pages s x)) k" if "k < FREE_BITMAP_OFF" for k
        using write_chunks_below [OF _ i args(3) ids(2), of k pg] that header_before_records pg by simp
      have v: "?v = Free \<longleftrightarrow> slot_at P (m_data cs) (the (pages s x)) i = Free" using Occupied pg by simp
      have "ColumnStore_update P cs (DataPage_encode_column_ref x i) (Some col_data) chunk_ids chunk_size s
          = (s\<lparr>faults := fs, latches := (latches s)(x \<mapsto> EXCLUSIVE), pages := (pages s)(x \<mapsto> ?pg)\<rparr>, Inr ())"
        using ok pg args chk free Occupied u by (simp add: defs peek_def require_def ret_def upd_def)
      with store_rewrite [OF si x i hd sl v] Occupied st show ?thesis by simp
    qed
  next
    case (err fs)
    with pg args chk show ?thesis by (simp add: defs)
  qed
qed

end

subsection \<open>Purge\<close>

text \<open>
  The outcomes of a purge that started in \<open>s0\<close>: the record of the transaction is freed and nothing
  else changes. On an error, which only a failed API call causes, the record may already be free:
  the page is entered into a free list after the record was purged.
\<close>

definition purged_slots :: "trx_ref \<Rightarrow> page_ref \<times> nat \<Rightarrow> (page_ref \<times> nat \<Rightarrow> slot_state) \<Rightarrow> page_ref \<times> nat \<Rightarrow> slot_state" where
  "purged_slots trx a f = (case f a of Occupied d t bs \<Rightarrow> if t = trx then f(a := Free) else f | Free \<Rightarrow> f)"

definition store_kept ::
    "'p page_api \<Rightarrow> column_store \<Rightarrow> 'p env \<Rightarrow> page_ref list \<Rightarrow> (page_ref \<times> nat \<Rightarrow> slot_state) \<Rightarrow> 'p env \<Rightarrow> bool" where
  "store_kept P cs s0 dl f s \<longleftrightarrow> (\<exists>fl. store_inv P cs (pages s) fl dl) \<and> store_slots P cs (pages s) dl = f
     \<and> untouched (m_root_page_ref cs) (set dl) (pages s0) (pages s)"

definition purge_error ::
    "'p page_api \<Rightarrow> column_store \<Rightarrow> 'p env \<Rightarrow> page_ref list \<Rightarrow> trx_ref \<Rightarrow> page_ref \<times> nat \<Rightarrow> store_error \<Rightarrow> 'p env \<Rightarrow> bool" where
  "purge_error P cs s0 dl trx a e s \<longleftrightarrow> faults s0 \<noteq> []
     \<and> (store_kept P cs s0 dl (store_slots P cs (pages s0) dl) s
        \<or> store_kept P cs s0 dl (purged_slots trx a (store_slots P cs (pages s0) dl)) s)"

context store_layout
begin

lemma unlisted_page:
  assumes si: "store_inv P cs m fl dl" and inv: "DataPage_get_free_slot_number P (the (m x)) = INVALID_SLOT"
  shows "x \<notin> set (fl k)"
proof
  assume x: "x \<in> set (fl k)"
  have fl: "free_lists P (m_root cs) m (m_root_page_ref cs) fl"
    using store_inv_lists [OF si] by (simp add: root_lists_def)
  have "k < 2048" "DataPage_get_free_slot_number P (the (m x)) = word_of_nat k"
    using free_lists_slot(1,2) [OF fl x] fl max_slots x by (auto simp: free_lists_def free_list_def)
  then show False using inv by (simp add: INVALID_SLOT_def word_unat_eq_iff unat_of_nat)
qed

lemma get_free_slot_triple:
  "triple (\<lambda>s. pages s = m \<and> (faults s0 = [] \<longrightarrow> faults s = []) \<and> latched s root \<and> latched s x
       \<and> root_lists P (m_root cs) m root fl dl)
    (RootPage_get_free_slot P (m_root cs) root)
    (\<lambda>k s. pages s = m \<and> (faults s0 = [] \<longrightarrow> faults s = []) \<and> latched s root \<and> latched s x
       \<and> k < cur_slots P (m_root cs) (the (m root))) E"
proof (rule tripleI)
  fix s s' :: "'p env" and k
  assume A: "pages s = m \<and> (faults s0 = [] \<longrightarrow> faults s = []) \<and> latched s root \<and> latched s x
      \<and> root_lists P (m_root cs) m root fl dl"
    and run: "RootPage_get_free_slot P (m_root cs) root s = (s', Inr k)"
  then obtain rpg where "m root = Some rpg" "latches s root = Some EXCLUSIVE" "0 < cur_slots P (m_root cs) rpg"
    using root_lists_member(1) by (auto simp: latched_def root_lists_def free_lists_def)
  moreover from this have "k < cur_slots P (m_root cs) (the (m root)) \<and> (s' = s \<or> (\<exists>ds. s' = s\<lparr>draws := ds\<rparr>))"
    using run A
    by (auto simp: RootPage_get_free_slot_def bind_op_def peek_def Let_def ret_def cur_slots_def uniform_draw_def
        RootPage_get_random_slot_def find_Some_iff split: option.splits list.splits if_splits)
  ultimately show "pages s' = m \<and> (faults s0 = [] \<longrightarrow> faults s' = []) \<and> latched s' root \<and> latched s' x
      \<and> k < cur_slots P (m_root cs) (the (m root))"
    using A by (auto simp: latched_def)
next
  fix s s' :: "'p env" and e
  assume A: "pages s = m \<and> (faults s0 = [] \<longrightarrow> faults s = []) \<and> latched s root \<and> latched s x
      \<and> root_lists P (m_root cs) m root fl dl"
    and run: "RootPage_get_free_slot P (m_root cs) root s = (s', Inl e)"
  then obtain rpg where "m root = Some rpg" "latches s root = Some EXCLUSIVE"
    using root_lists_member(1) [of P "m_root cs" m root fl dl] by (auto simp: latched_def)
  then show "E e s'"
    using run A
    by (auto simp: RootPage_get_free_slot_def bind_op_def peek_def Let_def ret_def uniform_draw_def
        RootPage_get_random_slot_def split: option.splits list.splits if_splits)
qed

text \<open>A purged page enters a free list without any change to the records.\<close>

lemma readd_page_triple:
  assumes si: "store_inv P cs m fl dl" and x: "x \<in> set dl" and nl: "\<And>k. x \<notin> set (fl k)"
    and nf: "0 < num_free P (the (m x))" and un: "untouched (m_root_page_ref cs) (set dl) (pages s0) m"
  shows "triple (\<lambda>s. pages s = m \<and> (faults s0 = [] \<longrightarrow> faults s = []) \<and> latched s (m_root_page_ref cs) \<and> latched s x
       \<and> k < cur_slots P (m_root cs) (the (m (m_root_page_ref cs))))
    (RootPage_add_free_page P (m_root cs) (m_root_page_ref cs) x k e)
    (\<lambda>_. store_kept P cs s0 dl (store_slots P cs m dl))
    (\<lambda>_ s. faults s0 \<noteq> [] \<and> store_kept P cs s0 dl (store_slots P cs m dl) s)"
  (is "triple ?A _ _ _")
proof (rule tripleI)
  fix s s' :: "'p env" and u
  let ?root = "m_root_page_ref cs"
  assume A: "?A s" and run: "RootPage_add_free_page P (m_root cs) ?root x k e s = (s', Inr u)"
  then have m: "pages s = m" by simp
  have "list_outcome P (m_root cs) ?root (set dl) (fl(k := x # fl k)) dl e s (s', Inr u)"
    unfolding run [symmetric] using A store_inv_lists [OF si] x nl by (intro add_free_page_op(1)) auto
  then have rl: "root_lists P (m_root cs) (pages s') ?root (fl(k := x # fl k)) dl"
    and kr: "keeps_records P ?root m (pages s')" and u': "untouched ?root (set dl) m (pages s')"
    using m by (auto simp: list_outcome_def)
  have si': "store_inv P cs (pages s') (fl(k := x # fl k)) dl"
    by (rule store_inv_keeps [OF si kr rl]) (use si nf in \<open>auto simp: store_inv_def split: if_splits\<close>)
  have "store_slots P cs (pages s') dl = store_slots P cs m dl"
    using kr store_member(3,4) [OF si] same_records_slot(1)
    by (auto simp: fun_eq_iff store_slots_def keeps_records_def)
  then show "store_kept P cs s0 dl (store_slots P cs m dl) s'"
    unfolding store_kept_def using si' un u' by (auto simp: untouched_def)
next
  fix s s' :: "'p env" and e'
  let ?root = "m_root_page_ref cs"
  assume A: "?A s" and run: "RootPage_add_free_page P (m_root cs) ?root x k e s = (s', Inl e')"
  have "list_outcome P (m_root cs) ?root (set dl) (fl(k := x # fl k)) dl e s (s', Inl e')"
    unfolding run [symmetric] using A store_inv_lists [OF si] x nl by (intro add_free_page_op(1)) auto
  then show "faults s0 \<noteq> [] \<and> store_kept P cs s0 dl (store_slots P cs m dl) s'"
    unfolding store_kept_def using A si un by (auto simp: list_outcome_def)
qed

end

context store_layout
begin

text \<open>The page after \<^verbatim>\<open>DataPage::purge\<close> in the store.\<close>

lemma purged_page_store:
  assumes si: "store_inv P cs m fl dl" and x: "x \<in> set dl" and i: "i < m_max_num_recs (m_data cs)"
    and pu: "DataPage_purge P (m_data cs) i trx (the (m x)) = Some (pg', purged)"
  shows "store_inv P cs (m(x \<mapsto> pg')) fl dl"
    and "store_slots P cs (m(x \<mapsto> pg')) dl = purged_slots trx (x, i) (store_slots P cs m dl)"
    and "same_header P (the (m x)) pg'" and "purged \<Longrightarrow> 0 < num_free P pg'"
proof -
  have inv: "data_page_inv P (m_data cs) (the (m x))" using si x by (simp add: store_inv_def)
  note inv' = DataPage_purge_inv [OF pu i inv] and sl = DataPage_purge_slots [OF pu i]
  have free: "slot_at P (m_data cs) pg' j = Free" if "slot_at P (m_data cs) (the (m x)) j = Free" "j < m_max_num_recs (m_data cs)" for j
    using sl(1) [OF that(2)] that(1) by simp
  show sh: "same_header P (the (m x)) pg'" using DataPage_purge_header(1) [OF pu i] .
  have nf: "0 < num_free P pg'" if "0 < num_free P (the (m x))"
  proof -
    from that obtain j where j: "j < m_max_num_recs (m_data cs)" "slot_at P (m_data cs) (the (m x)) j = Free"
      unfolding num_free_count [OF inv] by (auto simp: count_below_pos)
    with free show ?thesis unfolding num_free_count [OF inv'] by (auto simp: count_below_pos)
  qed
  show "store_inv P cs (m(x \<mapsto> pg')) fl dl"
    by (rule store_inv_update [OF si x sh inv']) (use si nf in \<open>auto simp: store_inv_def\<close>)
  show "0 < num_free P pg'" if purged
    unfolding num_free_count [OF inv'] using sl(1) [OF i] that i by (auto simp: count_below_pos)
  have "store_slots P cs (m(x \<mapsto> pg')) dl = (store_slots P cs m dl)((x, i) := if purged then Free else store_slots P cs m dl (x, i))"
    by (rule store_slots_upd) (use x i sl(1) in \<open>auto simp: store_slots_def\<close>)
  also have "\<dots> = purged_slots trx (x, i) (store_slots P cs m dl)"
    using sl(2) [OF i] x i by (auto simp: purged_slots_def store_slots_def fun_eq_iff split: slot_state.splits)
  finally show "store_slots P cs (m(x \<mapsto> pg')) dl = purged_slots trx (x, i) (store_slots P cs m dl)" .
qed

lemma relatch_triple:
  fixes s0 :: "'p env"
  defines "A \<equiv> \<lambda>s. pages s = pages s0 \<and> (faults s0 = [] \<longrightarrow> faults s = [])"
  assumes si: "store_inv P cs (pages s0) fl dl" and x: "x \<in> set dl"
  shows "triple (\<lambda>s. A s \<and> latched s x)
    (when_op b (bind_op (release x e1) (\<lambda>_. bind_op (load (m_root_page_ref cs) EXCLUSIVE e2) (\<lambda>_. load x EXCLUSIVE e3))))
    (\<lambda>_ s. A s \<and> latched s x \<and> (b \<longrightarrow> latched s (m_root_page_ref cs)))
    (\<lambda>_ s. pages s = pages s0 \<and> faults s0 \<noteq> [])"
proof -
  let ?root = "m_root_page_ref cs" and ?E = "\<lambda>_ s. pages s = pages s0 \<and> faults s0 \<noteq> []"
  have t1: "triple (\<lambda>s. A s \<and> latched s x) (release x e1) (\<lambda>_. A) ?E"
    by (rule triple_release) (auto simp: A_def)
  have t2: "triple A (load ?root EXCLUSIVE e2) (\<lambda>_ s. A s \<and> latched s ?root) ?E"
    by (rule triple_load) (use store_member(1) [OF si] in \<open>auto simp: A_def latched_def\<close>)
  have t3: "triple (\<lambda>s. A s \<and> latched s ?root) (load x EXCLUSIVE e3)
      (\<lambda>_ s. A s \<and> latched s x \<and> (b \<longrightarrow> latched s ?root)) ?E"
    by (rule triple_load) (use store_member(3) [OF si x] in \<open>auto simp: A_def latched_def\<close>)
  show ?thesis
    by (rule triple_when, intro triple_bind [OF t1] triple_bind [OF t2] t3) simp
qed

text \<open>The last step of a purge: the record is gone, and the page is listed again when it should be.\<close>

lemma purge_write_triple:
  fixes s0 :: "'p env"
  defines "A \<equiv> \<lambda>s. pages s = pages s0 \<and> (faults s0 = [] \<longrightarrow> faults s = [])"
  assumes si: "store_inv P cs (pages s0) fl dl" and x: "x \<in> set dl" and i: "i < m_max_num_recs (m_data cs)"
    and pu: "DataPage_purge P (m_data cs) i trx (the (pages s0 x)) = Some (pg', purged)"
  shows "triple (\<lambda>s. A s \<and> latched s x \<and> (need \<longrightarrow> latched s (m_root_page_ref cs)))
    (bind_op (upd x (\<lambda>_. pg')) (\<lambda>_.
       when_op (need \<and> purged \<and> DataPage_needs_add_to_free_list P False pg')
         (bind_op (RootPage_get_free_slot P (m_root cs) (m_root_page_ref cs)) (\<lambda>k.
          RootPage_add_free_page P (m_root cs) (m_root_page_ref cs) x k e))))
    (\<lambda>_. store_kept P cs s0 dl (purged_slots trx (x, i) (store_slots P cs (pages s0) dl)))
    (purge_error P cs s0 dl trx (x, i))"
proof -
  let ?root = "m_root_page_ref cs" and ?m = "(pages s0)(x \<mapsto> pg')" and ?E = "purge_error P cs s0 dl trx (x, i)"
  let ?b = "need \<and> purged \<and> DataPage_needs_add_to_free_list P False pg'"
  note pp = purged_page_store [OF si x i pu]
  have un: "untouched ?root (set dl) (pages s0) ?m" using x by (auto simp: untouched_def)
  let ?B = "\<lambda>s. pages s = ?m \<and> (faults s0 = [] \<longrightarrow> faults s = []) \<and> latched s x \<and> (need \<longrightarrow> latched s ?root)"
  let ?C = "\<lambda>k s. pages s = ?m \<and> (faults s0 = [] \<longrightarrow> faults s = []) \<and> latched s ?root \<and> latched s x
      \<and> k < cur_slots P (m_root cs) (the (?m ?root))"
  let ?K = "store_kept P cs s0 dl (purged_slots trx (x, i) (store_slots P cs (pages s0) dl))"
  have t1: "triple (\<lambda>s. A s \<and> latched s x \<and> (need \<longrightarrow> latched s ?root)) (upd x (\<lambda>_. pg')) (\<lambda>_. ?B) ?E"
    by (rule triple_upd) (use store_member(3) [OF si x] in \<open>auto simp: A_def latched_def\<close>)
  have t2: "triple ?B (RootPage_get_free_slot P (m_root cs) ?root) ?C ?E" if ?b
    by (rule triple_pre [OF get_free_slot_triple]) (use that store_inv_lists [OF pp(1)] in auto)
  have nl: "x \<notin> set (fl k)" if ?b for k
    using that unlisted_page [OF pp(1), of x k] by (auto simp: DataPage_needs_add_to_free_list_def split: if_splits)
  have t3: "triple (?C k) (RootPage_add_free_page P (m_root cs) ?root x k e) (\<lambda>_. ?K) ?E" if ?b for k
  proof -
    have r: "triple (?C k) (RootPage_add_free_page P (m_root cs) ?root x k e) (\<lambda>_. ?K) (\<lambda>_ s. faults s0 \<noteq> [] \<and> ?K s)"
      using readd_page_triple [OF pp(1) x nl [OF that] _ un, of k e] pp(4) that by (simp add: pp(2))
    show ?thesis by (rule triple_conseq [OF r]) (simp_all add: purge_error_def)
  qed
  have kept: "?K s" if "?B s" for s
    unfolding store_kept_def using that pp(1,2) un by auto
  show ?thesis
    by (intro triple_bind [OF t1] triple_when triple_bind [OF t2] t3 kept)
qed

end

context store_layout
begin

lemma purge_outcome:
  assumes si: "store_inv P cs (pages s) fl dl" and x: "x \<in> set dl" and i: "i < m_max_num_recs (m_data cs)"
  shows "case ColumnStore_purge P cs trx (DataPage_encode_column_ref x i) s of
      (s', Inr _) \<Rightarrow> store_kept P cs s dl (purged_slots trx (x, i) (store_slots P cs (pages s) dl)) s'
    | (s', Inl e) \<Rightarrow> purge_error P cs s dl trx (x, i) e s'"
proof -
  let ?root = "m_root_page_ref cs" and ?E = "purge_error P cs s dl trx (x, i)" and ?pg = "the (pages s x)"
  let ?A = "\<lambda>t. pages t = pages s \<and> (faults s = [] \<longrightarrow> faults t = [])"
  have "DataPage_purge P (m_data cs) i trx ?pg \<noteq> None"
    using i by (auto simp: DataPage_purge_cases split: slot_state.split)
  then obtain pg' purged where pu: "DataPage_purge P (m_data cs) i trx ?pg = Some (pg', purged)" by auto
  have early: "?E e t" if "pages t = pages s" "faults s \<noteq> []" for e t
    unfolding purge_error_def store_kept_def using that si by (auto simp: untouched_def)
  have t1: "triple (\<lambda>t. t = s) (load x EXCLUSIVE e) (\<lambda>_ t. ?A t \<and> latched t x) ?E" for e
    by (rule triple_load) (use store_member(3) [OF si x] in \<open>auto simp: latched_def intro!: early\<close>)
  have t2: "triple (\<lambda>t. ?A t \<and> latched t x) (peek x) (\<lambda>pg t. pg = ?pg \<and> ?A t \<and> latched t x) ?E"
    by (rule triple_peek) (use store_member(3) [OF si x] in \<open>auto simp: latched_def\<close>)
  have t3: "triple (\<lambda>t. pg = ?pg \<and> ?A t \<and> latched t x)
      (when_op b (bind_op (release x e1) (\<lambda>_. bind_op (load ?root EXCLUSIVE e2) (\<lambda>_. load x EXCLUSIVE e3))))
      (\<lambda>_ t. ?A t \<and> latched t x \<and> (b \<longrightarrow> latched t ?root)) ?E" for b e1 e2 e3 pg
    by (rule triple_conseq [OF relatch_triple [OF si x]]) (simp_all add: early)
  have t4: "triple (\<lambda>t. ?A t \<and> latched t x \<and> (b \<longrightarrow> latched t ?root)) (peek x)
      (\<lambda>pg t. pg = ?pg \<and> ?A t \<and> latched t x \<and> (b \<longrightarrow> latched t ?root)) ?E" for b
    by (rule triple_peek) (use store_member(3) [OF si x] in \<open>auto simp: latched_def\<close>)
  have t5: "triple (\<lambda>t. pg = ?pg \<and> ?A t \<and> latched t x \<and> (b \<longrightarrow> latched t ?root))
      (case DataPage_purge P (m_data cs) i trx pg of None \<Rightarrow> fail e0
       | Some (pg', purged) \<Rightarrow> bind_op (upd x (\<lambda>_. pg')) (\<lambda>_.
           when_op (b \<and> purged \<and> DataPage_needs_add_to_free_list P False pg')
             (bind_op (RootPage_get_free_slot P (m_root cs) ?root) (\<lambda>k.
              RootPage_add_free_page P (m_root cs) ?root x k e))))
      (\<lambda>_. store_kept P cs s dl (purged_slots trx (x, i) (store_slots P cs (pages s) dl))) ?E" for b pg e e0
  proof (cases "pg = ?pg")
    case True
    with triple_pre [OF purge_write_triple [OF si x i pu, of b e]] show ?thesis by (simp add: pu)
  next
    case False
    then show ?thesis by (simp add: triple_def)
  qed
  have "triple (\<lambda>t. t = s) (ColumnStore_purge P cs trx (DataPage_encode_column_ref x i))
      (\<lambda>_. store_kept P cs s dl (purged_slots trx (x, i) (store_slots P cs (pages s) dl))) ?E"
    unfolding ColumnStore_purge_def col_ref_slot [OF i] Let_def prod.case
    by (intro triple_bind [OF t1] triple_bind [OF t2] triple_bind [OF t3] triple_bind [OF t4] t5)
  then show ?thesis by (auto simp: triple_def)
qed

end

end
