(* ===== verification/Store_Trace.thy ===== *)
theory Store_Trace
  imports Column_Refinement
begin

text \<open>
  A column store under a sequence of calls. The commands a server issues are a datatype, an abstract
  store is a map from column references to records, and every run of the concrete operations is
  shown to be a run of the abstract store, whatever API calls fail on the way.
\<close>

subsection \<open>What every operation keeps\<close>

text \<open>
  \<open>session_ok\<close>: pages the segment manager will hand out do not exist yet, the page with the
  segments exists, and the hint of the thread is a slot of a page. Every operation keeps it,
  on success and on error.
\<close>

definition session_ok :: "page_ref \<Rightarrow> nat \<Rightarrow> 'p env \<Rightarrow> bool" where
  "session_ok prim n s \<longleftrightarrow> fresh_ok s \<and> pages s prim \<noteq> None \<and> lsi_next_free_rec_hint (s_last_slot_info s) < n"

definition preserves :: "('p env \<Rightarrow> bool) \<Rightarrow> ('p, 'a) op \<Rightarrow> bool" where
  "preserves I m \<longleftrightarrow> triple I m (\<lambda>_. I) (\<lambda>_. I)"

named_theorems keeps \<open>operations that keep an invariant of the environment\<close>

lemma preserves_monad [keeps]:
  "preserves I (ret x)" "preserves I (fail e)" "preserves I (gets f)" "preserves I (require b e)" "preserves I (peek r)"
  by (auto simp: preserves_def triple_def ret_def fail_def gets_def require_def peek_def
      split: option.splits)

lemma preserves_bind [keeps]:
  "preserves I m \<Longrightarrow> (\<And>x. preserves I (f x)) \<Longrightarrow> preserves I (bind_op m f)"
  unfolding preserves_def by (rule triple_bind)

lemma preserves_when [keeps]: "preserves I m \<Longrightarrow> preserves I (when_op b m)"
  unfolding preserves_def by (rule triple_when)

lemma preserves_if [keeps]: "preserves I m \<Longrightarrow> preserves I n \<Longrightarrow> preserves I (if b then m else n)"
  by simp

lemma preserves_option [keeps]:
  "(\<And>x. preserves I (f x)) \<Longrightarrow> preserves I m \<Longrightarrow> preserves I (case opt of None \<Rightarrow> m | Some x \<Rightarrow> f x)"
  by (cases opt) auto

lemma preserves_prod [keeps]: "(\<And>a b. preserves I (f a b)) \<Longrightarrow> preserves I (case pr of (a, b) \<Rightarrow> f a b)"
  by (cases pr) auto

lemma preserves_Let [keeps]: "(\<And>x. preserves I (f x)) \<Longrightarrow> preserves I (Let v f)"
  by (simp add: Let_def)

lemma session_pages [keeps]:
  "preserves (session_ok prim n) (load r l e)" "preserves (session_ok prim n) (release r e)"
  "preserves (session_ok prim n) (upd r f)" "preserves (session_ok prim n) (take_fresh pg seg e)"
  "preserves (session_ok prim n) (uniform_draw k)"
proof -
  show "preserves (session_ok prim n) (load r l e)"
    unfolding preserves_def by (rule triple_load) (auto simp: session_ok_def fresh_ok_def)
  show "preserves (session_ok prim n) (release r e)"
    unfolding preserves_def by (rule triple_release) (auto simp: session_ok_def fresh_ok_def)
  show "preserves (session_ok prim n) (upd r f)"
    by (auto simp: preserves_def triple_def upd_def session_ok_def fresh_ok_def
        split: option.splits latch.splits)
  show "preserves (session_ok prim n) (take_fresh pg seg e)"
    unfolding preserves_def by (rule triple_take_fresh) (auto simp: session_ok_def fresh_ok_def)
  show "preserves (session_ok prim n) (uniform_draw k)"
    by (auto simp: preserves_def triple_def uniform_draw_def session_ok_def fresh_ok_def split: list.splits)
qed

lemma session_slot_info [keeps]:
  "lsi_next_free_rec_hint i < n \<Longrightarrow> preserves (session_ok prim n) (modify (\<lambda>s. s\<lparr>s_last_slot_info := i\<rparr>))"
  by (auto simp: preserves_def triple_def modify_def session_ok_def fresh_ok_def)

lemma session_load_new [keeps]: "preserves (session_ok prim n) (load_new P seg e)"
  unfolding load_new_def by (intro keeps)

lemma session_root_page [keeps]:
  "preserves (session_ok prim n) (RootPage_add_free_page P rp root x k e)"
  "preserves (session_ok prim n) (RootPage_remove_free_page P rp root x e)"
  "preserves (session_ok prim n) (RootPage_add_data_page P rp root x e)"
  "preserves (session_ok prim n) (RootPage_get_random_slot k)"
  unfolding RootPage_add_free_page_def RootPage_remove_free_page_def RootPage_add_data_page_def
    RootPage_get_random_slot_def
  by (intro keeps)+

lemma session_select [keeps]:
  "0 < n \<Longrightarrow> preserves (session_ok prim n) (RootPage_page_select P rp root sp)"
  "preserves (session_ok prim n) (RootPage_get_free_slot P rp root)"
  unfolding RootPage_page_select_def RootPage_get_free_slot_def by (intro keeps, simp)+ (intro keeps)

lemma session_insert_record [keeps]:
  assumes "0 < m_max_num_recs (m_data cs)"
  shows "preserves (session_ok prim (m_max_num_recs (m_data cs))) (ColumnStore_insert_record P cs x trx data)"
proof -
  have "snd (snd (DataPage_insert P (m_data cs) trx data h pg)) < m_max_num_recs (m_data cs)" for h pg
    using assms by (simp add: DataPage_insert_def Let_def)
  then show ?thesis
    unfolding ColumnStore_insert_record_def Let_def split_beta by (intro keeps) simp
qed

lemma store_session [keeps]:
  fixes cs :: column_store and prim :: page_ref
  assumes n: "0 < m_max_num_recs (m_data cs)"
  defines "I \<equiv> session_ok prim (m_max_num_recs (m_data cs))"
  shows "preserves I (ColumnStore_insert P cs conc trx data)" "preserves I (ColumnStore_fetch P cs r b)"
    "preserves I (ColumnStore_update P cs r data ids sz)" "preserves I (ColumnStore_mark_delete P cs trx r b)"
    "preserves I (ColumnStore_purge P cs trx r)"
  unfolding I_def ColumnStore_insert_def ColumnStore_select_page_def ColumnStore_pessimistic_page_def
    ColumnStore_new_data_page_def ColumnStore_fetch_def ColumnStore_update_def ColumnStore_mark_delete_def
    ColumnStore_purge_def
  by (intro keeps n)+

subsection \<open>Commands and the abstract store\<close>

datatype store_cmd =
    Insert nat trx_ref "byte list option"
  | Fetch column_ref bool
  | Update column_ref "byte list option" "nat list" nat
  | Mark_delete trx_ref column_ref bool
  | Purge trx_ref column_ref

datatype store_reply = Stored column_ref | Value "byte list" trx_ref bool | Done | Failed store_error

text \<open>A call of the server: the operation in a mini-transaction that is committed afterwards.\<close>

definition in_mtr :: "('a \<Rightarrow> store_reply) \<Rightarrow> ('p, 'a) op \<Rightarrow> 'p env \<Rightarrow> 'p env \<times> store_reply" where
  "in_mtr f m s = (case m s of (s', r) \<Rightarrow> (s'\<lparr>latches := (\<lambda>_. None)\<rparr>, case r of Inl e \<Rightarrow> Failed e | Inr x \<Rightarrow> f x))"

fun run_cmd :: "'p page_api \<Rightarrow> column_store \<Rightarrow> store_cmd \<Rightarrow> 'p env \<Rightarrow> 'p env \<times> store_reply" where
  "run_cmd P cs (Insert conc trx data) = in_mtr Stored (ColumnStore_insert P cs conc trx data)"
| "run_cmd P cs (Fetch r for_update) = in_mtr (\<lambda>(bs, t, d). Value bs t d) (ColumnStore_fetch P cs r for_update)"
| "run_cmd P cs (Update r data ids sz) = in_mtr (\<lambda>_. Done) (ColumnStore_update P cs r data ids sz)"
| "run_cmd P cs (Mark_delete trx r b) = in_mtr (\<lambda>_. Done) (ColumnStore_mark_delete P cs trx r b)"
| "run_cmd P cs (Purge trx r) = in_mtr (\<lambda>_. Done) (ColumnStore_purge P cs trx r)"

fun cmd_refs :: "store_cmd \<Rightarrow> column_ref set" where
  "cmd_refs (Insert conc trx data) = {}"
| "cmd_refs (Fetch r u) = {r}"
| "cmd_refs (Update r data ids sz) = {r}"
| "cmd_refs (Mark_delete trx r b) = {r}"
| "cmd_refs (Purge trx r) = {r}"

fun reply_refs :: "store_reply \<Rightarrow> column_ref set" where
  "reply_refs (Stored r) = {r}"
| "reply_refs _ = {}"

text \<open>
  The abstract store maps locations to slot states; \<open>n\<close> is the size of a value, \<open>fault\<close> says
  whether an API call may fail. Without a fault, a command fails only when it is refused: a value of
  the wrong size, bad chunk arguments, or a free slot.
\<close>

type_synonym store_content = "page_ref \<times> nat \<Rightarrow> slot_state"

definition good_chunks :: "nat \<Rightarrow> byte list \<Rightarrow> nat list \<Rightarrow> nat \<Rightarrow> bool" where
  "good_chunks n bs ids sz \<longleftrightarrow> 0 < sz \<and> length bs = n \<and> sorted_wrt (<) ids \<and> (\<forall>c\<in>set ids. c * sz + sz \<le> n)"

fun refused :: "nat \<Rightarrow> store_content \<Rightarrow> store_cmd \<Rightarrow> bool" where
  "refused n f (Insert conc trx data) \<longleftrightarrow> (case data of None \<Rightarrow> True | Some bs \<Rightarrow> length bs \<noteq> n)"
| "refused n f (Fetch r u) \<longleftrightarrow> f (DataPage_decode_column_ref r) = Free"
| "refused n f (Update r data ids sz) \<longleftrightarrow> ids \<noteq> []
     \<and> (case data of None \<Rightarrow> True | Some bs \<Rightarrow> \<not> good_chunks n bs ids sz \<or> f (DataPage_decode_column_ref r) = Free)"
| "refused n f _ \<longleftrightarrow> False"

inductive spec_step :: "nat \<Rightarrow> bool \<Rightarrow> store_content \<Rightarrow> store_cmd \<Rightarrow> store_reply \<Rightarrow> store_content \<Rightarrow> bool" for n fault where
  insert: "f (DataPage_decode_column_ref r) = Free \<Longrightarrow> length bs = n \<Longrightarrow>
    spec_step n fault f (Insert conc trx (Some bs)) (Stored r) (f(DataPage_decode_column_ref r := Occupied False trx bs))"
| fetch: "f (DataPage_decode_column_ref r) = Occupied d t bs \<Longrightarrow> spec_step n fault f (Fetch r u) (Value bs t d) f"
| update: "f (DataPage_decode_column_ref r) = Occupied d t old \<Longrightarrow> ids \<noteq> [] \<Longrightarrow> good_chunks n bs ids sz \<Longrightarrow>
    spec_step n fault f (Update r (Some bs) ids sz) Done
      (f(DataPage_decode_column_ref r := Occupied d t (merge_chunks sz ids bs old)))"
| update_none: "spec_step n fault f (Update r data [] sz) Done f"
| mark: "spec_step n fault f (Mark_delete trx r b) Done
    (f(DataPage_decode_column_ref r := marked_slot b trx (f (DataPage_decode_column_ref r))))"
| purge: "spec_step n fault f (Purge trx r) Done (purged_slots trx (DataPage_decode_column_ref r) f)"
| refusal: "refused n f c \<Longrightarrow> spec_step n fault f c (Failed e) f"
| api_failure: "fault \<Longrightarrow> spec_step n fault f c (Failed e) f"
| late_failure: "fault \<Longrightarrow> spec_step n fault f (Purge trx r) (Failed e) (purged_slots trx (DataPage_decode_column_ref r) f)"

inductive_cases spec_insertE: "spec_step n fault f (Insert conc trx data) (Stored r) f'"
inductive_cases spec_fetchE: "spec_step n fault f (Fetch r u) (Value bs t d) f'"
inductive_cases spec_failE: "spec_step n fault f c (Failed e) f'"

text \<open>A reference to a record of the store.\<close>

definition store_ref :: "column_store \<Rightarrow> page_ref list \<Rightarrow> column_ref \<Rightarrow> bool" where
  "store_ref cs dl r \<longleftrightarrow> (\<exists>x\<in>set dl. \<exists>i < m_max_num_recs (m_data cs). r = DataPage_encode_column_ref x i)"

text \<open>An environment whose store, with data pages \<open>dl\<close>, is intact and ready for the next call.\<close>

definition store_state :: "'p page_api \<Rightarrow> column_store \<Rightarrow> page_ref list \<Rightarrow> 'p env \<Rightarrow> bool" where
  "store_state P cs dl s \<longleftrightarrow> (\<exists>fl. store_inv P cs (pages s) fl dl)
     \<and> session_ok (m_primary_root_page_ref cs) (m_max_num_recs (m_data cs)) s"

text \<open>The result of one call, as the simulation needs it.\<close>

definition simulated ::
    "'p page_api \<Rightarrow> column_store \<Rightarrow> page_ref list \<Rightarrow> 'p env \<Rightarrow> store_cmd \<Rightarrow> 'p env \<Rightarrow> store_reply \<Rightarrow> bool" where
  "simulated P cs dl s c s' rep \<longleftrightarrow> (\<exists>fl' dl'. store_inv P cs (pages s') fl' dl' \<and> set dl \<subseteq> set dl'
     \<and> (\<forall>r\<in>reply_refs rep. store_ref cs dl' r)
     \<and> spec_step (m_column_size (m_root cs)) (faults s \<noteq> [] \<or> fresh s = [])
         (store_slots P cs (pages s) dl) c rep (store_slots P cs (pages s') dl'))"

lemma simulated_same:
  "store_inv P cs (pages s') fl dl \<Longrightarrow> reply_refs rep = {} \<Longrightarrow>
   spec_step (m_column_size (m_root cs)) (faults s \<noteq> [] \<or> fresh s = [])
     (store_slots P cs (pages s) dl) c rep (store_slots P cs (pages s') dl) \<Longrightarrow> simulated P cs dl s c s' rep"
  unfolding simulated_def by (intro exI [of _ fl] exI [of _ dl]) simp

lemma simulated_failed:
  "store_inv P cs (pages s) fl dl \<Longrightarrow> pages s' = pages s \<Longrightarrow>
   faults s \<noteq> [] \<or> refused (m_column_size (m_root cs)) (store_slots P cs (pages s) dl) c \<Longrightarrow>
   simulated P cs dl s c s' (Failed e)"
  by (rule simulated_same [of _ _ _ fl]) (auto intro: spec_step.intros)

subsection \<open>Every call is a step of the abstract store\<close>

lemma in_mtr_simulated:
  assumes "\<And>s' x. m s = (s', Inr x) \<Longrightarrow> simulated P cs dl s c s' (f x)"
    and "\<And>s' e. m s = (s', Inl e) \<Longrightarrow> simulated P cs dl s c s' (Failed e)"
  shows "simulated P cs dl s c (fst (in_mtr f m s)) (snd (in_mtr f m s))"
proof -
  obtain s' r where m: "m s = (s', r)" by (cases "m s")
  have "simulated P cs dl s c (s'\<lparr>latches := l\<rparr>) rep = simulated P cs dl s c s' rep" for l rep
    by (simp add: simulated_def)
  with m assms show ?thesis by (cases r) (simp_all add: in_mtr_def)
qed

lemma in_mtr_session:
  assumes "preserves (session_ok prim n) m" "session_ok prim n s"
  shows "session_ok prim n (fst (in_mtr f m s))"
proof -
  obtain s' r where m: "m s = (s', r)" by (cases "m s")
  with assms have "session_ok prim n s'" by (auto simp: preserves_def triple_def split: sum.splits)
  with m show ?thesis by (simp add: in_mtr_def session_ok_def fresh_ok_def)
qed

context store_layout
begin

lemma insert_simulated:
  assumes si: "store_inv P cs (pages s) fl dl" and d4: "4 dvd m_max_num_recs (m_data cs)"
    and se: "session_ok (m_primary_root_page_ref cs) (m_max_num_recs (m_data cs)) s"
  shows "simulated P cs dl s (Insert conc trx data) (fst (run_cmd P cs (Insert conc trx data) s))
    (snd (run_cmd P cs (Insert conc trx data) s))"
  unfolding run_cmd.simps
proof (rule in_mtr_simulated)
  let ?n = "m_column_size (m_root cs)" and ?f = "store_slots P cs (pages s) dl"
  have ready: "insert_ready P cs dl s"
    using se d4 by (simp add: insert_ready_def session_ok_def hint_ok_def hint_safe_def)
  have data: "\<exists>bs. data = Some bs \<and> length bs = ?n" if "ColumnStore_insert P cs conc trx data s = (s', Inr r)" for s' r
    using that by (auto simp: ColumnStore_insert_def fail_def require_def bind_op_def split: option.splits if_splits)
  show "simulated P cs dl s (Insert conc trx data) s' (Stored r)"
    if run: "ColumnStore_insert P cs conc trx data s = (s', Inr r)" for s' r
  proof -
    obtain bs where bs: "data = Some bs" "length bs = ?n" using data [OF run] by blast
    have "ins_done P cs s dl trx bs r s'"
      using insert_outcome [OF si ready bs(2), where concurrency = conc and trx = trx] run bs by simp
    then obtain x i fl' dl' where r: "r = DataPage_encode_column_ref x i" "x \<in> set dl'" "i < m_max_num_recs (m_data cs)"
      and si': "store_inv P cs (pages s') fl' dl'" "set dl \<subseteq> set dl'" and free: "?f (x, i) = Free"
      and sl: "store_slots P cs (pages s') dl' = ?f((x, i) := Occupied False trx bs)"
      unfolding ins_done_def by blast
    have "store_ref cs dl' r" unfolding store_ref_def using r by blast
    moreover have "spec_step ?n (faults s \<noteq> [] \<or> fresh s = []) ?f (Insert conc trx data) (Stored r) (store_slots P cs (pages s') dl')"
      using spec_step.insert [of ?f r bs ?n _ conc trx] free bs by (simp add: sl r(1) col_ref_slot [OF r(3)])
    ultimately show ?thesis unfolding simulated_def using si' by auto
  qed
  show "simulated P cs dl s (Insert conc trx data) s' (Failed e)"
    if run: "ColumnStore_insert P cs conc trx data s = (s', Inl e)" for s' e
  proof (cases "refused ?n ?f (Insert conc trx data)")
    case True
    then have "pages s' = pages s"
      using run by (auto simp: ColumnStore_insert_def fail_def require_def bind_op_def split: option.splits if_splits)
    with True si show ?thesis by (intro simulated_failed) auto
  next
    case False
    then obtain bs where bs: "data = Some bs" "length bs = ?n" by (cases data) auto
    have "ins_error P cs s dl e s'"
      using insert_outcome [OF si ready bs(2), where concurrency = conc and trx = trx] run bs by simp
    then obtain fl' dl' where fa: "faults s \<noteq> [] \<or> fresh s = []" and si': "store_inv P cs (pages s') fl' dl'"
      and ex: "store_ext P cs (pages s) dl (pages s') dl'"
      unfolding ins_error_def by blast
    have "spec_step ?n (faults s \<noteq> [] \<or> fresh s = []) ?f (Insert conc trx data) (Failed e) (store_slots P cs (pages s') dl')"
      unfolding store_ext_slots(1) [OF ex] by (rule spec_step.api_failure [OF fa])
    then show ?thesis unfolding simulated_def using si' store_ext_slots(2) [OF ex] by auto
  qed
qed

lemma fetch_simulated:
  assumes si: "store_inv P cs (pages s) fl dl" and r: "store_ref cs dl r"
  shows "simulated P cs dl s (Fetch r u) (fst (run_cmd P cs (Fetch r u) s)) (snd (run_cmd P cs (Fetch r u) s))"
  unfolding run_cmd.simps
proof (rule in_mtr_simulated)
  let ?f = "store_slots P cs (pages s) dl"
  obtain x i where x: "x \<in> set dl" "i < m_max_num_recs (m_data cs)" "r = DataPage_encode_column_ref x i"
    using r by (auto simp: store_ref_def)
  have dec: "DataPage_decode_column_ref r = (x, i)" using x col_ref_slot by simp
  note out = fetch_outcome [OF si x(1,2), where for_update = u, folded x(3)]
  show "simulated P cs dl s (Fetch r u) s' (case v of (bs, t, d) \<Rightarrow> Value bs t d)"
    if "ColumnStore_fetch P cs r u s = (s', Inr v)" for s' v
  proof -
    from that out obtain d t bs where o: "?f (x, i) = Occupied d t bs" "v = (bs, t, d)" and p: "pages s' = pages s"
      by (cases "?f (x, i)") auto
    show ?thesis
      by (rule simulated_same [of _ _ _ fl]) (use si p o dec in \<open>auto intro: spec_step.fetch\<close>)
  qed
  show "simulated P cs dl s (Fetch r u) s' (Failed e)" if "ColumnStore_fetch P cs r u s = (s', Inl e)" for s' e
    using that out si dec by (intro simulated_failed) (auto split: slot_state.splits)
qed

lemma mark_simulated:
  assumes si: "store_inv P cs (pages s) fl dl" and r: "store_ref cs dl r"
  shows "simulated P cs dl s (Mark_delete trx r b) (fst (run_cmd P cs (Mark_delete trx r b) s))
    (snd (run_cmd P cs (Mark_delete trx r b) s))"
  unfolding run_cmd.simps
proof (rule in_mtr_simulated)
  obtain x i where x: "x \<in> set dl" "i < m_max_num_recs (m_data cs)" "r = DataPage_encode_column_ref x i"
    using r by (auto simp: store_ref_def)
  have dec: "DataPage_decode_column_ref r = (x, i)" using x col_ref_slot by simp
  note out = mark_delete_outcome [OF si x(1,2), where trx = trx and delete_mark = b, folded x(3)]
  show "simulated P cs dl s (Mark_delete trx r b) s' Done" if "ColumnStore_mark_delete P cs trx r b s = (s', Inr v)" for s' v
    using that out spec_step.mark [of _ _ "store_slots P cs (pages s) dl" trx r b] dec
    by (intro simulated_same [of _ _ _ fl]) auto
  show "simulated P cs dl s (Mark_delete trx r b) s' (Failed e)" if "ColumnStore_mark_delete P cs trx r b s = (s', Inl e)" for s' e
    using that out si by (intro simulated_failed) auto
qed

lemma purge_simulated:
  assumes si: "store_inv P cs (pages s) fl dl" and r: "store_ref cs dl r"
  shows "simulated P cs dl s (Purge trx r) (fst (run_cmd P cs (Purge trx r) s)) (snd (run_cmd P cs (Purge trx r) s))"
  unfolding run_cmd.simps
proof (rule in_mtr_simulated)
  let ?f = "store_slots P cs (pages s) dl"
  obtain x i where x: "x \<in> set dl" "i < m_max_num_recs (m_data cs)" "r = DataPage_encode_column_ref x i"
    using r by (auto simp: store_ref_def)
  have dec: "DataPage_decode_column_ref r = (x, i)" using x col_ref_slot by simp
  note out = purge_outcome [OF si x(1,2), where trx = trx, folded x(3)]
  show "simulated P cs dl s (Purge trx r) s' Done" if "ColumnStore_purge P cs trx r s = (s', Inr v)" for s' v
  proof -
    from that out have "store_kept P cs s dl (purged_slots trx (x, i) ?f) s'" by simp
    then obtain fl' where "store_inv P cs (pages s') fl' dl" "store_slots P cs (pages s') dl = purged_slots trx (x, i) ?f"
      by (auto simp: store_kept_def)
    then show ?thesis using spec_step.purge [of _ _ ?f trx r] dec by (intro simulated_same [of _ _ _ fl']) auto
  qed
  show "simulated P cs dl s (Purge trx r) s' (Failed e)" if "ColumnStore_purge P cs trx r s = (s', Inl e)" for s' e
  proof -
    from that out have "purge_error P cs s dl trx (x, i) e s'" by simp
    then obtain fl' where "faults s \<noteq> []" "store_inv P cs (pages s') fl' dl"
      "store_slots P cs (pages s') dl = ?f \<or> store_slots P cs (pages s') dl = purged_slots trx (x, i) ?f"
      by (auto simp: store_kept_def purge_error_def)
    then show ?thesis
      using spec_step.late_failure [of _ _ ?f trx r] spec_step.api_failure [of _ _ ?f "Purge trx r"] dec
      by (intro simulated_same [of _ _ _ fl']) auto
  qed
qed

lemma update_simulated:
  assumes si: "store_inv P cs (pages s) fl dl" and r: "store_ref cs dl r"
  shows "simulated P cs dl s (Update r data ids sz) (fst (run_cmd P cs (Update r data ids sz) s))
    (snd (run_cmd P cs (Update r data ids sz) s))"
  unfolding run_cmd.simps
proof (rule in_mtr_simulated)
  let ?f = "store_slots P cs (pages s) dl" and ?n = "m_column_size (m_root cs)"
  let ?c = "Update r data ids sz" and ?run = "ColumnStore_update P cs r data ids sz s"
  obtain x i where x: "x \<in> set dl" "i < m_max_num_recs (m_data cs)" "r = DataPage_encode_column_ref x i"
    using r by (auto simp: store_ref_def)
  have dec: "DataPage_decode_column_ref r = (x, i)" using x col_ref_slot by simp
  have bad: "\<exists>e. ?run = (s, Inl e)" if "ids \<noteq> []" "\<nexists>bs. data = Some bs \<and> good_chunks ?n bs ids sz"
    using that by (auto simp: ColumnStore_update_def fail_def good_chunks_def update_check_sorted
        split: option.split)
  have good: "case ?run of (s', Inr _) \<Rightarrow> store_inv P cs (pages s') fl dl
        \<and> (\<exists>d t old. ?f (x, i) = Occupied d t old
            \<and> store_slots P cs (pages s') dl = ?f((x, i) := Occupied d t (merge_chunks sz ids bs old)))
        \<and> (\<forall>y. y \<noteq> x \<longrightarrow> pages s' y = pages s y)
    | (s', Inl e) \<Rightarrow> pages s' = pages s \<and> (faults s \<noteq> [] \<or> ?f (x, i) = Free)"
    if "ids \<noteq> []" "data = Some bs" "good_chunks ?n bs ids sz" for bs
    unfolding that(2) by (rule update_outcome [OF si x(1,2) that(1), folded x(3)])
      (use that(3) in \<open>simp_all add: good_chunks_def\<close>)
  show "simulated P cs dl s ?c s' Done" if run: "?run = (s', Inr v)" for s' v
  proof (cases "ids = []")
    case True
    with run have "s' = s" by (simp add: ColumnStore_update_def ret_def)
    with True si show ?thesis by (intro simulated_same [of _ _ _ fl]) (auto intro: spec_step.update_none)
  next
    case False
    then obtain bs where bs: "data = Some bs" "good_chunks ?n bs ids sz" using bad [OF False] run by fastforce
    from good [OF False this] run obtain d t old where o: "?f (x, i) = Occupied d t old" "store_inv P cs (pages s') fl dl"
      "store_slots P cs (pages s') dl = ?f((x, i) := Occupied d t (merge_chunks sz ids bs old))" by auto
    show ?thesis
      using spec_step.update [of ?f r d t old ids ?n bs sz] o bs False dec
      by (intro simulated_same [of _ _ _ fl]) auto
  qed
  show "simulated P cs dl s ?c s' (Failed e)" if run: "?run = (s', Inl e)" for s' e
  proof -
    have ne: "ids \<noteq> []" using run by (auto simp: ColumnStore_update_def ret_def)
    show ?thesis
    proof (cases "\<exists>bs. data = Some bs \<and> good_chunks ?n bs ids sz")
      case True
      then obtain bs where bs: "data = Some bs" "good_chunks ?n bs ids sz" by blast
      with good [OF ne bs] run dec ne si show ?thesis by (intro simulated_failed) auto
    next
      case False
      with bad [OF ne False] run have "s' = s" by fastforce
      with False ne si show ?thesis by (intro simulated_failed) (auto split: option.splits)
    qed
  qed
qed

lemma run_cmd_simulated:
  assumes st: "store_state P cs dl s" and d4: "4 dvd m_max_num_recs (m_data cs)"
    and refs: "\<forall>r\<in>cmd_refs c. store_ref cs dl r"
  shows "simulated P cs dl s c (fst (run_cmd P cs c s)) (snd (run_cmd P cs c s))"
    and "session_ok (m_primary_root_page_ref cs) (m_max_num_recs (m_data cs)) (fst (run_cmd P cs c s))"
proof -
  obtain fl where si: "store_inv P cs (pages s) fl dl"
    and se: "session_ok (m_primary_root_page_ref cs) (m_max_num_recs (m_data cs)) s"
    using st by (auto simp: store_state_def)
  have n: "0 < m_max_num_recs (m_data cs)" using layout by (simp add: layout_ok_def)
  show "simulated P cs dl s c (fst (run_cmd P cs c s)) (snd (run_cmd P cs c s))"
    using insert_simulated [OF si d4 se] fetch_simulated [OF si] update_simulated [OF si] mark_simulated [OF si]
      purge_simulated [OF si] refs by (cases c) simp_all
  show "session_ok (m_primary_root_page_ref cs) (m_max_num_recs (m_data cs)) (fst (run_cmd P cs c s))"
    using store_session [OF n] se by (cases c) (auto intro!: in_mtr_session)
qed

end
subsection \<open>Runs\<close>

text \<open>
  A client calls the store with references it was given. Every event records whether an API call
  could fail at that point, the command and the reply.
\<close>

type_synonym store_event = "bool \<times> store_cmd \<times> store_reply"

inductive client_run ::
    "'p page_api \<Rightarrow> column_store \<Rightarrow> 'p env \<Rightarrow> column_ref set \<Rightarrow> store_event list \<Rightarrow> 'p env \<Rightarrow> column_ref set \<Rightarrow> bool"
  for P cs s R where
  start: "client_run P cs s R [] s R"
| call: "client_run P cs s R h s1 R1 \<Longrightarrow> cmd_refs c \<subseteq> R1 \<Longrightarrow> run_cmd P cs c s1 = (s2, rep) \<Longrightarrow>
    client_run P cs s R (h @ [(faults s1 \<noteq> [] \<or> fresh s1 = [], c, rep)]) s2 (R1 \<union> reply_refs rep)"

inductive spec_run :: "nat \<Rightarrow> store_content \<Rightarrow> store_event list \<Rightarrow> store_content \<Rightarrow> bool" for n f where
  start: "spec_run n f [] f"
| step: "spec_run n f h f1 \<Longrightarrow> spec_step n b f1 c rep f2 \<Longrightarrow> spec_run n f (h @ [(b, c, rep)]) f2"

lemma store_ref_mono: "store_ref cs dl r \<Longrightarrow> set dl \<subseteq> set dl' \<Longrightarrow> store_ref cs dl' r"
  by (auto simp: store_ref_def)

context store_layout
begin

lemma client_run_refines:
  assumes run: "client_run P cs s R h s' R'" and d4: "4 dvd m_max_num_recs (m_data cs)"
    and st: "store_state P cs dl s" and R: "\<forall>r\<in>R. store_ref cs dl r"
  shows "\<exists>dl'. store_state P cs dl' s' \<and> set dl \<subseteq> set dl' \<and> (\<forall>r\<in>R'. store_ref cs dl' r)
    \<and> spec_run (m_column_size (m_root cs)) (store_slots P cs (pages s) dl) h (store_slots P cs (pages s') dl')"
  using run
proof induction
  case start
  show ?case using st R spec_run.start by blast
next
  case (call h s1 R1 c s2 rep)
  let ?n = "m_column_size (m_root cs)"
  obtain dl1 where st1: "store_state P cs dl1 s1" "set dl \<subseteq> set dl1" "\<forall>r\<in>R1. store_ref cs dl1 r"
    and sp1: "spec_run ?n (store_slots P cs (pages s) dl) h (store_slots P cs (pages s1) dl1)"
    using call.IH by blast
  have refs: "\<forall>r\<in>cmd_refs c. store_ref cs dl1 r" using call.hyps(2) st1(3) by blast
  have sim: "simulated P cs dl1 s1 c s2 rep"
    and se: "session_ok (m_primary_root_page_ref cs) (m_max_num_recs (m_data cs)) s2"
    using run_cmd_simulated [OF st1(1) d4 refs] call.hyps(3) by simp_all
  from sim obtain fl' dl' where si: "store_inv P cs (pages s2) fl' dl'" "set dl1 \<subseteq> set dl'"
      "\<forall>r\<in>reply_refs rep. store_ref cs dl' r"
    and sp: "spec_step ?n (faults s1 \<noteq> [] \<or> fresh s1 = []) (store_slots P cs (pages s1) dl1) c rep (store_slots P cs (pages s2) dl')"
    unfolding simulated_def by blast
  have "store_state P cs dl' s2" using si(1) se by (auto simp: store_state_def)
  moreover have "\<forall>r\<in>R1 \<union> reply_refs rep. store_ref cs dl' r"
    using st1(3) si(2,3) store_ref_mono by blast
  ultimately show ?case
    using st1(2) si(2) spec_run.step [OF sp1 sp] by blast
qed

end

text \<open>A value comes out of the abstract store only when it was put in.\<close>

fun is_update :: "store_cmd \<Rightarrow> bool" where
  "is_update (Update r data ids sz) = True"
| "is_update _ = False"

definition no_updates :: "store_event list \<Rightarrow> bool" where
  "no_updates h \<longleftrightarrow> (\<forall>(b, c, rep)\<in>set h. \<not> is_update c)"

definition inserted :: "store_event list \<Rightarrow> page_ref \<times> nat \<Rightarrow> byte list \<Rightarrow> bool" where
  "inserted h a bs \<longleftrightarrow> (\<exists>b conc trx r. (b, Insert conc trx (Some bs), Stored r) \<in> set h \<and> DataPage_decode_column_ref r = a)"

lemma marked_slot_Occupied: "marked_slot b trx v = Occupied d t bs \<Longrightarrow> \<exists>d t. v = Occupied d t bs"
  by (auto simp: marked_slot_def split: slot_state.splits)

lemma purged_slots_Occupied: "purged_slots trx a f x = Occupied d t bs \<Longrightarrow> f x = Occupied d t bs"
  by (auto simp: purged_slots_def split: slot_state.splits if_splits)

lemma spec_step_origin:
  assumes "spec_step n b f c rep f'" "f' a = Occupied d t bs" "\<not> is_update c"
  shows "(\<exists>d t. f a = Occupied d t bs)
    \<or> (\<exists>conc trx r. c = Insert conc trx (Some bs) \<and> rep = Stored r \<and> DataPage_decode_column_ref r = a)"
  using assms
proof induction
  case (insert f r bs' conc trx)
  then show ?case by (cases "a = DataPage_decode_column_ref r") auto
next
  case (mark f trx r b)
  show ?case
  proof (cases "a = DataPage_decode_column_ref r")
    case True
    with mark have "marked_slot b trx (f a) = Occupied d t bs" by simp
    then show ?thesis using marked_slot_Occupied by blast
  next
    case False
    with mark show ?thesis by simp
  qed
next
  case (purge f trx r)
  then show ?case using purged_slots_Occupied by blast
next
  case (late_failure f trx r e)
  then show ?case using purged_slots_Occupied by blast
qed simp_all

lemma inserted_append: "inserted h a bs \<Longrightarrow> inserted (h @ [e]) a bs"
  unfolding inserted_def by (metis UnI1 set_append)

lemma inserted_last: "inserted (h @ [(b, Insert conc trx (Some bs), Stored r)]) (DataPage_decode_column_ref r) bs"
  unfolding inserted_def by (metis in_set_conv_decomp)

lemma spec_run_origin:
  assumes "spec_run n (\<lambda>_. Free) h f" "no_updates h"
  shows "f a = Occupied d t bs \<Longrightarrow> inserted h a bs"
  using assms
proof (induction arbitrary: d t)
  case start
  then show ?case by simp
next
  case (step h f1 b c rep f2)
  have nu: "no_updates h" "\<not> is_update c"
    using step.prems(2) by (auto simp: no_updates_def)
  from spec_step_origin [OF step.hyps(2) step.prems(1) nu(2)] show ?case
  proof
    assume "\<exists>d t. f1 a = Occupied d t bs"
    then obtain d' t' where "f1 a = Occupied d' t' bs" by blast
    from step.IH [OF this nu(1)] show ?thesis by (rule inserted_append)
  next
    assume "\<exists>conc trx r. c = Insert conc trx (Some bs) \<and> rep = Stored r \<and> DataPage_decode_column_ref r = a"
    then show ?thesis using inserted_last by blast
  qed
qed

lemma spec_run_fetch:
  assumes "spec_run n (\<lambda>_. Free) h f" "no_updates h" "(b, Fetch r u, Value bs t d) \<in> set h"
  shows "inserted h (DataPage_decode_column_ref r) bs"
  using assms
proof induction
  case start
  then show ?case by simp
next
  case (step h f1 b' c rep f2)
  have nu: "no_updates h" using step.prems(1) by (auto simp: no_updates_def)
  show ?case
  proof (cases "(b, Fetch r u, Value bs t d) \<in> set h")
    case True
    show ?thesis by (rule inserted_append [OF step.IH [OF nu True]])
  next
    case False
    then have "c = Fetch r u" "rep = Value bs t d" using step.prems(2) by auto
    with step.hyps(2) have "f1 (DataPage_decode_column_ref r) = Occupied d t bs" by (auto elim: spec_fetchE)
    from spec_run_origin [OF step.hyps(1) nu this] show ?thesis by (rule inserted_append)
  qed
qed

context store_layout
begin

lemma insert_then_fetch:
  assumes st: "store_state P cs dl s" and d4: "4 dvd m_max_num_recs (m_data cs)"
    and ok: "faults s = []" "fresh s \<noteq> []" and len: "length bs = m_column_size (m_root cs)"
  obtains r s1 s2 where "run_cmd P cs (Insert conc trx (Some bs)) s = (s1, Stored r)"
    "run_cmd P cs (Fetch r u) s1 = (s2, Value bs trx False)"
proof -
  obtain fl where si: "store_inv P cs (pages s) fl dl" and ready: "insert_ready P cs dl s"
    using st d4 by (auto simp: store_state_def insert_ready_def session_ok_def hint_ok_def hint_safe_def)
  obtain s1 res where run: "ColumnStore_insert P cs conc trx (Some bs) s = (s1, res)"
    by (cases "ColumnStore_insert P cs conc trx (Some bs) s")
  from insert_outcome [OF si ready len, where concurrency = conc and trx = trx] run ok
  obtain r where r: "res = Inr r" "ins_done P cs s dl trx bs r s1"
    by (cases res) (auto simp: ins_error_def)
  let ?s1 = "s1\<lparr>latches := (\<lambda>_. None)\<rparr>"
  from r(2) obtain x i fl' dl' where x: "x \<in> set dl'" "i < m_max_num_recs (m_data cs)"
      "r = DataPage_encode_column_ref x i" "store_inv P cs (pages ?s1) fl' dl'" "faults ?s1 = []"
    and sl: "store_slots P cs (pages ?s1) dl' (x, i) = Occupied False trx bs"
    using ok by (auto simp: ins_done_def)
  obtain s2 res2 where f: "ColumnStore_fetch P cs r u ?s1 = (s2, res2)" by (cases "ColumnStore_fetch P cs r u ?s1")
  with fetch_outcome [OF x(4,1,2), of u] x(3,5) sl have "res2 = Inr (bs, trx, False)" by auto
  with f run r(1) show thesis
    using that [of ?s1 r "s2\<lparr>latches := (\<lambda>_. None)\<rparr>"] by (simp add: in_mtr_def)
qed

end

subsection \<open>A store of the test backend\<close>

definition fake_cs :: column_store where
  "fake_cs = \<lparr>m_root = fake_rp, m_data = DataPage_init 16384 16, m_space_ref = 0, m_root_page_ref = 1,
     m_primary_root_page_ref = 1, m_segment_index = 0, m_metadata = svector_metadata\<rparr>"

definition fake_store_env :: "buffer env" where
  "fake_store_env = fake_env\<lparr>pages := [1 \<mapsto> fake_root_page], fresh := [2, 3, 4]\<rparr>"

lemma fake_cs_members [simp]:
  "m_root fake_cs = fake_rp" "m_data fake_cs = DataPage_init 16384 16" "m_root_page_ref fake_cs = 1"
  "m_primary_root_page_ref fake_cs = 1" "m_column_size fake_rp = 16"
  by (simp_all add: fake_cs_def fake_rp_def RootPage_init_def Let_def)

lemma fake_recs: "m_max_num_recs (DataPage_init 16384 16) = 672" "m_rec_size (DataPage_init 16384 16) = 24"
  by (simp_all add: DataPage_init_def Let_def layout_defs refine_max_recs.simps bits_to_bytes_ceil_def
      MAX_ITERATIONS_def MAX_SLOT_INDEX_def SLOT_INDEX_BITS_def)

interpretation fake_store: store_layout fake_api fake_cs
proof -
  have sz: "get_size fake_api = 16384" by (simp add: fake_api_def kPageSize_def)
  show "store_layout fake_api fake_cs"
    unfolding store_layout_def store_layout_axioms_def
    using fake_root.root_layout_axioms fake16.data_layout_axioms by (simp add: sz fake_recs layout_defs)
qed

lemma fake_store_state: "store_state fake_api fake_cs [] fake_store_env" "faults fake_store_env = []"
  "fresh fake_store_env \<noteq> []" "store_slots fake_api fake_cs (pages fake_store_env) [] = (\<lambda>_. Free)"
proof -
  have "root_lists fake_api fake_rp (Map.empty(1 \<mapsto> fake_root_page)) 1 (\<lambda>_. []) []"
    by (rule fake_root.RootPage_format_root_lists [OF fake_segment_root_blank _ _ fake_root_page_format])
      (simp_all add: fake_rp_members INVALID_REF_def)
  then have "store_inv fake_api fake_cs (pages fake_store_env) (\<lambda>_. []) []"
    by (simp add: store_inv_def fake_store_env_def)
  then show "store_state fake_api fake_cs [] fake_store_env"
    by (auto simp: store_state_def session_ok_def fresh_ok_def fake_store_env_def fake_env_def fake_recs
        init_last_slot_info_def INVALID_REF_def)
qed (auto simp: fake_store_env_def fake_env_def store_slots_def fun_eq_iff)

lemma fake_4_dvd: "4 dvd m_max_num_recs (m_data fake_cs)"
  by (simp add: fake_recs)

definition fake_vec :: "byte list" where
  "fake_vec = map word_of_nat [1..<17]"

lemma length_fake_vec [simp]: "length fake_vec = 16"
  by (simp add: fake_vec_def)

subsection \<open>Properties\<close>

text \<open>
  C2: every call of a column store is a step of the abstract store. From an intact store and for
  references of the store, insert, fetch, chunk update, delete mark and purge leave an intact
  store, data pages are only added, and reply and new content are one of the outcomes of
  \<open>spec_step\<close>; a call that fails without a failing API call was refused. The record count of a
  page has to be a multiple of four, otherwise the search for a free slot may leave the page.
\<close>

theorem column_store_call_refines:
  assumes "store_layout P cs" "4 dvd m_max_num_recs (m_data cs)" "store_state P cs dl s"
    and "\<forall>r\<in>cmd_refs c. store_ref cs dl r" and "run_cmd P cs c s = (s', rep)"
  shows "\<exists>dl'. store_state P cs dl' s' \<and> set dl \<subseteq> set dl' \<and> (\<forall>r\<in>reply_refs rep. store_ref cs dl' r)
    \<and> spec_step (m_column_size (m_root cs)) (faults s \<noteq> [] \<or> fresh s = [])
        (store_slots P cs (pages s) dl) c rep (store_slots P cs (pages s') dl')"
  using store_layout.run_cmd_simulated [OF assms(1,3,2,4)] assms(5)
  by (auto simp: simulated_def store_state_def)

theorem column_store_call_refines_witness:
  "\<exists>s' r dl'. run_cmd fake_api fake_cs (Insert 1 7 (Some fake_vec)) fake_store_env = (s', Stored r)
     \<and> spec_step 16 False (\<lambda>_. Free) (Insert 1 7 (Some fake_vec)) (Stored r) (store_slots fake_api fake_cs (pages s') dl')"
proof -
  obtain s' r where run: "run_cmd fake_api fake_cs (Insert 1 7 (Some fake_vec)) fake_store_env = (s', Stored r)"
    by (rule fake_store.insert_then_fetch [OF fake_store_state(1) fake_4_dvd fake_store_state(2,3), of fake_vec]) auto
  from column_store_call_refines [OF fake_store.store_layout_axioms fake_4_dvd fake_store_state(1) _ run]
  show ?thesis using run fake_store_state(2,3) unfolding fake_store_state(4) by auto
qed

text \<open>
  C1: the same for whole runs. Whatever sequence of calls a client makes with the references it was
  given, and whatever API calls fail, the replies are those of a run of the abstract store that
  ends in the content of the pages, and the store is intact.
\<close>

theorem column_store_run_refines:
  assumes "store_layout P cs" "4 dvd m_max_num_recs (m_data cs)" "store_state P cs dl s"
    and "\<forall>r\<in>R. store_ref cs dl r" and "client_run P cs s R h s' R'"
  shows "\<exists>dl'. store_state P cs dl' s' \<and> set dl \<subseteq> set dl' \<and> (\<forall>r\<in>R'. store_ref cs dl' r)
    \<and> spec_run (m_column_size (m_root cs)) (store_slots P cs (pages s) dl) h (store_slots P cs (pages s') dl')"
  using store_layout.client_run_refines [OF assms(1,5,2,3,4)] .

theorem column_store_run_refines_witness:
  "\<exists>rep s' dl'. client_run fake_api fake_cs fake_store_env {} [(False, Insert 1 7 (Some fake_vec), rep)] s' (reply_refs rep)
     \<and> spec_run 16 (\<lambda>_. Free) [(False, Insert 1 7 (Some fake_vec), rep)] (store_slots fake_api fake_cs (pages s') dl')"
proof -
  obtain s' rep where run: "run_cmd fake_api fake_cs (Insert 1 7 (Some fake_vec)) fake_store_env = (s', rep)"
    by (cases "run_cmd fake_api fake_cs (Insert 1 7 (Some fake_vec)) fake_store_env")
  have cr: "client_run fake_api fake_cs fake_store_env {} [(False, Insert 1 7 (Some fake_vec), rep)] s' (reply_refs rep)"
    using client_run.call [OF client_run.start _ run, of "{}"] fake_store_state(2,3) by simp
  from column_store_run_refines [OF fake_store.store_layout_axioms fake_4_dvd fake_store_state(1) _ cr]
  show ?thesis using cr unfolding fake_store_state(4) by auto
qed



text \<open>
  C4: an insert with a value of the right size succeeds when no API call fails and the segment has
  a page left, and a fetch of the returned reference, in either latch mode, gives back the bytes,
  the transaction and no delete mark.
\<close>

theorem column_store_insert_fetch:
  assumes "store_layout P cs" "4 dvd m_max_num_recs (m_data cs)" "store_state P cs dl s"
    and "faults s = []" "fresh s \<noteq> []" "length bs = m_column_size (m_root cs)"
  shows "\<exists>r s1 s2. run_cmd P cs (Insert concurrency trx (Some bs)) s = (s1, Stored r)
    \<and> run_cmd P cs (Fetch r for_update) s1 = (s2, Value bs trx False)"
  using store_layout.insert_then_fetch [OF assms(1,3,2,4,5,6)] by metis

theorem column_store_insert_fetch_witness:
  "\<exists>r s1 s2. run_cmd fake_api fake_cs (Insert 1 7 (Some fake_vec)) fake_store_env = (s1, Stored r)
    \<and> run_cmd fake_api fake_cs (Fetch r True) s1 = (s2, Value fake_vec 7 False)"
  by (rule column_store_insert_fetch [OF fake_store.store_layout_axioms fake_4_dvd fake_store_state(1-3)]) simp

text \<open>
  C3: an insert touches its own store only. The new record goes to a slot that was free, all other
  slots and all pages outside the store are as before; when the insert fails, some API call has
  failed or the segment is exhausted, and the content of the store is unchanged.
\<close>

theorem column_store_insert_isolated:
  assumes "store_layout P cs" "store_inv P cs (pages s) fl dl" "insert_ready P cs dl s"
    and "length bs = m_column_size (m_root cs)"
  shows "case ColumnStore_insert P cs concurrency trx (Some bs) s of
      (s', Inr r) \<Rightarrow> (\<exists>x i fl' dl'. r = DataPage_encode_column_ref x i \<and> store_inv P cs (pages s') fl' dl'
        \<and> store_slots P cs (pages s) dl (x, i) = Free
        \<and> store_slots P cs (pages s') dl' = (store_slots P cs (pages s) dl)((x, i) := Occupied False trx bs)
        \<and> set dl \<subseteq> set dl' \<and> others_kept cs dl' (pages s) (pages s'))
    | (s', Inl e) \<Rightarrow> (faults s \<noteq> [] \<or> fresh s = []) \<and> (\<exists>fl' dl'. store_inv P cs (pages s') fl' dl'
        \<and> store_slots P cs (pages s') dl' = store_slots P cs (pages s) dl \<and> others_kept cs dl' (pages s) (pages s'))"
proof -
  obtain s' res where run: "ColumnStore_insert P cs concurrency trx (Some bs) s = (s', res)"
    by (cases "ColumnStore_insert P cs concurrency trx (Some bs) s")
  note out = store_layout.insert_outcome [OF assms, where concurrency = concurrency and trx = trx, unfolded run prod.case]
  show ?thesis
  proof (cases res)
    case (Inl e)
    with out have "ins_error P cs s dl e s'" by simp
    then show ?thesis unfolding run Inl prod.case sum.case ins_error_def using store_ext_slots(1,3) by blast
  next
    case (Inr r)
    with out have "ins_done P cs s dl trx bs r s'" by simp
    then show ?thesis unfolding run Inr prod.case sum.case ins_done_def by blast
  qed
qed

theorem column_store_insert_isolated_witness:
  "insert_ready fake_api fake_cs [] fake_store_env
   \<and> (\<exists>s' r x i fl' dl'. ColumnStore_insert fake_api fake_cs 1 7 (Some fake_vec) fake_store_env = (s', Inr r)
        \<and> r = DataPage_encode_column_ref x i
        \<and> store_inv fake_api fake_cs (pages s') fl' dl'
        \<and> store_slots fake_api fake_cs (pages s') dl' = (\<lambda>_. Free)((x, i) := Occupied False 7 fake_vec))"
proof -
  obtain fl where si: "store_inv fake_api fake_cs (pages fake_store_env) fl []"
    and ready: "insert_ready fake_api fake_cs [] fake_store_env"
    using fake_store_state(1)
    by (auto simp: store_state_def insert_ready_def session_ok_def hint_ok_def hint_safe_def)
  have "length fake_vec = m_column_size (m_root fake_cs)" by simp
  note out = column_store_insert_isolated [OF fake_store.store_layout_axioms si ready this, where concurrency = 1 and trx = 7]
  obtain s' res where run: "ColumnStore_insert fake_api fake_cs 1 7 (Some fake_vec) fake_store_env = (s', res)"
    by (cases "ColumnStore_insert fake_api fake_cs 1 7 (Some fake_vec) fake_store_env")
  show ?thesis
    using out ready fake_store_state(2,3) unfolding fake_store_state(4) run by (cases res) auto
qed

end
