(* ===== verification/Store_Lifecycle.thy ===== *)
theory Store_Lifecycle
  imports Store_Trace
begin

text \<open>
  Creating and opening stores: a created group of stores has an intact, empty primary store, and
  opening it again through its storage reference gives the same objects back.
\<close>

subsection \<open>Storage references\<close>

lemma decode_encode_ref:
  "MultiColumnStore_decode_ref (MultiColumnStore_encode_ref sp r) = (sp, r)"
proof -
  have m: "(0xFFFFFFFF :: 64 word) = mask 32" by (simp add: mask_eq_exp_minus_1)
  have "ucast ((ucast sp OR push_bit 32 (ucast r) :: 64 word) AND mask 32) = sp"
    by (rule bit_eqI) (auto simp: bit_simps dest: bit_imp_le_length)
  moreover have "ucast (drop_bit 32 (ucast sp OR push_bit 32 (ucast r) :: 64 word)) = r"
    by (rule bit_eqI) (auto simp: bit_simps dest: bit_imp_le_length)
  ultimately show ?thesis
    by (simp add: MultiColumnStore_decode_ref_def MultiColumnStore_encode_ref_def m)
qed

lemma encode_decode_ref:
  "(case MultiColumnStore_decode_ref w of (sp, r) \<Rightarrow> MultiColumnStore_encode_ref sp r) = w"
proof -
  have m: "(0xFFFFFFFF :: 64 word) = mask 32" by (simp add: mask_eq_exp_minus_1)
  show ?thesis
    unfolding MultiColumnStore_decode_ref_def MultiColumnStore_encode_ref_def m prod.case
    by (rule bit_eqI) (auto simp: bit_simps dest: bit_imp_le_length)
qed

subsection \<open>Creation\<close>

text \<open>
  The members of the primary store of a new group, and what its specification has to satisfy: the
  counts fit their bytes and the root page has room for a slot.
\<close>

definition primary_store :: "'p page_api \<Rightarrow> space_ref \<Rightarrow> page_ref \<Rightarrow> storage_spec list \<Rightarrow> nat \<Rightarrow> column_store" where
  "primary_store P sp r storages n =
     (ColumnStore_init P sp r (spec_col_len (hd storages)) n (u8 (length storages)) (spec_metadata (hd storages))
        new_column_store)\<lparr>m_primary_root_page_ref := r, m_segment_index := 0\<rparr>"

definition other_stores :: "'p page_api \<Rightarrow> space_ref \<Rightarrow> storage_spec list \<Rightarrow> column_store list" where
  "other_stores P sp storages = map (\<lambda>s. ColumnStore_init P sp INVALID_REF (spec_col_len s) 0 1 (spec_metadata s)
     new_column_store) (tl storages)"

definition creatable :: "'p page_api \<Rightarrow> storage_spec list \<Rightarrow> nat \<Rightarrow> bool" where
  "creatable P storages n \<longleftrightarrow> storages \<noteq> [] \<and> length storages < 256 \<and> n < 256
     \<and> length (spec_metadata (hd storages)) < 256 \<and> 0 < spec_col_len (hd storages) \<and> spec_col_len (hd storages) < 65536
     \<and> get_size P \<le> 65536
     \<and> free_slot_array_off (m_root (primary_store P 0 0 storages n)) + FREE_SLOT_LEN + TRAILER_SIZE \<le> get_size P"

lemma primary_store_members:
  assumes "creatable P storages n"
  shows "m_num_segments (m_root (primary_store P sp r storages n)) = n"
    "m_num_other_root_pages (m_root (primary_store P sp r storages n)) = length storages - 1"
    "m_storage_metadata_len (m_root (primary_store P sp r storages n)) = length (spec_metadata (hd storages))"
    "m_column_size (m_root (primary_store P sp r storages n)) = spec_col_len (hd storages)"
    "m_root_page_ref (primary_store P sp r storages n) = r"
    "m_primary_root_page_ref (primary_store P sp r storages n) = r"
    "m_metadata (primary_store P sp r storages n) = spec_metadata (hd storages)"
    "m_data (primary_store P sp r storages n) = DataPage_init (get_size P) (spec_col_len (hd storages))"
  using assms
  by (auto simp: primary_store_def ColumnStore_init_def RootPage_init_def Let_def creatable_def)

context page_api
begin

lemma primary_root_layout:
  assumes c: "creatable P storages n"
  shows "root_layout P (m_root (primary_store P sp r storages n))"
proof
  show "root_ok P (m_root (primary_store P sp r storages n))"
    using c RootPage_init_ok [of n "length storages" "length (spec_metadata (hd storages))" "spec_col_len (hd storages)" P]
    by (auto simp: creatable_def primary_store_def ColumnStore_init_def new_column_store_def)
qed

lemma primary_blank:
  assumes c: "creatable P storages n"
  shows "blank_root P (m_root (primary_store P sp r storages n)) (segment_root P n)"
  using c segment_root_count [of n] segment_root_zero [of n] primary_store_members(1) [OF c]
  by (auto simp: blank_root_def read_1_byte version_off_def creatable_def unat_of_nat)

lemma create_run:
  assumes c: "creatable P storages n" and ok: "faults s = []" and fr: "fresh s = r # rs"
  obtains pg where
    "RootPage_format P FORMAT_VERSION (spec_metadata (hd storages)) (m_root (primary_store P sp r storages n)) (segment_root P n)
       = Some (m_root (primary_store P sp r storages n), pg)"
    "MultiColumnStore_create P sp storages n s =
      (s\<lparr>fresh := rs, pages := (pages s)(r \<mapsto> pg), seg_of := (seg_of s)(r := None), latches := (\<lambda>_. None)\<rparr>,
       Inr \<lparr>m_ref = MultiColumnStore_encode_ref sp r, m_stores = primary_store P sp r storages n # other_stores P sp storages\<rparr>)"
proof -
  let ?cs = "primary_store P sp r storages n"
  obtain pg where f: "RootPage_format P FORMAT_VERSION (spec_metadata (hd storages)) (m_root ?cs) (segment_root P n) = Some (m_root ?cs, pg)"
    using root_layout.RootPage_format_page [OF primary_root_layout [OF c] primary_blank [OF c], of "spec_metadata (hd storages)"]
      primary_store_members(3) [OF c] by metis
  have u: "?cs\<lparr>m_root := m_root ?cs\<rparr> = ?cs" by simp
  have "MultiColumnStore_create P sp storages n s =
      (s\<lparr>fresh := rs, pages := (pages s)(r \<mapsto> pg), seg_of := (seg_of s)(r := None), latches := (\<lambda>_. None)\<rparr>,
       Inr \<lparr>m_ref = MultiColumnStore_encode_ref sp r, m_stores = ?cs # other_stores P sp storages\<rparr>)"
    unfolding MultiColumnStore_create_def Let_def primary_store_def [symmetric] other_stores_def [symmetric]
    using ok fr f
    by (simp add: bind_op_def segment_create_def take_fresh_def api_call_def commit_def modify_def ret_def
        with_mtr_def load_def peek_def upd_def primary_store_members(7) [OF c])
  with f that show thesis by blast
qed

text \<open>Reading the header of a formatted root page back in stages.\<close>

lemma page_info_formatted:
  assumes c: "creatable P storages n"
    and f: "RootPage_format P v (spec_metadata (hd storages)) (m_root (primary_store P sp r storages n)) (segment_root P n)
      = Some (rp', pg)"
  shows "num_segs (read_page_info P pg) = n" "num_other_root_pages (read_page_info P pg) = length storages - 1"
    "info_col_len (read_page_info P pg) = spec_col_len (hd storages)"
    "info_metadata (read_page_info P pg) = spec_metadata (hd storages)"
    "i < length storages - 1 \<Longrightarrow>
      read_integer_4 P pg (other_root_pages_off (info_rp (read_page_info P pg)) + i * ROOT_PAGE_REF_LEN) = INVALID_REF"
proof -
  let ?rp = "m_root (primary_store P sp r storages n)" and ?md = "spec_metadata (hd storages)"
  note mem = primary_store_members [OF c, of sp r]
  have "length ?md = m_storage_metadata_len ?rp" using mem(3) by simp
  from root_layout.RootPage_format_page [OF primary_root_layout [OF c] primary_blank [OF c] this, of v] f
  have hd: "\<forall>i < version_off ?rp. get_data P pg i = get_data P (segment_root P n) i"
    and ml: "unat (read_integer_1 P pg (storage_metadata_len_off ?rp)) = length ?md"
    and md: "slice (get_data P pg) (storage_metadata_off ?rp) (length ?md) = ?md"
    and nr: "unat (read_integer_1 P pg (num_other_root_pages_off ?rp)) = length storages - 1"
    and rf: "\<forall>i < length storages - 1. read_integer_4 P pg (other_root_pages_off ?rp + i * ROOT_PAGE_REF_LEN) = INVALID_REF"
    and cl: "unat (read_integer_2 P pg (column_size_off ?rp)) = spec_col_len (hd storages)"
    unfolding mem by auto
  have "get_data P pg HEADER_SIZE = word_of_nat n"
    using hd segment_root_count [of n] c by (simp add: creatable_def version_off_def layout_defs)
  then have ns: "unat (read_integer_1 P pg HEADER_SIZE) = n"
    using c by (simp add: read_1_byte creatable_def unat_of_nat)
  have off: "storage_metadata_len_off (RootPage_set_layout n a b rp0) = storage_metadata_len_off ?rp"
    "storage_metadata_off (RootPage_set_layout n a b rp0) = storage_metadata_off ?rp"
    "num_other_root_pages_off (RootPage_set_layout n (length ?md) b rp0) = num_other_root_pages_off ?rp"
    "other_root_pages_off (RootPage_set_layout n (length ?md) b rp0) = other_root_pages_off ?rp"
    "column_size_off (RootPage_set_layout n (length ?md) (length storages - 1) rp0) = column_size_off ?rp" for a b rp0
    by (simp_all add: root_offs RootPage_set_layout_def mem)
  note info = read_page_info_def Let_def ns off ml nr cl RootPage_read_metadata_def md
  show "num_segs (read_page_info P pg) = n" "num_other_root_pages (read_page_info P pg) = length storages - 1"
    "info_col_len (read_page_info P pg) = spec_col_len (hd storages)"
    "info_metadata (read_page_info P pg) = spec_metadata (hd storages)"
    "i < length storages - 1 \<Longrightarrow>
      read_integer_4 P pg (other_root_pages_off (info_rp (read_page_info P pg)) + i * ROOT_PAGE_REF_LEN) = INVALID_REF"
    using rf by (simp_all add: info del: One_nat_def)
qed

end

lemma bind_op_run: "m s = (s', Inr x) \<Longrightarrow> bind_op m f s = f x s'"
  by (simp add: bind_op_def)

lemma map_op_ret: "(\<And>x. x \<in> set xs \<Longrightarrow> f x = ret (g x)) \<Longrightarrow> map_op f xs = ret (map g xs)"
  by (induction xs) (simp_all add: bind_op_def ret_def)

context page_api
begin

lemma load_created:
  assumes c: "creatable P storages n" and ok: "faults s = []" and pg: "pages s r = Some pg"
    and f: "RootPage_format P v (spec_metadata (hd storages)) (m_root (primary_store P sp r storages n)) (segment_root P n)
      = Some (rp', pg)"
    and specs: "length specs = length storages" "tl specs = tl storages"
  shows "MultiColumnStore_load P (MultiColumnStore_encode_ref sp r) specs s =
    (s, Inr \<lparr>m_ref = MultiColumnStore_encode_ref sp r, m_stores = primary_store P sp r storages n # other_stores P sp storages\<rparr>)"
proof -
  note i = page_info_formatted [OF c f]
  let ?refs = "map (\<lambda>i. read_integer_4 P pg (other_root_pages_off (info_rp (read_page_info P pg)) + i * ROOT_PAGE_REF_LEN))
      [0..<length storages - 1]"
  have len: "0 < length storages" "length storages < 256" using c by (auto simp: creatable_def)
  have nr: "u8 (length storages - 1 + 1) = length storages" using len by simp
  have ref: "?refs ! (k - 1) = INVALID_REF" if "k \<in> set [1..<length storages]" for k
    using that i(5) [of "k - 1"] by auto
  have sec: "load_secondary P sp r (?refs ! (k - 1)) (specs ! k) =
      ret (ColumnStore_init P sp INVALID_REF (spec_col_len (storages ! k)) 0 1 (spec_metadata (storages ! k)) new_column_store)"
    if k: "k \<in> set [1..<length storages]" for k
  proof -
    have "tl specs ! (k - 1) = specs ! k" "tl storages ! (k - 1) = storages ! k"
      using k specs(1) by (auto simp: nth_tl)
    with specs(2) have "specs ! k = storages ! k" by simp
    then show ?thesis unfolding ref [OF k] by (simp add: load_secondary_def)
  qed
  have oth: "map (\<lambda>k. ColumnStore_init P sp INVALID_REF (spec_col_len (storages ! k)) 0 1 (spec_metadata (storages ! k))
      new_column_store) [1..<length storages] = other_stores P sp storages"
    unfolding other_stores_def using len(1)
    by (intro nth_equalityI) (auto simp: nth_tl)
  have lo: "load r SHARED e (s\<lparr>latches := l\<rparr>) = (s\<lparr>latches := l(r := Some SHARED)\<rparr>, Inr ())" for e l
    using ok pg by (simp add: load_def api_call_def bind_op_def)
  have run: "with_mtr (bind_op (load r SHARED e) (\<lambda>_. bind_op (peek r) (\<lambda>pg. let info0 = read_page_info P pg in
        ret (info0, map (\<lambda>i. read_integer_4 P pg (other_root_pages_off (info_rp info0) + i * ROOT_PAGE_REF_LEN))
                      [0..<num_other_root_pages info0])))) s = (s, Inr (read_page_info P pg, ?refs))" for e
    using pg by (simp add: with_mtr_def bind_op_def lo peek_def Let_def ret_def i)
  have others: "map_op (\<lambda>k. load_secondary P sp r (?refs ! (k - 1)) (specs ! k)) [1..<length storages]
      = ret (other_stores P sp storages)"
    unfolding oth [symmetric] by (rule map_op_ret) (rule sec)
  show ?thesis
    unfolding MultiColumnStore_load_def decode_encode_ref Let_def [of "(sp, r)"] prod.case
    by (subst bind_op_run, rule run) (unfold prod.case Let_def i nr others, simp add: bind_op_def ret_def primary_store_def len)
qed

end
text \<open>The primary store of a new group is intact and empty.\<close>

context page_api
begin

lemma created_store_state:
  assumes c: "creatable P storages n" and r: "r \<noteq> INVALID_REF" and fr: "fresh_ok s" "fresh s = r # rs"
    and f: "RootPage_format P v (spec_metadata (hd storages)) (m_root (primary_store P sp r storages n)) (segment_root P n)
      = Some (rp', pg)"
    and pgs: "pages s' = (pages s)(r \<mapsto> pg)" "fresh s' = rs"
    and h: "lsi_next_free_rec_hint (s_last_slot_info s') < m_max_num_recs (DataPage_init (get_size P) (spec_col_len (hd storages)))"
  shows "store_state P (primary_store P sp r storages n) [] s'"
proof -
  let ?cs = "primary_store P sp r storages n"
  note mem = primary_store_members [OF c, of sp r]
  have "root_lists P (m_root ?cs) (pages s') r (\<lambda>_. []) []"
    unfolding pgs using root_layout.RootPage_format_root_lists [OF primary_root_layout [OF c] primary_blank [OF c] _ r f] mem(3)
    by simp
  then have "store_inv P ?cs (pages s') (\<lambda>_. []) []" by (simp add: store_inv_def mem)
  moreover have "session_ok r (m_max_num_recs (m_data ?cs)) s'"
    using fr h by (auto simp: session_ok_def fresh_ok_def pgs mem)
  ultimately show ?thesis by (auto simp: store_state_def mem)
qed

end

subsection \<open>Metadata and the store of a reference\<close>

context store_layout
begin

lemma update_metadata_outcome:
  assumes si: "store_inv P cs (pages s) fl dl"
    and ml: "unat (read_integer_1 P (the (pages s (m_root_page_ref cs))) (storage_metadata_len_off (m_root cs)))
      = m_storage_metadata_len (m_root cs)"
  shows "case ColumnStore_update_metadata P cs md s of
      (s', Inr cs') \<Rightarrow> cs' = cs\<lparr>m_metadata := md\<rparr> \<and> store_inv P cs' (pages s') fl dl
        \<and> RootPage_read_metadata P (m_root cs) (the (pages s' (m_root_page_ref cs))) = md
        \<and> (\<forall>x. x \<noteq> m_root_page_ref cs \<longrightarrow> pages s' x = pages s x)
    | (s', Inl e) \<Rightarrow> pages s' = pages s \<and> (faults s \<noteq> [] \<or> length md \<noteq> m_storage_metadata_len (m_root cs))"
proof -
  let ?root = "m_root_page_ref cs"
  obtain pg where pg: "pages s ?root = Some pg" using store_member(1) [OF si] by blast
  let ?pg = "write_string P pg (storage_metadata_off (m_root cs)) md"
  have upd: "store_inv P (cs\<lparr>m_metadata := md\<rparr>) ((pages s)(?root \<mapsto> ?pg)) fl dl"
    if "length md = m_storage_metadata_len (m_root cs)"
  proof -
    have m: "(pages s)(?root \<mapsto> pg) = pages s" using pg by (simp add: fun_upd_idem)
    have "root_lists P (m_root cs) ((pages s)(?root \<mapsto> ?pg)) ?root fl dl"
      by (rule update_metadata_root_lists [OF that]) (use store_inv_lists [OF si] m in simp)
    then show ?thesis
      using si store_member(4,6) [OF si] by (fastforce simp: store_inv_def)
  qed
  show ?thesis
  proof (cases rule: load_cases [of s ?root EXCLUSIVE "Remote ''update_metadata: failed to load root page''"])
    case (ok fs)
    with pg upd update_metadata_page [of md pg] ml show ?thesis
      by (simp add: ColumnStore_update_metadata_def Let_def bind_op_def peek_def RootPage_update_header_def upd_def
          ret_def fail_def)
  next
    case (err fs)
    with pg show ?thesis by (simp add: ColumnStore_update_metadata_def Let_def bind_op_def)
  qed
qed

end

lemma find_index:
  assumes "k < n" "Q k" "\<And>j. j < k \<Longrightarrow> \<not> Q j"
  shows "List.find Q [0..<n] = Some k"
  using assms by (auto simp: find_Some_iff intro!: exI [of _ k])

lemma get_root_index_run:
  assumes si: "store_inv P (m_stores ms ! k) (pages s) fl dl" and lay: "store_layout P (m_stores ms ! k)"
    and k: "k < length (m_stores ms)" "k < 256"
      "\<And>j. j < k \<Longrightarrow> m_root_page_ref (m_stores ms ! j) \<noteq> m_root_page_ref (m_stores ms ! k)"
    and x: "x \<in> set dl" "i < m_max_num_recs (m_data (m_stores ms ! k))"
  shows "case MultiColumnStore_get_root_index P ms (DataPage_encode_column_ref x i) s of
      (s', Inr j) \<Rightarrow> pages s' = pages s \<and> j = k
    | (s', Inl e) \<Rightarrow> pages s' = pages s \<and> faults s \<noteq> []"
proof -
  obtain pg where pg: "pages s x = Some pg" using store_layout.store_member(3) [OF lay si x(1)] by blast
  have "DataPage_get_root_page_ref P pg = m_root_page_ref (m_stores ms ! k)"
    using si x(1) pg by (auto simp: store_inv_def)
  with find_index [OF k(1), of "\<lambda>i. m_root_page_ref (m_stores ms ! i) = DataPage_get_root_page_ref P pg"] k(3)
  have find: "List.find (\<lambda>i. m_root_page_ref (m_stores ms ! i) = DataPage_get_root_page_ref P pg) [0..<length (m_stores ms)] = Some k"
    by simp
  note defs = MultiColumnStore_get_root_index_def store_layout.col_ref_slot [OF lay x(2)] Let_def bind_op_def
  show ?thesis
  proof (cases rule: load_cases [of s x SHARED "Remote ''get_root_index: failed to load data page''"])
    case (ok fs)
    with pg find k(2) show ?thesis by (simp add: defs peek_def ret_def)
  next
    case (err fs)
    with pg show ?thesis by (simp add: defs)
  qed
qed

subsection \<open>Properties\<close>

text \<open>
  Storage references round trip. The reference of a space and a page decodes to them, and every
  64-bit value is the reference of what it decodes to.
\<close>

theorem storage_ref_roundtrip:
  "MultiColumnStore_decode_ref (MultiColumnStore_encode_ref sp r) = (sp, r)
   \<and> (case MultiColumnStore_decode_ref w of (sp', r') \<Rightarrow> MultiColumnStore_encode_ref sp' r') = w"
  using decode_encode_ref encode_decode_ref by blast

text \<open>
  C36: a group of stores that was created can be opened. When no API call fails, \<open>create\<close> succeeds,
  the primary store is intact and empty and ready for inserts, and \<open>load\<close> of the storage reference
  rebuilds exactly the objects \<open>create\<close> left in memory; the specifications passed to it are used
  for the stores without a root page only.
\<close>

theorem multi_store_create_load:
  assumes "page_api P" "creatable P storages n" "faults s = []" "fresh_ok s" "fresh s \<noteq> []"
    and "lsi_next_free_rec_hint (s_last_slot_info s) < m_max_num_recs (DataPage_init (get_size P) (spec_col_len (hd storages)))"
    and "length specs = length storages" "tl specs = tl storages"
  shows "\<exists>s' ms. MultiColumnStore_create P sp storages n s = (s', Inr ms) \<and> store_state P (hd (m_stores ms)) [] s'
    \<and> length (m_stores ms) = length storages \<and> MultiColumnStore_load P (m_ref ms) specs s' = (s', Inr ms)"
proof -
  obtain r rs where fr: "fresh s = r # rs" using assms(5) by (cases "fresh s") auto
  then have r: "r \<noteq> INVALID_REF" using assms(4) by (simp add: fresh_ok_def)
  obtain pg where f: "RootPage_format P FORMAT_VERSION (spec_metadata (hd storages)) (m_root (primary_store P sp r storages n))
        (segment_root P n) = Some (m_root (primary_store P sp r storages n), pg)"
    and run: "MultiColumnStore_create P sp storages n s =
      (s\<lparr>fresh := rs, pages := (pages s)(r \<mapsto> pg), seg_of := (seg_of s)(r := None), latches := (\<lambda>_. None)\<rparr>,
       Inr \<lparr>m_ref = MultiColumnStore_encode_ref sp r, m_stores = primary_store P sp r storages n # other_stores P sp storages\<rparr>)"
    (is "_ = (?s', Inr ?ms)")
    by (rule page_api.create_run [OF assms(1,2,3) fr])
  have "store_state P (primary_store P sp r storages n) [] ?s'"
    by (rule page_api.created_store_state [OF assms(1,2) r assms(4) fr f]) (use assms(6) in simp_all)
  moreover have "MultiColumnStore_load P (MultiColumnStore_encode_ref sp r) specs ?s' = (?s', Inr ?ms)"
    by (rule page_api.load_created [OF assms(1,2) _ _ f assms(7,8)]) (simp_all add: assms(3))
  moreover have "length (m_stores ?ms) = length storages"
    using assms(2) by (simp add: other_stores_def creatable_def)
  ultimately show ?thesis using run by auto
qed

theorem multi_store_create_load_witness:
  "\<exists>s' ms. MultiColumnStore_create fake_api 3 [\<lparr>spec_col_len = 16, spec_metadata = svector_metadata\<rparr>,
        \<lparr>spec_col_len = 8, spec_metadata = []\<rparr>] 2 fake_store_env = (s', Inr ms)
     \<and> store_state fake_api (hd (m_stores ms)) [] s'
     \<and> MultiColumnStore_load fake_api (m_ref ms) [\<lparr>spec_col_len = 0, spec_metadata = []\<rparr>,
        \<lparr>spec_col_len = 8, spec_metadata = []\<rparr>] s' = (s', Inr ms)"
proof -
  let ?st = "[\<lparr>spec_col_len = 16, spec_metadata = svector_metadata\<rparr>, \<lparr>spec_col_len = 8, spec_metadata = []\<rparr>]"
  let ?sp = "[\<lparr>spec_col_len = 0, spec_metadata = []\<rparr>, \<lparr>spec_col_len = 8, spec_metadata = []\<rparr>]"
  have sz: "get_size fake_api = 16384" by (simp add: fake_api_def kPageSize_def)
  have c: "creatable fake_api ?st 2"
    by (simp add: creatable_def sz primary_store_def ColumnStore_init_def RootPage_init_def Let_def root_offs layout_defs)
  have "fresh_ok fake_store_env" "lsi_next_free_rec_hint (s_last_slot_info fake_store_env) < 672"
    using fake_store_state(1) by (auto simp: store_state_def session_ok_def fake_recs)
  with multi_store_create_load [OF fake.page_api_axioms c fake_store_state(2) _ fake_store_state(3), of ?sp 3]
  show ?thesis by (simp add: sz fake_recs) blast
qed

text \<open>
  A column reference leads back to its store. For a record of store \<open>k\<close> of a group whose earlier
  stores have other root pages, \<open>get_root_index\<close> answers \<open>k\<close>, or an API call has failed; no page
  changes.
\<close>

theorem multi_store_get_root_index:
  assumes "store_layout P (m_stores ms ! k)" "store_inv P (m_stores ms ! k) (pages s) fl dl"
    and "k < length (m_stores ms)" "k < 256"
    and "\<forall>j<k. m_root_page_ref (m_stores ms ! j) \<noteq> m_root_page_ref (m_stores ms ! k)"
    and "x \<in> set dl" "i < m_max_num_recs (m_data (m_stores ms ! k))"
  shows "case MultiColumnStore_get_root_index P ms (DataPage_encode_column_ref x i) s of
      (s', Inr j) \<Rightarrow> pages s' = pages s \<and> j = k
    | (s', Inl e) \<Rightarrow> pages s' = pages s \<and> faults s \<noteq> []"
  by (rule get_root_index_run [OF assms(2,1,3,4) _ assms(6,7)]) (use assms(5) in simp)

theorem multi_store_get_root_index_witness:
  "\<exists>s r s' res. run_cmd fake_api fake_cs (Insert 1 7 (Some fake_vec)) fake_store_env = (s, Stored r)
     \<and> MultiColumnStore_get_root_index fake_api \<lparr>m_ref = 0, m_stores = [fake_cs]\<rparr> r s = (s', res)
     \<and> pages s' = pages s"
proof -
  let ?ms = "\<lparr>m_ref = 0, m_stores = [fake_cs]\<rparr>" and ?c = "Insert 1 7 (Some fake_vec)"
  obtain s r where run: "run_cmd fake_api fake_cs ?c fake_store_env = (s, Stored r)"
    by (rule fake_store.insert_then_fetch [OF fake_store_state(1) fake_4_dvd fake_store_state(2,3), of fake_vec]) auto
  have refs: "\<forall>r\<in>cmd_refs ?c. store_ref fake_cs [] r" by simp
  obtain fl dl where "store_inv fake_api fake_cs (pages s) fl dl" "store_ref fake_cs dl r"
    using fake_store.run_cmd_simulated(1) [OF fake_store_state(1) fake_4_dvd refs] unfolding run by (auto simp: simulated_def)
  moreover from this(2) obtain x i where x: "x \<in> set dl" "i < m_max_num_recs (m_data fake_cs)" "r = DataPage_encode_column_ref x i"
    by (auto simp: store_ref_def)
  moreover obtain s' res where g: "MultiColumnStore_get_root_index fake_api ?ms r s = (s', res)"
    by (cases "MultiColumnStore_get_root_index fake_api ?ms r s")
  ultimately have "pages s' = pages s"
    using multi_store_get_root_index [of fake_api ?ms 0 s fl dl x i] fake_store.store_layout_axioms
    by (cases res) auto
  with run g show ?thesis by blast
qed

text \<open>
  Updating the metadata of a store. On success the root page holds the new bytes, the store
  object knows them, and lists, records and all other pages are as before; a metadata string of
  another length is refused and nothing is written.
\<close>

theorem column_store_update_metadata:
  assumes "store_layout P cs" "store_inv P cs (pages s) fl dl"
    and "unat (read_integer_1 P (the (pages s (m_root_page_ref cs))) (storage_metadata_len_off (m_root cs)))
      = m_storage_metadata_len (m_root cs)"
  shows "case ColumnStore_update_metadata P cs md s of
      (s', Inr cs') \<Rightarrow> cs' = cs\<lparr>m_metadata := md\<rparr> \<and> store_inv P cs' (pages s') fl dl
        \<and> RootPage_read_metadata P (m_root cs) (the (pages s' (m_root_page_ref cs))) = md
        \<and> (\<forall>x. x \<noteq> m_root_page_ref cs \<longrightarrow> pages s' x = pages s x)
    | (s', Inl e) \<Rightarrow> pages s' = pages s \<and> (faults s \<noteq> [] \<or> length md \<noteq> m_storage_metadata_len (m_root cs))"
  using store_layout.update_metadata_outcome [OF assms] .

theorem column_store_update_metadata_witness:
  "\<exists>s' e. ColumnStore_update_metadata fake_api fake_cs [1, 2] fake_store_env = (s', Inl e)
     \<and> pages s' = pages fake_store_env"
proof -
  obtain fl where si: "store_inv fake_api fake_cs (pages fake_store_env) fl []"
    using fake_store_state(1) by (auto simp: store_state_def)
  have "unat (read_integer_1 fake_api fake_root_page (storage_metadata_len_off fake_rp)) = m_storage_metadata_len fake_rp"
    using fake_root.RootPage_format_page [OF fake_segment_root_blank, of svector_metadata 1] fake_root_page_format
    by (auto simp: fake_rp_members)
  then have "unat (read_integer_1 fake_api (the (pages fake_store_env (m_root_page_ref fake_cs)))
      (storage_metadata_len_off (m_root fake_cs))) = m_storage_metadata_len (m_root fake_cs)"
    by (simp add: fake_store_env_def)
  note out = column_store_update_metadata [OF fake_store.store_layout_axioms si this, of "[1, 2]"]
  obtain s' res where run: "ColumnStore_update_metadata fake_api fake_cs [1, 2] fake_store_env = (s', res)"
    by (cases "ColumnStore_update_metadata fake_api fake_cs [1, 2] fake_store_env")
  have "\<exists>e. res = Inl e"
    using run fake_store_state(2)
    by (auto simp: ColumnStore_update_metadata_def Let_def bind_op_def load_def api_call_def peek_def fake_store_env_def
        RootPage_update_header_def fake_rp_members fail_def)
  with out run show ?thesis by auto
qed

end
