(* ===== verification/Layer_Ops.thy ===== *)
theory Layer_Ops
  imports Main "HOL-Library.Multiset"
begin

text \<open>
  Searching and selecting within one layer of the HNSW graph
  (\<^verbatim>\<open>src/index/hnsw/layer_ops.h\<close>, \<^verbatim>\<open>layer_ops_impl.h\<close>,
  \<^verbatim>\<open>visibility_policy.h\<close>). The class is a template over a graph type; here the graph
  is a record of the operations the header lists as requirements, and every definition takes it as
  an argument. Reads of the graph return \<open>None\<close> where the code returns \<open>true\<close>.

  \<^verbatim>\<open>std::priority_queue\<close> is a parameter too: which of several equally distant elements
  is on top is left open by the standard, so the model asks for the contract of the container
  (locale \<open>std_queue\<close>) and the theorems hold for every way of breaking ties. Distances are a linear
  order, as the strict weak ordering of the comparators requires.
\<close>

subsection \<open>Priority queues\<close>

text \<open>
  A queue is its underlying vector, the top is the first element. \<open>hpush\<close> and \<open>hpop\<close> are
  \<^verbatim>\<open>push\<close> and \<^verbatim>\<open>pop\<close>, with the comparator as an argument.
\<close>

record 'c std_heap =
  hpush :: "('c \<Rightarrow> 'c \<Rightarrow> bool) \<Rightarrow> 'c \<Rightarrow> 'c list \<Rightarrow> 'c list"
  hpop :: "('c \<Rightarrow> 'c \<Rightarrow> bool) \<Rightarrow> 'c list \<Rightarrow> 'c list"

text \<open>The requirement on a comparator: a strict weak ordering.\<close>

definition strict_weak :: "('c \<Rightarrow> 'c \<Rightarrow> bool) \<Rightarrow> bool" where
  "strict_weak cmp \<longleftrightarrow> (\<forall>x y. cmp x y \<longrightarrow> \<not> cmp y x) \<and> (\<forall>x y z. cmp x z \<longrightarrow> cmp x y \<or> cmp y z)"

locale std_queue =
  fixes H :: "'c std_heap" and is_heap :: "('c \<Rightarrow> 'c \<Rightarrow> bool) \<Rightarrow> 'c list \<Rightarrow> bool"
  assumes heap_Nil: "is_heap cmp []"
    and heap_push: "strict_weak cmp \<Longrightarrow> is_heap cmp q \<Longrightarrow> is_heap cmp (hpush H cmp c q)"
    and mset_push: "strict_weak cmp \<Longrightarrow> is_heap cmp q \<Longrightarrow> mset (hpush H cmp c q) = add_mset c (mset q)"
    and heap_pop: "strict_weak cmp \<Longrightarrow> is_heap cmp q \<Longrightarrow> q \<noteq> [] \<Longrightarrow> is_heap cmp (hpop H cmp q)"
    and mset_pop: "strict_weak cmp \<Longrightarrow> is_heap cmp q \<Longrightarrow> q \<noteq> [] \<Longrightarrow> mset (hpop H cmp q) = mset q - {#hd q#}"
    and heap_top: "strict_weak cmp \<Longrightarrow> is_heap cmp q \<Longrightarrow> x \<in> set q \<Longrightarrow> \<not> cmp (hd q) x"
begin

lemma set_push: "strict_weak cmp \<Longrightarrow> is_heap cmp q \<Longrightarrow> set (hpush H cmp c q) = insert c (set q)"
  using mset_push [THEN arg_cong [where f = set_mset]] by simp

lemma length_push: "strict_weak cmp \<Longrightarrow> is_heap cmp q \<Longrightarrow> length (hpush H cmp c q) = Suc (length q)"
  using mset_push [THEN arg_cong [where f = size]] by simp

lemma mset_pop': "strict_weak cmp \<Longrightarrow> is_heap cmp q \<Longrightarrow> q \<noteq> [] \<Longrightarrow> mset q = add_mset (hd q) (mset (hpop H cmp q))"
  using mset_pop [of cmp q] by simp

lemma set_pop: "strict_weak cmp \<Longrightarrow> is_heap cmp q \<Longrightarrow> q \<noteq> [] \<Longrightarrow> set (hpop H cmp q) \<subseteq> set q"
  using mset_pop' [THEN arg_cong [where f = set_mset]] by auto

lemma length_pop: "strict_weak cmp \<Longrightarrow> is_heap cmp q \<Longrightarrow> q \<noteq> [] \<Longrightarrow> Suc (length (hpop H cmp q)) = length q"
  using mset_pop' [THEN arg_cong [where f = size]] by simp

end

text \<open>
  An implementation of the contract: the vector is kept sorted, an element is entered behind those
  of equal rank.
\<close>

fun sorted_push :: "('c \<Rightarrow> 'c \<Rightarrow> bool) \<Rightarrow> 'c \<Rightarrow> 'c list \<Rightarrow> 'c list" where
  "sorted_push cmp c [] = [c]"
| "sorted_push cmp c (x # q) = (if cmp x c then c # x # q else x # sorted_push cmp c q)"

definition sorted_heap :: "'c std_heap" where
  "sorted_heap = \<lparr>hpush = sorted_push, hpop = (\<lambda>cmp. tl)\<rparr>"

definition is_sorted_heap :: "('c \<Rightarrow> 'c \<Rightarrow> bool) \<Rightarrow> 'c list \<Rightarrow> bool" where
  "is_sorted_heap cmp q \<longleftrightarrow> sorted_wrt (\<lambda>x y. \<not> cmp x y) q"

lemma mset_sorted_push: "mset (sorted_push cmp c q) = add_mset c (mset q)"
  by (induction q) auto

lemma sorted_push_sorted:
  assumes "strict_weak cmp" "sorted_wrt (\<lambda>x y. \<not> cmp x y) q"
  shows "sorted_wrt (\<lambda>x y. \<not> cmp x y) (sorted_push cmp c q)"
  using assms(2)
proof (induction q)
  case (Cons x q)
  have "set (sorted_push cmp c q) = insert c (set q)"
    using mset_sorted_push [of cmp c q, THEN arg_cong [where f = set_mset]] by simp
  with Cons assms(1) show ?case unfolding strict_weak_def by (auto 0 4)
qed simp

interpretation sorted_heap: std_queue sorted_heap is_sorted_heap
proof
  fix cmp :: "'c \<Rightarrow> 'c \<Rightarrow> bool" and q c x
  show "is_sorted_heap cmp []" by (simp add: is_sorted_heap_def)
  assume w: "strict_weak cmp" and q: "is_sorted_heap cmp q"
  show "is_sorted_heap cmp (hpush sorted_heap cmp c q)"
    using sorted_push_sorted [OF w] q by (simp add: is_sorted_heap_def sorted_heap_def)
  show "mset (hpush sorted_heap cmp c q) = add_mset c (mset q)" by (simp add: sorted_heap_def mset_sorted_push)
  show "is_sorted_heap cmp (hpop sorted_heap cmp q)" if "q \<noteq> []"
    using q that by (cases q) (auto simp: is_sorted_heap_def sorted_heap_def)
  show "mset (hpop sorted_heap cmp q) = mset q - {#hd q#}" if "q \<noteq> []"
    using that by (cases q) (auto simp: sorted_heap_def)
  have ir: "\<not> cmp y y" for y using w by (auto simp: strict_weak_def)
  show "\<not> cmp (hd q) x" if "x \<in> set q"
    using q that ir by (cases q) (auto simp: is_sorted_heap_def)
qed

subsection \<open>The graph a layer is searched in\<close>

record ('g, 'n, 'k, 'v, 'd) layer_graph =
  node_key :: "'n \<Rightarrow> 'k"
  g_node_distance :: "'g \<Rightarrow> 'n \<Rightarrow> 'n \<Rightarrow> 'd option"
  g_data_distance :: "'g \<Rightarrow> 'v \<Rightarrow> 'n \<Rightarrow> 'd option"
  g_neighbours :: "'g \<Rightarrow> 'n \<Rightarrow> nat \<Rightarrow> 'n list option"
  g_visible :: "'g \<Rightarrow> 'n \<Rightarrow> bool option"

text \<open>The query: a node of the graph or a vector outside it.\<close>

datatype ('n, 'v) query = Query_node 'n | Query_data 'v

definition query_distance ::
    "('g, 'n, 'k, 'v, 'd, 'z) layer_graph_scheme \<Rightarrow> 'g \<Rightarrow> ('n, 'v) query \<Rightarrow> 'n \<Rightarrow> 'd option" where
  "query_distance G g q n = (case q of Query_node m \<Rightarrow> g_node_distance G g m n | Query_data v \<Rightarrow> g_data_distance G g v n)"

type_synonym ('g, 'n) visibility_policy = "'g \<Rightarrow> 'n \<Rightarrow> bool option"

definition GraphVisiblePolicy :: "('g, 'n, 'k, 'v, 'd, 'z) layer_graph_scheme \<Rightarrow> ('g, 'n) visibility_policy" where
  "GraphVisiblePolicy G = g_visible G"

definition AlwaysVisiblePolicy :: "('g, 'n) visibility_policy" where
  "AlwaysVisiblePolicy = (\<lambda>g n. Some True)"

record ('n, 'd) candidate =
  cand_node :: 'n
  cand_distance :: 'd

definition cand_less :: "('n, 'd :: linorder) candidate \<Rightarrow> ('n, 'd) candidate \<Rightarrow> bool" where
  "cand_less a b \<longleftrightarrow> cand_distance a < cand_distance b"

definition MinComparator :: "('n, 'd :: linorder) candidate \<Rightarrow> ('n, 'd) candidate \<Rightarrow> bool" where
  "MinComparator a b \<longleftrightarrow> cand_less b a"

definition MaxComparator :: "('n, 'd :: linorder) candidate \<Rightarrow> ('n, 'd) candidate \<Rightarrow> bool" where
  "MaxComparator a b \<longleftrightarrow> cand_less a b"

lemma comparators_strict_weak: "strict_weak MinComparator" "strict_weak MaxComparator"
  by (auto simp: strict_weak_def MinComparator_def MaxComparator_def cand_less_def)

datatype layer_state = State_Init | State_Consume

text \<open>
  The members of \<^verbatim>\<open>LayerOperations\<close>. The scratch buffers are local to the calls that fill
  them.
\<close>

record ('n, 'k, 'v, 'd) layer_ops =
  m_query :: "('n, 'v) query"
  m_state :: layer_state
  m_level :: nat
  m_visited :: "'k set"
  m_candidates :: "('n, 'd) candidate list"
  m_results :: "('n, 'd) candidate list"

definition Layer_reset :: "('n, 'k, 'v, 'd) layer_ops \<Rightarrow> ('n, 'k, 'v, 'd) layer_ops" where
  "Layer_reset L = L\<lparr>m_state := State_Init, m_visited := {}, m_candidates := [], m_results := []\<rparr>"

definition Layer_reset_query :: "('n, 'v) query \<Rightarrow> ('n, 'k, 'v, 'd) layer_ops \<Rightarrow> ('n, 'k, 'v, 'd) layer_ops" where
  "Layer_reset_query q L = Layer_reset (L\<lparr>m_query := q\<rparr>)"

definition new_layer :: "('n, 'v) query \<Rightarrow> ('n, 'k, 'v, 'd) layer_ops" where
  "new_layer q = \<lparr>m_query = q, m_state = State_Init, m_level = 0, m_visited = {}, m_candidates = [], m_results = []\<rparr>"

lemma new_layer_query [simp]: "m_query (new_layer q) = q"
  by (simp add: new_layer_def)

subsection \<open>Search\<close>

text \<open>The nodes of a list not visited before, in order, and the visited set with them.\<close>

fun insert_unvisited :: "('n \<Rightarrow> 'k) \<Rightarrow> 'k set \<Rightarrow> 'n list \<Rightarrow> 'k set \<times> 'n list" where
  "insert_unvisited key vis [] = (vis, [])"
| "insert_unvisited key vis (n # ns) =
     (if key n \<in> vis then insert_unvisited key vis ns
      else let (vis', ns') = insert_unvisited key (insert (key n) vis) ns in (vis', n # ns'))"

fun evaluate_distances ::
    "('g, 'n, 'k, 'v, 'd, 'z) layer_graph_scheme \<Rightarrow> 'g \<Rightarrow> ('n, 'v) query \<Rightarrow> 'n list \<Rightarrow> ('n, 'd) candidate list option" where
  "evaluate_distances G g q [] = Some []"
| "evaluate_distances G g q (n # ns) =
     (case query_distance G g q n of None \<Rightarrow> None
      | Some d \<Rightarrow> (case evaluate_distances G g q ns of None \<Rightarrow> None
                  | Some cs \<Rightarrow> Some (\<lparr>cand_node = n, cand_distance = d\<rparr> # cs)))"

text \<open>The last loop of \<^verbatim>\<open>seed_impl\<close>.\<close>

fun seed_candidates ::
    "('n, 'd :: linorder) candidate std_heap \<Rightarrow> ('g, 'n) visibility_policy \<Rightarrow> 'g \<Rightarrow> ('n, 'd) candidate list \<Rightarrow>
     ('n, 'k, 'v, 'd) layer_ops \<Rightarrow> ('n, 'k, 'v, 'd) layer_ops option" where
  "seed_candidates H pol g [] L = Some L"
| "seed_candidates H pol g (c # cs) L =
     (let L1 = L\<lparr>m_candidates := hpush H MinComparator c (m_candidates L)\<rparr> in
      case pol g (cand_node c) of None \<Rightarrow> None
      | Some visible \<Rightarrow>
          seed_candidates H pol g cs
            (if visible then L1\<lparr>m_results := hpush H MaxComparator c (m_results L1)\<rparr> else L1))"

definition seed_impl ::
    "('n, 'd :: linorder) candidate std_heap \<Rightarrow> ('g, 'n, 'k, 'v, 'd, 'z) layer_graph_scheme \<Rightarrow> ('g, 'n) visibility_policy \<Rightarrow>
     'g \<Rightarrow> 'n list \<Rightarrow> ('n, 'k, 'v, 'd) layer_ops \<Rightarrow> ('n, 'k, 'v, 'd) layer_ops option" where
  "seed_impl H G pol g entry_points L =
     (let visited = (case m_query L of Query_node q \<Rightarrow> insert (node_key G q) (m_visited L) | Query_data _ \<Rightarrow> m_visited L);
          (visited', nodes) = insert_unvisited (node_key G) visited entry_points in
      case evaluate_distances G g (m_query L) nodes of None \<Rightarrow> None
      | Some cs \<Rightarrow> seed_candidates H pol g cs (L\<lparr>m_visited := visited'\<rparr>))"

text \<open>A visible candidate enters the result, which keeps its \<open>ef\<close> best elements.\<close>

definition offer ::
    "('n, 'd :: linorder) candidate std_heap \<Rightarrow> nat \<Rightarrow> ('n, 'd) candidate \<Rightarrow> ('n, 'd) candidate list \<Rightarrow> ('n, 'd) candidate list" where
  "offer H ef c W = (let W' = hpush H MaxComparator c W in if length W' > ef then hpop H MaxComparator W' else W')"

text \<open>The last loop of \<^verbatim>\<open>expand\<close>.\<close>

fun expand_candidates ::
    "('n, 'd :: linorder) candidate std_heap \<Rightarrow> ('g, 'n) visibility_policy \<Rightarrow> 'g \<Rightarrow> nat \<Rightarrow> ('n, 'd) candidate list \<Rightarrow>
     ('n, 'k, 'v, 'd) layer_ops \<Rightarrow> ('n, 'k, 'v, 'd) layer_ops option" where
  "expand_candidates H pol g ef [] L = Some L"
| "expand_candidates H pol g ef (c # cs) L =
     (if length (m_results L) < ef \<or> cand_less c (hd (m_results L)) then
        let L1 = L\<lparr>m_candidates := hpush H MinComparator c (m_candidates L)\<rparr> in
        case pol g (cand_node c) of None \<Rightarrow> None
        | Some visible \<Rightarrow>
            expand_candidates H pol g ef cs
              (if visible then L1\<lparr>m_results := offer H ef c (m_results L1)\<rparr> else L1)
      else expand_candidates H pol g ef cs L)"

definition expand ::
    "('n, 'd :: linorder) candidate std_heap \<Rightarrow> ('g, 'n, 'k, 'v, 'd, 'z) layer_graph_scheme \<Rightarrow> ('g, 'n) visibility_policy \<Rightarrow>
     'g \<Rightarrow> 'n \<Rightarrow> nat \<Rightarrow> ('n, 'k, 'v, 'd) layer_ops \<Rightarrow> ('n, 'k, 'v, 'd) layer_ops option" where
  "expand H G pol g node ef L =
     (case g_neighbours G g node (m_level L) of None \<Rightarrow> None
      | Some ns \<Rightarrow>
          let (visited', nodes) = insert_unvisited (node_key G) (m_visited L) ns in
          case evaluate_distances G g (m_query L) nodes of None \<Rightarrow> None
          | Some cs \<Rightarrow> expand_candidates H pol g ef cs (L\<lparr>m_visited := visited'\<rparr>))"

text \<open>
  The loop of \<^verbatim>\<open>search\<close>. The outer option is termination: \<open>None\<close> when the loop does
  not end, \<open>Some None\<close> when a graph operation failed.
\<close>

partial_function (option) search_loop ::
    "('n, 'd :: linorder) candidate std_heap \<Rightarrow> ('g, 'n, 'k, 'v, 'd, 'z) layer_graph_scheme \<Rightarrow> ('g, 'n) visibility_policy \<Rightarrow>
     'g \<Rightarrow> nat \<Rightarrow> ('n, 'k, 'v, 'd) layer_ops \<Rightarrow> ('n, 'k, 'v, 'd) layer_ops option option" where
  [code]: "search_loop H G pol g ef L =
     (if m_candidates L = [] then Some (Some L)
      else
        let c = hd (m_candidates L); L1 = L\<lparr>m_candidates := hpop H MinComparator (m_candidates L)\<rparr> in
        if m_results L1 \<noteq> [] \<and> cand_less (hd (m_results L1)) c then Some (Some L1)
        else case expand H G pol g (cand_node c) ef L1 of
            None \<Rightarrow> Some None
          | Some L2 \<Rightarrow> search_loop H G pol g ef L2)"

definition Layer_search ::
    "('n, 'd :: linorder) candidate std_heap \<Rightarrow> ('g, 'n, 'k, 'v, 'd, 'z) layer_graph_scheme \<Rightarrow> ('g, 'n) visibility_policy \<Rightarrow>
     'g \<Rightarrow> 'n list \<Rightarrow> nat \<Rightarrow> nat \<Rightarrow> ('n, 'k, 'v, 'd) layer_ops \<Rightarrow> ('n, 'k, 'v, 'd) layer_ops option option" where
  "Layer_search H G pol g entry_points level ef L =
     (case seed_impl H G pol g entry_points ((Layer_reset L)\<lparr>m_level := level\<rparr>) of
        None \<Rightarrow> Some None
      | Some L1 \<Rightarrow>
          (case search_loop H G pol g ef L1 of
             Some (Some L2) \<Rightarrow> Some (Some (L2\<lparr>m_state := State_Consume\<rparr>))
           | r \<Rightarrow> r))"

definition Layer_seed ::
    "('n, 'd :: linorder) candidate std_heap \<Rightarrow> ('g, 'n, 'k, 'v, 'd, 'z) layer_graph_scheme \<Rightarrow> ('g, 'n) visibility_policy \<Rightarrow>
     'g \<Rightarrow> 'n list \<Rightarrow> nat \<Rightarrow> ('n, 'k, 'v, 'd) layer_ops \<Rightarrow> ('n, 'k, 'v, 'd) layer_ops option" where
  "Layer_seed H G pol g candidates level L =
     (case seed_impl H G pol g candidates ((Layer_reset L)\<lparr>m_level := level\<rparr>) of
        None \<Rightarrow> None
      | Some L1 \<Rightarrow> Some (L1\<lparr>m_state := State_Consume\<rparr>))"

subsection \<open>Consuming a result\<close>

text \<open>Popping \<open>n\<close> elements: the elements from the top down.\<close>

primrec pop_all :: "'c std_heap \<Rightarrow> ('c \<Rightarrow> 'c \<Rightarrow> bool) \<Rightarrow> nat \<Rightarrow> 'c list \<Rightarrow> 'c list" where
  "pop_all H cmp 0 q = []"
| "pop_all H cmp (Suc n) q = hd q # pop_all H cmp n (hpop H cmp q)"

text \<open>The result vector is filled from its end.\<close>

definition consume_result :: "('n, 'd :: linorder) candidate std_heap \<Rightarrow> ('n, 'k, 'v, 'd) layer_ops \<Rightarrow> 'n list" where
  "consume_result H L = rev (map cand_node (pop_all H MaxComparator (length (m_results L)) (m_results L)))"

definition consume_all ::
    "('n, 'd :: linorder) candidate std_heap \<Rightarrow> ('n, 'k, 'v, 'd) layer_ops \<Rightarrow> 'n list \<times> ('n, 'k, 'v, 'd) layer_ops" where
  "consume_all H L = (consume_result H L, L\<lparr>m_state := State_Init, m_results := []\<rparr>)"

definition consume_simple ::
    "('n, 'd :: linorder) candidate std_heap \<Rightarrow> nat \<Rightarrow> ('n, 'k, 'v, 'd) layer_ops \<Rightarrow> 'n list \<times> ('n, 'k, 'v, 'd) layer_ops" where
  "consume_simple H M L = (take M (consume_result H L), L\<lparr>m_state := State_Init, m_results := []\<rparr>)"

datatype extend_candidates = ExtendCandidates_No | ExtendCandidates_Yes
datatype keep_pruned_connections = KeepPrunedConnections_No | KeepPrunedConnections_Yes

text \<open>The walk over the neighbours of the candidates in \<^verbatim>\<open>extend_with_neighbours\<close>.\<close>

fun gather_neighbours ::
    "('g, 'n, 'k, 'v, 'd, 'z) layer_graph_scheme \<Rightarrow> 'g \<Rightarrow> nat \<Rightarrow> 'k set \<Rightarrow> ('n, 'd) candidate list \<Rightarrow> ('k set \<times> 'n list) option" where
  "gather_neighbours G g level vis [] = Some (vis, [])"
| "gather_neighbours G g level vis (c # cs) =
     (case g_neighbours G g (cand_node c) level of None \<Rightarrow> None
      | Some ns \<Rightarrow>
          let (vis1, new1) = insert_unvisited (node_key G) vis ns in
          case gather_neighbours G g level vis1 cs of None \<Rightarrow> None
          | Some (vis2, new2) \<Rightarrow> Some (vis2, new1 @ new2))"

definition extend_with_neighbours ::
    "('g, 'n, 'k, 'v, 'd, 'z) layer_graph_scheme \<Rightarrow> 'g \<Rightarrow> ('n, 'd) candidate list \<Rightarrow> ('n, 'k, 'v, 'd) layer_ops \<Rightarrow>
     (('n, 'd) candidate list \<times> ('n, 'k, 'v, 'd) layer_ops) option" where
  "extend_with_neighbours G g W L =
     (case gather_neighbours G g (m_level L) (m_visited L) W of None \<Rightarrow> None
      | Some (vis, new) \<Rightarrow>
          (case evaluate_distances G g (m_query L) new of None \<Rightarrow> None
           | Some cs \<Rightarrow> Some (W @ cs, L\<lparr>m_visited := vis\<rparr>)))"

fun is_dominated ::
    "('g, 'n, 'k, 'v, 'd :: linorder, 'z) layer_graph_scheme \<Rightarrow> 'g \<Rightarrow> ('n, 'd) candidate \<Rightarrow> 'n list \<Rightarrow> bool option" where
  "is_dominated G g e [] = Some False"
| "is_dominated G g e (r # rs) =
     (case g_node_distance G g (cand_node e) r of None \<Rightarrow> None
      | Some dist_er \<Rightarrow> if dist_er < cand_distance e then Some True else is_dominated G g e rs)"

text \<open>
  The selection loop over the queue \<open>C\<close> of \<open>n\<close> elements, with the selected nodes \<open>R\<close> and the
  discarded candidates \<open>Wd\<close>.
\<close>

fun select_diverse ::
    "('n, 'd :: linorder) candidate std_heap \<Rightarrow> ('g, 'n, 'k, 'v, 'd, 'z) layer_graph_scheme \<Rightarrow> 'g \<Rightarrow> nat \<Rightarrow> nat \<Rightarrow>
     ('n, 'd) candidate list \<Rightarrow> 'n list \<Rightarrow> ('n, 'd) candidate list \<Rightarrow>
     ('n list \<times> ('n, 'd) candidate list \<times> ('n, 'd) candidate list) option" where
  "select_diverse H G g M 0 C R Wd = Some (R, Wd, C)"
| "select_diverse H G g M (Suc n) C R Wd =
     (if length R < M then
        let e = hd C; C' = hpop H MinComparator C in
        case is_dominated G g e R of None \<Rightarrow> None
        | Some dominated \<Rightarrow>
            if dominated then select_diverse H G g M n C' R (Wd @ [e])
            else select_diverse H G g M n C' (R @ [cand_node e]) Wd
      else Some (R, Wd, C))"

text \<open>
  The result is the selection, the candidate pool before any extension and the object.
\<close>

definition consume_heuristic ::
    "('n, 'd :: linorder) candidate std_heap \<Rightarrow> ('g, 'n, 'k, 'v, 'd, 'z) layer_graph_scheme \<Rightarrow> 'g \<Rightarrow> nat \<Rightarrow>
     extend_candidates \<Rightarrow> keep_pruned_connections \<Rightarrow> ('n, 'k, 'v, 'd) layer_ops \<Rightarrow>
     ('n list \<times> 'n list \<times> ('n, 'k, 'v, 'd) layer_ops) option" where
  "consume_heuristic H G g M ext keep L =
     (let W = pop_all H MaxComparator (length (m_results L)) (m_results L);
          candidate_pool = rev (map cand_node W);
          L1 = L\<lparr>m_state := State_Init, m_results := []\<rparr> in
      case (if ext = ExtendCandidates_Yes then extend_with_neighbours G g W L1 else Some (W, L1)) of None \<Rightarrow> None
      | Some (W', L2) \<Rightarrow>
          (let C = fold (hpush H MinComparator) W' [] in
           case select_diverse H G g M (length W') C [] [] of None \<Rightarrow> None
           | Some (R, Wd, C') \<Rightarrow>
               Some (if keep = KeepPrunedConnections_Yes then R @ take (M - length R) (map cand_node Wd) else R,
                     candidate_pool, L2\<lparr>m_candidates := C'\<rparr>)))"

end
