(* ===== verification/Layer_Search.thy ===== *)
theory Layer_Search
  imports Layer_Ops
begin

text \<open>
  What a layer search returns. The invariant of the search loop is stated over the reachable nodes
  (\<open>reach\<close>), the loop ends because the visited set grows within their keys, and the state it ends in
  gives the properties at the end of the theory: termination, soundness and local optimality of the
  result, exactness when \<open>ef\<close> covers the reachable nodes, and what the neighbour selection heuristic
  selects. The lemmas hold for every priority queue that satisfies the container's contract.
\<close>

subsection \<open>What a search may visit\<close>

text \<open>
  The nodes a search from \<open>E\<close> can see: those reached over neighbour lists without passing a node
  whose key is in \<open>A\<close>, which is the key of the query when the query is itself a node.
\<close>

inductive reach ::
    "('g, 'n, 'k, 'v, 'd, 'z) layer_graph_scheme \<Rightarrow> 'g \<Rightarrow> nat \<Rightarrow> 'k set \<Rightarrow> 'n list \<Rightarrow> 'n \<Rightarrow> bool"
  for G g level A E where
  entry: "n \<in> set E \<Longrightarrow> node_key G n \<notin> A \<Longrightarrow> reach G g level A E n"
| step: "reach G g level A E n \<Longrightarrow> g_neighbours G g n level = Some ns \<Longrightarrow> m \<in> set ns \<Longrightarrow> node_key G m \<notin> A \<Longrightarrow>
    reach G g level A E m"

definition query_keys :: "('g, 'n, 'k, 'v, 'd, 'z) layer_graph_scheme \<Rightarrow> ('n, 'v) query \<Rightarrow> 'k set" where
  "query_keys G q = (case q of Query_node n \<Rightarrow> {node_key G n} | Query_data _ \<Rightarrow> {})"

text \<open>Nodes are identified by their keys.\<close>

definition keys_inj :: "('g, 'n, 'k, 'v, 'd, 'z) layer_graph_scheme \<Rightarrow> ('n \<Rightarrow> bool) \<Rightarrow> bool" where
  "keys_inj G Q \<longleftrightarrow> inj_on (node_key G) {n. Q n}"

lemma reach_key: "reach G g level A E n \<Longrightarrow> node_key G n \<notin> A"
  by (induction rule: reach.induct)

subsection \<open>The visited set and distances\<close>

lemma insert_unvisited_props:
  assumes "insert_unvisited key vis ns = (vis', ns')"
  shows "vis' = vis \<union> key ` set ns" "set ns' \<subseteq> set ns" "key ` set ns' = key ` set ns - vis" "distinct (map key ns')"
    "length ns' = card (key ` set ns - vis)"
proof -
  have *: "vis' = vis \<union> key ` set ns \<and> set ns' \<subseteq> set ns \<and> key ` set ns' = key ` set ns - vis \<and> distinct (map key ns')"
    using assms
  proof (induction key vis ns arbitrary: ns' rule: insert_unvisited.induct)
    case (2 key vis n ns)
    show ?case
    proof (cases "key n \<in> vis")
      case True
      with 2(1) [OF True] 2(3) show ?thesis by auto
    next
      case False
      then obtain ns2 where "insert_unvisited key (insert (key n) vis) ns = (vis', ns2)" "ns' = n # ns2"
        using 2(3) by (auto split: prod.splits)
      with 2(2) [OF False] False show ?thesis by auto
    qed
  qed auto
  then show "vis' = vis \<union> key ` set ns" "set ns' \<subseteq> set ns" "key ` set ns' = key ` set ns - vis" "distinct (map key ns')"
    by auto
  then show "length ns' = card (key ` set ns - vis)"
    by (metis distinct_card length_map list.set_map)
qed

lemma evaluate_distances_props:
  "evaluate_distances G g q ns = Some cs \<Longrightarrow>
   map cand_node cs = ns \<and> (\<forall>c\<in>set cs. query_distance G g q (cand_node c) = Some (cand_distance c))"
  by (induction ns arbitrary: cs) (auto split: option.splits)

subsection \<open>The search invariant\<close>

text \<open>
  \<open>seen\<close>: a candidate of a search is a reachable node, visited, with its distance.
  \<open>covered\<close>: a node is in the result, or the result has \<open>ef\<close> elements and none is farther away.
  \<open>expanded\<close>: all neighbours of a node have been visited.
\<close>

definition seen ::
    "('g, 'n, 'k, 'v, 'd, 'z) layer_graph_scheme \<Rightarrow> 'g \<Rightarrow> 'n list \<Rightarrow> ('n, 'k, 'v, 'd) layer_ops \<Rightarrow> ('n, 'd) candidate \<Rightarrow> bool" where
  "seen G g E L c \<longleftrightarrow> reach G g (m_level L) (query_keys G (m_query L)) E (cand_node c)
     \<and> query_distance G g (m_query L) (cand_node c) = Some (cand_distance c) \<and> node_key G (cand_node c) \<in> m_visited L"

definition covered ::
    "('g, 'n, 'k, 'v, 'd :: linorder, 'z) layer_graph_scheme \<Rightarrow> 'g \<Rightarrow> nat \<Rightarrow> ('n, 'k, 'v, 'd) layer_ops \<Rightarrow> 'n \<Rightarrow> bool" where
  "covered G g ef L n \<longleftrightarrow> n \<in> cand_node ` set (m_results L)
     \<or> ef \<le> length (m_results L)
       \<and> (\<forall>c\<in>set (m_results L). \<forall>d. query_distance G g (m_query L) n = Some d \<longrightarrow> cand_distance c \<le> d)"

definition expanded :: "('g, 'n, 'k, 'v, 'd, 'z) layer_graph_scheme \<Rightarrow> 'g \<Rightarrow> ('n, 'k, 'v, 'd) layer_ops \<Rightarrow> 'n \<Rightarrow> bool" where
  "expanded G g L n \<longleftrightarrow> (\<forall>ns. g_neighbours G g n (m_level L) = Some ns \<longrightarrow> node_key G ` set ns \<subseteq> m_visited L)"

text \<open>
  The invariant of the loop. The nodes of \<open>Q\<close> have been visited but not yet offered to the result,
  the nodes of \<open>F\<close> have left the candidate queue but are not yet expanded.
\<close>

definition search_inv ::
    "((('n, 'd :: linorder) candidate \<Rightarrow> ('n, 'd) candidate \<Rightarrow> bool) \<Rightarrow> ('n, 'd) candidate list \<Rightarrow> bool) \<Rightarrow>
     ('g, 'n, 'k, 'v, 'd, 'z) layer_graph_scheme \<Rightarrow> ('g, 'n) visibility_policy \<Rightarrow> 'g \<Rightarrow> nat \<Rightarrow> 'n list \<Rightarrow> 'n set \<Rightarrow> 'n set \<Rightarrow>
     ('n, 'k, 'v, 'd) layer_ops \<Rightarrow> bool" where
  "search_inv is_heap G pol g ef E Q F L \<longleftrightarrow>
     is_heap MinComparator (m_candidates L) \<and> is_heap MaxComparator (m_results L)
     \<and> (\<forall>c\<in>set (m_candidates L) \<union> set (m_results L). seen G g E L c)
     \<and> (\<forall>c\<in>set (m_results L). pol g (cand_node c) = Some True)
     \<and> distinct (map (node_key G \<circ> cand_node) (m_results L))
     \<and> (\<forall>n. reach G g (m_level L) (query_keys G (m_query L)) E n \<longrightarrow> node_key G n \<in> m_visited L \<longrightarrow>
           pol g n = Some True \<longrightarrow> n \<notin> Q \<longrightarrow> covered G g ef L n)
     \<and> (\<forall>c\<in>set (m_results L). c \<in> set (m_candidates L) \<or> cand_node c \<in> F \<or> expanded G g L (cand_node c))
     \<and> query_keys G (m_query L) \<subseteq> m_visited L
     \<and> m_visited L \<subseteq> query_keys G (m_query L) \<union> node_key G ` {n. reach G g (m_level L) (query_keys G (m_query L)) E n}"

lemma search_invD:
  assumes "search_inv is_heap G pol g ef E Q F L"
  shows "is_heap MinComparator (m_candidates L)" "is_heap MaxComparator (m_results L)"
    "c \<in> set (m_candidates L) \<Longrightarrow> seen G g E L c" "c \<in> set (m_results L) \<Longrightarrow> seen G g E L c"
    "c \<in> set (m_results L) \<Longrightarrow> pol g (cand_node c) = Some True"
    "distinct (map (node_key G \<circ> cand_node) (m_results L))"
    "reach G g (m_level L) (query_keys G (m_query L)) E n \<Longrightarrow> node_key G n \<in> m_visited L \<Longrightarrow>
       pol g n = Some True \<Longrightarrow> n \<notin> Q \<Longrightarrow> covered G g ef L n"
    "c \<in> set (m_results L) \<Longrightarrow> c \<in> set (m_candidates L) \<or> cand_node c \<in> F \<or> expanded G g L (cand_node c)"
  using assms unfolding search_inv_def by auto

lemma disjoint_subset_insert: "B \<subseteq> insert x C \<Longrightarrow> x \<notin> A \<Longrightarrow> A \<inter> C = {} \<Longrightarrow> A \<inter> B = {}"
  by blast

lemma distinct_map_mset_sub:
  assumes "distinct (map f ys)" "mset xs \<subseteq># mset ys"
  shows "distinct (map f xs)"
proof -
  have "mset (map f xs) \<subseteq># mset (map f ys)" using assms(2) by (simp add: image_mset_subseteq_mono)
  then have "count (mset (map f xs)) x \<le> 1" for x
    using assms(1) mset_subset_eq_count [of "mset (map f xs)" "mset (map f ys)" x]
    by (metis (no_types, lifting) distinct_count_atmost_1 dual_order.trans le_numeral_extra(3) le_numeral_extra(4) zero_le_one)
  then show ?thesis
    by (metis count_eq_zero_iff distinct_count_atmost_1 le_antisym less_one linorder_not_le set_mset_mset)
qed

locale layer_queue = std_queue H is_heap
  for H :: "('n, 'd :: linorder) candidate std_heap" and is_heap
begin

lemmas min_queue = heap_push [OF comparators_strict_weak(1)] set_push [OF comparators_strict_weak(1)]
  length_push [OF comparators_strict_weak(1)]

lemmas max_push = heap_push [OF comparators_strict_weak(2)] set_push [OF comparators_strict_weak(2)]
  length_push [OF comparators_strict_weak(2)] mset_push [OF comparators_strict_weak(2)]

lemma max_top: "is_heap MaxComparator W \<Longrightarrow> x \<in> set W \<Longrightarrow> cand_distance x \<le> cand_distance (hd W)"
  using heap_top [OF comparators_strict_weak(2), of W x] by (simp add: MaxComparator_def cand_less_def)

lemma min_top: "is_heap MinComparator C \<Longrightarrow> x \<in> set C \<Longrightarrow> cand_distance (hd C) \<le> cand_distance x"
  using heap_top [OF comparators_strict_weak(1), of C x] by (simp add: MinComparator_def cand_less_def)

text \<open>Offering a candidate to the bounded result queue.\<close>

lemma offer_props:
  assumes h: "is_heap MaxComparator W"
  shows "is_heap MaxComparator (offer H ef c W)" "set (offer H ef c W) \<subseteq> insert c (set W)"
    "length (offer H ef c W) = (if length W < ef then Suc (length W) else length W)"
    "x \<in> insert c (set W) \<Longrightarrow> x \<in> set (offer H ef c W) \<or> ef \<le> length W \<and> (\<forall>y\<in>set (offer H ef c W). cand_distance y \<le> cand_distance x)"
    "mset (offer H ef c W) \<subseteq># add_mset c (mset W)"
proof -
  let ?W = "hpush H MaxComparator c W"
  note p = max_push [OF h, of c]
  have ne: "?W \<noteq> []" using p(3) by auto
  note q = heap_pop [OF comparators_strict_weak(2) p(1) ne] mset_pop' [OF comparators_strict_weak(2) p(1) ne]
    length_pop [OF comparators_strict_weak(2) p(1) ne]
  show "is_heap MaxComparator (offer H ef c W)" using p(1) q(1) by (simp add: offer_def Let_def)
  show "set (offer H ef c W) \<subseteq> insert c (set W)"
    using p(2) set_pop [OF comparators_strict_weak(2) p(1) ne] by (auto simp: offer_def Let_def)
  show "length (offer H ef c W) = (if length W < ef then Suc (length W) else length W)"
    using p(3) q(3) by (auto simp: offer_def Let_def)
  show "mset (offer H ef c W) \<subseteq># add_mset c (mset W)"
    unfolding p(4) [symmetric] using q(2) by (auto simp: offer_def Let_def)
  have s: "set ?W = insert (hd ?W) (set (hpop H MaxComparator ?W))"
    using q(2) [THEN arg_cong [where f = set_mset]] by simp
  show "x \<in> set (offer H ef c W) \<or> ef \<le> length W \<and> (\<forall>y\<in>set (offer H ef c W). cand_distance y \<le> cand_distance x)"
    if "x \<in> insert c (set W)"
  proof (cases "length W < ef")
    case True
    with that p show ?thesis by (simp add: offer_def Let_def)
  next
    case False
    then have o: "offer H ef c W = hpop H MaxComparator ?W" using p(3) by (simp add: offer_def Let_def)
    have x: "x \<in> set ?W" using that p(2) by simp
    have "cand_distance y \<le> cand_distance (hd ?W)" if "y \<in> set (offer H ef c W)" for y
      using max_top [OF p(1)] that s o by auto
    with x s o False show ?thesis by auto
  qed
qed

text \<open>One candidate of an expansion: what happens to coverage and frontier.\<close>

lemma covered_offer:
  assumes h: "is_heap MaxComparator (m_results L)" and ef: "0 < ef"
    and c: "length (m_results L) < ef \<or> cand_less c (hd (m_results L))"
    and d: "\<And>x. x \<in> insert c (set (m_results L)) \<Longrightarrow> query_distance G g (m_query L) (cand_node x) = Some (cand_distance x)"
    and n: "covered G g ef L n \<or> n = cand_node c"
    and L': "m_results L' = offer H ef c (m_results L)" "m_query L' = m_query L"
  shows "covered G g ef L' n"
proof -
  let ?R = "m_results L" and ?R' = "offer H ef c (m_results L)"
  note o = offer_props [OF h, where ef = ef and c = c]
  have in_R: ?thesis if "n = cand_node x" "x \<in> insert c (set ?R)" for x
  proof -
    from o(4) [OF that(2)] show ?thesis
    proof
      assume "ef \<le> length ?R \<and> (\<forall>y\<in>set ?R'. cand_distance y \<le> cand_distance x)"
      then show ?thesis
        using o(3) d [OF that(2)] that(1) unfolding covered_def L' by auto
    qed (use that(1) in \<open>auto simp: covered_def L'\<close>)
  qed
  show ?thesis
  proof (cases "n \<in> cand_node ` insert c (set ?R)")
    case True
    then show ?thesis using in_R by blast
  next
    case False
    then have f: "ef \<le> length ?R" "\<And>x e. x \<in> set ?R \<Longrightarrow> query_distance G g (m_query L) n = Some e \<Longrightarrow> cand_distance x \<le> e"
      using n by (auto simp: covered_def)
    then have ne: "?R \<noteq> []" and less: "cand_less c (hd ?R)" using ef c by auto
    have "cand_distance x \<le> e" if "x \<in> insert c (set ?R)" "query_distance G g (m_query L) n = Some e" for x e
      using that f(2) [OF hd_in_set [OF ne] that(2)] f(2) less by (auto simp: cand_less_def)
    then show ?thesis using o(2,3) f(1) unfolding covered_def L' by fastforce
  qed
qed

lemma expand_candidates_inv:
  assumes "search_inv is_heap G pol g ef E (cand_node ` set cs) F L" "0 < ef"
    and "\<forall>c\<in>set cs. seen G g E L c" "distinct (map (node_key G \<circ> cand_node) cs)"
    and "(node_key G \<circ> cand_node) ` set cs \<inter> (node_key G \<circ> cand_node) ` set (m_results L) = {}"
    and "expand_candidates H pol g ef cs L = Some L'"
  shows "search_inv is_heap G pol g ef E {} F L' \<and> m_visited L' = m_visited L \<and> m_query L' = m_query L
    \<and> m_level L' = m_level L \<and> length (m_results L') \<le> max ef (length (m_results L))
    \<and> length (m_candidates L') \<le> length (m_candidates L) + length cs"
  using assms
proof (induction cs arbitrary: L)
  case Nil
  then show ?case by simp
next
  case (Cons c cs)
  let ?k = "node_key G \<circ> cand_node" and ?R = "m_results L" and ?C = "m_candidates L"
  note iv = search_invD [OF Cons.prems(1)]
  have seen_cs: "\<forall>x\<in>set cs. seen G g E L x" "seen G g E L c" using Cons.prems(3) by auto
  have keys: "distinct (map ?k cs)" "?k c \<notin> ?k ` set cs" "?k c \<notin> ?k ` set ?R" "?k ` set cs \<inter> ?k ` set ?R = {}"
    using Cons.prems(4,5) by (auto simp: comp_def)
  have covered_step: "search_inv is_heap G pol g ef E (cand_node ` set cs) F L1"
    if "is_heap MinComparator (m_candidates L1)" "is_heap MaxComparator (m_results L1)"
      "set ?C \<subseteq> set (m_candidates L1)" "set (m_candidates L1) \<subseteq> insert c (set ?C)"
      "set (m_results L1) \<subseteq> insert c (set ?R)" "c \<in> set (m_results L1) \<longrightarrow> c \<in> set (m_candidates L1) \<and> pol g (cand_node c) = Some True"
      "distinct (map ?k (m_results L1))" "m_visited L1 = m_visited L" "m_query L1 = m_query L" "m_level L1 = m_level L"
      "\<And>n. reach G g (m_level L) (query_keys G (m_query L)) E n \<Longrightarrow> node_key G n \<in> m_visited L \<Longrightarrow> pol g n = Some True \<Longrightarrow>
        covered G g ef L n \<or> n = cand_node c \<Longrightarrow> covered G g ef L1 n" for L1
  proof -
    have sn: "seen G g E L1 x = seen G g E L x" "expanded G g L1 n = expanded G g L n" for x n
      using that(8-10) by (simp_all add: seen_def expanded_def)
    have mem: "c \<notin> set ?R" using keys(3) by auto
    show ?thesis
      unfolding search_inv_def sn that(8-10)
    proof (intro conjI ballI allI impI)
      fix x assume "x \<in> set (m_candidates L1) \<union> set (m_results L1)"
      then have "x = c \<or> x \<in> set ?C \<or> x \<in> set ?R" using that(4,5) by auto
      then show "seen G g E L x" using seen_cs(2) iv(3,4) by blast
    next
      fix x assume x: "x \<in> set (m_results L1)"
      then have "x = c \<or> x \<in> set ?R" using that(5) by auto
      then show "pol g (cand_node x) = Some True" using iv(5) that(6) x by blast
      show "x \<in> set (m_candidates L1) \<or> cand_node x \<in> F \<or> expanded G g L (cand_node x)"
        using \<open>x = c \<or> x \<in> set ?R\<close> iv(8) that(3,6) x by blast
    next
      fix n assume n: "reach G g (m_level L) (query_keys G (m_query L)) E n" "node_key G n \<in> m_visited L"
        "pol g n = Some True" "n \<notin> cand_node ` set cs"
      then have "covered G g ef L n \<or> n = cand_node c" using iv(7) [OF n(1-3)] by auto
      then show "covered G g ef L1 n" by (rule that(11) [OF n(1-3)])
    qed (use that(1,2,7) Cons.prems(1) in \<open>auto simp: search_inv_def\<close>)
  qed
  show ?case
  proof (cases "length ?R < ef \<or> cand_less c (hd ?R)")
    case False
    have run: "expand_candidates H pol g ef cs L = Some L'" using Cons.prems(6) False by simp
    have "covered G g ef L (cand_node c)"
    proof -
      have "cand_distance x \<le> cand_distance c" if "x \<in> set ?R" for x
        using max_top [OF iv(2) that] False by (auto simp: cand_less_def)
      then show ?thesis using seen_cs(2) False by (auto simp: covered_def seen_def)
    qed
    then have "search_inv is_heap G pol g ef E (cand_node ` set cs) F L"
      by (intro covered_step) (use iv keys in auto)
    from Cons.IH [OF this Cons.prems(2) seen_cs(1) keys(1,4) run] show ?thesis by auto
  next
    case True
    define L1 where "L1 = L\<lparr>m_candidates := hpush H MinComparator c ?C\<rparr>"
    obtain visible where vis: "pol g (cand_node c) = Some visible"
      using Cons.prems(6) True by (auto simp: Let_def split: option.splits)
    define L2 where "L2 = (if visible then L1\<lparr>m_results := offer H ef c ?R\<rparr> else L1)"
    have run: "expand_candidates H pol g ef cs L2 = Some L'"
      using Cons.prems(6) True vis by (cases visible) (simp_all add: L1_def L2_def Let_def)
    note q = min_queue [OF iv(1), of c] and o = offer_props [OF iv(2), where ef = ef and c = c]
    have dist: "query_distance G g (m_query L) (cand_node x) = Some (cand_distance x)" if "x \<in> insert c (set ?R)" for x
      using that seen_cs(2) iv(4) by (auto simp: seen_def)
    have dd: "distinct (map ?k (offer H ef c ?R))"
    proof -
      have "distinct (map ?k (c # ?R))" using iv(6) keys(3) by simp
      moreover have "mset (offer H ef c ?R) \<subseteq># mset (c # ?R)" using o(5) by simp
      ultimately show ?thesis
        by (metis distinct_map_mset_sub)
    qed
    have inv2: "search_inv is_heap G pol g ef E (cand_node ` set cs) F L2"
    proof (cases visible)
      case v: True
      show ?thesis
      proof (rule covered_step)
        show "covered G g ef L2 n" if "covered G g ef L n \<or> n = cand_node c" for n
          by (rule covered_offer [OF iv(2) Cons.prems(2) True dist that]) (simp_all add: L2_def L1_def v)
      qed (use q o v vis dd in \<open>auto simp: L2_def L1_def\<close>)
    next
      case v: False
      show ?thesis
      proof (rule covered_step)
        show "covered G g ef L2 n" if "pol g n = Some True" "covered G g ef L n \<or> n = cand_node c" for n
          using that vis v by (auto simp: covered_def L2_def L1_def)
      qed (use q v vis iv keys in \<open>auto simp: L2_def L1_def\<close>)
    qed
    have "set (m_results L2) \<subseteq> insert c (set ?R)" using o(2) by (auto simp: L2_def L1_def)
    then have "?k ` set (m_results L2) \<subseteq> insert (?k c) (?k ` set ?R)" by auto
    then have dj: "?k ` set cs \<inter> ?k ` set (m_results L2) = {}" by (rule disjoint_subset_insert [OF _ keys(2,4)])
    have "\<forall>x\<in>set cs. seen G g E L2 x" using seen_cs(1) by (simp add: seen_def L2_def L1_def)
    note IH = Cons.IH [OF inv2 Cons.prems(2) this keys(1) dj run]
    have "m_visited L2 = m_visited L" "m_query L2 = m_query L" "m_level L2 = m_level L"
      "length (m_results L2) \<le> max ef (length ?R)" "length (m_candidates L2) = Suc (length ?C)"
      using o(3) q(3) by (simp_all add: L2_def L1_def)
    with IH show ?thesis by auto
  qed
qed

text \<open>Expanding the node that left the candidate queue.\<close>

lemma expand_inv:
  assumes iv: "search_inv is_heap G pol g ef E {} {n} L" and ef: "0 < ef"
    and r: "reach G g (m_level L) (query_keys G (m_query L)) E n"
    and inj: "keys_inj G (reach G g (m_level L) (query_keys G (m_query L)) E)"
    and run: "expand H G pol g n ef L = Some L'"
  shows "search_inv is_heap G pol g ef E {} {} L'" "m_query L' = m_query L" "m_level L' = m_level L"
    "length (m_results L') \<le> max ef (length (m_results L))"
    "\<exists>new. m_visited L' = m_visited L \<union> new \<and> finite new \<and> new \<inter> m_visited L = {}
       \<and> length (m_candidates L') \<le> length (m_candidates L) + card new"
proof -
  let ?A = "query_keys G (m_query L)" and ?k = "node_key G \<circ> cand_node"
  let ?re = "reach G g (m_level L) ?A E"
  obtain ns vis ms cs where ns: "g_neighbours G g n (m_level L) = Some ns"
    and un: "insert_unvisited (node_key G) (m_visited L) ns = (vis, ms)"
    and ev: "evaluate_distances G g (m_query L) ms = Some cs"
    and ex: "expand_candidates H pol g ef cs (L\<lparr>m_visited := vis\<rparr>) = Some L'"
    using run by (auto simp: expand_def split: option.splits prod.splits)
  note u = insert_unvisited_props [OF un] and e = evaluate_distances_props [OF ev]
  note old = search_invD [OF iv]
  have sub: "?A \<subseteq> m_visited L" using iv by (simp add: search_inv_def)
  have ms: "cand_node ` set cs = set ms" using e by (metis list.set_map)
  have re_ms: "?re m" if "m \<in> set ms" for m
  proof -
    have "node_key G m \<notin> ?A" using that u(3) sub by blast
    with that u(2) show ?thesis using reach.step [OF r ns] by blast
  qed
  let ?L = "L\<lparr>m_visited := vis\<rparr>"
  have mono: "seen G g E ?L c" if "seen G g E L c" for c using that u(1) by (auto simp: seen_def)
  have seen_cs: "\<forall>c\<in>set cs. seen G g E ?L c"
  proof
    fix c assume c: "c \<in> set cs"
    then have "cand_node c \<in> set ms" using ms by blast
    then show "seen G g E ?L c" using c e re_ms u(1,2) by (auto simp: seen_def)
  qed
  have dist: "distinct (map ?k cs)" using u(4) e by (metis map_map)
  have keys: "?k ` set cs = node_key G ` set ns - m_visited L" using ms u(3) by (metis image_comp)
  have res_keys: "?k ` set (m_results L) \<subseteq> m_visited L" using old(4) by (auto simp: seen_def)
  have dj: "?k ` set cs \<inter> ?k ` set (m_results ?L) = {}" using keys res_keys by auto
  have vis_re: "vis \<subseteq> ?A \<union> node_key G ` {n. ?re n}"
  proof
    fix k assume "k \<in> vis"
    then consider "k \<in> m_visited L" | m where "m \<in> set ns" "k = node_key G m" using u(1) by blast
    then show "k \<in> ?A \<union> node_key G ` {n. ?re n}"
    proof cases
      case 1
      then show ?thesis using iv by (auto simp: search_inv_def)
    next
      case 2
      then show ?thesis using reach.step [OF r ns] by (cases "k \<in> ?A") auto
    qed
  qed
  have inv: "search_inv is_heap G pol g ef E (cand_node ` set cs) {} ?L"
    unfolding search_inv_def
  proof (intro conjI ballI allI impI)
    fix m assume m: "reach G g (m_level ?L) (query_keys G (m_query ?L)) E m" "node_key G m \<in> m_visited ?L"
      "pol g m = Some True" "m \<notin> cand_node ` set cs"
    have "node_key G m \<in> m_visited L"
    proof (rule ccontr)
      assume k: "node_key G m \<notin> m_visited L"
      then have "node_key G m \<in> node_key G ` set ms" using m(2) u(1,3) by auto
      then obtain m' where m': "m' \<in> set ms" "node_key G m = node_key G m'" by blast
      then have "m = m'" using inj m(1) re_ms by (auto simp: keys_inj_def inj_on_def)
      with m' m(4) ms show False by blast
    qed
    with old(7) [of m] m have "covered G g ef L m" by simp
    then show "covered G g ef ?L m" by (simp add: covered_def)
  next
    fix c assume c: "c \<in> set (m_results ?L)"
    show "c \<in> set (m_candidates ?L) \<or> cand_node c \<in> {} \<or> expanded G g ?L (cand_node c)"
      using old(8) [of c] c ns u(1) by (auto simp: expanded_def)
    show "pol g (cand_node c) = Some True" using old(5) c by simp
  qed (use iv mono vis_re u(1) in \<open>auto simp: search_inv_def\<close>)
  from expand_candidates_inv [OF inv ef seen_cs dist dj ex]
  show "search_inv is_heap G pol g ef E {} {} L'" "m_query L' = m_query L" "m_level L' = m_level L"
    "length (m_results L') \<le> max ef (length (m_results L))"
    and "\<exists>new. m_visited L' = m_visited L \<union> new \<and> finite new \<and> new \<inter> m_visited L = {}
       \<and> length (m_candidates L') \<le> length (m_candidates L) + card new"
  proof -
    assume a: "search_inv is_heap G pol g ef E {} {} L' \<and> m_visited L' = m_visited ?L \<and> m_query L' = m_query ?L
      \<and> m_level L' = m_level ?L \<and> length (m_results L') \<le> max ef (length (m_results ?L))
      \<and> length (m_candidates L') \<le> length (m_candidates ?L) + length cs"
    then show "search_inv is_heap G pol g ef E {} {} L'" "m_query L' = m_query L" "m_level L' = m_level L"
      "length (m_results L') \<le> max ef (length (m_results L))" by auto
    have "length cs = card (node_key G ` set ns - m_visited L)" using u(5) e by (metis length_map)
    then show "\<exists>new. m_visited L' = m_visited L \<union> new \<and> finite new \<and> new \<inter> m_visited L = {}
       \<and> length (m_candidates L') \<le> length (m_candidates L) + card new"
      using a u(1) by (intro exI [of _ "node_key G ` set ns - m_visited L"]) auto
  qed
qed

end

text \<open>When no read of a node of \<open>Q\<close> fails, the steps of a search succeed.\<close>

definition reads_ok ::
    "('g, 'n, 'k, 'v, 'd, 'z) layer_graph_scheme \<Rightarrow> ('g, 'n) visibility_policy \<Rightarrow> 'g \<Rightarrow> nat \<Rightarrow> ('n, 'v) query \<Rightarrow> ('n \<Rightarrow> bool) \<Rightarrow> bool" where
  "reads_ok G pol g l q Q \<longleftrightarrow> (\<forall>n. Q n \<longrightarrow>
     query_distance G g q n \<noteq> None \<and> g_neighbours G g n l \<noteq> None \<and> pol g n \<noteq> None)"

lemma evaluate_distances_ok: "(\<And>n. n \<in> set ns \<Longrightarrow> query_distance G g q n \<noteq> None) \<Longrightarrow> evaluate_distances G g q ns \<noteq> None"
  by (induction ns) (auto split: option.split)

lemma expand_candidates_ok:
  "(\<And>c. c \<in> set cs \<Longrightarrow> pol g (cand_node c) \<noteq> None) \<Longrightarrow> expand_candidates H pol g ef cs L \<noteq> None"
proof (induction cs arbitrary: L)
  case (Cons c cs)
  then obtain b where "pol g (cand_node c) = Some b" by fastforce
  with Cons show ?case by (simp add: Let_def del: not_None_eq)
qed simp

lemma seed_candidates_ok:
  "(\<And>c. c \<in> set cs \<Longrightarrow> pol g (cand_node c) \<noteq> None) \<Longrightarrow> seed_candidates H pol g cs L \<noteq> None"
proof (induction cs arbitrary: L)
  case (Cons c cs)
  then obtain b where "pol g (cand_node c) = Some b" by fastforce
  with Cons show ?case by (simp add: Let_def del: not_None_eq)
qed simp

lemma expand_ok:
  assumes ok: "reads_ok G pol g (m_level L) (m_query L) (reach G g (m_level L) (query_keys G (m_query L)) E)"
    and r: "reach G g (m_level L) (query_keys G (m_query L)) E n" and sub: "query_keys G (m_query L) \<subseteq> m_visited L"
  shows "expand H G pol g n ef L \<noteq> None"
proof -
  obtain ns vis ms where ns: "g_neighbours G g n (m_level L) = Some ns"
    and un: "insert_unvisited (node_key G) (m_visited L) ns = (vis, ms)"
    using ok r by (cases "insert_unvisited (node_key G) (m_visited L) (the (g_neighbours G g n (m_level L)))")
      (fastforce simp: reads_ok_def)
  note u = insert_unvisited_props [OF un]
  have re: "reach G g (m_level L) (query_keys G (m_query L)) E m" if "m \<in> set ms" for m
    using that u(2,3) sub by (intro reach.step [OF r ns]) auto
  have "evaluate_distances G g (m_query L) ms \<noteq> None"
    using ok re by (intro evaluate_distances_ok) (simp add: reads_ok_def)
  then obtain cs where cs: "evaluate_distances G g (m_query L) ms = Some cs" by blast
  have "cand_node ` set cs = set ms" using evaluate_distances_props [OF cs] by (metis list.set_map)
  then have "pol g (cand_node c) \<noteq> None" if "c \<in> set cs" for c using that re ok by (auto simp: reads_ok_def)
  then show ?thesis using ns un cs by (simp add: expand_def expand_candidates_ok)
qed

lemma seed_impl_ok:
  assumes ok: "reads_ok G pol g l (m_query L) (reach G g l (query_keys G (m_query L)) E)" and L: "m_visited L = {}"
  shows "seed_impl H G pol g E L \<noteq> None"
proof -
  let ?A = "query_keys G (m_query L)"
  have A: "(case m_query L of Query_node q \<Rightarrow> insert (node_key G q) (m_visited L) | Query_data _ \<Rightarrow> m_visited L) = ?A"
    by (simp add: L query_keys_def split: query.split)
  obtain vis ms where un: "insert_unvisited (node_key G) ?A E = (vis, ms)" by (cases "insert_unvisited (node_key G) ?A E")
  note u = insert_unvisited_props [OF un]
  have re: "reach G g l ?A E m" if "m \<in> set ms" for m
    using that u(2,3) by (intro reach.entry) auto
  have "evaluate_distances G g (m_query L) ms \<noteq> None"
    using ok re by (intro evaluate_distances_ok) (simp add: reads_ok_def)
  then obtain cs where cs: "evaluate_distances G g (m_query L) ms = Some cs" by blast
  have "cand_node ` set cs = set ms" using evaluate_distances_props [OF cs] by (metis list.set_map)
  then have "pol g (cand_node c) \<noteq> None" if "c \<in> set cs" for c using that re ok by (auto simp: reads_ok_def)
  then show ?thesis unfolding seed_impl_def A using un cs by (simp add: seed_candidates_ok)
qed

text \<open>The state in which a search ends.\<close>

definition search_done ::
    "((('n, 'd :: linorder) candidate \<Rightarrow> ('n, 'd) candidate \<Rightarrow> bool) \<Rightarrow> ('n, 'd) candidate list \<Rightarrow> bool) \<Rightarrow>
     ('g, 'n, 'k, 'v, 'd, 'z) layer_graph_scheme \<Rightarrow> ('g, 'n) visibility_policy \<Rightarrow> 'g \<Rightarrow> nat \<Rightarrow> 'n list \<Rightarrow>
     ('n, 'k, 'v, 'd) layer_ops \<Rightarrow> bool" where
  "search_done is_heap G pol g ef E L \<longleftrightarrow>
     is_heap MaxComparator (m_results L) \<and> distinct (map (node_key G \<circ> cand_node) (m_results L))
     \<and> (\<forall>c\<in>set (m_results L). seen G g E L c \<and> pol g (cand_node c) = Some True \<and> expanded G g L (cand_node c))
     \<and> (\<forall>n. reach G g (m_level L) (query_keys G (m_query L)) E n \<longrightarrow> node_key G n \<in> m_visited L \<longrightarrow>
           pol g n = Some True \<longrightarrow> covered G g ef L n)"

context layer_queue
begin

lemma search_loop_done:
  fixes G :: "('g, 'n, 'k, 'v, 'd, 'z) layer_graph_scheme"
  assumes "search_inv is_heap G pol g ef E {} {} L" "0 < ef" "m_query L = q" "m_level L = l"
    and "keys_inj G (reach G g l (query_keys G q) E)" "finite (node_key G ` {n. reach G g l (query_keys G q) E n})"
  shows "\<exists>r. search_loop H G pol g ef L = Some r \<and> (reads_ok G pol g l q (reach G g l (query_keys G q) E) \<longrightarrow> r \<noteq> None) \<and> (\<forall>L'. r = Some L' \<longrightarrow>
     search_done is_heap G pol g ef E L' \<and> m_query L' = q \<and> m_level L' = l
     \<and> m_visited L \<subseteq> m_visited L' \<and> length (m_results L') \<le> max ef (length (m_results L)))"
  using assms
proof (induction "length (m_candidates L) + card (node_key G ` {n. reach G g l (query_keys G q) E n} - m_visited L)"
    arbitrary: L rule: less_induct)
  case (less L)
  let ?K = "node_key G ` {n. reach G g l (query_keys G q) E n}" and ?C = "m_candidates L"
  note iv = search_invD [OF less.prems(1)]
  have cov: "covered G g ef L n" if "reach G g (m_level L) (query_keys G (m_query L)) E n" "node_key G n \<in> m_visited L" "pol g n = Some True" for n
    using iv(7) that by simp
  show ?case
  proof (cases "?C = []")
    case True
    then have "search_done is_heap G pol g ef E L"
      unfolding search_done_def using iv cov by auto
    with True less.prems(3,4) show ?thesis by (subst search_loop.simps) auto
  next
    case False
    define c where "c = hd ?C"
    define L1 where "L1 = L\<lparr>m_candidates := hpop H MinComparator ?C\<rparr>"
    note hp = heap_pop [OF comparators_strict_weak(1) iv(1) False] mset_pop' [OF comparators_strict_weak(1) iv(1) False]
      length_pop [OF comparators_strict_weak(1) iv(1) False]
    have setC: "set ?C = insert c (set (m_candidates L1))"
      using hp(2) [THEN arg_cong [where f = set_mset]] by (simp add: L1_def c_def)
    have sn: "seen G g E L1 x = seen G g E L x" "expanded G g L1 n = expanded G g L n" "covered G g ef L1 n = covered G g ef L n" for x n
      by (simp_all add: seen_def expanded_def covered_def L1_def)
    have mem: "m_results L1 = m_results L" "m_visited L1 = m_visited L" "m_query L1 = m_query L" "m_level L1 = m_level L"
      by (simp_all add: L1_def)
    show ?thesis
    proof (cases "m_results L1 \<noteq> [] \<and> cand_less (hd (m_results L1)) c")
      case True
      have "expanded G g L (cand_node x)" if "x \<in> set (m_results L)" for x
      proof -
        have "cand_distance x < cand_distance c"
          using max_top [OF iv(2) that] True by (auto simp: L1_def cand_less_def)
        then have "x \<notin> set ?C" using min_top [OF iv(1), of x] by (auto simp: c_def)
        then show ?thesis using iv(8) [OF that] by simp
      qed
      then have "search_done is_heap G pol g ef E L1"
        unfolding search_done_def sn mem using iv cov by auto
      with False True less.prems(3,4) show ?thesis
        by (subst search_loop.simps) (auto simp: Let_def c_def L1_def)
    next
      case go: False
      have sl: "search_loop H G pol g ef L = (case expand H G pol g (cand_node c) ef L1 of None \<Rightarrow> Some None
          | Some L2 \<Rightarrow> search_loop H G pol g ef L2)"
        using False go by (subst search_loop.simps) (auto simp: Let_def c_def L1_def)
      show ?thesis
      proof (cases "expand H G pol g (cand_node c) ef L1")
        case None
        have "reach G g l (query_keys G q) E (cand_node c)" using iv(3) [of c] setC less.prems(3,4) by (simp add: seen_def)
        then have "\<not> reads_ok G pol g l q (reach G g l (query_keys G q) E)"
          using expand_ok [of G pol g L1 E "cand_node c" H ef] None mem less.prems(1,3,4) by (auto simp: search_inv_def)
        with sl None show ?thesis by simp
      next
        case (Some L2)
        have "search_inv is_heap G pol g ef E {} {cand_node c} L1"
          unfolding search_inv_def sn mem
          using less.prems(1) setC hp(1) by (auto simp: search_inv_def L1_def)
        moreover have "reach G g l (query_keys G q) E (cand_node c)"
          using iv(3) [of c] setC less.prems(3,4) by (simp add: seen_def)
        ultimately have ex: "search_inv is_heap G pol g ef E {} {} L2" "m_query L2 = q" "m_level L2 = l"
          "length (m_results L2) \<le> max ef (length (m_results L))"
          and "\<exists>new. m_visited L2 = m_visited L \<union> new \<and> finite new \<and> new \<inter> m_visited L = {}
            \<and> length (m_candidates L2) \<le> length (m_candidates L1) + card new"
          using expand_inv [of G pol g ef E "cand_node c" L1 L2] less.prems(2-5) Some mem by auto
        then obtain new where new: "m_visited L2 = m_visited L \<union> new" "finite new" "new \<inter> m_visited L = {}"
            "length (m_candidates L2) \<le> length (m_candidates L1) + card new" by blast
        have "m_visited L2 \<subseteq> query_keys G q \<union> ?K" "query_keys G q \<subseteq> m_visited L"
          using ex less.prems(1,3) by (auto simp: search_inv_def)
        then have "new \<subseteq> ?K - m_visited L" using new by auto
        then have "card (?K - m_visited L2) + card new = card (?K - m_visited L)"
        proof -
          assume sub: "new \<subseteq> ?K - m_visited L"
          have "?K - m_visited L2 = (?K - m_visited L) - new" using new(1) by auto
          then show ?thesis using sub new(2) less.prems(6) by (simp add: card_Diff_subset card_mono)
        qed
        then have "length (m_candidates L2) + card (?K - m_visited L2) < length ?C + card (?K - m_visited L)"
          using new(4) hp(3) by (simp add: L1_def)
        from less.hyps [OF this ex(1) less.prems(2) ex(2,3) less.prems(5,6)]
        obtain r where "search_loop H G pol g ef L2 = Some r" "reads_ok G pol g l q (reach G g l (query_keys G q) E) \<longrightarrow> r \<noteq> None"
          and r: "\<And>L'. r = Some L' \<Longrightarrow> search_done is_heap G pol g ef E L' \<and> m_query L' = q \<and> m_level L' = l
            \<and> m_visited L2 \<subseteq> m_visited L' \<and> length (m_results L') \<le> max ef (length (m_results L2))"
          by blast
        moreover have "m_visited L \<subseteq> m_visited L' \<and> length (m_results L') \<le> max ef (length (m_results L))" if "r = Some L'" for L'
          using r [OF that] new(1) ex(4) by (auto simp: max_def split: if_splits)
        ultimately show ?thesis using sl Some by auto
      qed
    qed
  qed
qed

lemma seed_candidates_props:
  assumes "is_heap MinComparator (m_candidates L)" "is_heap MaxComparator (m_results L)"
    and "seed_candidates H pol g cs L = Some L'"
  shows "is_heap MinComparator (m_candidates L') \<and> is_heap MaxComparator (m_results L')
    \<and> mset (m_candidates L') = mset (m_candidates L) + mset cs
    \<and> mset (m_results L') = mset (m_results L) + mset (filter (\<lambda>c. pol g (cand_node c) = Some True) cs)
    \<and> m_visited L' = m_visited L \<and> m_query L' = m_query L \<and> m_level L' = m_level L"
  using assms
proof (induction cs arbitrary: L)
  case (Cons c cs)
  obtain b where b: "pol g (cand_node c) = Some b" using Cons.prems(3) by (auto simp: Let_def split: option.splits)
  note q = min_queue [OF Cons.prems(1), of c] mset_push [OF comparators_strict_weak(1) Cons.prems(1), of c]
    and r = max_push [OF Cons.prems(2), of c]
  show ?case
  proof (cases b)
    case True
    with Cons.prems(3) b have "seed_candidates H pol g cs (L\<lparr>m_candidates := hpush H MinComparator c (m_candidates L),
        m_results := hpush H MaxComparator c (m_results L)\<rparr>) = Some L'" by (simp add: Let_def)
    from Cons.IH [OF _ _ this] show ?thesis using q r b True by simp
  next
    case False
    with Cons.prems(3) b have "seed_candidates H pol g cs (L\<lparr>m_candidates := hpush H MinComparator c (m_candidates L)\<rparr>) = Some L'"
      by (simp add: Let_def)
    from Cons.IH [OF _ _ this] show ?thesis using q Cons.prems(2) b False by simp
  qed
qed simp

lemma seed_impl_inv:
  assumes run: "seed_impl H G pol g E ((Layer_reset L)\<lparr>m_level := l\<rparr>) = Some L'"
    and inj: "keys_inj G (reach G g l (query_keys G (m_query L)) E)"
  shows "search_inv is_heap G pol g ef E {} {} L'" "m_query L' = m_query L" "m_level L' = l"
    "m_visited L' = query_keys G (m_query L) \<union> node_key G ` set E" "length (m_results L') \<le> length E"
    "node_key G n \<notin> query_keys G (m_query L) \<Longrightarrow> n \<in> set E \<Longrightarrow> pol g n = Some True \<Longrightarrow> n \<in> cand_node ` set (m_results L')"
proof -
  let ?A = "query_keys G (m_query L)" and ?L = "(Layer_reset L)\<lparr>m_level := l\<rparr>"
  have A: "(case m_query ?L of Query_node q \<Rightarrow> insert (node_key G q) (m_visited ?L) | Query_data _ \<Rightarrow> m_visited ?L) = ?A"
    by (simp add: Layer_reset_def query_keys_def split: query.split)
  obtain vis ms cs where un: "insert_unvisited (node_key G) ?A E = (vis, ms)"
    and ev: "evaluate_distances G g (m_query L) ms = Some cs"
    and sd: "seed_candidates H pol g cs (?L\<lparr>m_visited := vis\<rparr>) = Some L'"
    using run unfolding seed_impl_def A by (auto simp: Let_def Layer_reset_def split: option.splits prod.splits)
  note u = insert_unvisited_props [OF un] and e = evaluate_distances_props [OF ev]
  have ms: "cand_node ` set cs = set ms" using e by (metis list.set_map)
  have p: "is_heap MinComparator (m_candidates L')" "is_heap MaxComparator (m_results L')"
    "mset (m_candidates L') = mset cs" "mset (m_results L') = mset (filter (\<lambda>c. pol g (cand_node c) = Some True) cs)"
    "m_visited L' = vis" "m_query L' = m_query L" "m_level L' = l"
    using seed_candidates_props [OF _ _ sd] heap_Nil by (auto simp: Layer_reset_def)
  show "m_query L' = m_query L" "m_level L' = l" "m_visited L' = ?A \<union> node_key G ` set E" using p u(1) by auto
  have setC: "set (m_candidates L') = set cs" using p(3) by (metis set_mset_mset)
  have setR: "set (m_results L') = {c\<in>set cs. pol g (cand_node c) = Some True}"
    using p(4) by (metis set_filter set_mset_mset)
  have re: "reach G g l ?A E m" if "m \<in> set ms" for m
    using that u(2,3) by (intro reach.entry) auto
  have sn: "seen G g E L' c" if "c \<in> set cs" for c
  proof -
    have "cand_node c \<in> set ms" using that ms by blast
    with u(1,2) have "reach G g l ?A E (cand_node c)" "node_key G (cand_node c) \<in> vis" using re by auto
    with e that show ?thesis by (simp add: seen_def p)
  qed
  have "distinct (map (node_key G \<circ> cand_node) cs)" using u(4) e by (metis map_map)
  then have dR: "distinct (map (node_key G \<circ> cand_node) (m_results L'))"
    by (rule distinct_map_mset_sub) (use p(4) in simp)
  have inE: "n \<in> cand_node ` set (m_results L')"
    if "reach G g l ?A E n" "node_key G n \<in> node_key G ` set E" "pol g n = Some True" for n
  proof -
    have "node_key G n \<in> node_key G ` set ms" using that u(3) reach_key [OF that(1)] by auto
    then obtain m where "m \<in> set ms" "node_key G n = node_key G m" by blast
    then have "n \<in> set ms" using inj that(1) re by (auto simp: keys_inj_def inj_on_def)
    then show ?thesis using ms setR that(3) by force
  qed
  have vis: "vis \<subseteq> ?A \<union> node_key G ` {n. reach G g l ?A E n}"
    using u(1) by (auto intro: reach.entry)
  show "search_inv is_heap G pol g ef E {} {} L'"
    unfolding search_inv_def
  proof (intro conjI ballI allI impI)
    fix n assume n: "reach G g (m_level L') (query_keys G (m_query L')) E n" "node_key G n \<in> m_visited L'" "pol g n = Some True"
    then have "node_key G n \<in> node_key G ` set E" using u(1) reach_key [OF n(1)] by (auto simp: p)
    then show "covered G g ef L' n" using inE n by (simp add: covered_def p)
  qed (use p setC setR sn dR vis u(1) in auto)
  have "length (m_results L') \<le> length cs" using p(4) by (metis length_filter_le size_mset)
  also have "length cs = length ms" using e by (metis length_map)
  also have "\<dots> \<le> length E"
  proof -
    have "length ms = card (node_key G ` set E - ?A)" using u(5) .
    also have "\<dots> \<le> card (node_key G ` set E)" by (simp add: card_mono)
    also have "\<dots> \<le> length E" by (metis card_image_le card_length le_trans finite_set)
    finally show ?thesis .
  qed
  finally show "length (m_results L') \<le> length E" .
  show "n \<in> cand_node ` set (m_results L')" if "node_key G n \<notin> ?A" "n \<in> set E" "pol g n = Some True"
    using inE reach.entry [of n E G ?A g l] that by blast
qed

text \<open>A search ends, and what it has found.\<close>

lemma Layer_search_done:
  assumes inj: "keys_inj G (reach G g l (query_keys G (m_query L)) E)" and ef: "0 < ef"
    and fin: "finite (node_key G ` {n. reach G g l (query_keys G (m_query L)) E n})"
  shows "\<exists>r. Layer_search H G pol g E l ef L = Some r
     \<and> (reads_ok G pol g l (m_query L) (reach G g l (query_keys G (m_query L)) E) \<longrightarrow> r \<noteq> None) \<and> (\<forall>L'. r = Some L' \<longrightarrow>
     search_done is_heap G pol g ef E L' \<and> m_query L' = m_query L \<and> m_level L' = l
     \<and> node_key G ` set E \<subseteq> m_visited L' \<and> length (m_results L') \<le> max ef (length E))"
proof (cases "seed_impl H G pol g E ((Layer_reset L)\<lparr>m_level := l\<rparr>)")
  case None
  then show ?thesis
    using seed_impl_ok [of G pol g l "(Layer_reset L)\<lparr>m_level := l\<rparr>" E H] by (auto simp: Layer_search_def Layer_reset_def)
next
  case (Some L1)
  note sd = seed_impl_inv [OF Some inj]
  obtain r where r: "search_loop H G pol g ef L1 = Some r"
      "reads_ok G pol g l (m_query L) (reach G g l (query_keys G (m_query L)) E) \<longrightarrow> r \<noteq> None"
    and d: "\<forall>L'. r = Some L' \<longrightarrow> search_done is_heap G pol g ef E L' \<and> m_query L' = m_query L \<and> m_level L' = l
     \<and> m_visited L1 \<subseteq> m_visited L' \<and> length (m_results L') \<le> max ef (length (m_results L1))"
    using search_loop_done [OF sd(1) ef sd(2,3) inj fin] by blast
  have st: "search_done is_heap G pol g ef E (L'\<lparr>m_state := st\<rparr>) = search_done is_heap G pol g ef E L'" for L' st
    by (simp add: search_done_def seen_def expanded_def covered_def)
  show ?thesis
  proof (cases r)
    case (Some L')
    with d sd(4,5) have "search_done is_heap G pol g ef E L'" "m_query L' = m_query L" "m_level L' = l"
      "node_key G ` set E \<subseteq> m_visited L'" "length (m_results L') \<le> max ef (length E)"
      by fastforce+
    with r \<open>seed_impl H G pol g E ((Layer_reset L)\<lparr>m_level := l\<rparr>) = Some L1\<close> Some show ?thesis
      by (simp add: Layer_search_def st)
  qed (use r \<open>seed_impl H G pol g E ((Layer_reset L)\<lparr>m_level := l\<rparr>) = Some L1\<close> in \<open>simp add: Layer_search_def\<close>)
qed

lemma pop_all_props:
  assumes "strict_weak cmp" "is_heap cmp q"
  shows "mset (pop_all H cmp (length q) q) = mset q \<and> sorted_wrt (\<lambda>x y. \<not> cmp x y) (pop_all H cmp (length q) q)"
  using assms(2)
proof (induction "length q" arbitrary: q)
  case (Suc n)
  then have ne: "q \<noteq> []" by auto
  let ?q = "hpop H cmp q"
  have q: "is_heap cmp ?q" "mset q = add_mset (hd q) (mset ?q)" "length q = Suc (length ?q)"
    using heap_pop [OF assms(1) Suc.prems ne] mset_pop' [OF assms(1) Suc.prems ne] length_pop [OF assms(1) Suc.prems ne] by auto
  have IH: "mset (pop_all H cmp (length ?q) ?q) = mset ?q \<and> sorted_wrt (\<lambda>x y. \<not> cmp x y) (pop_all H cmp (length ?q) ?q)"
    using Suc.hyps q by (intro Suc.hyps(1)) auto
  have "\<forall>y\<in>set (pop_all H cmp (length ?q) ?q). \<not> cmp (hd q) y"
  proof
    fix y assume "y \<in> set (pop_all H cmp (length ?q) ?q)"
    then have "y \<in> set q" using IH q(2) by (metis insert_iff set_mset_add_mset_insert set_mset_mset)
    then show "\<not> cmp (hd q) y" by (rule heap_top [OF assms(1) Suc.prems])
  qed
  with IH q(2,3) show ?case by simp
qed simp

text \<open>The consumed result: the nodes of the queue, nearest first.\<close>

lemma consume_result_props:
  assumes "is_heap MaxComparator (m_results L)"
  obtains cs where "consume_result H L = map cand_node cs" "mset cs = mset (m_results L)"
    "sorted_wrt (\<lambda>x y. cand_distance x \<le> cand_distance y) cs"
proof
  let ?p = "pop_all H MaxComparator (length (m_results L)) (m_results L)"
  note p = pop_all_props [OF comparators_strict_weak(2) assms]
  show "consume_result H L = map cand_node (rev ?p)" by (simp add: consume_result_def rev_map)
  show "mset (rev ?p) = mset (m_results L)" using p by simp
  show "sorted_wrt (\<lambda>x y. cand_distance x \<le> cand_distance y) (rev ?p)"
    using p by (simp add: sorted_wrt_rev MaxComparator_def cand_less_def not_less)
qed

text \<open>The nodes a search returns, and that they are a local optimum.\<close>

lemma search_result:
  assumes dn: "search_done is_heap G pol g ef E L" and inj: "keys_inj G (reach G g (m_level L) (query_keys G (m_query L)) E)"
  defines "out \<equiv> consume_result H L" and "re \<equiv> reach G g (m_level L) (query_keys G (m_query L)) E"
  shows "distinct (map (node_key G) out)" "length out = length (m_results L)" "set out = cand_node ` set (m_results L)"
    "sorted_wrt (\<lambda>a b. the (query_distance G g (m_query L) a) \<le> the (query_distance G g (m_query L) b)) out"
    "n \<in> set out \<Longrightarrow> re n \<and> pol g n = Some True \<and> query_distance G g (m_query L) n \<noteq> None"
    "re n \<Longrightarrow> node_key G n \<in> m_visited L \<Longrightarrow> pol g n = Some True \<Longrightarrow> query_distance G g (m_query L) n = Some d \<Longrightarrow>
       n \<in> set out \<or> ef \<le> length out \<and> (\<forall>x\<in>set out. the (query_distance G g (m_query L) x) \<le> d)"
    "n \<in> set out \<Longrightarrow> g_neighbours G g n (m_level L) = Some ns \<Longrightarrow> node_key G ` set ns \<subseteq> m_visited L"
proof -
  have h: "is_heap MaxComparator (m_results L)" using dn by (simp add: search_done_def)
  obtain cs where cs: "out = map cand_node cs" "mset cs = mset (m_results L)"
    "sorted_wrt (\<lambda>x y. cand_distance x \<le> cand_distance y) cs"
    using consume_result_props [OF h] unfolding out_def by blast
  have set_cs: "set cs = set (m_results L)" using cs(2) by (metis set_mset_mset)
  have sn: "re (cand_node c)" "query_distance G g (m_query L) (cand_node c) = Some (cand_distance c)"
    "pol g (cand_node c) = Some True" "expanded G g L (cand_node c)" if "c \<in> set cs" for c
    using dn that set_cs by (auto simp: search_done_def seen_def re_def)
  have "distinct (map (node_key G \<circ> cand_node) cs)"
    by (rule distinct_map_mset_sub [of _ "m_results L"]) (use dn cs(2) in \<open>simp_all add: search_done_def\<close>)
  then show "distinct (map (node_key G) out)" using cs(1) by simp
  show len: "length out = length (m_results L)" using cs(1,2) by (metis length_map size_mset)
  show out: "set out = cand_node ` set (m_results L)" using cs(1) set_cs by simp
  show "sorted_wrt (\<lambda>a b. the (query_distance G g (m_query L) a) \<le> the (query_distance G g (m_query L) b)) out"
    unfolding cs(1) sorted_wrt_map using cs(3) by (rule sorted_wrt_mono_rel [rotated]) (simp add: sn)
  show "re n \<and> pol g n = Some True \<and> query_distance G g (m_query L) n \<noteq> None" if "n \<in> set out"
    using that sn cs(1) by auto
  show "node_key G ` set ns \<subseteq> m_visited L" if "n \<in> set out" "g_neighbours G g n (m_level L) = Some ns"
    using that sn(4) cs(1) by (auto simp: expanded_def)
  show "n \<in> set out \<or> ef \<le> length out \<and> (\<forall>x\<in>set out. the (query_distance G g (m_query L) x) \<le> d)"
    if "re n" "node_key G n \<in> m_visited L" "pol g n = Some True" "query_distance G g (m_query L) n = Some d"
  proof -
    have "covered G g ef L n" using dn that by (simp add: search_done_def re_def)
    then show ?thesis
      using that(4) sn(2) set_cs unfolding covered_def len out by auto
  qed
qed

end

subsection \<open>The neighbour selection heuristic\<close>

text \<open>
  \<open>nearer_to_query e r\<close>: node \<open>e\<close> is at least as near to the query as to \<open>r\<close>. A selection is diverse
  when this holds for every element and the elements selected before it; an element is covered when it
  is nearer to some selected node than to the query.
\<close>

definition nearer_to_query ::
    "('g, 'n, 'k, 'v, 'd :: linorder, 'z) layer_graph_scheme \<Rightarrow> 'g \<Rightarrow> ('n, 'v) query \<Rightarrow> 'n \<Rightarrow> 'n \<Rightarrow> bool" where
  "nearer_to_query G g q r e \<longleftrightarrow> (\<exists>x d. g_node_distance G g e r = Some x \<and> query_distance G g q e = Some d \<and> d \<le> x)"

definition dominated_by ::
    "('g, 'n, 'k, 'v, 'd :: linorder, 'z) layer_graph_scheme \<Rightarrow> 'g \<Rightarrow> ('n, 'v) query \<Rightarrow> 'n list \<Rightarrow> 'n \<Rightarrow> bool" where
  "dominated_by G g q R e \<longleftrightarrow> (\<exists>r\<in>set R. \<exists>x d. g_node_distance G g e r = Some x \<and> query_distance G g q e = Some d \<and> x < d)"

lemma is_dominated_iff:
  assumes "is_dominated G g e R = Some b" "query_distance G g q (cand_node e) = Some (cand_distance e)"
  shows "b \<longleftrightarrow> dominated_by G g q R (cand_node e)"
    and "\<not> b \<Longrightarrow> r \<in> set R \<Longrightarrow> nearer_to_query G g q r (cand_node e)"
proof -
  have "(b \<longleftrightarrow> dominated_by G g q R (cand_node e)) \<and> (\<not> b \<longrightarrow> (\<forall>r\<in>set R. nearer_to_query G g q r (cand_node e)))"
    using assms
  proof (induction R)
    case (Cons r R)
    obtain x where x: "g_node_distance G g (cand_node e) r = Some x"
      using Cons.prems(1) by (auto split: option.splits)
    show ?case
    proof (cases "x < cand_distance e")
      case True
      with Cons.prems x show ?thesis by (auto simp: dominated_by_def)
    next
      case False
      with Cons.prems x have "is_dominated G g e R = Some b" by simp
      with Cons False x show ?thesis by (auto simp: dominated_by_def nearer_to_query_def)
    qed
  qed (auto simp: dominated_by_def)
  then show "b \<longleftrightarrow> dominated_by G g q R (cand_node e)"
    "\<not> b \<Longrightarrow> r \<in> set R \<Longrightarrow> nearer_to_query G g q r (cand_node e)" by auto
qed

text \<open>
  The state of the selection: \<open>R\<close> is diverse and in order, everything still queued is at least as far
  as what was selected, and what was discarded is covered.
\<close>

definition selection ::
    "('g, 'n, 'k, 'v, 'd :: linorder, 'z) layer_graph_scheme \<Rightarrow> 'g \<Rightarrow> ('n, 'v) query \<Rightarrow> nat \<Rightarrow>
     ('n, 'd) candidate list \<Rightarrow> 'n list \<Rightarrow> ('n, 'd) candidate list \<Rightarrow> bool" where
  "selection G g q M C R Wd \<longleftrightarrow> length R \<le> M
     \<and> (\<forall>c\<in>set C \<union> set Wd. query_distance G g q (cand_node c) = Some (cand_distance c))
     \<and> (\<forall>r\<in>set R. query_distance G g q r \<noteq> None)
     \<and> sorted_wrt (nearer_to_query G g q) R
     \<and> sorted_wrt (\<lambda>a b. the (query_distance G g q a) \<le> the (query_distance G g q b)) R
     \<and> (\<forall>r\<in>set R. \<forall>c\<in>set C. the (query_distance G g q r) \<le> cand_distance c)
     \<and> (\<forall>c\<in>set Wd. dominated_by G g q R (cand_node c))"

lemma dominated_by_mono: "dominated_by G g q R e \<Longrightarrow> set R \<subseteq> set R' \<Longrightarrow> dominated_by G g q R' e"
  by (auto simp: dominated_by_def)

context layer_queue
begin

lemma select_diverse_props:
  assumes "select_diverse H G g M n C R Wd = Some (R', Wd', C')" "is_heap MinComparator C" "length C = n"
    and "selection G g q M C R Wd"
  shows "selection G g q M C' R' Wd' \<and> (C' = [] \<or> length R' = M) \<and> set R \<subseteq> set R'
    \<and> mset R' + image_mset cand_node (mset Wd' + mset C') = mset R + image_mset cand_node (mset Wd + mset C)
    \<and> (R \<noteq> [] \<longrightarrow> R' \<noteq> [] \<and> hd R' = hd R) \<and> (R = [] \<longrightarrow> Wd = [] \<longrightarrow> C \<noteq> [] \<longrightarrow> 0 < M \<longrightarrow> R' \<noteq> [] \<and> hd R' = cand_node (hd C))"
  using assms
proof (induction n arbitrary: C R Wd)
  case 0
  then show ?case by auto
next
  case (Suc n)
  have ne: "C \<noteq> []" using Suc.prems(3) by auto
  let ?e = "hd C" and ?C = "hpop H MinComparator C"
  note pop = heap_pop [OF comparators_strict_weak(1) Suc.prems(2) ne] mset_pop' [OF comparators_strict_weak(1) Suc.prems(2) ne]
    length_pop [OF comparators_strict_weak(1) Suc.prems(2) ne]
  have sub: "set ?C \<subseteq> set C" by (rule set_pop [OF comparators_strict_weak(1) Suc.prems(2) ne])
  have len: "length ?C = n" using pop(3) Suc.prems(3) by simp
  have e: "?e \<in> set C" using ne by simp
  note sel = Suc.prems(4)
  have qe: "query_distance G g q (cand_node ?e) = Some (cand_distance ?e)" using sel e by (simp add: selection_def)
  show ?case
  proof (cases "length R < M")
    case False
    then have "R' = R" "Wd' = Wd" "C' = C" "length R = M" using Suc.prems(1) sel by (auto simp: selection_def)
    with sel False show ?thesis by auto
  next
    case True
    then obtain b where b: "is_dominated G g ?e R = Some b"
      using Suc.prems(1) by (auto simp: Let_def split: option.splits)
    note dm = is_dominated_iff [OF b qe]
    show ?thesis
    proof (cases b)
      case d: True
      have run: "select_diverse H G g M n ?C R (Wd @ [?e]) = Some (R', Wd', C')"
        using Suc.prems(1) True b d by (simp add: Let_def)
      have "selection G g q M ?C R (Wd @ [?e])" using sel sub e qe dm(1) d by (auto simp: selection_def)
      from Suc.IH [OF run pop(1) len this] dm(1) d show ?thesis
        unfolding pop(2) by (auto simp: dominated_by_def)
    next
      case d: False
      have run: "select_diverse H G g M n ?C (R @ [cand_node ?e]) Wd = Some (R', Wd', C')"
        using Suc.prems(1) True b d by (simp add: Let_def)
      have "cand_distance ?e \<le> cand_distance c" if "c \<in> set ?C" for c
        using min_top [OF Suc.prems(2)] that sub by blast
      moreover have "\<forall>c\<in>set Wd. dominated_by G g q (R @ [cand_node ?e]) (cand_node c)"
        using sel by (auto simp: selection_def intro: dominated_by_mono)
      moreover have "\<forall>r\<in>set R. nearer_to_query G g q r (cand_node ?e)" using dm(2) d by blast
      ultimately have "selection G g q M ?C (R @ [cand_node ?e]) Wd"
        using sel sub e qe True by (auto simp: selection_def sorted_wrt_append)
      from Suc.IH [OF run pop(1) len this] show ?thesis
        unfolding pop(2) by (auto simp: hd_append)
    qed
  qed
qed

lemma fold_push_props:
  "is_heap MinComparator q \<Longrightarrow> is_heap MinComparator (fold (hpush H MinComparator) cs q)
     \<and> mset (fold (hpush H MinComparator) cs q) = mset cs + mset q"
proof (induction cs arbitrary: q)
  case (Cons c cs)
  note p = heap_push [OF comparators_strict_weak(1) Cons.prems, of c] mset_push [OF comparators_strict_weak(1) Cons.prems, of c]
  from Cons.IH [OF p(1)] p(2) show ?case by simp
qed simp

text \<open>The selection from the result of a search or seed, without extension.\<close>

lemma consume_heuristic_props:
  assumes run: "consume_heuristic H G g M ExtendCandidates_No keep L = Some (out, pool, L')"
    and h: "is_heap MaxComparator (m_results L)"
    and ok: "\<forall>c\<in>set (m_results L). query_distance G g (m_query L) (cand_node c) = Some (cand_distance c)"
  obtains R Wd C where "selection G g (m_query L) M C R Wd" "C = [] \<or> length R = M" "pool = consume_result H L"
    "mset R + image_mset cand_node (mset Wd + mset C) = mset pool"
    "m_results L \<noteq> [] \<Longrightarrow> 0 < M \<Longrightarrow> R \<noteq> [] \<and> (\<forall>n\<in>set pool. the (query_distance G g (m_query L) (hd R)) \<le> the (query_distance G g (m_query L) n))"
    "out = (if keep = KeepPrunedConnections_Yes then R @ take (M - length R) (map cand_node Wd) else R)"
    "m_query L' = m_query L"
proof -
  let ?q = "m_query L"
  define W where "W = pop_all H MaxComparator (length (m_results L)) (m_results L)"
  have W: "mset W = mset (m_results L)" using pop_all_props [OF comparators_strict_weak(2) h] by (simp add: W_def)
  define C0 where "C0 = fold (hpush H MinComparator) W []"
  have C0: "is_heap MinComparator C0" "mset C0 = mset W" using fold_push_props [OF heap_Nil] by (auto simp: C0_def)
  obtain R Wd C where sel: "select_diverse H G g M (length W) C0 [] [] = Some (R, Wd, C)"
    and out: "out = (if keep = KeepPrunedConnections_Yes then R @ take (M - length R) (map cand_node Wd) else R)"
      "pool = rev (map cand_node W)" "m_query L' = ?q"
    using run by (auto simp: consume_heuristic_def Let_def W_def C0_def split: option.splits)
  have len: "length C0 = length W" using C0(2) by (metis size_mset)
  have setC0: "set C0 = set (m_results L)" using C0(2) W by (metis set_mset_mset)
  have s0: "selection G g ?q M C0 [] []" using ok setC0 by (auto simp: selection_def)
  note p = select_diverse_props [OF sel C0(1) len s0]
  have pool: "pool = consume_result H L" using out(2) by (simp add: consume_result_def W_def)
  have mp: "mset pool = image_mset cand_node (mset C0)" using out(2) C0(2) by simp
  show thesis
  proof (rule that [OF _ _ pool _ _ out(1,3)])
    show "selection G g ?q M C R Wd" "C = [] \<or> length R = M" using p by auto
    show "mset R + image_mset cand_node (mset Wd + mset C) = mset pool" using p mp by simp
    assume ne: "m_results L \<noteq> []" and M: "0 < M"
    then have C0ne: "C0 \<noteq> []" using setC0 by auto
    with p M have R: "R \<noteq> []" "hd R = cand_node (hd C0)" by auto
    have q: "query_distance G g ?q (cand_node c) = Some (cand_distance c)" if "c \<in> set C0" for c
      using ok setC0 that by simp
    have "the (query_distance G g ?q (hd R)) \<le> the (query_distance G g ?q n)" if "n \<in> set pool" for n
    proof -
      have "set pool = cand_node ` set C0" using mp by (metis set_image_mset set_mset_mset)
      then obtain c where "c \<in> set C0" "n = cand_node c" using \<open>n \<in> set pool\<close> by auto
      then show ?thesis using R(2) q [of c] q [of "hd C0"] C0ne min_top [OF C0(1)] by simp
    qed
    with R show "R \<noteq> [] \<and> (\<forall>n\<in>set pool. the (query_distance G g ?q (hd R)) \<le> the (query_distance G g ?q n))" by blast
  qed
qed

end

subsection \<open>Properties of a layer search\<close>

lemma layer_queueI: "std_queue H is_heap \<Longrightarrow> layer_queue H is_heap"
  by (simp add: layer_queue_def)

interpretation sorted_layer: layer_queue sorted_heap is_sorted_heap
  by (rule layer_queueI) (rule sorted_heap.std_queue_axioms)

text \<open>The nodes a search from \<open>E\<close> for \<open>q\<close> can return, and the conditions under which the searches are studied.\<close>

definition search_space ::
    "('g, 'n, 'k, 'v, 'd, 'z) layer_graph_scheme \<Rightarrow> 'g \<Rightarrow> nat \<Rightarrow> ('n, 'v) query \<Rightarrow> 'n list \<Rightarrow> 'n set" where
  "search_space G g l q E = {n. reach G g l (query_keys G q) E n}"

definition searchable ::
    "('g, 'n, 'k, 'v, 'd, 'z) layer_graph_scheme \<Rightarrow> 'g \<Rightarrow> nat \<Rightarrow> ('n, 'v) query \<Rightarrow> 'n list \<Rightarrow> bool" where
  "searchable G g l q E \<longleftrightarrow> finite (node_key G ` search_space G g l q E) \<and> inj_on (node_key G) (search_space G g l q E)"

lemma searchableD:
  assumes "searchable G g l q E"
  shows "keys_inj G (reach G g l (query_keys G q) E)" "finite (node_key G ` {n. reach G g l (query_keys G q) E n})"
    "finite (search_space G g l q E)"
  using assms by (auto simp: searchable_def search_space_def keys_inj_def dest: finite_imageD)

lemma Layer_search_run:
  assumes "std_queue H is_heap" "searchable G g l (m_query L) E" "0 < ef" "Layer_search H G pol g E l ef L = Some (Some L')"
  shows "search_done is_heap G pol g ef E L'" "m_query L' = m_query L" "m_level L' = l"
    "node_key G ` set E \<subseteq> m_visited L'" "length (m_results L') \<le> max ef (length E)"
  using layer_queue.Layer_search_done [OF layer_queueI [OF assms(1)] searchableD(1) [OF assms(2)] assms(3) searchableD(2) [OF assms(2)], of pol] assms(4)
  by auto

text \<open>The result of a search in terms of the search space.\<close>

lemma Layer_search_out:
  assumes H: "std_queue H is_heap" and s: "searchable G g l (m_query L) E" and ef: "0 < ef"
    and run: "Layer_search H G pol g E l ef L = Some (Some L')"
  defines "out \<equiv> consume_result H L'" and "dist \<equiv> query_distance G g (m_query L)"
  shows "distinct (map (node_key G) out)" "length out \<le> max ef (length E)"
    "sorted_wrt (\<lambda>a b. the (dist a) \<le> the (dist b)) out"
    "n \<in> set out \<Longrightarrow> n \<in> search_space G g l (m_query L) E \<and> pol g n = Some True \<and> dist n \<noteq> None"
    "n \<in> search_space G g l (m_query L) E \<Longrightarrow> n \<in> set E \<or> (\<exists>m\<in>set out. \<exists>ns. g_neighbours G g m l = Some ns \<and> n \<in> set ns) \<Longrightarrow>
       pol g n = Some True \<Longrightarrow> dist n = Some d \<Longrightarrow> n \<in> set out \<or> ef \<le> length out \<and> (\<forall>x\<in>set out. the (dist x) \<le> d)"
proof -
  note r = Layer_search_run [OF H s ef run]
  note o = layer_queue.search_result [OF layer_queueI [OF H] r(1), unfolded r(2,3), OF searchableD(1) [OF s],
      folded out_def dist_def search_space_def]
  show "distinct (map (node_key G) out)" "sorted_wrt (\<lambda>a b. the (dist a) \<le> the (dist b)) out" using o(1,4) by auto
  show "length out \<le> max ef (length E)" using o(2) r(5) by simp
  show "n \<in> search_space G g l (m_query L) E \<and> pol g n = Some True \<and> dist n \<noteq> None" if "n \<in> set out"
    using o(5) [OF that] by (simp add: search_space_def)
  assume n: "n \<in> search_space G g l (m_query L) E" and nb: "n \<in> set E \<or> (\<exists>m\<in>set out. \<exists>ns. g_neighbours G g m l = Some ns \<and> n \<in> set ns)"
    and p: "pol g n = Some True" "dist n = Some d"
  have "node_key G n \<in> m_visited L'" using nb r(4) o(7) by blast
  then show "n \<in> set out \<or> ef \<le> length out \<and> (\<forall>x\<in>set out. the (dist x) \<le> d)"
    using o(6) [of n d] n p by (simp add: search_space_def)
qed

text \<open>When the whole space is visible and \<open>ef\<close> covers it, every node of it is found.\<close>

lemma Layer_search_all:
  assumes H: "std_queue H is_heap" and s: "searchable G g l (m_query L) E" and ef: "0 < ef"
    and run: "Layer_search H G pol g E l ef L = Some (Some L')"
    and all: "card (search_space G g l (m_query L) E) \<le> ef"
      "\<And>n. n \<in> search_space G g l (m_query L) E \<Longrightarrow> pol g n = Some True \<and> query_distance G g (m_query L) n \<noteq> None"
  shows "set (consume_result H L') = search_space G g l (m_query L) E"
proof -
  let ?S = "search_space G g l (m_query L) E" and ?out = "consume_result H L'"
  note o = Layer_search_out [OF H s ef run]
  have sub: "set ?out \<subseteq> ?S" using o(4) by blast
  have len: "length ?out = card (set ?out)"
    using o(1) by (metis distinct_card distinct_map)
  have found: "n \<in> set ?out"
    if n: "n \<in> ?S" "n \<in> set E \<or> (\<exists>m\<in>set ?out. \<exists>ns. g_neighbours G g m l = Some ns \<and> n \<in> set ns)" for n
  proof (rule ccontr)
    assume "n \<notin> set ?out"
    then have "set ?out \<subset> ?S" using n(1) sub by blast
    then have "length ?out < card ?S" using len searchableD(3) [OF s] by (simp add: psubset_card_mono)
    moreover obtain d where "query_distance G g (m_query L) n = Some d" using all(2) [OF n(1)] by blast
    ultimately show False using o(5) [OF n, of d] all \<open>n \<notin> set ?out\<close> n(1) by simp
  qed
  have "n \<in> set ?out" if "reach G g l (query_keys G (m_query L)) E n" for n
    using that
  proof (induction rule: reach.induct)
    case (entry n)
    then show ?case by (intro found) (auto simp: search_space_def intro: reach.entry)
  next
    case (step n ns m)
    then show ?case by (intro found) (auto simp: search_space_def intro: reach.step)
  qed
  with sub show ?thesis by (auto simp: search_space_def)
qed

subsection \<open>A small graph\<close>

text \<open>
  Nodes are positions on a line and their own keys; \<open>adj\<close> gives the neighbour lists. Used to apply
  the properties to concrete searches.
\<close>

definition line_graph :: "(nat \<Rightarrow> nat list) \<Rightarrow> nat set \<Rightarrow> (unit, nat, nat, nat, nat) layer_graph" where
  "line_graph adj hidden = \<lparr>node_key = (\<lambda>n. n),
     g_node_distance = (\<lambda>g a b. Some (if a \<le> b then b - a else a - b)),
     g_data_distance = (\<lambda>g a b. Some (if a \<le> b then b - a else a - b)),
     g_neighbours = (\<lambda>g n l. Some (adj n)), g_visible = (\<lambda>g n. Some (n \<notin> hidden))\<rparr>"

definition path_adj :: "nat \<Rightarrow> nat list" where
  "path_adj n = (if n = 0 then [1] else if n < 4 then [n - 1, n + 1] else [3])"

lemmas line_graph_simps = line_graph_def query_distance_def query_keys_def

lemma line_graph_space:
  assumes "set E \<subseteq> S" "\<And>n. n \<in> S \<Longrightarrow> set (adj n) \<subseteq> S"
  shows "search_space (line_graph adj hidden) g l q E \<subseteq> S"
proof
  fix n assume "n \<in> search_space (line_graph adj hidden) g l q E"
  then have "reach (line_graph adj hidden) g l (query_keys (line_graph adj hidden) q) E n" by (simp add: search_space_def)
  then show "n \<in> S" by (induction rule: reach.induct) (use assms in \<open>auto simp: line_graph_def\<close>)
qed

lemma line_graph_searchable:
  assumes "set E \<subseteq> S" "\<And>n. n \<in> S \<Longrightarrow> set (adj n) \<subseteq> S" "finite S"
  shows "searchable (line_graph adj hidden) g l q E"
  using line_graph_space [of E S adj hidden g l q] assms
  by (auto simp: searchable_def line_graph_def intro: finite_subset inj_onI)

lemma path_searchable: "searchable (line_graph path_adj hidden) g l q [4]"
  by (rule line_graph_searchable [where S = "{0..4}"]) (auto simp: path_adj_def split: if_splits)

lemma path_space: "card (search_space (line_graph path_adj hidden) g l q [4]) \<le> 5"
proof -
  have "search_space (line_graph path_adj hidden) g l q [4] \<subseteq> {0..4}"
    by (rule line_graph_space) (auto simp: path_adj_def split: if_splits)
  from card_mono [OF _ this] show ?thesis by simp
qed

lemmas layer_search_simps = Layer_search_def seed_impl_def expand_def Layer_reset_def new_layer_def offer_def
  sorted_heap_def MinComparator_def MaxComparator_def cand_less_def search_loop.simps consume_all_def consume_result_def
  AlwaysVisiblePolicy_def GraphVisiblePolicy_def

text \<open>
  C9: A search ends: with finitely many reachable nodes and \<open>ef\<close> positive, \<^verbatim>\<open>search\<close> returns, and when no
  read of a reachable node fails it succeeds and leaves a result to be consumed.
\<close>

theorem layer_search_terminates:
  assumes "std_queue H is_heap" "searchable G g l (m_query L) E" "0 < ef"
  shows "(\<exists>r. Layer_search H G pol g E l ef L = Some r) \<and>
    (reads_ok G pol g l (m_query L) (\<lambda>n. n \<in> search_space G g l (m_query L) E) \<longrightarrow>
      (\<exists>L'. Layer_search H G pol g E l ef L = Some (Some L') \<and> m_state L' = State_Consume))"
proof -
  obtain r where r: "Layer_search H G pol g E l ef L = Some r"
    "reads_ok G pol g l (m_query L) (\<lambda>n. n \<in> search_space G g l (m_query L) E) \<longrightarrow> r \<noteq> None"
    using layer_queue.Layer_search_done [OF layer_queueI [OF assms(1)] searchableD(1) [OF assms(2)] assms(3) searchableD(2) [OF assms(2)], of pol]
    by (auto simp: search_space_def)
  then show ?thesis by (auto simp: Layer_search_def split: option.splits)
qed

lemma path_reads: "reads_ok (line_graph adj hidden) AlwaysVisiblePolicy g l q Q"
  "reads_ok (line_graph adj hidden) (GraphVisiblePolicy (line_graph adj hidden)) g l q Q"
  by (auto simp: reads_ok_def line_graph_def query_distance_def AlwaysVisiblePolicy_def GraphVisiblePolicy_def split: query.split)

theorem layer_search_terminates_witness:
  "\<exists>L'. Layer_search sorted_heap (line_graph path_adj {2}) (GraphVisiblePolicy (line_graph path_adj {2})) () [4] 0 2
      (new_layer (Query_data 0)) = Some (Some L') \<and> m_state L' = State_Consume"
  by (rule layer_search_terminates [OF sorted_heap.std_queue_axioms path_searchable, THEN conjunct2, rule_format, OF _ path_reads(2)]) simp

text \<open>
  C10: The result of a search, consumed: pairwise different visible nodes of the search space, nearest
  first, no more than the larger of \<open>ef\<close> and the number of entry points; and it is a local optimum:
  a visible entry point or neighbour of a returned node is itself returned, or \<open>ef\<close> nodes are and none
  of them is farther from the query.
\<close>

theorem layer_search_local_optimum:
  assumes "std_queue H is_heap" "searchable G g l (m_query L) E" "0 < ef"
    and "Layer_search H G pol g E l ef L = Some (Some L')" "consume_all H L' = (out, L'')"
  shows "distinct (map (node_key G) out) \<and> length out \<le> max ef (length E)
    \<and> sorted_wrt (\<lambda>a b. the (query_distance G g (m_query L) a) \<le> the (query_distance G g (m_query L) b)) out
    \<and> set out \<subseteq> {n \<in> search_space G g l (m_query L) E. pol g n = Some True \<and> query_distance G g (m_query L) n \<noteq> None}
    \<and> (\<forall>n d. n \<in> search_space G g l (m_query L) E \<longrightarrow>
      n \<in> set E \<or> (\<exists>m\<in>set out. \<exists>ns. g_neighbours G g m l = Some ns \<and> n \<in> set ns) \<longrightarrow>
      pol g n = Some True \<longrightarrow> query_distance G g (m_query L) n = Some d \<longrightarrow>
      n \<in> set out \<or> ef \<le> length out \<and> (\<forall>x\<in>set out. the (query_distance G g (m_query L) x) \<le> d))"
proof -
  have out: "out = consume_result H L'" using assms(5) by (simp add: consume_all_def)
  note o = Layer_search_out [OF assms(1-4), folded out]
  have "set out \<subseteq> {n \<in> search_space G g l (m_query L) E. pol g n = Some True \<and> query_distance G g (m_query L) n \<noteq> None}"
    using o(4) by blast
  with o(1-3) show ?thesis by (intro conjI allI impI) (assumption | rule o(5))+
qed

lemma path_run:
  defines "G \<equiv> line_graph path_adj {}"
  shows "\<exists>L'. Layer_search sorted_heap G AlwaysVisiblePolicy () [4] 0 2 (new_layer (Query_data 1)) = Some (Some L')
    \<and> fst (consume_all sorted_heap L') = [1, 2]"
  by (simp add: G_def layer_search_simps line_graph_def query_distance_def path_adj_def)

theorem layer_search_local_optimum_witness:
  defines "G \<equiv> line_graph path_adj {}"
  shows "\<exists>L' out. Layer_search sorted_heap G AlwaysVisiblePolicy () [4] 0 2 (new_layer (Query_data 1)) = Some (Some L')
    \<and> out = fst (consume_all sorted_heap L') \<and> out = [1, 2] \<and> length out \<le> max 2 1
    \<and> (0 \<in> set out \<or> 2 \<le> length out \<and> (\<forall>x\<in>set out. the (query_distance G () (Query_data 1) x) \<le> 1))"
proof -
  obtain L' where run: "Layer_search sorted_heap G AlwaysVisiblePolicy () [4] 0 2 (new_layer (Query_data 1)) = Some (Some L')"
    and out: "fst (consume_all sorted_heap L') = [1, 2]"
    using path_run unfolding G_def by blast
  have c: "consume_all sorted_heap L' = ([1, 2], snd (consume_all sorted_heap L'))" by (metis out prod.collapse)
  have nb: "g_neighbours G () 1 0 = Some [0, 2]" "g_neighbours G () 2 0 = Some [1, 3]"
    "g_neighbours G () 3 0 = Some [2, 4]" "g_neighbours G () 4 0 = Some [3]" "\<And>n. node_key G n = n"
    by (simp_all add: G_def line_graph_def path_adj_def)
  have re: "reach G () 0 {} [4] 0"
    by (rule reach.step [OF reach.step [OF reach.step [OF reach.step [OF reach.entry nb(4)] nb(3)] nb(2)] nb(1)]) auto
  have "0 \<in> search_space G () 0 (m_query (new_layer (Query_data 1))) [4]"
    using re by (simp add: search_space_def query_keys_def)
  moreover have "searchable G () 0 (m_query (new_layer (Query_data 1))) [4]" unfolding G_def by (rule path_searchable)
  note layer_search_local_optimum [OF sorted_heap.std_queue_axioms this _ run c]
  ultimately show ?thesis using run out nb
    by (auto simp: AlwaysVisiblePolicy_def query_distance_def G_def line_graph_def)
qed

text \<open>
  C11: When every node of the search space can be read and is visible and \<open>ef\<close> is at least their number, a search
  is exact: it returns all of them, nearest first, which is what comparing the query with every node would give.
\<close>

theorem layer_search_exact:
  assumes "std_queue H is_heap" "searchable G g l (m_query L) E" "0 < ef"
    and "card (search_space G g l (m_query L) E) \<le> ef"
    and "reads_ok G pol g l (m_query L) (\<lambda>n. n \<in> search_space G g l (m_query L) E)"
    and "\<And>n. n \<in> search_space G g l (m_query L) E \<Longrightarrow> pol g n = Some True"
  obtains L' where "Layer_search H G pol g E l ef L = Some (Some L')"
    "mset (fst (consume_all H L')) = mset_set (search_space G g l (m_query L) E)"
    "sorted_wrt (\<lambda>a b. the (query_distance G g (m_query L) a) \<le> the (query_distance G g (m_query L) b)) (fst (consume_all H L'))"
proof -
  obtain r where "Layer_search H G pol g E l ef L = Some r" "r \<noteq> None"
    using layer_queue.Layer_search_done [OF layer_queueI [OF assms(1)] searchableD(1) [OF assms(2)] assms(3) searchableD(2) [OF assms(2)], of pol] assms(5)
    by (auto simp: search_space_def)
  then obtain L' where run: "Layer_search H G pol g E l ef L = Some (Some L')" by blast
  note o = Layer_search_out [OF assms(1-3) run]
  have "set (consume_result H L') = search_space G g l (m_query L) E"
    by (rule Layer_search_all [OF assms(1-3) run assms(4)]) (use assms(5,6) in \<open>auto simp: reads_ok_def\<close>)
  moreover have "distinct (consume_result H L')" using o(1) by (simp add: distinct_map)
  ultimately have "mset (consume_result H L') = mset_set (search_space G g l (m_query L) E)"
    by (metis mset_set_set)
  with run o(3) show thesis by (intro that [of L']) (simp_all add: consume_all_def)
qed

theorem layer_search_exact_witness:
  "\<exists>L'. Layer_search sorted_heap (line_graph path_adj {}) AlwaysVisiblePolicy () [4] 0 5 (new_layer (Query_data 1)) = Some (Some L')
    \<and> mset (fst (consume_all sorted_heap L')) = mset_set (search_space (line_graph path_adj {}) () 0 (Query_data 1) [4])"
proof -
  show ?thesis
    by (rule layer_search_exact [where H = sorted_heap and is_heap = is_sorted_heap and G = "line_graph path_adj {}"
          and g = "()" and l = 0 and L = "new_layer (Query_data 1)" and E = "[4]" and ef = 5 and pol = AlwaysVisiblePolicy])
       (use sorted_heap.std_queue_axioms path_searchable path_space path_reads(1) in \<open>auto simp: AlwaysVisiblePolicy_def\<close>)
qed

definition detour_adj :: "nat \<Rightarrow> nat list" where
  "detour_adj n = (if n = 1 then [9] else if n = 9 then [3] else [])"


text \<open>What a seed leaves to be consumed.\<close>

lemma Layer_seed_results:
  assumes "std_queue H is_heap" "Layer_seed H G pol g E l L = Some L'" "inj_on (node_key G) (search_space G g l (m_query L) E)"
  shows "is_heap MaxComparator (m_results L')" "m_query L' = m_query L" "m_state L' = State_Consume"
    "\<forall>c\<in>set (m_results L'). query_distance G g (m_query L) (cand_node c) = Some (cand_distance c)"
    "cand_node ` set (m_results L') = {n \<in> set E. node_key G n \<notin> query_keys G (m_query L) \<and> pol g n = Some True}"
proof -
  obtain L1 where L1: "seed_impl H G pol g E ((Layer_reset L)\<lparr>m_level := l\<rparr>) = Some L1" and L': "L' = L1\<lparr>m_state := State_Consume\<rparr>"
    using assms(2) by (auto simp: Layer_seed_def split: option.splits)
  have inj: "keys_inj G (reach G g l (query_keys G (m_query L)) E)"
    using assms(3) by (simp add: keys_inj_def search_space_def)
  note sd = layer_queue.seed_impl_inv [OF layer_queueI [OF assms(1)] L1 inj]
  note iv = search_invD [OF sd(1) [where ef = 0]]
  show "is_heap MaxComparator (m_results L')" "m_query L' = m_query L" "m_state L' = State_Consume"
    using iv(2) sd(2) by (simp_all add: L')
  show "\<forall>c\<in>set (m_results L'). query_distance G g (m_query L) (cand_node c) = Some (cand_distance c)"
    using iv(4) sd(2) by (auto simp: L' seen_def)
  have E: "cand_node c \<in> set E" if "c \<in> set (m_results L1)" for c
  proof -
    have re: "reach G g l (query_keys G (m_query L)) E (cand_node c)" and v: "node_key G (cand_node c) \<in> m_visited L1"
      using iv(4) [OF that] sd(2,3) by (auto simp: seen_def)
    then obtain m where m: "m \<in> set E" "node_key G (cand_node c) = node_key G m"
      using sd(4) reach_key [OF re] by auto
    then have "reach G g l (query_keys G (m_query L)) E m" using reach_key [OF re] by (auto intro: reach.entry)
    then show ?thesis using inj re m by (auto simp: keys_inj_def inj_on_def)
  qed
  show "cand_node ` set (m_results L') = {n \<in> set E. node_key G n \<notin> query_keys G (m_query L) \<and> pol g n = Some True}"
  proof (intro equalityI subsetI)
    fix n assume "n \<in> cand_node ` set (m_results L')"
    then obtain c where c: "c \<in> set (m_results L1)" "n = cand_node c" by (auto simp: L')
    have "node_key G n \<notin> query_keys G (m_query L)"
      using iv(4) [OF c(1)] sd(2,3) reach_key [of G g l _ E n] c(2) by (auto simp: seen_def)
    with E [OF c(1)] iv(5) [OF c(1)] c(2)
    show "n \<in> {n \<in> set E. node_key G n \<notin> query_keys G (m_query L) \<and> pol g n = Some True}" by simp
  qed (use sd(6) in \<open>auto simp: L'\<close>)
qed

lemma heuristic_selection_facts:
  assumes H: "std_queue H is_heap" and s: "Layer_seed H G pol g E l L = Some L1" and inj: "inj_on (node_key G) (search_space G g l (m_query L) E)"
    and run: "consume_heuristic H G g M ExtendCandidates_No keep L1 = Some (out, pool, L2)"
  shows "length out \<le> M" "mset out \<subseteq># mset pool"
    and "set pool = {n \<in> set E. node_key G n \<notin> query_keys G (m_query L) \<and> pol g n = Some True}"
    and "pool \<noteq> [] \<Longrightarrow> 0 < M \<Longrightarrow> out \<noteq> [] \<and> (\<forall>n\<in>set pool. the (query_distance G g (m_query L) (hd out)) \<le> the (query_distance G g (m_query L) n))"
    and "keep = KeepPrunedConnections_No \<Longrightarrow> sorted_wrt (nearer_to_query G g (m_query L)) out
        \<and> sorted_wrt (\<lambda>a b. the (query_distance G g (m_query L) a) \<le> the (query_distance G g (m_query L) b)) out
        \<and> (length out = M \<or> (\<forall>n\<in>set pool. n \<in> set out \<or> dominated_by G g (m_query L) out n))"
    and "keep = KeepPrunedConnections_Yes \<Longrightarrow> length out = min M (length pool)"
proof -
  note sd = Layer_seed_results [OF H s inj]
  obtain R Wd C where r: "selection G g (m_query L) M C R Wd" "C = [] \<or> length R = M" "pool = consume_result H L1"
    "mset R + image_mset cand_node (mset Wd + mset C) = mset pool"
    "m_results L1 \<noteq> [] \<Longrightarrow> 0 < M \<Longrightarrow> R \<noteq> [] \<and> (\<forall>n\<in>set pool. the (query_distance G g (m_query L) (hd R)) \<le> the (query_distance G g (m_query L) n))"
    and out: "out = (if keep = KeepPrunedConnections_Yes then R @ take (M - length R) (map cand_node Wd) else R)"
    using layer_queue.consume_heuristic_props [OF layer_queueI [OF H] run sd(1)] sd(2,4) by (metis (no_types, lifting))
  obtain cs where cs: "consume_result H L1 = map cand_node cs" "mset cs = mset (m_results L1)"
    using layer_queue.consume_result_props [OF layer_queueI [OF H] sd(1)] by blast
  then show "set pool = {n \<in> set E. node_key G n \<notin> query_keys G (m_query L) \<and> pol g n = Some True}"
    using r(3) sd(5) by (metis list.set_map set_mset_mset)
  have ne: "pool \<noteq> [] \<Longrightarrow> m_results L1 \<noteq> []" using cs r(3) by auto
  have len: "length pool = length R + (length Wd + length C)"
    using r(4) [THEN arg_cong [where f = size]] by simp
  have M: "length R \<le> M" using r(1) by (simp add: selection_def)
  show "length out \<le> M" using M out by auto
  have "mset (take (M - length R) (map cand_node Wd)) \<subseteq># mset (map cand_node Wd)"
    by (metis append_take_drop_id mset_append mset_subset_eq_add_left)
  then have "mset R + mset (take (M - length R) (map cand_node Wd)) \<subseteq># mset R + image_mset cand_node (mset Wd + mset C)"
    by (simp add: subset_mset.add_increasing2)
  then show "mset out \<subseteq># mset pool" unfolding r(4) [symmetric] out by auto
  show "out \<noteq> [] \<and> (\<forall>n\<in>set pool. the (query_distance G g (m_query L) (hd out)) \<le> the (query_distance G g (m_query L) n))"
    if "pool \<noteq> []" "0 < M"
    using r(5) [OF ne [OF that(1)] that(2)] out by auto
  show "length out = min M (length pool)" if "keep = KeepPrunedConnections_Yes"
    using that out r(2) len M by auto
  assume keep: "keep = KeepPrunedConnections_No"
  have "n \<in> set out \<or> dominated_by G g (m_query L) out n" if "length out \<noteq> M" "n \<in> set pool" for n
  proof -
    have "C = []" using that(1) r(2) out keep by simp
    then have "set pool = set R \<union> cand_node ` set Wd"
      using r(4) [THEN arg_cong [where f = set_mset]] by simp
    then show ?thesis using that(2) r(1) out keep by (auto simp: selection_def)
  qed
  then show "sorted_wrt (nearer_to_query G g (m_query L)) out
        \<and> sorted_wrt (\<lambda>a b. the (query_distance G g (m_query L) a) \<le> the (query_distance G g (m_query L) b)) out
        \<and> (length out = M \<or> (\<forall>n\<in>set pool. n \<in> set out \<or> dominated_by G g (m_query L) out n))"
    using r(1) out keep by (auto simp: selection_def)
qed

text \<open>
  C12: Selecting neighbours with the heuristic, without extension: at most \<open>M\<close> nodes are selected from the
  pool and the selected nodes are nearest first. The first is the nearest of the pool. Without backfill each selected node
  is at least as near to the query as to every node selected before it; and every node of the pool that was
  not selected, unless \<open>M\<close> nodes were, is nearer to some selected node than to the query. With backfill as
  many nodes are selected as \<open>M\<close> and the pool allow.
\<close>

theorem heuristic_selection:
  assumes "std_queue H is_heap" "Layer_seed H G pol g E l L = Some L1" "inj_on (node_key G) (search_space G g l (m_query L) E)"
    and "consume_heuristic H G g M ExtendCandidates_No keep L1 = Some (out, pool, L2)"
  shows "length out \<le> M \<and> mset out \<subseteq># mset pool
    \<and> set pool = {n \<in> set E. node_key G n \<notin> query_keys G (m_query L) \<and> pol g n = Some True}
    \<and> (pool \<noteq> [] \<longrightarrow> 0 < M \<longrightarrow> out \<noteq> [] \<and> (\<forall>n\<in>set pool. the (query_distance G g (m_query L) (hd out)) \<le> the (query_distance G g (m_query L) n)))
    \<and> (keep = KeepPrunedConnections_No \<longrightarrow> sorted_wrt (nearer_to_query G g (m_query L)) out
        \<and> sorted_wrt (\<lambda>a b. the (query_distance G g (m_query L) a) \<le> the (query_distance G g (m_query L) b)) out
        \<and> (length out = M \<or> (\<forall>n\<in>set pool. n \<in> set out \<or> dominated_by G g (m_query L) out n)))
    \<and> (keep = KeepPrunedConnections_Yes \<longrightarrow> length out = min M (length pool))"
  using heuristic_selection_facts [OF assms] by (intro conjI) (assumption | iprover)+

theorem heuristic_selection_witness:
  defines "G \<equiv> line_graph (\<lambda>_. []) {}"
  shows "\<exists>L1 out pool L2. Layer_seed sorted_heap G AlwaysVisiblePolicy () [7, 8, 2] 0 (new_layer (Query_data 5)) = Some L1
    \<and> consume_heuristic sorted_heap G () 2 ExtendCandidates_No KeepPrunedConnections_No L1 = Some (out, pool, L2)
    \<and> length out \<le> 2 \<and> pool = [7, 2, 8] \<and> out = [7, 2] \<and> sorted_wrt (nearer_to_query G () (Query_data 5)) out"
proof -
  have inj: "inj_on (node_key G) S" for S by (simp add: G_def line_graph_def)
  define L1 where "L1 = the (Layer_seed sorted_heap G AlwaysVisiblePolicy () [7, 8, 2] 0 (new_layer (Query_data 5)))"
  have seed: "Layer_seed sorted_heap G AlwaysVisiblePolicy () [7, 8, 2] 0 (new_layer (Query_data 5)) = Some L1"
    by (simp add: L1_def G_def Layer_seed_def layer_search_simps line_graph_def query_distance_def)
  have "\<exists>L2. consume_heuristic sorted_heap G () 2 ExtendCandidates_No KeepPrunedConnections_No L1 = Some ([7, 2], [7, 2, 8], L2)"
    by (simp add: L1_def G_def Layer_seed_def consume_heuristic_def layer_search_simps line_graph_def query_distance_def numeral_eq_Suc)
  then obtain L2 where run: "consume_heuristic sorted_heap G () 2 ExtendCandidates_No KeepPrunedConnections_No L1 = Some ([7, 2], [7, 2, 8], L2)"
    by blast
  note h = heuristic_selection [OF sorted_heap.std_queue_axioms seed inj run]
  have "length [7, 2 :: nat] \<le> 2" "sorted_wrt (nearer_to_query G () (Query_data 5)) [7, 2]"
    using h unfolding new_layer_query by blast+
  with seed run show ?thesis by blast
qed

end
