(* ===== verification/Graph_Ops.thy ===== *)
theory Graph_Ops
  imports Layer_Search
begin

text \<open>
  The operations on a whole HNSW graph (\<^verbatim>\<open>src/index/hnsw/graph_ops.h\<close>,
  \<^verbatim>\<open>graph_ops_impl.h\<close>) and the lock guards they use (\<^verbatim>\<open>LockGraph\<close> and
  \<^verbatim>\<open>LockLevels\<close> of \<^verbatim>\<open>graph.h\<close>, \<^verbatim>\<open>graph.cc\<close>).

  The graph is again a record of the operations the template asks for, extending the one of the layer
  search. Taking a lock is a function on the state of the graph: it may return a state other threads
  have changed in the meantime, so that what is proved does not assume that nothing happened before
  the lock was taken. Levels are natural numbers, level 0 is the bottom.

  The guards are local objects of the C++ functions. The model keeps them in a frame beside the graph,
  and the combinators \<open>with_graph_lock\<close> and \<open>with_levels\<close> run their destructors on every way out.
\<close>

subsection \<open>The graph\<close>

datatype lock_mode = Shared | Exclusive

text \<open>
  An operation of the graph: no result when it does not end, otherwise the new state and \<open>None\<close> for
  an error.
\<close>

type_synonym ('g, 'a) gact = "'g \<Rightarrow> ('g \<times> 'a option) option"

record ('g, 'n, 'k, 'v, 'd) graph = "('g, 'n, 'k, 'v, 'd) layer_graph" +
  g_lock_graph :: "lock_mode \<Rightarrow> 'g \<Rightarrow> 'g"
  g_unlock_graph :: "lock_mode \<Rightarrow> 'g \<Rightarrow> 'g"
  g_lock_level :: "nat \<Rightarrow> lock_mode \<Rightarrow> 'g \<Rightarrow> 'g"
  g_unlock_level :: "nat \<Rightarrow> lock_mode \<Rightarrow> 'g \<Rightarrow> 'g"
  g_get_entry_point :: "nat \<Rightarrow> ('g, 'n list \<times> nat) gact"
  g_set_entry_point :: "'n list \<Rightarrow> nat \<Rightarrow> ('g, unit) gact"
  g_get_insert_level :: "('g, nat) gact"
  g_ensure_levels :: "nat \<Rightarrow> ('g, unit) gact"
  g_M :: "'g \<Rightarrow> nat"
  g_ef_construction :: "'g \<Rightarrow> nat"
  g_Mmax :: "'g \<Rightarrow> nat \<Rightarrow> nat"
  g_create_node :: "'n option \<Rightarrow> nat \<Rightarrow> 'v \<Rightarrow> 'n list \<Rightarrow> ('g, 'n) gact"
  g_drop_node :: "'n option \<Rightarrow> nat \<Rightarrow> 'n \<Rightarrow> ('g, unit) gact"
  g_mark_delete :: "'n \<Rightarrow> nat \<Rightarrow> bool \<Rightarrow> ('g, unit) gact"
  g_get_next_level_node :: "'n \<Rightarrow> nat \<Rightarrow> ('g, 'n) gact"
  g_link_neighbours :: "'n \<Rightarrow> nat \<Rightarrow> ('g, 'n list) gact"
  g_replace_neighbours :: "'n \<Rightarrow> nat \<Rightarrow> 'n list \<Rightarrow> ('g, 'n list) gact"
  g_unlink_neighbours :: "'n \<Rightarrow> nat \<Rightarrow> ('g, 'n list) gact"
  g_incoming_neighbours :: "'n \<Rightarrow> nat \<Rightarrow> ('g, 'n list) gact"

subsection \<open>Lock guards\<close>

datatype descend_policy = Policy_Keep | Policy_Release

text \<open>\<^verbatim>\<open>LockLevels\<close>: the top of the stack is the current level.\<close>

record lock_levels =
  ll_mode :: lock_mode
  ll_policy :: descend_policy
  ll_stack :: "nat list"

text \<open>
  The graph and the guards of the running function: the mode of its \<^verbatim>\<open>LockGraph\<close> and its
  \<^verbatim>\<open>LockLevels\<close> when there is one.
\<close>

record 'g frame =
  fr_graph :: 'g
  fr_lock :: lock_mode
  fr_levels :: "lock_levels option"

type_synonym ('g, 'a) gop = "('g frame, 'a) gact"

definition gret :: "'a \<Rightarrow> ('s, 'a) gact" where
  "gret x s = Some (s, Some x)"

definition gfail :: "('s, 'a) gact" where
  "gfail s = Some (s, None)"

definition gbind :: "('s, 'a) gact \<Rightarrow> ('a \<Rightarrow> ('s, 'b) gact) \<Rightarrow> ('s, 'b) gact" where
  "gbind m k s = (case m s of None \<Rightarrow> None | Some (s', None) \<Rightarrow> Some (s', None) | Some (s', Some x) \<Rightarrow> k x s')"

text \<open>An operation of the graph, and a value read from it, in a function with guards.\<close>

definition on_graph :: "('g, 'a) gact \<Rightarrow> ('g, 'a) gop" where
  "on_graph m f = (case m (fr_graph f) of None \<Rightarrow> None | Some (g', r) \<Rightarrow> Some (f\<lparr>fr_graph := g'\<rparr>, r))"

definition read_graph :: "('g \<Rightarrow> 'a) \<Rightarrow> ('g, 'a) gop" where
  "read_graph h f = Some (f, Some (h (fr_graph f)))"

text \<open>A step of a layer operation: it reads the graph and can fail or not end.\<close>

definition layer_step :: "('g \<Rightarrow> 'a option option) \<Rightarrow> ('g, 'a) gop" where
  "layer_step h f = (case h (fr_graph f) of None \<Rightarrow> None | Some r \<Rightarrow> Some (f, r))"

definition LockGraph_relock ::
    "('g, 'n, 'k, 'v, 'd, 'z) graph_scheme \<Rightarrow> lock_mode \<Rightarrow> ('g, unit) gop" where
  "LockGraph_relock G mode f =
     (if fr_lock f = mode then Some (f, Some ())
      else Some (f\<lparr>fr_graph := g_lock_graph G mode (g_unlock_graph G (fr_lock f) (fr_graph f)), fr_lock := mode\<rparr>, Some ()))"

definition LockGraph_upgrade :: "('g, 'n, 'k, 'v, 'd, 'z) graph_scheme \<Rightarrow> ('g, unit) gop" where
  "LockGraph_upgrade G = LockGraph_relock G Exclusive"

definition LockGraph_downgrade :: "('g, 'n, 'k, 'v, 'd, 'z) graph_scheme \<Rightarrow> ('g, unit) gop" where
  "LockGraph_downgrade G = LockGraph_relock G Shared"

text \<open>Constructor and destructor of \<^verbatim>\<open>LockGraph\<close> around the body of a function.\<close>

definition with_graph_lock ::
    "('g, 'n, 'k, 'v, 'd, 'z) graph_scheme \<Rightarrow> lock_mode \<Rightarrow> ('g, 'a) gop \<Rightarrow> ('g, 'a) gact" where
  "with_graph_lock G mode body g =
     (case body \<lparr>fr_graph = g_lock_graph G mode g, fr_lock = mode, fr_levels = None\<rparr> of
        None \<Rightarrow> None
      | Some (f, r) \<Rightarrow> Some (g_unlock_graph G (fr_lock f) (fr_graph f), r))"

definition LockLevels_init ::
    "('g, 'n, 'k, 'v, 'd, 'z) graph_scheme \<Rightarrow> lock_mode \<Rightarrow> nat \<Rightarrow> descend_policy \<Rightarrow> 'g frame \<Rightarrow> 'g frame" where
  "LockLevels_init G mode start policy f =
     f\<lparr>fr_graph := g_lock_level G start mode (fr_graph f),
       fr_levels := Some \<lparr>ll_mode = mode, ll_policy = policy, ll_stack = [start]\<rparr>\<rparr>"

definition LockLevels_destroy ::
    "('g, 'n, 'k, 'v, 'd, 'z) graph_scheme \<Rightarrow> 'g frame \<Rightarrow> 'g frame" where
  "LockLevels_destroy G f =
     (case fr_levels f of None \<Rightarrow> f
      | Some ll \<Rightarrow> f\<lparr>fr_graph := fold (\<lambda>l. g_unlock_level G l (ll_mode ll)) (ll_stack ll) (fr_graph f), fr_levels := None\<rparr>)"

definition LockLevels_level :: "lock_levels \<Rightarrow> nat" where
  "LockLevels_level ll = hd (ll_stack ll)"

text \<open>The lower level is locked before the upper one is released.\<close>

definition LockLevels_descend :: "('g, 'n, 'k, 'v, 'd, 'z) graph_scheme \<Rightarrow> ('g, nat) gop" where
  "LockLevels_descend G f =
     (case fr_levels f of None \<Rightarrow> Some (f, None)
      | Some ll \<Rightarrow>
          (let upper_level = LockLevels_level ll in
           if upper_level = 0 then Some (f, Some upper_level)
           else
             let lower_level = upper_level - 1;
                 g1 = g_lock_level G lower_level (ll_mode ll) (fr_graph f);
                 (g2, stack) = (if ll_policy ll = Policy_Release
                    then (g_unlock_level G upper_level (ll_mode ll) g1, tl (ll_stack ll)) else (g1, ll_stack ll)) in
             Some (f\<lparr>fr_graph := g2, fr_levels := Some (ll\<lparr>ll_stack := lower_level # stack\<rparr>)\<rparr>, Some lower_level)))"

definition LockLevels_update_policy :: "descend_policy \<Rightarrow> ('g, unit) gop" where
  "LockLevels_update_policy policy f = Some (f\<lparr>fr_levels := map_option (\<lambda>ll. ll\<lparr>ll_policy := policy\<rparr>) (fr_levels f)\<rparr>, Some ())"

definition with_levels ::
    "('g, 'n, 'k, 'v, 'd, 'z) graph_scheme \<Rightarrow> lock_mode \<Rightarrow> nat \<Rightarrow> descend_policy \<Rightarrow> ('g, 'a) gop \<Rightarrow> ('g, 'a) gop" where
  "with_levels G mode start policy body f =
     (case body (LockLevels_init G mode start policy f) of
        None \<Rightarrow> None
      | Some (f', r) \<Rightarrow> Some (LockLevels_destroy G f', r))"

subsection \<open>Operations\<close>

definition GREEDY_DESCENT_EF :: nat where "GREEDY_DESCENT_EF = 1"
definition SHOULD_EXTEND_CANDIDATES :: extend_candidates where "SHOULD_EXTEND_CANDIDATES = ExtendCandidates_No"
definition SHOULD_KEEP_PRUNED_CONNECTIONS :: keep_pruned_connections where
  "SHOULD_KEEP_PRUNED_CONNECTIONS = KeepPrunedConnections_No"

fun advance_to_next_level ::
    "('g, 'n, 'k, 'v, 'd, 'z) graph_scheme \<Rightarrow> nat \<Rightarrow> 'n list \<Rightarrow> ('g, 'n list) gop" where
  "advance_to_next_level G level [] = gret []"
| "advance_to_next_level G level (n # ns) =
     gbind (on_graph (g_get_next_level_node G n level)) (\<lambda>next.
     gbind (advance_to_next_level G level ns) (\<lambda>ns'. gret (next # ns')))"

definition GraphOps_consume_heuristic ::
    "('n, 'd :: linorder) candidate std_heap \<Rightarrow> ('g, 'n, 'k, 'v, 'd, 'z) graph_scheme \<Rightarrow> ('g \<Rightarrow> nat) \<Rightarrow>
     ('n, 'k, 'v, 'd) layer_ops \<Rightarrow> ('g, 'n list \<times> 'n list \<times> ('n, 'k, 'v, 'd) layer_ops) gop" where
  "GraphOps_consume_heuristic H G M layer =
     layer_step (\<lambda>g. Some (consume_heuristic H G g (M g) SHOULD_EXTEND_CANDIDATES SHOULD_KEEP_PRUNED_CONNECTIONS layer))"

definition GraphOps_layer_search ::
    "('n, 'd :: linorder) candidate std_heap \<Rightarrow> ('g, 'n, 'k, 'v, 'd, 'z) graph_scheme \<Rightarrow> ('g, 'n) visibility_policy \<Rightarrow>
     'n list \<Rightarrow> nat \<Rightarrow> ('g \<Rightarrow> nat) \<Rightarrow> ('n, 'k, 'v, 'd) layer_ops \<Rightarrow> ('g, ('n, 'k, 'v, 'd) layer_ops) gop" where
  "GraphOps_layer_search H G pol candidates level ef layer =
     layer_step (\<lambda>g. Layer_search H G pol g candidates level (ef g) layer)"

text \<open>
  The greedy descent of \<^verbatim>\<open>insert\<close> to its level, and of \<^verbatim>\<open>search_knn\<close> to level 0. The
  level that \<^verbatim>\<open>descend\<close> returns is the one below.
\<close>

fun greedy_descend ::
    "('n, 'd :: linorder) candidate std_heap \<Rightarrow> ('g, 'n, 'k, 'v, 'd, 'z) graph_scheme \<Rightarrow> ('n, 'k, 'v, 'd) layer_ops \<Rightarrow>
     'n list \<Rightarrow> nat \<Rightarrow> nat \<Rightarrow> ('g, ('n, 'k, 'v, 'd) layer_ops \<times> 'n list) gop" where
  "greedy_descend H G layer candidates level insert_level =
     (if level > insert_level then
        gbind (GraphOps_layer_search H G AlwaysVisiblePolicy candidates level (\<lambda>_. GREEDY_DESCENT_EF) layer) (\<lambda>layer1.
        case consume_all H layer1 of (candidates1, layer2) \<Rightarrow>
        gbind (advance_to_next_level G level candidates1) (\<lambda>candidates2.
        gbind (LockLevels_descend G) (\<lambda>_.
        greedy_descend H G layer2 candidates2 (level - 1) insert_level)))
      else gret (layer, candidates))"

declare greedy_descend.simps [simp del]

text \<open>Reselecting the neighbours of the nodes that had no room for a link back.\<close>

fun shrink_neighbours ::
    "('n, 'd :: linorder) candidate std_heap \<Rightarrow> ('g, 'n, 'k, 'v, 'd, 'z) graph_scheme \<Rightarrow> ('n, 'k, 'v, 'd) layer_ops \<Rightarrow>
     'n \<Rightarrow> nat \<Rightarrow> 'n list \<Rightarrow> ('g, ('n, 'k, 'v, 'd) layer_ops) gop" where
  "shrink_neighbours H G layer linked_node level [] = gret layer"
| "shrink_neighbours H G layer linked_node level (neighbour # overflowed) =
     gbind (layer_step (\<lambda>g. Some (g_neighbours G g neighbour level))) (\<lambda>connections.
     gbind (layer_step (\<lambda>g. Some (Layer_seed H G AlwaysVisiblePolicy g (connections @ [linked_node]) level
              (Layer_reset_query (Query_node neighbour) layer)))) (\<lambda>layer1.
     gbind (GraphOps_consume_heuristic H G (\<lambda>g. g_Mmax G g level) layer1) (\<lambda>(shrunk, _, layer2).
     gbind (on_graph (g_replace_neighbours G neighbour level shrunk)) (\<lambda>_.
     shrink_neighbours H G layer2 linked_node level overflowed))))"

text \<open>
  The loop of \<^verbatim>\<open>insert\<close> from the insertion level down to level 0: \<open>inserted\<close> is the stack of created
  nodes, \<open>first\<close> the first of them, once there is one.
\<close>

fun insert_levels ::
    "('n, 'd :: linorder) candidate std_heap \<Rightarrow> ('g, 'n, 'k, 'v, 'd, 'z) graph_scheme \<Rightarrow> 'v \<Rightarrow> nat \<Rightarrow>
     nat \<Rightarrow> 'n option \<Rightarrow> 'n option \<Rightarrow> ('n \<times> nat) list \<Rightarrow> ('n, 'k, 'v, 'd) layer_ops \<Rightarrow> 'n list \<Rightarrow>
     ('g, 'n \<times> ('n \<times> nat) list \<times> ('n, 'k, 'v, 'd) layer_ops) gop" where
  "insert_levels H G data entry_level level parent first inserted layer candidates =
     gbind (if level > entry_level then gret ([], candidates, layer)
        else gbind (GraphOps_layer_search H G AlwaysVisiblePolicy candidates level (g_ef_construction G) layer) (\<lambda>layer1.
             GraphOps_consume_heuristic H G (g_M G) layer1)) (\<lambda>(neighbours, candidates1, layer2).
     gbind (on_graph (g_create_node G parent level data neighbours)) (\<lambda>node.
     let top_node = (case first of None \<Rightarrow> node | Some t \<Rightarrow> t); inserted' = (node, level) # inserted in
     if level > 0 then
       gbind (if level \<le> entry_level then advance_to_next_level G level candidates1 else gret candidates1) (\<lambda>candidates2.
       gbind (LockLevels_descend G) (\<lambda>_.
       insert_levels H G data entry_level (level - 1) (Some node) (Some top_node) inserted' layer2 candidates2))
     else gret (top_node, inserted', layer2)))"

declare insert_levels.simps [simp del]

text \<open>The reciprocal links, bottom-up.\<close>

fun link_inserted ::
    "('n, 'd :: linorder) candidate std_heap \<Rightarrow> ('g, 'n, 'k, 'v, 'd, 'z) graph_scheme \<Rightarrow> ('n, 'k, 'v, 'd) layer_ops \<Rightarrow>
     ('n \<times> nat) list \<Rightarrow> ('g, ('n, 'k, 'v, 'd) layer_ops) gop" where
  "link_inserted H G layer [] = gret layer"
| "link_inserted H G layer ((node, node_level) # inserted) =
     gbind (on_graph (g_link_neighbours G node node_level)) (\<lambda>overflowed.
     gbind (shrink_neighbours H G layer node node_level overflowed) (\<lambda>layer1.
     link_inserted H G layer1 inserted))"

text \<open>Entry point and levels at the start of \<^verbatim>\<open>insert\<close>, under the lock they need.\<close>

definition insert_start ::
    "('g, 'n, 'k, 'v, 'd, 'z) graph_scheme \<Rightarrow> ('g, 'n list \<times> nat \<times> nat \<times> bool) gop" where
  "insert_start G =
     gbind (on_graph (g_get_entry_point G 0)) (\<lambda>(candidates, entry_level).
     gbind (on_graph (g_get_insert_level G)) (\<lambda>insert_level.
     if candidates = [] \<or> insert_level > entry_level then
       gbind (LockGraph_upgrade G) (\<lambda>_.
       gbind (on_graph (g_get_entry_point G entry_level)) (\<lambda>(candidates1, entry_level1).
       gret (candidates1, entry_level1, insert_level, candidates1 = [] \<or> insert_level > entry_level1)))
     else gret (candidates, entry_level, insert_level, False)))"

text \<open>The part of \<^verbatim>\<open>insert\<close> that runs under the locks of the levels.\<close>

definition insert_locked ::
    "('n, 'd :: linorder) candidate std_heap \<Rightarrow> ('g, 'n, 'k, 'v, 'd, 'z) graph_scheme \<Rightarrow> 'v \<Rightarrow> 'n list \<Rightarrow> nat \<Rightarrow> nat \<Rightarrow> bool \<Rightarrow>
     ('g, 'n) gop" where
  "insert_locked H G new_node_data candidates entry_level insert_level new_entry_point =
     gbind (greedy_descend H G (new_layer (Query_data new_node_data)) candidates (max entry_level insert_level) insert_level) (\<lambda>(layer, candidates1).
     gbind (LockLevels_update_policy Policy_Keep) (\<lambda>_.
     gbind (insert_levels H G new_node_data entry_level insert_level None None [] layer candidates1) (\<lambda>(top_node, inserted, layer1).
     gbind (link_inserted H G layer1 inserted) (\<lambda>_.
     gbind (if new_entry_point then on_graph (g_set_entry_point G [top_node] insert_level) else gret ()) (\<lambda>_.
     gret top_node)))))"

definition GraphOps_insert ::
    "('n, 'd :: linorder) candidate std_heap \<Rightarrow> ('g, 'n, 'k, 'v, 'd, 'z) graph_scheme \<Rightarrow> 'v \<Rightarrow> ('g, 'n) gact" where
  "GraphOps_insert H G new_node_data =
     with_graph_lock G Shared (
       gbind (insert_start G) (\<lambda>(candidates, entry_level, insert_level, new_entry_point).
       gbind (on_graph (g_ensure_levels G (max entry_level insert_level))) (\<lambda>_.
       with_levels G Shared (max entry_level insert_level) Policy_Release
         (insert_locked H G new_node_data candidates entry_level insert_level new_entry_point))))"

fun mark_delete_levels ::
    "('g, 'n, 'k, 'v, 'd, 'z) graph_scheme \<Rightarrow> bool \<Rightarrow> 'n \<Rightarrow> nat \<Rightarrow> ('g, unit) gop" where
  "mark_delete_levels G delete_mark current level =
     gbind (on_graph (g_mark_delete G current level delete_mark)) (\<lambda>_.
     if level = 0 then gret ()
     else
       gbind (on_graph (g_get_next_level_node G current level)) (\<lambda>next.
       gbind (LockLevels_descend G) (\<lambda>_.
       mark_delete_levels G delete_mark next (level - 1))))"

declare mark_delete_levels.simps [simp del]

definition GraphOps_mark_delete ::
    "('g, 'n, 'k, 'v, 'd, 'z) graph_scheme \<Rightarrow> 'n \<Rightarrow> nat \<Rightarrow> bool \<Rightarrow> ('g, unit) gact" where
  "GraphOps_mark_delete G target_node target_level delete_mark =
     with_graph_lock G Shared (with_levels G Shared target_level Policy_Release
       (mark_delete_levels G delete_mark target_node target_level))"

text \<open>Reconnecting the orphans of a removed node at one level.\<close>

fun repair_orphans ::
    "('n, 'd :: linorder) candidate std_heap \<Rightarrow> ('g, 'n, 'k, 'v, 'd, 'z) graph_scheme \<Rightarrow> nat \<Rightarrow> ('n, 'k, 'v, 'd) layer_ops \<Rightarrow>
     'n list \<Rightarrow> 'n list \<Rightarrow> ('g, 'n list \<times> ('n, 'k, 'v, 'd) layer_ops) gop" where
  "repair_orphans H G level layer unlinked [] = gret (unlinked, layer)"
| "repair_orphans H G level layer unlinked (orphan # orphaned) =
     (if unlinked = [] then repair_orphans H G level layer [orphan] orphaned
      else
        gbind (GraphOps_layer_search H G AlwaysVisiblePolicy unlinked level (g_ef_construction G)
                 (Layer_reset_query (Query_node orphan) layer)) (\<lambda>layer1.
        gbind (GraphOps_consume_heuristic H G (g_M G) layer1) (\<lambda>(new_neighbours, _, layer2).
        gbind (on_graph (g_replace_neighbours G orphan level new_neighbours)) (\<lambda>overflowed.
        gbind (shrink_neighbours H G layer2 orphan level overflowed) (\<lambda>layer3.
        repair_orphans H G level layer3 (unlinked @ [orphan]) orphaned)))))"

text \<open>
  Phase 1 of \<^verbatim>\<open>remove\<close>: the edges of the node are severed level by level. The result is the
  replacement for the entry point, if a neighbour survives, and the stack of nodes to drop.
\<close>

fun sever_levels ::
    "('n, 'd :: linorder) candidate std_heap \<Rightarrow> ('g, 'n, 'k, 'v, 'd, 'z) graph_scheme \<Rightarrow> ('n, 'k, 'v, 'd) layer_ops \<Rightarrow>
     'n \<Rightarrow> nat \<Rightarrow> ('n \<times> nat) option \<Rightarrow> ('n \<times> nat) list \<Rightarrow> ('g, ('n \<times> nat) option \<times> ('n \<times> nat) list) gop" where
  "sever_levels H G layer current level replacement nodes =
     gbind (on_graph (g_unlink_neighbours G current level)) (\<lambda>unlinked.
     gbind (on_graph (g_incoming_neighbours G current level)) (\<lambda>orphaned.
     gbind (repair_orphans H G level layer unlinked orphaned) (\<lambda>(unlinked1, layer1).
     let replacement' = (if replacement = None \<and> unlinked1 \<noteq> [] then Some (hd unlinked1, level) else replacement);
         nodes' = (current, level) # nodes in
     if level = 0 then gret (replacement', nodes')
     else
       gbind (on_graph (g_get_next_level_node G current level)) (\<lambda>next.
       gbind (LockLevels_descend G) (\<lambda>_.
       sever_levels H G layer1 next (level - 1) replacement' nodes')))))"

declare sever_levels.simps [simp del]

text \<open>Phase 2: all levels are locked, then the nodes are dropped bottom-up.\<close>

primrec descend_to_bottom :: "('g, 'n, 'k, 'v, 'd, 'z) graph_scheme \<Rightarrow> nat \<Rightarrow> ('g, unit) gop" where
  "descend_to_bottom G 0 = gret ()"
| "descend_to_bottom G (Suc level) = gbind (LockLevels_descend G) (\<lambda>_. descend_to_bottom G level)"

fun drop_nodes :: "('g, 'n, 'k, 'v, 'd, 'z) graph_scheme \<Rightarrow> ('n \<times> nat) list \<Rightarrow> ('g, unit) gop" where
  "drop_nodes G [] = gret ()"
| "drop_nodes G ((current, current_level) # nodes) =
     gbind (on_graph (g_drop_node G (case nodes of [] \<Rightarrow> None | (parent, _) # _ \<Rightarrow> Some parent) current_level current)) (\<lambda>_.
     drop_nodes G nodes)"

definition is_sole_entry_point ::
    "('g, 'n, 'k, 'v, 'd, 'z) graph_scheme \<Rightarrow> 'n \<Rightarrow> nat \<Rightarrow> 'n list \<Rightarrow> nat \<Rightarrow> bool" where
  "is_sole_entry_point G target_node target_level entry_points entry_level \<longleftrightarrow>
     target_level = entry_level \<and> length entry_points = 1 \<and> node_key G (hd entry_points) = node_key G target_node"

definition remove_start ::
    "('g, 'n, 'k, 'v, 'd, 'z) graph_scheme \<Rightarrow> 'n \<Rightarrow> nat \<Rightarrow> ('g, bool) gop" where
  "remove_start G target_node target_level =
     gbind (on_graph (g_get_entry_point G 0)) (\<lambda>(entry_points, entry_level).
     if is_sole_entry_point G target_node target_level entry_points entry_level then
       gbind (LockGraph_upgrade G) (\<lambda>_.
       gbind (on_graph (g_get_entry_point G entry_level)) (\<lambda>(entry_points1, entry_level1).
       gret (is_sole_entry_point G target_node target_level entry_points1 entry_level1)))
     else gret False)"

definition remove_drop ::
    "('g, 'n, 'k, 'v, 'd, 'z) graph_scheme \<Rightarrow> nat \<Rightarrow> bool \<Rightarrow> ('n \<times> nat) option \<Rightarrow> ('n \<times> nat) list \<Rightarrow> ('g, unit) gop" where
  "remove_drop G target_level new_entry_point replacement nodes =
     gbind (descend_to_bottom G target_level) (\<lambda>_.
     gbind (drop_nodes G nodes) (\<lambda>_.
     if new_entry_point then
       case replacement of
         Some (node, level) \<Rightarrow> on_graph (g_set_entry_point G [node] level)
       | None \<Rightarrow> on_graph (g_set_entry_point G [] 0)
     else gret ()))"

definition GraphOps_remove ::
    "('n, 'd :: linorder) candidate std_heap \<Rightarrow> ('g, 'n, 'k, 'v, 'd, 'z) graph_scheme \<Rightarrow> 'n \<Rightarrow> nat \<Rightarrow> ('g, unit) gact" where
  "GraphOps_remove H G target_node target_level =
     with_graph_lock G Shared (
       gbind (remove_start G target_node target_level) (\<lambda>new_entry_point.
       gbind (with_levels G Exclusive target_level Policy_Release
         (sever_levels H G (new_layer (Query_node target_node)) target_node target_level None [])) (\<lambda>(replacement, nodes).
       with_levels G Shared target_level Policy_Keep (remove_drop G target_level new_entry_point replacement nodes))))"

definition GraphOps_search_knn ::
    "('n, 'd :: linorder) candidate std_heap \<Rightarrow> ('g, 'n, 'k, 'v, 'd, 'z) graph_scheme \<Rightarrow> 'v \<Rightarrow> nat \<Rightarrow> nat \<Rightarrow> ('g, 'n list) gact" where
  "GraphOps_search_knn H G query_node_data k ef_search =
     with_graph_lock G Shared (
       gbind (on_graph (g_get_entry_point G 0)) (\<lambda>(candidates, entry_level).
       if candidates = [] then gret []
       else
         with_levels G Shared entry_level Policy_Release (
           gbind (greedy_descend H G (new_layer (Query_data query_node_data)) candidates entry_level 0) (\<lambda>(_, candidates1).
           gbind (GraphOps_layer_search H G (GraphVisiblePolicy G) candidates1 0 (\<lambda>_. ef_search) (new_layer (Query_data query_node_data))) (\<lambda>bottom_layer.
           gret (fst (consume_simple H k bottom_layer)))))))"

end
