(* ===== verification/Graph_Locking.thy ===== *)
theory Graph_Locking
  imports Graph_Ops
begin

text \<open>
  The lock discipline of the graph operations, as the lock hierarchy of
  \<^verbatim>\<open>src/index/hnsw/graph.h\<close> states it. A monitor runs beside the graph: it knows which locks
  are held, and when a lock is taken out of order, given back without being held, or an operation of
  the graph is called without the lock it needs, it stops for good; a list of neighbours is only handed
  out under the lock of its level. The theorem at the end says that every operation of
  \<open>Graph_Ops\<close> runs on the monitored graph exactly as it does on the graph itself, and that the
  monitor ends with no lock held: on every path, errors included.
\<close>

subsection \<open>The monitor\<close>

type_synonym held = "lock_mode option \<times> (nat \<times> lock_mode) list"

definition no_locks :: held where "no_locks = (None, [])"

definition acquire_graph :: "lock_mode \<Rightarrow> held \<Rightarrow> held option" where
  "acquire_graph m h = (if h = no_locks then Some (Some m, []) else None)"

definition release_graph :: "lock_mode \<Rightarrow> held \<Rightarrow> held option" where
  "release_graph m h = (if h = (Some m, []) then Some no_locks else None)"

text \<open>Levels are locked under the lock of the graph, from the top down.\<close>

definition acquire_level :: "nat \<Rightarrow> lock_mode \<Rightarrow> held \<Rightarrow> held option" where
  "acquire_level l m h = (if fst h \<noteq> None \<and> (\<forall>k\<in>fst ` set (snd h). l < k) then Some (fst h, (l, m) # snd h) else None)"

definition release_level :: "nat \<Rightarrow> lock_mode \<Rightarrow> held \<Rightarrow> held option" where
  "release_level l m h = (if (l, m) \<in> set (snd h) then Some (fst h, remove1 (l, m) (snd h)) else None)"

definition holds_graph :: "held \<Rightarrow> bool" where "holds_graph h \<longleftrightarrow> fst h \<noteq> None"
definition holds_level :: "nat \<Rightarrow> held \<Rightarrow> bool" where "holds_level l h \<longleftrightarrow> l \<in> fst ` set (snd h)"

definition checked :: "(held \<Rightarrow> bool) \<Rightarrow> ('g, 'a) gact \<Rightarrow> ('g \<times> held option, 'a) gact" where
  "checked ok act s = (case act (fst s) of None \<Rightarrow> None
     | Some (g', r) \<Rightarrow> Some ((g', case snd s of Some h \<Rightarrow> if ok h then Some h else None | None \<Rightarrow> None), r))"

definition monitored :: "('g, 'n, 'k, 'v, 'd, 'z) graph_scheme \<Rightarrow> ('g \<times> held option, 'n, 'k, 'v, 'd) graph" where
  "monitored G = \<lparr>node_key = node_key G,
     g_node_distance = (\<lambda>s. g_node_distance G (fst s)),
     g_data_distance = (\<lambda>s. g_data_distance G (fst s)),
     g_neighbours = (\<lambda>s n l. case snd s of Some h \<Rightarrow> if holds_level l h then g_neighbours G (fst s) n l else None | None \<Rightarrow> None),
     g_visible = (\<lambda>s. g_visible G (fst s)),
     g_lock_graph = (\<lambda>m s. (g_lock_graph G m (fst s), Option.bind (snd s) (acquire_graph m))),
     g_unlock_graph = (\<lambda>m s. (g_unlock_graph G m (fst s), Option.bind (snd s) (release_graph m))),
     g_lock_level = (\<lambda>l m s. (g_lock_level G l m (fst s), Option.bind (snd s) (acquire_level l m))),
     g_unlock_level = (\<lambda>l m s. (g_unlock_level G l m (fst s), Option.bind (snd s) (release_level l m))),
     g_get_entry_point = (\<lambda>l. checked holds_graph (g_get_entry_point G l)),
     g_set_entry_point = (\<lambda>ns l. checked (\<lambda>h. fst h = Some Exclusive) (g_set_entry_point G ns l)),
     g_get_insert_level = checked (\<lambda>h. True) (g_get_insert_level G),
     g_ensure_levels = (\<lambda>l. checked (\<lambda>h. holds_graph h \<and> snd h = []) (g_ensure_levels G l)),
     g_M = (\<lambda>s. g_M G (fst s)),
     g_ef_construction = (\<lambda>s. g_ef_construction G (fst s)),
     g_Mmax = (\<lambda>s. g_Mmax G (fst s)),
     g_create_node = (\<lambda>p l v ns. checked (\<lambda>h. holds_level l h \<and> (p \<noteq> None \<longrightarrow> holds_level (Suc l) h)) (g_create_node G p l v ns)),
     g_drop_node = (\<lambda>p l n. checked (\<lambda>h. holds_level l h \<and> (p \<noteq> None \<longrightarrow> holds_level (Suc l) h)) (g_drop_node G p l n)),
     g_mark_delete = (\<lambda>n l b. checked (holds_level l) (g_mark_delete G n l b)),
     g_get_next_level_node = (\<lambda>n l. checked (holds_level l) (g_get_next_level_node G n l)),
     g_link_neighbours = (\<lambda>n l. checked (holds_level l) (g_link_neighbours G n l)),
     g_replace_neighbours = (\<lambda>n l ns. checked (holds_level l) (g_replace_neighbours G n l ns)),
     g_unlink_neighbours = (\<lambda>n l. checked (\<lambda>h. (l, Exclusive) \<in> set (snd h)) (g_unlink_neighbours G n l)),
     g_incoming_neighbours = (\<lambda>n l. checked (\<lambda>h. (l, Exclusive) \<in> set (snd h)) (g_incoming_neighbours G n l))\<rparr>"

named_theorems monitored_simps \<open>the operations of a monitored graph\<close>

lemma monitored_sel [monitored_simps]:
  "node_key (monitored G) = node_key G"
  "g_node_distance (monitored G) = (\<lambda>s. g_node_distance G (fst s))"
  "g_data_distance (monitored G) = (\<lambda>s. g_data_distance G (fst s))"
  "g_visible (monitored G) = (\<lambda>s. g_visible G (fst s))"
  "g_lock_graph (monitored G) = (\<lambda>m s. (g_lock_graph G m (fst s), Option.bind (snd s) (acquire_graph m)))"
  "g_unlock_graph (monitored G) = (\<lambda>m s. (g_unlock_graph G m (fst s), Option.bind (snd s) (release_graph m)))"
  "g_lock_level (monitored G) = (\<lambda>l m s. (g_lock_level G l m (fst s), Option.bind (snd s) (acquire_level l m)))"
  "g_unlock_level (monitored G) = (\<lambda>l m s. (g_unlock_level G l m (fst s), Option.bind (snd s) (release_level l m)))"
  "g_M (monitored G) = (\<lambda>s. g_M G (fst s))"
  "g_ef_construction (monitored G) = (\<lambda>s. g_ef_construction G (fst s))"
  "g_Mmax (monitored G) = (\<lambda>s. g_Mmax G (fst s))"
  by (simp_all add: monitored_def)

lemma monitored_act [monitored_simps]:
  "g_get_entry_point (monitored G) l = checked holds_graph (g_get_entry_point G l)"
  "g_set_entry_point (monitored G) ns l = checked (\<lambda>h. fst h = Some Exclusive) (g_set_entry_point G ns l)"
  "g_get_insert_level (monitored G) = checked (\<lambda>h. True) (g_get_insert_level G)"
  "g_ensure_levels (monitored G) l = checked (\<lambda>h. holds_graph h \<and> snd h = []) (g_ensure_levels G l)"
  "g_create_node (monitored G) p l v ns = checked (\<lambda>h. holds_level l h \<and> (p \<noteq> None \<longrightarrow> holds_level (Suc l) h)) (g_create_node G p l v ns)"
  "g_drop_node (monitored G) p l n = checked (\<lambda>h. holds_level l h \<and> (p \<noteq> None \<longrightarrow> holds_level (Suc l) h)) (g_drop_node G p l n)"
  "g_mark_delete (monitored G) n l b = checked (holds_level l) (g_mark_delete G n l b)"
  "g_get_next_level_node (monitored G) n l = checked (holds_level l) (g_get_next_level_node G n l)"
  "g_link_neighbours (monitored G) n l = checked (holds_level l) (g_link_neighbours G n l)"
  "g_replace_neighbours (monitored G) n l ns = checked (holds_level l) (g_replace_neighbours G n l ns)"
  "g_unlink_neighbours (monitored G) n l = checked (\<lambda>h. (l, Exclusive) \<in> set (snd h)) (g_unlink_neighbours G n l)"
  "g_incoming_neighbours (monitored G) n l = checked (\<lambda>h. (l, Exclusive) \<in> set (snd h)) (g_incoming_neighbours G n l)"
  by (simp_all add: monitored_def)

subsection \<open>Layer operations under a lock\<close>

lemma query_distance_monitored: "query_distance (monitored G) s q n = query_distance G (fst s) q n"
  unfolding query_distance_def monitored_sel ..

lemma evaluate_distances_monitored: "evaluate_distances (monitored G) s q ns = evaluate_distances G (fst s) q ns"
  by (induction ns) (simp_all add: query_distance_monitored split: option.split)

lemma expand_candidates_policy:
  "(\<And>n. pol' g' n = pol g n) \<Longrightarrow> expand_candidates H pol' g' ef cs L = expand_candidates H pol g ef cs L"
  by (induction cs arbitrary: L) (simp_all add: Let_def split: option.split)

lemma seed_candidates_policy:
  "(\<And>n. pol' g' n = pol g n) \<Longrightarrow> seed_candidates H pol' g' cs L = seed_candidates H pol g cs L"
  by (induction cs arbitrary: L) (simp_all add: Let_def split: option.split)

lemma seed_impl_monitored:
  assumes "\<And>n. pol' (g, h) n = pol g n"
  shows "seed_impl H (monitored G) pol' (g, h) E L = seed_impl H G pol g E L"
proof -
  have sc: "seed_candidates H pol' (g, h) cs L = seed_candidates H pol g cs L" for cs L
    using assms by (rule seed_candidates_policy)
  show ?thesis unfolding seed_impl_def monitored_sel evaluate_distances_monitored fst_conv sc ..
qed

lemma expand_monitored:
  assumes "\<And>n. pol' (g, Some h) n = pol g n" "holds_level (m_level L) h"
  shows "expand H (monitored G) pol' (g, Some h) n ef L = expand H G pol g n ef L"
proof -
  have ec: "expand_candidates H pol' (g, Some h) ef cs L = expand_candidates H pol g ef cs L" for cs L
    using assms(1) by (rule expand_candidates_policy)
  have nb: "g_neighbours (monitored G) (g, Some h) n (m_level L) = g_neighbours G g n (m_level L)"
    using assms(2) by (simp add: monitored_def)
  show ?thesis unfolding expand_def monitored_sel evaluate_distances_monitored fst_conv ec nb ..
qed

lemma expand_candidates_level: "expand_candidates H pol g ef cs L = Some L' \<Longrightarrow> m_level L' = m_level L"
  by (induction cs arbitrary: L) (auto simp: Let_def split: if_splits option.splits)

lemma expand_level: "expand H G pol g n ef L = Some L' \<Longrightarrow> m_level L' = m_level L"
  by (auto simp: expand_def Let_def dest: expand_candidates_level split: option.splits prod.splits)

text \<open>The search loop depends on the graph through the expansion of nodes only.\<close>

lemma search_loop_transfer:
  fixes G :: "('g, 'n, 'k, 'v, 'd :: linorder, 'z) layer_graph_scheme"
  assumes "search_loop H G pol g ef L = Some r" "m_level L = l"
    and "\<And>n L. m_level L = l \<Longrightarrow> expand H G' pol' g' n ef L = expand H G pol g n ef L"
  shows "search_loop H G' pol' g' ef L = Some r"
proof -
  have "m_level L = l \<longrightarrow> (\<forall>n L. m_level L = l \<longrightarrow> expand H G' pol' g' n ef L = expand H G pol g n ef L) \<longrightarrow>
    search_loop H G' pol' g' ef L = Some r"
  proof (rule search_loop.raw_induct [OF _ assms(1)], intro impI)
    fix sl :: "('n, 'd) candidate std_heap \<Rightarrow> ('g, 'n, 'k, 'v, 'd, 'z) layer_graph_scheme \<Rightarrow> ('g, 'n) visibility_policy \<Rightarrow>
      'g \<Rightarrow> nat \<Rightarrow> ('n, 'k, 'v, 'd) layer_ops \<Rightarrow> ('n, 'k, 'v, 'd) layer_ops option option" and H G pol g ef L r
    assume IH: "\<And>H G pol g ef L r. sl H G pol g ef L = Some r \<Longrightarrow> m_level L = l \<longrightarrow>
        (\<forall>n L. m_level L = l \<longrightarrow> expand H G' pol' g' n ef L = expand H G pol g n ef L) \<longrightarrow> search_loop H G' pol' g' ef L = Some r"
      and step: "(if m_candidates L = [] then Some (Some L)
         else let c = hd (m_candidates L); L1 = L\<lparr>m_candidates := hpop H MinComparator (m_candidates L)\<rparr> in
              if m_results L1 \<noteq> [] \<and> cand_less (hd (m_results L1)) c then Some (Some L1)
              else case expand H G pol g (cand_node c) ef L1 of None \<Rightarrow> Some None | Some L2 \<Rightarrow> sl H G pol g ef L2) = Some r"
      and l: "m_level L = l" and ex: "\<forall>n L. m_level L = l \<longrightarrow> expand H G' pol' g' n ef L = expand H G pol g n ef L"
    let ?L1 = "L\<lparr>m_candidates := hpop H MinComparator (m_candidates L)\<rparr>" and ?n = "cand_node (hd (m_candidates L))"
    have e: "expand H G' pol' g' ?n ef ?L1 = expand H G pol g ?n ef ?L1" using ex l by simp
    have "search_loop H G' pol' g' ef L2 = Some r" if "expand H G pol g ?n ef ?L1 = Some L2" "sl H G pol g ef L2 = Some r" for L2
      using IH [OF that(2)] expand_level [OF that(1)] l ex by simp
    with step show "search_loop H G' pol' g' ef L = Some r"
      by (subst search_loop.simps) (auto simp: Let_def e split: if_splits option.splits)
  qed
  with assms(2,3) show ?thesis by blast
qed

lemma search_loop_cong:
  assumes "\<And>n L. m_level L = l \<Longrightarrow> expand H G' pol' g' n ef L = expand H G pol g n ef L" "m_level L = l"
  shows "search_loop H G' pol' g' ef L = search_loop H G pol g ef L"
proof (cases "search_loop H G pol g ef L")
  case None
  then have "search_loop H G' pol' g' ef L \<noteq> Some r" for r
    using search_loop_transfer [of H G' pol' g' ef L r l G pol g] assms by auto
  with None show ?thesis by (metis not_Some_eq)
next
  case (Some r)
  from search_loop_transfer [OF this assms(2,1)] Some show ?thesis by simp
qed

lemma seed_candidates_level: "seed_candidates H pol g cs L = Some L' \<Longrightarrow> m_level L' = m_level L"
  by (induction cs arbitrary: L) (auto simp: Let_def split: option.splits)

lemma Layer_search_monitored:
  assumes pol: "\<And>n. pol' (g, Some h) n = pol g n" and l: "holds_level l h"
  shows "Layer_search H (monitored G) pol' (g, Some h) E l ef L = Layer_search H G pol g E l ef L"
proof (cases "seed_impl H G pol g E ((Layer_reset L)\<lparr>m_level := l\<rparr>)")
  case None
  then show ?thesis by (simp add: Layer_search_def seed_impl_monitored [of pol' g _ pol, OF pol])
next
  case (Some L1)
  have "m_level L1 = l"
    using Some by (auto simp: seed_impl_def Let_def dest: seed_candidates_level split: option.splits prod.splits)
  then have "search_loop H (monitored G) pol' (g, Some h) ef L1 = search_loop H G pol g ef L1"
    by (intro search_loop_cong [where l = l] expand_monitored) (simp_all add: pol l)
  with Some show ?thesis by (simp add: Layer_search_def seed_impl_monitored [of pol' g _ pol, OF pol])
qed

lemma Layer_seed_monitored:
  "Layer_seed H (monitored G) AlwaysVisiblePolicy (g, h) E l L = Layer_seed H G AlwaysVisiblePolicy g E l L"
  by (simp add: Layer_seed_def seed_impl_monitored [where pol = AlwaysVisiblePolicy] AlwaysVisiblePolicy_def)

lemma is_dominated_monitored: "is_dominated (monitored G) s e R = is_dominated G (fst s) e R"
  by (induction R) (simp_all add: monitored_simps split: option.split)

lemma select_diverse_monitored: "select_diverse H (monitored G) s M n C R Wd = select_diverse H G (fst s) M n C R Wd"
  by (induction n arbitrary: C R Wd) (simp_all add: is_dominated_monitored Let_def split: option.split)

lemma consume_heuristic_monitored:
  "consume_heuristic H (monitored G) s M ExtendCandidates_No keep L = consume_heuristic H G (fst s) M ExtendCandidates_No keep L"
  by (simp add: consume_heuristic_def select_diverse_monitored)

subsection \<open>Simulation\<close>

text \<open>
  The state of the monitor that belongs to a frame, and the frame over the monitored graph. \<open>st lm lv\<close> are
  the frames whose guards have mode \<open>lm\<close> and levels \<open>lv\<close>; \<open>in_levels\<close> and \<open>outside\<close> those a function may be
  left with, inside and outside the scope of a \<^verbatim>\<open>LockLevels\<close>.
\<close>

definition held_of :: "'g frame \<Rightarrow> held" where
  "held_of f = (Some (fr_lock f), case fr_levels f of None \<Rightarrow> [] | Some ll \<Rightarrow> map (\<lambda>l. (l, ll_mode ll)) (ll_stack ll))"

definition mon :: "'g frame \<Rightarrow> ('g \<times> held option) frame" where
  "mon f = \<lparr>fr_graph = (fr_graph f, Some (held_of f)), fr_lock = fr_lock f, fr_levels = fr_levels f\<rparr>"

definition st :: "lock_mode \<Rightarrow> lock_levels option \<Rightarrow> 'g frame \<Rightarrow> bool" where
  "st lm lv f \<longleftrightarrow> fr_lock f = lm \<and> fr_levels f = lv"

definition in_levels :: "lock_mode \<Rightarrow> 'g frame \<Rightarrow> bool" where
  "in_levels lm f \<longleftrightarrow> (\<exists>m p S. st lm (Some \<lparr>ll_mode = m, ll_policy = p, ll_stack = S\<rparr>) f \<and> sorted_wrt (<) S)"

definition outside :: "'g frame \<Rightarrow> bool" where
  "outside f \<longleftrightarrow> fr_levels f = None"

definition sim ::
    "('g frame \<Rightarrow> bool) \<Rightarrow> ('g, 'a) gop \<Rightarrow> ('g \<times> held option, 'a) gop \<Rightarrow> ('a \<Rightarrow> 'g frame \<Rightarrow> bool) \<Rightarrow> ('g frame \<Rightarrow> bool) \<Rightarrow> bool" where
  "sim A c c' Q E \<longleftrightarrow> (\<forall>f. A f \<longrightarrow> c' (mon f) = map_option (map_prod mon id) (c f)
     \<and> (\<forall>f' r. c f = Some (f', r) \<longrightarrow> (case r of None \<Rightarrow> E f' | Some x \<Rightarrow> Q x f')))"

lemma simI:
  assumes "\<And>f. A f \<Longrightarrow> c' (mon f) = map_option (map_prod mon id) (c f)"
    and "\<And>f f'. A f \<Longrightarrow> c f = Some (f', None) \<Longrightarrow> E f'" "\<And>f f' x. A f \<Longrightarrow> c f = Some (f', Some x) \<Longrightarrow> Q x f'"
  shows "sim A c c' Q E"
  using assms by (auto simp: sim_def split: option.split)

lemma sim_bind:
  assumes c: "sim A c c' Q E" and k: "\<And>x. sim (Q x) (k x) (k' x) R E"
  shows "sim A (gbind c k) (gbind c' k') R E"
  unfolding sim_def
proof (intro allI impI)
  fix f assume f: "A f"
  show "gbind c' k' (mon f) = map_option (map_prod mon id) (gbind c k f)
    \<and> (\<forall>f' r. gbind c k f = Some (f', r) \<longrightarrow> (case r of None \<Rightarrow> E f' | Some x \<Rightarrow> R x f'))"
  proof (cases "c f")
    case None
    with c f show ?thesis by (auto simp: sim_def gbind_def)
  next
    case (Some fr)
    obtain f1 r where fr: "fr = (f1, r)" by (cases fr)
    with c f Some have c': "c' (mon f) = Some (mon f1, r)" "case r of None \<Rightarrow> E f1 | Some x \<Rightarrow> Q x f1" by (auto simp: sim_def)
    show ?thesis
    proof (cases r)
      case None
      with c' Some fr show ?thesis by (auto simp: gbind_def)
    next
      case r: (Some x)
      with c' have "Q x f1" by simp
      with k [of x] c' Some fr r show ?thesis by (auto simp: gbind_def sim_def)
    qed
  qed
qed

lemma sim_conseq: "sim A c c' Q E \<Longrightarrow> (\<And>f. B f \<Longrightarrow> A f) \<Longrightarrow> (\<And>x f. Q x f \<Longrightarrow> R x f) \<Longrightarrow> (\<And>f. E f \<Longrightarrow> F f) \<Longrightarrow> sim B c c' R F"
  unfolding sim_def by (metis (no_types, lifting) option.case_eq_if)

lemma sim_ex: "(\<And>y. sim (A y) c c' Q E) \<Longrightarrow> sim (\<lambda>f. \<exists>y. A y f) c c' Q E"
  by (auto simp: sim_def)

lemma sim_pre: "(B \<Longrightarrow> sim A c c' Q E) \<Longrightarrow> sim (\<lambda>f. B \<and> A f) c c' Q E"
  by (auto simp: sim_def)

lemma sim_ret: "(\<And>f. A f \<Longrightarrow> Q x f) \<Longrightarrow> sim A (gret x) (gret x) Q E"
  by (auto simp: sim_def gret_def)

lemma st_graph [simp]: "st lm lv (f\<lparr>fr_graph := g\<rparr>) = st lm lv f"
  by (simp add: st_def)

lemma in_levelsI: "st lm (Some \<lparr>ll_mode = m, ll_policy = p, ll_stack = S\<rparr>) f \<Longrightarrow> sorted_wrt (<) S \<Longrightarrow> in_levels lm f"
  by (auto simp: in_levels_def)

text \<open>An operation of the graph under the locks it needs.\<close>

definition locks :: "lock_mode \<Rightarrow> lock_levels option \<Rightarrow> held" where
  "locks lm lv = (Some lm, case lv of None \<Rightarrow> [] | Some ll \<Rightarrow> map (\<lambda>l. (l, ll_mode ll)) (ll_stack ll))"

lemma held_of_st: "st lm lv f \<Longrightarrow> held_of f = locks lm lv"
  by (simp add: st_def held_of_def locks_def)

lemma sim_on_graph:
  assumes "ok (locks lm lv)" "\<And>f. st lm lv f \<Longrightarrow> E f"
  shows "sim (st lm lv) (on_graph act) (on_graph (checked ok act)) (\<lambda>_. st lm lv) E"
proof (rule simI)
  fix f :: "'a frame" assume f: "st lm lv f"
  have h: "held_of f = locks lm lv" by (rule held_of_st [OF f])
  show "on_graph (checked ok act) (mon f) = map_option (map_prod mon id) (on_graph act f)"
    using assms(1) h by (cases "act (fr_graph f)") (auto simp: on_graph_def checked_def mon_def held_of_def)
next
  fix f f' :: "'a frame" assume "st lm lv f" "on_graph act f = Some (f', None)"
  then show "E f'" using assms(2) by (auto simp: on_graph_def split: option.splits)
next
  fix f f' :: "'a frame" and x assume "st lm lv f" "on_graph act f = Some (f', Some x)"
  then show "st lm lv f'" by (auto simp: on_graph_def split: option.splits)
qed

lemma sim_layer_step:
  assumes "\<And>g. h' (g, Some (locks lm lv)) = h g" "\<And>f. st lm lv f \<Longrightarrow> E f"
  shows "sim (st lm lv) (layer_step h) (layer_step h') (\<lambda>_. st lm lv) E"
proof (rule simI)
  fix f :: "'a frame" assume "st lm lv f"
  then have "h' (fr_graph f, Some (held_of f)) = h (fr_graph f)" using held_of_st assms(1) by metis
  then show "layer_step h' (mon f) = map_option (map_prod mon id) (layer_step h f)"
    by (cases "h (fr_graph f)") (auto simp: layer_step_def mon_def)
qed (use assms(2) in \<open>auto simp: layer_step_def split: option.splits\<close>)

text \<open>The guards.\<close>

lemma sim_upgrade:
  "sim (st Shared None) (LockGraph_upgrade G) (LockGraph_upgrade (monitored G)) (\<lambda>_. st Exclusive None) outside"
  by (rule simI) (auto simp: LockGraph_upgrade_def LockGraph_relock_def st_def mon_def held_of_def monitored_simps
      acquire_graph_def release_graph_def no_locks_def split: if_splits)

lemma sim_update_policy:
  "sim (st lm (Some ll)) (LockLevels_update_policy p) (LockLevels_update_policy p) (\<lambda>_. st lm (Some (ll\<lparr>ll_policy := p\<rparr>))) E"
  by (rule simI) (auto simp: LockLevels_update_policy_def st_def mon_def held_of_def)

lemma release_level_top: "release_level l m (Some lm, (l, m) # ls) = Some (Some lm, ls)"
  by (simp add: release_level_def)

lemma release_level_coupled: "release_level (Suc l) m (Some lm, (l, m') # (Suc l, m) # ls) = Some (Some lm, (l, m') # ls)"
  by (simp add: release_level_def)

lemma sim_descend:
  assumes "sorted_wrt (<) (Suc l # S)"
  shows "sim (st lm (Some \<lparr>ll_mode = m, ll_policy = p, ll_stack = Suc l # S\<rparr>)) (LockLevels_descend G) (LockLevels_descend (monitored G))
    (\<lambda>_. st lm (Some \<lparr>ll_mode = m, ll_policy = p, ll_stack = l # (if p = Policy_Release then S else Suc l # S)\<rparr>)) (in_levels lm)"
proof -
  have "acquire_level l m (Some lm, (Suc l, m) # map (\<lambda>l. (l, m)) S) = Some (Some lm, (l, m) # (Suc l, m) # map (\<lambda>l. (l, m)) S)"
    using assms by (auto simp: acquire_level_def)
  then show ?thesis
    by (cases p; intro simI) (auto simp: LockLevels_descend_def LockLevels_level_def st_def mon_def held_of_def monitored_simps
        release_level_coupled Let_def)
qed

lemma unlock_levels_monitored:
  "fold (\<lambda>l. g_unlock_level (monitored G) l m) S (g, Some (Some lm, map (\<lambda>l. (l, m)) S)) =
   (fold (\<lambda>l. g_unlock_level G l m) S g, Some (Some lm, []))"
  by (induction S arbitrary: g) (simp_all add: monitored_simps release_level_top)

lemma sim_with_levels:
  assumes "sim (st lm (Some \<lparr>ll_mode = m, ll_policy = p, ll_stack = [l]\<rparr>)) c c' (\<lambda>x f. B x \<and> in_levels lm f) (in_levels lm)"
  shows "sim (st lm None) (with_levels G m l p c) (with_levels (monitored G) m l p c') (\<lambda>x f. B x \<and> st lm None f) outside"
proof -
  have ini: "LockLevels_init (monitored G) m l p (mon f) = mon (LockLevels_init G m l p f)"
    "st lm (Some \<lparr>ll_mode = m, ll_policy = p, ll_stack = [l]\<rparr>) (LockLevels_init G m l p f)" if "st lm None f" for f
    using that by (auto simp: LockLevels_init_def mon_def held_of_def st_def monitored_simps acquire_level_def)
  have des: "LockLevels_destroy (monitored G) (mon f) = mon (LockLevels_destroy G f)" "st lm None (LockLevels_destroy G f)"
    if "in_levels lm f" for f
    using that unlock_levels_monitored [where G = G]
    by (auto simp: in_levels_def LockLevels_destroy_def mon_def held_of_def st_def)
  show ?thesis
    unfolding sim_def
  proof (intro allI impI)
    fix f :: "'a frame" assume f: "st lm None f"
    let ?i = "LockLevels_init G m l p f"
    from assms ini(2) [OF f] have s: "c' (mon ?i) = map_option (map_prod mon id) (c ?i)"
      "\<And>f' r. c ?i = Some (f', r) \<Longrightarrow> in_levels lm f' \<and> (\<forall>x. r = Some x \<longrightarrow> B x)"
      unfolding sim_def by (auto split: option.splits)
    show "with_levels (monitored G) m l p c' (mon f) = map_option (map_prod mon id) (with_levels G m l p c f)
      \<and> (\<forall>f' r. with_levels G m l p c f = Some (f', r) \<longrightarrow> (case r of None \<Rightarrow> outside f' | Some x \<Rightarrow> B x \<and> st lm None f'))"
    proof (cases "c ?i")
      case None
      with s(1) show ?thesis by (simp add: with_levels_def ini(1) [OF f])
    next
      case (Some fr)
      obtain f1 r where fr: "fr = (f1, r)" by (cases fr)
      with s Some have "in_levels lm f1" "\<forall>x. r = Some x \<longrightarrow> B x" "c' (mon ?i) = Some (mon f1, r)" by auto
      with des [of f1] Some fr show ?thesis
        by (auto simp: with_levels_def ini(1) [OF f] outside_def st_def split: option.split)
    qed
  qed
qed

lemma with_graph_lock_monitored:
  assumes "sim (st Shared None) c c' (\<lambda>x. outside) outside"
  shows "with_graph_lock (monitored G) Shared c' (g, Some no_locks)
    = map_option (map_prod (\<lambda>g. (g, Some no_locks)) id) (with_graph_lock G Shared c g)"
proof -
  let ?f = "\<lparr>fr_graph = g_lock_graph G Shared g, fr_lock = Shared, fr_levels = None\<rparr>"
  have i: "\<lparr>fr_graph = g_lock_graph (monitored G) Shared (g, Some no_locks), fr_lock = Shared, fr_levels = None\<rparr> = mon ?f"
    by (simp add: mon_def held_of_def monitored_simps acquire_graph_def)
  have "st Shared None ?f" by (simp add: st_def)
  with assms have s: "c' (mon ?f) = map_option (map_prod mon id) (c ?f)" "\<And>f' r. c ?f = Some (f', r) \<Longrightarrow> outside f'"
    unfolding sim_def by (auto split: option.splits)
  show ?thesis
    unfolding with_graph_lock_def i s(1)
    using s(2) by (cases "c ?f") (auto simp: monitored_simps mon_def held_of_def outside_def release_graph_def)
qed

subsection \<open>The operations\<close>

abbreviation lvs :: "lock_mode \<Rightarrow> descend_policy \<Rightarrow> nat list \<Rightarrow> lock_levels option" where
  "lvs m p S \<equiv> Some \<lparr>ll_mode = m, ll_policy = p, ll_stack = S\<rparr>"

lemma holds_locks [simp]:
  "holds_level l (locks lm (lvs m p S)) \<longleftrightarrow> l \<in> set S" "holds_graph (locks lm lv)" "fst (locks lm lv) = Some lm"
  "snd (locks lm None) = []" "(l, m') \<in> set (snd (locks lm (lvs m p S))) \<longleftrightarrow> m' = m \<and> l \<in> set S"
  by (auto simp: holds_level_def holds_graph_def locks_def image_iff)

text \<open>Inside the scope of \<^verbatim>\<open>LockLevels\<close>, with the stack \<open>S\<close>.\<close>

lemma sim_act:
  assumes "sorted_wrt (<) S" "ok (locks lm (lvs m p S))"
  shows "sim (st lm (lvs m p S)) (on_graph act) (on_graph (checked ok act)) (\<lambda>_. st lm (lvs m p S)) (in_levels lm)"
  using assms by (intro sim_on_graph) (auto intro: in_levelsI)

lemma sim_layer:
  assumes "sorted_wrt (<) S" "\<And>g. h' (g, Some (locks lm (lvs m p S))) = h g"
  shows "sim (st lm (lvs m p S)) (layer_step h) (layer_step h') (\<lambda>_. st lm (lvs m p S)) (in_levels lm)"
  using assms by (intro sim_layer_step) (auto intro: in_levelsI)

lemma sim_advance:
  assumes "sorted_wrt (<) S" "l \<in> set S"
  shows "sim (st lm (lvs m p S)) (advance_to_next_level G l ns) (advance_to_next_level (monitored G) l ns) (\<lambda>_. st lm (lvs m p S)) (in_levels lm)"
proof (induction ns)
  case (Cons n ns)
  show ?case
    unfolding advance_to_next_level.simps monitored_act
    by (rule sim_bind [OF sim_act sim_bind [OF Cons sim_ret]]) (use assms in auto)
qed (simp add: sim_ret)

lemma sim_search:
  assumes "sorted_wrt (<) S" "l \<in> set S" "\<And>g h n. pol' (g, h) n = pol g n"
  shows "sim (st lm (lvs m p S)) (GraphOps_layer_search H G pol E l ef L) (GraphOps_layer_search H (monitored G) pol' E l (\<lambda>s. ef (fst s)) L)
    (\<lambda>_. st lm (lvs m p S)) (in_levels lm)"
  unfolding GraphOps_layer_search_def
  using assms by (intro sim_layer) (simp_all add: Layer_search_monitored)

lemma sim_heuristic:
  assumes "sorted_wrt (<) S"
  shows "sim (st lm (lvs m p S)) (GraphOps_consume_heuristic H G M L) (GraphOps_consume_heuristic H (monitored G) (\<lambda>s. M (fst s)) L)
    (\<lambda>_. st lm (lvs m p S)) (in_levels lm)"
  unfolding GraphOps_consume_heuristic_def SHOULD_EXTEND_CANDIDATES_def
  using assms by (intro sim_layer) (simp_all add: consume_heuristic_monitored)

lemma always_visible [simp]: "AlwaysVisiblePolicy g n = Some True"
  by (simp add: AlwaysVisiblePolicy_def)

lemma sim_greedy_descend:
  "insert_level \<le> level \<Longrightarrow>
   sim (st lm (lvs m Policy_Release [level])) (greedy_descend H G L E level insert_level) (greedy_descend H (monitored G) L E level insert_level)
     (\<lambda>_. st lm (lvs m Policy_Release [insert_level])) (in_levels lm)"
proof (induction "level - insert_level" arbitrary: L E level)
  case 0
  then show ?case by (subst (1 2) greedy_descend.simps) (auto intro: sim_ret)
next
  case (Suc n)
  then obtain k where k: "level = Suc k" "insert_level \<le> k" by (metis diff_Suc_Suc diff_le_self le_SucE less_or_eq_imp_le not0_implies_Suc zero_diff Suc_leD Zero_not_Suc diff_self_eq_0)
  have IH: "sim (st lm (lvs m Policy_Release [k])) (greedy_descend H G L E k insert_level) (greedy_descend H (monitored G) L E k insert_level)
     (\<lambda>_. st lm (lvs m Policy_Release [insert_level])) (in_levels lm)" for L E
    using Suc k by (intro Suc.hyps(1)) auto
  have d: "sim (st lm (lvs m Policy_Release [Suc k])) (LockLevels_descend G) (LockLevels_descend (monitored G))
      (\<lambda>_. st lm (lvs m Policy_Release [k])) (in_levels lm)"
    using sim_descend [of k "[]" lm m Policy_Release G] by simp
  show ?case
    unfolding k(1)
    by (subst (1 2) greedy_descend.simps)
      (use k(2) in \<open>auto split: prod.split intro!: sim_bind [OF sim_search [where ef = "\<lambda>_. GREEDY_DESCENT_EF"]] sim_bind [OF sim_advance] sim_bind [OF d] IH\<close>)
qed

lemma sim_shrink:
  assumes "sorted_wrt (<) S" "l \<in> set S"
  shows "sim (st lm (lvs m p S)) (shrink_neighbours H G L n l ns) (shrink_neighbours H (monitored G) L n l ns)
    (\<lambda>_. st lm (lvs m p S)) (in_levels lm)"
proof (induction ns arbitrary: L)
  case (Cons n' ns)
  have nb: "sim (st lm (lvs m p S)) (layer_step (\<lambda>g. Some (g_neighbours G g n' l))) (layer_step (\<lambda>g. Some (g_neighbours (monitored G) g n' l)))
      (\<lambda>_. st lm (lvs m p S)) (in_levels lm)"
    using assms by (intro sim_layer) (simp_all add: monitored_def)
  have sd: "sim (st lm (lvs m p S)) (layer_step (\<lambda>g. Some (Layer_seed H G AlwaysVisiblePolicy g E l L)))
      (layer_step (\<lambda>g. Some (Layer_seed H (monitored G) AlwaysVisiblePolicy g E l L))) (\<lambda>_. st lm (lvs m p S)) (in_levels lm)" for E L
    using assms by (intro sim_layer) (simp_all add: Layer_seed_monitored)
  show ?case
    unfolding shrink_neighbours.simps monitored_act monitored_sel
    by (rule sim_bind [OF nb], rule sim_bind [OF sd], rule sim_bind [OF sim_heuristic [OF assms(1)]])
      (use assms in \<open>auto split: prod.split intro!: sim_bind [OF sim_act] Cons\<close>)
qed (simp add: sim_ret)

lemma upt_Suc_Cons: "l \<le> t \<Longrightarrow> [l..<Suc t] = l # [Suc l..<Suc t]"
  by (simp add: upt_conv_Cons)

text \<open>With \<^verbatim>\<open>DescendPolicy::Keep\<close> the levels down to the current one stay locked.\<close>

lemma sim_descend_keep:
  assumes "Suc l \<le> t"
  shows "sim (st lm (lvs m Policy_Keep [Suc l..<Suc t])) (LockLevels_descend G) (LockLevels_descend (monitored G))
    (\<lambda>_. st lm (lvs m Policy_Keep [l..<Suc t])) (in_levels lm)"
  using sim_descend [of l "[Suc (Suc l)..<Suc t]" lm m Policy_Keep G] assms
  by (simp add: upt_Suc_Cons [of "Suc l" t] upt_Suc_Cons [of l t] del: upt_Suc)

lemma gbind_gret [simp]: "gbind (gret x) k = k x"
  by (simp add: gbind_def gret_def fun_eq_iff)

lemma sim_gather:
  assumes "sorted_wrt (<) S" "level \<in> set S"
  shows "sim (st lm (lvs m p S))
    (if level > el then gret ([], E, L) else gbind (GraphOps_layer_search H G AlwaysVisiblePolicy E level (g_ef_construction G) L)
       (GraphOps_consume_heuristic H G (g_M G)))
    (if level > el then gret ([], E, L) else gbind (GraphOps_layer_search H (monitored G) AlwaysVisiblePolicy E level (g_ef_construction (monitored G)) L)
       (GraphOps_consume_heuristic H (monitored G) (g_M (monitored G))))
    (\<lambda>_. st lm (lvs m p S)) (in_levels lm)"
  unfolding monitored_sel
  using assms by (auto intro!: sim_ret sim_bind [OF sim_search] sim_heuristic)

lemma sim_insert_levels:
  assumes "level \<le> t" "parent = None \<or> Suc level \<le> t" "\<forall>x\<in>set ins. snd x \<le> t"
  shows "sim (st lm (lvs Shared Policy_Keep [level..<Suc t])) (insert_levels H G v el level parent fst_node ins L E)
    (insert_levels H (monitored G) v el level parent fst_node ins L E)
    (\<lambda>r f. (\<forall>x\<in>set (fst (snd r)). snd x \<le> t) \<and> st lm (lvs Shared Policy_Keep [0..<Suc t]) f) (in_levels lm)"
  using assms
proof (induction level arbitrary: parent fst_node ins L E)
  case (0 parent)
  have c: "sim (st lm (lvs Shared Policy_Keep [0..<Suc t])) (on_graph (g_create_node G q 0 v ns)) (on_graph (g_create_node (monitored G) q 0 v ns))
      (\<lambda>_. st lm (lvs Shared Policy_Keep [0..<Suc t])) (in_levels lm)"
    if "q = None \<or> Suc 0 \<le> t" for q ns
    unfolding monitored_act using that by (intro sim_act) (auto simp del: upt_Suc)
  show ?case
    unfolding insert_levels.simps [of H G v el 0] insert_levels.simps [of H "monitored G" v el 0]
    by (rule sim_bind [OF sim_gather], use 0 in \<open>auto simp: Let_def split: prod.split intro!: sim_bind [OF sim_gather] sim_bind [OF c] sim_ret simp del: upt_Suc\<close>)
next
  case (Suc level parent)
  let ?S = "[Suc level..<Suc t]"
  have c: "sim (st lm (lvs Shared Policy_Keep ?S)) (on_graph (g_create_node G q (Suc level) v ns))
      (on_graph (g_create_node (monitored G) q (Suc level) v ns)) (\<lambda>_. st lm (lvs Shared Policy_Keep ?S)) (in_levels lm)"
    if "q = None \<or> Suc (Suc level) \<le> t" for q ns
    unfolding monitored_act using Suc.prems(1) that by (intro sim_act) (auto simp del: upt_Suc)
  show ?case
    unfolding insert_levels.simps [of H G v el "Suc level"] insert_levels.simps [of H "monitored G" v el "Suc level"]
    by (rule sim_bind [OF sim_gather], use Suc.prems in \<open>auto simp: Let_def split: prod.split intro!: sim_bind [OF sim_gather] sim_bind [OF c] sim_ret
        sim_bind [OF sim_advance] sim_bind [OF sim_descend_keep] Suc.IH simp del: upt_Suc\<close>)
qed

lemma sim_link_inserted:
  assumes "sorted_wrt (<) S" "\<forall>x\<in>set ins. snd x \<in> set S"
  shows "sim (st lm (lvs m p S)) (link_inserted H G L ins) (link_inserted H (monitored G) L ins) (\<lambda>_. st lm (lvs m p S)) (in_levels lm)"
  using assms(2)
proof (induction ins arbitrary: L)
  case (Cons x ins)
  obtain n l where x: "x = (n, l)" by (cases x)
  show ?case
    unfolding x link_inserted.simps monitored_act
    using Cons assms(1) x by (intro sim_bind [OF sim_act] sim_bind [OF sim_shrink]) auto
qed (simp add: sim_ret)

lemma sim_insert_start:
  "sim (st Shared None) (insert_start G) (insert_start (monitored G))
    (\<lambda>r f. \<exists>lm. (snd (snd (snd r)) \<longrightarrow> lm = Exclusive) \<and> st lm None f) outside"
proof -
  have ep: "sim (st lm None) (on_graph (g_get_entry_point G l)) (on_graph (g_get_entry_point (monitored G) l)) (\<lambda>_. st lm None) outside" for lm l
    unfolding monitored_act by (intro sim_on_graph) (auto simp: outside_def st_def)
  have il: "sim (st lm None) (on_graph (g_get_insert_level G)) (on_graph (g_get_insert_level (monitored G))) (\<lambda>_. st lm None) outside" for lm
    unfolding monitored_act by (intro sim_on_graph) (auto simp: outside_def st_def)
  show ?thesis
    unfolding insert_start_def
    by (auto split: prod.split intro!: sim_bind [OF ep] sim_bind [OF il] sim_bind [OF sim_upgrade] sim_ret) blast+
qed

lemma insert_monitored:
  "GraphOps_insert H (monitored G) v (g, Some no_locks) = map_option (map_prod (\<lambda>g. (g, Some no_locks)) id) (GraphOps_insert H G v g)"
  unfolding GraphOps_insert_def
proof (rule with_graph_lock_monitored, rule sim_bind [OF sim_insert_start], clarify)
  fix E el il new
  have en: "sim (st lm None) (on_graph (g_ensure_levels G l)) (on_graph (g_ensure_levels (monitored G) l)) (\<lambda>_. st lm None) outside" for lm l
    unfolding monitored_act by (intro sim_on_graph) (auto simp: outside_def st_def)
  have pol: "sim (st lm (lvs Shared Policy_Release [il])) (LockLevels_update_policy Policy_Keep) (LockLevels_update_policy Policy_Keep)
      (\<lambda>_. st lm (lvs Shared Policy_Keep [il..<Suc il])) (in_levels lm)" for lm
    using sim_update_policy [of lm "\<lparr>ll_mode = Shared, ll_policy = Policy_Release, ll_stack = [il]\<rparr>" Policy_Keep] by simp
  have se: "sim (st lm (lvs Shared Policy_Keep [0..<Suc il])) (if new then on_graph (g_set_entry_point G ns il) else gret ())
      (if new then on_graph (g_set_entry_point (monitored G) ns il) else gret ()) (\<lambda>_. st lm (lvs Shared Policy_Keep [0..<Suc il])) (in_levels lm)"
    if "new \<longrightarrow> lm = Exclusive" for lm ns
    unfolding monitored_act using that by (auto intro!: sim_act sim_ret simp del: upt_Suc)
  have body: "sim (st lm (lvs Shared Policy_Release [max el il])) (insert_locked H G v E el il new) (insert_locked H (monitored G) v E el il new)
      (\<lambda>_. in_levels lm) (in_levels lm)" if lm: "new \<longrightarrow> lm = Exclusive" for lm
    unfolding insert_locked_def
    by (auto split: prod.split simp del: upt_Suc intro!: sim_bind [OF sim_greedy_descend] sim_bind [OF pol] sim_bind [OF sim_insert_levels [where t = il]]
        sim_pre sim_bind [OF sim_link_inserted] sim_bind [OF se [OF lm]] sim_ret in_levelsI) fastforce
  show "sim (\<lambda>f. \<exists>lm. (snd (snd (snd (E, el, il, new))) \<longrightarrow> lm = Exclusive) \<and> st lm None f)
     (gbind (on_graph (g_ensure_levels G (max el il))) (\<lambda>_. with_levels G Shared (max el il) Policy_Release (insert_locked H G v E el il new)))
     (gbind (on_graph (g_ensure_levels (monitored G) (max el il))) (\<lambda>_. with_levels (monitored G) Shared (max el il) Policy_Release
       (insert_locked H (monitored G) v E el il new))) (\<lambda>_. outside) outside"
    by (intro sim_ex sim_pre sim_bind [OF en] sim_conseq [OF sim_with_levels [where B = "\<lambda>_. True", simplified, OF body]]) (auto simp: outside_def st_def)
qed

lemma sim_descend_release:
  "sim (st lm (lvs m Policy_Release [Suc l])) (LockLevels_descend G) (LockLevels_descend (monitored G)) (\<lambda>_. st lm (lvs m Policy_Release [l])) (in_levels lm)"
  using sim_descend [of l "[]" lm m Policy_Release G] by simp

lemma sim_mark_levels:
  "sim (st lm (lvs m Policy_Release [l])) (mark_delete_levels G b n l) (mark_delete_levels (monitored G) b n l) (\<lambda>_. in_levels lm) (in_levels lm)"
proof (induction l arbitrary: n)
  case 0
  show ?case
    unfolding mark_delete_levels.simps [of G b n 0] mark_delete_levels.simps [of "monitored G" b n 0] monitored_act
    by (auto intro!: sim_bind [OF sim_act] sim_ret in_levelsI)
next
  case (Suc l)
  show ?case
    unfolding mark_delete_levels.simps [of G b n "Suc l"] mark_delete_levels.simps [of "monitored G" b n "Suc l"] monitored_act
    by (auto intro!: sim_bind [OF sim_act] sim_bind [OF sim_descend_release] Suc)
qed

lemma mark_delete_monitored:
  "GraphOps_mark_delete (monitored G) n l b (g, Some no_locks) = map_option (map_prod (\<lambda>g. (g, Some no_locks)) id) (GraphOps_mark_delete G n l b g)"
  unfolding GraphOps_mark_delete_def
  by (intro with_graph_lock_monitored sim_conseq [OF sim_with_levels [where B = "\<lambda>_. True", simplified, OF sim_mark_levels]]) (auto simp: outside_def st_def)

lemma sim_repair:
  assumes "sorted_wrt (<) S" "l \<in> set S"
  shows "sim (st lm (lvs m p S)) (repair_orphans H G l L un os) (repair_orphans H (monitored G) l L un os) (\<lambda>_. st lm (lvs m p S)) (in_levels lm)"
proof (induction os arbitrary: L un)
  case (Cons n os)
  show ?case
  proof (cases "un = []")
    case False
    show ?thesis
      unfolding repair_orphans.simps if_not_P [OF False] monitored_act monitored_sel
      by (rule sim_bind [OF sim_search [OF assms]], simp, rule sim_bind [OF sim_heuristic [OF assms(1)]])
        (use assms in \<open>auto split: prod.split intro!: sim_bind [OF sim_act] sim_bind [OF sim_shrink] Cons\<close>)
  qed (use Cons in simp)
qed (simp add: sim_ret)

lemma sim_sever:
  assumes "l \<le> t" "map snd ns = [Suc l..<Suc t]"
  shows "sim (st lm (lvs Exclusive Policy_Release [l])) (sever_levels H G L n l rep ns) (sever_levels H (monitored G) L n l rep ns)
     (\<lambda>r f. map snd (snd r) = [0..<Suc t] \<and> in_levels lm f) (in_levels lm)"
  using assms
proof (induction l arbitrary: L n rep ns)
  case 0
  then have "map snd ((n, 0) # ns) = [0..<Suc t]" by (simp add: upt_Suc_Cons [of 0 t] del: upt_Suc)
  then show ?case
    unfolding sever_levels.simps [of H G L n 0] sever_levels.simps [of H "monitored G" L n 0] monitored_act Let_def
    by (auto simp del: upt_Suc split: prod.split intro!: sim_bind [OF sim_act] sim_bind [OF sim_repair] sim_ret in_levelsI)
next
  case (Suc l)
  then have "map snd ((n, Suc l) # ns) = [Suc l..<Suc t]" by (simp add: upt_Suc_Cons [of "Suc l" t] del: upt_Suc)
  then show ?case
    unfolding sever_levels.simps [of H G L n "Suc l"] sever_levels.simps [of H "monitored G" L n "Suc l"] monitored_act Let_def
    using Suc.prems(1)
    by (auto simp del: upt_Suc split: prod.split intro!: sim_bind [OF sim_act] sim_bind [OF sim_repair] sim_bind [OF sim_descend_release] Suc.IH)
qed

lemma sim_descend_to_bottom:
  "l \<le> t \<Longrightarrow> sim (st lm (lvs m Policy_Keep [l..<Suc t])) (descend_to_bottom G l) (descend_to_bottom (monitored G) l)
     (\<lambda>_. st lm (lvs m Policy_Keep [0..<Suc t])) (in_levels lm)"
  by (induction l) (auto simp del: upt_Suc intro!: sim_ret sim_bind [OF sim_descend_keep])

lemma sim_drop_nodes:
  assumes "map snd ns = [l..<Suc t]"
  shows "sim (st lm (lvs m p [0..<Suc t])) (drop_nodes G ns) (drop_nodes (monitored G) ns) (\<lambda>_. st lm (lvs m p [0..<Suc t])) (in_levels lm)"
  using assms
proof (induction ns arbitrary: l)
  case (Cons x ns)
  obtain n k where x: "x = (n, k)" by (cases x)
  have l: "l \<le> t" using Cons.prems by (cases "l \<le> t") (auto simp del: upt_Suc)
  then have ns: "k = l" "map snd ns = [Suc l..<Suc t]" using Cons.prems x by (auto simp: upt_Suc_Cons simp del: upt_Suc)
  have par: "Suc k \<le> t" if "ns \<noteq> []" using that ns by (cases "Suc l \<le> t") (auto simp del: upt_Suc)
  show ?case
    unfolding x drop_nodes.simps monitored_act
    by (intro sim_bind [OF sim_act] Cons.IH [OF ns(2)]) (use l ns par in \<open>auto simp del: upt_Suc split: list.splits\<close>)
qed (simp add: sim_ret)

lemma sim_remove_start:
  "sim (st Shared None) (remove_start G n l) (remove_start (monitored G) n l) (\<lambda>new f. \<exists>lm. (new \<longrightarrow> lm = Exclusive) \<and> st lm None f) outside"
proof -
  have ep: "sim (st lm None) (on_graph (g_get_entry_point G l)) (on_graph (g_get_entry_point (monitored G) l)) (\<lambda>_. st lm None) outside" for lm l
    unfolding monitored_act by (intro sim_on_graph) (auto simp: outside_def st_def)
  show ?thesis
    unfolding remove_start_def is_sole_entry_point_def monitored_sel
    by (auto split: prod.split intro!: sim_bind [OF ep] sim_bind [OF sim_upgrade] sim_ret)
qed


lemma sim_remove_drop:
  assumes "new \<longrightarrow> lm = Exclusive" "map snd ns = [0..<Suc l]"
  shows "sim (st lm (lvs Shared Policy_Keep [l])) (remove_drop G l new rep ns) (remove_drop (monitored G) l new rep ns)
    (\<lambda>_ f. True \<and> in_levels lm f) (in_levels lm)"
proof -
  have ep: "sim (st lm (lvs Shared Policy_Keep [0..<Suc l])) (on_graph (g_set_entry_point G es k)) (on_graph (g_set_entry_point (monitored G) es k))
      (\<lambda>_ f. True \<and> in_levels lm f) (in_levels lm)" if new for es k
    unfolding monitored_act using assms(1) that
    by (intro sim_conseq [OF sim_act]) (auto simp del: upt_Suc intro: in_levelsI [where S = "[0..<Suc l]"])
  have "sim (st lm (lvs Shared Policy_Keep [l..<Suc l])) (remove_drop G l new rep ns) (remove_drop (monitored G) l new rep ns)
      (\<lambda>_ f. True \<and> in_levels lm f) (in_levels lm)"
    unfolding remove_drop_def
    by (intro sim_bind [OF sim_descend_to_bottom] sim_bind [OF sim_drop_nodes [OF assms(2)]])
      (auto simp del: upt_Suc split: option.split prod.split intro!: ep [simplified] sim_ret in_levelsI [where S = "[0..<Suc l]"])
  then show ?thesis by simp
qed

lemma remove_monitored:
  "GraphOps_remove H (monitored G) n l (g, Some no_locks) = map_option (map_prod (\<lambda>g. (g, Some no_locks)) id) (GraphOps_remove H G n l g)"
  unfolding GraphOps_remove_def
proof (intro with_graph_lock_monitored sim_bind [OF sim_remove_start] sim_ex sim_pre, rule sim_bind [OF sim_with_levels [OF sim_sever]])
  fix new lm and r :: "('b \<times> nat) option \<times> ('b \<times> nat) list" assume lm: "new \<longrightarrow> lm = Exclusive"
  obtain rep ns where r: "r = (rep, ns)" by (cases r)
  show "sim (\<lambda>f. map snd (snd r) = [0..<Suc l] \<and> st lm None f)
    (case r of (replacement, nodes) \<Rightarrow> with_levels G Shared l Policy_Keep (remove_drop G l new replacement nodes))
    (case r of (replacement, nodes) \<Rightarrow> with_levels (monitored G) Shared l Policy_Keep (remove_drop (monitored G) l new replacement nodes))
    (\<lambda>_. outside) outside"
    unfolding r prod.case
    by (intro sim_pre sim_conseq [OF sim_with_levels [OF sim_remove_drop [OF lm]]]) (auto simp: outside_def st_def)
qed simp_all

lemma search_knn_monitored:
  "GraphOps_search_knn H (monitored G) q k ef (g, Some no_locks) = map_option (map_prod (\<lambda>g. (g, Some no_locks)) id) (GraphOps_search_knn H G q k ef g)"
proof -
  have ep: "sim (st lm None) (on_graph (g_get_entry_point G l)) (on_graph (g_get_entry_point (monitored G) l)) (\<lambda>_. st lm None) outside" for lm l
    unfolding monitored_act by (intro sim_on_graph) (auto simp: outside_def st_def)
  have vis: "GraphVisiblePolicy (monitored G) (g, h) n = GraphVisiblePolicy G g n" for g h n
    by (simp add: GraphVisiblePolicy_def monitored_sel)
  have body: "sim (st lm (lvs Shared Policy_Release [l]))
      (gbind (greedy_descend H G L E l 0) (\<lambda>(_, E1). gbind (GraphOps_layer_search H G (GraphVisiblePolicy G) E1 0 (\<lambda>_. ef) L) (\<lambda>b. gret (fst (consume_simple H k b)))))
      (gbind (greedy_descend H (monitored G) L E l 0) (\<lambda>(_, E1).
        gbind (GraphOps_layer_search H (monitored G) (GraphVisiblePolicy (monitored G)) E1 0 (\<lambda>_. ef) L) (\<lambda>b. gret (fst (consume_simple H k b)))))
      (\<lambda>_ f. True \<and> in_levels lm f) (in_levels lm)" for lm l L E
    by (auto split: prod.split intro!: sim_bind [OF sim_greedy_descend] sim_bind [OF sim_search [where ef = "\<lambda>_. ef"]] sim_ret in_levelsI vis)
  show ?thesis
    unfolding GraphOps_search_knn_def
    by (rule with_graph_lock_monitored, rule sim_bind [OF ep])
      (auto split: prod.split intro!: sim_ret sim_conseq [OF sim_with_levels [OF body]] simp: outside_def st_def)
qed

text \<open>
  C6: Lock discipline. Each operation on the monitored graph is the operation on the graph, and the monitor ends
  with every lock given back. So on every path, errors included: the lock of the graph is taken first and when no
  other is held, also when it is upgraded; levels are locked under it and from the top down; every step that reads or changes
  a level runs while that level is locked, edges are severed under its exclusive lock, the entry point
  changes under the exclusive lock of the graph, and no lock survives the call.
\<close>

theorem graph_ops_lock_discipline:
  "(GraphOps_insert H (monitored G) v (g, Some no_locks) = map_option (map_prod (\<lambda>g'. (g', Some no_locks)) id) (GraphOps_insert H G v g)) \<and>
   (GraphOps_remove H (monitored G) n l (g, Some no_locks) = map_option (map_prod (\<lambda>g'. (g', Some no_locks)) id) (GraphOps_remove H G n l g)) \<and>
   (GraphOps_mark_delete (monitored G) n l b (g, Some no_locks) = map_option (map_prod (\<lambda>g'. (g', Some no_locks)) id) (GraphOps_mark_delete G n l b g)) \<and>
   (GraphOps_search_knn H (monitored G) q k ef (g, Some no_locks) = map_option (map_prod (\<lambda>g'. (g', Some no_locks)) id) (GraphOps_search_knn H G q k ef g))"
  by (intro conjI insert_monitored remove_monitored mark_delete_monitored search_knn_monitored)

end
