(* ===== verification/Knn_Search.thy ===== *)
theory Knn_Search
  imports Graph_Ops
begin

text \<open>
  What a query returns (\<^verbatim>\<open>GraphOperations::search_knn\<close>). The contract \<open>snapshot\<close> says what a reader
  relies on while it holds its locks: the nodes of each level, their neighbours, their counterparts one
  level down and the entry points do not change, and reads of them succeed. Under it the search ends, succeeds
  and returns at most \<open>k\<close> visible nodes of the bottom level, nearest first; and when the bottom level is
  connected, all of it visible and \<open>ef_search\<close> at least its size, the result is exact.
\<close>

text \<open>A set of nodes with their neighbours as a directed graph.\<close>

definition connected_level :: "'n set \<Rightarrow> ('n \<Rightarrow> 'n list) \<Rightarrow> bool" where
  "connected_level N adj \<longleftrightarrow> (\<forall>e\<in>N. \<forall>n\<in>N. (\<lambda>a b. b \<in> set (adj a))\<^sup>*\<^sup>* e n)"

locale snapshot =
  fixes G :: "('g, 'n, 'k, 'v, 'd :: linorder, 'z) graph_scheme" and I :: "'g \<Rightarrow> bool"
    and V :: "nat \<Rightarrow> 'n set" and nbrs :: "nat \<Rightarrow> 'n \<Rightarrow> 'n list" and lower :: "nat \<Rightarrow> 'n \<Rightarrow> 'n"
    and eps :: "'n list" and el :: nat and dist :: "'v \<Rightarrow> 'n \<Rightarrow> 'd" and vis :: "'n \<Rightarrow> bool"
  assumes I_lock: "I g \<Longrightarrow> I (g_lock_graph G m g)" "I g \<Longrightarrow> I (g_lock_level G l m g)" "I g \<Longrightarrow> I (g_unlock_level G l m g)"
    "I g \<Longrightarrow> I (g_unlock_graph G m g)"
    and entry: "I g \<Longrightarrow> \<exists>g' l'. g_get_entry_point G l g = Some (g', Some (eps, l')) \<and> I g' \<and> (eps \<noteq> [] \<longrightarrow> l' = el)"
    and entry_V: "set eps \<subseteq> V el"
    and next_level: "I g \<Longrightarrow> l < el \<Longrightarrow> n \<in> V (Suc l) \<Longrightarrow> \<exists>g'. g_get_next_level_node G n (Suc l) g = Some (g', Some (lower (Suc l) n)) \<and> I g'"
    and lower_V: "l < el \<Longrightarrow> n \<in> V (Suc l) \<Longrightarrow> lower (Suc l) n \<in> V l"
    and neighbours: "I g \<Longrightarrow> l \<le> el \<Longrightarrow> n \<in> V l \<Longrightarrow> g_neighbours G g n l = Some (nbrs l n)"
    and nbrs_V: "l \<le> el \<Longrightarrow> n \<in> V l \<Longrightarrow> set (nbrs l n) \<subseteq> V l"
    and distance: "I g \<Longrightarrow> l \<le> el \<Longrightarrow> n \<in> V l \<Longrightarrow> g_data_distance G g v n = Some (dist v n)"
    and visible: "I g \<Longrightarrow> n \<in> V 0 \<Longrightarrow> g_visible G g n = Some (vis n)"
    and finite_V: "l \<le> el \<Longrightarrow> finite (V l)" and keys: "l \<le> el \<Longrightarrow> inj_on (node_key G) (V l)"
begin

lemma space_V:
  assumes "I g" "l \<le> el" "set E \<subseteq> V l"
  shows "search_space G g l (Query_data v) E \<subseteq> V l"
proof
  fix n assume "n \<in> search_space G g l (Query_data v) E"
  then have "reach G g l {} E n" by (simp add: search_space_def query_keys_def)
  then show "n \<in> V l"
  proof (induction rule: reach.induct)
    case (step n ns m)
    then show ?case using neighbours [OF assms(1,2)] nbrs_V [OF assms(2)] by auto
  qed (use assms(3) in auto)
qed

lemma searchable_V:
  assumes "I g" "l \<le> el" "set E \<subseteq> V l"
  shows "searchable G g l (Query_data v) E"
  using space_V [OF assms] finite_V [OF assms(2)] keys [OF assms(2)]
  by (auto simp: searchable_def intro: finite_subset inj_on_subset)

lemma reads_V:
  assumes "I g" "l \<le> el" "set E \<subseteq> V l" "\<And>n. n \<in> V l \<Longrightarrow> pol g n \<noteq> None"
  shows "reads_ok G pol g l (Query_data v) (\<lambda>n. n \<in> search_space G g l (Query_data v) E)"
proof -
  have "query_distance G g (Query_data v) n \<noteq> None \<and> g_neighbours G g n l \<noteq> None \<and> pol g n \<noteq> None"
    if "n \<in> search_space G g l (Query_data v) E" for n
  proof -
    have "n \<in> V l" using space_V [OF assms(1-3)] that by blast
    then show ?thesis using distance [OF assms(1,2)] neighbours [OF assms(1,2)] assms(4) by (simp add: query_distance_def)
  qed
  then show ?thesis by (simp add: reads_ok_def)
qed

text \<open>One layer search within the snapshot.\<close>

lemma search_V:
  assumes H: "std_queue H is_heap" and "I g" "l \<le> el" "set E \<subseteq> V l" "0 < ef" and pol: "\<And>n. n \<in> V l \<Longrightarrow> pol g n = Some (p n)"
    and q: "m_query L = Query_data v"
  obtains L' where "Layer_search H G pol g E l ef L = Some (Some L')" "m_query L' = Query_data v"
    "distinct (map (node_key G) (consume_result H L'))"
    "sorted_wrt (\<lambda>a b. dist v a \<le> dist v b) (consume_result H L')"
    "set (consume_result H L') \<subseteq> {n \<in> search_space G g l (Query_data v) E. p n}"
    "\<And>n. n \<in> set E \<Longrightarrow> p n \<Longrightarrow> consume_result H L' \<noteq> []"
    "card (search_space G g l (Query_data v) E) \<le> ef \<longrightarrow> (\<forall>n\<in>V l. p n) \<longrightarrow>
       set (consume_result H L') = search_space G g l (Query_data v) E"
proof -
  let ?S = "search_space G g l (Query_data v) E"
  note s = searchable_V [OF assms(2-4), of v] and sub = space_V [OF assms(2-4), of v]
  have d: "query_distance G g (Query_data v) n = Some (dist v n)" if "n \<in> V l" for n
    using distance [OF assms(2,3) that] by (simp add: query_distance_def)
  have s': "searchable G g l (m_query L) E" using s q by simp
  note dn = layer_queue.Layer_search_done [OF layer_queueI [OF H] searchableD(1) [OF s'] assms(5) searchableD(2) [OF s'], of pol]
  have "reads_ok G pol g l (m_query L) (reach G g l (query_keys G (m_query L)) E)"
    using reads_V [OF assms(2-4), of pol v] pol q by (simp add: search_space_def)
  with dn obtain L' where run: "Layer_search H G pol g E l ef L = Some (Some L')" by auto
  note o = Layer_search_out [OF H s' assms(5) run, unfolded q] and r = Layer_search_run [OF H s' assms(5) run]
  show thesis
  proof (rule that [OF run])
    show "m_query L' = Query_data v" using r(2) q by simp
    show "distinct (map (node_key G) (consume_result H L'))" by (rule o(1))
    have V: "set (consume_result H L') \<subseteq> V l" using o(4) sub by blast
    show "sorted_wrt (\<lambda>a b. dist v a \<le> dist v b) (consume_result H L')"
      using o(3) by (rule sorted_wrt_mono_rel [rotated]) (simp add: d subsetD [OF V])
    show "set (consume_result H L') \<subseteq> {n \<in> ?S. p n}" using o(4) V pol by fastforce
    show "consume_result H L' \<noteq> []" if n: "n \<in> set E" "p n" for n
    proof -
      have nV: "n \<in> V l" using n assms(4) by blast
      have "n \<in> ?S" using n by (auto simp: search_space_def query_keys_def intro: reach.entry)
      with o(5) [of n "dist v n"] n pol [OF nV] d [OF nV] assms(5) show ?thesis by auto
    qed
    show "card ?S \<le> ef \<longrightarrow> (\<forall>n\<in>V l. p n) \<longrightarrow> set (consume_result H L') = ?S"
    proof (intro impI, rule Layer_search_all [OF H s' assms(5) run, unfolded q])
      fix n assume "\<forall>n\<in>V l. p n" "n \<in> ?S"
      with sub d pol show "pol g n = Some True \<and> query_distance G g (Query_data v) n \<noteq> None" by auto
    qed
  qed
qed

text \<open>The steps of the descent.\<close>

lemma advance_V:
  assumes "I (fr_graph f)" "l < el" "set ns \<subseteq> V (Suc l)"
  shows "\<exists>g'. advance_to_next_level G (Suc l) ns f = Some (f\<lparr>fr_graph := g'\<rparr>, Some (map (lower (Suc l)) ns)) \<and> I g'"
  using assms
proof (induction ns arbitrary: f)
  case Nil
  then show ?case by (auto simp: gret_def intro!: exI [of _ "fr_graph f"])
next
  case (Cons n ns)
  obtain g' where g': "g_get_next_level_node G n (Suc l) (fr_graph f) = Some (g', Some (lower (Suc l) n))" "I g'"
    using next_level [OF Cons.prems(1,2), of n] Cons.prems(3) by auto
  obtain g'' where "advance_to_next_level G (Suc l) ns (f\<lparr>fr_graph := g'\<rparr>) = Some (f\<lparr>fr_graph := g''\<rparr>, Some (map (lower (Suc l)) ns))" "I g''"
    using Cons.IH [of "f\<lparr>fr_graph := g'\<rparr>"] g'(2) Cons.prems by auto
  with g' show ?case by (auto simp: gbind_def on_graph_def gret_def)
qed

lemma greedy_V:
  assumes H: "std_queue H is_heap"
  shows "I (fr_graph f) \<Longrightarrow> l \<le> el \<Longrightarrow> set E \<subseteq> V l \<Longrightarrow> E \<noteq> [] \<Longrightarrow> m_query L = Query_data v \<Longrightarrow>
    fr_levels f = Some \<lparr>ll_mode = m, ll_policy = Policy_Release, ll_stack = [l]\<rparr> \<Longrightarrow>
    \<exists>f' L' E'. greedy_descend H G L E l 0 f = Some (f', Some (L', E')) \<and> I (fr_graph f') \<and> set E' \<subseteq> V 0 \<and> E' \<noteq> []
      \<and> fr_levels f' = Some \<lparr>ll_mode = m, ll_policy = Policy_Release, ll_stack = [0]\<rparr>"
proof (induction l arbitrary: f L E)
  case 0
  then show ?case by (subst greedy_descend.simps) (auto simp: gret_def)
next
  case (Suc l)
  have ef: "0 < GREEDY_DESCENT_EF" by (simp add: GREEDY_DESCENT_EF_def)
  obtain L' where L': "Layer_search H G AlwaysVisiblePolicy (fr_graph f) E (Suc l) GREEDY_DESCENT_EF L = Some (Some L')" "m_query L' = Query_data v"
    "set (consume_result H L') \<subseteq> {n \<in> search_space G (fr_graph f) (Suc l) (Query_data v) E. True}"
    "\<And>n. n \<in> set E \<Longrightarrow> True \<Longrightarrow> consume_result H L' \<noteq> []"
    by (rule search_V [OF H Suc.prems(1,2,3) ef _ Suc.prems(5), of AlwaysVisiblePolicy "\<lambda>_. True"])
      (simp add: AlwaysVisiblePolicy_def, rule that)
  have W: "set (consume_result H L') \<subseteq> V (Suc l)" using L'(3) space_V [OF Suc.prems(1,2,3)] by blast
  have ne: "consume_result H L' \<noteq> []" using L'(4) [of "hd E"] Suc.prems(4) by simp
  obtain g' where g': "advance_to_next_level G (Suc l) (consume_result H L') f
      = Some (f\<lparr>fr_graph := g'\<rparr>, Some (map (lower (Suc l)) (consume_result H L')))" "I g'"
    using advance_V [OF Suc.prems(1) _ W] Suc.prems(2) by auto
  let ?f = "f\<lparr>fr_graph := g_unlock_level G (Suc l) m (g_lock_level G l m g'),
    fr_levels := Some \<lparr>ll_mode = m, ll_policy = Policy_Release, ll_stack = [l]\<rparr>\<rparr>"
  have d: "LockLevels_descend G (f\<lparr>fr_graph := g'\<rparr>) = Some (?f, Some l)"
    using Suc.prems(6) by (simp add: LockLevels_descend_def LockLevels_level_def)
  have "\<exists>f' L'' E'. greedy_descend H G (snd (consume_all H L')) (map (lower (Suc l)) (consume_result H L')) l 0 ?f = Some (f', Some (L'', E')) \<and> I (fr_graph f')
      \<and> set E' \<subseteq> V 0 \<and> E' \<noteq> [] \<and> fr_levels f' = Some \<lparr>ll_mode = m, ll_policy = Policy_Release, ll_stack = [0]\<rparr>"
  proof (rule Suc.IH)
    show "set (map (lower (Suc l)) (consume_result H L')) \<subseteq> V l" using W lower_V Suc.prems(2) by auto
  qed (use Suc.prems(2) g'(2) I_lock ne L'(2) in \<open>auto simp: consume_all_def\<close>)
  with L'(1) g'(1) d show ?case
    by (subst greedy_descend.simps)
      (simp add: gbind_def GraphOps_layer_search_def layer_step_def consume_all_def del: greedy_descend.simps)
qed

lemma connected_space:
  assumes "I g" "connected_level (V 0) (nbrs 0)" "set E \<subseteq> V 0" "E \<noteq> []"
  shows "search_space G g 0 (Query_data v) E = V 0"
proof (rule equalityI [OF space_V [OF assms(1) _ assms(3)]])
  obtain e where e: "e \<in> set E" "e \<in> V 0" using assms(3,4) by (cases E) auto
  have r: "reach G g 0 {} E n \<and> n \<in> V 0" if "(\<lambda>a b. b \<in> set (nbrs 0 a))\<^sup>*\<^sup>* e n" for n
    using that
  proof (induction rule: rtranclp_induct)
    case base
    show ?case using e by (auto intro: reach.entry)
  next
    case (step a b)
    then have a: "reach G g 0 {} E a" "a \<in> V 0" "b \<in> set (nbrs 0 a)" by auto
    have "reach G g 0 {} E b" by (rule reach.step [OF a(1) neighbours [OF assms(1) _ a(2)] a(3)]) simp_all
    moreover have "b \<in> V 0" using nbrs_V [of 0 a] a by blast
    ultimately show ?case ..
  qed
  show "V 0 \<subseteq> search_space G g 0 (Query_data v) E"
  proof
    fix n assume "n \<in> V 0"
    then have "(\<lambda>a b. b \<in> set (nbrs 0 a))\<^sup>*\<^sup>* e n" using assms(2) e(2) unfolding connected_level_def by blast
    from r [OF this] show "n \<in> search_space G g 0 (Query_data v) E" by (simp add: search_space_def query_keys_def)
  qed
qed simp

lemma take_nearest:
  assumes "sorted_wrt (\<lambda>a b. d a \<le> (d b :: 'd)) xs" "x \<in> set (take k xs)" "y \<in> set xs - set (take k xs)"
  shows "d x \<le> d y"
proof -
  have "y \<in> set (drop k xs)" using assms(3) by (metis DiffD1 DiffD2 Un_iff append_take_drop_id set_append)
  moreover have "sorted_wrt (\<lambda>a b. d a \<le> d b) (take k xs @ drop k xs)" using assms(1) by simp
  ultimately show ?thesis using assms(2) unfolding sorted_wrt_append by blast
qed

lemma knn_V:
  assumes H: "std_queue H is_heap" and g: "I g" and ef: "0 < ef"
  shows "\<exists>g' out. GraphOps_search_knn H G q k ef g = Some (g', Some out) \<and> I g' \<and> length out \<le> k
    \<and> distinct (map (node_key G) out) \<and> sorted_wrt (\<lambda>a b. dist q a \<le> dist q b) out \<and> set out \<subseteq> {n \<in> V 0. vis n}
    \<and> (eps = [] \<longrightarrow> out = [])
    \<and> (eps \<noteq> [] \<longrightarrow> connected_level (V 0) (nbrs 0) \<longrightarrow> (\<forall>n\<in>V 0. vis n) \<longrightarrow> card (V 0) \<le> ef \<longrightarrow>
         length out = min k (card (V 0)) \<and> (\<forall>x\<in>set out. \<forall>y\<in>V 0 - set out. dist q x \<le> dist q y))"
proof -
  obtain g1 l' where g1: "g_get_entry_point G 0 (g_lock_graph G Shared g) = Some (g1, Some (eps, l'))" "I g1" "eps \<noteq> [] \<longrightarrow> l' = el"
    using entry [OF I_lock(1) [OF g]] by blast
  show ?thesis
  proof (cases "eps = []")
    case True
    with g1 show ?thesis
      by (auto simp: GraphOps_search_knn_def with_graph_lock_def gbind_def on_graph_def gret_def intro: I_lock)
  next
    case False
    let ?f = "LockLevels_init G Shared el Policy_Release \<lparr>fr_graph = g1, fr_lock = Shared, fr_levels = None\<rparr>"
    obtain f L E where f: "greedy_descend H G (new_layer (Query_data q)) eps el 0 ?f = Some (f, Some (L, E))"
      "I (fr_graph f)" "set E \<subseteq> V 0" "E \<noteq> []" "fr_levels f = Some \<lparr>ll_mode = Shared, ll_policy = Policy_Release, ll_stack = [0]\<rparr>"
      using greedy_V [OF H, of ?f el eps "new_layer (Query_data q)" q Shared] g1(2) entry_V False I_lock
      by (auto simp: LockLevels_init_def)
    have pol: "\<And>n. n \<in> V 0 \<Longrightarrow> GraphVisiblePolicy G (fr_graph f) n = Some (vis n)"
      using visible [OF f(2)] by (simp add: GraphVisiblePolicy_def)
    obtain L' where L': "Layer_search H G (GraphVisiblePolicy G) (fr_graph f) E 0 ef (new_layer (Query_data q)) = Some (Some L')"
      "distinct (map (node_key G) (consume_result H L'))" "sorted_wrt (\<lambda>a b. dist q a \<le> dist q b) (consume_result H L')"
      "set (consume_result H L') \<subseteq> {n \<in> search_space G (fr_graph f) 0 (Query_data q) E. vis n}"
      "card (search_space G (fr_graph f) 0 (Query_data q) E) \<le> ef \<longrightarrow> (\<forall>n\<in>V 0. vis n) \<longrightarrow>
         set (consume_result H L') = search_space G (fr_graph f) 0 (Query_data q) E"
      by (rule search_V [of H is_heap "fr_graph f" 0 E ef "GraphVisiblePolicy G" vis "new_layer (Query_data q)" q, OF H f(2) _ f(3) ef pol])
        (simp, assumption, simp, rule that)
    let ?out = "consume_result H L'"
    obtain g' where run: "GraphOps_search_knn H G q k ef g = Some (g', Some (take k ?out))" "I g'"
      using g1 f(1,2,5) L'(1) False
      by (auto simp: GraphOps_search_knn_def with_graph_lock_def gbind_def on_graph_def gret_def with_levels_def
          GraphOps_layer_search_def layer_step_def consume_simple_def LockLevels_destroy_def intro: I_lock)
    have sub: "set ?out \<subseteq> {n \<in> V 0. vis n}" using L'(4) space_V [OF f(2) _ f(3)] by blast
    have exact: "length (take k ?out) = min k (card (V 0)) \<and> (\<forall>x\<in>set (take k ?out). \<forall>y\<in>V 0 - set (take k ?out). dist q x \<le> dist q y)"
      if "connected_level (V 0) (nbrs 0)" "\<forall>n\<in>V 0. vis n" "card (V 0) \<le> ef"
    proof -
      have all: "set ?out = V 0" using L'(5) connected_space [OF f(2) that(1) f(3,4), of q] that(2,3) by simp
      have "distinct ?out" using L'(2) by (simp add: distinct_map)
      with all have "length ?out = card (V 0)" by (metis distinct_card)
      then show ?thesis using take_nearest [OF L'(3)] all by (auto simp: min_def)
    qed
    have "distinct (map (node_key G) (take k ?out))" using L'(2) by (simp add: take_map [symmetric])
    moreover have "sorted_wrt (\<lambda>a b. dist q a \<le> dist q b) (take k ?out)" using L'(3) by (rule sorted_wrt_take)
    moreover have "set (take k ?out) \<subseteq> {n \<in> V 0. vis n}" using sub set_take_subset by fastforce
    ultimately show ?thesis using run exact False by auto
  qed
qed

end

subsection \<open>A small two-level graph\<close>

definition tower_graph :: "(unit, nat, nat, nat, nat) graph" where
  "tower_graph = layer_graph.extend ((line_graph path_adj {})\<lparr>g_neighbours := (\<lambda>g n l. Some (if l = 0 then path_adj n else []))\<rparr>)
     (graph.fields (\<lambda>m g. g) (\<lambda>m g. g) (\<lambda>l m g. g) (\<lambda>l m g. g)
       (\<lambda>l g. Some (g, Some ([4], 1))) (\<lambda>ns l g. Some (g, None)) (\<lambda>g. Some (g, Some 0)) (\<lambda>l g. Some (g, Some ()))
       (\<lambda>g. 2) (\<lambda>g. 2) (\<lambda>g l. 2) (\<lambda>p l v ns g. Some (g, None)) (\<lambda>p l n g. Some (g, None)) (\<lambda>n l b g. Some (g, None))
       (\<lambda>n l g. Some (g, Some n)) (\<lambda>n l g. Some (g, None)) (\<lambda>n l ns g. Some (g, None)) (\<lambda>n l g. Some (g, None)) (\<lambda>n l g. Some (g, None)))"

definition tower_levels :: "nat \<Rightarrow> nat set" where
  "tower_levels l = (if l = 0 then {0..4} else {4})"

definition tower_nbrs :: "nat \<Rightarrow> nat \<Rightarrow> nat list" where
  "tower_nbrs l n = (if l = 0 then path_adj n else [])"

definition line_distance :: "nat \<Rightarrow> nat \<Rightarrow> nat" where
  "line_distance a b = (if a \<le> b then b - a else a - b)"

interpretation tower: snapshot tower_graph "\<lambda>_. True" tower_levels tower_nbrs "\<lambda>l n. n" "[4]" 1 line_distance "\<lambda>_. True"
proof
  show "set (tower_nbrs l n) \<subseteq> tower_levels l" if "l \<le> 1" "n \<in> tower_levels l" for l n
    using that by (auto simp: tower_nbrs_def tower_levels_def path_adj_def split: if_splits)
qed (auto simp: tower_graph_def layer_graph.defs graph.defs tower_levels_def tower_nbrs_def line_graph_def line_distance_def split: if_splits)

lemma tower_connected: "connected_level (tower_levels 0) (tower_nbrs 0)"
proof -
  let ?R = "\<lambda>a b. b \<in> set (tower_nbrs 0 a)"
  have up: "?R n (Suc n)" and down: "?R (Suc n) n" if "n < 4" for n
    using that by (auto simp: tower_nbrs_def path_adj_def)
  have a: "?R\<^sup>*\<^sup>* 0 n" "?R\<^sup>*\<^sup>* n 0" if "n \<le> 4" for n
    using that
  proof (induction n)
    case (Suc n)
    { case 1 with Suc(1) up [of n] show ?case by (auto intro: rtranclp.rtrancl_into_rtrancl) }
    { case 2 with Suc(2) down [of n] show ?case by (auto intro: converse_rtranclp_into_rtranclp) }
  qed auto
  show ?thesis unfolding connected_level_def
  proof (intro ballI)
    fix e n assume "e \<in> tower_levels 0" "n \<in> tower_levels 0"
    then show "?R\<^sup>*\<^sup>* e n" using a by (intro rtranclp_trans [of ?R e 0 n]) (auto simp: tower_levels_def)
  qed
qed

subsection \<open>Properties of a query\<close>





end
