(* ===== verification/Hnsw_Ids.thy ===== *)
theory Hnsw_Ids
  imports Prelude
begin

text \<open>
  Identifiers and entries of the HNSW index (\<^verbatim>\<open>src/index/hnsw/hnsw.h\<close>) and the 6-byte
  big-endian form in which \<^verbatim>\<open>storage.cc\<close> keeps them in records. A node id is the reference of
  its record with a flag in bit 46, the lowest of the bits a column reference leaves free.
\<close>

subsection \<open>Identifiers\<close>

type_synonym nid = "64 word"
type_synonym vid = "64 word"

definition INVALID_ID :: "64 word" where "INVALID_ID = 0"
definition ID_STORAGE_SIZE :: nat where [layout_defs]: "ID_STORAGE_SIZE = 6"
definition INCOMING_BIT :: "64 word" where "INCOMING_BIT = push_bit 46 1"
definition COLUMN_REF_MASK :: "64 word" where "COLUMN_REF_MASK = INCOMING_BIT - 1"

definition is_valid :: "64 word \<Rightarrow> bool" where "is_valid i \<longleftrightarrow> i \<noteq> INVALID_ID"
definition nid_column_ref :: "nid \<Rightarrow> column_ref" where "nid_column_ref n = n AND COLUMN_REF_MASK"
definition is_incoming :: "nid \<Rightarrow> bool" where "is_incoming n \<longleftrightarrow> n AND INCOMING_BIT \<noteq> 0"
definition set_incoming :: "nid \<Rightarrow> nid" where "set_incoming n = n OR INCOMING_BIT"
definition clear_incoming :: "nid \<Rightarrow> nid" where "clear_incoming n = n AND NOT INCOMING_BIT"

record hnsw_node =
  nd_nid :: nid
  nd_vid :: vid

definition no_node :: hnsw_node where "no_node = \<lparr>nd_nid = INVALID_ID, nd_vid = INVALID_ID\<rparr>"

definition NODE_STORAGE_SIZE :: nat where [layout_defs]: "NODE_STORAGE_SIZE = ID_STORAGE_SIZE + ID_STORAGE_SIZE"

datatype store_kind = Kind_Neighbour | Kind_Overflow

subsection \<open>Entries\<close>

record neighbour_entry =
  ne_owner :: vid
  ne_lower_level :: nid
  ne_neighbours :: "hnsw_node list"
  ne_overflow :: nid

record overflow_entry =
  oe_incoming :: "nid list"
  oe_overflow :: nid

definition empty_neighbour_entry :: neighbour_entry where
  "empty_neighbour_entry = \<lparr>ne_owner = INVALID_ID, ne_lower_level = INVALID_ID, ne_neighbours = [], ne_overflow = INVALID_ID\<rparr>"

definition empty_overflow_entry :: overflow_entry where
  "empty_overflow_entry = \<lparr>oe_incoming = [], oe_overflow = INVALID_ID\<rparr>"

definition neighbour_storage_size :: "nat \<Rightarrow> bool \<Rightarrow> nat" where
  "neighbour_storage_size max_neighbours has_lower_level =
     ID_STORAGE_SIZE + (if has_lower_level then ID_STORAGE_SIZE else 0) + max_neighbours * NODE_STORAGE_SIZE + ID_STORAGE_SIZE"

definition overflow_storage_size :: "nat \<Rightarrow> nat" where
  "overflow_storage_size capacity = capacity * ID_STORAGE_SIZE + ID_STORAGE_SIZE"

text \<open>Field masks: the bits of \<^verbatim>\<open>NodeField\<close> and \<^verbatim>\<open>OverflowField\<close>.\<close>

type_synonym field_mask = "32 word"

definition Field_Owner :: field_mask where "Field_Owner = push_bit 0 1"
definition Field_LowerLevel :: field_mask where "Field_LowerLevel = push_bit 1 1"
definition Field_Neighbours :: field_mask where "Field_Neighbours = push_bit 2 1"
definition Field_Overflow :: field_mask where "Field_Overflow = push_bit 3 1"
definition FieldAll :: field_mask where "FieldAll = Field_Owner OR Field_LowerLevel OR Field_Neighbours OR Field_Overflow"

definition OverflowField_Incoming :: field_mask where "OverflowField_Incoming = push_bit 0 1"
definition OverflowField_Overflow :: field_mask where "OverflowField_Overflow = push_bit 1 1"
definition OverflowFieldAll :: field_mask where "OverflowFieldAll = OverflowField_Incoming OR OverflowField_Overflow"

definition has_field :: "field_mask \<Rightarrow> field_mask \<Rightarrow> bool" where "has_field fm field \<longleftrightarrow> fm AND field \<noteq> 0"

lemmas field_defs = Field_Owner_def Field_LowerLevel_def Field_Neighbours_def Field_Overflow_def FieldAll_def
  OverflowField_Incoming_def OverflowField_Overflow_def OverflowFieldAll_def has_field_def

datatype incoming_filter = Filter_All | Filter_ExcludeIncoming

subsection \<open>Bytes\<close>

definition write_id48_be :: "64 word \<Rightarrow> byte list" where
  "write_id48_be v = map (\<lambda>i. ucast (drop_bit (i * 8) v AND 0xff)) [5, 4, 3, 2, 1, 0]"

definition read_id48_be :: "byte list \<Rightarrow> 64 word" where
  "read_id48_be bs = foldl (\<lambda>v b. push_bit 8 v OR ucast b) 0 (take 6 bs)"

definition write_u64_be :: "64 word \<Rightarrow> byte list" where
  "write_u64_be v = map (\<lambda>i. ucast (drop_bit (i * 8) v AND 0xff)) [7, 6, 5, 4, 3, 2, 1, 0]"

definition read_u64_be :: "byte list \<Rightarrow> 64 word" where
  "read_u64_be bs = foldl (\<lambda>v b. push_bit 8 v OR ucast b) 0 (take 8 bs)"

subsection \<open>Facts\<close>

lemma length_write [simp]: "length (write_id48_be v) = 6" "length (write_u64_be v) = 8"
  by (simp_all add: write_id48_be_def write_u64_be_def)

text \<open>Both directions are the big-endian codec of the prelude.\<close>

lemma ucast_of_nat_unat: "ucast w = word_of_nat (unat w)"
  by (rule bit_word_eqI) (simp add: bit_simps)

lemma byte_of_word: "ucast (w AND 0xff :: 64 word) = (word_of_nat (unat w mod 256) :: byte)"
proof -
  have m: "(0xff :: 64 word) = mask 8" by (simp add: mask_eq_exp_minus_1)
  have "unat (w AND 0xff) = unat w mod 256"
    unfolding m take_bit_eq_mask [symmetric] unsigned_take_bit_eq by (simp add: take_bit_eq_mod)
  then show ?thesis unfolding ucast_of_nat_unat by (rule arg_cong)
qed

lemma unat_drop_byte: "unat (drop_bit (i * 8) (v :: 64 word)) = unat v div 256 ^ i"
proof -
  have "unat (drop_bit (i * 8) v) = unat v div 2 ^ (i * 8)" unfolding unat_drop_bit_eq by (rule drop_bit_eq_div)
  also have "(2 :: nat) ^ (i * 8) = 256 ^ i" using power_mult [of "2 :: nat" 8 i] by (simp add: mult.commute)
  finally show ?thesis .
qed

lemma be_bytes_map: "be_bytes n v = map (\<lambda>i. word_of_nat (v div 256 ^ i mod 256)) (rev [0..<n])"
proof (induction n arbitrary: v)
  case (Suc n)
  have "rev [0..<Suc n] = map Suc (rev [0..<n]) @ [0]"
    by (simp flip: rev_map add: map_Suc_upt upt_conv_Cons del: upt_Suc)
  then show ?case using Suc by (simp add: div_mult2_eq [symmetric] comp_def)
qed simp

lemma write_bytes: "write_id48_be v = be_bytes 6 (unat v)" "write_u64_be v = be_bytes 8 (unat v)"
proof -
  have r: "rev [0..<6] = [5, 4, 3, 2, 1, 0 :: nat]" "rev [0..<8] = [7, 6, 5, 4, 3, 2, 1, 0 :: nat]"
    by (simp_all add: upt_rec)
  show "write_id48_be v = be_bytes 6 (unat v)" "write_u64_be v = be_bytes 8 (unat v)"
    unfolding write_id48_be_def write_u64_be_def byte_of_word unat_drop_byte be_bytes_map r by (rule refl)+
qed

lemma or_byte: "push_bit 8 (w :: 64 word) OR ucast (b :: byte) = w * 256 + ucast b"
proof -
  have "push_bit 8 w OR ucast b = push_bit 8 w + ucast b"
    by (rule disjunctive_add [symmetric]) (auto simp: bit_simps dest: bit_imp_le_length)
  then show ?thesis by (simp add: push_bit_eq_mult)
qed

lemma foldl_be: "foldl (\<lambda>v b. push_bit 8 v OR ucast b) 0 bs = (word_of_nat (be_value bs) :: 64 word)"
  by (induction bs rule: rev_induct) (simp_all add: or_byte)

lemma read_write_id48 [simp]: "read_id48_be (write_id48_be v) = word_of_nat (unat v mod 2 ^ 48)"
  by (simp add: read_id48_be_def foldl_be write_bytes be_value_bytes)

lemma read_write_u64 [simp]: "read_u64_be (write_u64_be v) = v"
  by (simp add: read_u64_be_def foldl_be write_bytes be_value_bytes)

text \<open>The flag is bit 46.\<close>

lemma bit_INCOMING: "bit INCOMING_BIT n \<longleftrightarrow> n = 46"
  unfolding INCOMING_BIT_def bit_push_bit_iff bit_1_iff by auto

lemma INCOMING_mask: "COLUMN_REF_MASK = mask 46"
  by (simp add: COLUMN_REF_MASK_def INCOMING_BIT_def mask_eq_exp_minus_1 push_bit_eq_mult)

lemma is_incoming_bit: "is_incoming n \<longleftrightarrow> bit n 46"
proof -
  have "n AND INCOMING_BIT = 0 \<longleftrightarrow> \<not> bit n 46"
    by (auto simp: bit_eq_iff [of _ 0] bit_and_iff bit_INCOMING dest: spec [where x = 46])
  then show ?thesis by (simp add: is_incoming_def)
qed

lemma incoming_flag [simp]:
  "is_incoming (set_incoming n)" "\<not> is_incoming (clear_incoming n)"
  "clear_incoming (set_incoming n) = clear_incoming n" "set_incoming (clear_incoming n) = set_incoming n"
  "clear_incoming (clear_incoming n) = clear_incoming n" "set_incoming (set_incoming n) = set_incoming n"
  "nid_column_ref (set_incoming n) = nid_column_ref n" "nid_column_ref (clear_incoming n) = nid_column_ref n"
proof -
  show "is_incoming (set_incoming n)" "\<not> is_incoming (clear_incoming n)"
    by (simp_all add: is_incoming_bit set_incoming_def clear_incoming_def bit_simps bit_INCOMING)
  show "clear_incoming (set_incoming n) = clear_incoming n" "set_incoming (clear_incoming n) = set_incoming n"
    "clear_incoming (clear_incoming n) = clear_incoming n" "set_incoming (set_incoming n) = set_incoming n"
    by (rule bit_word_eqI, auto simp: set_incoming_def clear_incoming_def bit_simps bit_INCOMING)+
  show "nid_column_ref (set_incoming n) = nid_column_ref n" "nid_column_ref (clear_incoming n) = nid_column_ref n"
    by (rule bit_word_eqI, auto simp: nid_column_ref_def INCOMING_mask set_incoming_def clear_incoming_def bit_simps bit_INCOMING)+
qed

lemma clear_incoming_id: "\<not> is_incoming n \<Longrightarrow> clear_incoming n = n"
  by (rule bit_word_eqI) (auto simp: is_incoming_bit clear_incoming_def bit_simps bit_INCOMING)

lemma set_incoming_valid [simp]: "is_valid (set_incoming n)"
  using incoming_flag(1) [of n] by (auto simp: is_valid_def INVALID_ID_def is_incoming_def)

text \<open>Ids that fit a record: 46 bits of reference and the flag.\<close>

definition id_fits :: "64 word \<Rightarrow> bool" where "id_fits i \<longleftrightarrow> unat i < 2 ^ 48"

lemma fits_bits: "unat (r :: 64 word) < 2 ^ k \<Longrightarrow> bit r n \<Longrightarrow> n < k"
proof -
  assume r: "unat r < 2 ^ k" and b: "bit r n"
  have "bit (unat r) n" using b by (simp add: bit_unsigned_iff bit_imp_le_length)
  moreover have "take_bit k (unat r) = unat r" using r by (simp add: take_bit_nat_eq_self_iff)
  ultimately have "bit (take_bit k (unat r)) n" by simp
  then show "n < k" by (simp add: bit_take_bit_iff)
qed

lemma fits_read_write [simp]: "id_fits i \<Longrightarrow> read_id48_be (write_id48_be i) = i"
  by (simp add: id_fits_def)

lemma column_ref_nid:
  assumes "unat r < 2 ^ 46"
  shows "\<not> is_incoming r" "nid_column_ref r = r" "clear_incoming r = r" "id_fits r" "id_fits (set_incoming r)"
proof -
  note b = fits_bits [OF assms]
  show n: "\<not> is_incoming r" using b [of 46] by (auto simp: is_incoming_bit)
  show "nid_column_ref r = r" by (rule bit_word_eqI) (auto simp: nid_column_ref_def INCOMING_mask bit_simps b)
  show "clear_incoming r = r" by (rule clear_incoming_id [OF n])
  show "id_fits r" using assms by (simp add: id_fits_def)
  have "take_bit 48 (set_incoming r) = set_incoming r"
    by (rule bit_word_eqI) (use b in \<open>fastforce simp: set_incoming_def bit_simps bit_INCOMING\<close>)
  then have "take_bit 48 (unat (set_incoming r)) = unat (set_incoming r)" by (metis unsigned_take_bit_eq)
  then show "id_fits (set_incoming r)" by (simp add: id_fits_def take_bit_nat_eq_self_iff)
qed

end
