(* ===== verification/Level_Store.thy ===== *)
theory Level_Store
  imports Store_Lifecycle Hnsw_Ids
begin

text \<open>
  The stores of one level of the index (\<^verbatim>\<open>LevelStore\<close> of \<^verbatim>\<open>src/index/hnsw/storage.h\<close>,
  \<^verbatim>\<open>storage.cc\<close>): neighbour entries and overflow entries are records of two column stores. A
  record is a sequence of 6-byte chunks, one per id; a partial update names the chunks it writes.
  The operations run in the storage monad of the column stores. Scratch buffers hold whatever an
  earlier call left in them, so the buffer an update formats its data in is an argument.
\<close>

subsection \<open>Layout\<close>

definition has_lower_level :: "nat \<Rightarrow> bool" where "has_lower_level level \<longleftrightarrow> level > 0"
definition lower_level :: "nat \<Rightarrow> nat" where "lower_level level = level - 1"

definition MAX_OVERFLOW_LEN :: nat where [layout_defs]: "MAX_OVERFLOW_LEN = 8"
definition CHUNK_SIZE :: nat where [layout_defs]: "CHUNK_SIZE = ID_STORAGE_SIZE"

definition target_neighbours :: "nat \<Rightarrow> nat \<Rightarrow> nat" where "target_neighbours level M = M"
definition max_neighbours :: "nat \<Rightarrow> nat \<Rightarrow> nat" where "max_neighbours level M = (if level = 0 then u32 (2 * M) else M)"
definition overflow_capacity :: "nat \<Rightarrow> nat \<Rightarrow> nat" where "overflow_capacity level M = min MAX_OVERFLOW_LEN M"

definition owner_chunk :: nat where "owner_chunk = 0"
definition lower_level_chunk :: nat where "lower_level_chunk = owner_chunk + 1"
definition neighbours_base_chunk :: "bool \<Rightarrow> nat" where
  "neighbours_base_chunk has_lower = lower_level_chunk + (if has_lower then 1 else 0)"
definition neighbour_nid_chunk :: "bool \<Rightarrow> nat \<Rightarrow> nat" where
  "neighbour_nid_chunk has_lower slot = u16 (neighbours_base_chunk has_lower + slot * 2)"
definition neighbour_vid_chunk :: "bool \<Rightarrow> nat \<Rightarrow> nat" where
  "neighbour_vid_chunk has_lower slot = u16 (neighbour_nid_chunk has_lower slot + 1)"
definition neighbour_overflow_chunk :: "bool \<Rightarrow> nat \<Rightarrow> nat" where
  "neighbour_overflow_chunk has_lower max_n = u16 (neighbours_base_chunk has_lower + u16 max_n * 2)"
definition incoming_chunk :: "nat \<Rightarrow> nat" where "incoming_chunk slot = slot"
definition overflow_chunk :: "nat \<Rightarrow> nat" where "overflow_chunk capacity = u16 capacity"

definition max_update_chunks :: "nat \<Rightarrow> nat" where
  "max_update_chunks M = neighbour_overflow_chunk False (max_neighbours 0 M) + 1"

record level_store =
  ls_level :: nat
  ls_store :: column_store
  ls_overflow :: column_store
  ls_num_neighbours :: nat

definition LevelStore_max_neighbours :: "level_store \<Rightarrow> nat" where
  "LevelStore_max_neighbours ls = max_neighbours (ls_level ls) (ls_num_neighbours ls)"

definition LevelStore_overflow_capacity :: "level_store \<Rightarrow> nat" where
  "LevelStore_overflow_capacity ls = overflow_capacity (ls_level ls) (ls_num_neighbours ls)"

subsection \<open>Insertion and removal\<close>

definition neighbour_bytes :: "level_store \<Rightarrow> neighbour_entry \<Rightarrow> byte list" where
  "neighbour_bytes ls entry =
     (let has_lower = has_lower_level (ls_level ls); ns = ne_neighbours entry in
      write_id48_be (ne_owner entry)
      @ (if has_lower then write_id48_be (ne_lower_level entry) else [])
      @ concat (map (\<lambda>i. if i < length ns then write_id48_be (nd_nid (ns ! i)) @ write_id48_be (nd_vid (ns ! i))
                         else write_id48_be INVALID_ID @ write_id48_be INVALID_ID) [0..<LevelStore_max_neighbours ls])
      @ write_id48_be (ne_overflow entry))"

definition overflow_bytes :: "level_store \<Rightarrow> overflow_entry \<Rightarrow> byte list" where
  "overflow_bytes ls entry =
     (let ns = oe_incoming entry in
      concat (map (\<lambda>i. write_id48_be (if i < length ns then ns ! i else INVALID_ID)) [0..<LevelStore_overflow_capacity ls])
      @ write_id48_be (oe_overflow entry))"

definition LevelStore_insert :: "'p page_api \<Rightarrow> level_store \<Rightarrow> nat \<Rightarrow> trx_ref \<Rightarrow> neighbour_entry \<Rightarrow> ('p, nid) op" where
  "LevelStore_insert P ls concurrency trx entry = ColumnStore_insert P (ls_store ls) concurrency trx (Some (neighbour_bytes ls entry))"

definition LevelStore_insert_overflow :: "'p page_api \<Rightarrow> level_store \<Rightarrow> nat \<Rightarrow> trx_ref \<Rightarrow> overflow_entry \<Rightarrow> ('p, nid) op" where
  "LevelStore_insert_overflow P ls concurrency trx entry =
     ColumnStore_insert P (ls_overflow ls) concurrency trx (Some (overflow_bytes ls entry))"

definition LevelStore_remove :: "'p page_api \<Rightarrow> level_store \<Rightarrow> store_kind \<Rightarrow> nid \<Rightarrow> trx_ref \<Rightarrow> ('p, unit) op" where
  "LevelStore_remove P ls kind nid trx =
     ColumnStore_purge P (if kind = Kind_Neighbour then ls_store ls else ls_overflow ls) trx (nid_column_ref nid)"

definition LevelStore_mark_delete :: "'p page_api \<Rightarrow> level_store \<Rightarrow> nid \<Rightarrow> trx_ref \<Rightarrow> bool \<Rightarrow> ('p, unit) op" where
  "LevelStore_mark_delete P ls nid trx delete_mark = ColumnStore_mark_delete P (ls_store ls) trx (nid_column_ref nid) delete_mark"

subsection \<open>Partial update\<close>

text \<open>The chunks an update writes, in order: \<^verbatim>\<open>write_chunk\<close> calls as pairs of index and value.\<close>

type_synonym chunk_write = "nat \<times> 64 word"

definition neighbour_writes :: "level_store \<Rightarrow> neighbour_entry \<Rightarrow> field_mask \<Rightarrow> nat list \<Rightarrow> chunk_write list" where
  "neighbour_writes ls entry fm slots =
     (let has_lower = has_lower_level (ls_level ls) in
      (if has_field fm Field_Owner then [(owner_chunk, ne_owner entry)] else [])
      @ (if has_field fm Field_LowerLevel then [(lower_level_chunk, ne_lower_level entry)] else [])
      @ (if has_field fm Field_Neighbours
         then concat (map (\<lambda>(slot, n). [(neighbour_nid_chunk has_lower slot, nd_nid n), (neighbour_vid_chunk has_lower slot, nd_vid n)])
                (zip slots (ne_neighbours entry)))
         else [])
      @ (if has_field fm Field_Overflow then [(neighbour_overflow_chunk has_lower (LevelStore_max_neighbours ls), ne_overflow entry)] else []))"

definition overflow_writes :: "level_store \<Rightarrow> overflow_entry \<Rightarrow> field_mask \<Rightarrow> nat list \<Rightarrow> chunk_write list" where
  "overflow_writes ls entry fm slots =
     (if has_field fm OverflowField_Incoming then map (\<lambda>(slot, n). (incoming_chunk slot, n)) (zip slots (oe_incoming entry)) else [])
     @ (if has_field fm OverflowField_Overflow then [(overflow_chunk (LevelStore_overflow_capacity ls), oe_overflow entry)] else [])"

definition write_chunk :: "chunk_write \<Rightarrow> byte list \<Rightarrow> byte list" where
  "write_chunk w buf = take (fst w * CHUNK_SIZE) buf @ write_id48_be (snd w) @ drop (fst w * CHUNK_SIZE + CHUNK_SIZE) buf"

definition LevelStore_update ::
    "'p page_api \<Rightarrow> level_store \<Rightarrow> byte list \<Rightarrow> nid \<Rightarrow> neighbour_entry \<Rightarrow> field_mask \<Rightarrow> nat list \<Rightarrow> ('p, unit) op" where
  "LevelStore_update P ls buffer nid entry fm slots =
     (let overflow_idx = neighbour_overflow_chunk (has_lower_level (ls_level ls)) (LevelStore_max_neighbours ls);
          len = (overflow_idx + 1) * CHUNK_SIZE;
          writes = neighbour_writes ls entry fm slots in
      ColumnStore_update P (ls_store ls) (nid_column_ref nid) (Some (take len (fold write_chunk writes buffer)))
        (map fst writes) CHUNK_SIZE)"

definition LevelStore_update_overflow ::
    "'p page_api \<Rightarrow> level_store \<Rightarrow> byte list \<Rightarrow> nid \<Rightarrow> overflow_entry \<Rightarrow> field_mask \<Rightarrow> nat list \<Rightarrow> ('p, unit) op" where
  "LevelStore_update_overflow P ls buffer nid entry fm slots =
     (let overflow_idx = overflow_chunk (LevelStore_overflow_capacity ls);
          len = (overflow_idx + 1) * CHUNK_SIZE;
          writes = overflow_writes ls entry fm slots in
      ColumnStore_update P (ls_overflow ls) (nid_column_ref nid) (Some (take len (fold write_chunk writes buffer)))
        (map fst writes) CHUNK_SIZE)"

subsection \<open>Fetch\<close>

definition read_chunk :: "byte list \<Rightarrow> nat \<Rightarrow> 64 word" where
  "read_chunk bs idx = read_id48_be (drop (idx * CHUNK_SIZE) bs)"

definition included :: "incoming_filter \<Rightarrow> nid \<Rightarrow> bool" where
  "included filt n \<longleftrightarrow> is_valid n \<and> \<not> (filt = Filter_ExcludeIncoming \<and> is_incoming n)"

text \<open>
  The decoded fields on top of those of the entry passed in. The span of neighbours keeps its length when the read is for an
  update and is cut to what was decoded otherwise. The number of valid neighbours is \<open>None\<close> when the call leaves it alone.
\<close>

definition decode_neighbours :: "level_store \<Rightarrow> byte list \<Rightarrow> nat list option \<Rightarrow> hnsw_node list" where
  "decode_neighbours ls bs slots =
     (let has_lower = has_lower_level (ls_level ls) in
      map (\<lambda>slot. \<lparr>nd_nid = read_chunk bs (neighbour_nid_chunk has_lower slot), nd_vid = read_chunk bs (neighbour_vid_chunk has_lower slot)\<rparr>)
        (case slots of Some ss \<Rightarrow> ss | None \<Rightarrow> [0..<LevelStore_max_neighbours ls]))"

definition decode_neighbour_entry ::
    "level_store \<Rightarrow> bool \<Rightarrow> neighbour_entry \<Rightarrow> field_mask \<Rightarrow> incoming_filter \<Rightarrow> nat list option \<Rightarrow> byte list \<Rightarrow>
     neighbour_entry \<times> nat option" where
  "decode_neighbour_entry ls for_update entry fm filt slots bs =
     (let has_lower = has_lower_level (ls_level ls);
          nodes = decode_neighbours ls bs slots;
          valid = filter (\<lambda>n. included filt (nd_nid n)) nodes in
      (entry\<lparr>ne_owner := if has_field fm Field_Owner then read_chunk bs owner_chunk else ne_owner entry,
        ne_lower_level := if has_field fm Field_LowerLevel \<and> has_lower then read_chunk bs lower_level_chunk else ne_lower_level entry,
        ne_neighbours := if has_field fm Field_Neighbours
          then (if for_update then nodes @ drop (length nodes) (ne_neighbours entry) else valid) else ne_neighbours entry,
        ne_overflow := if has_field fm Field_Overflow
          then read_chunk bs (neighbour_overflow_chunk has_lower (LevelStore_max_neighbours ls)) else ne_overflow entry\<rparr>,
       if has_field fm Field_Neighbours then Some (length valid) else None))"

definition LevelStore_fetch ::
    "'p page_api \<Rightarrow> level_store \<Rightarrow> nid \<Rightarrow> bool \<Rightarrow> neighbour_entry \<Rightarrow> field_mask \<Rightarrow> incoming_filter \<Rightarrow> nat list option \<Rightarrow>
     ('p, neighbour_entry \<times> nat option) op" where
  "LevelStore_fetch P ls nid for_update entry fm filt slots =
     bind_op (ColumnStore_fetch P (ls_store ls) (nid_column_ref nid) for_update) (\<lambda>(col_data, trx, delete_marked).
     ret (decode_neighbour_entry ls for_update entry fm filt slots col_data))"

definition decode_overflow_entry ::
    "level_store \<Rightarrow> bool \<Rightarrow> overflow_entry \<Rightarrow> field_mask \<Rightarrow> nat list option \<Rightarrow> byte list \<Rightarrow> overflow_entry \<times> nat option" where
  "decode_overflow_entry ls for_update entry fm slots bs =
     (let ids = map (\<lambda>slot. read_chunk bs (incoming_chunk slot)) (case slots of Some ss \<Rightarrow> ss | None \<Rightarrow> [0..<LevelStore_overflow_capacity ls]);
          valid = filter is_valid ids in
      (entry\<lparr>oe_incoming := if has_field fm OverflowField_Incoming
          then (if for_update then ids @ drop (length ids) (oe_incoming entry) else valid) else oe_incoming entry,
        oe_overflow := if has_field fm OverflowField_Overflow then read_chunk bs (overflow_chunk (LevelStore_overflow_capacity ls)) else oe_overflow entry\<rparr>,
       if has_field fm OverflowField_Incoming then Some (length valid) else None))"

definition LevelStore_fetch_overflow ::
    "'p page_api \<Rightarrow> level_store \<Rightarrow> nid \<Rightarrow> bool \<Rightarrow> overflow_entry \<Rightarrow> field_mask \<Rightarrow> nat list option \<Rightarrow>
     ('p, overflow_entry \<times> nat option) op" where
  "LevelStore_fetch_overflow P ls nid for_update entry fm slots =
     bind_op (ColumnStore_fetch P (ls_overflow ls) (nid_column_ref nid) for_update) (\<lambda>(col_data, trx, delete_marked).
     ret (decode_overflow_entry ls for_update entry fm slots col_data))"

definition LevelStore_resolve_owner :: "'p page_api \<Rightarrow> level_store \<Rightarrow> nid \<Rightarrow> ('p, hnsw_node) op" where
  "LevelStore_resolve_owner P ls nid =
     bind_op (with_mtr (LevelStore_fetch P ls nid False empty_neighbour_entry Field_Owner Filter_ExcludeIncoming None)) (\<lambda>(entry, _).
     ret \<lparr>nd_nid = nid, nd_vid = ne_owner entry\<rparr>)"

end
