(* ===== verification/Level_Records.thy ===== *)
theory Level_Records
  imports Level_Store
begin

text \<open>
  What the stores of a level keep, read as entries. A record is a vector of ids; inserting an entry
  stores its vector, a partial update replaces the ids it names, and a fetch decodes the vector. The
  bytes, chunks and scratch buffers of \<^verbatim>\<open>Level_Store\<close> do not appear in these statements.
\<close>

subsection \<open>Records as vectors of ids\<close>

text \<open>A record keeps 48 bits of an id.\<close>

definition id48 :: "64 word \<Rightarrow> 64 word" where "id48 w = take_bit 48 w"

definition record_ids :: "byte list \<Rightarrow> 64 word list" where
  "record_ids bs = map (read_chunk bs) [0..<length bs div CHUNK_SIZE]"

definition put_ids :: "chunk_write list \<Rightarrow> 64 word list \<Rightarrow> 64 word list" where
  "put_ids writes ids = fold (\<lambda>(c, w) l. l[c := id48 w]) writes ids"

lemma id48_mod: "word_of_nat (unat w mod 2 ^ 48) = id48 w"
proof -
  have "unat w mod 2 ^ 48 = take_bit 48 (unat w)" by (simp only: take_bit_eq_mod)
  also have "\<dots> = unat (take_bit 48 w)" by (simp only: unsigned_take_bit_eq)
  finally have "unat w mod 2 ^ 48 = unat (take_bit 48 w)" .
  then show ?thesis by (simp only: id48_def of_nat_unat ucast_id)
qed

lemma id48_fits [simp]: "id_fits w \<Longrightarrow> id48 w = w"
  by (simp add: id_fits_def flip: id48_mod)

lemma read_write_id [simp]: "read_id48_be (write_id48_be w @ bs) = id48 w"
proof -
  have "read_id48_be (write_id48_be w @ bs) = read_id48_be (write_id48_be w)" by (simp add: read_id48_be_def)
  also have "\<dots> = id48 w" unfolding read_write_id48 by (rule id48_mod)
  finally show ?thesis .
qed

lemma length_record_ids [simp]: "length (record_ids bs) = length bs div CHUNK_SIZE"
  by (simp add: record_ids_def)

lemma nth_record_ids [simp]: "i < length bs div CHUNK_SIZE \<Longrightarrow> record_ids bs ! i = read_chunk bs i"
  by (simp add: record_ids_def)

lemma read_chunk_take: "read_chunk bs i = read_id48_be (take CHUNK_SIZE (drop (i * CHUNK_SIZE) bs))"
  by (simp add: read_chunk_def read_id48_be_def layout_defs)

lemma read_chunk_cong:
  "take CHUNK_SIZE (drop (i * CHUNK_SIZE) bs) = take CHUNK_SIZE (drop (i * CHUNK_SIZE) bs') \<Longrightarrow> read_chunk bs i = read_chunk bs' i"
  by (simp add: read_chunk_take)

lemma chunk_eqI:
  assumes "(i + 1) * CHUNK_SIZE \<le> length bs" "(i + 1) * CHUNK_SIZE \<le> length bs'"
    and "\<And>j. j div CHUNK_SIZE = i \<Longrightarrow> bs ! j = bs' ! j"
  shows "read_chunk bs i = read_chunk bs' i"
proof (rule read_chunk_cong, rule nth_equalityI)
  fix j assume j: "j < length (take CHUNK_SIZE (drop (i * CHUNK_SIZE) bs))"
  then have "(i * CHUNK_SIZE + j) div CHUNK_SIZE = i" by (simp add: layout_defs)
  from assms(3) [OF this] j assms(1,2)
  show "take CHUNK_SIZE (drop (i * CHUNK_SIZE) bs) ! j = take CHUNK_SIZE (drop (i * CHUNK_SIZE) bs') ! j"
    by (simp add: layout_defs)
qed (use assms(1,2) in \<open>simp add: layout_defs\<close>)

lemma length_ids_bytes [simp]: "length (concat (map write_id48_be ws)) = CHUNK_SIZE * length ws"
  by (induction ws) (simp_all add: layout_defs)

lemma read_chunk_ids: "i < length ws \<Longrightarrow> read_chunk (concat (map write_id48_be ws)) i = id48 (ws ! i)"
proof (induction ws arbitrary: i)
  case (Cons w ws)
  then show ?case by (cases i) (simp_all add: read_chunk_def layout_defs)
qed simp

lemma record_ids_bytes [simp]: "record_ids (concat (map write_id48_be ws)) = map id48 ws"
  by (rule nth_equalityI) (simp_all add: read_chunk_ids layout_defs)

lemma write_chunk_ids:
  assumes "(fst w + 1) * CHUNK_SIZE \<le> length buf"
  shows "length (write_chunk w buf) = length buf"
    and "(i + 1) * CHUNK_SIZE \<le> length buf \<Longrightarrow> read_chunk (write_chunk w buf) i = (if i = fst w then id48 (snd w) else read_chunk buf i)"
proof -
  show len: "length (write_chunk w buf) = length buf" using assms by (simp add: write_chunk_def layout_defs)
  assume i: "(i + 1) * CHUNK_SIZE \<le> length buf"
  show "read_chunk (write_chunk w buf) i = (if i = fst w then id48 (snd w) else read_chunk buf i)"
  proof (cases "i = fst w")
    case True
    then have "drop (i * CHUNK_SIZE) (write_chunk w buf) = write_id48_be (snd w) @ drop (fst w * CHUNK_SIZE + CHUNK_SIZE) buf"
      using assms by (simp add: write_chunk_def layout_defs)
    with True show ?thesis by (simp add: read_chunk_def)
  next
    case False
    have "read_chunk (write_chunk w buf) i = read_chunk buf i"
    proof (rule chunk_eqI)
      fix j assume "j div CHUNK_SIZE = i"
      with False have "j < fst w * CHUNK_SIZE \<or> (fst w + 1) * CHUNK_SIZE \<le> j"
        by (metis Suc_eq_plus1 Suc_leI div_less_iff_less_mult less_eq_div_iff_mult_less_eq linorder_neqE_nat zero_less_numeral
            CHUNK_SIZE_def ID_STORAGE_SIZE_def)
      with assms show "write_chunk w buf ! j = buf ! j"
        by (auto simp: write_chunk_def nth_append min_def layout_defs)
    qed (use i len in simp_all)
    with False show ?thesis by simp
  qed
qed

lemma fold_write_chunk:
  assumes "\<forall>w\<in>set writes. (fst w + 1) * CHUNK_SIZE \<le> length buf"
  shows "length (fold write_chunk writes buf) = length buf"
    and "(i + 1) * CHUNK_SIZE \<le> length buf \<Longrightarrow> read_chunk (fold write_chunk writes buf) i =
      (case map_of (rev writes) i of None \<Rightarrow> read_chunk buf i | Some v \<Rightarrow> id48 v)"
  using assms
proof (induction writes arbitrary: buf)
  case (Cons w writes)
  case 1
  with Cons.IH(1) [of "write_chunk w buf"] write_chunk_ids(1) [of w buf] show ?case by simp
next
  case (Cons w writes)
  case 2
  then have w: "(fst w + 1) * CHUNK_SIZE \<le> length buf" by simp
  show ?case
    using Cons.IH(2) [of "write_chunk w buf"] write_chunk_ids [OF w] 2
    by (auto simp: map_add_def split: option.splits)
qed simp_all

lemma put_ids_nth:
  "length (put_ids writes ids) = length ids"
  "i < length ids \<Longrightarrow> put_ids writes ids ! i = (case map_of (rev writes) i of None \<Rightarrow> ids ! i | Some v \<Rightarrow> id48 v)"
  by (induction writes arbitrary: ids) (auto simp: put_ids_def map_add_def nth_list_update split: option.splits)

text \<open>A partial update, through the buffer and the merge of the column store, replaces ids.\<close>

lemma update_ids:
  assumes k: "length old = k * CHUNK_SIZE" "k * CHUNK_SIZE \<le> length buf" and c: "\<forall>w\<in>set writes. fst w < k"
  shows "record_ids (merge_chunks CHUNK_SIZE (map fst writes) (take (k * CHUNK_SIZE) (fold write_chunk writes buf)) old)
    = put_ids writes (record_ids old)" (is "record_ids ?m = _")
proof (rule nth_equalityI)
  have pos: "0 < CHUNK_SIZE" by (simp add: layout_defs)
  show "length (record_ids ?m) = length (put_ids writes (record_ids old))" by (simp add: put_ids_nth)
  fix i assume "i < length (record_ids ?m)"
  then have i: "i < k" using k pos by simp
  then have le: "(i + 1) * CHUNK_SIZE \<le> k * CHUNK_SIZE" by (intro mult_right_mono) auto
  have w: "\<forall>w\<in>set writes. (fst w + 1) * CHUNK_SIZE \<le> length buf"
  proof
    fix w assume "w \<in> set writes"
    with c have "fst w + 1 \<le> k" by auto
    then have "(fst w + 1) * CHUNK_SIZE \<le> k * CHUNK_SIZE" by (rule mult_right_mono) simp
    with k(2) show "(fst w + 1) * CHUNK_SIZE \<le> length buf" by simp
  qed
  have small: "j < k * CHUNK_SIZE" if "j div CHUNK_SIZE = i" for j
    using that i pos by (metis div_less_iff_less_mult)
  have new: "read_chunk (take (k * CHUNK_SIZE) (fold write_chunk writes buf)) i = read_chunk (fold write_chunk writes buf) i"
    by (rule chunk_eqI) (use le k fold_write_chunk(1) [OF w] small in auto)
  have "read_chunk ?m i = (if i \<in> fst ` set writes then read_chunk (take (k * CHUNK_SIZE) (fold write_chunk writes buf)) i else read_chunk old i)"
  proof (cases "i \<in> fst ` set writes")
    case True
    have "read_chunk ?m i = read_chunk (take (k * CHUNK_SIZE) (fold write_chunk writes buf)) i"
      by (rule chunk_eqI) (use le k fold_write_chunk(1) [OF w] small True in \<open>auto simp: merge_chunks_def\<close>)
    with True show ?thesis by simp
  next
    case False
    have "read_chunk ?m i = read_chunk old i"
      by (rule chunk_eqI) (use le k small False in \<open>auto simp: merge_chunks_def\<close>)
    with False show ?thesis by simp
  qed
  also have "\<dots> = (case map_of (rev writes) i of None \<Rightarrow> read_chunk old i | Some v \<Rightarrow> id48 v)"
  proof (cases "map_of (rev writes) i")
    case None
    then have "i \<notin> fst ` set writes" by (simp add: map_of_eq_None_iff)
    with None show ?thesis by simp
  next
    case (Some v)
    then have "i \<in> fst ` set writes" by (force dest: map_of_SomeD)
    with Some new fold_write_chunk(2) [OF w, of i] le k(2) show ?thesis by simp
  qed
  finally show "record_ids ?m ! i = put_ids writes (record_ids old) ! i"
    using i k pos by (simp add: put_ids_nth split: option.split)
qed


subsection \<open>Entries as vectors of ids\<close>

text \<open>The entry with its neighbours padded to the number of slots, and the vector of an entry with as many neighbours.\<close>

definition pad_nodes :: "nat \<Rightarrow> hnsw_node list \<Rightarrow> hnsw_node list" where
  "pad_nodes n ns = map (\<lambda>i. if i < length ns then ns ! i else no_node) [0..<n]"

definition node_words :: "hnsw_node list \<Rightarrow> 64 word list" where
  "node_words ns = concat (map (\<lambda>n. [nd_nid n, nd_vid n]) ns)"

definition node_ids :: "level_store \<Rightarrow> neighbour_entry \<Rightarrow> 64 word list" where
  "node_ids ls e = (ne_owner e # (if has_lower_level (ls_level ls) then [ne_lower_level e] else [])) @ node_words (ne_neighbours e) @ [ne_overflow e]"

definition full_entry :: "level_store \<Rightarrow> neighbour_entry \<Rightarrow> bool" where
  "full_entry ls e \<longleftrightarrow> length (ne_neighbours e) = LevelStore_max_neighbours ls
     \<and> (\<not> has_lower_level (ls_level ls) \<longrightarrow> ne_lower_level e = INVALID_ID)"

lemma length_pad [simp]: "length (pad_nodes n ns) = n"
  by (simp add: pad_nodes_def)

lemma pad_nodes_append: "length ns \<le> n \<Longrightarrow> pad_nodes n ns = ns @ replicate (n - length ns) no_node"
  by (rule nth_equalityI) (auto simp: pad_nodes_def nth_append)

lemma length_node_words [simp]: "length (node_words ns) = 2 * length ns"
  by (induction ns) (simp_all add: node_words_def)

lemma node_words_nth:
  "i < length ns \<Longrightarrow> node_words ns ! (2 * i) = nd_nid (ns ! i)"
  "i < length ns \<Longrightarrow> node_words ns ! Suc (2 * i) = nd_vid (ns ! i)"
proof (induction ns arbitrary: i)
  case (Cons n ns)
  case 1 with Cons show ?case by (cases i) (simp_all add: node_words_def)
next
  case (Cons n ns)
  case 2 with Cons show ?case by (cases i) (simp_all add: node_words_def)
qed simp_all

lemma node_words_update:
  "i < length ns \<Longrightarrow> (node_words ns)[2 * i := nd_nid n, Suc (2 * i) := nd_vid n] = node_words (ns[i := n])"
proof (induction ns arbitrary: i)
  case (Cons m ns)
  then show ?case by (cases i) (simp_all add: node_words_def)
qed simp

lemma neighbour_bytes_ids:
  "neighbour_bytes ls e = concat (map write_id48_be (node_ids ls (e\<lparr>ne_neighbours := pad_nodes (LevelStore_max_neighbours ls) (ne_neighbours e)\<rparr>)))"
proof -
  have "concat (map (\<lambda>i. if i < length ns then write_id48_be (nd_nid (ns ! i)) @ write_id48_be (nd_vid (ns ! i))
          else write_id48_be INVALID_ID @ write_id48_be INVALID_ID) is)
      = concat (map write_id48_be (node_words (map (\<lambda>i. if i < length ns then ns ! i else no_node) is)))" for ns "is"
    by (induction "is") (simp_all add: node_words_def no_node_def)
  then show ?thesis by (simp add: neighbour_bytes_def node_ids_def pad_nodes_def Let_def)
qed

text \<open>The sizes of a level: \<open>M\<close> is within the bounds of the options and the stores have records of its layout.\<close>

definition level_sizes :: "level_store \<Rightarrow> bool" where
  "level_sizes ls \<longleftrightarrow> ls_num_neighbours ls \<le> 128
     \<and> m_column_size (m_root (ls_store ls)) = neighbour_storage_size (LevelStore_max_neighbours ls) (has_lower_level (ls_level ls))
     \<and> m_column_size (m_root (ls_overflow ls)) = overflow_storage_size (LevelStore_overflow_capacity ls)"

definition base_of :: "level_store \<Rightarrow> nat" where "base_of ls = (if has_lower_level (ls_level ls) then 2 else 1)"

lemma max_neighbours_bound: "level_sizes ls \<Longrightarrow> LevelStore_max_neighbours ls \<le> 256"
  by (simp add: level_sizes_def LevelStore_max_neighbours_def max_neighbours_def u32_def)

lemma chunk_indices:
  assumes "level_sizes ls"
  defines "hl \<equiv> has_lower_level (ls_level ls)"
  shows "slot < LevelStore_max_neighbours ls \<Longrightarrow> neighbour_nid_chunk hl slot = base_of ls + 2 * slot"
    and "slot < LevelStore_max_neighbours ls \<Longrightarrow> neighbour_vid_chunk hl slot = Suc (base_of ls + 2 * slot)"
    and "neighbour_overflow_chunk hl (LevelStore_max_neighbours ls) = base_of ls + 2 * LevelStore_max_neighbours ls"
    and "m_column_size (m_root (ls_store ls)) = (base_of ls + 2 * LevelStore_max_neighbours ls + 1) * CHUNK_SIZE"
proof -
  have b: "neighbours_base_chunk hl = base_of ls" by (simp add: neighbours_base_chunk_def lower_level_chunk_def owner_chunk_def base_of_def hl_def)
  have le: "base_of ls \<le> 2" by (simp add: base_of_def)
  note bd = max_neighbours_bound [OF assms(1)]
  show "slot < LevelStore_max_neighbours ls \<Longrightarrow> neighbour_nid_chunk hl slot = base_of ls + 2 * slot"
    "slot < LevelStore_max_neighbours ls \<Longrightarrow> neighbour_vid_chunk hl slot = Suc (base_of ls + 2 * slot)"
    "neighbour_overflow_chunk hl (LevelStore_max_neighbours ls) = base_of ls + 2 * LevelStore_max_neighbours ls"
    using b le bd by (simp_all add: neighbour_nid_chunk_def neighbour_vid_chunk_def neighbour_overflow_chunk_def u16_def)
  show "m_column_size (m_root (ls_store ls)) = (base_of ls + 2 * LevelStore_max_neighbours ls + 1) * CHUNK_SIZE"
    using assms(1) by (simp add: level_sizes_def neighbour_storage_size_def layout_defs base_of_def algebra_simps)
qed

lemma node_ids_nth:
  assumes "length (ne_neighbours e) = n" "i < n"
  shows "node_ids ls e ! 0 = ne_owner e" "has_lower_level (ls_level ls) \<Longrightarrow> node_ids ls e ! 1 = ne_lower_level e"
    "node_ids ls e ! (base_of ls + 2 * i) = nd_nid (ne_neighbours e ! i)"
    "node_ids ls e ! Suc (base_of ls + 2 * i) = nd_vid (ne_neighbours e ! i)"
  using assms node_words_nth [of i "ne_neighbours e"] by (auto simp: node_ids_def base_of_def nth_append nth_Cons')

lemma node_ids_last:
  "length (ne_neighbours e) = n \<Longrightarrow> node_ids ls e ! (base_of ls + 2 * n) = ne_overflow e"
  "length (node_ids ls e) = base_of ls + 2 * length (ne_neighbours e) + 1"
  by (auto simp: node_ids_def base_of_def nth_append)

text \<open>The entry a record holds: the result of reading all of it for an update.\<close>

definition entry_of :: "level_store \<Rightarrow> byte list \<Rightarrow> neighbour_entry" where
  "entry_of ls bs = fst (decode_neighbour_entry ls True empty_neighbour_entry FieldAll Filter_All None bs)"

lemma field_all [simp]:
  "has_field FieldAll Field_Owner" "has_field FieldAll Field_LowerLevel" "has_field FieldAll Field_Neighbours"
  "has_field FieldAll Field_Overflow" "has_field OverflowFieldAll OverflowField_Incoming" "has_field OverflowFieldAll OverflowField_Overflow"
  by (simp_all add: field_defs)

lemma entry_of_full: "full_entry ls (entry_of ls bs)"
  by (simp add: full_entry_def entry_of_def decode_neighbour_entry_def decode_neighbours_def Let_def empty_neighbour_entry_def)

lemma entry_of_ids:
  assumes ls: "level_sizes ls" and full: "full_entry ls e" and len: "length bs = m_column_size (m_root (ls_store ls))"
    and ids: "record_ids bs = node_ids ls e"
  shows "entry_of ls bs = e"
proof -
  let ?n = "LevelStore_max_neighbours ls"
  note c = chunk_indices [OF ls]
  have k: "length bs div CHUNK_SIZE = base_of ls + 2 * ?n + 1" using len c(4) by (simp add: layout_defs)
  have rd: "read_chunk bs i = node_ids ls e ! i" if "i < base_of ls + 2 * ?n + 1" for i
    using that nth_record_ids [of i bs] by (simp add: k ids)
  have n: "length (ne_neighbours e) = ?n" using full by (simp add: full_entry_def)
  have "decode_neighbours ls bs None = ne_neighbours e"
    by (rule nth_equalityI) (simp_all add: decode_neighbours_def Let_def n c rd node_ids_nth [OF n])
  then show ?thesis
    using full n
    by (cases e) (auto simp: entry_of_def decode_neighbour_entry_def Let_def owner_chunk_def lower_level_chunk_def rd c
        node_ids_last full_entry_def empty_neighbour_entry_def node_ids_def base_of_def nth_append)
qed

lemma entry_of_inverse:
  assumes ls: "level_sizes ls" and len: "length bs = m_column_size (m_root (ls_store ls))"
  shows "node_ids ls (entry_of ls bs) = record_ids bs"
proof (rule nth_equalityI)
  let ?n = "LevelStore_max_neighbours ls" and ?e = "entry_of ls bs"
  note c = chunk_indices [OF ls]
  have k: "length bs div CHUNK_SIZE = base_of ls + 2 * ?n + 1" using len c(4) by (simp add: layout_defs)
  have n: "length (ne_neighbours ?e) = ?n" using entry_of_full by (simp add: full_entry_def)
  show "length (node_ids ls ?e) = length (record_ids bs)" by (simp add: node_ids_last n k)
  fix i assume "i < length (node_ids ls ?e)"
  then have i: "i < base_of ls + 2 * ?n + 1" by (simp add: node_ids_last n)
  have nb: "ne_neighbours ?e = decode_neighbours ls bs None"
    by (simp add: entry_of_def decode_neighbour_entry_def Let_def empty_neighbour_entry_def)
  consider "i = 0" | "i = 1" "has_lower_level (ls_level ls)" | j where "i = base_of ls + 2 * j" "j < ?n"
    | j where "i = Suc (base_of ls + 2 * j)" "j < ?n" | "i = base_of ls + 2 * ?n"
  proof (cases "i < base_of ls")
    case True
    then show thesis using that(1,2) by (auto simp: base_of_def less_2_cases_iff split: if_splits)
  next
    case False
    then obtain j where "i = base_of ls + 2 * j \<or> i = Suc (base_of ls + 2 * j)"
      using that by (metis add_Suc_right evenE le_add_diff_inverse linorder_not_less oddE plus_1_eq_Suc add.commute)
    then show thesis using that(3-5) i by (cases "j < ?n") auto
  qed
  then show "node_ids ls ?e ! i = record_ids bs ! i"
  proof cases
    case 1
    then show ?thesis using i k by (simp add: node_ids_def entry_of_def decode_neighbour_entry_def Let_def owner_chunk_def)
  next
    case 2
    then show ?thesis using i k
      by (simp add: node_ids_def entry_of_def decode_neighbour_entry_def Let_def owner_chunk_def lower_level_chunk_def)
  next
    case (3 j)
    then show ?thesis using k by (simp add: node_ids_nth [OF n 3(2)]) (simp add: nb decode_neighbours_def Let_def c)
  next
    case (4 j)
    then show ?thesis using k by (simp add: node_ids_nth [OF n 4(2)]) (simp add: nb decode_neighbours_def Let_def c)
  next
    case 5
    then show ?thesis using k by (simp add: node_ids_last(1) [OF n]) (simp add: entry_of_def decode_neighbour_entry_def Let_def c)
  qed
qed

subsection \<open>Storing, patching and viewing entries\<close>

definition stored_entry :: "level_store \<Rightarrow> neighbour_entry \<Rightarrow> neighbour_entry" where
  "stored_entry ls e = \<lparr>ne_owner = id48 (ne_owner e), ne_lower_level = (if has_lower_level (ls_level ls) then id48 (ne_lower_level e) else INVALID_ID),
     ne_neighbours = map (\<lambda>n. \<lparr>nd_nid = id48 (nd_nid n), nd_vid = id48 (nd_vid n)\<rparr>) (pad_nodes (LevelStore_max_neighbours ls) (ne_neighbours e)),
     ne_overflow = id48 (ne_overflow e)\<rparr>"

definition put_nodes :: "(nat \<times> hnsw_node) list \<Rightarrow> hnsw_node list \<Rightarrow> hnsw_node list" where
  "put_nodes sns ns = fold (\<lambda>(slot, n) l. l[slot := \<lparr>nd_nid = id48 (nd_nid n), nd_vid = id48 (nd_vid n)\<rparr>]) sns ns"

definition patch_entry :: "neighbour_entry \<Rightarrow> field_mask \<Rightarrow> nat list \<Rightarrow> neighbour_entry \<Rightarrow> neighbour_entry" where
  "patch_entry e fm slots old = \<lparr>
     ne_owner = (if has_field fm Field_Owner then id48 (ne_owner e) else ne_owner old),
     ne_lower_level = (if has_field fm Field_LowerLevel then id48 (ne_lower_level e) else ne_lower_level old),
     ne_neighbours = (if has_field fm Field_Neighbours then put_nodes (zip slots (ne_neighbours e)) (ne_neighbours old) else ne_neighbours old),
     ne_overflow = (if has_field fm Field_Overflow then id48 (ne_overflow e) else ne_overflow old)\<rparr>"

definition view_entry ::
    "level_store \<Rightarrow> bool \<Rightarrow> neighbour_entry \<Rightarrow> field_mask \<Rightarrow> incoming_filter \<Rightarrow> nat list option \<Rightarrow> neighbour_entry \<Rightarrow> neighbour_entry \<times> nat option" where
  "view_entry ls for_update entry fm filt slots old =
     (let nodes = (case slots of None \<Rightarrow> ne_neighbours old | Some ss \<Rightarrow> map (nth (ne_neighbours old)) ss);
          valid = filter (\<lambda>n. included filt (nd_nid n)) nodes in
      (\<lparr>ne_owner = (if has_field fm Field_Owner then ne_owner old else ne_owner entry),
        ne_lower_level = (if has_field fm Field_LowerLevel \<and> has_lower_level (ls_level ls) then ne_lower_level old else ne_lower_level entry),
        ne_neighbours = (if has_field fm Field_Neighbours
          then (if for_update then nodes @ drop (length nodes) (ne_neighbours entry) else valid) else ne_neighbours entry),
        ne_overflow = (if has_field fm Field_Overflow then ne_overflow old else ne_overflow entry)\<rparr>,
       if has_field fm Field_Neighbours then Some (length valid) else None))"

lemma node_words_map:
  "map id48 (node_words ns) = node_words (map (\<lambda>n. \<lparr>nd_nid = id48 (nd_nid n), nd_vid = id48 (nd_vid n)\<rparr>) ns)"
  by (induction ns) (simp_all add: node_words_def)

lemma length_neighbour_bytes:
  "level_sizes ls \<Longrightarrow> length (neighbour_bytes ls e) = m_column_size (m_root (ls_store ls))"
  unfolding neighbour_bytes_ids chunk_indices(4) by (simp add: node_ids_last)

lemma entry_of_bytes:
  assumes ls: "level_sizes ls"
  shows "entry_of ls (neighbour_bytes ls e) = stored_entry ls e"
proof (rule entry_of_ids [OF ls _ length_neighbour_bytes [OF ls]])
  show "full_entry ls (stored_entry ls e)" by (simp add: full_entry_def stored_entry_def)
  show "record_ids (neighbour_bytes ls e) = node_ids ls (stored_entry ls e)"
    unfolding neighbour_bytes_ids record_ids_bytes by (simp add: node_ids_def stored_entry_def node_words_map)
qed

lemma decode_view:
  assumes "level_sizes ls" "\<forall>ss. slots = Some ss \<longrightarrow> (\<forall>slot\<in>set ss. slot < LevelStore_max_neighbours ls)"
  shows "decode_neighbour_entry ls for_update entry fm filt slots bs = view_entry ls for_update entry fm filt slots (entry_of ls bs)"
proof -
  have "decode_neighbours ls bs slots = (case slots of None \<Rightarrow> ne_neighbours (entry_of ls bs) | Some ss \<Rightarrow> map (nth (ne_neighbours (entry_of ls bs))) ss)"
    using assms(2)
    by (auto simp: entry_of_def decode_neighbour_entry_def decode_neighbours_def Let_def empty_neighbour_entry_def split: option.split)
  then show ?thesis
    by (cases entry) (simp add: view_entry_def decode_neighbour_entry_def Let_def, simp add: entry_of_def decode_neighbour_entry_def Let_def)
qed

lemma put_nodes_full [simp]: "length (put_nodes sns ns) = length ns"
  by (induction sns arbitrary: ns) (auto simp: put_nodes_def)

lemma put_ids_Nil [simp]: "put_ids [] ids = ids"
  by (simp add: put_ids_def)

lemma put_ids_Cons [simp]: "put_ids ((c, w) # ws) ids = put_ids ws (ids[c := id48 w])"
  by (simp add: put_ids_def)

lemma put_ids_append [simp]: "put_ids (ws @ ws') ids = put_ids ws' (put_ids ws ids)"
  by (simp add: put_ids_def)

lemma put_ids_nodes:
  assumes ls: "level_sizes ls" and n: "length (ne_neighbours e) = LevelStore_max_neighbours ls"
    and s: "\<forall>(slot, _)\<in>set sns. slot < LevelStore_max_neighbours ls"
  shows "put_ids (concat (map (\<lambda>(slot, n). [(neighbour_nid_chunk (has_lower_level (ls_level ls)) slot, nd_nid n),
      (neighbour_vid_chunk (has_lower_level (ls_level ls)) slot, nd_vid n)]) sns)) (node_ids ls e)
    = node_ids ls (e\<lparr>ne_neighbours := put_nodes sns (ne_neighbours e)\<rparr>)"
  using n s
proof (induction sns arbitrary: e)
  case (Cons sn sns)
  obtain slot n where sn: "sn = (slot, n)" by (cases sn)
  let ?m = "\<lparr>nd_nid = id48 (nd_nid n), nd_vid = id48 (nd_vid n)\<rparr>"
  have slot: "slot < LevelStore_max_neighbours ls" using Cons.prems(2) sn by simp
  have "(node_ids ls e)[base_of ls + 2 * slot := id48 (nd_nid n), Suc (base_of ls + 2 * slot) := id48 (nd_vid n)]
      = node_ids ls (e\<lparr>ne_neighbours := (ne_neighbours e)[slot := ?m]\<rparr>)"
    using node_words_update [of slot "ne_neighbours e" ?m] slot Cons.prems(1)
    by (auto simp: node_ids_def base_of_def list_update_append)
  with Cons.IH [of "e\<lparr>ne_neighbours := (ne_neighbours e)[slot := ?m]\<rparr>"] Cons.prems slot
  show ?case by (simp add: sn chunk_indices [OF ls] put_nodes_def)
qed (simp add: put_nodes_def)

lemma put_ids_patch:
  assumes ls: "level_sizes ls" and full: "full_entry ls old"
    and lower: "has_field fm Field_LowerLevel \<longrightarrow> has_lower_level (ls_level ls)"
    and s: "\<forall>slot\<in>set slots. slot < LevelStore_max_neighbours ls"
  shows "put_ids (neighbour_writes ls e fm slots) (node_ids ls old) = node_ids ls (patch_entry e fm slots old)"
proof -
  have n: "length (ne_neighbours old) = LevelStore_max_neighbours ls" using full by (simp add: full_entry_def)
  have o: "(node_ids ls f)[owner_chunk := w] = node_ids ls (f\<lparr>ne_owner := w\<rparr>)" for f w
    by (simp add: node_ids_def owner_chunk_def)
  have l: "(node_ids ls f)[lower_level_chunk := w] = node_ids ls (f\<lparr>ne_lower_level := w\<rparr>)" if "has_lower_level (ls_level ls)" for f w
    using that by (simp add: node_ids_def lower_level_chunk_def owner_chunk_def)
  have v: "(node_ids ls f)[base_of ls + 2 * LevelStore_max_neighbours ls := w] = node_ids ls (f\<lparr>ne_overflow := w\<rparr>)"
    if "length (ne_neighbours f) = LevelStore_max_neighbours ls" for f w
    using that by (simp add: node_ids_def base_of_def list_update_append)
  have z: "\<forall>(slot, _)\<in>set (zip slots (ne_neighbours e)). slot < LevelStore_max_neighbours ls"
    using s by (auto dest: set_zip_leftD)
  let ?e1 = "if has_field fm Field_Owner then old\<lparr>ne_owner := id48 (ne_owner e)\<rparr> else old"
  let ?e2 = "if has_field fm Field_LowerLevel then ?e1\<lparr>ne_lower_level := id48 (ne_lower_level e)\<rparr> else ?e1"
  let ?e3 = "if has_field fm Field_Neighbours then ?e2\<lparr>ne_neighbours := put_nodes (zip slots (ne_neighbours e)) (ne_neighbours old)\<rparr> else ?e2"
  have n2: "length (ne_neighbours ?e2) = LevelStore_max_neighbours ls" and n3: "length (ne_neighbours ?e3) = LevelStore_max_neighbours ls"
    using n by simp_all
  have "put_ids (if has_field fm Field_Owner then [(owner_chunk, ne_owner e)] else []) (node_ids ls old) = node_ids ls ?e1"
    "put_ids (if has_field fm Field_LowerLevel then [(lower_level_chunk, ne_lower_level e)] else []) (node_ids ls ?e1) = node_ids ls ?e2"
    using lower by (auto simp: o l)
  moreover have "put_ids (if has_field fm Field_Neighbours
         then concat (map (\<lambda>(slot, n). [(neighbour_nid_chunk (has_lower_level (ls_level ls)) slot, nd_nid n),
                (neighbour_vid_chunk (has_lower_level (ls_level ls)) slot, nd_vid n)]) (zip slots (ne_neighbours e)))
         else []) (node_ids ls ?e2) = node_ids ls ?e3"
    using put_ids_nodes [OF ls n2 z] by auto
  moreover have "put_ids (if has_field fm Field_Overflow then [(neighbour_overflow_chunk (has_lower_level (ls_level ls)) (LevelStore_max_neighbours ls), ne_overflow e)] else [])
      (node_ids ls ?e3) = node_ids ls (if has_field fm Field_Overflow then ?e3\<lparr>ne_overflow := id48 (ne_overflow e)\<rparr> else ?e3)"
    unfolding chunk_indices(3) [OF ls] using v [OF n3] by auto
  ultimately have "put_ids (neighbour_writes ls e fm slots) (node_ids ls old)
      = node_ids ls (if has_field fm Field_Overflow then ?e3\<lparr>ne_overflow := id48 (ne_overflow e)\<rparr> else ?e3)"
    unfolding neighbour_writes_def Let_def put_ids_append by (simp only:)
  also have "(if has_field fm Field_Overflow then ?e3\<lparr>ne_overflow := id48 (ne_overflow e)\<rparr> else ?e3) = patch_entry e fm slots old"
    by (cases old) (simp add: patch_entry_def)
  finally show ?thesis .
qed

subsection \<open>Overflow entries\<close>

definition overflow_words :: "level_store \<Rightarrow> overflow_entry \<Rightarrow> 64 word list" where
  "overflow_words ls e = map (\<lambda>i. if i < length (oe_incoming e) then oe_incoming e ! i else INVALID_ID) [0..<LevelStore_overflow_capacity ls] @ [oe_overflow e]"

text \<open>The entry an overflow record holds.\<close>

definition overflow_of :: "level_store \<Rightarrow> byte list \<Rightarrow> overflow_entry" where
  "overflow_of ls bs = fst (decode_overflow_entry ls True empty_overflow_entry OverflowFieldAll None bs)"

definition patch_overflow :: "overflow_entry \<Rightarrow> field_mask \<Rightarrow> nat list \<Rightarrow> overflow_entry \<Rightarrow> overflow_entry" where
  "patch_overflow e fm slots old = \<lparr>
     oe_incoming = (if has_field fm OverflowField_Incoming
       then fold (\<lambda>(slot, n) l. l[slot := id48 n]) (zip slots (oe_incoming e)) (oe_incoming old) else oe_incoming old),
     oe_overflow = (if has_field fm OverflowField_Overflow then id48 (oe_overflow e) else oe_overflow old)\<rparr>"

lemma overflow_capacity_bound: "LevelStore_overflow_capacity ls \<le> 8"
  by (simp add: LevelStore_overflow_capacity_def overflow_capacity_def layout_defs)

lemma overflow_size: "level_sizes ls \<Longrightarrow> m_column_size (m_root (ls_overflow ls)) = (LevelStore_overflow_capacity ls + 1) * CHUNK_SIZE"
  by (simp add: level_sizes_def overflow_storage_size_def layout_defs)

lemma overflow_chunk_capacity: "overflow_chunk (LevelStore_overflow_capacity ls) = LevelStore_overflow_capacity ls"
  using overflow_capacity_bound [of ls] by (simp add: overflow_chunk_def u16_def)

lemma overflow_bytes_words: "overflow_bytes ls e = concat (map write_id48_be (overflow_words ls e))"
  by (simp add: overflow_bytes_def overflow_words_def Let_def comp_def)

lemma overflow_of_ids:
  assumes "length bs = (LevelStore_overflow_capacity ls + 1) * CHUNK_SIZE"
  shows "overflow_of ls bs = \<lparr>oe_incoming = butlast (record_ids bs), oe_overflow = last (record_ids bs)\<rparr>"
proof -
  let ?n = "LevelStore_overflow_capacity ls"
  have len: "length (record_ids bs) = ?n + 1" using assms by (simp add: layout_defs)
  have rd: "read_chunk bs i = record_ids bs ! i" if "i < ?n + 1" for i using that assms by (simp add: layout_defs)
  have "map (\<lambda>slot. read_chunk bs (incoming_chunk slot)) [0..<?n] = butlast (record_ids bs)"
    by (rule nth_equalityI) (use len assms in \<open>simp_all add: incoming_chunk_def nth_butlast layout_defs\<close>)
  moreover have "read_chunk bs ?n = last (record_ids bs)"
  proof -
    have "record_ids bs \<noteq> []" using len by (metis add_eq_0_iff_both_eq_0 list.size(3) one_neq_zero)
    then have "last (record_ids bs) = record_ids bs ! ?n" using last_conv_nth [of "record_ids bs"] len by (metis diff_add_inverse2)
    with rd [of ?n] show ?thesis by simp
  qed
  ultimately show ?thesis
    by (simp add: overflow_of_def decode_overflow_entry_def Let_def overflow_chunk_capacity empty_overflow_entry_def)
qed

lemma put_ids_snoc:
  "\<forall>w\<in>set ws. fst w < length xs \<Longrightarrow> put_ids ws (xs @ [y]) = put_ids ws xs @ [y]"
  by (induction ws arbitrary: xs) (auto simp: put_ids_def list_update_append)

lemma overflow_patch:
  assumes "length bs = (LevelStore_overflow_capacity ls + 1) * CHUNK_SIZE" "length bs \<le> length buf"
    and s: "\<forall>slot\<in>set slots. slot < LevelStore_overflow_capacity ls"
  shows "overflow_of ls (merge_chunks CHUNK_SIZE (map fst (overflow_writes ls e fm slots))
      (take (length bs) (fold write_chunk (overflow_writes ls e fm slots) buf)) bs) = patch_overflow e fm slots (overflow_of ls bs)"
proof -
  let ?n = "LevelStore_overflow_capacity ls" and ?ws = "overflow_writes ls e fm slots"
  let ?in = "if has_field fm OverflowField_Incoming then zip slots (oe_incoming e) else []"
  have z: "\<forall>w\<in>set (zip slots (oe_incoming e)). fst w < ?n" using s by (auto dest: set_zip_leftD)
  have ws: "?ws = ?in @ (if has_field fm OverflowField_Overflow then [(?n, oe_overflow e)] else [])"
    by (simp add: overflow_writes_def overflow_chunk_capacity incoming_chunk_def)
  then have c: "\<forall>w\<in>set ?ws. fst w < ?n + 1" using z by (auto split: if_splits)
  obtain xs y where xy: "record_ids bs = xs @ [y]" "length xs = ?n"
  proof -
    have "length (record_ids bs) = ?n + 1" using assms(1) by (simp add: layout_defs)
    then show thesis using that by (cases "record_ids bs" rule: rev_cases) auto
  qed
  have "record_ids (merge_chunks CHUNK_SIZE (map fst ?ws) (take (length bs) (fold write_chunk ?ws buf)) bs) = put_ids ?ws (record_ids bs)"
    using update_ids [of bs "?n + 1" buf ?ws] assms c by simp
  also have "\<dots> = put_ids ?in xs @ [if has_field fm OverflowField_Overflow then id48 (oe_overflow e) else y]"
    using z xy by (simp add: ws put_ids_snoc put_ids_nth list_update_append)
  finally have "record_ids (merge_chunks CHUNK_SIZE (map fst ?ws) (take (length bs) (fold write_chunk ?ws buf)) bs)
      = put_ids ?in xs @ [if has_field fm OverflowField_Overflow then id48 (oe_overflow e) else y]" .
  then show ?thesis
    using assms(1) xy by (simp add: overflow_of_ids patch_overflow_def) (simp add: put_ids_def)
qed

subsection \<open>A level as a map of entries\<close>

text \<open>The location of the record an id names, whether or not the flag is set.\<close>

definition node_loc :: "nid \<Rightarrow> page_ref \<times> nat" where "node_loc n = DataPage_decode_column_ref (nid_column_ref n)"

definition node_ref :: "column_store \<Rightarrow> page_ref list \<Rightarrow> nid \<Rightarrow> bool" where
  "node_ref cs dl n \<longleftrightarrow> store_ref cs dl (nid_column_ref n)"

type_synonym level_nodes = "page_ref \<times> nat \<rightharpoonup> bool \<times> trx_ref \<times> neighbour_entry"

definition slot_node :: "level_store \<Rightarrow> slot_state \<Rightarrow> (bool \<times> trx_ref \<times> neighbour_entry) option" where
  "slot_node ls v = (case v of Free \<Rightarrow> None | Occupied d t bs \<Rightarrow> Some (d, t, entry_of ls bs))"

definition nodes_of :: "'p page_api \<Rightarrow> level_store \<Rightarrow> (page_ref \<Rightarrow> 'p option) \<Rightarrow> page_ref list \<Rightarrow> level_nodes" where
  "nodes_of P ls m dl a = slot_node ls (store_slots P (ls_store ls) m dl a)"

datatype level_cmd =
    Add_Node nat trx_ref neighbour_entry
  | Read_Node nid bool neighbour_entry field_mask incoming_filter "nat list option"
  | Write_Node "byte list" nid neighbour_entry field_mask "nat list"
  | Mark_Node trx_ref nid bool
  | Drop_Node trx_ref nid

datatype level_reply = Node_Id nid | Node_View "neighbour_entry \<times> nat option" | Node_Done | Node_Error store_error

definition reply_of :: "('a \<Rightarrow> level_reply) \<Rightarrow> ('p, 'a) op \<Rightarrow> 'p env \<Rightarrow> 'p env \<times> level_reply" where
  "reply_of f m s = (case m s of (s', r) \<Rightarrow> (s', case r of Inl e \<Rightarrow> Node_Error e | Inr x \<Rightarrow> f x))"

fun run_level :: "'p page_api \<Rightarrow> level_store \<Rightarrow> level_cmd \<Rightarrow> 'p env \<Rightarrow> 'p env \<times> level_reply" where
  "run_level P ls (Add_Node conc trx e) = reply_of Node_Id (LevelStore_insert P ls conc trx e)"
| "run_level P ls (Read_Node n u e fm filt slots) = reply_of Node_View (LevelStore_fetch P ls n u e fm filt slots)"
| "run_level P ls (Write_Node buf n e fm slots) = reply_of (\<lambda>_. Node_Done) (LevelStore_update P ls buf n e fm slots)"
| "run_level P ls (Mark_Node trx n b) = reply_of (\<lambda>_. Node_Done) (LevelStore_mark_delete P ls n trx b)"
| "run_level P ls (Drop_Node trx n) = reply_of (\<lambda>_. Node_Done) (LevelStore_remove P ls Kind_Neighbour n trx)"

text \<open>The obligations of a caller, as the assertions and comments of the code state them.\<close>

fun good_cmd :: "level_store \<Rightarrow> page_ref list \<Rightarrow> level_cmd \<Rightarrow> bool" where
  "good_cmd ls dl (Add_Node conc trx e) \<longleftrightarrow> True"
| "good_cmd ls dl (Read_Node n u e fm filt slots) \<longleftrightarrow> node_ref (ls_store ls) dl n
     \<and> (case slots of None \<Rightarrow> True | Some ss \<Rightarrow> \<forall>slot\<in>set ss. slot < LevelStore_max_neighbours ls)"
| "good_cmd ls dl (Write_Node buf n e fm slots) \<longleftrightarrow> node_ref (ls_store ls) dl n
     \<and> m_column_size (m_root (ls_store ls)) \<le> length buf \<and> neighbour_writes ls e fm slots \<noteq> []
     \<and> (has_field fm Field_LowerLevel \<longrightarrow> has_lower_level (ls_level ls))
     \<and> sorted_wrt (<) slots \<and> (\<forall>slot\<in>set slots. slot < LevelStore_max_neighbours ls)"
| "good_cmd ls dl (Mark_Node trx n b) \<longleftrightarrow> node_ref (ls_store ls) dl n"
| "good_cmd ls dl (Drop_Node trx n) \<longleftrightarrow> node_ref (ls_store ls) dl n"

definition dropped :: "trx_ref \<Rightarrow> page_ref \<times> nat \<Rightarrow> level_nodes \<Rightarrow> level_nodes" where
  "dropped trx a f = (case f a of Some (d, t, e) \<Rightarrow> if t = trx then f(a := None) else f | None \<Rightarrow> f)"

text \<open>
  The abstract level. \<open>fault\<close> says whether an API call may fail; without a fault only reading or writing
  a record that does not exist fails.
\<close>

inductive level_step :: "level_store \<Rightarrow> bool \<Rightarrow> level_nodes \<Rightarrow> level_cmd \<Rightarrow> level_reply \<Rightarrow> level_nodes \<Rightarrow> bool" for ls fault where
  add_node: "f (node_loc n) = None \<Longrightarrow> \<not> is_incoming n \<Longrightarrow>
    level_step ls fault f (Add_Node conc trx e) (Node_Id n) (f(node_loc n \<mapsto> (False, trx, stored_entry ls e)))"
| read_node: "f (node_loc n) = Some (d, t, old) \<Longrightarrow>
    level_step ls fault f (Read_Node n u e fm filt slots) (Node_View (view_entry ls u e fm filt slots old)) f"
| write_node: "f (node_loc n) = Some (d, t, old) \<Longrightarrow>
    level_step ls fault f (Write_Node buf n e fm slots) Node_Done (f(node_loc n \<mapsto> (d, t, patch_entry e fm slots old)))"
| mark_node: "level_step ls fault f (Mark_Node trx n b) Node_Done (f(node_loc n := map_option (\<lambda>(d, t, e). (b, trx, e)) (f (node_loc n))))"
| drop_node: "level_step ls fault f (Drop_Node trx n) Node_Done (dropped trx (node_loc n) f)"
| missing_node: "f (node_loc n) = None \<Longrightarrow> c = Read_Node n u e fm filt slots \<or> c = Write_Node buf n e fm ss \<Longrightarrow>
    level_step ls fault f c (Node_Error err) f"
| api_failure: "fault \<Longrightarrow> level_step ls fault f c (Node_Error err) f"
| late_failure: "fault \<Longrightarrow> level_step ls fault f (Drop_Node trx n) (Node_Error err) (dropped trx (node_loc n) f)"

inductive_cases spec_updateE: "spec_step n fault f (Update r data ids sz) rep f'"
inductive_cases spec_markE: "spec_step n fault f (Mark_delete trx r b) rep f'"
inductive_cases spec_purgeE: "spec_step n fault f (Purge trx r) rep f'"
inductive_cases spec_insE: "spec_step n fault f (Insert conc trx data) rep f'"
inductive_cases spec_fetE: "spec_step n fault f (Fetch r u) rep f'"

text \<open>A call of the column store outside a mini-transaction of its own.\<close>

lemma op_simulated:
  assumes sl: "store_layout P cs" and st: "store_state P cs dl s" and d4: "4 dvd m_max_num_recs (m_data cs)"
    and refs: "\<forall>r\<in>cmd_refs c. store_ref cs dl r" and c: "run_cmd P cs c = in_mtr f m" and run: "m s = (s', r)"
  obtains dl' where "store_state P cs dl' s'" "set dl \<subseteq> set dl'"
    "\<forall>x\<in>reply_refs (case r of Inl e \<Rightarrow> Failed e | Inr x \<Rightarrow> f x). store_ref cs dl' x"
    "spec_step (m_column_size (m_root cs)) (faults s \<noteq> [] \<or> fresh s = [])
       (store_slots P cs (pages s) dl) c (case r of Inl e \<Rightarrow> Failed e | Inr x \<Rightarrow> f x) (store_slots P cs (pages s') dl')"
proof -
  note sim = store_layout.run_cmd_simulated [OF sl st d4 refs]
  have "fst (run_cmd P cs c s) = s'\<lparr>latches := \<lambda>_. None\<rparr>" "snd (run_cmd P cs c s) = (case r of Inl e \<Rightarrow> Failed e | Inr x \<Rightarrow> f x)"
    by (simp_all add: c in_mtr_def run)
  with sim obtain fl' dl' where "store_inv P cs (pages s') fl' dl'" "set dl \<subseteq> set dl'"
    "\<forall>x\<in>reply_refs (case r of Inl e \<Rightarrow> Failed e | Inr x \<Rightarrow> f x). store_ref cs dl' x"
    "spec_step (m_column_size (m_root cs)) (faults s \<noteq> [] \<or> fresh s = [])
       (store_slots P cs (pages s) dl) c (case r of Inl e \<Rightarrow> Failed e | Inr x \<Rightarrow> f x) (store_slots P cs (pages s') dl')"
    "session_ok (m_primary_root_page_ref cs) (m_max_num_recs (m_data cs)) s'"
    unfolding simulated_def by (auto simp: session_ok_def fresh_ok_def)
  then show thesis by (intro that [of dl']) (auto simp: store_state_def)
qed

lemma node_loc_ref:
  assumes "store_layout P cs" "store_ref cs dl r"
  shows "unat r < 2 ^ 46" "nid_column_ref r = r" "\<not> is_incoming r" "node_loc r = DataPage_decode_column_ref r" "node_ref cs dl r"
proof -
  obtain x i where "i < m_max_num_recs (m_data cs)" "r = DataPage_encode_column_ref x i" using assms(2) by (auto simp: store_ref_def)
  with data_layout.max_num_recs_le [OF store_layout.axioms(2) [OF assms(1)]]
  have "drop_bit 46 r = 0" by (simp add: encode_column_ref_high)
  then have "unat (drop_bit 46 r) = 0" by simp
  moreover have "unat (drop_bit 46 r) = unat r div 2 ^ 46" unfolding unat_drop_bit_eq by (rule drop_bit_eq_div)
  ultimately show r: "unat r < 2 ^ 46" by (simp add: div_eq_0_iff)
  show "nid_column_ref r = r" "\<not> is_incoming r" "node_loc r = DataPage_decode_column_ref r" "node_ref cs dl r"
    using column_ref_nid [OF r] assms(2) by (simp_all add: node_loc_def node_ref_def)
qed

lemma nodes_upd: "nodes_of P ls m' dl' = (nodes_of P ls m dl)(a := slot_node ls v)"
  if "store_slots P (ls_store ls) m' dl' = (store_slots P (ls_store ls) m dl)(a := v)"
  using that by (auto simp: nodes_of_def fun_eq_iff)

lemma slot_node_simps [simp]: "slot_node ls Free = None" "slot_node ls (Occupied d t bs) = Some (d, t, entry_of ls bs)"
  "slot_node ls v = None \<longleftrightarrow> v = Free"
  by (auto simp: slot_node_def split: slot_state.splits)

text \<open>What the steps of the column store mean for the entries.\<close>

lemma level_steps:
  fixes f :: "page_ref \<times> nat \<Rightarrow> slot_state"
  assumes ls: "level_sizes ls"
  defines "k \<equiv> m_column_size (m_root (ls_store ls))" and "A \<equiv> \<lambda>f a. slot_node ls (f a)"
  shows "spec_step k fault f (Insert conc trx (Some (neighbour_bytes ls e))) (Stored n) f' \<Longrightarrow> nid_column_ref n = n \<Longrightarrow> \<not> is_incoming n \<Longrightarrow>
      level_step ls fault (A f) (Add_Node conc trx e) (Node_Id n) (A f')"
    and "spec_step k fault f (Fetch (nid_column_ref n) u) (Value bs t d) f' \<Longrightarrow> good_cmd ls dl (Read_Node n u e0 fm filt slots) \<Longrightarrow>
      level_step ls fault (A f) (Read_Node n u e0 fm filt slots) (Node_View (decode_neighbour_entry ls u e0 fm filt slots bs)) (A f')"
    and "spec_step k fault f (Mark_delete trx (nid_column_ref n) b) Done f' \<Longrightarrow> level_step ls fault (A f) (Mark_Node trx n b) Node_Done (A f')"
    and "spec_step k fault f (Purge trx (nid_column_ref n)) Done f' \<Longrightarrow> level_step ls fault (A f) (Drop_Node trx n) Node_Done (A f')"
proof -
  have upd: "A (f(a := v)) = (A f)(a := slot_node ls v)" for f a v by (simp add: A_def fun_eq_iff)
  have purged: "A (purged_slots trx a f) = dropped trx a (A f)" for f trx a
    by (auto simp: purged_slots_def dropped_def A_def split: slot_state.split)
  show "level_step ls fault (A f) (Add_Node conc trx e) (Node_Id n) (A f')"
    if "spec_step k fault f (Insert conc trx (Some (neighbour_bytes ls e))) (Stored n) f'" "nid_column_ref n = n" "\<not> is_incoming n"
  proof -
    from that(1) have "f (node_loc n) = Free" "f' = f(node_loc n := Occupied False trx (neighbour_bytes ls e))"
      by (auto elim!: spec_insE simp: node_loc_def that(2))
    with that(3) show ?thesis
      using level_step.add_node [of "A f" n ls fault conc trx e] by (simp add: upd entry_of_bytes [OF ls]) (simp add: A_def)
  qed
  show "level_step ls fault (A f) (Read_Node n u e0 fm filt slots) (Node_View (decode_neighbour_entry ls u e0 fm filt slots bs)) (A f')"
    if "spec_step k fault f (Fetch (nid_column_ref n) u) (Value bs t d) f'" "good_cmd ls dl (Read_Node n u e0 fm filt slots)"
  proof -
    have "f (node_loc n) = Occupied d t bs" "f' = f" using that(1) by (auto elim!: spec_fetE simp: node_loc_def)
    moreover have "decode_neighbour_entry ls u e0 fm filt slots bs = view_entry ls u e0 fm filt slots (entry_of ls bs)"
      by (rule decode_view [OF ls]) (use that(2) in auto)
    ultimately show ?thesis using level_step.read_node [of "A f" n d t "entry_of ls bs" ls fault u e0 fm filt slots] by (simp add: A_def)
  qed
  show "level_step ls fault (A f) (Mark_Node trx n b) Node_Done (A f')"
    if "spec_step k fault f (Mark_delete trx (nid_column_ref n) b) Done f'"
  proof -
    have f': "f' = f(node_loc n := marked_slot b trx (f (node_loc n)))" using that by (auto elim!: spec_markE simp: node_loc_def)
    have "slot_node ls (marked_slot b trx v) = map_option (\<lambda>(d, t, e). (b, trx, e)) (slot_node ls v)" for v
      by (cases v) (simp_all add: marked_slot_def)
    with f' show ?thesis using level_step.mark_node [of ls fault "A f" trx n b] by (simp add: upd) (simp add: A_def)
  qed
  show "level_step ls fault (A f) (Drop_Node trx n) Node_Done (A f')" if "spec_step k fault f (Purge trx (nid_column_ref n)) Done f'"
    using that level_step.drop_node [of ls fault "A f" trx n] by (auto elim!: spec_purgeE simp: purged node_loc_def)
qed

lemma store_slots_length:
  "store_layout P cs \<Longrightarrow> store_slots P cs m dl a = Occupied d t bs \<Longrightarrow> length bs = m_column_size (m_root cs)"
  using store_layout.rec_size_col [of P cs]
  by (cases a) (auto simp: store_slots_def slot_at_def Let_def split_beta split: if_splits)

text \<open>The chunks a write names are in increasing order and within the record.\<close>

lemma pair_chunks:
  assumes ls: "level_sizes ls" and "sorted_wrt (<) slots" "\<forall>slot\<in>set slots. slot < LevelStore_max_neighbours ls"
  defines "cs \<equiv> \<lambda>slot. [neighbour_nid_chunk (has_lower_level (ls_level ls)) slot, neighbour_vid_chunk (has_lower_level (ls_level ls)) slot]"
  shows "sorted_wrt (<) (concat (map cs slots))"
    and "\<forall>c\<in>set (concat (map cs slots)). base_of ls \<le> c \<and> c < base_of ls + 2 * LevelStore_max_neighbours ls"
  using assms(2,3) by (induction slots) (auto simp: cs_def chunk_indices [OF ls] sorted_wrt_append)

lemma writes_chunks:
  assumes ls: "level_sizes ls" and "sorted_wrt (<) slots" "\<forall>slot\<in>set slots. slot < LevelStore_max_neighbours ls"
    and lower: "has_field fm Field_LowerLevel \<longrightarrow> has_lower_level (ls_level ls)"
  shows "sorted_wrt (<) (map fst (neighbour_writes ls e fm slots))"
    and "\<forall>w\<in>set (neighbour_writes ls e fm slots). fst w < base_of ls + 2 * LevelStore_max_neighbours ls + 1"
proof -
  let ?ss = "take (length (ne_neighbours e)) slots"
  let ?cs = "concat (map (\<lambda>slot. [neighbour_nid_chunk (has_lower_level (ls_level ls)) slot, neighbour_vid_chunk (has_lower_level (ls_level ls)) slot]) ?ss)"
  have z: "map fst (concat (map (\<lambda>(slot, n). [(neighbour_nid_chunk hl slot, nd_nid n), (neighbour_vid_chunk hl slot, nd_vid n)]) (zip ss ns)))
      = concat (map (\<lambda>slot. [neighbour_nid_chunk hl slot, neighbour_vid_chunk hl slot]) (take (length ns) ss))" for hl ss ns
  proof (induction ss arbitrary: ns)
    case (Cons a ss)
    then show ?case by (cases ns) simp_all
  qed simp
  have ss: "sorted_wrt (<) ?ss" "\<forall>slot\<in>set ?ss. slot < LevelStore_max_neighbours ls"
    using assms(2,3) by (auto simp: sorted_wrt_take dest: in_set_takeD)
  note pc = pair_chunks [OF ls ss]
  have m: "map fst (neighbour_writes ls e fm slots) =
      (if has_field fm Field_Owner then [owner_chunk] else []) @ (if has_field fm Field_LowerLevel then [lower_level_chunk] else [])
      @ (if has_field fm Field_Neighbours then ?cs else [])
      @ (if has_field fm Field_Overflow then [base_of ls + 2 * LevelStore_max_neighbours ls] else [])"
    by (simp add: neighbour_writes_def Let_def z chunk_indices [OF ls])
  have o: "owner_chunk = 0" "lower_level_chunk = 1" by (simp_all add: owner_chunk_def lower_level_chunk_def)
  have b: "0 < base_of ls" "has_field fm Field_LowerLevel \<Longrightarrow> base_of ls = 2" using lower by (auto simp: base_of_def)
  show "sorted_wrt (<) (map fst (neighbour_writes ls e fm slots))"
    unfolding m o using pc b by (auto simp: sorted_wrt_append)
  have "\<forall>c\<in>set (map fst (neighbour_writes ls e fm slots)). c < base_of ls + 2 * LevelStore_max_neighbours ls + 1"
    unfolding m o using pc(2) b by (auto split: if_splits)
  then show "\<forall>w\<in>set (neighbour_writes ls e fm slots). fst w < base_of ls + 2 * LevelStore_max_neighbours ls + 1" by simp
qed

text \<open>Merging the chunks of an update into a record patches the entry it holds.\<close>

lemma entry_merge:
  fixes e :: neighbour_entry
  assumes ls: "level_sizes ls" and buf: "m_column_size (m_root (ls_store ls)) \<le> length buf"
    and lower: "has_field fm Field_LowerLevel \<longrightarrow> has_lower_level (ls_level ls)"
    and slots: "sorted_wrt (<) slots" "\<forall>slot\<in>set slots. slot < LevelStore_max_neighbours ls"
  defines "k \<equiv> m_column_size (m_root (ls_store ls))"
    and "data \<equiv> take (m_column_size (m_root (ls_store ls))) (fold write_chunk (neighbour_writes ls e fm slots) buf)"
    and "ids \<equiv> map fst (neighbour_writes ls e fm slots)"
  shows "length data = k" "good_chunks k data ids CHUNK_SIZE"
    "length old = k \<Longrightarrow> entry_of ls (merge_chunks CHUNK_SIZE ids data old) = patch_entry e fm slots (entry_of ls old)"
proof -
  let ?N = "base_of ls + 2 * LevelStore_max_neighbours ls + 1" and ?ws = "neighbour_writes ls e fm slots"
  note wc = writes_chunks [OF ls slots lower, of e]
  have k: "k = ?N * CHUNK_SIZE" unfolding k_def by (rule chunk_indices(4) [OF ls])
  have bound: "c * CHUNK_SIZE + CHUNK_SIZE \<le> k" if "c < ?N" for c
  proof -
    have "Suc c * CHUNK_SIZE \<le> ?N * CHUNK_SIZE" using that by (intro mult_right_mono) auto
    then show ?thesis by (simp add: k)
  qed
  have "\<forall>w\<in>set ?ws. (fst w + 1) * CHUNK_SIZE \<le> length buf"
    using wc(2) bound buf by (fastforce simp: algebra_simps k_def)
  from fold_write_chunk(1) [OF this] buf show len: "length data = k" by (simp add: data_def k_def)
  show "good_chunks k data ids CHUNK_SIZE"
    using wc bound len by (auto simp: good_chunks_def ids_def layout_defs)
  assume ol: "length old = k"
  have "record_ids (merge_chunks CHUNK_SIZE ids data old) = put_ids ?ws (record_ids old)"
    using update_ids [of old ?N buf ?ws] wc(2) buf ol k by (simp add: data_def ids_def k_def)
  also have "\<dots> = put_ids ?ws (node_ids ls (entry_of ls old))" using entry_of_inverse [OF ls, of old] ol by (simp add: k_def)
  also have "\<dots> = node_ids ls (patch_entry e fm slots (entry_of ls old))"
    by (rule put_ids_patch [OF ls entry_of_full lower slots(2)])
  finally show "entry_of ls (merge_chunks CHUNK_SIZE ids data old) = patch_entry e fm slots (entry_of ls old)"
  proof (intro entry_of_ids [OF ls])
    show "full_entry ls (patch_entry e fm slots (entry_of ls old))"
      using entry_of_full [of ls old] lower by (auto simp: full_entry_def patch_entry_def)
  qed (simp_all add: ol k_def)
qed

lemma update_step:
  fixes P :: "'p page_api"
  assumes ls: "level_sizes ls" and sl: "store_layout P (ls_store ls)" and good: "good_cmd ls dl (Write_Node buf n e fm slots)"
    and f: "f = store_slots P (ls_store ls) m dl"
  defines "k \<equiv> m_column_size (m_root (ls_store ls))" and "A \<equiv> \<lambda>f a. slot_node ls (f a)"
    and "data \<equiv> take (m_column_size (m_root (ls_store ls))) (fold write_chunk (neighbour_writes ls e fm slots) buf)"
    and "ids \<equiv> map fst (neighbour_writes ls e fm slots)"
  shows "spec_step k fault f (Update (nid_column_ref n) (Some data) ids CHUNK_SIZE) Done f' \<Longrightarrow>
      level_step ls fault (A f) (Write_Node buf n e fm slots) Node_Done (A f')"
    and "refused k f (Update (nid_column_ref n) (Some data) ids CHUNK_SIZE) \<Longrightarrow> A f (node_loc n) = None"
proof -
  have g: "k \<le> length buf" "neighbour_writes ls e fm slots \<noteq> []" "has_field fm Field_LowerLevel \<longrightarrow> has_lower_level (ls_level ls)"
    "sorted_wrt (<) slots" "\<forall>slot\<in>set slots. slot < LevelStore_max_neighbours ls"
    using good by (simp_all add: k_def)
  note em = entry_merge [OF ls g(1) [unfolded k_def] g(3-5), where e = e, folded data_def ids_def k_def]
  show "A f (node_loc n) = None" if "refused k f (Update (nid_column_ref n) (Some data) ids CHUNK_SIZE)"
    using that em(2) by (simp add: A_def node_loc_def)
  assume "spec_step k fault f (Update (nid_column_ref n) (Some data) ids CHUNK_SIZE) Done f'"
  then obtain d t old where o: "f (node_loc n) = Occupied d t old" "f' = f(node_loc n := Occupied d t (merge_chunks CHUNK_SIZE ids data old))"
    using g(2) by (auto elim!: spec_updateE simp: node_loc_def ids_def)
  have ol: "length old = k" using store_slots_length [OF sl o(1) [unfolded f]] by (simp add: k_def)
  have "A f' = (A f)(node_loc n \<mapsto> (d, t, patch_entry e fm slots (entry_of ls old)))" by (simp add: o(2) A_def fun_eq_iff em(3) [OF ol])
  with level_step.write_node [of "A f" n d t "entry_of ls old" ls fault buf e fm slots] o(1)
  show "level_step ls fault (A f) (Write_Node buf n e fm slots) Node_Done (A f')" by (simp add: A_def)
qed

lemma nodes_of_slots: "nodes_of P ls m dl = (\<lambda>a. slot_node ls (store_slots P (ls_store ls) m dl a))"
  by (simp add: nodes_of_def fun_eq_iff)

text \<open>The command of the column store behind a command of the level, and its errors.\<close>

fun store_cmd_of :: "level_store \<Rightarrow> level_cmd \<Rightarrow> store_cmd" where
  "store_cmd_of ls (Add_Node conc trx e) = Insert conc trx (Some (neighbour_bytes ls e))"
| "store_cmd_of ls (Read_Node n u e fm filt slots) = Fetch (nid_column_ref n) u"
| "store_cmd_of ls (Write_Node buf n e fm slots) = Update (nid_column_ref n)
     (Some (take (m_column_size (m_root (ls_store ls))) (fold write_chunk (neighbour_writes ls e fm slots) buf)))
     (map fst (neighbour_writes ls e fm slots)) CHUNK_SIZE"
| "store_cmd_of ls (Mark_Node trx n b) = Mark_delete trx (nid_column_ref n) b"
| "store_cmd_of ls (Drop_Node trx n) = Purge trx (nid_column_ref n)"

lemma failed_step:
  fixes P :: "'p page_api"
  assumes ls: "level_sizes ls" and sl: "store_layout P (ls_store ls)" and good: "good_cmd ls dl c"
    and f: "f = store_slots P (ls_store ls) m dl"
    and st: "spec_step (m_column_size (m_root (ls_store ls))) fault f (store_cmd_of ls c) (Failed err) f'"
  shows "level_step ls fault (\<lambda>a. slot_node ls (f a)) c (Node_Error err) (\<lambda>a. slot_node ls (f' a))"
proof -
  consider "f' = f" "refused (m_column_size (m_root (ls_store ls))) f (store_cmd_of ls c)" | "f' = f" fault
    | trx r where fault "store_cmd_of ls c = Purge trx r" "f' = purged_slots trx (DataPage_decode_column_ref r) f"
    using st by (auto elim: spec_failE)
  then show ?thesis
  proof cases
    case 1
    show ?thesis
    proof (cases c)
      case (Write_Node buf n e fm slots)
      have "slot_node ls (f (node_loc n)) = None"
        using update_step(2) [OF ls sl _ f, of buf n e fm slots] good 1(2) unfolding Write_Node store_cmd_of.simps by blast
      then show ?thesis unfolding Write_Node 1(1) by (rule level_step.missing_node) simp
    next
      case (Read_Node n u e0 fm filt slots)
      have "slot_node ls (f (node_loc n)) = None" using 1(2) by (simp add: Read_Node node_loc_def)
      then show ?thesis unfolding Read_Node 1(1) by (rule level_step.missing_node) simp
    qed (use 1 in \<open>simp_all add: length_neighbour_bytes [OF ls]\<close>)
  next
    case 2
    then show ?thesis by (simp add: level_step.api_failure)
  next
    case (3 trx r)
    have "(\<lambda>a. slot_node ls (purged_slots trx b f a)) = dropped trx b (\<lambda>a. slot_node ls (f a))" for b
      by (auto simp: purged_slots_def dropped_def split: slot_state.split)
    with 3 show ?thesis by (cases c) (auto simp: node_loc_def intro: level_step.late_failure [unfolded node_loc_def])
  qed
qed

lemma run_level_steps:
  fixes P :: "'p page_api"
  assumes sl: "store_layout P (ls_store ls)" and d4: "4 dvd m_max_num_recs (m_data (ls_store ls))"
    and st: "store_state P (ls_store ls) dl s" and ls: "level_sizes ls" and good: "good_cmd ls dl c"
    and m: "run_level P ls c s = (s', case r of Inl e \<Rightarrow> Node_Error e | Inr x \<Rightarrow> g x)"
    and c: "run_cmd P (ls_store ls) (store_cmd_of ls c) = in_mtr h op" and run: "op s = (s', r)"
    and ok: "\<And>x f' dl'. r = Inr x \<Longrightarrow> \<forall>y\<in>reply_refs (h x). store_ref (ls_store ls) dl' y \<Longrightarrow>
      spec_step (m_column_size (m_root (ls_store ls))) (faults s \<noteq> [] \<or> fresh s = []) (store_slots P (ls_store ls) (pages s) dl) (store_cmd_of ls c) (h x) f' \<Longrightarrow>
      level_step ls (faults s \<noteq> [] \<or> fresh s = []) (nodes_of P ls (pages s) dl) c (g x) (\<lambda>a. slot_node ls (f' a))
        \<and> (\<forall>n. g x = Node_Id n \<longrightarrow> node_ref (ls_store ls) dl' n)"
  shows "\<exists>dl'. store_state P (ls_store ls) dl' s' \<and> set dl \<subseteq> set dl'
    \<and> (\<forall>n. snd (run_level P ls c s) = Node_Id n \<longrightarrow> node_ref (ls_store ls) dl' n)
    \<and> level_step ls (faults s \<noteq> [] \<or> fresh s = []) (nodes_of P ls (pages s) dl) c (snd (run_level P ls c s)) (nodes_of P ls (pages s') dl')"
proof -
  have refs: "\<forall>r\<in>cmd_refs (store_cmd_of ls c). store_ref (ls_store ls) dl r" using good by (cases c) (simp_all add: node_ref_def)
  obtain dl' where o: "store_state P (ls_store ls) dl' s'" "set dl \<subseteq> set dl'"
    "\<forall>x\<in>reply_refs (case r of Inl e \<Rightarrow> Failed e | Inr x \<Rightarrow> h x). store_ref (ls_store ls) dl' x"
    "spec_step (m_column_size (m_root (ls_store ls))) (faults s \<noteq> [] \<or> fresh s = [])
       (store_slots P (ls_store ls) (pages s) dl) (store_cmd_of ls c) (case r of Inl e \<Rightarrow> Failed e | Inr x \<Rightarrow> h x) (store_slots P (ls_store ls) (pages s') dl')"
    by (rule op_simulated [OF sl st d4 refs c run])
  show ?thesis
  proof (cases r)
    case (Inl e)
    with o show ?thesis using failed_step [OF ls sl good refl] by (intro exI [of _ dl']) (simp add: m nodes_of_slots)
  next
    case (Inr x)
    with o ok [OF Inr] show ?thesis by (intro exI [of _ dl']) (simp add: m nodes_of_slots)
  qed
qed

lemma run_level_refines:
  fixes P :: "'p page_api"
  assumes sl: "store_layout P (ls_store ls)" and d4: "4 dvd m_max_num_recs (m_data (ls_store ls))"
    and st: "store_state P (ls_store ls) dl s" and ls: "level_sizes ls" and good: "good_cmd ls dl c"
  shows "\<exists>dl'. store_state P (ls_store ls) dl' (fst (run_level P ls c s)) \<and> set dl \<subseteq> set dl'
    \<and> (\<forall>n. snd (run_level P ls c s) = Node_Id n \<longrightarrow> node_ref (ls_store ls) dl' n)
    \<and> level_step ls (faults s \<noteq> [] \<or> fresh s = []) (nodes_of P ls (pages s) dl) c (snd (run_level P ls c s))
        (nodes_of P ls (pages (fst (run_level P ls c s))) dl')"
proof (cases c)
  case (Add_Node conc trx e)
  obtain s' r where run: "LevelStore_insert P ls conc trx e s = (s', r)" by (cases "LevelStore_insert P ls conc trx e s")
  note steps = run_level_steps [OF sl d4 st ls good, where s' = s' and r = r and g = Node_Id and h = Stored and op = "LevelStore_insert P ls conc trx e"]
  show ?thesis using steps run level_steps(1) [OF ls] node_loc_ref [OF sl]
    by (simp add: Add_Node reply_of_def LevelStore_insert_def nodes_of_slots)
next
  case (Read_Node n u e0 fm filt slots)
  obtain s' v where run: "ColumnStore_fetch P (ls_store ls) (nid_column_ref n) u s = (s', v)"
    by (cases "ColumnStore_fetch P (ls_store ls) (nid_column_ref n) u s")
  have m: "run_level P ls c s = (s', case v of Inl e \<Rightarrow> Node_Error e | Inr (bs, t, d) \<Rightarrow> Node_View (decode_neighbour_entry ls u e0 fm filt slots bs))"
    using run by (auto simp: Read_Node reply_of_def LevelStore_fetch_def bind_op_def ret_def split: sum.split)
  note steps = run_level_steps [OF sl d4 st ls good, where s' = s' and r = v and h = "\<lambda>(bs, t, d). Value bs t d"
      and g = "\<lambda>(bs, t, d). Node_View (decode_neighbour_entry ls u e0 fm filt slots bs)" and op = "ColumnStore_fetch P (ls_store ls) (nid_column_ref n) u"]
  show ?thesis using steps m run level_steps(2) [OF ls _ good [unfolded Read_Node]]
    by (auto simp: Read_Node nodes_of_slots)
next
  case (Write_Node buf n e fm slots)
  have c3: "LevelStore_update P ls buf n e fm slots = ColumnStore_update P (ls_store ls) (nid_column_ref n)
     (Some (take (m_column_size (m_root (ls_store ls))) (fold write_chunk (neighbour_writes ls e fm slots) buf)))
     (map fst (neighbour_writes ls e fm slots)) CHUNK_SIZE"
    unfolding LevelStore_update_def Let_def chunk_indices(3,4) [OF ls] by (rule refl)
  obtain s' r where run: "LevelStore_update P ls buf n e fm slots s = (s', r)" by (cases "LevelStore_update P ls buf n e fm slots s")
  note steps = run_level_steps [OF sl d4 st ls good, where s' = s' and r = r and g = "\<lambda>_. Node_Done" and h = "\<lambda>_. Done"
      and op = "LevelStore_update P ls buf n e fm slots"]
  show ?thesis using steps run update_step(1) [OF ls sl good [unfolded Write_Node] refl]
    by (simp add: Write_Node reply_of_def c3 nodes_of_slots)
next
  case (Mark_Node trx n b)
  obtain s' r where run: "LevelStore_mark_delete P ls n trx b s = (s', r)" by (cases "LevelStore_mark_delete P ls n trx b s")
  note steps = run_level_steps [OF sl d4 st ls good, where s' = s' and r = r and g = "\<lambda>_. Node_Done" and h = "\<lambda>_. Done"
      and op = "LevelStore_mark_delete P ls n trx b"]
  show ?thesis using steps run level_steps(3) [OF ls]
    by (simp add: Mark_Node reply_of_def LevelStore_mark_delete_def nodes_of_slots)
next
  case (Drop_Node trx n)
  obtain s' r where run: "LevelStore_remove P ls Kind_Neighbour n trx s = (s', r)" by (cases "LevelStore_remove P ls Kind_Neighbour n trx s")
  note steps = run_level_steps [OF sl d4 st ls good, where s' = s' and r = r and g = "\<lambda>_. Node_Done" and h = "\<lambda>_. Done"
      and op = "LevelStore_remove P ls Kind_Neighbour n trx"]
  show ?thesis using steps run level_steps(4) [OF ls]
    by (simp add: Drop_Node reply_of_def LevelStore_remove_def nodes_of_slots)
qed

subsection \<open>A level of the test backend\<close>

text \<open>Level 0 of an index with the default \<open>M = 16\<close>, in a store created on the test backend.\<close>

definition level0_specs :: "storage_spec list" where
  "level0_specs = [\<lparr>spec_col_len = 396, spec_metadata = svector_metadata\<rparr>, \<lparr>spec_col_len = 54, spec_metadata = []\<rparr>]"

definition level0 :: level_store where
  "level0 = \<lparr>ls_level = 0, ls_store = primary_store fake_api 3 2 level0_specs 2, ls_overflow = hd (other_stores fake_api 3 level0_specs), ls_num_neighbours = 16\<rparr>"

lemma level0_level [simp]: "ls_level level0 = 0"
  by (simp add: level0_def)

lemma fake_page_size: "get_size fake_api = 16384"
  by (simp add: fake_api_def kPageSize_def)

lemma level0_creatable: "creatable fake_api level0_specs 2"
  by (simp add: creatable_def fake_page_size level0_specs_def primary_store_def ColumnStore_init_def RootPage_init_def Let_def root_offs layout_defs)

lemma level0_page: "m_max_num_recs (DataPage_init 16384 396) = 40" "m_rec_size (DataPage_init 16384 396) = 404"
  "layout_ok 16384 (DataPage_init 16384 396)" "bitmap_covers (DataPage_init 16384 396)"
  by (simp_all add: DataPage_init_def Let_def layout_defs refine_max_recs.simps bits_to_bytes_ceil_def
      MAX_ITERATIONS_def MAX_SLOT_INDEX_def SLOT_INDEX_BITS_def layout_ok_def bitmap_covers_def bitmap_bytes_def)

lemma level0_sizes: "level_sizes level0"
  using primary_store_members(4) [OF level0_creatable, of 3 2]
  by (simp add: level_sizes_def level0_def level0_specs_def other_stores_def neighbour_storage_size_def overflow_storage_size_def layout_defs
      has_lower_level_def LevelStore_max_neighbours_def max_neighbours_def LevelStore_overflow_capacity_def overflow_capacity_def u32_def
      ColumnStore_init_def RootPage_init_def Let_def)

interpretation level0_store: store_layout fake_api "ls_store level0"
proof -
  note mem = primary_store_members [OF level0_creatable, of 3 2]
  have "m_data (ls_store level0) = DataPage_init 16384 396"
    by (simp add: level0_def primary_store_def ColumnStore_init_def level0_specs_def fake_page_size)
  moreover have "data_layout fake_api 16384 (DataPage_init 16384 396)"
    using fake.page_api_axioms level0_page(3,4) by (simp add: data_layout_def data_layout_axioms_def)
  ultimately show "store_layout fake_api (ls_store level0)"
    unfolding store_layout_def store_layout_axioms_def
    using page_api.primary_root_layout [OF fake.page_api_axioms level0_creatable, of 3 2] mem(4)
    by (simp add: level0_def level0_page fake_page_size level0_specs_def layout_defs)
qed

lemma level0_state:
  obtains s where "store_state fake_api (ls_store level0) [] s" "faults s = []" "fresh s = [3, 4]"
    "nodes_of fake_api level0 (pages s) [] = Map.empty"
proof -
  have fr: "fresh fake_store_env = 2 # [3, 4]" "fresh_ok fake_store_env"
    using fake_store_state(1) by (simp_all add: fake_store_env_def store_state_def session_ok_def)
  obtain pg where f: "RootPage_format fake_api FORMAT_VERSION (spec_metadata (hd level0_specs)) (m_root (ls_store level0)) (segment_root fake_api 2)
       = Some (m_root (ls_store level0), pg)"
    using page_api.create_run [OF fake.page_api_axioms level0_creatable fake_store_state(2) fr(1), of 3] by (auto simp: level0_def)
  let ?s = "fake_store_env\<lparr>fresh := [3, 4], pages := (pages fake_store_env)(2 \<mapsto> pg)\<rparr>"
  have "store_state fake_api (ls_store level0) [] ?s"
    using page_api.created_store_state [OF fake.page_api_axioms level0_creatable _ fr(2,1), of FORMAT_VERSION 3 _ pg ?s] f
    by (simp add: level0_def INVALID_REF_def level0_page fake_page_size) (simp add: level0_specs_def level0_page fake_store_env_def fake_env_def init_last_slot_info_def)
  then show thesis
    by (rule that) (auto simp: fake_store_env_def fake_env_def nodes_of_def store_slots_def fun_eq_iff)
qed

subsection \<open>Properties\<close>

text \<open>
  C16: The neighbour store of a level is a map of entries. From an intact store, inserting, reading, updating, marking
  and removing a node are steps of the abstract level, whatever API calls fail: an insert stores the entry, padded to the
  number of slots, at a free location and returns an id without the flag; an update replaces exactly the fields and slots it names,
  whatever the scratch buffer held; a read, for every choice of fields, filter and slots, returns what the stored entry has there;
  ids with the flag set name the same record. The record count of a page has to be a multiple of four.
\<close>

theorem level_store_refines:
  assumes "store_layout P (ls_store ls)" "4 dvd m_max_num_recs (m_data (ls_store ls))" "store_state P (ls_store ls) dl s"
    and "level_sizes ls" "good_cmd ls dl c" "run_level P ls c s = (s', rep)"
  shows "\<exists>dl'. store_state P (ls_store ls) dl' s' \<and> set dl \<subseteq> set dl' \<and> (\<forall>n. rep = Node_Id n \<longrightarrow> node_ref (ls_store ls) dl' n)
    \<and> level_step ls (faults s \<noteq> [] \<or> fresh s = []) (nodes_of P ls (pages s) dl) c rep (nodes_of P ls (pages s') dl')"
  using run_level_refines [OF assms(1-5)] unfolding assms(6) by simp

inductive_cases level_addE: "level_step ls fault f (Add_Node conc trx e) rep f'"

theorem level_store_refines_witness:
  "\<exists>s s' n dl'. run_level fake_api level0 (Add_Node 1 7 empty_neighbour_entry) s = (s', Node_Id n)
     \<and> nodes_of fake_api level0 (pages s') dl' = [node_loc n \<mapsto> (False, 7, stored_entry level0 empty_neighbour_entry)]"
proof -
  let ?c = "Add_Node 1 7 empty_neighbour_entry"
  obtain s where s: "store_state fake_api (ls_store level0) [] s" "faults s = []" "fresh s = [3, 4]"
    "nodes_of fake_api level0 (pages s) [] = Map.empty"
    by (rule level0_state)
  obtain s' rep where run: "run_level fake_api level0 ?c s = (s', rep)" by (cases "run_level fake_api level0 ?c s")
  have d4: "4 dvd m_max_num_recs (m_data (ls_store level0))"
    by (simp add: level0_def primary_store_def ColumnStore_init_def level0_specs_def fake_page_size level0_page)
  from level_store_refines [OF level0_store.store_layout_axioms d4 s(1) level0_sizes _ run]
  obtain dl' where st: "level_step level0 (faults s \<noteq> [] \<or> fresh s = []) (nodes_of fake_api level0 (pages s) []) ?c rep (nodes_of fake_api level0 (pages s') dl')"
    by auto
  show ?thesis by (rule level_addE [OF st]) (use s run in auto)
qed

text \<open>
  Entries survive their records. For ids that fit 48 bits, reading a record written for an entry gives back owner, link to the
  level below where there is one, overflow link and the valid neighbours the filter lets through, in order and counted; reading it for an update
  gives every slot, the unused ones invalid. The same holds of overflow entries.
\<close>

theorem entry_roundtrip:
  assumes "level_sizes ls" "length (ne_neighbours e) \<le> LevelStore_max_neighbours ls" "length (oe_incoming o') \<le> LevelStore_overflow_capacity ls"
    and "id_fits (ne_owner e)" "id_fits (ne_lower_level e)" "id_fits (ne_overflow e)" "\<forall>n\<in>set (ne_neighbours e). id_fits (nd_nid n) \<and> id_fits (nd_vid n)"
    and "\<forall>n\<in>set (oe_incoming o'). id_fits n" "id_fits (oe_overflow o')"
  shows "decode_neighbour_entry ls False empty_neighbour_entry FieldAll filt None (neighbour_bytes ls e)
      = (e\<lparr>ne_lower_level := if has_lower_level (ls_level ls) then ne_lower_level e else INVALID_ID,
           ne_neighbours := filter (\<lambda>n. included filt (nd_nid n)) (ne_neighbours e)\<rparr>,
         Some (length (filter (\<lambda>n. included filt (nd_nid n)) (ne_neighbours e))))
    \<and> ne_neighbours (fst (decode_neighbour_entry ls True empty_neighbour_entry FieldAll filt None (neighbour_bytes ls e)))
      = ne_neighbours e @ replicate (LevelStore_max_neighbours ls - length (ne_neighbours e)) no_node
    \<and> fst (decode_overflow_entry ls True empty_overflow_entry OverflowFieldAll None (overflow_bytes ls o'))
      = o'\<lparr>oe_incoming := oe_incoming o' @ replicate (LevelStore_overflow_capacity ls - length (oe_incoming o')) INVALID_ID\<rparr>"
proof -
  have nn: "map (\<lambda>n. \<lparr>nd_nid = id48 (nd_nid n), nd_vid = id48 (nd_vid n)\<rparr>) (ne_neighbours e) = ne_neighbours e"
    using assms(7) by (intro map_idI) simp
  have zero: "id48 INVALID_ID = INVALID_ID" by (simp add: id48_def INVALID_ID_def)
  have st: "stored_entry ls e = e\<lparr>ne_lower_level := if has_lower_level (ls_level ls) then ne_lower_level e else INVALID_ID,
      ne_neighbours := ne_neighbours e @ replicate (LevelStore_max_neighbours ls - length (ne_neighbours e)) no_node\<rparr>"
    using assms(2,4-6) nn by (cases e) (simp add: stored_entry_def pad_nodes_append zero no_node_def)
  have inv: "filter (\<lambda>n. included filt (nd_nid n)) (replicate k no_node) = []" for k
    by (simp add: included_def no_node_def is_valid_def)
  have "length (overflow_bytes ls o') = (LevelStore_overflow_capacity ls + 1) * CHUNK_SIZE"
    unfolding overflow_bytes_words length_ids_bytes by (simp add: overflow_words_def)
  moreover have "map id48 (overflow_words ls o') = (oe_incoming o' @ replicate (LevelStore_overflow_capacity ls - length (oe_incoming o')) INVALID_ID) @ [oe_overflow o']"
    using assms(3,8,9) by (intro nth_equalityI) (auto simp: overflow_words_def nth_append zero)
  ultimately have "overflow_of ls (overflow_bytes ls o')
      = o'\<lparr>oe_incoming := oe_incoming o' @ replicate (LevelStore_overflow_capacity ls - length (oe_incoming o')) INVALID_ID\<rparr>"
    by (cases o') (simp add: overflow_of_ids, simp add: overflow_bytes_words flip: append_assoc)
  moreover have "decode_neighbour_entry ls u e0 fm filt None (neighbour_bytes ls e) = view_entry ls u e0 fm filt None (stored_entry ls e)" for u e0 fm
    using decode_view [OF assms(1), of None] entry_of_bytes [OF assms(1)] by simp
  ultimately show ?thesis
    unfolding st by (cases e) (simp add: view_entry_def Let_def empty_neighbour_entry_def inv overflow_of_def)
qed

theorem entry_roundtrip_witness:
  "let e = \<lparr>ne_owner = 5, ne_lower_level = 0, ne_neighbours = [\<lparr>nd_nid = 9, nd_vid = 4\<rparr>], ne_overflow = 0\<rparr> in
   decode_neighbour_entry level0 False empty_neighbour_entry FieldAll Filter_ExcludeIncoming None (neighbour_bytes level0 e) = (e, Some 1)"
proof -
  let ?e = "\<lparr>ne_owner = 5, ne_lower_level = 0, ne_neighbours = [\<lparr>nd_nid = 9, nd_vid = 4\<rparr>], ne_overflow = 0\<rparr>"
  have n: "LevelStore_max_neighbours level0 = 32"
    by (simp add: level0_def LevelStore_max_neighbours_def max_neighbours_def u32_def)
  have "included Filter_ExcludeIncoming 9" by (simp add: included_def is_valid_def INVALID_ID_def is_incoming_def INCOMING_BIT_def push_bit_eq_mult)
  then show ?thesis
    using entry_roundtrip [OF level0_sizes, of ?e empty_overflow_entry Filter_ExcludeIncoming]
    by (simp add: n id_fits_def empty_overflow_entry_def INVALID_ID_def has_lower_level_def level0_level Let_def)
qed

text \<open>
  A partial update of an overflow record changes what it names and nothing else: after the chunks were formatted
  in a buffer with any content and merged into the record, the record holds the old entry with the named slots and the link replaced.
\<close>

theorem overflow_update_patches:
  assumes "level_sizes ls" "length bs = m_column_size (m_root (ls_overflow ls))" "length bs \<le> length buf"
    and "\<forall>slot\<in>set slots. slot < LevelStore_overflow_capacity ls"
  shows "overflow_of ls (merge_chunks CHUNK_SIZE (map fst (overflow_writes ls e fm slots))
      (take (length bs) (fold write_chunk (overflow_writes ls e fm slots) buf)) bs) = patch_overflow e fm slots (overflow_of ls bs)"
  by (rule overflow_patch [OF _ assms(3,4)]) (simp add: assms(2) overflow_size [OF assms(1)])

theorem overflow_update_patches_witness:
  "let e = \<lparr>oe_incoming = [77], oe_overflow = 0\<rparr>; ws = overflow_writes level0 e OverflowField_Incoming [3] in
   overflow_of level0 (merge_chunks CHUNK_SIZE (map fst ws) (take 54 (fold write_chunk ws (replicate 60 9))) (replicate 54 0))
   = patch_overflow e OverflowField_Incoming [3] (overflow_of level0 (replicate 54 0))"
proof -
  have "m_column_size (m_root (ls_overflow level0)) = 54" "LevelStore_overflow_capacity level0 = 8"
    using level0_sizes
    by (simp_all add: level_sizes_def overflow_storage_size_def layout_defs LevelStore_overflow_capacity_def overflow_capacity_def level0_def)
  then show ?thesis
    using overflow_update_patches [OF level0_sizes, of "replicate 54 0" "replicate 60 9" "[3]" "\<lparr>oe_incoming = [77], oe_overflow = 0\<rparr>" OverflowField_Incoming]
    by (simp add: Let_def)
qed

text \<open>
  The flag of an id does not get lost and does not get in the way. For the reference of any record a page can hold,
  the id with the flag and the id without it differ, both survive 6-byte storage unchanged, both name the same page and slot, and the flag can be
  read off and cleared.
\<close>

theorem incoming_flag_stored:
  fixes page :: page_ref
  assumes "slot \<le> MAX_SLOT_INDEX"
  defines "r \<equiv> DataPage_encode_column_ref page slot"
  shows "read_id48_be (write_id48_be r) = r \<and> read_id48_be (write_id48_be (set_incoming r)) = set_incoming r
    \<and> \<not> is_incoming r \<and> is_incoming (set_incoming r) \<and> clear_incoming (set_incoming r) = r \<and> set_incoming r \<noteq> r
    \<and> DataPage_decode_column_ref (nid_column_ref r) = (page, slot) \<and> DataPage_decode_column_ref (nid_column_ref (set_incoming r)) = (page, slot)"
proof -
  have s: "slot < 16384" using assms(1) by (simp add: MAX_SLOT_INDEX_def SLOT_INDEX_BITS_def)
  then have "drop_bit 46 r = 0" by (simp add: r_def encode_column_ref_high)
  then have "unat (drop_bit 46 r) = 0" by simp
  moreover have "unat (drop_bit 46 r) = unat r div 2 ^ 46" unfolding unat_drop_bit_eq by (rule drop_bit_eq_div)
  ultimately have r: "unat r < 2 ^ 46" by (simp add: div_eq_0_iff)
  note c = column_ref_nid [OF r]
  have "set_incoming r \<noteq> r" using incoming_flag(1) [of r] c(1) by metis
  then show ?thesis using c s fits_read_write [OF c(4)] fits_read_write [OF c(5)] incoming_flag(3) [of r] incoming_flag(7) [of r] unfolding r_def by simp
qed

theorem incoming_flag_stored_witness:
  "(5 :: nat) \<le> MAX_SLOT_INDEX \<and> is_incoming (set_incoming (DataPage_encode_column_ref 7 5))
   \<and> DataPage_decode_column_ref (nid_column_ref (set_incoming (DataPage_encode_column_ref 7 5))) = (7, 5)"
proof -
  have "(5 :: nat) \<le> MAX_SLOT_INDEX" by (simp add: MAX_SLOT_INDEX_def SLOT_INDEX_BITS_def)
  with incoming_flag_stored [OF this, of 7] show ?thesis by blast
qed

end
