(* ===== verification/Index_Meta.thy ===== *)
theory Index_Meta
  imports Level_Store
begin

text \<open>
  Options, metadata and cursors of the index (\<^verbatim>\<open>src/index/hnsw/storage.h\<close>,
  \<^verbatim>\<open>storage.cc\<close>). The options come from the \<^verbatim>\<open>WITH\<close> clause as strings; the metadata is
  what each root page keeps of its store; a cursor walks the result of a query.
\<close>

subsection \<open>Options\<close>

definition DEFAULT_M :: nat where "DEFAULT_M = 16"
definition DEFAULT_EF_CONSTRUCTION :: nat where "DEFAULT_EF_CONSTRUCTION = 200"
definition MAX_M :: nat where "MAX_M = 128"
definition MAX_EF_CONSTRUCTION_FACTOR :: nat where "MAX_EF_CONSTRUCTION_FACTOR = 32"

record options =
  opt_M :: nat
  opt_ef_construction :: nat

definition default_options :: options where
  "default_options = \<lparr>opt_M = DEFAULT_M, opt_ef_construction = DEFAULT_EF_CONSTRUCTION\<rparr>"

text \<open>
  \<^verbatim>\<open>strtoul\<close> with base 10 on a 64-bit platform: white space, a sign, digits. The result is the value,
  the number of characters read (0 when there is no number) and whether the value was out of range. A
  minus sign negates in the unsigned type.
\<close>

definition is_space :: "char \<Rightarrow> bool" where
  "is_space c \<longleftrightarrow> of_char c \<in> {9, 10, 11, 12, 13, 32 :: nat}"

definition is_digit :: "char \<Rightarrow> bool" where
  "is_digit c \<longleftrightarrow> 48 \<le> (of_char c :: nat) \<and> (of_char c :: nat) \<le> 57"

definition digits_value :: "string \<Rightarrow> nat" where
  "digits_value ds = foldl (\<lambda>v c. v * 10 + (of_char c - 48)) 0 ds"

definition ULONG_MAX :: nat where "ULONG_MAX = 2 ^ 64 - 1"

definition strtoul :: "string \<Rightarrow> nat \<times> nat \<times> bool" where
  "strtoul str =
     (let rest = dropWhile is_space str;
          (negative, rest') = (case rest of [] \<Rightarrow> (False, rest)
             | c # cs \<Rightarrow> if c = CHR ''-'' then (True, cs) else if c = CHR ''+'' then (False, cs) else (False, rest));
          ds = takeWhile is_digit rest'; v = digits_value ds in
      if ds = [] then (0, 0, False)
      else
        let read_len = length str - length rest' + length ds in
        if v > ULONG_MAX then (ULONG_MAX, read_len, True)
        else (if negative then (2 ^ 64 - v) mod 2 ^ 64 else v, read_len, False))"

text \<open>\<open>None\<close> is a null pointer.\<close>

definition parse_u32 :: "string option \<Rightarrow> nat option" where
  "parse_u32 arg =
     (case arg of None \<Rightarrow> None
      | Some str \<Rightarrow>
          if str = [] \<or> hd str = CHR ''-'' then None
          else
            let (v, read_len, out_of_range) = strtoul str in
            if read_len = 0 \<or> read_len \<noteq> length str \<or> out_of_range \<or> v > 2 ^ 32 - 1 then None else Some v)"

datatype options_error =
    M_Too_Small nat
  | M_Too_Large
  | Ef_Below_M nat nat
  | Ef_Too_Large nat nat nat
  | Duplicate_Option string
  | Bad_Value string "string option"
  | Unknown_Option string

definition Options_validate :: "options \<Rightarrow> options_error option" where
  "Options_validate opts =
     (let M = opt_M opts; ef_construction = opt_ef_construction opts; max_ef_construction = u32 (M * MAX_EF_CONSTRUCTION_FACTOR) in
      if M < 2 then Some (M_Too_Small M)
      else if M > MAX_M then Some M_Too_Large
      else if ef_construction < M then Some (Ef_Below_M ef_construction M)
      else if ef_construction > max_ef_construction then Some (Ef_Too_Large ef_construction max_ef_construction M)
      else None)"

fun parse_params :: "(string \<times> string option) list \<Rightarrow> bool \<Rightarrow> bool \<Rightarrow> options \<Rightarrow> options_error + options" where
  "parse_params [] seen_m seen_ef_construction out =
     (case Options_validate out of Some e \<Rightarrow> Inl e | None \<Rightarrow> Inr out)"
| "parse_params ((key, val) # params) seen_m seen_ef_construction out =
     (if key = ''m'' then
        if seen_m then Inl (Duplicate_Option ''M'')
        else (case parse_u32 val of None \<Rightarrow> Inl (Bad_Value ''M'' val)
              | Some v \<Rightarrow> parse_params params True seen_ef_construction (out\<lparr>opt_M := v\<rparr>))
      else if key = ''ef_construction'' then
        if seen_ef_construction then Inl (Duplicate_Option ''ef_construction'')
        else (case parse_u32 val of None \<Rightarrow> Inl (Bad_Value ''ef_construction'' val)
              | Some v \<Rightarrow> parse_params params seen_m True (out\<lparr>opt_ef_construction := v\<rparr>))
      else Inl (Unknown_Option key))"

definition Options_parse :: "(string \<times> string option) list \<Rightarrow> options_error + options" where
  "Options_parse params = parse_params params False False default_options"

subsection \<open>Metadata\<close>

definition META_VERSION :: nat where "META_VERSION = 1"
definition ENTRY_POINT_LEN :: nat where "ENTRY_POINT_LEN = 8"
definition MIN_ENCODED_LEN :: nat where "MIN_ENCODED_LEN = 1 + 1 + 1 + 1 + 1"

record storage_meta =
  sm_name :: "byte list"
  sm_level :: nat
  sm_entry_level :: nat
  sm_entry_points :: "64 word list"

definition StorageMeta_encode :: "storage_meta \<Rightarrow> byte list" where
  "StorageMeta_encode m =
     [word_of_nat META_VERSION, word_of_nat (length (sm_name m))] @ sm_name m
     @ [word_of_nat (sm_level m), word_of_nat (sm_entry_level m), word_of_nat (length (sm_entry_points m))]
     @ concat (map write_u64_be (sm_entry_points m))"

fun read_entry_points :: "nat \<Rightarrow> byte list \<Rightarrow> 64 word list" where
  "read_entry_points 0 p = []"
| "read_entry_points (Suc n) p = read_u64_be p # read_entry_points n (drop ENTRY_POINT_LEN p)"

definition read1 :: "byte list \<Rightarrow> (nat \<times> byte list) option" where
  "read1 p = (case p of [] \<Rightarrow> None | v # p' \<Rightarrow> Some (unat v, p'))"

definition StorageMeta_decode :: "byte list \<Rightarrow> storage_meta option" where
  "StorageMeta_decode data =
     (case read1 data of None \<Rightarrow> None | Some (version, p1) \<Rightarrow>
      if version \<noteq> META_VERSION then None else
      case read1 p1 of None \<Rightarrow> None | Some (name_len, p2) \<Rightarrow>
      if length p2 < name_len then None else
      case read1 (drop name_len p2) of None \<Rightarrow> None | Some (lvl, p3) \<Rightarrow>
      case read1 p3 of None \<Rightarrow> None | Some (el, p4) \<Rightarrow>
      case read1 p4 of None \<Rightarrow> None | Some (num_eps, p5) \<Rightarrow>
      if length p5 < num_eps * ENTRY_POINT_LEN then None else
      Some \<lparr>sm_name = take name_len p2, sm_level = lvl, sm_entry_level = el, sm_entry_points = read_entry_points num_eps p5\<rparr>)"

subsection \<open>Cursors\<close>

datatype cursor_op = Cursor_Next | Cursor_Prev

text \<open>A position is an index of the result or, at the end, \<open>None\<close>.\<close>

record cursor =
  c_nodes :: "hnsw_node list"
  c_pos :: "nat option"

definition Cursor_init :: "hnsw_node list \<Rightarrow> cursor" where
  "Cursor_init nodes = \<lparr>c_nodes = nodes, c_pos = (if nodes = [] then None else Some 0)\<rparr>"

definition Cursor_current :: "cursor \<Rightarrow> hnsw_node option" where
  "Cursor_current c = (case c_pos c of None \<Rightarrow> None | Some p \<Rightarrow> Some (c_nodes c ! p))"

definition Cursor_eof :: "cursor \<Rightarrow> bool" where "Cursor_eof c \<longleftrightarrow> c_pos c = None"

definition Cursor_advance :: "cursor_op \<Rightarrow> cursor \<Rightarrow> cursor \<times> bool" where
  "Cursor_advance op c =
     (case c_pos c of None \<Rightarrow> (c, True)
      | Some p \<Rightarrow>
          let pos = (case op of
                Cursor_Next \<Rightarrow> if p + 1 < length (c_nodes c) then Some (p + 1) else None
              | Cursor_Prev \<Rightarrow> if p > 0 then Some (p - 1) else None) in
          (c\<lparr>c_pos := pos\<rparr>, pos = None))"

text \<open>The scan hooks on a cursor.\<close>

definition hook_position :: "cursor_op \<Rightarrow> cursor \<Rightarrow> cursor \<times> bool" where
  "hook_position op c = Cursor_advance op c"

definition hook_fetch :: "cursor \<Rightarrow> column_ref option" where
  "hook_fetch c = map_option nd_vid (Cursor_current c)"

definition hook_restore :: "cursor \<Rightarrow> bool" where
  "hook_restore c = Cursor_eof c"

subsection \<open>Options: facts\<close>

lemma validate_bounds:
  "Options_validate o' = None \<longleftrightarrow> 2 \<le> opt_M o' \<and> opt_M o' \<le> 128 \<and> opt_M o' \<le> opt_ef_construction o' \<and> opt_ef_construction o' \<le> 32 * opt_M o'"
  by (auto simp: Options_validate_def Let_def MAX_M_def MAX_EF_CONSTRUCTION_FACTOR_def u32_def)

lemma parse_params_validated: "parse_params ps a b o1 = Inr o2 \<Longrightarrow> Options_validate o2 = None"
  by (induction ps a b o1 rule: parse_params.induct) (auto split: if_splits option.splits)

text \<open>The decimal form of a number.\<close>

fun decimal :: "nat \<Rightarrow> string" where
  "decimal n = (if n < 10 then [char_of (48 + n)] else decimal (n div 10) @ [char_of (48 + n mod 10)])"

declare decimal.simps [simp del]

lemma digit_char: "d < 10 \<Longrightarrow> of_char (char_of (48 + d) :: char) = (48 + d :: nat)"
  by (simp add: of_char_of)

lemma digit_is_digit: "(d :: nat) < 10 \<Longrightarrow> is_digit (char_of (48 + d))"
  by (simp add: is_digit_def digit_char)

lemma decimal_digits: "decimal n \<noteq> []" "list_all is_digit (decimal n)" "digits_value (decimal n) = n"
proof (induction n rule: decimal.induct)
  case (1 n)
  {
    case 1
    show ?case by (subst decimal.simps) simp
  next
    case 2
    show ?case using 1(2) digit_is_digit [of n] digit_is_digit [of "n mod 10"] by (subst decimal.simps) simp
  next
    case 3
    show ?case using 1(3) by (subst decimal.simps) (simp add: digits_value_def digit_char)
  }
qed

lemma parse_decimal: "parse_u32 (Some (decimal n)) = (if n < 2 ^ 32 then Some n else None)"
proof -
  obtain c cs where d: "decimal n = c # cs" using decimal_digits(1) by (cases "decimal n") auto
  have c: "is_digit c" and all: "\<forall>x\<in>set (decimal n). is_digit x"
    using decimal_digits(2) [of n] by (simp_all add: d list_all_iff)
  have nc: "c \<noteq> CHR ''-''" "c \<noteq> CHR ''+''" "\<not> is_space c" using c by (auto simp: is_digit_def is_space_def)
  have t: "takeWhile is_digit (c # cs) = c # cs" using all unfolding d by (intro takeWhile_eq_all_conv [THEN iffD2]) auto
  have "strtoul (decimal n) = (if n > ULONG_MAX then (ULONG_MAX, length (decimal n), True) else (n, length (decimal n), False))"
    using nc t decimal_digits(3) [of n] unfolding strtoul_def d by (simp add: Let_def)
  then show ?thesis using nc by (auto simp: parse_u32_def d ULONG_MAX_def)
qed

text \<open>
  C21: The options of an index are within bounds: whatever the \<^verbatim>\<open>WITH\<close> clause holds, parsing returns an error or
  options with \<open>2 \<le> M \<le> 128\<close> and \<open>M \<le> ef_construction \<le> 32 M\<close>; and numbers in decimal form are accepted exactly when they
  satisfy these bounds.
\<close>

theorem options_parse_bounds:
  "(\<forall>params opts. Options_parse params = Inr opts \<longrightarrow>
      2 \<le> opt_M opts \<and> opt_M opts \<le> 128 \<and> opt_M opts \<le> opt_ef_construction opts \<and> opt_ef_construction opts \<le> 32 * opt_M opts)
   \<and> (\<forall>m ef. Options_parse [(''m'', Some (decimal m)), (''ef_construction'', Some (decimal ef))] = Inr \<lparr>opt_M = m, opt_ef_construction = ef\<rparr>
      \<longleftrightarrow> 2 \<le> m \<and> m \<le> 128 \<and> m \<le> ef \<and> ef \<le> 32 * m)"
proof (intro conjI allI)
  show "Options_parse params = Inr opts \<longrightarrow>
      2 \<le> opt_M opts \<and> opt_M opts \<le> 128 \<and> opt_M opts \<le> opt_ef_construction opts \<and> opt_ef_construction opts \<le> 32 * opt_M opts" for params opts
    unfolding validate_bounds [symmetric] by (auto simp: Options_parse_def dest: parse_params_validated)
  show "Options_parse [(''m'', Some (decimal m)), (''ef_construction'', Some (decimal ef))] = Inr \<lparr>opt_M = m, opt_ef_construction = ef\<rparr>
      \<longleftrightarrow> 2 \<le> m \<and> m \<le> 128 \<and> m \<le> ef \<and> ef \<le> 32 * m" for m ef
    using validate_bounds [of "\<lparr>opt_M = m, opt_ef_construction = ef\<rparr>"]
    by (auto simp: Options_parse_def default_options_def parse_decimal split: option.split)
qed

theorem options_parse_bounds_witness:
  "Options_parse [(''m'', Some (decimal 16)), (''ef_construction'', Some (decimal 100))] = Inr \<lparr>opt_M = 16, opt_ef_construction = 100\<rparr>"
  using options_parse_bounds by simp


subsection \<open>Metadata: facts\<close>

lemma read_entry_points_encoded [simp]:
  "read_entry_points (length eps) (concat (map write_u64_be eps) @ rest) = eps"
proof (induction eps)
  case (Cons e eps)
  have "read_u64_be (write_u64_be e @ xs) = e" for xs
  proof -
    have "read_u64_be (write_u64_be e @ xs) = read_u64_be (write_u64_be e)" by (simp add: read_u64_be_def)
    then show ?thesis by simp
  qed
  with Cons show ?case by (simp add: ENTRY_POINT_LEN_def)
qed simp

lemma length_entry_points [simp]: "length (concat (map write_u64_be eps)) = 8 * length eps"
  by (induction eps) simp_all

definition meta_fits :: "storage_meta \<Rightarrow> bool" where
  "meta_fits m \<longleftrightarrow> length (sm_name m) < 256 \<and> sm_level m < 256 \<and> sm_entry_level m < 256 \<and> length (sm_entry_points m) < 256"

lemma unat_byte: "n < 256 \<Longrightarrow> unat (word_of_nat n :: byte) = n"
  by (simp add: unat_of_nat)

lemma read1_Cons [simp]: "read1 (b # p) = Some (unat b, p)" "read1 [] = None"
  by (simp_all add: read1_def)

lemma decode_encode:
  assumes "meta_fits m"
  shows "StorageMeta_decode (StorageMeta_encode m @ rest) = Some m"
  using assms
  by (cases m) (simp add: meta_fits_def StorageMeta_decode_def StorageMeta_encode_def META_VERSION_def ENTRY_POINT_LEN_def unat_byte)

text \<open>What decodes is as long as its length fields say.\<close>

lemma decode_length:
  "StorageMeta_decode bs = Some m \<Longrightarrow> MIN_ENCODED_LEN + length (sm_name m) + ENTRY_POINT_LEN * length (sm_entry_points m) \<le> length bs"
proof -
  have len: "length (read_entry_points n p) = n" for n p by (induction n p rule: read_entry_points.induct) simp_all
  show "StorageMeta_decode bs = Some m \<Longrightarrow> ?thesis"
    by (auto simp: StorageMeta_decode_def read1_def len MIN_ENCODED_LEN_def ENTRY_POINT_LEN_def min_def
        split: option.splits list.splits if_splits dest!: arg_cong [where f = length]) arith
qed

lemma decode_append: "StorageMeta_decode bs = Some m \<Longrightarrow> StorageMeta_decode (bs @ rest) = Some m"
proof -
  have r1: "read1 bs = Some (v, p) \<Longrightarrow> read1 (bs @ xs) = Some (v, p @ xs)" for bs v p xs
    by (auto simp: read1_def split: list.splits)
  have eps: "n * ENTRY_POINT_LEN \<le> length p \<Longrightarrow> read_entry_points n (p @ xs) = read_entry_points n p" for n p xs
    by (induction n p rule: read_entry_points.induct) (simp_all add: ENTRY_POINT_LEN_def read_u64_be_def)
  show "StorageMeta_decode bs = Some m \<Longrightarrow> ?thesis"
    by (auto simp: StorageMeta_decode_def r1 eps split: option.splits if_splits)
qed

text \<open>
  C20: Metadata survives encoding, also when more bytes follow it, and a truncated encoding is rejected: no strict prefix of
  the encoding of a metadata object is decoded.
\<close>

theorem storage_meta_roundtrip:
  assumes "meta_fits m"
  shows "StorageMeta_decode (StorageMeta_encode m @ rest) = Some m \<and> (\<forall>n < length (StorageMeta_encode m). StorageMeta_decode (take n (StorageMeta_encode m)) = None)"
proof (intro conjI allI impI)
  show "StorageMeta_decode (StorageMeta_encode m @ rest) = Some m" by (rule decode_encode [OF assms])
  fix n assume n: "n < length (StorageMeta_encode m)"
  show "StorageMeta_decode (take n (StorageMeta_encode m)) = None"
  proof (rule ccontr)
    assume "StorageMeta_decode (take n (StorageMeta_encode m)) \<noteq> None"
    then obtain m' where m': "StorageMeta_decode (take n (StorageMeta_encode m)) = Some m'" by blast
    then have "StorageMeta_decode (StorageMeta_encode m) = Some m'" using decode_append [OF m', of "drop n (StorageMeta_encode m)"] by simp
    then have "m' = m" using decode_encode [OF assms, of "[]"] by simp
    with decode_length [OF m'] n show False
      by (simp add: StorageMeta_encode_def MIN_ENCODED_LEN_def ENTRY_POINT_LEN_def)
  qed
qed

theorem storage_meta_roundtrip_witness:
  "StorageMeta_decode (StorageMeta_encode \<lparr>sm_name = [72, 78], sm_level = 0, sm_entry_level = 3, sm_entry_points = [7]\<rparr> @ [1, 2])
   = Some \<lparr>sm_name = [72, 78], sm_level = 0, sm_entry_level = 3, sm_entry_points = [7]\<rparr>"
  using storage_meta_roundtrip [of "\<lparr>sm_name = [72, 78], sm_level = 0, sm_entry_level = 3, sm_entry_points = [7]\<rparr>" "[1, 2]"]
  by (simp add: meta_fits_def)

subsection \<open>Cursors: facts\<close>

definition cursor_ok :: "cursor \<Rightarrow> bool" where
  "cursor_ok c \<longleftrightarrow> (case c_pos c of None \<Rightarrow> True | Some p \<Rightarrow> p < length (c_nodes c))"

text \<open>A scan as the server runs it: fetch, then advance, until the end of the result.\<close>

function scan :: "cursor \<Rightarrow> column_ref list" where
  "scan c = (if Cursor_eof c \<or> \<not> cursor_ok c then [] else the (hook_fetch c) # scan (fst (hook_position Cursor_Next c)))"
  by pat_completeness auto
termination
  by (relation "measure (\<lambda>c. case c_pos c of None \<Rightarrow> 0 | Some p \<Rightarrow> length (c_nodes c) - p)")
     (auto simp: Cursor_eof_def cursor_ok_def hook_position_def Cursor_advance_def Let_def split: option.splits)

declare scan.simps [simp del]

lemma scan_from: "p \<le> length ns \<Longrightarrow> scan \<lparr>c_nodes = ns, c_pos = (if p < length ns then Some p else None)\<rparr> = map nd_vid (drop p ns)"
proof (induction "length ns - p" arbitrary: p)
  case 0
  then show ?case by (subst scan.simps) (simp add: Cursor_eof_def)
next
  case (Suc n)
  then have p: "p < length ns" by simp
  have next': "fst (hook_position Cursor_Next \<lparr>c_nodes = ns, c_pos = Some p\<rparr>) = \<lparr>c_nodes = ns, c_pos = (if Suc p < length ns then Some (Suc p) else None)\<rparr>"
    by (simp add: hook_position_def Cursor_advance_def Let_def)
  have "scan \<lparr>c_nodes = ns, c_pos = Some p\<rparr> = nd_vid (ns ! p) # map nd_vid (drop (Suc p) ns)"
    using Suc.hyps(1) [of "Suc p"] Suc.hyps(2) p
    by (subst scan.simps) (simp add: Cursor_eof_def cursor_ok_def hook_fetch_def Cursor_current_def next')
  with p show ?case by (simp add: Cons_nth_drop_Suc [symmetric])
qed

text \<open>
  C22: A scan ends and delivers the whole result in order: fetching and advancing until the cursor is at its end gives the
  vectors of all nodes of the query result, in their order. A position always lies in the result, stepping forward and back returns to it,
  and at the end no step leads back.
\<close>

theorem cursor_scan:
  "scan (Cursor_init nodes) = map nd_vid nodes
   \<and> (cursor_ok c \<longrightarrow> cursor_ok (fst (Cursor_advance op c)))
   \<and> (cursor_ok c \<and> \<not> snd (Cursor_advance Cursor_Next c) \<longrightarrow> fst (Cursor_advance Cursor_Prev (fst (Cursor_advance Cursor_Next c))) = c)
   \<and> (Cursor_eof c \<longrightarrow> Cursor_advance op c = (c, True))"
proof (intro conjI)
  show "scan (Cursor_init nodes) = map nd_vid nodes"
    using scan_from [of 0 nodes] by (cases nodes) (simp_all add: Cursor_init_def)
qed (cases c, auto simp: cursor_ok_def Cursor_advance_def Cursor_eof_def Let_def split: option.splits cursor_op.splits if_splits)

theorem cursor_scan_witness:
  "cursor_ok (fst (Cursor_advance Cursor_Next (Cursor_init [no_node, no_node])))"
  using cursor_scan [of "[]" "Cursor_init [no_node, no_node]" Cursor_Next] by (simp add: cursor_ok_def Cursor_init_def)

end
