(* ===== verification/Index_Store.thy ===== *)
theory Index_Store
  imports Level_Records Index_Meta
begin

text \<open>
  The store of an index (\<^verbatim>\<open>IndexStore\<close> of \<^verbatim>\<open>src/index/hnsw/storage.h\<close>,
  \<^verbatim>\<open>storage.cc\<close>): two column stores for each of 32 levels in one group, the entry point of the graph, and the life
  cycle of the index. Operations change the object and the pages, and leave both as they are at the
  point of an error. \<open>empty_ref\<close> is the server's reserved key reference \<^verbatim>\<open>EMPTY_REF\<close>.
\<close>

subsection \<open>State\<close>

definition S_MAX_LEVEL :: nat where "S_MAX_LEVEL = 32"
definition S_NUM_STORES :: nat where "S_NUM_STORES = S_MAX_LEVEL * 2"
definition max_level :: nat where "max_level = S_MAX_LEVEL - 1"

text \<open>\<open>is_levels\<close> says which entries of \<^verbatim>\<open>m_levels\<close> have a value; an entry refers to its two stores.\<close>

record index_store =
  is_initialized :: bool
  is_num_neighbours :: nat
  is_ef_construction :: nat
  is_entry_level :: nat
  is_entry_point :: hnsw_node
  is_levels :: "nat \<Rightarrow> bool"
  is_multi_store :: multi_column_store

definition new_index_store :: index_store where
  "new_index_store = \<lparr>is_initialized = False, is_num_neighbours = 0, is_ef_construction = 0, is_entry_level = 0,
     is_entry_point = no_node, is_levels = (\<lambda>_. False), is_multi_store = \<lparr>m_ref = 0, m_stores = []\<rparr>\<rparr>"

type_synonym ('p, 'a) iop = "'p env \<times> index_store \<Rightarrow> ('p env \<times> index_store) \<times> (store_error + 'a)"

definition iret :: "'a \<Rightarrow> ('p, 'a) iop" where "iret x s = (s, Inr x)"

definition ifail :: "store_error \<Rightarrow> ('p, 'a) iop" where "ifail e s = (s, Inl e)"

definition ibind :: "('p, 'a) iop \<Rightarrow> ('a \<Rightarrow> ('p, 'b) iop) \<Rightarrow> ('p, 'b) iop" where
  "ibind m f s = (case m s of (s', Inl e) \<Rightarrow> (s', Inl e) | (s', Inr x) \<Rightarrow> f x s')"

definition imodify :: "(index_store \<Rightarrow> index_store) \<Rightarrow> ('p, unit) iop" where
  "imodify f = (\<lambda>(env, st). ((env, f st), Inr ()))"

definition iget :: "('p, index_store) iop" where "iget = (\<lambda>(env, st). ((env, st), Inr st))"

text \<open>An operation on the pages, and one that also returns the new group of stores.\<close>

definition on_pages :: "(index_store \<Rightarrow> ('p, 'a) op) \<Rightarrow> ('p, 'a) iop" where
  "on_pages m = (\<lambda>(env, st). case m st env of (env', r) \<Rightarrow> ((env', st), r))"

definition on_stores :: "(multi_column_store \<Rightarrow> ('p, multi_column_store) op) \<Rightarrow> ('p, unit) iop" where
  "on_stores m = ibind (on_pages (\<lambda>st. m (is_multi_store st))) (\<lambda>ms. imodify (\<lambda>st. st\<lparr>is_multi_store := ms\<rparr>))"

subsection \<open>Levels\<close>

definition IndexStore_entry_len :: "index_store \<Rightarrow> nat \<Rightarrow> nat" where
  "IndexStore_entry_len st level = u16 (neighbour_storage_size (max_neighbours level (is_num_neighbours st)) (has_lower_level level))"

definition IndexStore_overflow_len :: "index_store \<Rightarrow> nat \<Rightarrow> nat" where
  "IndexStore_overflow_len st level = u16 (overflow_storage_size (overflow_capacity level (is_num_neighbours st)))"

datatype root_type = Root_Primary | Root_Overflow

definition segment_index :: "nat \<Rightarrow> nat" where "segment_index level = (if level = 0 then 0 else 1)"
definition segment_total :: nat where "segment_total = 2"
definition root_index :: "nat \<Rightarrow> root_type \<Rightarrow> nat" where
  "root_index level ty = u8 (level * 2 + (if ty = Root_Overflow then 1 else 0))"

definition level_of :: "index_store \<Rightarrow> nat \<Rightarrow> level_store" where
  "level_of st level = \<lparr>ls_level = level, ls_store = m_stores (is_multi_store st) ! root_index level Root_Primary,
     ls_overflow = m_stores (is_multi_store st) ! root_index level Root_Overflow, ls_num_neighbours = is_num_neighbours st\<rparr>"

definition get_level :: "index_store \<Rightarrow> nat \<Rightarrow> level_store option" where
  "get_level st level = (if level < S_MAX_LEVEL \<and> is_levels st level then Some (level_of st level) else None)"

text \<open>A missing level is a null pointer without an error text.\<close>

definition IndexStore_locate :: "'p page_api \<Rightarrow> nid \<Rightarrow> ('p, store_kind \<times> level_store option) iop" where
  "IndexStore_locate P nid =
     ibind (on_pages (\<lambda>st. with_mtr (MultiColumnStore_get_root_index P (is_multi_store st) (nid_column_ref nid)))) (\<lambda>root_idx.
     ibind iget (\<lambda>st.
     iret (if odd root_idx then Kind_Overflow else Kind_Neighbour, get_level st (root_idx div 2))))"

definition init_half :: "'p page_api \<Rightarrow> nat \<Rightarrow> root_type \<Rightarrow> ('p, unit) iop" where
  "init_half P l ty =
     ibind iget (\<lambda>st.
     if ColumnStore_initialized (m_stores (is_multi_store st) ! root_index l ty) then iret ()
     else on_stores (MultiColumnStore_init_root_page P (segment_index l) (root_index l ty)))"

definition create_level :: "'p page_api \<Rightarrow> nat \<Rightarrow> ('p, unit) iop" where
  "create_level P l =
     ibind (init_half P l Root_Primary) (\<lambda>_.
     ibind (init_half P l Root_Overflow) (\<lambda>_.
     imodify (\<lambda>st. st\<lparr>is_levels := (is_levels st)(l := True)\<rparr>)))"

fun create_levels :: "'p page_api \<Rightarrow> nat list \<Rightarrow> ('p, unit) iop" where
  "create_levels P [] = iret ()"
| "create_levels P (l # ls) = ibind (create_level P l) (\<lambda>_. create_levels P ls)"

definition IndexStore_ensure_levels :: "'p page_api \<Rightarrow> nat \<Rightarrow> ('p, level_store option) iop" where
  "IndexStore_ensure_levels P target =
     ibind iget (\<lambda>st.
     ibind (create_levels P [is_entry_level st + 1..<target + 1]) (\<lambda>_.
     ibind iget (\<lambda>st'. iret (get_level st' target))))"

subsection \<open>Entry point\<close>

definition ref_of_node :: "64 word \<Rightarrow> hnsw_node \<Rightarrow> 64 word" where
  "ref_of_node empty_ref node = (if is_valid (nd_nid node) then nd_nid node else empty_ref)"

definition IndexStore_set_entry_point :: "'p page_api \<Rightarrow> 64 word \<Rightarrow> hnsw_node \<Rightarrow> nat \<Rightarrow> ('p, unit) iop" where
  "IndexStore_set_entry_point P empty_ref node level =
     ibind iget (\<lambda>st.
     let primary = m_stores (is_multi_store st) ! 0 in
     case StorageMeta_decode (m_metadata primary) of
       None \<Rightarrow> ifail (Local ''HNSW: set_entry_point: failed to decode level-0 metadata'' [])
     | Some meta \<Rightarrow>
         ibind (on_stores (\<lambda>ms. bind_op (ColumnStore_update_metadata P primary
             (StorageMeta_encode (meta\<lparr>sm_entry_level := level, sm_entry_points := [ref_of_node empty_ref node]\<rparr>))) (\<lambda>cs.
             ret (ms\<lparr>m_stores := (m_stores ms)[0 := cs]\<rparr>)))) (\<lambda>_.
         imodify (\<lambda>st. st\<lparr>is_entry_point := node, is_entry_level := level\<rparr>)))"

subsection \<open>Life cycle\<close>

definition string_bytes :: "string \<Rightarrow> byte list" where "string_bytes str = map of_char str"

definition level_name :: "nat \<Rightarrow> byte list" where "level_name l = string_bytes (''HNSW-L'' @ decimal l)"

definition level_specs :: "64 word \<Rightarrow> index_store \<Rightarrow> nat \<Rightarrow> storage_spec list" where
  "level_specs empty_ref st l =
     [\<lparr>spec_col_len = IndexStore_entry_len st l, spec_metadata = StorageMeta_encode
         \<lparr>sm_name = level_name l, sm_level = l, sm_entry_level = (if l = 0 then is_entry_level st else 0),
          sm_entry_points = (if l = 0 then [ref_of_node empty_ref (is_entry_point st)] else [])\<rparr>\<rparr>,
      \<lparr>spec_col_len = IndexStore_overflow_len st l, spec_metadata = StorageMeta_encode
         \<lparr>sm_name = level_name l @ string_bytes ''-OV'', sm_level = l, sm_entry_level = 0, sm_entry_points = []\<rparr>\<rparr>]"

definition build_storage_specs :: "64 word \<Rightarrow> index_store \<Rightarrow> storage_spec list" where
  "build_storage_specs empty_ref st = concat (map (level_specs empty_ref st) [0..<S_MAX_LEVEL])"

definition set_options :: "options \<Rightarrow> index_store \<Rightarrow> index_store" where
  "set_options opts st = st\<lparr>is_num_neighbours := opt_M opts, is_ef_construction := opt_ef_construction opts\<rparr>"

definition IndexStore_create :: "'p page_api \<Rightarrow> 64 word \<Rightarrow> space_ref \<Rightarrow> options \<Rightarrow> ('p, unit) iop" where
  "IndexStore_create P empty_ref space_ref opts =
     ibind (imodify (set_options opts)) (\<lambda>_.
     ibind iget (\<lambda>st.
     ibind (on_stores (\<lambda>_. MultiColumnStore_create P space_ref (build_storage_specs empty_ref st) segment_total)) (\<lambda>_.
     ibind (on_stores (MultiColumnStore_init_root_page P (segment_index 0) (root_index 0 Root_Overflow))) (\<lambda>_.
     imodify (\<lambda>st. st\<lparr>is_levels := (is_levels st)(0 := True), is_initialized := True\<rparr>)))))"

definition IndexStore_drop :: "('p, unit) iop" where
  "IndexStore_drop = on_pages (\<lambda>st. MultiColumnStore_drop (is_multi_store st))"

text \<open>The levels from \<open>lvl\<close> on whose two stores exist, up to the first that is incomplete.\<close>

fun loaded_levels :: "column_store list \<Rightarrow> nat list \<Rightarrow> nat list" where
  "loaded_levels stores [] = []"
| "loaded_levels stores (lvl # lvls) =
     (let si = u8 (lvl * 2) in
      if si + 1 \<ge> u8 (length stores) \<or> \<not> ColumnStore_initialized (stores ! si) \<or> \<not> ColumnStore_initialized (stores ! (si + 1)) then []
      else lvl # loaded_levels stores lvls)"

text \<open>
  An entry level without a store would be a null pointer dereference, which an assertion rules out in a debug build; the model
  reports it as an error of its own.
\<close>

definition IndexStore_load :: "'p page_api \<Rightarrow> 64 word \<Rightarrow> 64 word \<Rightarrow> options \<Rightarrow> ('p, unit) iop" where
  "IndexStore_load P empty_ref storage_ref opts =
     ibind (imodify (set_options opts)) (\<lambda>_.
     ibind iget (\<lambda>st.
     ibind (on_stores (\<lambda>_. MultiColumnStore_load P storage_ref (build_storage_specs empty_ref st))) (\<lambda>_.
     ibind iget (\<lambda>st1.
     case StorageMeta_decode (m_metadata (m_stores (is_multi_store st1) ! 0)) of
       None \<Rightarrow> ifail (Local ''HNSW: load: failed to decode level-0 metadata'' [])
     | Some level0_meta \<Rightarrow>
         let entry_ref = (case sm_entry_points level0_meta of [] \<Rightarrow> empty_ref | r # _ \<Rightarrow> r);
             entry_nid = (if entry_ref \<noteq> empty_ref then entry_ref else INVALID_ID) in
         ibind (imodify (\<lambda>st. st\<lparr>is_entry_level := sm_entry_level level0_meta,
           is_levels := (\<lambda>l. is_levels st l \<or> l \<in> set (loaded_levels (m_stores (is_multi_store st)) [0..<S_MAX_LEVEL])),
           is_entry_point := no_node\<rparr>)) (\<lambda>_.
         ibind (if is_valid entry_nid then
             ibind iget (\<lambda>st2.
             case get_level st2 (is_entry_level st2) of
               None \<Rightarrow> ifail (Local ''HNSW: load: entry level missing'' [])
             | Some store \<Rightarrow>
                 ibind (on_pages (\<lambda>_. LevelStore_resolve_owner P store entry_nid)) (\<lambda>node.
                 imodify (\<lambda>st. st\<lparr>is_entry_point := node\<rparr>)))
           else iret ()) (\<lambda>_.
         imodify (\<lambda>st. st\<lparr>is_initialized := True\<rparr>)))))))"

text \<open>The life cycle hooks; the reference of a created index goes back to the server.\<close>

definition hook_create :: "'p page_api \<Rightarrow> 64 word \<Rightarrow> space_ref \<Rightarrow> options \<Rightarrow> ('p, 64 word) iop" where
  "hook_create P empty_ref space_ref opts =
     ibind (IndexStore_create P empty_ref space_ref opts) (\<lambda>_.
     ibind iget (\<lambda>st. iret (m_ref (is_multi_store st))))"

definition hook_drop :: "('p, unit) iop" where "hook_drop = IndexStore_drop"

definition hook_load :: "'p page_api \<Rightarrow> 64 word \<Rightarrow> 64 word \<Rightarrow> options \<Rightarrow> ('p, unit) iop" where
  "hook_load P empty_ref storage_ref opts = IndexStore_load P empty_ref storage_ref opts"

subsection \<open>Creating levels\<close>

lemma fresh_ok_keeps:
  "preserves fresh_ok (load r l e)" "preserves fresh_ok (upd r f)" "preserves fresh_ok (peek r)"
proof -
  show "preserves fresh_ok (load r l e)" unfolding preserves_def by (rule triple_load) (auto simp: fresh_ok_def)
  show "preserves fresh_ok (upd r f)"
    by (auto simp: preserves_def triple_def upd_def fresh_ok_def split: option.splits latch.splits)
  show "preserves fresh_ok (peek r)" by (rule preserves_monad)
qed

lemma triple_with_mtr:
  assumes "triple A m Q E" "\<And>s l. A s \<Longrightarrow> A (s\<lparr>latches := l\<rparr>)" "\<And>x s l. Q x s \<Longrightarrow> Q x (s\<lparr>latches := l\<rparr>)" "\<And>e s l. E e s \<Longrightarrow> E e (s\<lparr>latches := l\<rparr>)"
  shows "triple A (with_mtr m) Q E"
  unfolding triple_def
proof (intro allI impI)
  fix s assume "A s"
  then have "A (s\<lparr>latches := \<lambda>_. None\<rparr>)" by (rule assms(2))
  then show "case with_mtr m s of (s', Inr x) \<Rightarrow> Q x s' | (s', Inl e) \<Rightarrow> E e s'"
    using assms(1,3,4) by (auto simp: triple_def with_mtr_def split: prod.splits sum.splits)
qed

text \<open>A root page that was created belongs to its store from then on.\<close>

definition rooted :: "multi_column_store \<Rightarrow> nat \<Rightarrow> multi_column_store \<Rightarrow> bool" where
  "rooted ms k ms' \<longleftrightarrow> (\<exists>cs. ColumnStore_initialized cs \<and> ms' = ms\<lparr>m_stores := (m_stores ms)[k := cs]\<rparr>)"

lemma init_root_page_triple:
  "triple fresh_ok (MultiColumnStore_init_root_page P seg k ms) (\<lambda>ms' s. fresh_ok s \<and> rooted ms k ms') (\<lambda>_. fresh_ok)"
proof -
  have new: "triple fresh_ok (load_new P sg e) (\<lambda>r s. fresh_ok s \<and> r \<noteq> INVALID_REF) (\<lambda>_. fresh_ok)" for sg e
    unfolding load_new_def by (rule triple_take_fresh) (auto simp: fresh_ok_def)
  have fmt: "triple (\<lambda>s. fresh_ok s \<and> r \<noteq> INVALID_REF)
     (case RootPage_format P v md rp pg of None \<Rightarrow> fail e
        | Some (rp', pg') \<Rightarrow> bind_op (upd r (\<lambda>_. pg')) (\<lambda>_. bind_op (upd q g) (\<lambda>_. ret (rp', r))))
     (\<lambda>(rp', r) s. fresh_ok s \<and> r \<noteq> INVALID_REF) (\<lambda>_. fresh_ok)" for r v md rp pg e q g
  proof -
    have k: "preserves (\<lambda>s. fresh_ok s \<and> r \<noteq> INVALID_REF) (upd x f)" for x f
      using fresh_ok_keeps(2) [of x f] by (auto simp: preserves_def triple_def split: prod.splits sum.splits)
    have u: "triple (\<lambda>s. fresh_ok s \<and> r \<noteq> INVALID_REF) (upd x f) (\<lambda>_ s. fresh_ok s \<and> r \<noteq> INVALID_REF) (\<lambda>_. fresh_ok)" for x f
      by (rule triple_conseq [OF k [unfolded preserves_def]]) auto
    show ?thesis
      by (auto split: option.split intro!: triple_fail triple_bind [OF u] triple_ret)
  qed
  have peek: "triple (\<lambda>s. fresh_ok s \<and> r \<noteq> INVALID_REF) (peek r) (\<lambda>_ s. fresh_ok s \<and> r \<noteq> INVALID_REF) (\<lambda>_. fresh_ok)" for r
    by (auto simp: triple_def peek_def split: option.splits)
  show ?thesis
    unfolding MultiColumnStore_init_root_page_def Let_def
    by (rule triple_bind [where B = "\<lambda>(rp', r) s. fresh_ok s \<and> r \<noteq> INVALID_REF"],
        rule triple_with_mtr, rule triple_bind [OF fresh_ok_keeps(1) [unfolded preserves_def]], rule triple_bind [OF new], rule triple_bind [OF peek], rule fmt)
       (auto simp: fresh_ok_def rooted_def ColumnStore_initialized_def intro!: triple_ret exI)
qed

lemma init_half_outcome:
  assumes run: "init_half P l ty (env, st) = ((env', st'), r)" and f: "fresh_ok env"
    and k: "root_index l ty < length (m_stores (is_multi_store st))"
  defines "k \<equiv> root_index l ty"
  shows "fresh_ok env'" "\<exists>ms'. st' = st\<lparr>is_multi_store := ms'\<rparr> \<and> length (m_stores ms') = length (m_stores (is_multi_store st))
      \<and> (\<forall>i. i \<noteq> k \<or> ColumnStore_initialized (m_stores (is_multi_store st) ! k) \<longrightarrow> m_stores ms' ! i = m_stores (is_multi_store st) ! i)
      \<and> (r = Inr () \<longrightarrow> ColumnStore_initialized (m_stores ms' ! k))"
    and "ColumnStore_initialized (m_stores (is_multi_store st) ! k) \<Longrightarrow> env' = env \<and> st' = st \<and> r = Inr ()"
proof -
  let ?ms = "is_multi_store st"
  show skip: "ColumnStore_initialized (m_stores ?ms ! k) \<Longrightarrow> env' = env \<and> st' = st \<and> r = Inr ()"
    using run by (auto simp: init_half_def ibind_def iget_def iret_def k_def)
  have id: "st\<lparr>is_multi_store := ?ms\<rparr> = st" by simp
  have "fresh_ok env' \<and> (\<exists>ms'. st' = st\<lparr>is_multi_store := ms'\<rparr> \<and> length (m_stores ms') = length (m_stores ?ms)
      \<and> (\<forall>i. i \<noteq> k \<or> ColumnStore_initialized (m_stores ?ms ! k) \<longrightarrow> m_stores ms' ! i = m_stores ?ms ! i)
      \<and> (r = Inr () \<longrightarrow> ColumnStore_initialized (m_stores ms' ! k)))"
  proof (cases "ColumnStore_initialized (m_stores ?ms ! k)")
    case True
    with skip f show ?thesis by (intro conjI exI [of _ ?ms]) auto
  next
    case False
    obtain e1 v where v: "MultiColumnStore_init_root_page P (segment_index l) k ?ms env = (e1, v)"
      by (cases "MultiColumnStore_init_root_page P (segment_index l) k ?ms env")
    note t = init_root_page_triple [of P "segment_index l" k ?ms]
    show ?thesis
    proof (cases v)
      case (Inl e)
      with v run False tripleD2 [OF t f] show ?thesis
        by (intro conjI exI [of _ ?ms])
           (auto simp: init_half_def ibind_def iget_def on_stores_def on_pages_def k_def)
    next
      case (Inr ms')
      have "fresh_ok e1" and r: "rooted ?ms k ms'" using tripleD1 [OF t f] v Inr by auto
      moreover have "env' = e1" "st' = st\<lparr>is_multi_store := ms'\<rparr>"
        using v run False Inr by (auto simp: init_half_def ibind_def iget_def on_stores_def on_pages_def imodify_def k_def)
      ultimately show ?thesis using k False by (intro conjI exI [of _ ms']) (auto simp: rooted_def k_def)
    qed
  qed
  then show "fresh_ok env'" "\<exists>ms'. st' = st\<lparr>is_multi_store := ms'\<rparr> \<and> length (m_stores ms') = length (m_stores ?ms)
      \<and> (\<forall>i. i \<noteq> k \<or> ColumnStore_initialized (m_stores ?ms ! k) \<longrightarrow> m_stores ms' ! i = m_stores ?ms ! i)
      \<and> (r = Inr () \<longrightarrow> ColumnStore_initialized (m_stores ms' ! k))" by blast+
qed

text \<open>What creating levels may change: stores that have no root page yet, and levels that do not exist yet.\<close>

definition grown :: "index_store \<Rightarrow> index_store \<Rightarrow> bool" where
  "grown st st' \<longleftrightarrow> (\<exists>ms lv. st' = st\<lparr>is_multi_store := ms, is_levels := lv\<rparr>
     \<and> length (m_stores ms) = length (m_stores (is_multi_store st))
     \<and> (\<forall>i < length (m_stores ms). ColumnStore_initialized (m_stores (is_multi_store st) ! i) \<longrightarrow> m_stores ms ! i = m_stores (is_multi_store st) ! i)
     \<and> (\<forall>l. is_levels st l \<longrightarrow> lv l))"

definition complete_level :: "index_store \<Rightarrow> nat \<Rightarrow> bool" where
  "complete_level st l \<longleftrightarrow> is_levels st l \<and> (\<forall>ty. ColumnStore_initialized (m_stores (is_multi_store st) ! root_index l ty))"

lemma grownI:
  "st' = st\<lparr>is_multi_store := ms, is_levels := lv\<rparr> \<Longrightarrow> length (m_stores ms) = length (m_stores (is_multi_store st)) \<Longrightarrow>
   (\<And>i. i < length (m_stores ms) \<Longrightarrow> ColumnStore_initialized (m_stores (is_multi_store st) ! i) \<Longrightarrow> m_stores ms ! i = m_stores (is_multi_store st) ! i) \<Longrightarrow>
   (\<And>l. is_levels st l \<Longrightarrow> lv l) \<Longrightarrow> grown st st'"
  unfolding grown_def by blast

lemma grown_refl [simp]: "grown st st"
  by (rule grownI [where ms = "is_multi_store st" and lv = "is_levels st"]) simp_all

lemma grown_trans:
  assumes "grown a b" "grown b c"
  shows "grown a c"
proof -
  obtain ms lv where b: "b = a\<lparr>is_multi_store := ms, is_levels := lv\<rparr>" "length (m_stores ms) = length (m_stores (is_multi_store a))"
    "\<And>i. i < length (m_stores ms) \<Longrightarrow> ColumnStore_initialized (m_stores (is_multi_store a) ! i) \<Longrightarrow> m_stores ms ! i = m_stores (is_multi_store a) ! i"
    "\<And>l. is_levels a l \<Longrightarrow> lv l" using assms(1) unfolding grown_def by auto
  obtain ms' lv' where c: "c = b\<lparr>is_multi_store := ms', is_levels := lv'\<rparr>" "length (m_stores ms') = length (m_stores (is_multi_store b))"
    "\<And>i. i < length (m_stores ms') \<Longrightarrow> ColumnStore_initialized (m_stores (is_multi_store b) ! i) \<Longrightarrow> m_stores ms' ! i = m_stores (is_multi_store b) ! i"
    "\<And>l. is_levels b l \<Longrightarrow> lv' l" using assms(2) unfolding grown_def by auto
  show ?thesis
    by (rule grownI [where ms = ms' and lv = lv']) (use b c in simp_all)
qed

lemma grown_length: "grown st st' \<Longrightarrow> length (m_stores (is_multi_store st')) = length (m_stores (is_multi_store st))"
  by (auto simp: grown_def)

lemma root_index_less: "l < S_MAX_LEVEL \<Longrightarrow> root_index l ty < S_NUM_STORES"
  by (simp add: root_index_def S_MAX_LEVEL_def S_NUM_STORES_def u8_def)

lemma grown_complete:
  assumes "grown st st'" "complete_level st l" "l < S_MAX_LEVEL" "length (m_stores (is_multi_store st)) = S_NUM_STORES"
  shows "complete_level st' l"
proof -
  obtain ms lv where g: "st' = st\<lparr>is_multi_store := ms, is_levels := lv\<rparr>" "length (m_stores ms) = S_NUM_STORES"
    "\<And>i. i < length (m_stores ms) \<Longrightarrow> ColumnStore_initialized (m_stores (is_multi_store st) ! i) \<Longrightarrow> m_stores ms ! i = m_stores (is_multi_store st) ! i"
    "\<And>l. is_levels st l \<Longrightarrow> lv l"
    using assms(1,4) unfolding grown_def by auto
  have "ColumnStore_initialized (m_stores ms ! root_index l ty)" for ty
    using g(3) [of "root_index l ty"] root_index_less [OF assms(3), of ty] assms(2) g(2) by (simp add: complete_level_def)
  with g(1,4) assms(2) show ?thesis by (simp add: complete_level_def)
qed

lemma init_half_grown:
  assumes "init_half P l ty (env, st) = ((env', st'), r)" "fresh_ok env" "l < S_MAX_LEVEL" "length (m_stores (is_multi_store st)) = S_NUM_STORES"
  shows "fresh_ok env'" "grown st st'" "r = Inr () \<longrightarrow> ColumnStore_initialized (m_stores (is_multi_store st') ! root_index l ty)"
proof -
  have k: "root_index l ty < length (m_stores (is_multi_store st))" using root_index_less [OF assms(3)] assms(4) by simp
  note o = init_half_outcome [OF assms(1,2) k]
  show "fresh_ok env'" by (rule o(1))
  obtain ms' where m: "st' = st\<lparr>is_multi_store := ms'\<rparr>" "length (m_stores ms') = length (m_stores (is_multi_store st))"
    "\<forall>i. i \<noteq> root_index l ty \<or> ColumnStore_initialized (m_stores (is_multi_store st) ! root_index l ty) \<longrightarrow> m_stores ms' ! i = m_stores (is_multi_store st) ! i"
    "r = Inr () \<longrightarrow> ColumnStore_initialized (m_stores ms' ! root_index l ty)"
    using o(2) by blast
  show "grown st st'"
  proof (rule grownI [where ms = ms' and lv = "is_levels st"])
    fix i assume "ColumnStore_initialized (m_stores (is_multi_store st) ! i)"
    then show "m_stores ms' ! i = m_stores (is_multi_store st) ! i" using m(3) by (cases "i = root_index l ty") auto
  qed (use m in simp_all)
  show "r = Inr () \<longrightarrow> ColumnStore_initialized (m_stores (is_multi_store st') ! root_index l ty)" using m(1,4) by simp
qed

lemma create_level_grown:
  assumes run: "create_level P l (env, st) = ((env', st'), r)" and f: "fresh_ok env" and l: "l < S_MAX_LEVEL"
    and n: "length (m_stores (is_multi_store st)) = S_NUM_STORES"
  shows "fresh_ok env' \<and> grown st st' \<and> (r = Inr () \<longrightarrow> complete_level st' l)"
proof -
  obtain env1 st1 r1 where r1: "init_half P l Root_Primary (env, st) = ((env1, st1), r1)"
    by (cases "init_half P l Root_Primary (env, st)") auto
  note i1 = init_half_grown [OF r1 f l n]
  have n1: "length (m_stores (is_multi_store st1)) = S_NUM_STORES" using grown_length [OF i1(2)] n by simp
  obtain env2 st2 r2 where r2: "init_half P l Root_Overflow (env1, st1) = ((env2, st2), r2)"
    by (cases "init_half P l Root_Overflow (env1, st1)") auto
  note i2 = init_half_grown [OF r2 i1(1) l n1]
  have p2: "ColumnStore_initialized (m_stores (is_multi_store st1) ! root_index l Root_Primary) \<Longrightarrow>
      m_stores (is_multi_store st2) ! root_index l Root_Primary = m_stores (is_multi_store st1) ! root_index l Root_Primary"
    using i2(2) root_index_less [OF l, of Root_Primary] n1 by (auto simp: grown_def)
  have up: "grown s (s\<lparr>is_levels := (is_levels s)(l := True)\<rparr>)" for s
    by (rule grownI [where ms = "is_multi_store s" and lv = "(is_levels s)(l := True)"]) simp_all
  show ?thesis
  proof (cases r1)
    case (Inl e)
    with run r1 i1 show ?thesis by (auto simp: create_level_def ibind_def)
  next
    case (Inr u1)
    show ?thesis
    proof (cases r2)
      case (Inl e)
      with run r1 r2 Inr i2(1) grown_trans [OF i1(2) i2(2)] show ?thesis by (auto simp: create_level_def ibind_def)
    next
      case (Inr u2)
      have st': "env' = env2" "st' = st2\<lparr>is_levels := (is_levels st2)(l := True)\<rparr>" "r1 = Inr ()" "r = Inr ()"
        using run r1 r2 Inr \<open>r1 = Inr u1\<close> by (auto simp: create_level_def ibind_def imodify_def)
      have "ColumnStore_initialized (m_stores (is_multi_store st2) ! root_index l ty)" for ty
        using i1(3) i2(3) p2 st'(3) Inr by (cases ty) auto
      with st' i2(1) grown_trans [OF grown_trans [OF i1(2) i2(2)] up] show ?thesis by (simp add: complete_level_def)
    qed
  qed
qed

lemma create_level_again: "complete_level st l \<Longrightarrow> create_level P l (env, st) = ((env, st), Inr ())"
  by (simp add: complete_level_def create_level_def init_half_def ibind_def iget_def iret_def imodify_def fun_upd_idem)

lemma create_levels_grown:
  assumes "create_levels P ls (env, st) = ((env', st'), r)" "fresh_ok env" "\<forall>l\<in>set ls. l < S_MAX_LEVEL" "length (m_stores (is_multi_store st)) = S_NUM_STORES"
  shows "fresh_ok env' \<and> grown st st' \<and> (r = Inr () \<longrightarrow> (\<forall>l\<in>set ls. complete_level st' l))"
  using assms
proof (induction ls arbitrary: env st)
  case Nil
  then show ?case by (auto simp: iret_def)
next
  case (Cons l ls)
  obtain env1 st1 r1 where r1: "create_level P l (env, st) = ((env1, st1), r1)" by (cases "create_level P l (env, st)") auto
  have l: "l < S_MAX_LEVEL" using Cons.prems(3) by simp
  have c: "fresh_ok env1 \<and> grown st st1 \<and> (r1 = Inr () \<longrightarrow> complete_level st1 l)"
    by (rule create_level_grown [OF r1 Cons.prems(2) l Cons.prems(4)])
  show ?case
  proof (cases r1)
    case (Inl e)
    with r1 c Cons.prems(1) show ?thesis by (auto simp: ibind_def)
  next
    case (Inr u)
    have n1: "length (m_stores (is_multi_store st1)) = S_NUM_STORES" using c grown_length Cons.prems(4) by metis
    have "fresh_ok env' \<and> grown st1 st' \<and> (r = Inr () \<longrightarrow> (\<forall>l\<in>set ls. complete_level st' l))"
      by (rule Cons.IH [of env1 st1]) (use r1 Inr Cons.prems c n1 in \<open>auto simp: ibind_def\<close>)
    moreover from this have "complete_level st' l" using grown_complete [of st1 st' l] c Inr l n1 by simp
    ultimately show ?thesis using c grown_trans by auto
  qed
qed

lemma create_levels_again: "\<forall>l\<in>set ls. complete_level st l \<Longrightarrow> create_levels P ls (env, st) = ((env, st), Inr ())"
  by (induction ls) (simp_all add: iret_def ibind_def create_level_again)

lemma get_level_Some: "is_levels st l \<Longrightarrow> l < S_MAX_LEVEL \<Longrightarrow> get_level st l = Some (level_of st l)"
  by (simp add: get_level_def)

lemma ensure_levels_outcome:
  assumes run: "IndexStore_ensure_levels P target (env, st) = ((env', st'), r)" and f: "fresh_ok env" and t: "target < S_MAX_LEVEL"
    and n: "length (m_stores (is_multi_store st)) = S_NUM_STORES" and e: "is_levels st (is_entry_level st)" and le: "is_entry_level st \<le> target"
  shows "fresh_ok env' \<and> grown st st' \<and> (case r of Inl _ \<Rightarrow> True
    | Inr res \<Rightarrow> res = Some (level_of st' target) \<and> (\<forall>l. is_entry_level st < l \<and> l \<le> target \<longrightarrow> complete_level st' l)
        \<and> IndexStore_ensure_levels P target (env', st') = ((env', st'), Inr res))"
proof -
  let ?ls = "[is_entry_level st + 1..<target + 1]"
  obtain env1 st1 r1 where r1: "create_levels P ?ls (env, st) = ((env1, st1), r1)" by (cases "create_levels P ?ls (env, st)") auto
  have c: "fresh_ok env1 \<and> grown st st1 \<and> (r1 = Inr () \<longrightarrow> (\<forall>l\<in>set ?ls. complete_level st1 l))"
    by (rule create_levels_grown [OF r1 f _ n]) (use t in auto)
  show ?thesis
  proof (cases r1)
    case (Inl err)
    with run r1 c show ?thesis by (auto simp: IndexStore_ensure_levels_def ibind_def iget_def)
  next
    case (Inr u)
    have st': "env' = env1" "st' = st1" "r = Inr (get_level st1 target)"
      using run r1 Inr by (auto simp: IndexStore_ensure_levels_def ibind_def iget_def iret_def)
    have el: "is_entry_level st1 = is_entry_level st" and lv: "is_levels st1 (is_entry_level st)"
      using c e by (auto simp: grown_def)
    have all: "\<forall>l\<in>set ?ls. complete_level st1 l" using c Inr by simp
    have "is_levels st1 target"
    proof (cases "target = is_entry_level st")
      case False
      then show ?thesis using all le by (simp add: complete_level_def)
    qed (use lv in simp)
    then have g: "get_level st1 target = Some (level_of st1 target)" using t by (rule get_level_Some)
    have "IndexStore_ensure_levels P target (env1, st1) = ((env1, st1), Inr (get_level st1 target))"
      using create_levels_again [OF all, of P env1] unfolding IndexStore_ensure_levels_def
      by (simp add: ibind_def iget_def iret_def el del: upt_Suc)
    moreover have "\<forall>l. is_entry_level st < l \<and> l \<le> target \<longrightarrow> complete_level st1 l" using all by (auto simp del: upt_Suc)
    ultimately show ?thesis using c st' g by simp
  qed
qed

subsection \<open>A new root page beside the primary store\<close>

context root_layout
begin

text \<open>Writing a reference into the array of other root pages keeps the lists of a root page.\<close>

lemma other_ref_root_lists:
  assumes k: "k < m_num_other_root_pages rp" and rl: "root_lists P rp m root fl dl" and pg: "m root = Some pg"
    and m': "m' root = Some (write_integer_4 P pg (other_root_pages_off rp + k * ROOT_PAGE_REF_LEN) v)" "\<And>y. y \<in> set dl \<Longrightarrow> m' y = m y"
  shows "root_lists P rp m' root fl dl"
proof -
  have fl: "free_lists P rp m root fl" and dl: "data_list P rp m root dl" and sub: "\<And>k. set (fl k) \<subseteq> set dl"
    using rl by (auto simp: root_lists_def)
  have "k * 4 + 4 \<le> 4 * m_num_other_root_pages rp" using k by simp
  then have o: "other_root_pages_off rp + k * ROOT_PAGE_REF_LEN + 4 \<le> all_slot_head_off rp"
    by (simp add: root_offs layout_defs)
  have y: "m' y = m y" "m y \<noteq> None" if "y \<in> set (fl k)" for y k
    using that sub [of k] m'(2) [of y] root_lists_member(3) [OF rl, of y] by auto
  have "free_lists P rp m' root fl"
    by (rule free_lists_frame [OF fl])
      (use o pg m' y free_lists_slot(4,5) [OF fl] in
        \<open>auto simp: slot_head_def cur_slots_def slot_off read_frames root_offs layout_defs\<close>)
  moreover have "data_list P rp m' root dl"
    by (rule data_list_frame [OF dl])
      (use o pg m' root_lists_member(3,4) [OF rl] in \<open>auto simp: read_frames root_offs layout_defs\<close>)
  ultimately show ?thesis using rl by (simp add: root_lists_def)
qed

end

lemma init_root_page_run:
  fixes P :: "'p page_api"
  assumes sl: "store_layout P (m_stores ms ! 0)" and si: "store_inv P (m_stores ms ! 0) (pages s) fl dl"
    and k: "0 < k" "k - 1 < m_num_other_root_pages (m_root (m_stores ms ! 0))"
    and t: "root_layout P (m_root t)" "m_num_segments (m_root t) = 0" "length (m_metadata t) = m_storage_metadata_len (m_root t)" "t = m_stores ms ! k"
    and ok: "faults s = []" "fresh s = r # rs" "fresh_ok s"
  obtains s' where "MultiColumnStore_init_root_page P seg k ms s = (s', Inr (ms\<lparr>m_stores := (m_stores ms)[k := t\<lparr>m_root_page_ref := r,
      m_primary_root_page_ref := m_root_page_ref (m_stores ms ! 0), m_segment_index := seg\<rparr>]\<rparr>))"
    "faults s' = []" "fresh s' = rs" "s_last_slot_info s' = s_last_slot_info s" "store_inv P (m_stores ms ! 0) (pages s') fl dl"
    "root_lists P (m_root t) (pages s') r (\<lambda>_. []) []" "\<And>x. x \<in> dom (pages s) \<Longrightarrow> x \<in> dom (pages s')" "\<And>x. x \<in> set rs \<Longrightarrow> pages s' x = None"
    "\<And>off. off < other_root_pages_off (m_root (m_stores ms ! 0)) \<Longrightarrow> read_integer_1 P (the (pages s' (m_root_page_ref (m_stores ms ! 0)))) off
      = read_integer_1 P (the (pages s (m_root_page_ref (m_stores ms ! 0)))) off"
proof -
  let ?p0 = "m_stores ms ! 0"
  let ?root = "m_root_page_ref ?p0" and ?off = "other_root_pages_off (m_root ?p0) + (k - 1) * ROOT_PAGE_REF_LEN"
  obtain pg0 where pg0: "pages s ?root = Some pg0" and rootn: "?root \<noteq> INVALID_REF"
    using store_layout.store_member(1) [OF sl si] si by (auto simp: store_inv_def root_lists_def free_lists_def)
  have r: "pages s r = None" "r \<noteq> INVALID_REF" "r \<noteq> ?root" using ok pg0 by (auto simp: fresh_ok_def)
  have api: "page_api P" using t(1) by (rule root_layout.axioms(1))
  have zero: "get_data P (new_page P) i = 0" if "HEADER_SIZE \<le> i" for i by (rule page_api.new_page_zero [OF api that])
  have blank: "blank_root P (m_root t) (new_page P)"
    using zero t(2) by (simp add: blank_root_def page_api.read_1_byte [OF api] version_off_def)
  obtain pg where pg: "RootPage_format P FORMAT_VERSION (m_metadata t) (m_root t) (new_page P) = Some (m_root t, pg)"
    using root_layout.RootPage_format_page [OF t(1) blank t(3)] by blast
  let ?w = "write_integer_4 P pg0 ?off r"
  let ?s = "s\<lparr>fresh := rs, pages := (pages s)(r \<mapsto> pg, ?root \<mapsto> ?w), seg_of := (seg_of s)(r := Some (?root, seg))\<rparr>"
  have dl: "x \<noteq> ?root" "x \<noteq> r" if "x \<in> set dl" for x
    using store_layout.store_member(3,4) [OF sl si that] r by auto
  have run: "MultiColumnStore_init_root_page P seg k ms s = (?s, Inr (ms\<lparr>m_stores := (m_stores ms)[k := t\<lparr>m_root_page_ref := r,
      m_primary_root_page_ref := ?root, m_segment_index := seg\<rparr>]\<rparr>))"
    using ok(1,2) pg0 r pg t(4)
    by (simp add: MultiColumnStore_init_root_page_def Let_def with_mtr_def bind_op_def load_def api_call_def load_new_def take_fresh_def modify_def
        peek_def upd_def ret_def)
  have rl: "root_lists P (m_root ?p0) (pages s) ?root fl dl" using si by (simp add: store_inv_def)
  have "root_lists P (m_root ?p0) (pages ?s) ?root fl dl"
    by (rule root_layout.other_ref_root_lists [OF store_layout.axioms(1) [OF sl] k(2) rl pg0, where v = r]) (use dl r(3) in auto)
  then have "store_inv P ?p0 (pages ?s) fl dl"
    using si dl store_layout.store_member(6) [OF sl si] by (fastforce simp: store_inv_def)
  moreover have "root_lists P (m_root t) ((pages s)(?root \<mapsto> ?w, r \<mapsto> pg)) r (\<lambda>_. []) []"
    by (rule root_layout.RootPage_format_root_lists [OF t(1) blank t(3) r(2) pg])
  then have "root_lists P (m_root t) (pages ?s) r (\<lambda>_. []) []" using r(3) by (simp add: fun_upd_twist)
  ultimately show thesis
    by (intro that [OF run]) (use ok pg0 in \<open>auto simp: fresh_ok_def page_api.read_1_byte [OF api] page_api.data_writes [OF api] overwrite_out\<close>)
qed

subsection \<open>A new index\<close>

lemma level_specs_concat: "concat (map (level_specs e st) ls) ! 0 = level_specs e st (hd ls) ! 0 \<and> concat (map (level_specs e st) ls) ! 1 = level_specs e st (hd ls) ! 1
    \<and> length (concat (map (level_specs e st) ls)) = 2 * length ls" if "ls \<noteq> []"
proof -
  have len: "length (concat (map (level_specs e st) xs)) = 2 * length xs" for xs
    by (induction xs) (simp_all add: level_specs_def)
  show ?thesis using that len [of ls] by (cases ls) (simp_all add: level_specs_def)
qed

lemma specs_0:
  fixes e :: "64 word" and st :: index_store
  defines "specs \<equiv> build_storage_specs e st"
  shows "length specs = 64" "hd specs = level_specs e st 0 ! 0" "specs ! 1 = level_specs e st 0 ! 1" "specs \<noteq> []" "tl specs ! 0 = level_specs e st 0 ! 1"
    "0 < length (tl specs)"
proof -
  have ne: "[0..<S_MAX_LEVEL] \<noteq> []" "hd [0..<S_MAX_LEVEL] = 0" by (simp_all add: S_MAX_LEVEL_def)
  note c = level_specs_concat [OF ne(1), of e st]
  show len: "length specs = 64" using c by (simp add: specs_def build_storage_specs_def S_MAX_LEVEL_def)
  then show nn: "specs \<noteq> []" by auto
  show "hd specs = level_specs e st 0 ! 0" "specs ! 1 = level_specs e st 0 ! 1"
    using c nn unfolding specs_def build_storage_specs_def ne(2) by (simp_all add: hd_conv_nth)
  then show "tl specs ! 0 = level_specs e st 0 ! 1" "0 < length (tl specs)" using len by (auto simp: nth_tl)
qed

lemma string_bytes_length [simp]: "length (string_bytes s) = length s"
  by (simp add: string_bytes_def)

lemma length_encode: "length (StorageMeta_encode m) = 5 + length (sm_name m) + 8 * length (sm_entry_points m)"
  by (simp add: StorageMeta_encode_def)

lemma level_name_0: "length (level_name 0) = 7"
  by (simp add: level_name_def decimal.simps)

lemma record_lengths:
  assumes "is_num_neighbours st \<le> 128"
  shows "IndexStore_entry_len st l = neighbour_storage_size (max_neighbours l (is_num_neighbours st)) (has_lower_level l)"
    and "IndexStore_overflow_len st l = overflow_storage_size (overflow_capacity l (is_num_neighbours st))"
    and "neighbour_storage_size (max_neighbours l (is_num_neighbours st)) (has_lower_level l) \<le> 3084"
    and "overflow_storage_size (overflow_capacity l (is_num_neighbours st)) \<le> 54"
  using assms
  by (auto simp: IndexStore_entry_len_def IndexStore_overflow_len_def neighbour_storage_size_def overflow_storage_size_def max_neighbours_def overflow_capacity_def
      layout_defs u16_def u32_def has_lower_level_def)

lemma index_creatable:
  assumes "is_num_neighbours st \<le> 128" "get_size P = 16384"
  shows "creatable P (build_storage_specs e st) 2"
proof -
  note s0 = specs_0 [of e st]
  have h: "hd (build_storage_specs e st) = \<lparr>spec_col_len = IndexStore_entry_len st 0, spec_metadata = StorageMeta_encode
         \<lparr>sm_name = level_name 0, sm_level = 0, sm_entry_level = is_entry_level st, sm_entry_points = [ref_of_node e (is_entry_point st)]\<rparr>\<rparr>"
    by (simp add: s0(2) level_specs_def)
  have "0 < IndexStore_entry_len st 0" "IndexStore_entry_len st 0 < 65536"
    unfolding record_lengths(1) [OF assms(1)] using record_lengths(3) [OF assms(1), of 0] by (auto simp: neighbour_storage_size_def layout_defs)
  then show ?thesis
    using s0(1,4)
    by (simp add: creatable_def h length_encode level_name_0 assms(2) primary_store_def ColumnStore_init_def RootPage_init_def Let_def root_offs layout_defs)
qed

lemma level0_data_layout:
  assumes "page_api P" "get_size P = 16384" "2 \<le> M" "M \<le> 128"
  shows "data_layout P 16384 (DataPage_init 16384 (24 * M + 12))" "m_rec_size (DataPage_init 16384 (24 * M + 12)) = TRX_REF_SIZE + (24 * M + 12)"
proof -
  have "4 * (6 * M + 3) = 24 * M + 12" by simp
  moreover have "bitmap_covers (DataPage_init 16384 (4 * (6 * M + 3)))" by (rule svector_covers) (use assms in auto)
  moreover have "layout_ok 16384 (DataPage_init 16384 (24 * M + 12))"
    by (rule DataPage_init_layout) (use assms in \<open>simp_all add: avail_space_def layout_defs\<close>)
  ultimately show "data_layout P 16384 (DataPage_init 16384 (24 * M + 12))"
    using assms(1) by (simp add: data_layout_def data_layout_axioms_def)
  show "m_rec_size (DataPage_init 16384 (24 * M + 12)) = TRX_REF_SIZE + (24 * M + 12)"
    using assms(4) by (simp add: DataPage_init_def Let_def split_beta layout_defs u16_def)
qed

text \<open>The overflow store of level 0 before its root page exists.\<close>

lemma overflow0_layout:
  fixes e :: "64 word" and sp :: space_ref
  assumes "page_api P" "get_size P = 16384" "is_num_neighbours st \<le> 128"
  defines "t \<equiv> other_stores P sp (build_storage_specs e st) ! 0"
  shows "root_layout P (m_root t)" "m_num_segments (m_root t) = 0" "length (m_metadata t) = m_storage_metadata_len (m_root t)"
    "m_column_size (m_root t) = IndexStore_overflow_len st 0" "m_data t = DataPage_init 16384 (IndexStore_overflow_len st 0)"
proof -
  note s0 = specs_0 [of e st]
  let ?md = "StorageMeta_encode \<lparr>sm_name = level_name 0 @ string_bytes ''-OV'', sm_level = 0, sm_entry_level = 0, sm_entry_points = []\<rparr>"
  have t: "t = ColumnStore_init P sp INVALID_REF (IndexStore_overflow_len st 0) 0 1 ?md new_column_store"
    using s0(5,6) by (simp add: t_def other_stores_def level_specs_def)
  have md: "length ?md = 15" by (simp add: length_encode level_name_0)
  have col: "0 < IndexStore_overflow_len st 0" "IndexStore_overflow_len st 0 < 65536"
    unfolding record_lengths(2) [OF assms(3)] using record_lengths(4) [OF assms(3), of 0] by (auto simp: overflow_storage_size_def layout_defs)
  show "m_num_segments (m_root t) = 0" "length (m_metadata t) = m_storage_metadata_len (m_root t)"
    "m_column_size (m_root t) = IndexStore_overflow_len st 0" "m_data t = DataPage_init 16384 (IndexStore_overflow_len st 0)"
    by (simp_all add: t ColumnStore_init_def RootPage_init_def Let_def md assms(2))
  have "root_ok P (RootPage_init P (IndexStore_overflow_len st 0) 0 1 15 init_root_page_members)"
    by (rule RootPage_init_ok) (use col assms(2) in \<open>simp_all add: RootPage_init_def Let_def root_offs layout_defs init_root_page_members_def\<close>)
  then show "root_layout P (m_root t)"
    using assms(1) md by (simp add: root_layout_def root_layout_axioms_def t ColumnStore_init_def new_column_store_def)
qed

lemma create_ready:
  fixes P :: "'p page_api"
  assumes api: "page_api P" and sz: "get_size P = 16384" and opts: "Options_validate opts = None"
    and ok: "faults s = []" "fresh_ok s" "fresh s = r # r' # rs" "s_last_slot_info s = init_last_slot_info"
  obtains s' st where "IndexStore_create P empty_ref space_ref opts (s, new_index_store) = ((s', st), Inr ())"
    "faults s' = []" "fresh s' = rs" "get_level st 0 = Some (level_of st 0)" "level_sizes (level_of st 0)"
    "store_layout P (ls_store (level_of st 0))" "store_state P (ls_store (level_of st 0)) [] s'"
    "root_lists P (m_root (ls_overflow (level_of st 0))) (pages s') (m_root_page_ref (ls_overflow (level_of st 0))) (\<lambda>_. []) []"
    "StorageMeta_decode (m_metadata (ls_store (level_of st 0))) = Some \<lparr>sm_name = level_name 0, sm_level = 0, sm_entry_level = 0, sm_entry_points = [empty_ref]\<rparr>"
    "length (m_stores (is_multi_store st)) = S_NUM_STORES" "is_levels st 0" "is_entry_level st = 0"
    "unat (read_integer_1 P (the (pages s' (m_root_page_ref (ls_store (level_of st 0))))) (storage_metadata_len_off (m_root (ls_store (level_of st 0)))))
      = m_storage_metadata_len (m_root (ls_store (level_of st 0)))"
    "m_metadata (ls_store (level_of st 0)) = StorageMeta_encode \<lparr>sm_name = level_name 0, sm_level = 0, sm_entry_level = 0, sm_entry_points = [empty_ref]\<rparr>"
    "m_storage_metadata_len (m_root (ls_store (level_of st 0))) = length (m_metadata (ls_store (level_of st 0)))"
    "ls_store (level_of st 0) = m_stores (is_multi_store st) ! 0" "fresh_ok s'"
    "ls_num_neighbours (level_of st 0) = opt_M opts" "is_num_neighbours st = opt_M opts" "root_layout P (m_root (ls_overflow (level_of st 0)))"
    "m_data (ls_store (level_of st 0)) = DataPage_init 16384 (24 * opt_M opts + 12)" "m_data (ls_overflow (level_of st 0)) = DataPage_init 16384 (6 * (min 8 (opt_M opts) + 1))"
    "m_root_page_ref (ls_store (level_of st 0)) = r" "m_root_page_ref (ls_overflow (level_of st 0)) = r'"
    "m_primary_root_page_ref (ls_store (level_of st 0)) = r" "m_primary_root_page_ref (ls_overflow (level_of st 0)) = r"
    "s_last_slot_info s' = init_last_slot_info" "\<forall>x. pages s x \<noteq> None \<longrightarrow> pages s' x \<noteq> None"
proof -
  define st0 where "st0 = set_options opts new_index_store"
  let ?specs = "build_storage_specs empty_ref st0" and ?M = "opt_M opts"
  have M: "2 \<le> ?M" "?M \<le> 128" using opts by (simp_all add: validate_bounds)
  have st0: "is_num_neighbours st0 = ?M" "is_entry_level st0 = 0" "is_entry_point st0 = no_node"
    by (simp_all add: st0_def set_options_def new_index_store_def)
  then have M0: "is_num_neighbours st0 \<le> 128" using M by simp
  note s0 = specs_0 [of empty_ref st0]
  have c: "creatable P ?specs 2" by (rule index_creatable [OF M0 sz])
  let ?cs = "primary_store P space_ref r ?specs 2" and ?t = "other_stores P space_ref ?specs ! 0"
  obtain pg where f: "RootPage_format P FORMAT_VERSION (spec_metadata (hd ?specs)) (m_root ?cs) (segment_root P 2) = Some (m_root ?cs, pg)"
    and run1: "MultiColumnStore_create P space_ref ?specs 2 s =
      (s\<lparr>fresh := r' # rs, pages := (pages s)(r \<mapsto> pg), seg_of := (seg_of s)(r := None), latches := (\<lambda>_. None)\<rparr>,
       Inr \<lparr>m_ref = MultiColumnStore_encode_ref space_ref r, m_stores = ?cs # other_stores P space_ref ?specs\<rparr>)" (is "_ = (?s1, Inr ?ms)")
    using page_api.create_run [OF api c ok(1,3), of space_ref] by blast
  note mem = primary_store_members [OF c, of space_ref r]
  have el: "spec_col_len (hd ?specs) = 24 * ?M + 12"
    by (simp add: s0(2) level_specs_def record_lengths(1) [OF M0] st0 neighbour_storage_size_def max_neighbours_def has_lower_level_def layout_defs u32_def)
      (use M in simp)
  note dl = level0_data_layout [OF api sz M]
  have sl: "store_layout P ?cs"
    unfolding store_layout_def store_layout_axioms_def
    using page_api.primary_root_layout [OF api c] dl mem(4,8) by (simp add: el sz)
  have pos: "0 < m_max_num_recs (DataPage_init 16384 (24 * ?M + 12))" using data_layout.layout [OF dl(1)] by (simp add: layout_ok_def)
  have st1: "store_state P ?cs [] ?s1"
    by (rule page_api.created_store_state [OF api c _ ok(2,3) f]) (use ok pos in \<open>simp_all add: fresh_ok_def el sz init_last_slot_info_def\<close>)
  then obtain fl where si: "store_inv P ?cs (pages ?s1) fl []" by (auto simp: store_state_def)
  have len: "length (other_stores P space_ref ?specs) = 63" using s0(1) by (simp add: other_stores_def)
  note ol = overflow0_layout [OF api sz M0, of space_ref empty_ref]
  have k1: "m_stores ?ms ! 1 = ?t" "m_stores ?ms ! 0 = ?cs" by simp_all
  obtain s' where run2: "MultiColumnStore_init_root_page P 0 1 ?ms ?s1 = (s', Inr (?ms\<lparr>m_stores := (m_stores ?ms)[1 := ?t\<lparr>m_root_page_ref := r',
      m_primary_root_page_ref := m_root_page_ref ?cs, m_segment_index := 0\<rparr>]\<rparr>))"
    and s': "faults s' = []" "fresh s' = rs" "s_last_slot_info s' = s_last_slot_info s" "store_inv P ?cs (pages s') fl []"
    "root_lists P (m_root ?t) (pages s') r' (\<lambda>_. []) []" "\<And>x. x \<in> dom (pages ?s1) \<Longrightarrow> x \<in> dom (pages s')" "\<And>x. x \<in> set rs \<Longrightarrow> pages s' x = None"
    "\<And>off. off < other_root_pages_off (m_root ?cs) \<Longrightarrow> read_integer_1 P (the (pages s' (m_root_page_ref ?cs))) off = read_integer_1 P (the (pages ?s1 (m_root_page_ref ?cs))) off"
  proof (rule init_root_page_run [where P = P and ms = ?ms and s = ?s1 and fl = fl and dl = "[]" and k = 1 and t = ?t and r = r' and rs = rs and seg = 0])
    show "fresh_ok ?s1" using ok(2,3) by (auto simp: fresh_ok_def)
  qed (use sl si ol s0(1) mem(2) ok in \<open>simp_all\<close>)
  let ?t' = "?t\<lparr>m_root_page_ref := r', m_primary_root_page_ref := m_root_page_ref ?cs, m_segment_index := 0\<rparr>"
  let ?st = "st0\<lparr>is_multi_store := ?ms\<lparr>m_stores := (m_stores ?ms)[1 := ?t']\<rparr>, is_levels := (is_levels st0)(0 := True), is_initialized := True\<rparr>"
  have lv: "level_of ?st 0 = \<lparr>ls_level = 0, ls_store = ?cs, ls_overflow = ?t', ls_num_neighbours = ?M\<rparr>"
    using len by (simp add: level_of_def root_index_def u8_def st0)
  show thesis
  proof (rule that [of s' ?st])
    show "IndexStore_create P empty_ref space_ref opts (s, new_index_store) = ((s', ?st), Inr ())"
      using run1 run2
      by (simp add: IndexStore_create_def ibind_def imodify_def iget_def on_stores_def on_pages_def segment_total_def segment_index_def root_index_def u8_def st0_def)
    show "faults s' = []" "fresh s' = rs" by (rule s')+
    show "get_level ?st 0 = Some (level_of ?st 0)" by (simp add: get_level_def S_MAX_LEVEL_def)
    show "level_sizes (level_of ?st 0)"
      unfolding lv using mem(4) el ol(4) M record_lengths(2) [OF M0, of 0]
      by (simp add: level_sizes_def LevelStore_max_neighbours_def LevelStore_overflow_capacity_def max_neighbours_def has_lower_level_def neighbour_storage_size_def layout_defs u32_def st0)
    show "store_layout P (ls_store (level_of ?st 0))" unfolding lv using sl by simp
    show "store_state P (ls_store (level_of ?st 0)) [] s'"
      unfolding lv level_store.simps store_state_def
    proof
      show "\<exists>fl. store_inv P ?cs (pages s') fl []" using s'(4) by blast
      show "session_ok (m_primary_root_page_ref ?cs) (m_max_num_recs (m_data ?cs)) s'"
        using ok(2-4) s'(2,3,7) s'(6) [of r] pos by (auto simp: session_ok_def fresh_ok_def mem el sz init_last_slot_info_def)
    qed
    show "root_lists P (m_root (ls_overflow (level_of ?st 0))) (pages s') (m_root_page_ref (ls_overflow (level_of ?st 0))) (\<lambda>_. []) []"
      unfolding lv using s'(5) by simp
    show "StorageMeta_decode (m_metadata (ls_store (level_of ?st 0))) = Some \<lparr>sm_name = level_name 0, sm_level = 0, sm_entry_level = 0, sm_entry_points = [empty_ref]\<rparr>"
      unfolding lv using decode_encode [of "\<lparr>sm_name = level_name 0, sm_level = 0, sm_entry_level = 0, sm_entry_points = [empty_ref]\<rparr>" "[]"]
      by (simp add: mem(7) s0(2) level_specs_def st0 ref_of_node_def no_node_def is_valid_def meta_fits_def level_name_0)
    show "length (m_stores (is_multi_store ?st)) = S_NUM_STORES" using len by (simp add: S_NUM_STORES_def S_MAX_LEVEL_def)
    show "is_levels ?st 0" "is_entry_level ?st = 0" by (simp_all add: st0)
    have md: "unat (read_integer_1 P pg (storage_metadata_len_off (m_root ?cs))) = m_storage_metadata_len (m_root ?cs)"
    proof -
      obtain pg' where "RootPage_format P FORMAT_VERSION (spec_metadata (hd ?specs)) (m_root ?cs) (segment_root P 2) = Some (m_root ?cs, pg')"
        "unat (read_integer_1 P pg' (storage_metadata_len_off (m_root ?cs))) = m_storage_metadata_len (m_root ?cs)"
        using root_layout.RootPage_format_page [OF page_api.primary_root_layout [OF api c] page_api.primary_blank [OF api c] mem(3) [symmetric], of FORMAT_VERSION] by blast
      with f show ?thesis by simp
    qed
    show "unat (read_integer_1 P (the (pages s' (m_root_page_ref (ls_store (level_of ?st 0))))) (storage_metadata_len_off (m_root (ls_store (level_of ?st 0)))))
      = m_storage_metadata_len (m_root (ls_store (level_of ?st 0)))"
      unfolding lv level_store.simps using s'(8) [of "storage_metadata_len_off (m_root ?cs)"] md by (simp add: mem(5) root_offs layout_defs)
    show "m_metadata (ls_store (level_of ?st 0)) = StorageMeta_encode \<lparr>sm_name = level_name 0, sm_level = 0, sm_entry_level = 0, sm_entry_points = [empty_ref]\<rparr>"
      unfolding lv by (simp add: mem(7) s0(2) level_specs_def st0 ref_of_node_def no_node_def is_valid_def)
    show "m_storage_metadata_len (m_root (ls_store (level_of ?st 0))) = length (m_metadata (ls_store (level_of ?st 0)))"
      unfolding lv by (simp add: mem(3,7))
    show "ls_store (level_of ?st 0) = m_stores (is_multi_store ?st) ! 0" unfolding lv by simp
    show "fresh_ok s'" using ok(2,3) s'(2,7) by (auto simp: fresh_ok_def)
    show "ls_num_neighbours (level_of ?st 0) = ?M" "is_num_neighbours ?st = ?M" unfolding lv by (simp_all add: st0)
    show "root_layout P (m_root (ls_overflow (level_of ?st 0)))" unfolding lv using ol(1) by simp
    show "m_data (ls_store (level_of ?st 0)) = DataPage_init 16384 (24 * ?M + 12)" unfolding lv using mem(8) by (simp add: el sz)
    show "m_data (ls_overflow (level_of ?st 0)) = DataPage_init 16384 (6 * (min 8 ?M + 1))"
      unfolding lv using ol(5) record_lengths(2) [OF M0, of 0] by (simp add: st0 overflow_storage_size_def overflow_capacity_def layout_defs algebra_simps)
    show "m_root_page_ref (ls_store (level_of ?st 0)) = r" "m_root_page_ref (ls_overflow (level_of ?st 0)) = r'"
      "m_primary_root_page_ref (ls_store (level_of ?st 0)) = r" "m_primary_root_page_ref (ls_overflow (level_of ?st 0)) = r"
      unfolding lv using mem by simp_all
    show "s_last_slot_info s' = init_last_slot_info" using s'(3) ok(4) by simp
    show "\<forall>x. pages s x \<noteq> None \<longrightarrow> pages s' x \<noteq> None" using s'(6) by (auto simp: dom_def)
  qed
qed

subsection \<open>The entry point\<close>

lemma set_entry_point_outcome:
  fixes P :: "'p page_api" and node :: hnsw_node and e :: "64 word"
  assumes sl: "store_layout P cs" and si: "store_inv P cs (pages s) fl dl"
    and ml: "unat (read_integer_1 P (the (pages s (m_root_page_ref cs))) (storage_metadata_len_off (m_root cs))) = m_storage_metadata_len (m_root cs)"
    and cs: "cs = m_stores (is_multi_store st) ! 0" "m_stores (is_multi_store st) \<noteq> []"
    and md: "m_metadata cs = StorageMeta_encode meta" "m_storage_metadata_len (m_root cs) = length (m_metadata cs)"
    and meta: "meta_fits meta" "length (sm_entry_points meta) = 1" "level < 256"
  defines "meta' \<equiv> meta\<lparr>sm_entry_level := level, sm_entry_points := [ref_of_node e node]\<rparr>"
  shows "case IndexStore_set_entry_point P e node level (s, st) of
      ((s', st'), Inr _) \<Rightarrow> st' = st\<lparr>is_multi_store := (is_multi_store st)\<lparr>m_stores := (m_stores (is_multi_store st))[0 := cs\<lparr>m_metadata := StorageMeta_encode meta'\<rparr>]\<rparr>,
            is_entry_point := node, is_entry_level := level\<rparr>
        \<and> StorageMeta_decode (RootPage_read_metadata P (m_root cs) (the (pages s' (m_root_page_ref cs)))) = Some meta'
        \<and> store_inv P (cs\<lparr>m_metadata := StorageMeta_encode meta'\<rparr>) (pages s') fl dl \<and> (\<forall>x. x \<noteq> m_root_page_ref cs \<longrightarrow> pages s' x = pages s x)
    | ((s', st'), Inl _) \<Rightarrow> st' = st \<and> pages s' = pages s \<and> faults s \<noteq> []"
proof -
  have dec: "StorageMeta_decode (m_metadata cs) = Some meta" using decode_encode [OF meta(1), of "[]"] md(1) by simp
  have fits: "meta_fits meta'" using meta by (simp add: meta'_def meta_fits_def)
  have len: "length (StorageMeta_encode meta') = m_storage_metadata_len (m_root cs)"
    using md meta(2) by (simp add: length_encode meta'_def)
  obtain s' r where run: "ColumnStore_update_metadata P cs (StorageMeta_encode meta') s = (s', r)"
    by (cases "ColumnStore_update_metadata P cs (StorageMeta_encode meta') s")
  note out = store_layout.update_metadata_outcome [OF sl si ml, of "StorageMeta_encode meta'", unfolded run prod.case]
  have unf: "IndexStore_set_entry_point P e node level (s, st) = ibind (on_stores (\<lambda>ms. bind_op (ColumnStore_update_metadata P cs (StorageMeta_encode meta')) (\<lambda>cs.
             ret (ms\<lparr>m_stores := (m_stores ms)[0 := cs]\<rparr>)))) (\<lambda>_. imodify (\<lambda>st. st\<lparr>is_entry_point := node, is_entry_level := level\<rparr>)) (s, st)"
    using dec by (simp add: IndexStore_set_entry_point_def ibind_def iget_def cs(1) [symmetric] meta'_def)
  show ?thesis
  proof (cases r)
    case (Inl err)
    with out run len show ?thesis unfolding unf by (simp add: ibind_def on_stores_def on_pages_def bind_op_def)
  next
    case (Inr cs')
    with out have o: "cs' = cs\<lparr>m_metadata := StorageMeta_encode meta'\<rparr>" "store_inv P cs' (pages s') fl dl"
      "RootPage_read_metadata P (m_root cs) (the (pages s' (m_root_page_ref cs))) = StorageMeta_encode meta'"
      "\<forall>x. x \<noteq> m_root_page_ref cs \<longrightarrow> pages s' x = pages s x" by auto
    have "StorageMeta_decode (StorageMeta_encode meta') = Some meta'" using decode_encode [OF fits, of "[]"] by simp
    with Inr run o show ?thesis unfolding unf by (simp add: ibind_def on_stores_def on_pages_def bind_op_def imodify_def ret_def)
  qed
qed

subsection \<open>Properties\<close>

text \<open>
  C17: A new index is ready. For every set of options that passes validation, creating an index on 16 KB pages succeeds when no API
  call fails and two pages are left: level 0 exists, its records have the layout the entries need without truncation, its neighbour store is intact, empty and
  ready for calls, its overflow store has a root page with empty lists, and the metadata says that there is no entry point.
\<close>

theorem index_create_ready:
  fixes P :: "'p page_api"
  assumes "page_api P" "get_size P = 16384" "Options_validate opts = None"
    and "faults s = []" "fresh_ok s" "fresh s = r # r' # rs" "s_last_slot_info s = init_last_slot_info"
  obtains s' st where "IndexStore_create P empty_ref space_ref opts (s, new_index_store) = ((s', st), Inr ())"
    "get_level st 0 = Some (level_of st 0)" "level_sizes (level_of st 0)"
    "store_layout P (ls_store (level_of st 0))" "store_state P (ls_store (level_of st 0)) [] s'"
    "root_lists P (m_root (ls_overflow (level_of st 0))) (pages s') (m_root_page_ref (ls_overflow (level_of st 0))) (\<lambda>_. []) []"
    "StorageMeta_decode (m_metadata (ls_store (level_of st 0))) = Some \<lparr>sm_name = level_name 0, sm_level = 0, sm_entry_level = 0, sm_entry_points = [empty_ref]\<rparr>"
  by (rule create_ready [OF assms, of empty_ref space_ref]) (rule that; assumption)

lemma fake_fresh: "faults fake_store_env = []" "fresh_ok fake_store_env" "fresh fake_store_env = [2, 3, 4]" "s_last_slot_info fake_store_env = init_last_slot_info"
  using fake_store_state(1,2) by (simp_all add: store_state_def session_ok_def fake_store_env_def fake_env_def)

lemma default_valid: "Options_validate default_options = None"
  by (simp add: validate_bounds default_options_def DEFAULT_M_def DEFAULT_EF_CONSTRUCTION_def)

theorem index_create_ready_witness:
  "\<exists>s' st. IndexStore_create fake_api 0 3 default_options (fake_store_env, new_index_store) = ((s', st), Inr ())
     \<and> store_state fake_api (ls_store (level_of st 0)) [] s' \<and> level_sizes (level_of st 0)"
  by (rule index_create_ready [OF fake.page_api_axioms fake_page_size default_valid fake_fresh, of 0 3]) blast



text \<open>
  C19: Setting the entry point makes object and root page agree. The new metadata always has the length of the old, so the update is never
  refused; after a success the root page of level 0 decodes to the old metadata with the new level and reference, the object holds the same bytes, node
  and level, and lists, records and other pages are as before; when an API call fails, object and pages are unchanged.
\<close>

theorem index_set_entry_point:
  fixes P :: "'p page_api" and node :: hnsw_node
  assumes "store_layout P cs" "store_inv P cs (pages s) fl dl"
    and "unat (read_integer_1 P (the (pages s (m_root_page_ref cs))) (storage_metadata_len_off (m_root cs))) = m_storage_metadata_len (m_root cs)"
    and "cs = m_stores (is_multi_store st) ! 0" "m_stores (is_multi_store st) \<noteq> []"
    and "m_metadata cs = StorageMeta_encode meta" "m_storage_metadata_len (m_root cs) = length (m_metadata cs)"
    and "meta_fits meta" "length (sm_entry_points meta) = 1" "level < 256"
    and "meta' = meta\<lparr>sm_entry_level := level, sm_entry_points := [ref_of_node e node]\<rparr>"
  shows "case IndexStore_set_entry_point P e node level (s, st) of
      ((s', st'), Inr _) \<Rightarrow> st' = st\<lparr>is_multi_store := (is_multi_store st)\<lparr>m_stores := (m_stores (is_multi_store st))[0 := cs\<lparr>m_metadata := StorageMeta_encode meta'\<rparr>]\<rparr>,
            is_entry_point := node, is_entry_level := level\<rparr>
        \<and> StorageMeta_decode (RootPage_read_metadata P (m_root cs) (the (pages s' (m_root_page_ref cs)))) = Some meta'
        \<and> store_inv P (cs\<lparr>m_metadata := StorageMeta_encode meta'\<rparr>) (pages s') fl dl \<and> (\<forall>x. x \<noteq> m_root_page_ref cs \<longrightarrow> pages s' x = pages s x)
    | ((s', st'), Inl _) \<Rightarrow> st' = st \<and> pages s' = pages s \<and> faults s \<noteq> []"
  using set_entry_point_outcome [OF assms(1-10), where e = e and node = node] unfolding assms(11) .

theorem index_set_entry_point_witness:
  "\<exists>s st s' st'. IndexStore_set_entry_point fake_api 0 \<lparr>nd_nid = 9, nd_vid = 4\<rparr> 0 (s, st) = ((s', st'), Inr ()) \<and> is_entry_point st' = \<lparr>nd_nid = 9, nd_vid = 4\<rparr>
     \<and> StorageMeta_decode (RootPage_read_metadata fake_api (m_root (m_stores (is_multi_store st) ! 0)) (the (pages s' (m_root_page_ref (m_stores (is_multi_store st) ! 0)))))
       = Some \<lparr>sm_name = level_name 0, sm_level = 0, sm_entry_level = 0, sm_entry_points = [9]\<rparr>"
proof -
  let ?meta = "\<lparr>sm_name = level_name 0, sm_level = 0, sm_entry_level = 0, sm_entry_points = [0]\<rparr>"
  let ?n = "\<lparr>nd_nid = 9, nd_vid = 4\<rparr>"
  obtain s st where s: "store_layout fake_api (ls_store (level_of st 0))" "store_state fake_api (ls_store (level_of st 0)) [] s" "faults s = []"
    "unat (read_integer_1 fake_api (the (pages s (m_root_page_ref (ls_store (level_of st 0))))) (storage_metadata_len_off (m_root (ls_store (level_of st 0)))))
      = m_storage_metadata_len (m_root (ls_store (level_of st 0)))"
    "m_metadata (ls_store (level_of st 0)) = StorageMeta_encode ?meta"
    "m_storage_metadata_len (m_root (ls_store (level_of st 0))) = length (m_metadata (ls_store (level_of st 0)))"
    "ls_store (level_of st 0) = m_stores (is_multi_store st) ! 0" "length (m_stores (is_multi_store st)) = S_NUM_STORES"
    by (rule create_ready [OF fake.page_api_axioms fake_page_size default_valid fake_fresh, of 0 3]) blast
  have ne: "m_stores (is_multi_store st) \<noteq> []" using s(8) by (auto simp: S_NUM_STORES_def S_MAX_LEVEL_def)
  note s = s(1-6) [unfolded s(7)]
  obtain fl where si: "store_inv fake_api (m_stores (is_multi_store st) ! 0) (pages s) fl []" using s(2) by (auto simp: store_state_def)
  have fits: "meta_fits ?meta" by (simp add: meta_fits_def level_name_0)
  obtain s' st' r where run: "IndexStore_set_entry_point fake_api 0 ?n 0 (s, st) = ((s', st'), r)"
    by (cases "IndexStore_set_entry_point fake_api 0 ?n 0 (s, st)") auto
  from index_set_entry_point [OF s(1) si s(4) refl ne s(5,6) fits _ _ refl, where e = 0 and level = 0 and node = ?n] run s(3)
  show ?thesis
    by (intro exI [of _ s] exI [of _ st] exI [of _ s'] exI [of _ st']) (cases r, auto simp: ref_of_node_def is_valid_def INVALID_ID_def)
qed

end
