(* ===== verification/Index_Graph.thy ===== *)
theory Index_Graph
  imports Graph_Ops Index_Store Complex_Main
begin

text \<open>
  The graph of an index on its storage (\<^verbatim>\<open>IndexGraph\<close> of \<^verbatim>\<open>src/index/hnsw/graph.h\<close>,
  \<^verbatim>\<open>graph.cc\<close>): the implementation of the operations that \<^verbatim>\<open>Graph_Ops\<close> and
  \<^verbatim>\<open>Layer_Ops\<close> take as a parameter. Nodes are records of the level stores; a link a node has no
  slot for is kept in a chain of overflow records.

  The operations of \<^verbatim>\<open>IndexStore\<close> and \<^verbatim>\<open>LevelStore\<close> that the class calls are a record
  \<open>graph_store\<close>, so that what is proved of the links speaks of entries and not of pages; \<open>stored_graph\<close>
  at the end builds the record from the stores of \<^verbatim>\<open>Index_Store\<close> and \<^verbatim>\<open>Level_Store\<close>. The index callbacks of the
  server are a record as well. Walking an overflow chain does not end when the chain has a cycle, so these loops are
  partial functions.
\<close>

subsection \<open>What the graph calls\<close>

text \<open>A call of a store: it ends, with the new state and \<open>None\<close> for an error.\<close>

type_synonym ('s, 'a) scall = "'s \<Rightarrow> 's \<times> 'a option"

text \<open>
  The operations take the level instead of the store \<^verbatim>\<open>get_level\<close> returns for it. \<open>gs_enter\<close> starts a
  mini-transaction, \<open>gs_leave\<close> ends it, given the state at its start.
\<close>

record 's graph_store =
  gs_enter :: "'s \<Rightarrow> 's"
  gs_leave :: "'s \<Rightarrow> 's \<Rightarrow> 's"
  gs_max_neighbours :: "'s \<Rightarrow> nat \<Rightarrow> nat"
  gs_overflow_capacity :: "'s \<Rightarrow> nat \<Rightarrow> nat"
  gs_fetch :: "nat \<Rightarrow> nid \<Rightarrow> bool \<Rightarrow> neighbour_entry \<Rightarrow> field_mask \<Rightarrow> incoming_filter \<Rightarrow> ('s, neighbour_entry \<times> nat option) scall"
  gs_fetch_overflow :: "nat \<Rightarrow> nid \<Rightarrow> bool \<Rightarrow> overflow_entry \<Rightarrow> field_mask \<Rightarrow> ('s, overflow_entry \<times> nat option) scall"
  gs_insert :: "nat \<Rightarrow> trx_ref \<Rightarrow> neighbour_entry \<Rightarrow> ('s, nid) scall"
  gs_insert_overflow :: "nat \<Rightarrow> trx_ref \<Rightarrow> overflow_entry \<Rightarrow> ('s, nid) scall"
  gs_update :: "nat \<Rightarrow> nid \<Rightarrow> neighbour_entry \<Rightarrow> field_mask \<Rightarrow> nat list \<Rightarrow> ('s, unit) scall"
  gs_update_overflow :: "nat \<Rightarrow> nid \<Rightarrow> overflow_entry \<Rightarrow> field_mask \<Rightarrow> nat list \<Rightarrow> ('s, unit) scall"
  gs_remove :: "nat \<Rightarrow> store_kind \<Rightarrow> nid \<Rightarrow> trx_ref \<Rightarrow> ('s, unit) scall"
  gs_mark_delete :: "nat \<Rightarrow> nid \<Rightarrow> trx_ref \<Rightarrow> bool \<Rightarrow> ('s, unit) scall"
  gs_entry_point :: "'s \<Rightarrow> hnsw_node"
  gs_entry_level :: "'s \<Rightarrow> nat"
  gs_set_entry_point :: "hnsw_node \<Rightarrow> nat \<Rightarrow> ('s, unit) scall"
  gs_ensure_levels :: "nat \<Rightarrow> ('s, unit) scall"
  gs_num_neighbours :: "'s \<Rightarrow> nat"
  gs_ef_construction :: "'s \<Rightarrow> nat"
  gs_lock_mutex :: "lock_mode \<Rightarrow> 's \<Rightarrow> 's"
  gs_unlock_mutex :: "lock_mode \<Rightarrow> 's \<Rightarrow> 's"
  gs_lock_level_mutex :: "nat \<Rightarrow> lock_mode \<Rightarrow> 's \<Rightarrow> 's"
  gs_unlock_level_mutex :: "nat \<Rightarrow> lock_mode \<Rightarrow> 's \<Rightarrow> 's"
  gs_lock_operation :: "nat \<Rightarrow> lock_mode \<Rightarrow> 's \<Rightarrow> 's"
  gs_unlock_operation :: "nat \<Rightarrow> lock_mode \<Rightarrow> 's \<Rightarrow> 's"

text \<open>
  The callbacks of \<^verbatim>\<open>Index\<close> on the indexed column: the reference of a vector, the vector of a reference, the distance
  helper of the profile. \<open>ix_unif\<close> is the draw from the half-open unit interval that the generator makes next.
\<close>

record ('s, 'v, 'd) index_calls =
  ix_get_key_ref :: "'v \<Rightarrow> vid option"
  ix_get_key_data :: "vid \<Rightarrow> 'v option"
  ix_helper :: "'v \<Rightarrow> 'v \<Rightarrow> 'd"
  ix_unif :: "'s \<Rightarrow> real"

definition call :: "('s, 'a) scall \<Rightarrow> ('s, 'a) gact" where "call m s = Some (m s)"

definition reads :: "('s \<Rightarrow> 'a) \<Rightarrow> ('s, 'a) gact" where "reads f s = Some (s, Some (f s))"

text \<open>An error that the caller looks at instead of passing it on.\<close>

definition attempt :: "('s, 'a) gact \<Rightarrow> ('s, 'a option) gact" where
  "attempt m s = map_option (\<lambda>(s', r). (s', Some r)) (m s)"

definition own_mtr :: "'s graph_store \<Rightarrow> ('s, 'a) gact \<Rightarrow> ('s, 'a) gact" where
  "own_mtr S m s = map_option (\<lambda>(s', r). (gs_leave S s s', r)) (m (gs_enter S s))"

definition with_operation_lock :: "'s graph_store \<Rightarrow> nat \<Rightarrow> lock_mode \<Rightarrow> ('s, 'a) gact \<Rightarrow> ('s, 'a) gact" where
  "with_operation_lock S level mode m s = map_option (\<lambda>(s', r). (gs_unlock_operation S level mode s', r)) (m (gs_lock_operation S level mode s))"

lemma gbind_mono [partial_function_mono]:
  fixes m :: "('b \<Rightarrow> 'c option) \<Rightarrow> ('s, 'a) gact" and k :: "('b \<Rightarrow> 'c option) \<Rightarrow> 'a \<Rightarrow> ('s, 'r) gact"
  assumes "\<And>s. mono_option (\<lambda>f. m f s)" "\<And>x s. mono_option (\<lambda>f. k f x s)"
  shows "mono_option (\<lambda>f. gbind (m f) (k f) s)"
proof (rule monotoneI)
  fix f g :: "'b \<Rightarrow> 'c option" assume "fun_ord option_ord f g"
  then have "option_ord (m f s) (m g s)" "option_ord (k f x s') (k g x s')" for x s'
    using assms by (blast dest: monotoneD)+
  then show "option_ord (gbind (m f) (k f) s) (gbind (m g) (k g) s)"
    by (cases "m f s") (fastforce simp: gbind_def flat_ord_def split: option.splits prod.splits)+
qed

subsection \<open>Distances and links\<close>

text \<open>\<^verbatim>\<open>resolve_node_data\<close> and the overloads of \<^verbatim>\<open>distance\<close>.\<close>

definition resolve_node_data :: "('s, 'v, 'd) index_calls \<Rightarrow> vid \<Rightarrow> 'v option" where
  "resolve_node_data X vid = ix_get_key_data X vid"

definition IndexGraph_distance_data :: "('s, 'v, 'd) index_calls \<Rightarrow> 'v \<Rightarrow> 'v \<Rightarrow> 'd option" where
  "IndexGraph_distance_data X a b = Some (ix_helper X a b)"

definition IndexGraph_distance_nodes :: "('s, 'v, 'd) index_calls \<Rightarrow> hnsw_node \<Rightarrow> hnsw_node \<Rightarrow> 'd option" where
  "IndexGraph_distance_nodes X a b =
     (case resolve_node_data X (nd_vid a) of None \<Rightarrow> None
      | Some a_data \<Rightarrow> (case resolve_node_data X (nd_vid b) of None \<Rightarrow> None
          | Some b_data \<Rightarrow> IndexGraph_distance_data X a_data b_data))"

definition IndexGraph_distance :: "('s, 'v, 'd) index_calls \<Rightarrow> 'v \<Rightarrow> hnsw_node \<Rightarrow> 'd option" where
  "IndexGraph_distance X a b =
     (case resolve_node_data X (nd_vid b) of None \<Rightarrow> None | Some b_data \<Rightarrow> IndexGraph_distance_data X a b_data)"

text \<open>The spans of the scratch buffers a read fills: what they held before is overwritten or cut off.\<close>

definition node_span :: "nat \<Rightarrow> neighbour_entry" where
  "node_span n = empty_neighbour_entry\<lparr>ne_neighbours := replicate n no_node\<rparr>"

definition incoming_span :: "nat \<Rightarrow> overflow_entry" where
  "incoming_span n = empty_overflow_entry\<lparr>oe_incoming := replicate n INVALID_ID\<rparr>"

definition find_index :: "('a \<Rightarrow> bool) \<Rightarrow> 'a list \<Rightarrow> nat option" where
  "find_index p xs = List.find (\<lambda>i. p (xs ! i)) [0..<length xs]"

definition IndexGraph_neighbours :: "'s graph_store \<Rightarrow> hnsw_node \<Rightarrow> nat \<Rightarrow> ('s, hnsw_node list) gact" where
  "IndexGraph_neighbours S node level =
     own_mtr S (
       gbind (reads (\<lambda>s. gs_max_neighbours S s level)) (\<lambda>max_n.
       gbind (call (gs_fetch S level (nd_nid node) False (node_span max_n) Field_Neighbours Filter_ExcludeIncoming)) (\<lambda>(entry, _).
       gret (ne_neighbours entry))))"

definition resolve_node :: "'s graph_store \<Rightarrow> nat \<Rightarrow> nid \<Rightarrow> ('s, hnsw_node) gact" where
  "resolve_node S level nid =
     own_mtr S (
       gbind (call (gs_fetch S level nid False empty_neighbour_entry Field_Owner Filter_ExcludeIncoming)) (\<lambda>(entry, _).
       gret \<lparr>nd_nid = nid, nd_vid = ne_owner entry\<rparr>))"

fun resolve_nodes :: "'s graph_store \<Rightarrow> nat \<Rightarrow> nid list \<Rightarrow> ('s, hnsw_node list) gact" where
  "resolve_nodes S level [] = gret []"
| "resolve_nodes S level (nid # nids) =
     gbind (resolve_node S level (clear_incoming nid)) (\<lambda>resolved.
     gbind (resolve_nodes S level nids) (\<lambda>out. gret (resolved # out)))"

partial_function (option) incoming_chain :: "'s graph_store \<Rightarrow> nat \<Rightarrow> nat \<Rightarrow> nid \<Rightarrow> ('s, hnsw_node list) gact" where
  [code]: "incoming_chain S level capacity cur s =
     (if \<not> is_valid cur then gret [] s
      else
        gbind (own_mtr S (call (gs_fetch_overflow S level cur False (incoming_span capacity) OverflowFieldAll))) (\<lambda>(overflow_entry, _).
        gbind (resolve_nodes S level (oe_incoming overflow_entry)) (\<lambda>resolved.
        gbind (incoming_chain S level capacity (oe_overflow overflow_entry)) (\<lambda>out. gret (resolved @ out)))) s)"

definition IndexGraph_incoming_neighbours :: "'s graph_store \<Rightarrow> hnsw_node \<Rightarrow> nat \<Rightarrow> ('s, hnsw_node list) gact" where
  "IndexGraph_incoming_neighbours S node level =
     gbind (reads (\<lambda>s. gs_max_neighbours S s level)) (\<lambda>max_n.
     gbind (reads (\<lambda>s. gs_overflow_capacity S s level)) (\<lambda>capacity.
     gbind (own_mtr S (call (gs_fetch S level (nd_nid node) False (node_span max_n) (Field_Neighbours OR Field_Overflow) Filter_All))) (\<lambda>(entry, _).
     gbind (incoming_chain S level capacity (ne_overflow entry)) (\<lambda>chained.
     gret (map (\<lambda>link. link\<lparr>nd_nid := clear_incoming (nd_nid link)\<rparr>) (filter (\<lambda>link. is_incoming (nd_nid link)) (ne_neighbours entry)) @ chained)))))"

definition IndexGraph_visible :: "hnsw_node \<Rightarrow> bool option" where "IndexGraph_visible node = Some True"

subsection \<open>Levels and entry point\<close>

text \<open>\<^verbatim>\<open>level_norm_factor\<close> and the level drawn for an insertion, on real numbers; the draw is in \<open>(0, 1]\<close> after it was flipped.\<close>

definition level_norm_factor :: "nat \<Rightarrow> real" where "level_norm_factor M = 1 / ln (real M)"

definition insert_level_of :: "real \<Rightarrow> nat \<Rightarrow> nat" where
  "insert_level_of draw M =
     (let unif = 1 - draw; level = real_of_int \<lfloor>- ln unif * level_norm_factor M\<rfloor> in
      u8 (nat \<lfloor>min level (real max_level)\<rfloor>))"

definition IndexGraph_get_insert_level :: "('s, 'v, 'd) index_calls \<Rightarrow> 's graph_store \<Rightarrow> ('s, nat) gact" where
  "IndexGraph_get_insert_level X S = reads (\<lambda>s. insert_level_of (ix_unif X s) (gs_num_neighbours S s))"

text \<open>Without an entry point the level passed in is left alone.\<close>

definition IndexGraph_get_entry_point :: "'s graph_store \<Rightarrow> nat \<Rightarrow> ('s, hnsw_node list \<times> nat) gact" where
  "IndexGraph_get_entry_point S out_level =
     reads (\<lambda>s. if is_valid (nd_nid (gs_entry_point S s)) then ([gs_entry_point S s], gs_entry_level S s) else ([], out_level))"

definition IndexGraph_set_entry_point :: "'s graph_store \<Rightarrow> hnsw_node list \<Rightarrow> nat \<Rightarrow> ('s, unit) gact" where
  "IndexGraph_set_entry_point S nodes level =
     own_mtr S (call (gs_set_entry_point S (case nodes of [] \<Rightarrow> no_node | node # _ \<Rightarrow> node) level))"

definition IndexGraph_ensure_levels :: "'s graph_store \<Rightarrow> nat \<Rightarrow> ('s, unit) gact" where
  "IndexGraph_ensure_levels S level = call (gs_ensure_levels S level)"

subsection \<open>Nodes\<close>

definition flag_incoming :: "hnsw_node \<Rightarrow> hnsw_node" where "flag_incoming n = n\<lparr>nd_nid := set_incoming (nd_nid n)\<rparr>"

definition lower_level_entry :: "nid \<Rightarrow> neighbour_entry" where
  "lower_level_entry nid = empty_neighbour_entry\<lparr>ne_lower_level := nid\<rparr>"

definition IndexGraph_create_node ::
    "('s, 'v, 'd) index_calls \<Rightarrow> 's graph_store \<Rightarrow> trx_ref \<Rightarrow> hnsw_node option \<Rightarrow> nat \<Rightarrow> 'v \<Rightarrow> hnsw_node list \<Rightarrow> ('s, hnsw_node) gact" where
  "IndexGraph_create_node X S trx parent level data neighbours =
     (case ix_get_key_ref X data of
        None \<Rightarrow> gfail
      | Some owner \<Rightarrow>
          own_mtr S (
            gbind (case parent of None \<Rightarrow> gret ()
              | Some p \<Rightarrow> gbind (call (gs_fetch S (u8 (level + 1)) (nd_nid p) True empty_neighbour_entry Field_LowerLevel Filter_ExcludeIncoming)) (\<lambda>_. gret ())) (\<lambda>_.
            gbind (call (gs_insert S level trx (empty_neighbour_entry\<lparr>ne_owner := owner, ne_neighbours := map flag_incoming neighbours\<rparr>))) (\<lambda>new_nid.
            gbind (case parent of None \<Rightarrow> gret ()
              | Some p \<Rightarrow> call (gs_update S (u8 (level + 1)) (nd_nid p) (lower_level_entry new_nid) Field_LowerLevel [])) (\<lambda>_.
            gret \<lparr>nd_nid = new_nid, nd_vid = owner\<rparr>)))))"

record overflow_link =
  ol_nid :: nid
  ol_prev :: nid
  ol_prev_kind :: store_kind

definition drop_overflow_node :: "'s graph_store \<Rightarrow> trx_ref \<Rightarrow> nat \<Rightarrow> overflow_link \<Rightarrow> ('s, unit) gact" where
  "drop_overflow_node S trx level link =
     own_mtr S (
       gbind (if ol_prev_kind link = Kind_Neighbour
          then call (gs_update S level (ol_prev link) (empty_neighbour_entry\<lparr>ne_overflow := INVALID_ID\<rparr>) Field_Overflow [])
          else call (gs_update_overflow S level (ol_prev link) (empty_overflow_entry\<lparr>oe_overflow := INVALID_ID\<rparr>) OverflowField_Overflow [])) (\<lambda>_.
       call (gs_remove S level Kind_Overflow (ol_nid link) trx)))"

text \<open>The links of the chain from \<open>cur\<close> on, pushed on the stack \<open>links\<close>.\<close>

partial_function (option) collect_links :: "'s graph_store \<Rightarrow> nat \<Rightarrow> nid \<Rightarrow> overflow_link list \<Rightarrow> ('s, overflow_link list) gact" where
  [code]: "collect_links S level cur links s =
     (if \<not> is_valid cur then gret links s
      else
        gbind (own_mtr S (call (gs_fetch_overflow S level cur False empty_overflow_entry OverflowField_Overflow))) (\<lambda>(entry, _).
        collect_links S level (oe_overflow entry)
          (if is_valid (oe_overflow entry) then \<lparr>ol_nid = oe_overflow entry, ol_prev = cur, ol_prev_kind = Kind_Overflow\<rparr> # links else links)) s)"

fun unwind_links :: "'s graph_store \<Rightarrow> trx_ref \<Rightarrow> nat \<Rightarrow> overflow_link list \<Rightarrow> ('s, unit) gact" where
  "unwind_links S trx level [] = gret ()"
| "unwind_links S trx level (link # links) = gbind (drop_overflow_node S trx level link) (\<lambda>_. unwind_links S trx level links)"

definition drop_overflow_nodes :: "'s graph_store \<Rightarrow> trx_ref \<Rightarrow> nat \<Rightarrow> hnsw_node \<Rightarrow> ('s, unit) gact" where
  "drop_overflow_nodes S trx level node =
     gbind (own_mtr S (call (gs_fetch S level (nd_nid node) False empty_neighbour_entry Field_Overflow Filter_ExcludeIncoming))) (\<lambda>(entry, _).
     let head = ne_overflow entry in
     gbind (collect_links S level head
       (if is_valid head then [\<lparr>ol_nid = head, ol_prev = nd_nid node, ol_prev_kind = Kind_Neighbour\<rparr>] else [])) (\<lambda>links.
     unwind_links S trx level links))"

definition IndexGraph_drop_node :: "'s graph_store \<Rightarrow> trx_ref \<Rightarrow> hnsw_node option \<Rightarrow> nat \<Rightarrow> hnsw_node \<Rightarrow> ('s, unit) gact" where
  "IndexGraph_drop_node S trx parent level node =
     gbind (drop_overflow_nodes S trx level node) (\<lambda>_.
     own_mtr S (
       gbind (case parent of None \<Rightarrow> gret ()
         | Some p \<Rightarrow> call (gs_update S (u8 (level + 1)) (nd_nid p) (lower_level_entry INVALID_ID) Field_LowerLevel [])) (\<lambda>_.
       call (gs_remove S level Kind_Neighbour (nd_nid node) trx))))"

definition IndexGraph_mark_delete :: "'s graph_store \<Rightarrow> trx_ref \<Rightarrow> hnsw_node \<Rightarrow> nat \<Rightarrow> bool \<Rightarrow> ('s, unit) gact" where
  "IndexGraph_mark_delete S trx node level delete_mark = own_mtr S (call (gs_mark_delete S level (nd_nid node) trx delete_mark))"

definition IndexGraph_get_next_level_node :: "'s graph_store \<Rightarrow> hnsw_node \<Rightarrow> nat \<Rightarrow> ('s, hnsw_node) gact" where
  "IndexGraph_get_next_level_node S node level =
     own_mtr S (
       gbind (call (gs_fetch S level (nd_nid node) False empty_neighbour_entry Field_LowerLevel Filter_ExcludeIncoming)) (\<lambda>(entry, _).
       gret \<lparr>nd_nid = ne_lower_level entry, nd_vid = nd_vid node\<rparr>))"

subsection \<open>Linking\<close>

text \<open>
  The walk of \<^verbatim>\<open>add_overflow_incoming\<close>: one overflow record per mini-transaction. When a record has a free slot the id lands
  there; otherwise the walk goes on and the record becomes the parent of a new one at the end of the chain.
\<close>

definition add_to_overflow :: "'s graph_store \<Rightarrow> nat \<Rightarrow> nid \<Rightarrow> nid \<Rightarrow> ('s, nid option) gact" where
  "add_to_overflow S level cur incoming_nid =
     own_mtr S (
       gbind (reads (\<lambda>s. gs_overflow_capacity S s level)) (\<lambda>capacity.
       gbind (call (gs_fetch_overflow S level cur True (incoming_span capacity) OverflowFieldAll)) (\<lambda>(entry, _).
       case find_index (\<lambda>n. \<not> is_valid n) (oe_incoming entry) of
         Some slot \<Rightarrow>
           gbind (call (gs_update_overflow S level cur (empty_overflow_entry\<lparr>oe_incoming := [incoming_nid]\<rparr>) OverflowField_Incoming [u16 slot])) (\<lambda>_.
           gret None)
       | None \<Rightarrow> gret (Some (oe_overflow entry)))))"

definition append_overflow :: "'s graph_store \<Rightarrow> trx_ref \<Rightarrow> nat \<Rightarrow> nid \<Rightarrow> store_kind \<Rightarrow> nid \<Rightarrow> ('s, unit) gact" where
  "append_overflow S trx level parent parent_kind incoming_nid =
     gbind (own_mtr S (call (gs_insert_overflow S level trx (empty_overflow_entry\<lparr>oe_incoming := [incoming_nid]\<rparr>)))) (\<lambda>new_nid.
     if parent_kind = Kind_Neighbour
     then call (gs_update S level parent (empty_neighbour_entry\<lparr>ne_overflow := new_nid\<rparr>) Field_Overflow [])
     else own_mtr S (call (gs_update_overflow S level parent (empty_overflow_entry\<lparr>oe_overflow := new_nid\<rparr>) OverflowField_Overflow [])))"

partial_function (option) overflow_walk ::
    "'s graph_store \<Rightarrow> trx_ref \<Rightarrow> nat \<Rightarrow> nid \<Rightarrow> nid \<Rightarrow> store_kind \<Rightarrow> nid \<Rightarrow> ('s, unit) gact" where
  [code]: "overflow_walk S trx level incoming_nid parent parent_kind cur s =
     (if \<not> is_valid cur then append_overflow S trx level parent parent_kind incoming_nid s
      else
        gbind (add_to_overflow S level cur incoming_nid) (\<lambda>next s'.
        case next of None \<Rightarrow> gret () s'
        | Some nxt \<Rightarrow> overflow_walk S trx level incoming_nid cur Kind_Overflow nxt s') s)"

definition add_overflow_incoming ::
    "'s graph_store \<Rightarrow> trx_ref \<Rightarrow> nat \<Rightarrow> hnsw_node \<Rightarrow> nid \<Rightarrow> hnsw_node \<Rightarrow> ('s, unit) gact" where
  "add_overflow_incoming S trx level neighbour overflow_head node =
     overflow_walk S trx level (set_incoming (nd_nid node)) (nd_nid neighbour) Kind_Neighbour overflow_head"

text \<open>
  One step of \<^verbatim>\<open>link_neighbours_locked\<close>: the edge from \<open>neighbour\<close> back to \<open>node\<close>. The result says whether the neighbour had no
  room for it. A neighbour that cannot be read is passed over.
\<close>

definition reciprocate :: "'s graph_store \<Rightarrow> trx_ref \<Rightarrow> hnsw_node \<Rightarrow> nat \<Rightarrow> nat \<Rightarrow> hnsw_node \<Rightarrow> ('s, bool) gact" where
  "reciprocate S trx node level max_n neighbour =
     own_mtr S (
       gbind (attempt (call (gs_fetch S level (nd_nid neighbour) True (node_span max_n) (Field_Neighbours OR Field_Overflow) Filter_All))) (\<lambda>fetched.
       case fetched of
         None \<Rightarrow> gret False
       | Some (neighbour_entry, neighbour_num_valid) \<Rightarrow>
           (case (if the neighbour_num_valid < max_n then find_index (\<lambda>n. \<not> is_valid (nd_nid n)) (take max_n (ne_neighbours neighbour_entry)) else None) of
              Some free_index \<Rightarrow>
                gbind (call (gs_update S level (nd_nid neighbour) (empty_neighbour_entry\<lparr>ne_neighbours := [node]\<rparr>) Field_Neighbours [u16 free_index])) (\<lambda>_.
                gret False)
            | None \<Rightarrow>
                gbind (add_overflow_incoming S trx level neighbour (ne_overflow neighbour_entry) node) (\<lambda>_.
                gret True))))"

text \<open>
  The loop over the slots of the node. The incoming links it has walked are collected with their slots; the source keeps them at the
  front of the array it walks, behind the slot it reads.
\<close>

fun link_slots ::
    "'s graph_store \<Rightarrow> trx_ref \<Rightarrow> hnsw_node \<Rightarrow> nat \<Rightarrow> nat \<Rightarrow> (nat \<times> hnsw_node) list \<Rightarrow> ('s, (nat \<times> hnsw_node) list \<times> hnsw_node list) gact" where
  "link_slots S trx node level max_n [] = gret ([], [])"
| "link_slots S trx node level max_n ((slot, current) # slots) =
     (if \<not> is_valid (nd_nid current) \<or> \<not> is_incoming (nd_nid current) then link_slots S trx node level max_n slots
      else
        let neighbour = current\<lparr>nd_nid := clear_incoming (nd_nid current)\<rparr> in
        gbind (reciprocate S trx node level max_n neighbour) (\<lambda>full.
        gbind (link_slots S trx node level max_n slots) (\<lambda>(linked, out).
        gret ((u16 slot, neighbour) # linked, if full then neighbour # out else out))))"

text \<open>An update of the neighbour slots of a node, when there is one to make.\<close>

definition write_slots :: "'s graph_store \<Rightarrow> nat \<Rightarrow> hnsw_node \<Rightarrow> (nat \<times> hnsw_node) list \<Rightarrow> ('s, unit) gact" where
  "write_slots S level node writes =
     (if writes = [] then gret ()
      else own_mtr S (call (gs_update S level (nd_nid node) (empty_neighbour_entry\<lparr>ne_neighbours := map snd writes\<rparr>) Field_Neighbours (map fst writes))))"

definition link_neighbours_locked :: "'s graph_store \<Rightarrow> trx_ref \<Rightarrow> hnsw_node \<Rightarrow> nat \<Rightarrow> ('s, hnsw_node list) gact" where
  "link_neighbours_locked S trx node level =
     gbind (reads (\<lambda>s. gs_max_neighbours S s level)) (\<lambda>max_n.
     gbind (own_mtr S (call (gs_fetch S level (nd_nid node) True (node_span max_n) Field_Neighbours Filter_All))) (\<lambda>(entry, _).
     gbind (link_slots S trx node level max_n (enumerate 0 (take max_n (ne_neighbours entry)))) (\<lambda>(linked, out).
     gbind (write_slots S level node linked) (\<lambda>_. gret out))))"

definition IndexGraph_link_neighbours :: "'s graph_store \<Rightarrow> trx_ref \<Rightarrow> hnsw_node \<Rightarrow> nat \<Rightarrow> ('s, hnsw_node list) gact" where
  "IndexGraph_link_neighbours S trx node level = with_operation_lock S level Shared (link_neighbours_locked S trx node level)"

subsection \<open>Removing links\<close>

text \<open>\<^verbatim>\<open>LinkSlot\<close>; the one with the invalid slot is \<open>None\<close>.\<close>

record link_slot =
  lk_record :: nid
  lk_kind :: store_kind
  lk_slot :: nat

definition clear_link :: "'s graph_store \<Rightarrow> nat \<Rightarrow> link_slot \<Rightarrow> ('s, unit) gact" where
  "clear_link S level link =
     (if lk_kind link = Kind_Neighbour
      then call (gs_update S level (lk_record link) (empty_neighbour_entry\<lparr>ne_neighbours := [no_node]\<rparr>) Field_Neighbours [lk_slot link])
      else own_mtr S (call (gs_update_overflow S level (lk_record link) (empty_overflow_entry\<lparr>oe_incoming := [INVALID_ID]\<rparr>) OverflowField_Incoming [lk_slot link])))"

partial_function (option) find_overflow_link ::
    "'s graph_store \<Rightarrow> nat \<Rightarrow> nid \<Rightarrow> nid \<Rightarrow> ('s, link_slot option) gact" where
  [code]: "find_overflow_link S level cur target s =
     (if \<not> is_valid cur then gret None s
      else
        gbind (reads (\<lambda>s. gs_overflow_capacity S s level)) (\<lambda>capacity.
        gbind (own_mtr S (call (gs_fetch_overflow S level cur True (incoming_span capacity) OverflowFieldAll))) (\<lambda>(entry, _) s'.
        case find_index (\<lambda>n. clear_incoming n = target) (take capacity (oe_incoming entry)) of
          Some slot \<Rightarrow> gret (Some \<lparr>lk_record = cur, lk_kind = Kind_Overflow, lk_slot = u16 slot\<rparr>) s'
        | None \<Rightarrow> find_overflow_link S level (oe_overflow entry) target s')) s)"

text \<open>The result says whether the neighbour keeps an outgoing link of its own.\<close>

definition drop_neighbour_link :: "'s graph_store \<Rightarrow> nat \<Rightarrow> hnsw_node \<Rightarrow> nid \<Rightarrow> ('s, bool) gact" where
  "drop_neighbour_link S level node neighbour_nid =
     gbind (reads (\<lambda>s. gs_max_neighbours S s level)) (\<lambda>max_n.
     own_mtr S (
       gbind (attempt (call (gs_fetch S level neighbour_nid True (node_span max_n) (Field_Neighbours OR Field_Overflow) Filter_All))) (\<lambda>fetched.
       case fetched of
         None \<Rightarrow> gret False
       | Some (entry, _) \<Rightarrow>
           let slots = take max_n (map nd_nid (ne_neighbours entry)) in
           (case find_index (\<lambda>n. is_valid n \<and> clear_incoming n = nd_nid node) slots of
              Some slot \<Rightarrow>
                if \<not> is_incoming (slots ! slot) then gret True
                else gbind (clear_link S level \<lparr>lk_record = neighbour_nid, lk_kind = Kind_Neighbour, lk_slot = u16 slot\<rparr>) (\<lambda>_. gret False)
            | None \<Rightarrow>
                gbind (find_overflow_link S level (ne_overflow entry) (nd_nid node)) (\<lambda>link.
                case link of None \<Rightarrow> gret False
                | Some l \<Rightarrow> gbind (clear_link S level l) (\<lambda>_. gret False))))))"

subsection \<open>Replacing the neighbours of a node\<close>

definition in_updated :: "hnsw_node list \<Rightarrow> nid \<Rightarrow> bool" where
  "in_updated neighbours nid \<longleftrightarrow> (\<exists>n\<in>set neighbours. nd_nid n = clear_incoming nid)"

text \<open>Step A: the outgoing links that are dropped, flagged as incoming ones.\<close>

definition demoted_links :: "hnsw_node list \<Rightarrow> hnsw_node list \<Rightarrow> (nat \<times> hnsw_node) list" where
  "demoted_links neighbours slots =
     map (\<lambda>(slot, current). (u16 slot, flag_incoming current))
       (filter (\<lambda>(_, current). is_valid (nd_nid current) \<and> \<not> is_incoming (nd_nid current) \<and> \<not> in_updated neighbours (nd_nid current)) (enumerate 0 slots))"

text \<open>Step B: the far side of the dropped links.\<close>

fun drop_far_side :: "'s graph_store \<Rightarrow> trx_ref \<Rightarrow> hnsw_node \<Rightarrow> nat \<Rightarrow> hnsw_node list \<Rightarrow> hnsw_node list \<Rightarrow> ('s, unit) gact" where
  "drop_far_side S trx node level neighbours [] = gret ()"
| "drop_far_side S trx node level neighbours (current # slots) =
     (if \<not> is_valid (nd_nid current) \<or> in_updated neighbours (nd_nid current) then drop_far_side S trx node level neighbours slots
      else
        let dropped = current\<lparr>nd_nid := clear_incoming (nd_nid current)\<rparr> in
        gbind (drop_neighbour_link S level node (nd_nid dropped)) (\<lambda>keeps_link.
        gbind (if \<not> keeps_link then gret ()
          else own_mtr S (
            gbind (call (gs_fetch S level (nd_nid node) True empty_neighbour_entry Field_Overflow Filter_ExcludeIncoming)) (\<lambda>(head_entry, _).
            add_overflow_incoming S trx level node (ne_overflow head_entry) dropped))) (\<lambda>_.
        drop_far_side S trx node level neighbours slots)))"

text \<open>Step C: the links to add, and the chain slots of those that are promoted to the list.\<close>

fun stage_links :: "'s graph_store \<Rightarrow> nat \<Rightarrow> nid \<Rightarrow> hnsw_node list \<Rightarrow> hnsw_node list \<Rightarrow> ('s, hnsw_node list \<times> link_slot list) gact" where
  "stage_links S level overflow_head slots [] = gret ([], [])"
| "stage_links S level overflow_head slots (target # neighbours) =
     (if \<exists>current\<in>set slots. is_valid (nd_nid current) \<and> clear_incoming (nd_nid current) = nd_nid target
      then stage_links S level overflow_head slots neighbours
      else
        gbind (find_overflow_link S level overflow_head (nd_nid target)) (\<lambda>chained.
        gbind (stage_links S level overflow_head slots neighbours) (\<lambda>(staged, promoted).
        gret (case chained of Some l \<Rightarrow> (target # staged, l # promoted) | None \<Rightarrow> (flag_incoming target # staged, promoted)))))"

text \<open>Step D: the slots to write.\<close>

fun place_links :: "hnsw_node list \<Rightarrow> hnsw_node list \<Rightarrow> (nat \<times> hnsw_node) list \<Rightarrow> (nat \<times> hnsw_node) list" where
  "place_links neighbours staged [] = []"
| "place_links neighbours staged ((slot, current) # slots) =
     (if is_valid (nd_nid current) \<and> in_updated neighbours (nd_nid current) then place_links neighbours staged slots
      else case staged of
          value # staged' \<Rightarrow> (u16 slot, value) # place_links neighbours staged' slots
        | [] \<Rightarrow> if \<not> is_valid (nd_nid current) then place_links neighbours [] slots
                else (u16 slot, no_node) # place_links neighbours [] slots)"

fun clear_links :: "'s graph_store \<Rightarrow> nat \<Rightarrow> link_slot list \<Rightarrow> ('s, unit) gact" where
  "clear_links S level [] = gret ()"
| "clear_links S level (link # links) = gbind (clear_link S level link) (\<lambda>_. clear_links S level links)"

definition replace_neighbours_locked ::
    "'s graph_store \<Rightarrow> trx_ref \<Rightarrow> hnsw_node \<Rightarrow> nat \<Rightarrow> hnsw_node list \<Rightarrow> ('s, hnsw_node list) gact" where
  "replace_neighbours_locked S trx node level neighbours =
     gbind (reads (\<lambda>s. gs_max_neighbours S s level)) (\<lambda>max_n.
     gbind (own_mtr S (call (gs_fetch S level (nd_nid node) True (node_span max_n) (Field_Neighbours OR Field_Overflow) Filter_All))) (\<lambda>(entry, _).
     let slots = take max_n (ne_neighbours entry); overflow_head = ne_overflow entry in
     gbind (write_slots S level node (demoted_links neighbours slots)) (\<lambda>_.
     gbind (drop_far_side S trx node level neighbours slots) (\<lambda>_.
     gbind (stage_links S level overflow_head slots neighbours) (\<lambda>(staged, promoted).
     gbind (write_slots S level node (place_links neighbours staged (enumerate 0 slots))) (\<lambda>_.
     gbind (if promoted = [] then gret () else own_mtr S (clear_links S level promoted)) (\<lambda>_.
     link_neighbours_locked S trx node level)))))))"

definition IndexGraph_replace_neighbours ::
    "'s graph_store \<Rightarrow> trx_ref \<Rightarrow> hnsw_node \<Rightarrow> nat \<Rightarrow> hnsw_node list \<Rightarrow> ('s, hnsw_node list) gact" where
  "IndexGraph_replace_neighbours S trx node level neighbours =
     with_operation_lock S level Exclusive (replace_neighbours_locked S trx node level neighbours)"

subsection \<open>Unlinking a node\<close>

text \<open>
  The slot of the last link that names the node, and the number of outgoing links to other nodes.
\<close>

definition last_link :: "nid \<Rightarrow> nid list \<Rightarrow> nat option" where
  "last_link target slots = List.find (\<lambda>i. is_valid (slots ! i) \<and> clear_incoming (slots ! i) = target) (rev [0..<length slots])"

definition outgoing_links :: "nid \<Rightarrow> nid list \<Rightarrow> nat" where
  "outgoing_links target slots = length (filter (\<lambda>n. is_valid n \<and> clear_incoming n \<noteq> target \<and> \<not> is_incoming n) slots)"

text \<open>The neighbour that was severed, if any, and whether it is an orphan now.\<close>

definition unlink_neighbour :: "'s graph_store \<Rightarrow> nat \<Rightarrow> hnsw_node \<Rightarrow> nid \<Rightarrow> ('s, hnsw_node option \<times> bool) gact" where
  "unlink_neighbour S level node neighbour_nid =
     gbind (reads (\<lambda>s. gs_max_neighbours S s level)) (\<lambda>max_n.
     own_mtr S (
       gbind (attempt (call (gs_fetch S level neighbour_nid True (node_span max_n)
                (Field_Owner OR Field_Neighbours OR Field_Overflow) Filter_All))) (\<lambda>fetched.
       case fetched of
         None \<Rightarrow> gret (None, False)
       | Some (entry, _) \<Rightarrow>
           let slots = take max_n (map nd_nid (ne_neighbours entry)) in
           gbind (case last_link (nd_nid node) slots of
               Some slot \<Rightarrow> gret (Some \<lparr>lk_record = neighbour_nid, lk_kind = Kind_Neighbour, lk_slot = u16 slot\<rparr>)
             | None \<Rightarrow> find_overflow_link S level (ne_overflow entry) (nd_nid node)) (\<lambda>link.
           case link of None \<Rightarrow> gret (None, False)
           | Some l \<Rightarrow>
               gbind (clear_link S level l) (\<lambda>_.
               gret (Some \<lparr>nd_nid = neighbour_nid, nd_vid = ne_owner entry\<rparr>, outgoing_links (nd_nid node) slots = 0))))))"

text \<open>The walk over links with their slots: the slots to free and the neighbours to report, at most \<open>max_n\<close> in all.\<close>

fun unlink_links ::
    "'s graph_store \<Rightarrow> nat \<Rightarrow> hnsw_node \<Rightarrow> nat \<Rightarrow> (nat \<times> nid) list \<Rightarrow> hnsw_node list \<Rightarrow> ('s, nat list \<times> hnsw_node list) gact" where
  "unlink_links S level node max_n [] out = gret ([], out)"
| "unlink_links S level node max_n ((slot, nid) # links) out =
     gbind (unlink_neighbour S level node (clear_incoming nid)) (\<lambda>(neighbour, orphan).
     if orphan then unlink_links S level node max_n links out
     else
       gbind (unlink_links S level node max_n links
         (case neighbour of Some n \<Rightarrow> if is_valid (nd_nid n) \<and> length out < max_n then out @ [n] else out | None \<Rightarrow> out)) (\<lambda>(freed, out').
       gret (slot # freed, out')))"

partial_function (option) unlink_chain ::
    "'s graph_store \<Rightarrow> nat \<Rightarrow> hnsw_node \<Rightarrow> nat \<Rightarrow> nid \<Rightarrow> hnsw_node list \<Rightarrow> ('s, hnsw_node list) gact" where
  [code]: "unlink_chain S level node max_n cur out s =
     (if \<not> is_valid cur then gret out s
      else
        gbind (reads (\<lambda>s. gs_overflow_capacity S s level)) (\<lambda>capacity.
        gbind (own_mtr S (call (gs_fetch_overflow S level cur True (incoming_span capacity) OverflowFieldAll))) (\<lambda>(overflow_entry, _).
        gbind (unlink_links S level node max_n
          (map (\<lambda>(slot, n). (u16 slot, n)) (filter (\<lambda>(_, n). is_valid n) (enumerate 0 (take capacity (oe_incoming overflow_entry))))) out) (\<lambda>(freed, out').
        gbind (if freed = [] then gret ()
          else own_mtr S (call (gs_update_overflow S level cur (empty_overflow_entry\<lparr>oe_incoming := map (\<lambda>_. INVALID_ID) freed\<rparr>) OverflowField_Incoming freed))) (\<lambda>_.
        unlink_chain S level node max_n (oe_overflow overflow_entry) out')))) s)"

definition unlink_neighbours_locked :: "'s graph_store \<Rightarrow> hnsw_node \<Rightarrow> nat \<Rightarrow> ('s, hnsw_node list) gact" where
  "unlink_neighbours_locked S node level =
     gbind (reads (\<lambda>s. gs_max_neighbours S s level)) (\<lambda>max_n.
     gbind (own_mtr S (call (gs_fetch S level (nd_nid node) True (node_span max_n) (Field_Neighbours OR Field_Overflow) Filter_All))) (\<lambda>(entry, _).
     let links = map (\<lambda>(slot, current). (u16 slot, flag_incoming current))
           (filter (\<lambda>(_, current). is_valid (nd_nid current)) (enumerate 0 (take max_n (ne_neighbours entry)))) in
     gbind (write_slots S level node links) (\<lambda>_.
     gbind (unlink_links S level node max_n (map (\<lambda>(slot, n). (slot, nd_nid n)) links) []) (\<lambda>(freed, out).
     gbind (write_slots S level node (map (\<lambda>slot. (slot, no_node)) freed)) (\<lambda>_.
     unlink_chain S level node max_n (ne_overflow entry) out)))))"

definition IndexGraph_unlink_neighbours :: "'s graph_store \<Rightarrow> hnsw_node \<Rightarrow> nat \<Rightarrow> ('s, hnsw_node list) gact" where
  "IndexGraph_unlink_neighbours S node level = with_operation_lock S level Exclusive (unlink_neighbours_locked S node level)"

subsection \<open>The graph\<close>

text \<open>
  The record of operations that \<^verbatim>\<open>GraphOperations\<close> and \<^verbatim>\<open>LayerOperations\<close> are instantiated with. A layer search reads
  the graph without changing it, so its reads drop the state.
\<close>

definition read_only :: "('s, 'a) gact \<Rightarrow> 's \<Rightarrow> 'a option" where
  "read_only m s = (case m s of None \<Rightarrow> None | Some (_, r) \<Rightarrow> r)"

definition index_graph :: "('s, 'v, 'd) index_calls \<Rightarrow> 's graph_store \<Rightarrow> trx_ref \<Rightarrow> ('s, hnsw_node, nid, 'v, 'd) graph" where
  "index_graph X S trx = \<lparr>
     node_key = nd_nid,
     g_node_distance = (\<lambda>s a b. IndexGraph_distance_nodes X a b),
     g_data_distance = (\<lambda>s a b. IndexGraph_distance X a b),
     g_neighbours = (\<lambda>s node level. read_only (IndexGraph_neighbours S node level) s),
     g_visible = (\<lambda>s node. IndexGraph_visible node),
     g_lock_graph = gs_lock_mutex S,
     g_unlock_graph = gs_unlock_mutex S,
     g_lock_level = gs_lock_level_mutex S,
     g_unlock_level = gs_unlock_level_mutex S,
     g_get_entry_point = IndexGraph_get_entry_point S,
     g_set_entry_point = IndexGraph_set_entry_point S,
     g_get_insert_level = IndexGraph_get_insert_level X S,
     g_ensure_levels = IndexGraph_ensure_levels S,
     g_M = gs_num_neighbours S,
     g_ef_construction = gs_ef_construction S,
     g_Mmax = gs_max_neighbours S,
     g_create_node = IndexGraph_create_node X S trx,
     g_drop_node = IndexGraph_drop_node S trx,
     g_mark_delete = IndexGraph_mark_delete S trx,
     g_get_next_level_node = IndexGraph_get_next_level_node S,
     g_link_neighbours = IndexGraph_link_neighbours S trx,
     g_replace_neighbours = IndexGraph_replace_neighbours S trx,
     g_unlink_neighbours = IndexGraph_unlink_neighbours S,
     g_incoming_neighbours = IndexGraph_incoming_neighbours S\<rparr>"

end
