(* ===== verification/Link_Structure.thy ===== *)
theory Link_Structure
  imports Level_Records
begin

text \<open>
  The links of one level, as a structure on the entries: which nodes a node names in its own slots, which in its overflow chain, and
  what it means that every link is known at both ends. Nothing here refers to pages or to the operations of the graph.
\<close>

subsection \<open>Ids in slots\<close>

definition named :: "nid list \<Rightarrow> nid set" where "named ns = clear_incoming ` {n \<in> set ns. is_valid n}"
definition outgoing :: "nid list \<Rightarrow> nid set" where "outgoing ns = {n \<in> set ns. is_valid n \<and> \<not> is_incoming n}"
definition flagged :: "nid list \<Rightarrow> nid set" where "flagged ns = clear_incoming ` {n \<in> set ns. is_valid n \<and> is_incoming n}"

text \<open>No node is named twice.\<close>

definition once :: "nid list \<Rightarrow> bool" where "once ns \<longleftrightarrow> distinct (map clear_incoming (filter is_valid ns))"

lemma named_split: "named ns = outgoing ns \<union> flagged ns"
proof -
  have "clear_incoming ` {n \<in> set ns. is_valid n \<and> \<not> is_incoming n} = outgoing ns"
    unfolding outgoing_def by (force simp: clear_incoming_id image_iff)
  then show ?thesis unfolding named_def flagged_def by (auto simp: image_iff)
qed

lemma named_simps [simp]:
  "named [] = {}" "named (n # ns) = (if is_valid n then insert (clear_incoming n) (named ns) else named ns)"
  "outgoing [] = {}" "outgoing (n # ns) = (if is_valid n \<and> \<not> is_incoming n then insert n (outgoing ns) else outgoing ns)"
  "flagged [] = {}" "flagged (n # ns) = (if is_valid n \<and> is_incoming n then insert (clear_incoming n) (flagged ns) else flagged ns)"
  "once []" "once (n # ns) \<longleftrightarrow> (is_valid n \<longrightarrow> clear_incoming n \<notin> named ns) \<and> once ns"
  by (auto simp: named_def outgoing_def flagged_def once_def)

lemma named_append [simp]:
  "named (xs @ ys) = named xs \<union> named ys" "outgoing (xs @ ys) = outgoing xs \<union> outgoing ys" "flagged (xs @ ys) = flagged xs \<union> flagged ys"
  "once (xs @ ys) \<longleftrightarrow> once xs \<and> once ys \<and> named xs \<inter> named ys = {}"
  by (auto simp: named_def outgoing_def flagged_def once_def)

lemma not_valid_0 [simp]: "\<not> is_valid INVALID_ID"
  by (simp add: is_valid_def)

lemma incoming_set_clear: "is_incoming n \<Longrightarrow> set_incoming (clear_incoming n) = n"
  by (rule bit_word_eqI) (auto simp: is_incoming_bit set_incoming_def clear_incoming_def bit_simps bit_INCOMING)

lemma split_slot:
  assumes "i < length ns"
  obtains xs m ys where "ns = xs @ m # ys" "ns ! i = m" "\<And>n. ns[i := n] = xs @ n # ys"
  using id_take_nth_drop [OF assms] assms by (intro that [of "take i ns" "ns ! i" "drop (Suc i) ns"]) (simp_all add: upd_conv_take_nth_drop)

lemma slot_update:
  assumes "i < length ns"
  shows "is_valid (ns ! i) \<Longrightarrow> clear_incoming n = clear_incoming (ns ! i) \<Longrightarrow> is_valid n \<Longrightarrow> named (ns[i := n]) = named ns"
    and "\<not> is_valid (ns ! i) \<Longrightarrow> is_valid n \<Longrightarrow> named (ns[i := n]) = insert (clear_incoming n) (named ns)"
    and "\<not> is_valid (ns ! i) \<Longrightarrow> is_valid n \<Longrightarrow> \<not> is_incoming n \<Longrightarrow> outgoing (ns[i := n]) = insert n (outgoing ns)"
    and "\<not> is_valid (ns ! i) \<Longrightarrow> is_valid n \<Longrightarrow> \<not> is_incoming n \<Longrightarrow> flagged (ns[i := n]) = flagged ns"
    and "\<not> is_valid (ns ! i) \<Longrightarrow> is_valid n \<Longrightarrow> once ns \<Longrightarrow> clear_incoming n \<notin> named ns \<Longrightarrow> once (ns[i := n])"
proof -
  obtain xs m ys where ns: "ns = xs @ m # ys" "ns ! i = m" "\<And>n. ns[i := n] = xs @ n # ys" using split_slot [OF assms] by blast
  show "is_valid (ns ! i) \<Longrightarrow> clear_incoming n = clear_incoming (ns ! i) \<Longrightarrow> is_valid n \<Longrightarrow> named (ns[i := n]) = named ns"
    "\<not> is_valid (ns ! i) \<Longrightarrow> is_valid n \<Longrightarrow> named (ns[i := n]) = insert (clear_incoming n) (named ns)"
    "\<not> is_valid (ns ! i) \<Longrightarrow> is_valid n \<Longrightarrow> \<not> is_incoming n \<Longrightarrow> outgoing (ns[i := n]) = insert n (outgoing ns)"
    "\<not> is_valid (ns ! i) \<Longrightarrow> is_valid n \<Longrightarrow> \<not> is_incoming n \<Longrightarrow> flagged (ns[i := n]) = flagged ns"
    "\<not> is_valid (ns ! i) \<Longrightarrow> is_valid n \<Longrightarrow> once ns \<Longrightarrow> clear_incoming n \<notin> named ns \<Longrightarrow> once (ns[i := n])"
    unfolding ns(2,3) unfolding ns(1) by auto
qed

subsection \<open>Overflow chains\<close>

type_synonym node_map = "nid \<rightharpoonup> bool \<times> trx_ref \<times> neighbour_entry"
type_synonym chain_map = "nid \<rightharpoonup> trx_ref \<times> overflow_entry"

definition slots_of :: "node_map \<Rightarrow> nid \<Rightarrow> nid list" where
  "slots_of N a = (case N a of None \<Rightarrow> [] | Some (_, _, e) \<Rightarrow> map nd_nid (ne_neighbours e))"
definition head_of :: "node_map \<Rightarrow> nid \<Rightarrow> nid" where
  "head_of N a = (case N a of None \<Rightarrow> INVALID_ID | Some (_, _, e) \<Rightarrow> ne_overflow e)"
definition incoming_of :: "chain_map \<Rightarrow> nid \<Rightarrow> nid list" where
  "incoming_of C p = (case C p of None \<Rightarrow> [] | Some (_, e) \<Rightarrow> oe_incoming e)"
definition next_of :: "chain_map \<Rightarrow> nid \<Rightarrow> nid" where
  "next_of C p = (case C p of None \<Rightarrow> INVALID_ID | Some (_, e) \<Rightarrow> oe_overflow e)"

text \<open>The records of a chain from its head to the one without a successor.\<close>

primrec ochain :: "chain_map \<Rightarrow> nid \<Rightarrow> nid list \<Rightarrow> bool" where
  "ochain C h [] \<longleftrightarrow> \<not> is_valid h"
| "ochain C h (p # ps) \<longleftrightarrow> is_valid h \<and> p = h \<and> h \<in> dom C \<and> ochain C (next_of C h) ps"

lemma ochain_unique: "ochain C h ps \<Longrightarrow> ochain C h qs \<Longrightarrow> ps = qs"
proof (induction ps arbitrary: h qs)
  case Nil
  then show ?case by (cases qs) auto
next
  case (Cons p ps)
  then show ?case by (cases qs) auto
qed

lemma ochain_dom: "ochain C h ps \<Longrightarrow> set ps \<subseteq> dom C"
  by (induction ps arbitrary: h) auto

lemma ochain_suffix: "ochain C h (ps @ qs) \<Longrightarrow> \<exists>h'. ochain C h' qs \<and> (qs \<noteq> [] \<longrightarrow> h' = hd qs)"
proof (induction ps arbitrary: h)
  case Nil
  then show ?case by (cases qs) auto
next
  case (Cons p ps)
  then show ?case by auto
qed

lemma ochain_distinct: "ochain C h ps \<Longrightarrow> distinct ps"
proof (induction ps arbitrary: h)
  case (Cons p ps)
  have "p \<notin> set ps"
  proof
    assume "p \<in> set ps"
    then obtain qs rs where ps: "ps = qs @ p # rs" by (meson split_list)
    then have "ochain C p (p # rs)" using ochain_suffix [of C "next_of C h" qs "p # rs"] Cons.prems by auto
    moreover have "ochain C p (p # ps)" using Cons.prems by simp
    ultimately have "p # rs = p # ps" by (rule ochain_unique)
    with ps show False by simp
  qed
  with Cons show ?case by auto
qed simp

lemma ochain_cong:
  "ochain C h ps \<Longrightarrow> (\<And>p. p \<in> set ps \<Longrightarrow> next_of C' p = next_of C p \<and> p \<in> dom C') \<Longrightarrow> ochain C' h ps"
  by (induction ps arbitrary: h) auto

lemma ochain_extend:
  assumes "ochain C h ps" "ps \<noteq> []" "q \<notin> set ps" "is_valid q" "q \<in> dom C'" "\<not> is_valid (next_of C' q)"
    and "next_of C' (last ps) = q" "\<And>p. p \<in> set ps \<Longrightarrow> p \<in> dom C'" "\<And>p. p \<in> set ps \<Longrightarrow> p \<noteq> last ps \<Longrightarrow> next_of C' p = next_of C p"
  shows "ochain C' h (ps @ [q])"
  using assms ochain_distinct [OF assms(1)]
proof (induction ps arbitrary: h)
  case (Cons p ps)
  show ?case
  proof (cases "ps = []")
    case True
    with Cons.prems show ?thesis by auto
  next
    case False
    have "ochain C (next_of C h) ps" "p = h" "is_valid h" using Cons.prems by auto
    moreover have "next_of C' h = next_of C h" using Cons.prems False \<open>p = h\<close> by (intro Cons.prems(9)) auto
    moreover have "ochain C' (next_of C h) (ps @ [q])"
      by (rule Cons.IH) (use Cons.prems False \<open>ochain C (next_of C h) ps\<close> in auto)
    ultimately show ?thesis using Cons.prems by auto
  qed
qed simp

lemma map_simps [simp]:
  "slots_of (N(a \<mapsto> (d, t, e))) = (slots_of N)(a := map nd_nid (ne_neighbours e))"
  "head_of (N(a \<mapsto> (d, t, e))) = (head_of N)(a := ne_overflow e)"
  "incoming_of (C(p \<mapsto> (t, oe))) = (incoming_of C)(p := oe_incoming oe)"
  "next_of (C(p \<mapsto> (t, oe))) = (next_of C)(p := oe_overflow oe)"
  by (auto simp: slots_of_def head_of_def incoming_of_def next_of_def fun_eq_iff)

lemma map_at:
  "N a = Some (d, t, e) \<Longrightarrow> slots_of N a = map nd_nid (ne_neighbours e)" "N a = Some (d, t, e) \<Longrightarrow> head_of N a = ne_overflow e"
  "C p = Some (t', oe) \<Longrightarrow> incoming_of C p = oe_incoming oe" "C p = Some (t', oe) \<Longrightarrow> next_of C p = oe_overflow oe"
  by (simp_all add: slots_of_def head_of_def incoming_of_def next_of_def)

subsection \<open>Links known at both ends\<close>

text \<open>\<open>K a\<close> is the chain of node \<open>a\<close>. Chains end and do not share records.\<close>

definition chains_ok :: "node_map \<Rightarrow> chain_map \<Rightarrow> (nid \<Rightarrow> nid list) \<Rightarrow> bool" where
  "chains_ok N C K \<longleftrightarrow> (\<forall>a\<in>dom N. ochain C (head_of N a) (K a)) \<and> (\<forall>a\<in>dom N. \<forall>b\<in>dom N. a \<noteq> b \<longrightarrow> set (K a) \<inter> set (K b) = {})"

definition chained :: "chain_map \<Rightarrow> nid list \<Rightarrow> nid set" where
  "chained C ps = (\<Union>p\<in>set ps. named (incoming_of C p))"

definition names :: "node_map \<Rightarrow> chain_map \<Rightarrow> (nid \<Rightarrow> nid list) \<Rightarrow> nid \<Rightarrow> nid set" where
  "names N C K a = named (slots_of N a) \<union> chained C (K a)"

text \<open>The target of every outgoing link names its source.\<close>

definition linked :: "node_map \<Rightarrow> chain_map \<Rightarrow> (nid \<Rightarrow> nid list) \<Rightarrow> bool" where
  "linked N C K \<longleftrightarrow> (\<forall>a b. b \<in> outgoing (slots_of N a) \<longrightarrow> b \<in> dom N \<longrightarrow> a \<in> names N C K b)"

text \<open>Lists of the right size without duplicates or links to the node itself; \<open>V\<close> are the ids of records of the level.\<close>

definition lists_ok :: "nat \<Rightarrow> nat \<Rightarrow> nid set \<Rightarrow> node_map \<Rightarrow> chain_map \<Rightarrow> bool" where
  "lists_ok w c V N C \<longleftrightarrow> (\<forall>a\<in>dom N. length (slots_of N a) = w \<and> once (slots_of N a) \<and> named (slots_of N a) \<subseteq> V - {a})
     \<and> (\<forall>p\<in>dom C. length (incoming_of C p) = c \<and> named (incoming_of C p) \<subseteq> V)"

lemma linkedI: "(\<And>a b. b \<in> outgoing (slots_of N a) \<Longrightarrow> b \<in> dom N \<Longrightarrow> a \<in> names N C K b) \<Longrightarrow> linked N C K"
  by (auto simp: linked_def)

lemma linkedD: "linked N C K \<Longrightarrow> b \<in> outgoing (slots_of N a) \<Longrightarrow> b \<in> dom N \<Longrightarrow> a \<in> names N C K b"
  by (auto simp: linked_def)

lemma outgoing_dom: "b \<in> outgoing (slots_of N a) \<Longrightarrow> a \<in> dom N"
  by (cases "N a") (auto simp: slots_of_def)

definition level_ok :: "nat \<Rightarrow> nat \<Rightarrow> nid set \<Rightarrow> node_map \<Rightarrow> chain_map \<Rightarrow> (nid \<Rightarrow> nid list) \<Rightarrow> bool" where
  "level_ok w c V N C K \<longleftrightarrow> lists_ok w c V N C \<and> chains_ok N C K \<and> linked N C K"

lemma level_okD:
  assumes "level_ok w c V N C K"
  shows "a \<in> dom N \<Longrightarrow> length (slots_of N a) = w" "a \<in> dom N \<Longrightarrow> once (slots_of N a)" "a \<in> dom N \<Longrightarrow> named (slots_of N a) \<subseteq> V - {a}"
    and "p \<in> dom C \<Longrightarrow> length (incoming_of C p) = c" "p \<in> dom C \<Longrightarrow> named (incoming_of C p) \<subseteq> V"
    and "a \<in> dom N \<Longrightarrow> ochain C (head_of N a) (K a)" "linked N C K" "chains_ok N C K" "lists_ok w c V N C"
    and "a \<in> dom N \<Longrightarrow> b \<in> dom N \<Longrightarrow> a \<noteq> b \<Longrightarrow> set (K a) \<inter> set (K b) = {}"
  using assms by (auto simp: level_ok_def lists_ok_def chains_ok_def)

text \<open>Steps that take no name away keep the links known, if every new outgoing link is.\<close>

lemma linked_mono:
  assumes "linked N C K" "dom N' = dom N" "\<And>b. b \<in> dom N \<Longrightarrow> names N C K b \<subseteq> names N' C' K' b"
    and "\<And>a b. b \<in> outgoing (slots_of N' a) \<Longrightarrow> b \<in> dom N \<Longrightarrow> b \<in> outgoing (slots_of N a) \<or> a \<in> names N' C' K' b"
  shows "linked N' C' K'"
  unfolding linked_def using assms(2-4) linkedD [OF assms(1)] by blast

text \<open>A link back lands in a free slot of the neighbour.\<close>

lemma level_ok_land:
  assumes ok: "level_ok w c V N C K" and b: "N b = Some (d, t, e)" "N b' = Some x" "b' \<noteq> b" "b' \<in> V" "is_valid b'" "\<not> is_incoming b'"
    and i: "i < length (ne_neighbours e)" "\<not> is_valid (nd_nid (ne_neighbours e ! i))"
    and new: "b' \<notin> named (slots_of N b)" "b \<in> named (slots_of N b')"
    and e': "map nd_nid (ne_neighbours e') = (map nd_nid (ne_neighbours e))[i := b']" "ne_overflow e' = ne_overflow e"
  shows "level_ok w c V (N(b \<mapsto> (d, t, e'))) C K"
proof -
  note D = level_okD [OF ok] and at = map_at(1,2) [of N b d t e, OF b(1)]
  have i': "i < length (slots_of N b)" "\<not> is_valid (slots_of N b ! i)" using i at by simp_all
  have cl: "clear_incoming b' = b'" using b(6) by (rule clear_incoming_id)
  have sl: "map nd_nid (ne_neighbours e') = (slots_of N b)[i := b']" using e' at by simp
  note up = slot_update [OF i'(1)]
  have nm: "named ((slots_of N b)[i := b']) = insert b' (named (slots_of N b))" using up(2) i' b cl by simp
  have out: "outgoing ((slots_of N b)[i := b']) = insert b' (outgoing (slots_of N b))" using up(3) i' b by simp
  have bd: "b \<in> dom N" using b(1) by auto
  have "lists_ok w c V (N(b \<mapsto> (d, t, e'))) C"
    using D(9) bd up(5) [of b'] i' b cl new nm by (auto simp: lists_ok_def sl)
  moreover have "chains_ok (N(b \<mapsto> (d, t, e'))) C K"
  proof -
    have "dom (N(b \<mapsto> (d, t, e'))) = dom N" "head_of (N(b \<mapsto> (d, t, e'))) = head_of N"
      using bd at e' by (auto simp: fun_eq_iff)
    then show ?thesis using D(8) by (simp only: chains_ok_def)
  qed
  moreover have "linked (N(b \<mapsto> (d, t, e'))) C K"
    by (rule linked_mono [OF D(7)]) (use bd nm out new b in \<open>auto simp: names_def sl split: if_splits\<close>)
  ultimately show ?thesis by (simp add: level_ok_def)
qed

text \<open>An id enters a free slot of an overflow record.\<close>

lemma level_ok_fill:
  assumes ok: "level_ok w c V N C K" and p: "C p = Some (t, oe)" and a: "a \<in> V" "\<not> is_incoming a"
    and i: "i < length (oe_incoming oe)" "\<not> is_valid (oe_incoming oe ! i)"
    and oe': "oe_incoming oe' = (oe_incoming oe)[i := set_incoming a]" "oe_overflow oe' = oe_overflow oe"
  shows "level_ok w c V N (C(p \<mapsto> (t, oe'))) K" "named (incoming_of (C(p \<mapsto> (t, oe'))) p) = insert a (named (incoming_of C p))"
proof -
  note D = level_okD [OF ok] and at = map_at(3,4) [of C p t oe, OF p]
  have cl: "clear_incoming a = a" using a(2) by (rule clear_incoming_id)
  have nm: "named (oe_incoming oe') = insert a (named (incoming_of C p))"
    using slot_update(2) [OF i(1), of "set_incoming a"] i cl by (simp add: oe' at)
  have "lists_ok w c V N (C(p \<mapsto> (t, oe')))"
    using D(4,5) [of p] D(9) p nm a at by (auto simp: lists_ok_def oe')
  moreover have "chains_ok N (C(p \<mapsto> (t, oe'))) K"
  proof -
    have "next_of (C(p \<mapsto> (t, oe'))) = next_of C" "dom (C(p \<mapsto> (t, oe'))) = dom C" using p at oe' by (auto simp: fun_eq_iff)
    then have "ochain (C(p \<mapsto> (t, oe'))) h ps" if "ochain C h ps" for h ps
      using that by (rule_tac ochain_cong) (use ochain_dom [OF that] in auto)
    then show ?thesis using D(8) by (simp add: chains_ok_def)
  qed
  moreover have "linked N (C(p \<mapsto> (t, oe'))) K"
    by (rule linked_mono [OF D(7)]) (use nm in \<open>auto simp: names_def chained_def\<close>)
  ultimately show "level_ok w c V N (C(p \<mapsto> (t, oe'))) K" by (simp add: level_ok_def)
  show "named (incoming_of (C(p \<mapsto> (t, oe'))) p) = insert a (named (incoming_of C p))" using nm by simp
qed

text \<open>A new overflow record, not yet part of a chain.\<close>

lemma level_ok_new:
  assumes ok: "level_ok w c V N C K" and q: "C q = None" and oe: "length (oe_incoming oe) = c" "named (oe_incoming oe) \<subseteq> V"
  shows "level_ok w c V N (C(q \<mapsto> (t, oe))) K"
proof -
  note D = level_okD [OF ok]
  have nq: "q \<notin> set (K a)" if "a \<in> dom N" for a using ochain_dom [OF D(6) [OF that]] q by auto
  have "lists_ok w c V N (C(q \<mapsto> (t, oe)))" using D(9) oe by (auto simp: lists_ok_def)
  moreover have "chains_ok N (C(q \<mapsto> (t, oe))) K"
  proof -
    have "ochain (C(q \<mapsto> (t, oe))) (head_of N a) (K a)" if "a \<in> dom N" for a
      by (rule ochain_cong [OF D(6) [OF that]]) (use nq [OF that] ochain_dom [OF D(6) [OF that]] in auto)
    then show ?thesis using D(8) by (simp add: chains_ok_def)
  qed
  moreover have "linked N (C(q \<mapsto> (t, oe))) K"
  proof (rule linked_mono [OF D(7) refl])
    fix b assume "b \<in> dom N"
    from nq [OF this] have "chained (C(q \<mapsto> (t, oe))) (K b) = chained C (K b)" unfolding chained_def by (intro SUP_cong) auto
    then show "names N C K b \<subseteq> names N (C(q \<mapsto> (t, oe))) K b" by (simp add: names_def)
  qed simp
  ultimately show ?thesis by (simp add: level_ok_def)
qed

text \<open>The record becomes the end of a chain, as the first record of a node or behind the last one.\<close>

lemma level_ok_append_head:
  assumes ok: "level_ok w c V N C K" and b: "N b = Some (d, t, e)" "\<not> is_valid (ne_overflow e)"
    and q: "q \<in> dom C" "is_valid q" "\<not> is_valid (next_of C q)" "\<And>a. a \<in> dom N \<Longrightarrow> q \<notin> set (K a)"
    and e': "ne_neighbours e' = ne_neighbours e" "ne_overflow e' = q"
  shows "level_ok w c V (N(b \<mapsto> (d, t, e'))) C (K(b := [q]))" "K b = []"
proof -
  note D = level_okD [OF ok] and at = map_at(1,2) [of N b d t e, OF b(1)]
  have bd: "b \<in> dom N" using b(1) by auto
  show Kb: "K b = []" using D(6) [OF bd] b(2) by (cases "K b") (auto simp: at)
  have sl: "slots_of (N(b \<mapsto> (d, t, e'))) = slots_of N" using at e' by (auto simp: fun_eq_iff)
  have dm: "dom (N(b \<mapsto> (d, t, e'))) = dom N" using bd by auto
  have "lists_ok w c V (N(b \<mapsto> (d, t, e'))) C" using D(9) by (simp only: lists_ok_def sl dm)
  moreover have "chains_ok (N(b \<mapsto> (d, t, e'))) C (K(b := [q]))"
    using D(8) bd q e' by (auto simp: chains_ok_def)
  moreover have "linked (N(b \<mapsto> (d, t, e'))) C (K(b := [q]))"
    by (rule linked_mono [OF D(7) dm]) (auto simp: Kb names_def chained_def sl simp del: map_simps)
  ultimately show "level_ok w c V (N(b \<mapsto> (d, t, e'))) C (K(b := [q]))" by (simp add: level_ok_def)
qed

lemma level_ok_append_tail:
  assumes ok: "level_ok w c V N C K" and b: "b \<in> dom N" "K b \<noteq> []" "C (last (K b)) = Some (t, oe)"
    and q: "q \<in> dom C" "is_valid q" "\<not> is_valid (next_of C q)" "\<And>a. a \<in> dom N \<Longrightarrow> q \<notin> set (K a)"
    and oe': "oe_incoming oe' = oe_incoming oe" "oe_overflow oe' = q"
  shows "level_ok w c V N (C(last (K b) \<mapsto> (t, oe'))) (K(b := K b @ [q]))"
proof -
  let ?p = "last (K b)" and ?C = "C(last (K b) \<mapsto> (t, oe'))"
  note D = level_okD [OF ok] and at = map_at(3,4) [of C "last (K b)" t oe, OF b(3)]
  have pq: "?p \<noteq> q" using q(4) [OF b(1)] b(2) last_in_set [of "K b"] by auto
  have inc: "incoming_of ?C = incoming_of C" using at oe' by (auto simp: fun_eq_iff)
  have dm: "dom ?C = dom C" using b(3) by auto
  have "lists_ok w c V N ?C" using D(9) by (simp only: lists_ok_def inc dm)
  moreover have "chains_ok N ?C (K(b := K b @ [q]))"
  proof -
    have "ochain ?C (head_of N b) (K b @ [q])"
      by (rule ochain_extend [OF D(6) [OF b(1)]]) (use b q pq oe' ochain_dom [OF D(6) [OF b(1)]] in auto)
    moreover have "ochain ?C (head_of N a) (K a)" if "a \<in> dom N" "a \<noteq> b" for a
    proof (rule ochain_cong [OF D(6) [OF that(1)]])
      fix p assume p: "p \<in> set (K a)"
      then have "p \<noteq> ?p" using D(10) [OF that(1) b(1) that(2)] b(2) last_in_set [of "K b"] by auto
      then show "next_of ?C p = next_of C p \<and> p \<in> dom ?C" using p ochain_dom [OF D(6) [OF that(1)]] by auto
    qed
    ultimately show ?thesis using D(8) q(4) by (auto simp: chains_ok_def)
  qed
  moreover have "linked N ?C (K(b := K b @ [q]))"
    by (rule linked_mono [OF D(7) refl]) (auto simp: names_def chained_def inc simp del: map_simps)
  ultimately show ?thesis by (simp add: level_ok_def)
qed

text \<open>The flagged links of a node become outgoing ones, once their targets know.\<close>

definition unflag :: "nid list \<Rightarrow> nid list" where "unflag ns = map (\<lambda>n. if is_valid n then clear_incoming n else n) ns"

lemma named_filter:
  "named ns = clear_incoming ` set (filter is_valid ns)" "outgoing ns = {n \<in> set (filter is_valid ns). \<not> is_incoming n}"
  "flagged ns = clear_incoming ` {n \<in> set (filter is_valid ns). is_incoming n}"
  by (auto simp: named_def outgoing_def flagged_def)

lemma unflag_simps:
  assumes "\<forall>n\<in>named ns. is_valid n"
  shows "length (unflag ns) = length ns" "named (unflag ns) = named ns" "outgoing (unflag ns) = named ns" "flagged (unflag ns) = {}" "once (unflag ns) = once ns"
proof -
  have "\<forall>n\<in>set ns. is_valid n \<longrightarrow> is_valid (clear_incoming n)" using assms by (auto simp: named_def)
  then have f: "filter is_valid (unflag ns) = map clear_incoming (filter is_valid ns)" unfolding unflag_def by (induction ns) simp_all
  show "length (unflag ns) = length ns" by (simp add: unflag_def)
  show "named (unflag ns) = named ns" "outgoing (unflag ns) = named ns" "flagged (unflag ns) = {}" "once (unflag ns) = once ns"
    unfolding named_filter once_def f by (auto simp: image_image comp_def)
qed

lemma level_ok_confirm:
  assumes ok: "level_ok w c V N C K" and a: "N a = Some (d, t, e)" and g: "\<forall>n\<in>V. is_valid n"
    and fl: "\<forall>b\<in>flagged (slots_of N a). b \<in> dom N \<longrightarrow> a \<in> names N C K b"
    and e': "map nd_nid (ne_neighbours e') = unflag (slots_of N a)" "ne_overflow e' = ne_overflow e"
  shows "level_ok w c V (N(a \<mapsto> (d, t, e'))) C K" "names (N(a \<mapsto> (d, t, e'))) C K = names N C K"
proof -
  note D = level_okD [OF ok] and at = map_at(1,2) [of N a d t e, OF a]
  have ad: "a \<in> dom N" using a by auto
  note u = unflag_simps [of "slots_of N a"]
  have val: "\<forall>n\<in>named (slots_of N a). is_valid n" using D(3) [OF ad] g by auto
  show nm: "names (N(a \<mapsto> (d, t, e'))) C K = names N C K" using u(2) [OF val] by (auto simp: names_def e' fun_eq_iff)
  have "lists_ok w c V (N(a \<mapsto> (d, t, e'))) C" using D(9) ad u [OF val] by (auto simp: lists_ok_def e')
  moreover have "chains_ok (N(a \<mapsto> (d, t, e'))) C K"
  proof -
    have "dom (N(a \<mapsto> (d, t, e'))) = dom N" "head_of (N(a \<mapsto> (d, t, e'))) = head_of N" using ad at e' by (auto simp: fun_eq_iff)
    then show ?thesis using D(8) by (simp only: chains_ok_def)
  qed
  moreover have "linked (N(a \<mapsto> (d, t, e'))) C K"
  proof (rule linked_mono [OF D(7)])
    fix x b assume b: "b \<in> outgoing (slots_of (N(a \<mapsto> (d, t, e'))) x)" "b \<in> dom N"
    show "b \<in> outgoing (slots_of N x) \<or> x \<in> names (N(a \<mapsto> (d, t, e'))) C K b"
    proof (cases "x = a")
      case True
      then have "b \<in> outgoing (slots_of N a) \<union> flagged (slots_of N a)" using b u(3) [OF val] by (simp add: e' named_split)
      then show ?thesis using fl b True unfolding nm by auto
    qed (use b in simp)
  qed (use ad nm in auto)
  ultimately show "level_ok w c V (N(a \<mapsto> (d, t, e'))) C K" by (simp add: level_ok_def)
qed

subsection \<open>Writing the slots of a list\<close>

definition put_all :: "('b \<Rightarrow> 'a) \<Rightarrow> (nat \<times> 'b) list \<Rightarrow> 'a list \<Rightarrow> 'a list" where
  "put_all f ws xs = fold (\<lambda>(i, x) l. l[i := f x]) ws xs"

lemma put_all_enumerate:
  "put_all f (map (\<lambda>(i, c). (i, g c)) (filter (\<lambda>(_, c). P c) (enumerate (length ps) xs))) (ps @ xs) = ps @ map (\<lambda>c. if P c then f (g c) else c) xs"
proof (induction xs arbitrary: ps)
  case (Cons x xs)
  show ?case using Cons [of "ps @ [if P x then f (g x) else x]"] by (cases "P x") (simp_all add: put_all_def)
qed (simp add: put_all_def)

lemma enumerate_slots:
  "sorted_wrt (<) (map fst (filter P (enumerate n xs)))" "i \<in> fst ` set (filter P (enumerate n xs)) \<Longrightarrow> n \<le> i \<and> i < n + length xs"
proof -
  show "i \<in> fst ` set (filter P (enumerate n xs)) \<Longrightarrow> n \<le> i \<and> i < n + length xs" for n i
    by (auto simp: in_set_enumerate_eq)
  show "sorted_wrt (<) (map fst (filter P (enumerate n xs)))"
  proof (induction xs arbitrary: n)
    case (Cons x xs)
    have "n < fst y" if "y \<in> set (enumerate (Suc n) xs)" for y using that by (simp add: in_set_enumerate_eq)
    with Cons [of "Suc n"] show ?case by auto
  qed simp
qed

end
