(* ===== verification/Graph_Links.thy ===== *)
theory Graph_Links
  imports Index_Graph Link_Structure
begin

text \<open>
  The links of the graph on its storage: what the operations of \<^verbatim>\<open>Index_Graph\<close> do to the entries of a level, as long as no
  page call fails. The locale \<open>graph_levels\<close> is the contract of the stores; its lemmas are proved once and hold for every
  implementation of the contract, in particular for the level stores.
\<close>

subsection \<open>Rules for actions of the graph\<close>

text \<open>A triple for actions: the action ends, in a state of the one kind or the other.\<close>

definition gtriple :: "('s \<Rightarrow> bool) \<Rightarrow> ('s, 'a) gact \<Rightarrow> ('a \<Rightarrow> 's \<Rightarrow> bool) \<Rightarrow> ('s \<Rightarrow> bool) \<Rightarrow> bool" where
  "gtriple A m Q E \<longleftrightarrow> (\<forall>s. A s \<longrightarrow> (\<exists>s' r. m s = Some (s', r) \<and> (case r of Some x \<Rightarrow> Q x s' | None \<Rightarrow> E s')))"

lemma gtriple_bind:
  assumes "gtriple A m B E" "\<And>x. gtriple (B x) (f x) Q E"
  shows "gtriple A (gbind m f) Q E"
  unfolding gtriple_def
proof (intro allI impI)
  fix s assume "A s"
  with assms(1) obtain s1 r where m: "m s = Some (s1, r)" "case r of Some x \<Rightarrow> B x s1 | None \<Rightarrow> E s1" by (auto simp: gtriple_def)
  show "\<exists>s' r. gbind m f s = Some (s', r) \<and> (case r of Some x \<Rightarrow> Q x s' | None \<Rightarrow> E s')"
  proof (cases r)
    case None
    with m show ?thesis by (simp add: gbind_def)
  next
    case (Some x)
    with m assms(2) [of x] show ?thesis by (auto simp: gbind_def gtriple_def)
  qed
qed

lemma gtriple_conseq:
  assumes "gtriple A m Q E" "\<And>s. B s \<Longrightarrow> A s" "\<And>x s. Q x s \<Longrightarrow> R x s" "\<And>s. E s \<Longrightarrow> F s"
  shows "gtriple B m R F"
  unfolding gtriple_def
proof (intro allI impI)
  fix s assume "B s"
  with assms(1,2) obtain s' r where m: "m s = Some (s', r)" "case r of Some x \<Rightarrow> Q x s' | None \<Rightarrow> E s'" unfolding gtriple_def by blast
  with assms(3,4) have "case r of Some x \<Rightarrow> R x s' | None \<Rightarrow> F s'" by (cases r) simp_all
  with m(1) show "\<exists>s' r. m s = Some (s', r) \<and> (case r of Some x \<Rightarrow> R x s' | None \<Rightarrow> F s')" by blast
qed

lemma gtriple_ret: "(\<And>s. A s \<Longrightarrow> Q x s) \<Longrightarrow> gtriple A (gret x) Q E"
  by (simp add: gtriple_def gret_def)

lemma gtriple_call:
  "(\<And>s s' x. A s \<Longrightarrow> m s = (s', Some x) \<Longrightarrow> Q x s') \<Longrightarrow> (\<And>s s'. A s \<Longrightarrow> m s = (s', None) \<Longrightarrow> E s') \<Longrightarrow> gtriple A (call m) Q E"
  by (auto simp: gtriple_def call_def split: option.splits) (metis option.exhaust surj_pair)

lemma gtriple_reads: "(\<And>s. A s \<Longrightarrow> Q (f s) s) \<Longrightarrow> gtriple A (reads f) Q E"
  by (simp add: gtriple_def reads_def)

lemma gtriple_attempt:
  assumes "gtriple A m (\<lambda>x. Q (Some x)) (Q None)"
  shows "gtriple A (attempt m) Q E"
  unfolding gtriple_def
proof (intro allI impI)
  fix s assume "A s"
  with assms obtain s' r where m: "m s = Some (s', r)" "case r of Some x \<Rightarrow> Q (Some x) s' | None \<Rightarrow> Q None s'" by (auto simp: gtriple_def)
  then have "Q r s'" by (cases r) simp_all
  with m(1) show "\<exists>s' r. attempt m s = Some (s', r) \<and> (case r of Some x \<Rightarrow> Q x s' | None \<Rightarrow> E s')" by (simp add: attempt_def)
qed

subsection \<open>Masks, patches and slots\<close>

lemma mask_simps [simp]:
  "has_field Field_Neighbours Field_Neighbours" "\<not> has_field Field_Neighbours Field_Owner" "\<not> has_field Field_Neighbours Field_LowerLevel" "\<not> has_field Field_Neighbours Field_Overflow"
  "has_field Field_Overflow Field_Overflow" "\<not> has_field Field_Overflow Field_Owner" "\<not> has_field Field_Overflow Field_LowerLevel" "\<not> has_field Field_Overflow Field_Neighbours"
  "has_field Field_LowerLevel Field_LowerLevel" "\<not> has_field Field_LowerLevel Field_Owner" "\<not> has_field Field_LowerLevel Field_Overflow" "\<not> has_field Field_LowerLevel Field_Neighbours"
  "has_field Field_Owner Field_Owner" "\<not> has_field Field_Owner Field_LowerLevel" "\<not> has_field Field_Owner Field_Overflow" "\<not> has_field Field_Owner Field_Neighbours"
  "has_field OverflowField_Incoming OverflowField_Incoming" "\<not> has_field OverflowField_Incoming OverflowField_Overflow"
  "has_field OverflowField_Overflow OverflowField_Overflow" "\<not> has_field OverflowField_Overflow OverflowField_Incoming"
  by (simp_all add: field_defs)

lemma mask_or [simp]: "has_field (a OR b) f \<longleftrightarrow> has_field a f \<or> has_field b f"
proof -
  have "(a OR b) AND f = 0 \<longleftrightarrow> a AND f = 0 \<and> b AND f = 0" by (auto simp: bit_eq_iff bit_and_iff bit_or_iff)
  then show ?thesis by (auto simp: has_field_def)
qed

lemma patch_simps [simp]:
  "patch_entry (empty_neighbour_entry\<lparr>ne_neighbours := ns\<rparr>) Field_Neighbours slots old = old\<lparr>ne_neighbours := put_nodes (zip slots ns) (ne_neighbours old)\<rparr>"
  "patch_entry (empty_neighbour_entry\<lparr>ne_overflow := q\<rparr>) Field_Overflow [] old = old\<lparr>ne_overflow := id48 q\<rparr>"
  "patch_entry (lower_level_entry q) Field_LowerLevel [] old = old\<lparr>ne_lower_level := id48 q\<rparr>"
  "patch_overflow (empty_overflow_entry\<lparr>oe_incoming := ids\<rparr>) OverflowField_Incoming slots oold
     = oold\<lparr>oe_incoming := fold (\<lambda>(slot, n) l. l[slot := id48 n]) (zip slots ids) (oe_incoming oold)\<rparr>"
  "patch_overflow (empty_overflow_entry\<lparr>oe_overflow := q\<rparr>) OverflowField_Overflow [] oold = oold\<lparr>oe_overflow := id48 q\<rparr>"
  by (simp_all add: patch_entry_def patch_overflow_def lower_level_entry_def empty_neighbour_entry_def empty_overflow_entry_def)

lemma find_index_Some: "find_index P xs = Some i \<Longrightarrow> i < length xs \<and> P (xs ! i) \<and> (\<forall>j < i. \<not> P (xs ! j))"
  by (auto simp: find_index_def find_Some_iff dest: less_trans)

lemma find_index_None: "find_index P xs = None \<longleftrightarrow> (\<forall>x\<in>set xs. \<not> P x)"
  by (auto simp: find_index_def find_None_iff) (metis in_set_conv_nth)

lemma id48_0 [simp]: "id48 INVALID_ID = INVALID_ID"
  by (simp add: id48_def INVALID_ID_def)

lemma slot_u16: "i < 2 ^ 16 \<Longrightarrow> u16 i = i"
  by (simp add: u16_def)

subsection \<open>The contract of the stores\<close>

text \<open>What a read delivers of a stored entry, and what is stored of an entry that is inserted.\<close>

definition entry_view :: "nat \<Rightarrow> bool \<Rightarrow> neighbour_entry \<Rightarrow> field_mask \<Rightarrow> incoming_filter \<Rightarrow> neighbour_entry \<Rightarrow> neighbour_entry \<times> nat option" where
  "entry_view level for_update entry fm filt old =
     (let valid = filter (\<lambda>n. included filt (nd_nid n)) (ne_neighbours old) in
      (\<lparr>ne_owner = (if has_field fm Field_Owner then ne_owner old else ne_owner entry),
        ne_lower_level = (if has_field fm Field_LowerLevel \<and> has_lower_level level then ne_lower_level old else ne_lower_level entry),
        ne_neighbours = (if has_field fm Field_Neighbours
          then (if for_update then ne_neighbours old @ drop (length (ne_neighbours old)) (ne_neighbours entry) else valid) else ne_neighbours entry),
        ne_overflow = (if has_field fm Field_Overflow then ne_overflow old else ne_overflow entry)\<rparr>,
       if has_field fm Field_Neighbours then Some (length valid) else None))"

definition overflow_view :: "bool \<Rightarrow> overflow_entry \<Rightarrow> field_mask \<Rightarrow> overflow_entry \<Rightarrow> overflow_entry \<times> nat option" where
  "overflow_view for_update entry fm old =
     (let valid = filter is_valid (oe_incoming old) in
      (\<lparr>oe_incoming = (if has_field fm OverflowField_Incoming
          then (if for_update then oe_incoming old @ drop (length (oe_incoming old)) (oe_incoming entry) else valid) else oe_incoming entry),
        oe_overflow = (if has_field fm OverflowField_Overflow then oe_overflow old else oe_overflow entry)\<rparr>,
       if has_field fm OverflowField_Incoming then Some (length valid) else None))"

definition fresh_entry :: "nat \<Rightarrow> nat \<Rightarrow> neighbour_entry \<Rightarrow> neighbour_entry" where
  "fresh_entry level w e = \<lparr>ne_owner = id48 (ne_owner e), ne_lower_level = (if has_lower_level level then id48 (ne_lower_level e) else INVALID_ID),
     ne_neighbours = map (\<lambda>n. \<lparr>nd_nid = id48 (nd_nid n), nd_vid = id48 (nd_vid n)\<rparr>) (pad_nodes w (ne_neighbours e)), ne_overflow = id48 (ne_overflow e)\<rparr>"

definition fresh_overflow :: "nat \<Rightarrow> overflow_entry \<Rightarrow> overflow_entry" where
  "fresh_overflow c e = \<lparr>oe_incoming = map (\<lambda>i. if i < length (oe_incoming e) then id48 (oe_incoming e ! i) else INVALID_ID) [0..<c], oe_overflow = id48 (oe_overflow e)\<rparr>"

text \<open>A removal takes effect when the record belongs to the transaction.\<close>

definition drop_node_of :: "trx_ref \<Rightarrow> nid \<Rightarrow> node_map \<Rightarrow> node_map" where
  "drop_node_of trx n N = (case N n of Some (d, t, e) \<Rightarrow> if t = trx then N(n := None) else N | None \<Rightarrow> N)"

definition drop_overflow_of :: "trx_ref \<Rightarrow> nid \<Rightarrow> chain_map \<Rightarrow> chain_map" where
  "drop_overflow_of trx p C = (case C p of Some (t, e) \<Rightarrow> if t = trx then C(p := None) else C | None \<Rightarrow> C)"

definition good_id :: "nid \<Rightarrow> bool" where "good_id n \<longleftrightarrow> is_valid n \<and> unat n < 2 ^ 46"

definition writes_something :: "neighbour_entry \<Rightarrow> field_mask \<Rightarrow> nat list \<Rightarrow> bool" where
  "writes_something e fm slots \<longleftrightarrow> has_field fm Field_Owner \<or> has_field fm Field_LowerLevel \<or> has_field fm Field_Overflow
     \<or> has_field fm Field_Neighbours \<and> slots \<noteq> [] \<and> ne_neighbours e \<noteq> []"

definition writes_overflow :: "overflow_entry \<Rightarrow> field_mask \<Rightarrow> nat list \<Rightarrow> bool" where
  "writes_overflow e fm slots \<longleftrightarrow> has_field fm OverflowField_Overflow \<or> has_field fm OverflowField_Incoming \<and> slots \<noteq> [] \<and> oe_incoming e \<noteq> []"

text \<open>
  What a client sees of the stores: the levels that exist, the ids of records, present or removed, and the records. \<open>ok\<close> is the
  invariant of the stores and says that no page call fails. An insertion may fail because no page is left; then nothing has changed.
\<close>

record level_view =
  lv_levels :: "nat set"
  lv_known :: "nat \<Rightarrow> nid set"
  lv_oknown :: "nat \<Rightarrow> nid set"
  lv_nodes :: "nat \<Rightarrow> node_map"
  lv_chains :: "nat \<Rightarrow> chain_map"

definition with_nodes :: "nat \<Rightarrow> node_map \<Rightarrow> level_view \<Rightarrow> level_view" where
  "with_nodes l N v = v\<lparr>lv_nodes := (lv_nodes v)(l := N)\<rparr>"
definition with_chains :: "nat \<Rightarrow> chain_map \<Rightarrow> level_view \<Rightarrow> level_view" where
  "with_chains l C v = v\<lparr>lv_chains := (lv_chains v)(l := C)\<rparr>"
definition knows_more :: "level_view \<Rightarrow> level_view \<Rightarrow> bool" where
  "knows_more v v' \<longleftrightarrow> lv_nodes v' = lv_nodes v \<and> lv_chains v' = lv_chains v \<and> lv_levels v' = lv_levels v
     \<and> (\<forall>l. lv_known v l \<subseteq> lv_known v' l) \<and> (\<forall>l. lv_oknown v l \<subseteq> lv_oknown v' l)"

definition with_oknown :: "nat \<Rightarrow> nid \<Rightarrow> level_view \<Rightarrow> level_view" where
  "with_oknown l p v = v\<lparr>lv_oknown := (lv_oknown v)(l := insert p (lv_oknown v l))\<rparr>"
definition with_known :: "nat \<Rightarrow> nid \<Rightarrow> level_view \<Rightarrow> level_view" where
  "with_known l n v = v\<lparr>lv_known := (lv_known v)(l := insert n (lv_known v l))\<rparr>"

lemma good_id:
  assumes "good_id n"
  shows "is_valid n" "\<not> is_incoming n" "clear_incoming n = n" "id48 n = n" "id48 (set_incoming n) = set_incoming n" "clear_incoming (set_incoming n) = n"
  using assms column_ref_nid [of n] by (simp_all add: good_id_def)

lemma view_simps [simp]:
  "lv_nodes (with_nodes l N v) = (lv_nodes v)(l := N)" "lv_chains (with_nodes l N v) = lv_chains v" "lv_levels (with_nodes l N v) = lv_levels v"
  "lv_known (with_nodes l N v) = lv_known v" "lv_oknown (with_nodes l N v) = lv_oknown v"
  "lv_nodes (with_chains l C v) = lv_nodes v" "lv_chains (with_chains l C v) = (lv_chains v)(l := C)" "lv_levels (with_chains l C v) = lv_levels v"
  "lv_known (with_chains l C v) = lv_known v" "lv_oknown (with_chains l C v) = lv_oknown v"
  "lv_nodes (with_oknown l p v) = lv_nodes v" "lv_chains (with_oknown l p v) = lv_chains v" "lv_levels (with_oknown l p v) = lv_levels v"
  "lv_known (with_oknown l p v) = lv_known v" "lv_oknown (with_oknown l p v) = (lv_oknown v)(l := insert p (lv_oknown v l))"
  "lv_nodes (with_known l p v) = lv_nodes v" "lv_chains (with_known l p v) = lv_chains v" "lv_levels (with_known l p v) = lv_levels v"
  "lv_oknown (with_known l p v) = lv_oknown v" "lv_known (with_known l p v) = (lv_known v)(l := insert p (lv_known v l))"
  by (simp_all add: with_nodes_def with_chains_def with_oknown_def with_known_def)

lemma knows_more_refl [simp]: "knows_more v v"
  by (simp add: knows_more_def)

lemma knows_more_trans: "knows_more u v \<Longrightarrow> knows_more v w \<Longrightarrow> knows_more u w"
  unfolding knows_more_def by (metis order_trans)

lemma knows_more_with:
  "knows_more v v' \<Longrightarrow> knows_more (with_nodes l N v) (with_nodes l N v')" "knows_more v v' \<Longrightarrow> knows_more (with_chains l C v) (with_chains l C v')"
  by (auto simp: knows_more_def)

locale graph_levels =
  fixes S :: "'s graph_store" and rep :: "'s \<Rightarrow> level_view \<Rightarrow> bool" and W Cap :: "nat \<Rightarrow> nat"
  assumes sizes: "rep s v \<Longrightarrow> gs_max_neighbours S s l = W l" "rep s v \<Longrightarrow> gs_overflow_capacity S s l = Cap l"
    and bounds: "0 < W l" "W l < 2 ^ 16" "0 < Cap l" "Cap l < 2 ^ 16"
    and ids: "rep s v \<Longrightarrow> l \<in> lv_levels v \<Longrightarrow> n \<in> lv_known v l \<union> lv_oknown v l \<Longrightarrow> good_id n"
    and present: "rep s v \<Longrightarrow> l \<in> lv_levels v \<Longrightarrow> dom (lv_nodes v l) \<subseteq> lv_known v l \<and> dom (lv_chains v l) \<subseteq> lv_oknown v l"
    and enter: "rep s v \<Longrightarrow> rep (gs_enter S s) v" and leave: "rep s v \<Longrightarrow> rep (gs_leave S s0 s) v"
    and unlock: "rep s v \<Longrightarrow> rep (gs_unlock_operation S l mode s) v"
    and fetch: "rep s v \<Longrightarrow> l \<in> lv_levels v \<Longrightarrow> n \<in> lv_known v l \<Longrightarrow> gs_fetch S l n u e0 fm filt s = (s', r) \<Longrightarrow>
      rep s' v \<and> r = map_option (\<lambda>(d, t, e). entry_view l u e0 fm filt e) (lv_nodes v l n)"
    and fetch_overflow: "rep s v \<Longrightarrow> l \<in> lv_levels v \<Longrightarrow> p \<in> lv_oknown v l \<Longrightarrow> gs_fetch_overflow S l p u oe0 fm s = (s', r') \<Longrightarrow>
      rep s' v \<and> r' = map_option (\<lambda>(t, e). overflow_view u oe0 fm e) (lv_chains v l p)"
    and update: "rep s v \<Longrightarrow> l \<in> lv_levels v \<Longrightarrow> n \<in> lv_known v l \<Longrightarrow> writes_something e fm slots \<Longrightarrow> sorted_wrt (<) slots \<Longrightarrow>
      \<forall>i\<in>set slots. i < W l \<Longrightarrow> has_field fm Field_LowerLevel \<longrightarrow> 0 < l \<Longrightarrow> gs_update S l n e fm slots s = (s', ru) \<Longrightarrow>
      (case lv_nodes v l n of None \<Rightarrow> ru = None \<and> rep s' v
         | Some (d, t, old) \<Rightarrow> ru = Some () \<and> rep s' (with_nodes l ((lv_nodes v l)(n \<mapsto> (d, t, patch_entry e fm slots old))) v))"
    and update_overflow: "rep s v \<Longrightarrow> l \<in> lv_levels v \<Longrightarrow> p \<in> lv_oknown v l \<Longrightarrow> writes_overflow oe fm slots \<Longrightarrow> sorted_wrt (<) slots \<Longrightarrow>
      \<forall>i\<in>set slots. i < Cap l \<Longrightarrow> gs_update_overflow S l p oe fm slots s = (s', ru) \<Longrightarrow>
      (case lv_chains v l p of None \<Rightarrow> ru = None \<and> rep s' v
         | Some (t, old) \<Rightarrow> ru = Some () \<and> rep s' (with_chains l ((lv_chains v l)(p \<mapsto> (t, patch_overflow oe fm slots old))) v))"
    and insert: "rep s v \<Longrightarrow> l \<in> lv_levels v \<Longrightarrow> gs_insert S l trx e s = (s', ri) \<Longrightarrow> \<exists>w. rep s' w \<and>
      (case ri of None \<Rightarrow> knows_more v w
         | Some n \<Rightarrow> n \<in> lv_known w l \<and> lv_nodes v l n = None
             \<and> knows_more (with_nodes l ((lv_nodes v l)(n \<mapsto> (False, trx, fresh_entry l (W l) e))) v) w)"
    and insert_overflow: "rep s v \<Longrightarrow> l \<in> lv_levels v \<Longrightarrow> gs_insert_overflow S l trx oe s = (s', ri) \<Longrightarrow> \<exists>w. rep s' w \<and>
      (case ri of None \<Rightarrow> knows_more v w
         | Some p \<Rightarrow> p \<in> lv_oknown w l \<and> lv_chains v l p = None
             \<and> knows_more (with_chains l ((lv_chains v l)(p \<mapsto> (trx, fresh_overflow (Cap l) oe))) v) w)"
    and remove: "rep s v \<Longrightarrow> l \<in> lv_levels v \<Longrightarrow> n \<in> lv_known v l \<Longrightarrow> gs_remove S l Kind_Neighbour n trx s = (s', ru) \<Longrightarrow>
      ru = Some () \<and> rep s' (with_nodes l (drop_node_of trx n (lv_nodes v l)) v)"
    and remove_overflow: "rep s v \<Longrightarrow> l \<in> lv_levels v \<Longrightarrow> p \<in> lv_oknown v l \<Longrightarrow> gs_remove S l Kind_Overflow p trx s = (s', ru) \<Longrightarrow>
      ru = Some () \<and> rep s' (with_chains l (drop_overflow_of trx p (lv_chains v l)) v)"
    and mark_delete: "rep s v \<Longrightarrow> l \<in> lv_levels v \<Longrightarrow> n \<in> lv_known v l \<Longrightarrow> gs_mark_delete S l n trx mk s = (s', ru) \<Longrightarrow>
      ru = Some () \<and> rep s' (with_nodes l ((lv_nodes v l)(n := map_option (\<lambda>(d, t, e). (mk, trx, e)) (lv_nodes v l n))) v)"
begin

text \<open>A state that shows at least the view \<open>v\<close>, and an action on such states.\<close>

definition displays :: "level_view \<Rightarrow> 's \<Rightarrow> bool" where
  "displays v s \<longleftrightarrow> (\<exists>w. rep s w \<and> knows_more v w)"

lemma displaysI: "rep s w \<Longrightarrow> knows_more v w \<Longrightarrow> displays v s"
  by (auto simp: displays_def)

lemma displaysE:
  assumes "displays v s"
  obtains w where "rep s w" "knows_more v w" "lv_nodes w = lv_nodes v" "lv_chains w = lv_chains v" "lv_levels w = lv_levels v"
    "\<And>n l. n \<in> lv_known v l \<Longrightarrow> n \<in> lv_known w l" "\<And>n l. n \<in> lv_oknown v l \<Longrightarrow> n \<in> lv_oknown w l"
  using assms that by (auto simp: displays_def knows_more_def subset_iff)

definition spec :: "level_view \<Rightarrow> ('s, 'a) gact \<Rightarrow> ('a \<Rightarrow> level_view \<Rightarrow> bool) \<Rightarrow> (level_view \<Rightarrow> bool) \<Rightarrow> bool" where
  "spec v m Q E \<longleftrightarrow> gtriple (displays v) m (\<lambda>x s. \<exists>v'. displays v' s \<and> Q x v') (\<lambda>s. \<exists>v'. displays v' s \<and> E v')"

lemma spec_bind:
  assumes "spec v m B E" "\<And>x v'. B x v' \<Longrightarrow> spec v' (f x) Q E"
  shows "spec v (gbind m f) Q E"
  unfolding spec_def
proof (rule gtriple_bind [OF assms(1) [unfolded spec_def]])
  fix x
  show "gtriple (\<lambda>s. \<exists>v'. displays v' s \<and> B x v') (f x) (\<lambda>x s. \<exists>v'. displays v' s \<and> Q x v') (\<lambda>s. \<exists>v'. displays v' s \<and> E v')"
    using assms(2) unfolding spec_def gtriple_def by blast
qed

lemma spec_conseq:
  assumes "spec v m Q E" "\<And>x v. Q x v \<Longrightarrow> R x v" "\<And>v. E v \<Longrightarrow> F v"
  shows "spec v m R F"
  unfolding spec_def by (rule gtriple_conseq [OF assms(1) [unfolded spec_def]]) (use assms(2,3) in blast)+

lemma spec_ret: "Q x v \<Longrightarrow> spec v (gret x) Q E"
  unfolding spec_def by (rule gtriple_ret) blast

lemma spec_attempt: "spec v m (\<lambda>x. Q (Some x)) (Q None) \<Longrightarrow> spec v (attempt m) Q E"
  unfolding spec_def by (rule gtriple_attempt)

lemma spec_mtr:
  assumes "spec v m Q E"
  shows "spec v (own_mtr S m) Q E"
  unfolding spec_def gtriple_def
proof (intro allI impI)
  fix s assume "displays v s"
  then have "displays v (gs_enter S s)" using enter by (auto simp: displays_def)
  with assms obtain s' r where m: "m (gs_enter S s) = Some (s', r)"
      "case r of Some x \<Rightarrow> \<exists>v'. displays v' s' \<and> Q x v' | None \<Rightarrow> \<exists>v'. displays v' s' \<and> E v'"
    unfolding spec_def gtriple_def by blast
  have "displays v' (gs_leave S s s')" if "displays v' s'" for v' using that leave by (auto simp: displays_def)
  with m show "\<exists>s' r. own_mtr S m s = Some (s', r)
      \<and> (case r of Some x \<Rightarrow> \<exists>v'. displays v' s' \<and> Q x v' | None \<Rightarrow> \<exists>v'. displays v' s' \<and> E v')"
    by (auto simp: own_mtr_def split: option.splits)
qed

lemma spec_sizes:
  "Q (W l) v \<Longrightarrow> spec v (reads (\<lambda>s. gs_max_neighbours S s l)) Q E" "Q (Cap l) v \<Longrightarrow> spec v (reads (\<lambda>s. gs_overflow_capacity S s l)) Q E"
  unfolding spec_def by (rule gtriple_reads, use sizes in \<open>auto simp: displays_def\<close>)+

lemma spec_fetch:
  assumes "l \<in> lv_levels v" "n \<in> lv_known v l" "\<And>d t e. lv_nodes v l n = Some (d, t, e) \<Longrightarrow> Q (entry_view l u e0 fm filt e) v" "lv_nodes v l n = None \<Longrightarrow> E v"
  shows "spec v (call (gs_fetch S l n u e0 fm filt)) Q E"
proof -
  have *: "displays v s' \<and> r = map_option (\<lambda>(d, t, e). entry_view l u e0 fm filt e) (lv_nodes v l n)"
    if "displays v s" "gs_fetch S l n u e0 fm filt s = (s', r)" for s s' r
    by (rule displaysE [OF that(1)]) (use fetch [OF _ _ _ that(2)] assms(1,2) displaysI in metis)
  show ?thesis unfolding spec_def
  proof (rule gtriple_call)
    fix s s' x assume "displays v s" "gs_fetch S l n u e0 fm filt s = (s', Some x)"
    from * [OF this] obtain d t e where "displays v s'" "lv_nodes v l n = Some (d, t, e)" "x = entry_view l u e0 fm filt e"
      by (cases "lv_nodes v l n") auto
    with assms(3) show "\<exists>v'. displays v' s' \<and> Q x v'" by blast
  next
    fix s s' assume "displays v s" "gs_fetch S l n u e0 fm filt s = (s', None)"
    from * [OF this] assms(4) show "\<exists>v'. displays v' s' \<and> E v'" by (cases "lv_nodes v l n") auto
  qed
qed

lemma spec_fetch_overflow:
  assumes "l \<in> lv_levels v" "p \<in> lv_oknown v l" "\<And>t e. lv_chains v l p = Some (t, e) \<Longrightarrow> Q (overflow_view u e0 fm e) v" "lv_chains v l p = None \<Longrightarrow> E v"
  shows "spec v (call (gs_fetch_overflow S l p u e0 fm)) Q E"
proof -
  have *: "displays v s' \<and> r = map_option (\<lambda>(t, e). overflow_view u e0 fm e) (lv_chains v l p)"
    if "displays v s" "gs_fetch_overflow S l p u e0 fm s = (s', r)" for s s' r
    by (rule displaysE [OF that(1)]) (use fetch_overflow [OF _ _ _ that(2)] assms(1,2) displaysI in metis)
  show ?thesis unfolding spec_def
  proof (rule gtriple_call)
    fix s s' x assume "displays v s" "gs_fetch_overflow S l p u e0 fm s = (s', Some x)"
    from * [OF this] obtain t e where "displays v s'" "lv_chains v l p = Some (t, e)" "x = overflow_view u e0 fm e"
      by (cases "lv_chains v l p") auto
    with assms(3) show "\<exists>v'. displays v' s' \<and> Q x v'" by blast
  next
    fix s s' assume "displays v s" "gs_fetch_overflow S l p u e0 fm s = (s', None)"
    from * [OF this] assms(4) show "\<exists>v'. displays v' s' \<and> E v'" by (cases "lv_chains v l p") auto
  qed
qed

lemma spec_update:
  assumes "l \<in> lv_levels v" "n \<in> lv_known v l" "lv_nodes v l n = Some (d, t, old)"
    and "writes_something e fm slots" "sorted_wrt (<) slots" "\<forall>i\<in>set slots. i < W l" "has_field fm Field_LowerLevel \<longrightarrow> 0 < l"
    and "Q () (with_nodes l ((lv_nodes v l)(n \<mapsto> (d, t, patch_entry e fm slots old))) v)"
  shows "spec v (call (gs_update S l n e fm slots)) Q E"
proof -
  have *: "displays (with_nodes l ((lv_nodes v l)(n \<mapsto> (d, t, patch_entry e fm slots old))) v) s' \<and> r = Some ()"
    if "displays v s" "gs_update S l n e fm slots s = (s', r)" for s s' r
    by (rule displaysE [OF that(1)]) (use update [OF _ _ _ assms(4-7) that(2)] assms(1-3) in \<open>force intro: displaysI knows_more_with\<close>)
  show ?thesis unfolding spec_def by (rule gtriple_call) (use * assms(8) in fastforce)+
qed

lemma spec_update_overflow:
  assumes "l \<in> lv_levels v" "p \<in> lv_oknown v l" "lv_chains v l p = Some (t, old)"
    and "writes_overflow e fm slots" "sorted_wrt (<) slots" "\<forall>i\<in>set slots. i < Cap l"
    and "Q () (with_chains l ((lv_chains v l)(p \<mapsto> (t, patch_overflow e fm slots old))) v)"
  shows "spec v (call (gs_update_overflow S l p e fm slots)) Q E"
proof -
  have *: "displays (with_chains l ((lv_chains v l)(p \<mapsto> (t, patch_overflow e fm slots old))) v) s' \<and> r = Some ()"
    if "displays v s" "gs_update_overflow S l p e fm slots s = (s', r)" for s s' r
    by (rule displaysE [OF that(1)]) (use update_overflow [OF _ _ _ assms(4-6) that(2)] assms(1-3) in \<open>force intro: displaysI knows_more_with\<close>)
  show ?thesis unfolding spec_def by (rule gtriple_call) (use * assms(7) in fastforce)+
qed

lemma spec_insert_overflow:
  assumes l: "l \<in> lv_levels v" and E: "E v"
    and Q: "\<And>p. lv_chains v l p = None \<Longrightarrow> good_id p \<Longrightarrow>
      Q p (with_oknown l p (with_chains l ((lv_chains v l)(p \<mapsto> (trx, fresh_overflow (Cap l) oe))) v))"
  shows "spec v (call (gs_insert_overflow S l trx oe)) Q E"
  unfolding spec_def
proof (rule gtriple_call)
  fix s s' p assume v: "displays v s" and run: "gs_insert_overflow S l trx oe s = (s', Some p)"
  let ?v = "with_oknown l p (with_chains l ((lv_chains v l)(p \<mapsto> (trx, fresh_overflow (Cap l) oe))) v)"
  from v obtain w where w: "rep s w" "knows_more v w" "lv_chains w = lv_chains v" "lv_levels w = lv_levels v" by (rule displaysE)
  from insert_overflow [OF w(1) _ run] l w obtain w' where r: "rep s' w'" "p \<in> lv_oknown w' l" "lv_chains v l p = None"
    "knows_more (with_chains l ((lv_chains v l)(p \<mapsto> (trx, fresh_overflow (Cap l) oe))) w) w'" by auto
  then have "good_id p" using ids [OF r(1), of l p] l w(4) by (simp add: knows_more_def)
  moreover have "knows_more ?v w'" using r w(2) unfolding knows_more_def by (auto simp: subset_iff)
  ultimately show "\<exists>v'. displays v' s' \<and> Q p v'" using Q r(3) displaysI [OF r(1)] by blast
next
  fix s s' assume v: "displays v s" and run: "gs_insert_overflow S l trx oe s = (s', None)"
  from v obtain w where w: "rep s w" "knows_more v w" "lv_chains w = lv_chains v" "lv_levels w = lv_levels v" by (rule displaysE)
  from insert_overflow [OF w(1) _ run] l w obtain w' where "rep s' w'" "knows_more w w'" by auto
  then have "displays v s'" using w(2) knows_more_trans by (auto simp: displays_def)
  with E show "\<exists>v'. displays v' s' \<and> E v'" by blast
qed

text \<open>The same rules for a call followed by the rest of an operation.\<close>

lemma wp_sizes:
  "spec v (f (W l)) Q E \<Longrightarrow> spec v (gbind (reads (\<lambda>s. gs_max_neighbours S s l)) f) Q E"
  "spec v (g (Cap l)) Q E \<Longrightarrow> spec v (gbind (reads (\<lambda>s. gs_overflow_capacity S s l)) g) Q E"
  by (rule spec_bind [OF spec_sizes(1) [where Q = "\<lambda>x v'. x = W l \<and> v' = v"]], simp, simp)
     (rule spec_bind [OF spec_sizes(2) [where Q = "\<lambda>x v'. x = Cap l \<and> v' = v"]], simp, simp)

lemma wp_fetch:
  assumes "l \<in> lv_levels v" "n \<in> lv_known v l"
    and "\<And>d t e. lv_nodes v l n = Some (d, t, e) \<Longrightarrow> spec v (f (entry_view l u e0 fm filt e)) Q E" "lv_nodes v l n = None \<Longrightarrow> E v"
  shows "spec v (gbind (call (gs_fetch S l n u e0 fm filt)) f) Q E" "spec v (gbind (own_mtr S (call (gs_fetch S l n u e0 fm filt))) f) Q E"
proof -
  have *: "spec v (call (gs_fetch S l n u e0 fm filt)) (\<lambda>x v'. v' = v \<and> (\<exists>d t e. lv_nodes v l n = Some (d, t, e) \<and> x = entry_view l u e0 fm filt e)) E"
    by (rule spec_fetch [OF assms(1,2)]) (use assms(4) in auto)
  show "spec v (gbind (call (gs_fetch S l n u e0 fm filt)) f) Q E" by (rule spec_bind [OF *]) (use assms(3) in auto)
  show "spec v (gbind (own_mtr S (call (gs_fetch S l n u e0 fm filt))) f) Q E" by (rule spec_bind [OF spec_mtr [OF *]]) (use assms(3) in auto)
qed

lemma wp_attempt_fetch:
  assumes "l \<in> lv_levels v" "n \<in> lv_known v l"
    and "\<And>d t e. lv_nodes v l n = Some (d, t, e) \<Longrightarrow> spec v (f (Some (entry_view l u e0 fm filt e))) Q E" "lv_nodes v l n = None \<Longrightarrow> spec v (f None) Q E"
  shows "spec v (gbind (attempt (call (gs_fetch S l n u e0 fm filt))) f) Q E"
proof -
  have "spec v (attempt (call (gs_fetch S l n u e0 fm filt)))
      (\<lambda>r v'. v' = v \<and> r = map_option (\<lambda>(d, t, e). entry_view l u e0 fm filt e) (lv_nodes v l n)) E"
    by (rule spec_attempt, rule spec_fetch [OF assms(1,2)]) auto
  then show ?thesis by (rule spec_bind) (use assms(3,4) in \<open>cases "lv_nodes v l n"; force\<close>)
qed

lemma wp_fetch_overflow:
  assumes "l \<in> lv_levels v" "p \<in> lv_oknown v l"
    and "\<And>t e. lv_chains v l p = Some (t, e) \<Longrightarrow> spec v (f (overflow_view u e0 fm e)) Q E" "lv_chains v l p = None \<Longrightarrow> E v"
  shows "spec v (gbind (call (gs_fetch_overflow S l p u e0 fm)) f) Q E" "spec v (gbind (own_mtr S (call (gs_fetch_overflow S l p u e0 fm))) f) Q E"
proof -
  have *: "spec v (call (gs_fetch_overflow S l p u e0 fm)) (\<lambda>x v'. v' = v \<and> (\<exists>t e. lv_chains v l p = Some (t, e) \<and> x = overflow_view u e0 fm e)) E"
    by (rule spec_fetch_overflow [OF assms(1,2)]) (use assms(4) in auto)
  show "spec v (gbind (call (gs_fetch_overflow S l p u e0 fm)) f) Q E" by (rule spec_bind [OF *]) (use assms(3) in auto)
  show "spec v (gbind (own_mtr S (call (gs_fetch_overflow S l p u e0 fm))) f) Q E" by (rule spec_bind [OF spec_mtr [OF *]]) (use assms(3) in auto)
qed

subsection \<open>Adding to an overflow chain\<close>

lemma spec_add_to_overflow:
  assumes l: "l \<in> lv_levels v" "p \<in> lv_oknown v l" "lv_chains v l p = Some (t, oe)" "length (oe_incoming oe) = Cap l" "good_id a"
    and full: "\<forall>n\<in>set (oe_incoming oe). is_valid n \<Longrightarrow> Q (Some (oe_overflow oe)) v"
    and room: "\<And>i. i < Cap l \<Longrightarrow> \<not> is_valid (oe_incoming oe ! i) \<Longrightarrow>
      Q None (with_chains l ((lv_chains v l)(p \<mapsto> (t, oe\<lparr>oe_incoming := (oe_incoming oe)[i := set_incoming a]\<rparr>))) v)"
  shows "spec v (add_to_overflow S l p (set_incoming a)) Q E"
proof -
  have view: "overflow_view True (incoming_span (Cap l)) OverflowFieldAll oe = (oe, Some (length (filter is_valid (oe_incoming oe))))"
    using l(4) by (simp add: overflow_view_def OverflowFieldAll_def incoming_span_def)
  let ?f = "find_index (\<lambda>n. \<not> is_valid n) (oe_incoming oe)"
  have "spec v (case ?f of Some slot \<Rightarrow>
           gbind (call (gs_update_overflow S l p (empty_overflow_entry\<lparr>oe_incoming := [set_incoming a]\<rparr>) OverflowField_Incoming [u16 slot])) (\<lambda>_. gret None)
       | None \<Rightarrow> gret (Some (oe_overflow oe))) Q E"
  proof (cases ?f)
    case None
    then have "\<forall>n\<in>set (oe_incoming oe). is_valid n" by (simp add: find_index_None)
    with full None show ?thesis by (simp add: spec_ret)
  next
    case (Some i)
    then have i: "i < Cap l" "\<not> is_valid (oe_incoming oe ! i)" using find_index_Some [OF Some] l(4) by auto
    moreover have "u16 i = i" using i(1) bounds(4) [of l] by (intro slot_u16) simp
    ultimately show ?thesis
      using Some room [OF i] good_id [OF l(5)]
      by (auto intro!: spec_bind [OF spec_update_overflow [OF l(1-3), where Q = "\<lambda>_ v'. Q None v'"]] spec_ret simp: writes_overflow_def)
  qed
  with view l show ?thesis
    unfolding add_to_overflow_def by (intro spec_mtr wp_sizes wp_fetch_overflow) auto
qed

text \<open>The state of a level, with its chains \<open>K\<close>, and what linking never takes away.\<close>

definition lev :: "nat \<Rightarrow> level_view \<Rightarrow> (nid \<Rightarrow> nid list) \<Rightarrow> bool" where
  "lev l v K \<longleftrightarrow> l \<in> lv_levels v \<and> level_ok (W l) (Cap l) (lv_known v l) (lv_nodes v l) (lv_chains v l) K
     \<and> dom (lv_nodes v l) \<subseteq> lv_known v l \<and> dom (lv_chains v l) \<subseteq> lv_oknown v l \<and> (\<forall>n \<in> lv_known v l \<union> lv_oknown v l. good_id n)"

definition more_links :: "nat \<Rightarrow> level_view \<Rightarrow> (nid \<Rightarrow> nid list) \<Rightarrow> level_view \<Rightarrow> (nid \<Rightarrow> nid list) \<Rightarrow> bool" where
  "more_links l v K v' K' \<longleftrightarrow> lv_levels v' = lv_levels v \<and> lv_known v' = lv_known v \<and> dom (lv_nodes v' l) = dom (lv_nodes v l)
     \<and> (\<forall>x\<in>dom (lv_nodes v l). names (lv_nodes v l) (lv_chains v l) K x \<subseteq> names (lv_nodes v' l) (lv_chains v' l) K' x)
     \<and> (\<forall>l'. l' \<noteq> l \<longrightarrow> lv_nodes v' l' = lv_nodes v l' \<and> lv_chains v' l' = lv_chains v l')"

lemma more_links_refl [simp]: "more_links l v K v K"
  by (simp add: more_links_def)

lemma more_links_trans: "more_links l v K v' K' \<Longrightarrow> more_links l v' K' w L \<Longrightarrow> more_links l v K w L"
  unfolding more_links_def by (simp add: subset_iff)

lemma levD:
  assumes "lev l v K"
  shows "l \<in> lv_levels v" "level_ok (W l) (Cap l) (lv_known v l) (lv_nodes v l) (lv_chains v l) K"
    "n \<in> dom (lv_nodes v l) \<Longrightarrow> n \<in> lv_known v l" "p \<in> dom (lv_chains v l) \<Longrightarrow> p \<in> lv_oknown v l"
    "n \<in> lv_known v l \<Longrightarrow> good_id n" "p \<in> lv_oknown v l \<Longrightarrow> good_id p"
  using assms by (auto simp: lev_def)

text \<open>Appending a record to the chain of \<open>b\<close>: at its end, or as the first record.\<close>

definition chain_end :: "(nid \<Rightarrow> nid list) \<Rightarrow> nid \<Rightarrow> nid \<Rightarrow> store_kind \<Rightarrow> bool" where
  "chain_end K b parent kind \<longleftrightarrow> (if K b = [] then parent = b \<and> kind = Kind_Neighbour else parent = last (K b) \<and> kind = Kind_Overflow)"

definition walked :: "nat \<Rightarrow> level_view \<Rightarrow> (nid \<Rightarrow> nid list) \<Rightarrow> nid \<Rightarrow> level_view \<Rightarrow> (nid \<Rightarrow> nid list) \<Rightarrow> bool" where
  "walked l v K b v' K' \<longleftrightarrow> lev l v' K' \<and> more_links l v K v' K'
     \<and> (\<exists>d t e q. lv_nodes v l b = Some (d, t, e) \<and> lv_nodes v' l = (lv_nodes v l)(b \<mapsto> (d, t, e\<lparr>ne_overflow := q\<rparr>)))"

lemma fresh_overflow_one:
  assumes "good_id a"
  shows "length (oe_incoming (fresh_overflow (Cap l) (empty_overflow_entry\<lparr>oe_incoming := [set_incoming a]\<rparr>))) = Cap l"
    and "named (oe_incoming (fresh_overflow (Cap l) (empty_overflow_entry\<lparr>oe_incoming := [set_incoming a]\<rparr>))) = {a}"
    and "\<not> is_valid (oe_overflow (fresh_overflow (Cap l) (empty_overflow_entry\<lparr>oe_incoming := [set_incoming a]\<rparr>)))"
proof -
  let ?o = "fresh_overflow (Cap l) (empty_overflow_entry\<lparr>oe_incoming := [set_incoming a]\<rparr>)"
  have "[0..<Cap l] = 0 # [1..<Cap l]" using bounds(3) [of l] by (simp add: upt_conv_Cons)
  then have "oe_incoming ?o = set_incoming a # map (\<lambda>_. INVALID_ID) [1..<Cap l]"
    using good_id [OF assms] by (simp add: fresh_overflow_def empty_overflow_entry_def del: upt_Suc)
  moreover have "named (map (\<lambda>_. INVALID_ID) xs) = {}" for xs :: "nat list" by (auto simp: named_def)
  ultimately show "named (oe_incoming ?o) = {a}" using good_id [OF assms] by simp
  show "length (oe_incoming ?o) = Cap l" "\<not> is_valid (oe_overflow ?o)" by (simp_all add: fresh_overflow_def empty_overflow_entry_def)
qed

lemma spec_append_overflow:
  assumes L: "lev l v K" and b: "lv_nodes v l b = Some (d, t, e)" and pe: "chain_end K b parent kind" and a: "a \<in> lv_known v l"
  shows "spec v (append_overflow S trx l parent kind (set_incoming a))
    (\<lambda>_ v'. \<exists>K'. walked l v K b v' K' \<and> a \<in> chained (lv_chains v' l) (K' b)) (\<lambda>v'. \<exists>K'. walked l v K b v' K')"
proof -
  let ?N = "lv_nodes v l" and ?C = "lv_chains v l"
  note D = levD [OF L] and ga = levD(5) [OF L a]
  let ?oe = "fresh_overflow (Cap l) (empty_overflow_entry\<lparr>oe_incoming := [set_incoming a]\<rparr>)"
  note new = fresh_overflow_one [OF ga, of l]
  have bd: "b \<in> dom ?N" using b by auto
  have same: "walked l v K b v K" using L b by (auto simp: walked_def fun_eq_iff intro!: exI [of _ "ne_overflow e"])
  have cont: "spec w (if kind = Kind_Neighbour
       then call (gs_update S l parent (empty_neighbour_entry\<lparr>ne_overflow := q\<rparr>) Field_Overflow [])
       else own_mtr S (call (gs_update_overflow S l parent (empty_overflow_entry\<lparr>oe_overflow := q\<rparr>) OverflowField_Overflow [])))
     (\<lambda>_ v'. \<exists>K'. walked l v K b v' K' \<and> a \<in> chained (lv_chains v' l) (K' b)) (\<lambda>v'. \<exists>K'. walked l v K b v' K')"
    if q: "?C q = None" "good_id q" and w: "w = with_oknown l q (with_chains l (?C(q \<mapsto> (trx, ?oe))) v)" for q w
  proof -
    let ?C1 = "?C(q \<mapsto> (trx, ?oe))"
    have ok1: "level_ok (W l) (Cap l) (lv_known v l) ?N ?C1 K" by (rule level_ok_new [OF D(2) q(1)]) (use new a in auto)
    have nq: "q \<notin> set (K x)" if "x \<in> dom ?N" for x using ochain_dom [OF level_okD(6) [OF D(2) that]] q(1) by auto
    have q1: "q \<in> dom ?C1" "is_valid q" "\<not> is_valid (next_of ?C1 q)" using good_id [OF q(2)] new(3) by simp_all
    have mono: "names ?N ?C K x \<subseteq> names ?N ?C1 K x" if "x \<in> dom ?N" for x
      using nq [OF that] by (auto simp: names_def chained_def intro!: bexI)
    show ?thesis
    proof (cases "K b = []")
      case True
      then have par: "parent = b" "kind = Kind_Neighbour" using pe by (auto simp: chain_end_def)
      have inv: "\<not> is_valid (ne_overflow e)" using level_okD(6) [OF D(2) bd] True map_at(2) [of ?N b d t e, OF b] by simp
      let ?v = "with_nodes l (?N(b \<mapsto> (d, t, e\<lparr>ne_overflow := q\<rparr>))) w" and ?K = "K(b := [q])"
      have "level_ok (W l) (Cap l) (lv_known v l) (?N(b \<mapsto> (d, t, e\<lparr>ne_overflow := q\<rparr>))) ?C1 ?K"
        by (rule level_ok_append_head(1) [OF ok1 b inv q1 nq]) simp_all
      then have "lev l ?v ?K" using L q D(3) [OF bd] by (auto simp: lev_def w)
      moreover have "more_links l v K ?v ?K"
      proof -
        have "names ?N ?C K x \<subseteq> names (?N(b \<mapsto> (d, t, e\<lparr>ne_overflow := q\<rparr>))) ?C1 ?K x" if "x \<in> dom ?N" for x
          using mono [OF that] True map_at(1) [of ?N b d t e, OF b] by (auto simp: names_def chained_def)
        then show ?thesis using b by (auto simp: more_links_def w)
      qed
      ultimately have "walked l v K b ?v ?K" using b by (auto simp: walked_def w)
      moreover have "a \<in> chained (lv_chains ?v l) (?K b)" using new(2) by (simp add: chained_def w)
      ultimately have fin: "\<exists>K'. walked l v K b ?v K' \<and> a \<in> chained (lv_chains ?v l) (K' b)" by blast
      show ?thesis unfolding par
        using fin good_id(4) [OF q(2)] b D(1) D(3) [OF bd]
        by (auto intro!: spec_update [where d = d and t = t and old = e] simp: w writes_something_def)
    next
      case False
      then have par: "parent = last (K b)" "kind = Kind_Overflow" using pe by (auto simp: chain_end_def)
      have lst: "last (K b) \<in> dom ?C" using ochain_dom [OF level_okD(6) [OF D(2) bd]] False last_in_set by blast
      then obtain t' oe where oe: "?C (last (K b)) = Some (t', oe)" by auto
      then have lq: "last (K b) \<noteq> q" using q(1) by auto
      let ?C2 = "?C1(last (K b) \<mapsto> (t', oe\<lparr>oe_overflow := q\<rparr>))"
      let ?v = "with_chains l ?C2 w" and ?K = "K(b := K b @ [q])"
      have oe1: "?C1 (last (K b)) = Some (t', oe)" using oe lq by simp
      have "level_ok (W l) (Cap l) (lv_known v l) ?N ?C2 ?K"
        by (rule level_ok_append_tail [OF ok1 bd False oe1 q1 nq]) simp_all
      then have "lev l ?v ?K" using L q oe by (auto simp: lev_def w)
      moreover have inc: "incoming_of ?C2 = incoming_of ?C1"
      proof (rule ext)
        fix p show "incoming_of ?C2 p = incoming_of ?C1 p" using map_at(3) [of ?C "last (K b)" t' oe, OF oe] lq by simp
      qed
      moreover have "more_links l v K ?v ?K"
      proof -
        have "names ?N ?C K x \<subseteq> names ?N ?C2 ?K x" if "x \<in> dom ?N" for x
          using mono [OF that] unfolding names_def chained_def inc by (auto simp del: map_simps)
        then show ?thesis using b by (auto simp: more_links_def w)
      qed
      ultimately have "walked l v K b ?v ?K"
        using b by (auto simp: walked_def w fun_eq_iff intro!: exI [of _ "ne_overflow e"])
      moreover have "a \<in> chained (lv_chains ?v l) (?K b)" using new(2) inc by (simp add: chained_def w del: map_simps) simp
      ultimately have fin: "\<exists>K'. walked l v K b ?v K' \<and> a \<in> chained (lv_chains ?v l) (K' b)" by blast
      show ?thesis unfolding par
        using fin good_id(4) [OF q(2)] oe1 D(1) D(4) [OF lst]
        by (auto intro!: spec_mtr spec_update_overflow [where t = t' and old = oe] simp: w writes_overflow_def)
    qed
  qed
  show ?thesis unfolding append_overflow_def
    by (rule spec_bind [OF spec_mtr [OF spec_insert_overflow [OF D(1),
          where Q = "\<lambda>q v'. ?C q = None \<and> good_id q \<and> v' = with_oknown l q (with_chains l (?C(q \<mapsto> (trx, ?oe))) v)"]]])
       (use same cont in auto)
qed

text \<open>The walk ends because the chain does, and the id is in the chain of \<open>b\<close> afterwards.\<close>

lemma spec_overflow_walk:
  assumes L: "lev l v K" and b: "lv_nodes v l b = Some (d, t, e)" and a: "a \<in> lv_known v l"
    and ch: "ochain (lv_chains v l) cur rs" "K b = ds @ rs"
    and par: "if ds = [] then parent = b \<and> kind = Kind_Neighbour else parent = last ds \<and> kind = Kind_Overflow"
  shows "spec v (overflow_walk S trx l (set_incoming a) parent kind cur)
    (\<lambda>_ v'. \<exists>K'. walked l v K b v' K' \<and> a \<in> chained (lv_chains v' l) (K' b)) (\<lambda>v'. \<exists>K'. walked l v K b v' K')"
  using ch par
proof (induction rs arbitrary: ds parent kind cur)
  case Nil
  then have "chain_end K b parent kind" "\<not> is_valid cur" by (auto simp: chain_end_def)
  moreover from this(2) have "overflow_walk S trx l (set_incoming a) parent kind cur = append_overflow S trx l parent kind (set_incoming a)"
    by (intro ext) (simp add: overflow_walk.simps)
  ultimately show ?case using spec_append_overflow [OF L b _ a] by simp
next
  case (Cons p rs)
  let ?N = "lv_nodes v l" and ?C = "lv_chains v l"
  note D = levD [OF L]
  have p: "is_valid cur" "p = cur" "cur \<in> dom ?C" "ochain ?C (next_of ?C cur) rs" using Cons.prems(1) by auto
  then obtain t' oe where oe: "?C cur = Some (t', oe)" by auto
  have len: "length (oe_incoming oe) = Cap l" using level_okD(4) [OF D(2) p(3)] map_at(3) [of ?C cur t' oe, OF oe] by simp
  have eq: "overflow_walk S trx l (set_incoming a) parent kind cur =
      gbind (add_to_overflow S l cur (set_incoming a)) (\<lambda>next s'.
        case next of None \<Rightarrow> gret () s' | Some nxt \<Rightarrow> overflow_walk S trx l (set_incoming a) cur Kind_Overflow nxt s')"
    by (intro ext) (subst overflow_walk.simps, simp add: p)
  let ?Q = "\<lambda>_ :: unit. \<lambda>v'. \<exists>K'. walked l v K b v' K' \<and> a \<in> chained (lv_chains v' l) (K' b)"
  have room: "?Q () w" if i: "i < Cap l" "\<not> is_valid (oe_incoming oe ! i)"
    and w: "w = with_chains l (?C(cur \<mapsto> (t', oe\<lparr>oe_incoming := (oe_incoming oe)[i := set_incoming a]\<rparr>))) v" for i w
  proof -
    let ?C' = "?C(cur \<mapsto> (t', oe\<lparr>oe_incoming := (oe_incoming oe)[i := set_incoming a]\<rparr>))"
    have fill: "level_ok (W l) (Cap l) (lv_known v l) ?N ?C' K" "named (incoming_of ?C' cur) = insert a (named (incoming_of ?C cur))"
      by (rule level_ok_fill [OF D(2) oe a good_id(2) [OF D(5) [OF a]], where i = i]; use i len in simp)+
    have "names ?N ?C K x \<subseteq> names ?N ?C' K x" for x
      using fill(2) by (auto simp: names_def chained_def split: if_splits)
    then have "lev l w K \<and> more_links l v K w K" using L fill(1) oe by (auto simp: w lev_def more_links_def)
    then have "walked l v K b w K" using b by (auto simp: walked_def w fun_eq_iff intro!: exI [of _ "ne_overflow e"])
    moreover have "a \<in> chained ?C' (K b)" using fill(2) Cons.prems(2) p(2) by (auto simp: chained_def)
    ultimately show ?thesis by (auto simp: w)
  qed
  show ?case unfolding eq
  proof (rule spec_bind [where B = "\<lambda>r v'. (r = None \<longrightarrow> ?Q () v') \<and> (r \<noteq> None \<longrightarrow> r = Some (oe_overflow oe) \<and> v' = v)"])
    show "spec v (add_to_overflow S l cur (set_incoming a)) (\<lambda>r v'. (r = None \<longrightarrow> ?Q () v') \<and> (r \<noteq> None \<longrightarrow> r = Some (oe_overflow oe) \<and> v' = v))
        (\<lambda>v'. \<exists>K'. walked l v K b v' K')"
      by (rule spec_add_to_overflow [OF D(1) D(4) [OF p(3)] oe len D(5) [OF a]]) (use room in auto)
    fix r v' assume r: "(r = None \<longrightarrow> ?Q () v') \<and> (r \<noteq> None \<longrightarrow> r = Some (oe_overflow oe) \<and> v' = v)"
    show "spec v' (\<lambda>s'. case r of None \<Rightarrow> gret () s' | Some nxt \<Rightarrow> overflow_walk S trx l (set_incoming a) cur Kind_Overflow nxt s') ?Q
        (\<lambda>v'. \<exists>K'. walked l v K b v' K')"
    proof (cases r)
      case None
      with r show ?thesis by (auto intro!: spec_ret)
    next
      case (Some nxt)
      have "spec v (overflow_walk S trx l (set_incoming a) cur Kind_Overflow (oe_overflow oe)) ?Q (\<lambda>v'. \<exists>K'. walked l v K b v' K')"
        by (rule Cons.IH [of _ "ds @ [cur]"]) (use p Cons.prems(2) map_at(4) [of ?C cur t' oe, OF oe] in auto)
      with Some r show ?thesis by simp
    qed
  qed
qed

subsection \<open>Linking a node to its neighbours\<close>

lemma spec_add_overflow_incoming:
  assumes L: "lev l v K" and b: "lv_nodes v l b = Some (d, t, e)" and a: "a \<in> lv_known v l" and n: "nd_nid neighbour = b" "nd_nid node = a" "h = ne_overflow e"
  shows "spec v (add_overflow_incoming S trx l neighbour h node)
    (\<lambda>_ v'. \<exists>K'. walked l v K b v' K' \<and> a \<in> chained (lv_chains v' l) (K' b)) (\<lambda>v'. \<exists>K'. walked l v K b v' K')"
proof -
  have "ochain (lv_chains v l) (ne_overflow e) (K b)"
    using level_okD(6) [OF levD(2) [OF L], of b] b map_at(2) [of "lv_nodes v l" b d t e, OF b] by auto
  then show ?thesis unfolding add_overflow_incoming_def n by (intro spec_overflow_walk [OF L b a, where ds = "[]"]) simp_all
qed

lemma walkedD:
  assumes "walked l v K b v' K'"
  shows "lev l v' K'" "more_links l v K v' K'" "x \<noteq> b \<Longrightarrow> lv_nodes v' l x = lv_nodes v l x" "slots_of (lv_nodes v' l) = slots_of (lv_nodes v l)"
proof -
  from assms obtain d t e q where b: "lv_nodes v l b = Some (d, t, e)" and N: "lv_nodes v' l = (lv_nodes v l)(b \<mapsto> (d, t, e\<lparr>ne_overflow := q\<rparr>))"
    by (auto simp: walked_def)
  show "lev l v' K'" "more_links l v K v' K'" using assms by (auto simp: walked_def)
  show "x \<noteq> b \<Longrightarrow> lv_nodes v' l x = lv_nodes v l x" by (simp add: N)
  show "slots_of (lv_nodes v' l) = slots_of (lv_nodes v l)" using map_at(1) [of "lv_nodes v l" b d t e, OF b] by (auto simp: N fun_eq_iff)
qed

definition all_used :: "nat \<Rightarrow> level_view \<Rightarrow> nid \<Rightarrow> bool" where
  "all_used l v b \<longleftrightarrow> b \<in> dom (lv_nodes v l) \<and> (\<forall>n\<in>set (slots_of (lv_nodes v l) b). is_valid n)"

definition linking :: "nat \<Rightarrow> nid set \<Rightarrow> level_view \<Rightarrow> (nid \<Rightarrow> nid list) \<Rightarrow> level_view \<Rightarrow> (nid \<Rightarrow> nid list) \<Rightarrow> bool" where
  "linking l X v K v' K' \<longleftrightarrow> lev l v' K' \<and> more_links l v K v' K' \<and> (\<forall>x. x \<notin> X \<longrightarrow> lv_nodes v' l x = lv_nodes v l x)"

lemma linking_refl: "lev l v K \<Longrightarrow> linking l X v K v K"
  by (simp add: linking_def)

lemma linking_trans: "linking l X v K v' K' \<Longrightarrow> linking l Y v' K' w L \<Longrightarrow> linking l (X \<union> Y) v K w L"
  unfolding linking_def using more_links_trans by auto

lemma linking_mono: "linking l X v K v' K' \<Longrightarrow> X \<subseteq> Y \<Longrightarrow> linking l Y v K v' K'"
  unfolding linking_def by auto

lemma spec_reciprocate:
  assumes L: "lev l v K" and a: "a \<in> dom (lv_nodes v l)" "b \<in> named (slots_of (lv_nodes v l) a)" "a \<notin> named (slots_of (lv_nodes v l) b)"
    and n: "nd_nid neighbour = b" "nd_nid node = a"
  shows "spec v (reciprocate S trx node l (W l) neighbour)
    (\<lambda>full v'. \<exists>K'. linking l {b} v K v' K' \<and> (b \<in> dom (lv_nodes v l) \<longrightarrow> a \<in> names (lv_nodes v' l) (lv_chains v' l) K' b) \<and> full = all_used l v b)
    (\<lambda>v'. \<exists>K'. linking l {b} v K v' K')" (is "spec v _ ?Q ?E")
proof -
  let ?N = "lv_nodes v l" and ?C = "lv_chains v l"
  note D = levD [OF L]
  have bk: "b \<in> lv_known v l" "b \<noteq> a" using level_okD(3) [OF D(2) a(1)] a(2) by auto
  have ak: "a \<in> lv_known v l" using D(3) [OF a(1)] .
  note ga = good_id [OF D(5) [OF ak]]
  have gone: "?Q False v" if "?N b = None" using that L by (intro exI [of _ K]) (auto simp: linking_refl all_used_def)
  have present: "spec v (case (if the nv < W l then find_index (\<lambda>n. \<not> is_valid (nd_nid n)) (take (W l) (ne_neighbours be)) else None) of
              Some free_index \<Rightarrow>
                gbind (call (gs_update S l b (empty_neighbour_entry\<lparr>ne_neighbours := [node]\<rparr>) Field_Neighbours [u16 free_index])) (\<lambda>_.
                gret False)
            | None \<Rightarrow> gbind (add_overflow_incoming S trx l neighbour (ne_overflow be) node) (\<lambda>_. gret True)) ?Q ?E"
    if b: "?N b = Some (d, t, e)"
      and be: "(be, nv) = entry_view l True (node_span (W l)) (Field_Neighbours OR Field_Overflow) Filter_All e" for d t e be nv
  proof -
    note at = map_at(1) [of ?N b d t e, OF b]
    have len: "length (ne_neighbours e) = W l" using level_okD(1) [OF D(2), of b] b at by (metis domI length_map)
    have be': "ne_neighbours be = ne_neighbours e" "ne_overflow be = ne_overflow e" "nv = Some (length (filter (\<lambda>n. is_valid (nd_nid n)) (ne_neighbours e)))"
      using be len by (simp_all add: entry_view_def node_span_def included_def Let_def)
    let ?f = "find_index (\<lambda>n. \<not> is_valid (nd_nid n)) (ne_neighbours e)"
    have used: "?f = None \<longleftrightarrow> all_used l v b" using b at by (auto simp: all_used_def find_index_None)
    have num: "the nv < W l \<longleftrightarrow> ?f \<noteq> None"
    proof -
      have "the nv < W l \<longleftrightarrow> (\<exists>n\<in>set (ne_neighbours e). \<not> is_valid (nd_nid n))"
        unfolding be'(3) using len length_filter_less [of _ "ne_neighbours e" "\<lambda>n. is_valid (nd_nid n)"]
        by (auto simp: filter_id_conv) (metis filter_True less_irrefl)
      then show ?thesis by (auto simp: find_index_None)
    qed
    show ?thesis
    proof (cases ?f)
      case None
      have "spec v (gbind (add_overflow_incoming S trx l neighbour (ne_overflow e) node) (\<lambda>_. gret True)) ?Q ?E"
        by (rule spec_bind [OF spec_conseq [OF spec_add_overflow_incoming [OF L b ak n refl], where R = "\<lambda>_. ?Q True"]])
           (use None used in \<open>fastforce simp: linking_def names_def dest: walkedD intro: spec_ret\<close>)+
      with None num be' show ?thesis by simp
    next
      case (Some i)
      then have i: "i < length (ne_neighbours e)" "\<not> is_valid (nd_nid (ne_neighbours e ! i))" using find_index_Some [OF Some] by auto
      let ?e = "e\<lparr>ne_neighbours := (ne_neighbours e)[i := \<lparr>nd_nid = a, nd_vid = id48 (nd_vid node)\<rparr>]\<rparr>"
      let ?v = "with_nodes l (?N(b \<mapsto> (d, t, ?e))) v"
      obtain x where x: "?N a = Some x" using a(1) by auto
      have lo: "level_ok (W l) (Cap l) (lv_known v l) (?N(b \<mapsto> (d, t, ?e))) ?C K"
        by (rule level_ok_land [OF D(2) b x _ ak ga(1,2) i a(3,2)]) (use bk in \<open>auto simp: map_update\<close>)
      have sl: "slots_of (?N(b \<mapsto> (d, t, ?e))) b = (slots_of ?N b)[i := a]" by (simp add: at map_update)
      have nm: "named ((slots_of ?N b)[i := a]) = insert a (named (slots_of ?N b))"
        using slot_update(2) [of i "slots_of ?N b" a] i ga at by simp
      have "lev l ?v K" using L lo bk by (auto simp: lev_def)
      moreover have "more_links l v K ?v K" using b nm sl by (auto simp: more_links_def names_def)
      ultimately have "linking l {b} v K ?v K" by (simp add: linking_def)
      moreover have "a \<in> names (lv_nodes ?v l) (lv_chains ?v l) K b" using nm sl by (auto simp: names_def)
      ultimately have fin: "?Q False ?v" using used Some by auto
      have u: "u16 i = i" using i(1) len bounds(2) [of l] by (intro slot_u16) simp
      show ?thesis using fin Some num be' b bk D(1) i len ga n u
        by (auto intro!: spec_bind [OF spec_update [where d = d and t = t and old = e and Q = "\<lambda>_. ?Q False"]] spec_ret
            simp: put_nodes_def writes_something_def)
    qed
  qed
  show ?thesis unfolding reciprocate_def n(1)
  proof (rule spec_mtr, rule wp_attempt_fetch [OF D(1) bk(1)])
    fix d t e assume b: "?N b = Some (d, t, e)"
    obtain be nv where be: "entry_view l True (node_span (W l)) (Field_Neighbours OR Field_Overflow) Filter_All e = (be, nv)" by fastforce
    show "spec v (case Some (entry_view l True (node_span (W l)) (Field_Neighbours OR Field_Overflow) Filter_All e) of None \<Rightarrow> gret False
        | Some (neighbour_entry, neighbour_num_valid) \<Rightarrow>
           (case (if the neighbour_num_valid < W l then find_index (\<lambda>n. \<not> is_valid (nd_nid n)) (take (W l) (ne_neighbours neighbour_entry)) else None) of
              Some free_index \<Rightarrow>
                gbind (call (gs_update S l b (empty_neighbour_entry\<lparr>ne_neighbours := [node]\<rparr>) Field_Neighbours [u16 free_index])) (\<lambda>_. gret False)
            | None \<Rightarrow> gbind (add_overflow_incoming S trx l neighbour (ne_overflow neighbour_entry) node) (\<lambda>_. gret True))) ?Q ?E"
      unfolding be option.case prod.case by (rule present [OF b be [symmetric]])
  qed (use gone in \<open>auto intro: spec_ret\<close>)
qed

definition unflag_node :: "hnsw_node \<Rightarrow> hnsw_node" where "unflag_node c = c\<lparr>nd_nid := clear_incoming (nd_nid c)\<rparr>"

definition is_flagged :: "hnsw_node \<Rightarrow> bool" where "is_flagged c \<longleftrightarrow> is_valid (nd_nid c) \<and> is_incoming (nd_nid c)"

text \<open>The targets of the flagged links the loop has walked know the node; the others are as they were.\<close>

definition slots_linked :: "nat \<Rightarrow> nid \<Rightarrow> level_view \<Rightarrow> (nid \<Rightarrow> nid list) \<Rightarrow> (nat \<times> hnsw_node) list \<Rightarrow> (nat \<times> hnsw_node) list \<times> hnsw_node list \<Rightarrow> level_view \<Rightarrow> bool" where
  "slots_linked l a v K slots r v' \<longleftrightarrow>
     r = (map (\<lambda>(i, c). (u16 i, unflag_node c)) (filter (\<lambda>(_, c). is_flagged c) slots),
          map unflag_node (filter (\<lambda>c. is_flagged c \<and> all_used l v (clear_incoming (nd_nid c))) (map snd slots)))
     \<and> (\<exists>K'. linking l (flagged (map (nd_nid \<circ> snd) slots)) v K v' K'
          \<and> (\<forall>b\<in>flagged (map (nd_nid \<circ> snd) slots). b \<in> dom (lv_nodes v l) \<longrightarrow> a \<in> names (lv_nodes v' l) (lv_chains v' l) K' b))"

lemma spec_link_slots:
  assumes "lev l v K" "a \<in> dom (lv_nodes v l)" "nd_nid node = a" "once (map (nd_nid \<circ> snd) slots)"
    and "\<forall>b\<in>flagged (map (nd_nid \<circ> snd) slots). b \<in> named (slots_of (lv_nodes v l) a) \<and> a \<notin> named (slots_of (lv_nodes v l) b)"
  shows "spec v (link_slots S trx node l (W l) slots) (slots_linked l a v K slots)
    (\<lambda>v'. \<exists>K'. linking l (flagged (map (nd_nid \<circ> snd) slots)) v K v' K')"
  using assms(1,2,4,5)
proof (induction slots arbitrary: v K)
  case Nil
  then show ?case by (auto simp: slots_linked_def linking_refl intro!: spec_ret exI [of _ K])
next
  case (Cons sc slots)
  let ?F = "\<lambda>slots. flagged (map (nd_nid \<circ> snd) slots)"
  obtain i c where sc: "sc = (i, c)" by fastforce
  show ?case
  proof (cases "is_flagged c")
    case False
    then have eqs: "link_slots S trx node l (W l) (sc # slots) = link_slots S trx node l (W l) slots" "?F (sc # slots) = ?F slots"
      "slots_linked l a v K (sc # slots) = slots_linked l a v K slots"
      by (auto simp: sc is_flagged_def slots_linked_def fun_eq_iff)
    show ?thesis unfolding eqs
      by (rule Cons.IH [OF Cons.prems(1,2)]) (use Cons.prems(3) Cons.prems(4) [unfolded eqs] in \<open>simp_all add: comp_def\<close>)
  next
    case True
    let ?b = "clear_incoming (nd_nid c)" and ?E = "\<lambda>v'. \<exists>K'. linking l (?F (sc # slots)) v K v' K'"
    have F: "?F (sc # slots) = insert ?b (?F slots)" using True by (auto simp: sc is_flagged_def)
    have b: "?b \<in> named (slots_of (lv_nodes v l) a)" "a \<notin> named (slots_of (lv_nodes v l) ?b)" using Cons.prems(4) [unfolded F] by blast+
    have ba: "?b \<noteq> a" using level_okD(3) [OF levD(2) [OF Cons.prems(1)] Cons.prems(2)] b(1) by auto
    have nb: "?b \<notin> ?F slots" using Cons.prems(3) True by (auto simp: sc is_flagged_def named_split comp_def)
    have eq: "link_slots S trx node l (W l) (sc # slots) = gbind (reciprocate S trx node l (W l) (unflag_node c)) (\<lambda>full.
        gbind (link_slots S trx node l (W l) slots) (\<lambda>(lk, out). gret ((u16 i, unflag_node c) # lk, if full then unflag_node c # out else out)))"
      using True by (simp add: sc is_flagged_def unflag_node_def Let_def cong: if_cong)
    have n: "nd_nid (unflag_node c) = ?b" by (simp add: unflag_node_def)
    show ?thesis unfolding eq
    proof (rule spec_bind [OF spec_conseq [OF spec_reciprocate [OF Cons.prems(1,2) b n assms(3)]]], assumption)
      fix v' assume "\<exists>K'. linking l {?b} v K v' K'"
      then show "?E v'" unfolding F using linking_mono by blast
    next
      fix full v1 assume "\<exists>K'. linking l {?b} v K v1 K' \<and> (?b \<in> dom (lv_nodes v l) \<longrightarrow> a \<in> names (lv_nodes v1 l) (lv_chains v1 l) K' ?b) \<and> full = all_used l v ?b"
      then obtain K1 where K1: "linking l {?b} v K v1 K1" "?b \<in> dom (lv_nodes v l) \<longrightarrow> a \<in> names (lv_nodes v1 l) (lv_chains v1 l) K1 ?b"
        and full: "full = all_used l v ?b" by blast
      have same: "lv_nodes v1 l x = lv_nodes v l x" if "x \<noteq> ?b" for x using K1(1) that by (auto simp: linking_def)
      then have sl: "slots_of (lv_nodes v1 l) x = slots_of (lv_nodes v l) x" if "x \<noteq> ?b" for x using that by (simp add: slots_of_def)
      have dm: "dom (lv_nodes v1 l) = dom (lv_nodes v l)" using K1(1) by (simp add: linking_def more_links_def)
      have used: "all_used l v1 x = all_used l v x" if "x \<noteq> ?b" for x using sl [OF that] dm by (simp add: all_used_def)
      have ih: "spec v1 (link_slots S trx node l (W l) slots) (slots_linked l a v1 K1 slots) (\<lambda>v'. \<exists>K'. linking l (?F slots) v1 K1 v' K')"
      proof (rule Cons.IH)
        show "lev l v1 K1" using K1(1) by (simp add: linking_def)
        show "a \<in> dom (lv_nodes v1 l)" using Cons.prems(2) dm by simp
        show "once (map (nd_nid \<circ> snd) slots)" using Cons.prems(3) by (simp add: comp_def)
        show "\<forall>x\<in>?F slots. x \<in> named (slots_of (lv_nodes v1 l) a) \<and> a \<notin> named (slots_of (lv_nodes v1 l) x)"
        proof
          fix x assume x: "x \<in> ?F slots"
          then have "x \<noteq> ?b" using nb by blast
          then show "x \<in> named (slots_of (lv_nodes v1 l) a) \<and> a \<notin> named (slots_of (lv_nodes v1 l) x)"
            using Cons.prems(4) [unfolded F] x sl ba by auto
        qed
      qed
      show "spec v1 (gbind (link_slots S trx node l (W l) slots) (\<lambda>(lk, out). gret ((u16 i, unflag_node c) # lk, if full then unflag_node c # out else out)))
          (slots_linked l a v K (sc # slots)) ?E"
      proof (rule spec_bind [OF spec_conseq [OF ih]], assumption)
        fix v2 assume "\<exists>K'. linking l (?F slots) v1 K1 v2 K'"
        then show "?E v2" unfolding F using linking_trans [OF K1(1)] by auto
      next
        fix r v2 assume r: "slots_linked l a v1 K1 slots r v2"
        then obtain K2 where K2: "linking l (?F slots) v1 K1 v2 K2" "\<forall>x\<in>?F slots. x \<in> dom (lv_nodes v1 l) \<longrightarrow> a \<in> names (lv_nodes v2 l) (lv_chains v2 l) K2 x"
          by (auto simp: slots_linked_def)
        have "map unflag_node (filter (\<lambda>c. is_flagged c \<and> all_used l v1 (clear_incoming (nd_nid c))) (map snd slots))
            = map unflag_node (filter (\<lambda>c. is_flagged c \<and> all_used l v (clear_incoming (nd_nid c))) (map snd slots))"
        proof (intro arg_cong [of _ _ "map unflag_node"] filter_cong refl)
          fix x assume "x \<in> set (map snd slots)"
          then have "clear_incoming (nd_nid x) \<in> ?F slots" if "is_flagged x"
            using that by (auto simp: flagged_def is_flagged_def comp_def intro!: imageI)
          then have "clear_incoming (nd_nid x) \<noteq> ?b" if "is_flagged x" using nb that by metis
          then show "(is_flagged x \<and> all_used l v1 (clear_incoming (nd_nid x))) = (is_flagged x \<and> all_used l v (clear_incoming (nd_nid x)))"
            using used by auto
        qed
        moreover have "\<forall>x\<in>insert ?b (?F slots). x \<in> dom (lv_nodes v l) \<longrightarrow> a \<in> names (lv_nodes v2 l) (lv_chains v2 l) K2 x"
          using K1(2) K2 dm by (auto simp: linking_def more_links_def)
        moreover have "linking l (insert ?b (?F slots)) v K v2 K2" using linking_trans [OF K1(1) K2(1)] by simp
        ultimately show "spec v2 (case r of (lk, out) \<Rightarrow> gret ((u16 i, unflag_node c) # lk, if full then unflag_node c # out else out))
            (slots_linked l a v K (sc # slots)) ?E"
          using r True full unfolding slots_linked_def F by (auto simp: sc intro!: spec_ret)
      qed
    qed
  qed
qed

text \<open>Writing slots of a node, each at the place it was read from.\<close>

lemma with_nodes_same: "lv_nodes v l = N \<Longrightarrow> with_nodes l N v = v"
  by (auto simp: with_nodes_def)

lemma spec_write_slots:
  assumes "l \<in> lv_levels v" "nd_nid node \<in> lv_known v l" "lv_nodes v l (nd_nid node) = Some (d, t, old)"
    and "sorted_wrt (<) (map fst writes)" "\<forall>i\<in>fst ` set writes. i < W l"
    and "Q () (with_nodes l ((lv_nodes v l)(nd_nid node \<mapsto> (d, t, old\<lparr>ne_neighbours := put_nodes writes (ne_neighbours old)\<rparr>))) v)"
  shows "spec v (write_slots S l node writes) Q E"
proof (cases "writes = []")
  case True
  then have "Q () v" using assms(3,6) with_nodes_same [of v l, OF refl] by (simp add: put_nodes_def map_upd_triv)
  with True show ?thesis by (simp add: write_slots_def spec_ret)
next
  case False
  have "zip (map fst writes) (map snd writes) = writes" by (rule zip_map_fst_snd)
  with False assms show ?thesis
    by (auto simp: write_slots_def writes_something_def intro!: spec_mtr spec_update [where d = d and t = t and old = old])
qed

definition stored_node :: "hnsw_node \<Rightarrow> hnsw_node" where "stored_node n = \<lparr>nd_nid = id48 (nd_nid n), nd_vid = id48 (nd_vid n)\<rparr>"

lemma put_nodes_slots:
  fixes ns :: "hnsw_node list" and g :: "hnsw_node \<Rightarrow> hnsw_node" and P :: "hnsw_node \<Rightarrow> bool"
  assumes "length ns < 2 ^ 16"
  defines "ws \<equiv> map (\<lambda>(i, c). (u16 i, g c)) (filter (\<lambda>(_, c). P c) (enumerate 0 ns))"
  shows "put_nodes ws ns = map (\<lambda>c. if P c then stored_node (g c) else c) ns" "sorted_wrt (<) (map fst ws)" "\<forall>i\<in>fst ` set ws. i < length ns"
proof -
  have ws: "ws = map (\<lambda>(i, c). (i, g c)) (filter (\<lambda>(_, c). P c) (enumerate 0 ns))"
    unfolding ws_def by (intro map_cong refl) (use assms(1) in \<open>auto simp: in_set_enumerate_eq u16_def\<close>)
  show "put_nodes ws ns = map (\<lambda>c. if P c then stored_node (g c) else c) ns"
    using put_all_enumerate [of stored_node g P "[]" ns] by (simp add: ws put_nodes_def put_all_def stored_node_def)
  have fst: "map fst ws = map fst (filter (\<lambda>(_, c). P c) (enumerate 0 ns))" unfolding ws by (simp add: comp_def split_beta)
  then show "sorted_wrt (<) (map fst ws)" using enumerate_slots(1) [of "\<lambda>(_, c). P c" 0 ns] by simp
  have "fst ` set ws = fst ` set (filter (\<lambda>(_, c). P c) (enumerate 0 ns))" using fst by (metis list.set_map)
  then show "\<forall>i\<in>fst ` set ws. i < length ns" using enumerate_slots(2) [of _ "\<lambda>(_, c). P c" 0 ns] by simp
qed

definition links_confirmed :: "nat \<Rightarrow> nid \<Rightarrow> level_view \<Rightarrow> (nid \<Rightarrow> nid list) \<Rightarrow> hnsw_node list \<Rightarrow> level_view \<Rightarrow> (nid \<Rightarrow> nid list) \<Rightarrow> bool" where
  "links_confirmed l a v K out v' K' \<longleftrightarrow> linking l (insert a (flagged (slots_of (lv_nodes v l) a))) v K v' K'
     \<and> flagged (slots_of (lv_nodes v' l) a) = {} \<and> outgoing (slots_of (lv_nodes v' l) a) = named (slots_of (lv_nodes v l) a)
     \<and> (\<forall>b\<in>flagged (slots_of (lv_nodes v l) a). b \<in> dom (lv_nodes v l) \<longrightarrow> a \<in> names (lv_nodes v' l) (lv_chains v' l) K' b)
     \<and> nd_nid ` set out = {b \<in> flagged (slots_of (lv_nodes v l) a). all_used l v b}"

lemma spec_link_neighbours_locked:
  assumes L: "lev l v K" and a: "a \<in> dom (lv_nodes v l)" "nd_nid node = a"
    and new: "\<forall>b\<in>flagged (slots_of (lv_nodes v l) a). a \<notin> named (slots_of (lv_nodes v l) b)"
  shows "spec v (link_neighbours_locked S trx node l) (\<lambda>out v'. \<exists>K'. links_confirmed l a v K out v' K')
    (\<lambda>v'. \<exists>K'. linking l (flagged (slots_of (lv_nodes v l) a)) v K v' K')"
proof -
  let ?N = "lv_nodes v l" and ?E = "\<lambda>v'. \<exists>K'. linking l (flagged (slots_of (lv_nodes v l) a)) v K v' K'"
  obtain d t e where e: "?N a = Some (d, t, e)" using a(1) by (cases "?N a") auto
  note D = levD [OF L] and at = map_at(1) [of ?N a d t e, OF e]
  let ?ns = "ne_neighbours e"
  have len: "length ?ns = W l" using level_okD(1) [OF D(2) a(1)] at by simp
  have view: "entry_view l True (node_span (W l)) Field_Neighbours Filter_All e = (empty_neighbour_entry\<lparr>ne_neighbours := ?ns\<rparr>, Some (length (filter (\<lambda>n. included Filter_All (nd_nid n)) ?ns)))"
    using len by (simp add: entry_view_def node_span_def empty_neighbour_entry_def Let_def)
  have sl: "map (nd_nid \<circ> snd) (enumerate 0 ?ns) = slots_of ?N a" by (simp add: at flip: map_map)
  have val: "\<forall>n\<in>lv_known v l. is_valid n" using D(5) by (simp add: good_id_def)
  have ls: "spec v (link_slots S trx node l (W l) (enumerate 0 ?ns)) (slots_linked l a v K (enumerate 0 ?ns)) ?E"
    using spec_link_slots [OF L a, of "enumerate 0 ?ns"] level_okD(2) [OF D(2) a(1)] new unfolding sl by (auto simp: named_split)
  have rest: "spec v1 (gbind (write_slots S l node ws) (\<lambda>_. gret out)) (\<lambda>out v'. \<exists>K'. links_confirmed l a v K out v' K') ?E"
    if r: "slots_linked l a v K (enumerate 0 ?ns) (ws, out) v1" for ws out v1
  proof -
    have lk: "ws = map (\<lambda>(i, c). (u16 i, unflag_node c)) (filter (\<lambda>(_, c). is_flagged c) (enumerate 0 ?ns))"
      and out: "out = map unflag_node (filter (\<lambda>c. is_flagged c \<and> all_used l v (clear_incoming (nd_nid c))) ?ns)"
      using r by (auto simp: slots_linked_def)
    obtain K1 where K1: "linking l (flagged (slots_of ?N a)) v K v1 K1"
      "\<forall>b\<in>flagged (slots_of ?N a). b \<in> dom ?N \<longrightarrow> a \<in> names (lv_nodes v1 l) (lv_chains v1 l) K1 b"
      using r unfolding slots_linked_def sl by blast
    note L1 = K1(1) [unfolded linking_def, THEN conjunct1] and M1 = K1(1) [unfolded linking_def, THEN conjunct2, THEN conjunct1]
    have dm: "dom (lv_nodes v1 l) = dom ?N" and kn: "lv_known v1 = lv_known v" using M1 by (auto simp: more_links_def)
    have "a \<notin> flagged (slots_of ?N a)" using level_okD(3) [OF D(2) a(1)] by (auto simp: named_split)
    then have e1: "lv_nodes v1 l a = Some (d, t, e)" and sl1: "slots_of (lv_nodes v1 l) a = slots_of ?N a"
      using K1(1) e by (auto simp: linking_def slots_of_def)
    have W16: "length ?ns < 2 ^ 16" using bounds(2) len by simp
    note pn = put_nodes_slots [OF W16, where g = unflag_node and P = is_flagged]
    let ?e = "e\<lparr>ne_neighbours := map (\<lambda>c. if is_flagged c then stored_node (unflag_node c) else c) ?ns\<rparr>"
    let ?N2 = "(lv_nodes v1 l)(a \<mapsto> (d, t, ?e))" and ?v2 = "with_nodes l ((lv_nodes v1 l)(a \<mapsto> (d, t, ?e))) v1"
    have ids: "nd_nid (stored_node (unflag_node c)) = clear_incoming (nd_nid c)" if "c \<in> set ?ns" "is_flagged c" for c
    proof -
      have "clear_incoming (nd_nid c) \<in> named (slots_of ?N a)" using that by (auto simp: at named_def is_flagged_def)
      then have "good_id (clear_incoming (nd_nid c))" using level_okD(3) [OF D(2) a(1)] D(5) by auto
      then show ?thesis using good_id(4) by (simp add: stored_node_def unflag_node_def)
    qed
    then have un: "map nd_nid (ne_neighbours ?e) = unflag (slots_of (lv_nodes v1 l) a)"
      unfolding sl1 at unflag_def by (auto simp: is_flagged_def clear_incoming_id)
    have conf: "level_ok (W l) (Cap l) (lv_known v1 l) ?N2 (lv_chains v1 l) K1" "names ?N2 (lv_chains v1 l) K1 = names (lv_nodes v1 l) (lv_chains v1 l) K1"
      by (rule level_ok_confirm [OF levD(2) [OF L1] e1 _ _ un]; use K1(2) dm kn val sl1 in simp)+
    note uf = unflag_simps [of "slots_of ?N a"]
    have valn: "\<forall>n\<in>named (slots_of ?N a). is_valid n" using level_okD(3) [OF D(2) a(1)] val by auto
    have "lev l ?v2 K1" using L1 conf(1) e1 levD(3) [OF L1, of a] by (auto simp: lev_def)
    moreover have "more_links l v1 K1 ?v2 K1" using conf(2) e1 by (auto simp: more_links_def)
    ultimately have "linking l {a} v1 K1 ?v2 K1" by (simp add: linking_def)
    then have "linking l (flagged (slots_of ?N a) \<union> {a}) v K ?v2 K1" by (rule linking_trans [OF K1(1)])
    then have "linking l (insert a (flagged (slots_of ?N a))) v K ?v2 K1" by simp
    moreover have "flagged (slots_of ?N2 a) = {}" "outgoing (slots_of ?N2 a) = named (slots_of ?N a)"
      using un uf(3,4) [OF valn] unfolding sl1 by simp_all
    moreover have "\<forall>b\<in>flagged (slots_of ?N a). b \<in> dom ?N \<longrightarrow> a \<in> names ?N2 (lv_chains v1 l) K1 b" using K1(2) conf(2) by simp
    moreover have "nd_nid ` set out = {b \<in> flagged (slots_of ?N a). all_used l v b}"
      unfolding out at flagged_def by (auto simp: unflag_node_def is_flagged_def image_iff)
    ultimately have "links_confirmed l a v K out ?v2 K1" by (simp add: links_confirmed_def)
    then have fin: "\<exists>K'. links_confirmed l a v K out ?v2 K'" by blast
    show ?thesis
    proof (rule spec_bind [OF spec_write_slots [where Q = "\<lambda>_ v'. \<exists>K'. links_confirmed l a v K out v' K'"]])
      show "l \<in> lv_levels v1" by (rule levD(1) [OF L1])
      show "nd_nid node \<in> lv_known v1 l" using levD(3) [OF L1, of a] e1 a(2) by auto
      show "lv_nodes v1 l (nd_nid node) = Some (d, t, e)" using e1 a(2) by simp
      show "sorted_wrt (<) (map fst ws)" "\<forall>i\<in>fst ` set ws. i < W l" using pn(2,3) len unfolding lk by simp_all
      show "\<exists>K'. links_confirmed l a v K out (with_nodes l ((lv_nodes v1 l)(nd_nid node \<mapsto> (d, t, e\<lparr>ne_neighbours := put_nodes ws (ne_neighbours e)\<rparr>))) v1) K'"
        using fin pn(1) unfolding lk a(2) by simp
    qed (rule spec_ret)
  qed
  show ?thesis unfolding link_neighbours_locked_def a(2)
    by (rule wp_sizes, rule wp_fetch(2) [OF D(1) D(3) [OF a(1)]])
       (use e view len rest in \<open>auto intro!: spec_bind [OF ls]\<close>)
qed

text \<open>An operation under the operation mutex of the level; \<open>v\<close> is what the thread finds once it has the mutex.\<close>

lemma locked_outcome:
  assumes m: "spec v m Q E" and v: "rep (gs_lock_operation S l mode s) v"
  obtains s' r w v' where "with_operation_lock S l mode m s = Some (s', r)" "rep s' w" "knows_more v' w" "case r of Some x \<Rightarrow> Q x v' | None \<Rightarrow> E v'"
proof -
  have "displays v (gs_lock_operation S l mode s)" by (rule displaysI [OF v]) simp
  then obtain s1 r where run: "m (gs_lock_operation S l mode s) = Some (s1, r)"
      "case r of Some x \<Rightarrow> \<exists>v'. displays v' s1 \<and> Q x v' | None \<Rightarrow> \<exists>v'. displays v' s1 \<and> E v'"
    using m unfolding spec_def gtriple_def by blast
  then obtain v' where "displays v' s1" "case r of Some x \<Rightarrow> Q x v' | None \<Rightarrow> E v'" by (cases r) auto
  then obtain w where "rep s1 w" "knows_more v' w" "case r of Some x \<Rightarrow> Q x v' | None \<Rightarrow> E v'" by (auto simp: displays_def)
  with run(1) show thesis by (intro that [of "gs_unlock_operation S l mode s1" r w v']) (simp_all add: with_operation_lock_def unlock)
qed

lemma levI:
  assumes "rep s v" "l \<in> lv_levels v" "level_ok (W l) (Cap l) (lv_known v l) (lv_nodes v l) (lv_chains v l) K"
  shows "lev l v K"
  using ids [OF assms(1,2)] present [OF assms(1,2)] assms by (auto simp: lev_def)

lemma level_ok_known: "level_ok w c V N C K \<Longrightarrow> V \<subseteq> V' \<Longrightarrow> level_ok w c V' N C K"
  unfolding level_ok_def lists_ok_def by blast

lemma link_neighbours_outcome:
  fixes v :: level_view and l :: nat and a :: nid
  defines "N \<equiv> lv_nodes v l" and "C \<equiv> lv_chains v l"
  defines "F \<equiv> flagged (slots_of (lv_nodes v l) a)"
  assumes v: "rep (gs_lock_operation S l Shared s) v" "l \<in> lv_levels v" and ok: "level_ok (W l) (Cap l) (lv_known v l) N C K"
    and a: "a \<in> dom N" "nd_nid node = a" and new: "\<forall>b\<in>F. a \<notin> named (slots_of N b)"
  shows "\<exists>s' r w K'. IndexGraph_link_neighbours S trx node l s = Some (s', r) \<and> rep s' w
    \<and> level_ok (W l) (Cap l) (lv_known w l) (lv_nodes w l) (lv_chains w l) K' \<and> dom (lv_nodes w l) = dom N
    \<and> (\<forall>x\<in>dom N. names N C K x \<subseteq> names (lv_nodes w l) (lv_chains w l) K' x)
    \<and> (\<forall>x. x \<noteq> a \<and> x \<notin> F \<longrightarrow> lv_nodes w l x = N x)
    \<and> (\<forall>l'. l' \<noteq> l \<longrightarrow> lv_nodes w l' = lv_nodes v l' \<and> lv_chains w l' = lv_chains v l')
    \<and> (\<forall>out. r = Some out \<longrightarrow> flagged (slots_of (lv_nodes w l) a) = {} \<and> outgoing (slots_of (lv_nodes w l) a) = named (slots_of N a)
         \<and> (\<forall>b\<in>F. b \<in> dom N \<longrightarrow> a \<in> names (lv_nodes w l) (lv_chains w l) K' b)
         \<and> nd_nid ` set out = {b \<in> F. b \<in> dom N \<and> (\<forall>n\<in>set (slots_of N b). is_valid n)})"
proof -
  have L: "lev l v K" by (rule levI [OF v ok [unfolded N_def C_def]])
  have "spec v (link_neighbours_locked S trx node l) (\<lambda>out v'. \<exists>K'. links_confirmed l a v K out v' K') (\<lambda>v'. \<exists>K'. linking l F v K v' K')"
    unfolding F_def by (rule spec_link_neighbours_locked [OF L a [unfolded N_def] new [unfolded N_def F_def]])
  from this v(1) obtain s' r w v' where run: "with_operation_lock S l Shared (link_neighbours_locked S trx node l) s = Some (s', r)"
    and w: "rep s' w" "knows_more v' w"
    and r: "case r of Some out \<Rightarrow> \<exists>K'. links_confirmed l a v K out v' K' | None \<Rightarrow> \<exists>K'. linking l F v K v' K'"
    by (rule locked_outcome)
  from r obtain K' where K': "linking l (insert a F) v K v' K'" and out: "\<And>out. r = Some out \<Longrightarrow> links_confirmed l a v K out v' K'"
  proof (cases r)
    case None
    then show thesis using r that linking_mono [of l F v K v' _ "insert a F"] by auto
  next
    case (Some out)
    then show thesis using r that by (auto simp: links_confirmed_def F_def)
  qed
  have eq: "lv_nodes w = lv_nodes v'" "lv_chains w = lv_chains v'" "lv_known v' l \<subseteq> lv_known w l" using w(2) by (auto simp: knows_more_def)
  have "level_ok (W l) (Cap l) (lv_known w l) (lv_nodes w l) (lv_chains w l) K'"
    unfolding eq by (rule level_ok_known [OF _ eq(3)]) (use K' in \<open>auto simp: linking_def dest: levD(2)\<close>)
  with run w(1) K' out show ?thesis
    unfolding IndexGraph_link_neighbours_def N_def C_def F_def
    by (intro exI [of _ s'] exI [of _ r] exI [of _ w] exI [of _ K']) (auto simp: eq linking_def more_links_def links_confirmed_def all_used_def)
qed

end

end
