(* ===== verification/Graph_Nodes.thy ===== *)
theory Graph_Nodes
  imports Graph_Links
begin

text \<open>
  Nodes that come and go. A node is created with all its links flagged as incoming, so the level stays in order until the links are
  confirmed; unlinking takes every link to and from a node away, so that the node can be dropped.
\<close>

subsection \<open>A new node\<close>

text \<open>No outgoing link leads to a record that is gone.\<close>

definition anchored :: "node_map \<Rightarrow> bool" where
  "anchored N \<longleftrightarrow> (\<forall>a. outgoing (slots_of N a) \<subseteq> dom N)"

definition new_entry :: "vid \<Rightarrow> hnsw_node list \<Rightarrow> neighbour_entry" where
  "new_entry owner ns = empty_neighbour_entry\<lparr>ne_owner := owner, ne_neighbours := map flag_incoming ns\<rparr>"

lemma named_replicate [simp]: "named (replicate k INVALID_ID) = {}" "outgoing (replicate k INVALID_ID) = {}" "flagged (replicate k INVALID_ID) = {}" "once (replicate k INVALID_ID)"
  by (induction k) simp_all

lemma flagged_ids:
  assumes "\<forall>x\<in>set xs. good_id x"
  shows "named (map set_incoming xs) = set xs" "outgoing (map set_incoming xs) = {}" "flagged (map set_incoming xs) = set xs"
    "once (map set_incoming xs) \<longleftrightarrow> distinct xs"
proof -
  have "is_valid (set_incoming x) \<and> is_incoming (set_incoming x) \<and> clear_incoming (set_incoming x) = x" if "x \<in> set xs" for x
    using assms that good_id [of x] set_incoming_valid by simp
  then show "named (map set_incoming xs) = set xs" "outgoing (map set_incoming xs) = {}" "flagged (map set_incoming xs) = set xs"
    "once (map set_incoming xs) \<longleftrightarrow> distinct xs"
    by (induction xs) auto
qed

lemma new_slots:
  assumes "length ns \<le> w" "\<forall>n\<in>set ns. good_id (nd_nid n)"
  shows "map nd_nid (ne_neighbours (fresh_entry l w (new_entry owner ns))) = map set_incoming (map nd_nid ns) @ replicate (w - length ns) INVALID_ID"
    and "ne_overflow (fresh_entry l w (new_entry owner ns)) = INVALID_ID"
  using assms good_id(5)
  by (auto simp: fresh_entry_def new_entry_def pad_nodes_append flag_incoming_def no_node_def empty_neighbour_entry_def)

lemma new_node_ok:
  assumes N': "N' = N(n \<mapsto> (d, t, fresh_entry l w (new_entry owner ns)))"
    and ok: "level_ok w c V N C K" and n: "N n = None" "V \<subseteq> V'" and a: "anchored N"
    and ns: "length ns \<le> w" "\<forall>x\<in>set ns. good_id (nd_nid x)" "distinct (map nd_nid ns)" "nd_nid ` set ns \<subseteq> dom N" "dom N \<subseteq> V"
  shows "level_ok w c V' N' C (K(n := []))" "anchored N'"
    "flagged (slots_of N' n) = nd_nid ` set ns" "outgoing (slots_of N' n) = {}"
proof -
  let ?N = N' and ?ids = "map nd_nid ns"
  have sl: "slots_of ?N = (slots_of N)(n := map set_incoming ?ids @ replicate (w - length ns) INVALID_ID)"
    unfolding N' by (simp add: new_slots [OF ns(1,2)])
  have hd: "head_of ?N = (head_of N)(n := INVALID_ID)" unfolding N' by (simp add: new_slots(2) [OF ns(1,2)])
  have g: "\<forall>x\<in>set ?ids. good_id x" using ns(2) by simp
  note f = flagged_ids [OF g]
  show "flagged (slots_of ?N n) = nd_nid ` set ns" "outgoing (slots_of ?N n) = {}" using f by (simp_all add: sl)
  have d: "dom ?N = insert n (dom N)" by (simp add: N')
  show "anchored ?N" using a f(2) by (auto simp: anchored_def sl d)
  have nV: "nd_nid ` set ns \<subseteq> V' - {n}" using ns(4,5) n by blast
  have "lists_ok w c V' ?N C"
    unfolding lists_ok_def
  proof (intro conjI ballI)
    fix x assume x: "x \<in> dom ?N"
    show "length (slots_of ?N x) = w" using level_okD(1) [OF ok, of x] x ns(1) by (auto simp: sl d)
    show "once (slots_of ?N x)" using level_okD(2) [OF ok, of x] x f ns(3) by (auto simp: sl d)
    show "named (slots_of ?N x) \<subseteq> V' - {x}" 
    proof (cases "x = n")
      case True
      then show ?thesis using f(1) nV by (simp add: sl)
    next
      case False
      then show ?thesis using level_okD(3) [OF ok, of x] x n(2) by (auto simp: sl d)
    qed
  next
    fix p assume p: "p \<in> dom C"
    show "length (incoming_of C p) = c" "named (incoming_of C p) \<subseteq> V'" using level_okD(4,5) [OF ok p] n(2) by auto
  qed
  moreover have "chains_ok ?N C (K(n := []))"
    using level_okD(6,10) [OF ok] n(1) by (auto simp: chains_ok_def hd d)
  moreover have "linked ?N C (K(n := []))"
  proof (rule linkedI)
    fix x b assume xb: "b \<in> outgoing (slots_of ?N x)" "b \<in> dom ?N"
    then have "x \<noteq> n" "b \<in> outgoing (slots_of N x)" using f(2) by (auto simp: sl split: if_splits)
    then have "b \<in> dom N" "b \<noteq> n" using a n(1) by (auto simp: anchored_def)
    with linkedD [OF level_okD(7) [OF ok]] \<open>b \<in> outgoing (slots_of N x)\<close> show "x \<in> names ?N C (K(n := [])) b" by (auto simp: names_def sl)
  qed
  ultimately show "level_ok w c V' ?N C (K(n := []))" by (simp add: level_ok_def)
qed

lemma gbind_laws: "gbind (gret x) f = f x" "gbind (gbind m f) g = gbind m (\<lambda>x. gbind (f x) g)"
  by (auto simp: gbind_def gret_def fun_eq_iff split: option.splits)

text \<open>
  The outcome of creating a node on level \<open>l\<close>: it was not there before, all its links are flagged, the level stays in order, the node
  above it points down to it and nothing else has changed.
\<close>

definition node_created :: "nat \<Rightarrow> nat \<Rightarrow> nat \<Rightarrow> hnsw_node option \<Rightarrow> vid \<Rightarrow> hnsw_node list \<Rightarrow> (nid \<Rightarrow> nid list) \<Rightarrow> level_view \<Rightarrow> hnsw_node \<Rightarrow> level_view \<Rightarrow> bool" where
  "node_created width cap l parent owner ns K v node w \<longleftrightarrow> nd_vid node = owner \<and> lv_nodes v l (nd_nid node) = None \<and> lv_nodes w l = (lv_nodes v l)(nd_nid node := lv_nodes w l (nd_nid node))
     \<and> flagged (slots_of (lv_nodes w l) (nd_nid node)) = nd_nid ` set ns \<and> outgoing (slots_of (lv_nodes w l) (nd_nid node)) = {}
     \<and> level_ok width cap (lv_known w l) (lv_nodes w l) (lv_chains w l) (K(nd_nid node := [])) \<and> anchored (lv_nodes w l) \<and> nd_nid node \<in> dom (lv_nodes w l)
     \<and> (\<forall>q. parent = Some q \<longrightarrow> (\<exists>d t e. lv_nodes v (l + 1) (nd_nid q) = Some (d, t, e)
          \<and> lv_nodes w (l + 1) = (lv_nodes v (l + 1))(nd_nid q \<mapsto> (d, t, e\<lparr>ne_lower_level := nd_nid node\<rparr>))))
     \<and> (\<forall>l'. l' \<noteq> l \<and> (parent = None \<or> l' \<noteq> l + 1) \<longrightarrow> lv_nodes w l' = lv_nodes v l')"

context graph_levels
begin

lemma spec_insert:
  assumes l: "l \<in> lv_levels v" and E: "E v"
    and Q: "\<And>n. lv_nodes v l n = None \<Longrightarrow> good_id n \<Longrightarrow> Q n (with_known l n (with_nodes l ((lv_nodes v l)(n \<mapsto> (False, trx, fresh_entry l (W l) e))) v))"
  shows "spec v (call (gs_insert S l trx e)) Q E"
  unfolding spec_def
proof (rule gtriple_call)
  fix s s' n assume v: "displays v s" and run: "gs_insert S l trx e s = (s', Some n)"
  let ?v = "with_known l n (with_nodes l ((lv_nodes v l)(n \<mapsto> (False, trx, fresh_entry l (W l) e))) v)"
  from v obtain w where w: "rep s w" "knows_more v w" "lv_nodes w = lv_nodes v" "lv_levels w = lv_levels v" by (rule displaysE)
  from insert [OF w(1) _ run] l w obtain w' where r: "rep s' w'" "n \<in> lv_known w' l" "lv_nodes v l n = None"
    "knows_more (with_nodes l ((lv_nodes v l)(n \<mapsto> (False, trx, fresh_entry l (W l) e))) w) w'" by auto
  then have "good_id n" using ids [OF r(1), of l n] l w(4) by (simp add: knows_more_def)
  moreover have "knows_more ?v w'" using r w(2) unfolding knows_more_def by (auto simp: subset_iff)
  ultimately show "\<exists>v'. displays v' s' \<and> Q n v'" using Q r(3) displaysI [OF r(1)] by blast
next
  fix s s' assume v: "displays v s" and run: "gs_insert S l trx e s = (s', None)"
  from v obtain w where w: "rep s w" "knows_more v w" "lv_nodes w = lv_nodes v" "lv_levels w = lv_levels v" by (rule displaysE)
  from insert [OF w(1) _ run] l w obtain w' where "rep s' w'" "knows_more w w'" by auto
  then have "displays v s'" using w(2) knows_more_trans by (auto simp: displays_def)
  with E show "\<exists>v'. displays v' s' \<and> E v'" by blast
qed

text \<open>What a created node looks like; \<open>below\<close> is the node above it, which now points down to it.\<close>

definition created :: "nat \<Rightarrow> level_view \<Rightarrow> hnsw_node option \<Rightarrow> trx_ref \<Rightarrow> vid \<Rightarrow> hnsw_node list \<Rightarrow> hnsw_node \<Rightarrow> level_view \<Rightarrow> bool" where
  "created l v parent trx owner ns node w \<longleftrightarrow> nd_vid node = owner \<and> lv_nodes v l (nd_nid node) = None \<and> good_id (nd_nid node)
     \<and> lv_nodes w l = (lv_nodes v l)(nd_nid node \<mapsto> (False, trx, fresh_entry l (W l) (new_entry owner ns)))
     \<and> (case parent of None \<Rightarrow> True | Some p \<Rightarrow> \<exists>d t e. lv_nodes v (u8 (l + 1)) (nd_nid p) = Some (d, t, e)
          \<and> lv_nodes w (u8 (l + 1)) = (lv_nodes v (u8 (l + 1)))(nd_nid p \<mapsto> (d, t, e\<lparr>ne_lower_level := nd_nid node\<rparr>)))
     \<and> (\<forall>l'. l' \<noteq> l \<and> (parent = None \<or> l' \<noteq> u8 (l + 1)) \<longrightarrow> lv_nodes w l' = lv_nodes v l')
     \<and> lv_chains w = lv_chains v \<and> lv_levels w = lv_levels v \<and> (\<forall>l. lv_known v l \<subseteq> lv_known w l) \<and> nd_nid node \<in> lv_known w l"

lemma spec_create_node:
  assumes l: "l \<in> lv_levels v" "l < 255" and key: "ix_get_key_ref X data = Some owner"
    and p: "\<And>q. parent = Some q \<Longrightarrow> u8 (l + 1) \<in> lv_levels v \<and> nd_nid q \<in> lv_known v (u8 (l + 1))"
  shows "spec v (IndexGraph_create_node X S trx parent l data ns) (created l v parent trx owner ns) (\<lambda>v'. v' = v)"
proof -
  have u: "u8 (l + 1) = l + 1" using l(2) by simp
  let ?N = "\<lambda>n. with_known l n (with_nodes l ((lv_nodes v l)(n \<mapsto> (False, trx, fresh_entry l (W l) (new_entry owner ns)))) v)"
  have ins: "spec v (call (gs_insert S l trx (new_entry owner ns))) (\<lambda>n v'. lv_nodes v l n = None \<and> good_id n \<and> v' = ?N n) (\<lambda>v'. v' = v)"
    by (rule spec_insert [OF l(1)]) simp_all
  show ?thesis
  proof (cases parent)
    case None
    have "spec v (gbind (call (gs_insert S l trx (new_entry owner ns))) (\<lambda>n. gret \<lparr>nd_nid = n, nd_vid = owner\<rparr>)) (created l v parent trx owner ns) (\<lambda>v'. v' = v)"
      by (rule spec_bind [OF ins], rule spec_ret) (auto simp: None created_def)
    then show ?thesis
      unfolding IndexGraph_create_node_def key option.case None new_entry_def [symmetric] by (intro spec_mtr) (simp only: gbind_laws)
  next
    case (Some q)
    note pq = p [OF Some]
    have rest: "spec (?N n) (gbind (call (gs_update S (u8 (l + 1)) (nd_nid q) (lower_level_entry n) Field_LowerLevel [])) (\<lambda>_. gret \<lparr>nd_nid = n, nd_vid = owner\<rparr>))
        (created l v parent trx owner ns) (\<lambda>v'. v' = v)"
      if n: "lv_nodes v l n = None" "good_id n" and q: "lv_nodes v (u8 (l + 1)) (nd_nid q) = Some (d, t, e)" for n d t e
    proof -
      have "lv_nodes (?N n) (u8 (l + 1)) (nd_nid q) = Some (d, t, e)" using q u by simp
      then show ?thesis
        by (intro spec_bind [OF spec_update [where Q = "\<lambda>_ v'. v' = with_nodes (u8 (l + 1)) ((lv_nodes v (u8 (l + 1)))(nd_nid q \<mapsto> (d, t, e\<lparr>ne_lower_level := n\<rparr>))) (?N n)"]])
          (use pq u n q good_id [OF n(2)] in \<open>auto simp: writes_something_def Some created_def intro!: spec_ret\<close>)
    qed
    have "spec v (gbind (call (gs_fetch S (u8 (l + 1)) (nd_nid q) True empty_neighbour_entry Field_LowerLevel Filter_ExcludeIncoming)) (\<lambda>_.
        gbind (call (gs_insert S l trx (new_entry owner ns))) (\<lambda>n.
        gbind (call (gs_update S (u8 (l + 1)) (nd_nid q) (lower_level_entry n) Field_LowerLevel [])) (\<lambda>_. gret \<lparr>nd_nid = n, nd_vid = owner\<rparr>))))
        (created l v parent trx owner ns) (\<lambda>v'. v' = v)"
      by (rule wp_fetch(1)) (use pq rest in \<open>auto intro!: spec_bind [OF ins]\<close>)
    then show ?thesis
      unfolding IndexGraph_create_node_def key option.case Some new_entry_def [symmetric] by (intro spec_mtr) (simp only: gbind_laws)
  qed
qed

lemma spec_outcome:
  assumes "spec v m Q E" "rep s v"
  obtains s' r w v' where "m s = Some (s', r)" "rep s' w" "knows_more v' w" "case r of Some x \<Rightarrow> Q x v' | None \<Rightarrow> E v'"
proof -
  have "displays v s" by (rule displaysI [OF assms(2)]) simp
  then obtain s1 r where run: "m s = Some (s1, r)" "case r of Some x \<Rightarrow> \<exists>v'. displays v' s1 \<and> Q x v' | None \<Rightarrow> \<exists>v'. displays v' s1 \<and> E v'"
    using assms(1) unfolding spec_def gtriple_def by blast
  then obtain v' where "displays v' s1" "case r of Some x \<Rightarrow> Q x v' | None \<Rightarrow> E v'" by (cases r) auto
  with run(1) show thesis by (auto simp: displays_def intro: that)
qed

lemma create_node_outcome:
  assumes v: "rep s v" "l \<in> lv_levels v" "l < 255"
    and ok: "level_ok (W l) (Cap l) (lv_known v l) (lv_nodes v l) (lv_chains v l) K" "anchored (lv_nodes v l)"
    and key: "ix_get_key_ref X data = Some owner"
    and p: "\<forall>q. parent = Some q \<longrightarrow> l + 1 \<in> lv_levels v \<and> nd_nid q \<in> lv_known v (l + 1)"
    and ns: "length ns \<le> W l" "distinct (map nd_nid ns)" "nd_nid ` set ns \<subseteq> dom (lv_nodes v l)"
  shows "\<exists>s' r w. IndexGraph_create_node X S trx parent l data ns s = Some (s', r) \<and> rep s' w \<and> lv_chains w = lv_chains v
    \<and> (case r of None \<Rightarrow> lv_nodes w = lv_nodes v | Some node \<Rightarrow> node_created (W l) (Cap l) l parent owner ns K v node w)"
proof -
  have u: "u8 (l + 1) = l + 1" using v(3) by simp
  have "spec v (IndexGraph_create_node X S trx parent l data ns) (created l v parent trx owner ns) (\<lambda>v'. v' = v)"
    by (rule spec_create_node [OF v(2,3) key]) (use p u in simp)
  from this v(1) obtain s' r w v' where run: "IndexGraph_create_node X S trx parent l data ns s = Some (s', r)"
    and w: "rep s' w" "knows_more v' w" and r: "case r of Some x \<Rightarrow> created l v parent trx owner ns x v' | None \<Rightarrow> v' = v"
    by (rule spec_outcome)
  have eq: "lv_nodes w = lv_nodes v'" "lv_chains w = lv_chains v'" "\<forall>l. lv_known v' l \<subseteq> lv_known w l" using w(2) by (auto simp: knows_more_def)
  show ?thesis
  proof (cases r)
    case None
    with r run w(1) eq show ?thesis by (intro exI [of _ s'] exI [of _ r] exI [of _ w]) simp
  next
    case (Some node)
    with r have c: "created l v parent trx owner ns node v'" by simp
    have lw: "lv_nodes w l = (lv_nodes v l)(nd_nid node \<mapsto> (False, trx, fresh_entry l (W l) (new_entry owner ns)))" using c eq(1) by (simp add: created_def)
    have n: "lv_nodes v l (nd_nid node) = None" "lv_chains w = lv_chains v" using c eq by (auto simp: created_def)
    have kn: "lv_known v l \<subseteq> lv_known w l" using c eq(3) unfolding created_def by blast
    have pr: "dom (lv_nodes v l) \<subseteq> lv_known v l" using present [OF v(1,2)] by simp
    have g: "\<forall>x\<in>set ns. good_id (nd_nid x)" using ids [OF v(1,2)] pr ns(3) by blast
    note new = new_node_ok [OF lw ok(1) n(1) kn ok(2) ns(1) g ns(2,3) pr]
    have "node_created (W l) (Cap l) l parent owner ns K v node w"
      unfolding node_created_def
    proof (intro conjI)
      show "nd_vid node = owner" "\<forall>l'. l' \<noteq> l \<and> (parent = None \<or> l' \<noteq> l + 1) \<longrightarrow> lv_nodes w l' = lv_nodes v l'"
        using c eq(1) u by (simp_all add: created_def)
      show "\<forall>q. parent = Some q \<longrightarrow> (\<exists>d t e. lv_nodes v (l + 1) (nd_nid q) = Some (d, t, e)
          \<and> lv_nodes w (l + 1) = (lv_nodes v (l + 1))(nd_nid q \<mapsto> (d, t, e\<lparr>ne_lower_level := nd_nid node\<rparr>)))"
        using c eq(1) u by (auto simp: created_def)
      show "lv_nodes w l = (lv_nodes v l)(nd_nid node := lv_nodes w l (nd_nid node))" "nd_nid node \<in> dom (lv_nodes w l)" by (simp_all add: lw)
      show "level_ok (W l) (Cap l) (lv_known w l) (lv_nodes w l) (lv_chains w l) (K(nd_nid node := []))" unfolding n(2) by (rule new(1))
    qed (use n(1) new(2-4) in simp_all)
    with run w(1) n(2) Some show ?thesis by (intro exI [of _ s'] exI [of _ r] exI [of _ w]) simp
  qed
qed

end

end
