(* ===== verification/Index_Hooks.thy ===== *)
theory Index_Hooks
  imports Index_Graph
begin

text \<open>
  The graph on the stores of an index, and the hooks of \<^verbatim>\<open>src/index/hnsw/storage.cc\<close> that change or search it:
  \<^verbatim>\<open>insert\<close>, \<^verbatim>\<open>mark_delete\<close>, \<^verbatim>\<open>purge\<close> and \<^verbatim>\<open>begin\<close>.
\<close>

subsection \<open>State\<close>

text \<open>The mutexes the thread holds: the one of the index, and for each level the one of the level and its operation mutex.\<close>

record held_locks =
  hl_graph :: "lock_mode option"
  hl_level :: "nat \<Rightarrow> lock_mode option"
  hl_operation :: "nat \<Rightarrow> lock_mode option"

definition no_locks :: held_locks where
  "no_locks = \<lparr>hl_graph = None, hl_level = (\<lambda>_. None), hl_operation = (\<lambda>_. None)\<rparr>"

record 'p index_state =
  st_env :: "'p env"
  st_store :: index_store
  st_locks :: held_locks

text \<open>
  What a call cannot choose: the concurrency counter of the column stores, the scratch buffer with whatever it holds, and what other
  threads do to the index while the thread waits for a mutex.
\<close>

record 'p surroundings =
  su_concurrency :: "'p index_state \<Rightarrow> nat"
  su_buffer :: "'p index_state \<Rightarrow> byte list"
  su_others :: "'p index_state \<Rightarrow> 'p index_state"

definition store_call :: "('p, 'a) iop \<Rightarrow> ('p index_state, 'a) scall" where
  "store_call m s = (case m (st_env s, st_store s) of ((env, st), r) \<Rightarrow>
     (s\<lparr>st_env := env, st_store := st\<rparr>, case r of Inl _ \<Rightarrow> None | Inr x \<Rightarrow> Some x))"

text \<open>An operation of the store of a level. There is no operation on a level that does not exist: the source dereferences the pointer
  \<^verbatim>\<open>get_level\<close> returns after an assertion.\<close>

definition on_level :: "nat \<Rightarrow> (level_store \<Rightarrow> ('p, 'a) op) \<Rightarrow> ('p, 'a) iop" where
  "on_level level m = ibind iget (\<lambda>st. case get_level st level of
     None \<Rightarrow> ifail (Assertion ''store != nullptr'') | Some ls \<Rightarrow> on_pages (\<lambda>_. m ls))"

definition level_call :: "nat \<Rightarrow> (level_store \<Rightarrow> ('p, 'a) op) \<Rightarrow> ('p index_state, 'a) scall" where
  "level_call level m = store_call (on_level level m)"

definition stored_graph :: "'p page_api \<Rightarrow> 64 word \<Rightarrow> 'p surroundings \<Rightarrow> 'p index_state graph_store" where
  "stored_graph P empty_ref U = \<lparr>
     gs_enter = (\<lambda>s. s\<lparr>st_env := (st_env s)\<lparr>latches := \<lambda>_. None\<rparr>\<rparr>),
     gs_leave = (\<lambda>s0 s. s\<lparr>st_env := (st_env s)\<lparr>latches := latches (st_env s0)\<rparr>\<rparr>),
     gs_max_neighbours = (\<lambda>s level. max_neighbours level (is_num_neighbours (st_store s))),
     gs_overflow_capacity = (\<lambda>s level. overflow_capacity level (is_num_neighbours (st_store s))),
     gs_fetch = (\<lambda>level nid upd entry fm filt. level_call level (\<lambda>ls. LevelStore_fetch P ls nid upd entry fm filt None)),
     gs_fetch_overflow = (\<lambda>level nid upd entry fm. level_call level (\<lambda>ls. LevelStore_fetch_overflow P ls nid upd entry fm None)),
     gs_insert = (\<lambda>level trx entry s. level_call level (\<lambda>ls. LevelStore_insert P ls (su_concurrency U s) trx entry) s),
     gs_insert_overflow = (\<lambda>level trx entry s. level_call level (\<lambda>ls. LevelStore_insert_overflow P ls (su_concurrency U s) trx entry) s),
     gs_update = (\<lambda>level nid entry fm slots s. level_call level (\<lambda>ls. LevelStore_update P ls (su_buffer U s) nid entry fm slots) s),
     gs_update_overflow = (\<lambda>level nid entry fm slots s. level_call level (\<lambda>ls. LevelStore_update_overflow P ls (su_buffer U s) nid entry fm slots) s),
     gs_remove = (\<lambda>level kind nid trx. level_call level (\<lambda>ls. LevelStore_remove P ls kind nid trx)),
     gs_mark_delete = (\<lambda>level nid trx mark. level_call level (\<lambda>ls. LevelStore_mark_delete P ls nid trx mark)),
     gs_entry_point = (\<lambda>s. is_entry_point (st_store s)),
     gs_entry_level = (\<lambda>s. is_entry_level (st_store s)),
     gs_set_entry_point = (\<lambda>node level. store_call (IndexStore_set_entry_point P empty_ref node level)),
     gs_ensure_levels = (\<lambda>level. store_call (ibind (IndexStore_ensure_levels P level) (\<lambda>r.
       case r of None \<Rightarrow> ifail (Assertion ''store == nullptr'') | Some _ \<Rightarrow> iret ()))),
     gs_num_neighbours = (\<lambda>s. is_num_neighbours (st_store s)),
     gs_ef_construction = (\<lambda>s. is_ef_construction (st_store s)),
     gs_lock_mutex = (\<lambda>mode s. (su_others U s)\<lparr>st_locks := (st_locks s)\<lparr>hl_graph := Some mode\<rparr>\<rparr>),
     gs_unlock_mutex = (\<lambda>mode s. s\<lparr>st_locks := (st_locks s)\<lparr>hl_graph := None\<rparr>\<rparr>),
     gs_lock_level_mutex = (\<lambda>level mode s. (su_others U s)\<lparr>st_locks := (st_locks s)\<lparr>hl_level := (hl_level (st_locks s))(level := Some mode)\<rparr>\<rparr>),
     gs_unlock_level_mutex = (\<lambda>level mode s. s\<lparr>st_locks := (st_locks s)\<lparr>hl_level := (hl_level (st_locks s))(level := None)\<rparr>\<rparr>),
     gs_lock_operation = (\<lambda>level mode s. (su_others U s)\<lparr>st_locks := (st_locks s)\<lparr>hl_operation := (hl_operation (st_locks s))(level := Some mode)\<rparr>\<rparr>),
     gs_unlock_operation = (\<lambda>level mode s. s\<lparr>st_locks := (st_locks s)\<lparr>hl_operation := (hl_operation (st_locks s))(level := None)\<rparr>\<rparr>)\<rparr>"

subsection \<open>Hooks\<close>

definition hook_insert ::
    "(hnsw_node, 'd :: linorder) candidate std_heap \<Rightarrow> ('p index_state, 'v, 'd) index_calls \<Rightarrow> 'p page_api \<Rightarrow> 64 word \<Rightarrow> 'p surroundings \<Rightarrow>
     trx_ref \<Rightarrow> 'v \<Rightarrow> ('p index_state, 64 word) gact" where
  "hook_insert H X P empty_ref U trx key =
     gbind (GraphOps_insert H (index_graph X (stored_graph P empty_ref U) trx) key) (\<lambda>top_node. gret (nd_nid top_node))"

text \<open>The record a key reference names, with its level.\<close>

definition locate_target :: "'p page_api \<Rightarrow> nid \<Rightarrow> ('p index_state, hnsw_node \<times> nat) gact" where
  "locate_target P nid =
     call (store_call (
       ibind (IndexStore_locate P nid) (\<lambda>(kind, level_store).
       case level_store of
         None \<Rightarrow> ifail (Assertion ''level_store == nullptr'')
       | Some ls \<Rightarrow> ibind (on_pages (\<lambda>_. LevelStore_resolve_owner P ls nid)) (\<lambda>target. iret (target, ls_level ls)))))"

definition hook_mark_delete ::
    "('p index_state, 'v, 'd) index_calls \<Rightarrow> 'p page_api \<Rightarrow> 64 word \<Rightarrow> 'p surroundings \<Rightarrow>
     trx_ref \<Rightarrow> 64 word \<Rightarrow> bool \<Rightarrow> ('p index_state, unit) gact" where
  "hook_mark_delete X P empty_ref U trx key_ref delete_mark =
     gbind (locate_target P key_ref) (\<lambda>(target, level).
     GraphOps_mark_delete (index_graph X (stored_graph P empty_ref U) trx) target level delete_mark)"

definition hook_purge ::
    "(hnsw_node, 'd :: linorder) candidate std_heap \<Rightarrow> ('p index_state, 'v, 'd) index_calls \<Rightarrow> 'p page_api \<Rightarrow> 64 word \<Rightarrow> 'p surroundings \<Rightarrow>
     trx_ref \<Rightarrow> 64 word \<Rightarrow> ('p index_state, unit) gact" where
  "hook_purge H X P empty_ref U trx key_ref =
     gbind (locate_target P key_ref) (\<lambda>(target, level).
     GraphOps_remove H (index_graph X (stored_graph P empty_ref U) trx) target level)"

text \<open>\<^verbatim>\<open>read_ef_search\<close>: the value of the session variable, the default when it cannot be read.\<close>

definition DEFAULT_EF_SEARCH :: int where "DEFAULT_EF_SEARCH = 40"
definition MIN_EF_SEARCH :: int where "MIN_EF_SEARCH = 1"
definition MAX_EF_SEARCH :: int where "MAX_EF_SEARCH = 65536"

definition read_ef_search :: "int option \<Rightarrow> int" where
  "read_ef_search var = (case var of None \<Rightarrow> DEFAULT_EF_SEARCH | Some v \<Rightarrow> v)"

text \<open>The result is the cursor and whether it is at its end. No transaction is involved.\<close>

definition hook_begin ::
    "(hnsw_node, 'd :: linorder) candidate std_heap \<Rightarrow> ('p index_state, 'v, 'd) index_calls \<Rightarrow> 'p page_api \<Rightarrow> 64 word \<Rightarrow> 'p surroundings \<Rightarrow>
     int option \<Rightarrow> 'v \<Rightarrow> nat \<Rightarrow> ('p index_state, cursor \<times> bool) gact" where
  "hook_begin H X P empty_ref U ef_var query k =
     (let ef_search = max k (nat (read_ef_search ef_var mod 2 ^ 32)) in
      gbind (GraphOps_search_knn H (index_graph X (stored_graph P empty_ref U) 0) query k ef_search) (\<lambda>nodes.
      let c = Cursor_init nodes in gret (c, Cursor_eof c)))"

end
