(* ===== verification/Store_Group.thy ===== *)
theory Store_Group
  imports Store_Lifecycle
begin

text \<open>
  Several column stores on one set of pages, as the stores of an index are: an operation on one store is the expected change of
  its records and leaves the records of the others alone. No API call fails here; an insertion may still find no new page.
\<close>

subsection \<open>The environment between calls\<close>

text \<open>
  \<open>calm C X s\<close>: no call fails, new pages really are new, the pages of \<open>X\<close> exist, and the hint of the thread is a slot of
  the store of \<open>C\<close> it belongs to.
\<close>

definition hint_within :: "column_store set \<Rightarrow> last_slot_info \<Rightarrow> bool" where
  "hint_within C i \<longleftrightarrow> (\<forall>c\<in>C. lsi_space_ref i = m_space_ref c \<and> lsi_page_ref i = m_root_page_ref c \<longrightarrow>
     lsi_next_free_rec_hint i < m_max_num_recs (m_data c))"

definition calm :: "column_store set \<Rightarrow> page_ref set \<Rightarrow> 'p env \<Rightarrow> bool" where
  "calm C X s \<longleftrightarrow> faults s = [] \<and> fresh_ok s \<and> (\<forall>x\<in>X. pages s x \<noteq> None) \<and> hint_within C (s_last_slot_info s)"

lemma calm_pages [keeps]:
  "preserves (calm C X) (load r l e)" "preserves (calm C X) (release r e)" "preserves (calm C X) (upd r f)"
  "preserves (calm C X) (take_fresh pg seg e)" "preserves (calm C X) (uniform_draw k)"
  "hint_within C i \<Longrightarrow> preserves (calm C X) (modify (\<lambda>s. s\<lparr>s_last_slot_info := i\<rparr>))"
  by (auto simp: preserves_def triple_def load_def release_def upd_def take_fresh_def uniform_draw_def modify_def api_call_def bind_op_def
      calm_def fresh_ok_def split: option.splits latch.splits list.splits)

lemma calm_load_new [keeps]: "preserves (calm C X) (load_new P seg e)"
  unfolding load_new_def by (intro keeps)

lemma calm_root_page [keeps]:
  "preserves (calm C X) (RootPage_add_free_page P rp root x k e)" "preserves (calm C X) (RootPage_remove_free_page P rp root x e)"
  "preserves (calm C X) (RootPage_add_data_page P rp root x e)" "preserves (calm C X) (RootPage_get_random_slot k)"
  unfolding RootPage_add_free_page_def RootPage_remove_free_page_def RootPage_add_data_page_def RootPage_get_random_slot_def
  by (intro keeps)+

lemma calm_select [keeps]:
  "\<forall>c\<in>C. 0 < m_max_num_recs (m_data c) \<Longrightarrow> preserves (calm C X) (RootPage_page_select P rp root sp)"
  "preserves (calm C X) (RootPage_get_free_slot P rp root)"
  unfolding RootPage_page_select_def RootPage_get_free_slot_def by (intro keeps, simp add: hint_within_def)+ (intro keeps)

lemma calm_store [keeps]:
  assumes n: "\<forall>c\<in>C. 0 < m_max_num_recs (m_data c)"
  shows "preserves (calm C X) (ColumnStore_select_page P cs conc)" "preserves (calm C X) (ColumnStore_fetch P cs r b)"
    "preserves (calm C X) (ColumnStore_update P cs r data ids sz)" "preserves (calm C X) (ColumnStore_mark_delete P cs trx r b)"
    "preserves (calm C X) (ColumnStore_purge P cs trx r)"
  unfolding ColumnStore_select_page_def ColumnStore_pessimistic_page_def ColumnStore_new_data_page_def ColumnStore_fetch_def ColumnStore_update_def
    ColumnStore_mark_delete_def ColumnStore_purge_def
  by (intro keeps n)+

lemma preservesD: "preserves I m \<Longrightarrow> I s \<Longrightarrow> m s = (s', r) \<Longrightarrow> I s'"
  by (auto simp: preserves_def triple_def split: sum.splits)

text \<open>An insertion leaves the hint at its own store.\<close>

lemma calm_insert_record:
  assumes I: "calm C X s" and at: "lsi_at cs s" and n: "0 < m_max_num_recs (m_data cs)"
    and C: "\<forall>c\<in>C. m_root_page_ref c = m_root_page_ref cs \<longrightarrow> m_data c = m_data cs"
    and run: "ColumnStore_insert_record P cs x trx data s = (s', r)"
  shows "calm C X s'"
proof -
  let ?i = "s_last_slot_info s"
  have h: "snd (snd (DataPage_insert P (m_data cs) trx data k pg)) < m_max_num_recs (m_data cs)" for k pg
    using n by (simp add: DataPage_insert_def Let_def)
  have w: "hint_within C (?i\<lparr>lsi_next_free_rec_hint := k\<rparr>)" if "k < m_max_num_recs (m_data cs)" for k
    using that at C by (auto simp: hint_within_def lsi_at_def)
  have "preserves (calm C X) (bind_op (peek x) (\<lambda>pg.
     let (pg', slot_index, hint_index) = DataPage_insert P (m_data cs) trx data (lsi_next_free_rec_hint ?i) pg in
     bind_op (upd x (\<lambda>_. pg')) (\<lambda>_.
     bind_op (modify (\<lambda>s. s\<lparr>s_last_slot_info := ?i\<lparr>lsi_next_free_rec_hint := hint_index\<rparr>\<rparr>)) (\<lambda>_.
     ret (DataPage_encode_column_ref x slot_index)))))"
    unfolding Let_def split_beta by (intro keeps w h)
  from preservesD [OF this I] run show ?thesis by (simp add: ColumnStore_insert_record_def bind_op_def gets_def)
qed

subsection \<open>A group of stores\<close>

definition owned :: "column_store \<Rightarrow> page_ref list \<Rightarrow> page_ref set" where
  "owned cs dl = insert (m_root_page_ref cs) (set dl)"

text \<open>The stores \<open>cs k\<close>, \<open>k \<in> K\<close>, have the data pages \<open>D k\<close> and share no page; \<open>X\<close> are pages that belong to none of them.\<close>

definition group_ok :: "'p page_api \<Rightarrow> ('k \<Rightarrow> column_store) \<Rightarrow> 'k set \<Rightarrow> page_ref set \<Rightarrow> ('k \<Rightarrow> page_ref list) \<Rightarrow> 'p env \<Rightarrow> bool" where
  "group_ok P cs K X D s \<longleftrightarrow> (\<forall>k\<in>K. \<exists>fl. store_inv P (cs k) (pages s) fl (D k))
     \<and> (\<forall>j\<in>K. \<forall>k\<in>K. j \<noteq> k \<longrightarrow> owned (cs j) (D j) \<inter> owned (cs k) (D k) = {})
     \<and> (\<forall>k\<in>K. owned (cs k) (D k) \<inter> X = {} \<and> pages s (m_primary_root_page_ref (cs k)) \<noteq> None)
     \<and> calm (cs ` K) X s"

definition group_slots :: "'p page_api \<Rightarrow> ('k \<Rightarrow> column_store) \<Rightarrow> ('k \<Rightarrow> page_ref list) \<Rightarrow> 'p env \<Rightarrow> 'k \<Rightarrow> page_ref \<times> nat \<Rightarrow> slot_state" where
  "group_slots P cs D s k = store_slots P (cs k) (pages s) (D k)"

context store_layout
begin

text \<open>A store depends on its own pages only.\<close>

lemma store_inv_frame:
  assumes "store_inv P cs m fl dl" "\<forall>x\<in>owned cs dl. m' x = m x"
  shows "store_inv P cs m' fl dl" "store_slots P cs m' dl = store_slots P cs m dl"
proof -
  have rl: "root_lists P (m_root cs) m (m_root_page_ref cs) fl dl" using assms(1) by (rule store_inv_lists)
  note r = root_lists_member [OF rl]
  have fl: "free_lists P (m_root cs) m (m_root_page_ref cs) fl" and dl: "data_list P (m_root cs) m (m_root_page_ref cs) dl"
    using rl by (auto simp: root_lists_def)
  have same: "m' x = m x" if "x \<in> set dl" for x using that assms(2) by (simp add: owned_def)
  have root: "m' (m_root_page_ref cs) = m (m_root_page_ref cs)" using assms(2) by (simp add: owned_def)
  have fls: "m' x = m x" if "x \<in> set (fl k)" for x k using same r(6) [OF that] by simp
  have "free_lists P (m_root cs) m' (m_root_page_ref cs) fl"
    by (rule free_lists_frame [OF fl]) (use r(1) r(3) [OF r(6)] fls root in auto)
  moreover have "data_list P (m_root cs) m' (m_root_page_ref cs) dl"
    by (rule data_list_frame [OF dl]) (use r(1,3) same root in auto)
  ultimately show "store_inv P cs m' fl dl" using assms(1) same fls by (auto simp: store_inv_def root_lists_def)
  show "store_slots P cs m' dl = store_slots P cs m dl" using same by (auto simp: store_slots_def fun_eq_iff)
qed

text \<open>An insertion with the environment it leaves behind.\<close>

lemma insert_calm:
  assumes si: "store_inv P cs (pages s) fl dl" and d4: "4 dvd m_max_num_recs (m_data cs)"
    and prim: "pages s (m_primary_root_page_ref cs) \<noteq> None" and len: "length bs = m_column_size (m_root cs)"
    and I: "calm C X s" and cs: "cs \<in> C" and C: "\<forall>c\<in>C. 0 < m_max_num_recs (m_data c) \<and> (m_root_page_ref c = m_root_page_ref cs \<longrightarrow> c = cs)"
    and run: "ColumnStore_insert P cs conc trx (Some bs) s = (s', r)"
  shows "calm C X s'" "case r of Inr x \<Rightarrow> ins_done P cs s dl trx bs x s' | Inl e \<Rightarrow> ins_error P cs s dl e s'"
proof -
  have ready: "insert_ready P cs dl s"
    using I prim d4 cs by (auto simp: insert_ready_def calm_def hint_within_def lsi_at_def hint_ok_def hint_safe_def)
  show "case r of Inr x \<Rightarrow> ins_done P cs s dl trx bs x s' | Inl e \<Rightarrow> ins_error P cs s dl e s'"
    using insert_outcome [OF si ready len, where concurrency = conc and trx = trx] run by (simp split: sum.splits)
  have D: "\<forall>x\<in>set dl. data_page_inv P (m_data cs) (the (pages s x))" using si by (simp add: store_inv_def)
  have A: "ins_state P cs s dl fl s \<and> (lsi_at cs s \<longrightarrow> hint_ok P cs (pages s) dl (lsi_next_free_rec_hint (s_last_slot_info s)))"
    using si ready store_ext_refl by (simp add: ins_state_def ins_base_def insert_ready_def)
  obtain s1 q where sel: "ColumnStore_select_page P cs conc s = (s1, q)" by (cases "ColumnStore_select_page P cs conc s")
  have I1: "calm C X s1" by (rule preservesD [OF calm_store(1) I sel]) (use C in blast)
  show "calm C X s'"
  proof (cases q)
    case (Inl e)
    with sel run len I1 show ?thesis by (simp add: ColumnStore_insert_def bind_op_def require_def ret_def)
  next
    case (Inr x)
    then have rec: "ColumnStore_insert_record P cs x trx bs s1 = (s', r)"
      using sel run len by (simp add: ColumnStore_insert_def bind_op_def require_def ret_def)
    have "ins_page P cs s dl x s1" using tripleD1 [OF select_page_triple [OF D] A] sel Inr by blast
    then have "lsi_at cs s1" by (auto simp: ins_page_def)
    then show ?thesis by (rule calm_insert_record [OF I1 _ _ _ rec]) (use C cs in auto)
  qed
qed

end

locale store_group =
  fixes P :: "'p page_api" and cs :: "'k \<Rightarrow> column_store" and K :: "'k set"
  assumes layouts: "k \<in> K \<Longrightarrow> store_layout P (cs k)" and quarters: "k \<in> K \<Longrightarrow> 4 dvd m_max_num_recs (m_data (cs k))"
begin

lemma room: "k \<in> K \<Longrightarrow> 0 < m_max_num_recs (m_data (cs k))"
  using data_layout.layout [OF store_layout.axioms(2) [OF layouts]] by (simp add: layout_ok_def)

lemma group_okD:
  assumes "group_ok P cs K X D s" "k \<in> K"
  obtains fl where "store_inv P (cs k) (pages s) fl (D k)" "owned (cs k) (D k) \<inter> X = {}" "pages s (m_primary_root_page_ref (cs k)) \<noteq> None"
    "calm (cs ` K) X s"
  using assms by (auto simp: group_ok_def)

text \<open>A change of one store, with new pages for it, is a change of the group.\<close>

lemma group_change:
  assumes g: "group_ok P cs K X D s" and k: "k \<in> K" and si: "store_inv P (cs k) (pages s') fl dl"
    and new: "set (D k) \<subseteq> set dl" "\<forall>x\<in>set dl - set (D k). pages s x = None"
    and others: "\<And>x. x \<notin> owned (cs k) dl \<Longrightarrow> pages s x \<noteq> None \<Longrightarrow> pages s' x = pages s x" and c: "calm (cs ` K) X s'"
  shows "group_ok P cs K X (D(k := dl)) s'" "j \<in> K \<Longrightarrow> j \<noteq> k \<Longrightarrow> group_slots P cs (D(k := dl)) s' j = group_slots P cs D s j"
proof -
  have ex: "pages s x \<noteq> None" if "j \<in> K" "x \<in> owned (cs j) (D j)" for j x
  proof -
    obtain fl where "store_inv P (cs j) (pages s) fl (D j)" using g \<open>j \<in> K\<close> by (rule group_okD)
    note m = store_layout.store_member(1,3) [OF layouts [OF \<open>j \<in> K\<close>] this]
    show ?thesis using that(2) m by (auto simp: owned_def)
  qed
  have exX: "pages s x \<noteq> None" if "x \<in> X" for x using g that by (auto simp: group_ok_def calm_def)
  have own: "owned (cs k) dl = owned (cs k) (D k) \<union> (set dl - set (D k))" using new(1) by (auto simp: owned_def)
  have dj: "owned (cs j) (D j) \<inter> owned (cs k) dl = {}" if "j \<in> K" "j \<noteq> k" for j
    using g that k ex [OF that(1)] new(2) unfolding own by (fastforce simp: group_ok_def)
  have oX: "owned (cs k) dl \<inter> X = {}" using g k exX new(2) unfolding own by (fastforce simp: group_ok_def)
  have keep: "\<forall>x\<in>owned (cs j) (D j). pages s' x = pages s x" if "j \<in> K" "j \<noteq> k" for j
    using others ex [OF that(1)] dj [OF that] by blast
  have inv: "\<exists>fl. store_inv P (cs j) (pages s') fl (D j)" if "j \<in> K" "j \<noteq> k" for j
  proof -
    obtain fl where fl: "store_inv P (cs j) (pages s) fl (D j)" using g \<open>j \<in> K\<close> by (rule group_okD)
    show ?thesis using store_layout.store_inv_frame(1) [OF layouts [OF \<open>j \<in> K\<close>] fl keep [OF that]] by blast
  qed
  have exists: "pages s' x \<noteq> None" if "pages s x \<noteq> None" for x
    using that others [of x] store_layout.store_member(1,3) [OF layouts [OF k] si] by (cases "x \<in> owned (cs k) dl") (auto simp: owned_def)
  have disj: "owned (cs i) ((D(k := dl)) i) \<inter> owned (cs j) ((D(k := dl)) j) = {}" if "i \<in> K" "j \<in> K" "i \<noteq> j" for i j
    using that dj g by (cases "i = k"; cases "j = k") (auto simp: group_ok_def)
  show "group_ok P cs K X (D(k := dl)) s'"
    unfolding group_ok_def using inv si disj c oX exists g by (auto simp: group_ok_def)
  show "group_slots P cs (D(k := dl)) s' j = group_slots P cs D s j" if "j \<in> K" "j \<noteq> k"
  proof -
    obtain fl where fl: "store_inv P (cs j) (pages s) fl (D j)" using g \<open>j \<in> K\<close> by (rule group_okD)
    show ?thesis using store_layout.store_inv_frame(2) [OF layouts [OF \<open>j \<in> K\<close>] fl keep [OF that]] that by (simp add: group_slots_def)
  qed
qed

lemma ref_at:
  assumes "k \<in> K" "store_ref (cs k) dl a"
  obtains x i where "a = DataPage_encode_column_ref x i" "x \<in> set dl" "i < m_max_num_recs (m_data (cs k))" "DataPage_decode_column_ref a = (x, i)"
proof -
  obtain x i where "a = DataPage_encode_column_ref x i" "x \<in> set dl" "i < m_max_num_recs (m_data (cs k))" using assms(2) by (auto simp: store_ref_def)
  with store_layout.col_ref_slot [OF layouts [OF assms(1)]] show thesis using that by simp
qed

text \<open>The operations on one store of the group. \<open>a\<close> is the reference of a record, \<open>group_slots\<close> the records before and after.\<close>

lemma group_insert:
  assumes g: "group_ok P cs K X D s" and k: "k \<in> K" and len: "length bs = m_column_size (m_root (cs k))"
    and run: "ColumnStore_insert P (cs k) conc trx (Some bs) s = (s', r)"
  obtains dl where "group_ok P cs K X (D(k := dl)) s'" "set (D k) \<subseteq> set dl"
    "\<forall>j\<in>K. j \<noteq> k \<longrightarrow> group_slots P cs (D(k := dl)) s' j = group_slots P cs D s j"
    "case r of Inl e \<Rightarrow> group_slots P cs (D(k := dl)) s' k = group_slots P cs D s k
      | Inr a \<Rightarrow> store_ref (cs k) dl a \<and> group_slots P cs D s k (DataPage_decode_column_ref a) = Free
          \<and> group_slots P cs (D(k := dl)) s' k = (group_slots P cs D s k)(DataPage_decode_column_ref a := Occupied False trx bs)"
proof -
  obtain fl where si: "store_inv P (cs k) (pages s) fl (D k)" and prim: "pages s (m_primary_root_page_ref (cs k)) \<noteq> None" and I: "calm (cs ` K) X s"
    using g k by (rule group_okD)
  have C: "\<forall>c\<in>cs ` K. 0 < m_max_num_recs (m_data c) \<and> (m_root_page_ref c = m_root_page_ref (cs k) \<longrightarrow> c = cs k)"
    using g k room by (fastforce simp: group_ok_def owned_def)
  note o = store_layout.insert_calm [OF layouts [OF k] si quarters [OF k] prim len I imageI [OF k] C run]
  show thesis
  proof (cases r)
    case (Inl e)
    with o(2) obtain fl' dl where n: "store_inv P (cs k) (pages s') fl' dl" and ex: "store_ext P (cs k) (pages s) (D k) (pages s') dl"
      by (auto simp: ins_error_def)
    have new: "set (D k) \<subseteq> set dl" "\<forall>x\<in>set dl - set (D k). pages s x = None" using ex by (auto simp: store_ext_def)
    have oth: "pages s' x = pages s x" if "x \<notin> owned (cs k) dl" "pages s x \<noteq> None" for x
      using store_ext_slots(3) [OF ex] that by (auto simp: others_kept_def owned_def)
    note c = group_change [OF g k n new oth o(1)]
    have "\<forall>j\<in>K. j \<noteq> k \<longrightarrow> group_slots P cs (D(k := dl)) s' j = group_slots P cs D s j" using c(2) by blast
    moreover have "group_slots P cs (D(k := dl)) s' k = group_slots P cs D s k" using store_ext_slots(1) [OF ex] by (simp add: group_slots_def)
    ultimately show thesis by (intro that [OF c(1) new(1)]) (simp_all add: Inl)
  next
    case (Inr a)
    with o(2) obtain x i fl' dl where a: "a = DataPage_encode_column_ref x i" "x \<in> set dl" "i < m_max_num_recs (m_data (cs k))"
      and n: "store_inv P (cs k) (pages s') fl' dl" and free: "store_slots P (cs k) (pages s) (D k) (x, i) = Free"
      and sl: "store_slots P (cs k) (pages s') dl = (store_slots P (cs k) (pages s) (D k))((x, i) := Occupied False trx bs)"
      and new: "set (D k) \<subseteq> set dl" "\<forall>x\<in>set dl - set (D k). pages s x = None" and ok: "others_kept (cs k) dl (pages s) (pages s')"
      unfolding ins_done_def by auto
    have oth: "pages s' x = pages s x" if "x \<notin> owned (cs k) dl" "pages s x \<noteq> None" for x
      using ok that by (auto simp: others_kept_def owned_def)
    note c = group_change [OF g k n new oth o(1)]
    have "store_ref (cs k) dl a" using a by (auto simp: store_ref_def)
    moreover have "DataPage_decode_column_ref a = (x, i)" using store_layout.col_ref_slot [OF layouts [OF k] a(3)] a(1) by simp
    moreover have "\<forall>j\<in>K. j \<noteq> k \<longrightarrow> group_slots P cs (D(k := dl)) s' j = group_slots P cs D s j" using c(2) by blast
    ultimately show thesis by (intro that [OF c(1) new(1)]) (use free sl Inr in \<open>simp_all add: group_slots_def\<close>)
  qed
qed

lemma group_fetch:
  assumes g: "group_ok P cs K X D s" and k: "k \<in> K" and a: "store_ref (cs k) (D k) a" and run: "ColumnStore_fetch P (cs k) a u s = (s', r)"
  shows "group_ok P cs K X D s'" "group_slots P cs D s' = group_slots P cs D s"
    "case group_slots P cs D s k (DataPage_decode_column_ref a) of Free \<Rightarrow> \<exists>e. r = Inl e | Occupied d t bs \<Rightarrow> r = Inr (bs, t, d)"
proof -
  obtain fl where si: "store_inv P (cs k) (pages s) fl (D k)" and I: "calm (cs ` K) X s" using g k by (rule group_okD)
  obtain x i where x: "a = DataPage_encode_column_ref x i" "x \<in> set (D k)" "i < m_max_num_recs (m_data (cs k))" "DataPage_decode_column_ref a = (x, i)"
    using k a by (rule ref_at)
  have ns: "\<forall>c\<in>cs ` K. 0 < m_max_num_recs (m_data c)" using room by auto
  have I': "calm (cs ` K) X s'" by (rule preservesD [OF calm_store(2) [OF ns] I run])
  have o: "pages s' = pages s" "r = (case store_slots P (cs k) (pages s) (D k) (x, i) of Free \<Rightarrow> Inl (Local ''fetch: slot %u is free'' [i])
      | Occupied d t bs \<Rightarrow> Inr (bs, t, d))"
    using store_layout.fetch_outcome [OF layouts [OF k] si x(2,3), of u] run I x(1) by (auto simp: calm_def)
  show "group_ok P cs K X D s'" using g I' o(1) by (simp add: group_ok_def)
  show "group_slots P cs D s' = group_slots P cs D s" by (simp add: fun_eq_iff group_slots_def o(1))
  show "case group_slots P cs D s k (DataPage_decode_column_ref a) of Free \<Rightarrow> \<exists>e. r = Inl e | Occupied d t bs \<Rightarrow> r = Inr (bs, t, d)"
    using o(2) x(4) by (simp add: group_slots_def split: slot_state.split)
qed

lemma group_rewrite:
  assumes g: "group_ok P cs K X D s" and k: "k \<in> K" and si: "\<exists>fl. store_inv P (cs k) (pages s') fl (D k)"
    and u: "untouched (m_root_page_ref (cs k)) (set (D k)) (pages s) (pages s')" and c: "calm (cs ` K) X s'"
    and sl: "store_slots P (cs k) (pages s') (D k) = f"
  shows "group_ok P cs K X D s'" "j \<in> K \<Longrightarrow> group_slots P cs D s' j = (if j = k then f else group_slots P cs D s j)"
proof -
  obtain fl where si: "store_inv P (cs k) (pages s') fl (D k)" using si by blast
  have oth: "pages s' x = pages s x" if "x \<notin> owned (cs k) (D k)" "pages s x \<noteq> None" for x
    using u that by (auto simp: untouched_def owned_def)
  note * = group_change [OF g k si _ _ oth c]
  show "group_ok P cs K X D s'" using *(1) by simp
  show "j \<in> K \<Longrightarrow> group_slots P cs D s' j = (if j = k then f else group_slots P cs D s j)"
    using *(2) [of j] sl by (cases "j = k") (simp_all add: group_slots_def)
qed

lemma group_update:
  assumes g: "group_ok P cs K X D s" and k: "k \<in> K" and a: "store_ref (cs k) (D k) a"
    and args: "chunk_ids \<noteq> []" "0 < chunk_size" "length data = m_column_size (m_root (cs k))"
    and ids: "sorted_wrt (<) chunk_ids" "\<forall>c\<in>set chunk_ids. c * chunk_size + chunk_size \<le> length data"
    and run: "ColumnStore_update P (cs k) a (Some data) chunk_ids chunk_size s = (s', r)"
  defines "b \<equiv> DataPage_decode_column_ref a"
  shows "group_ok P cs K X D s'" "case group_slots P cs D s k b of
      Free \<Rightarrow> (\<exists>e. r = Inl e) \<and> (\<forall>j\<in>K. group_slots P cs D s' j = group_slots P cs D s j)
    | Occupied d t old \<Rightarrow> r = Inr () \<and> (\<forall>j\<in>K. group_slots P cs D s' j = (if j = k
        then (group_slots P cs D s k)(b := Occupied d t (merge_chunks chunk_size chunk_ids data old)) else group_slots P cs D s j))"
proof -
  obtain fl where si: "store_inv P (cs k) (pages s) fl (D k)" and I: "calm (cs ` K) X s" using g k by (rule group_okD)
  obtain x i where x: "a = DataPage_encode_column_ref x i" "x \<in> set (D k)" "i < m_max_num_recs (m_data (cs k))" "DataPage_decode_column_ref a = (x, i)"
    using k a by (rule ref_at)
  have ns: "\<forall>c\<in>cs ` K. 0 < m_max_num_recs (m_data c)" using room by auto
  have I': "calm (cs ` K) X s'" by (rule preservesD [OF calm_store(3) [OF ns] I run])
  have nf: "faults s = []" using I by (simp add: calm_def)
  note o = store_layout.update_outcome [OF layouts [OF k] si x(2,3) args ids]
  let ?f = "group_slots P cs D s k"
  have "group_ok P cs K X D s' \<and> (case ?f b of
      Free \<Rightarrow> (\<exists>e. r = Inl e) \<and> (\<forall>j\<in>K. group_slots P cs D s' j = group_slots P cs D s j)
    | Occupied d t old \<Rightarrow> r = Inr () \<and> (\<forall>j\<in>K. group_slots P cs D s' j = (if j = k
        then ?f(b := Occupied d t (merge_chunks chunk_size chunk_ids data old)) else group_slots P cs D s j)))"
  proof (cases r)
    case (Inl e)
    with o run nf x(1) have p: "pages s' = pages s" "store_slots P (cs k) (pages s) (D k) (x, i) = Free" by auto
    have "group_ok P cs K X D s'" using g I' p(1) by (simp add: group_ok_def)
    with p x(4) Inl show ?thesis by (simp add: b_def group_slots_def)
  next
    case (Inr y)
    with o run x(1) obtain d t old where p: "store_inv P (cs k) (pages s') fl (D k)" "store_slots P (cs k) (pages s) (D k) (x, i) = Occupied d t old"
      "store_slots P (cs k) (pages s') (D k) = (store_slots P (cs k) (pages s) (D k))((x, i) := Occupied d t (merge_chunks chunk_size chunk_ids data old))"
      and u: "\<forall>y. y \<noteq> x \<longrightarrow> pages s' y = pages s y" by auto
    have u': "untouched (m_root_page_ref (cs k)) (set (D k)) (pages s) (pages s')" using u x(2) by (auto simp: untouched_def)
    have "\<exists>fl. store_inv P (cs k) (pages s') fl (D k)" using p(1) by blast
    note rw = group_rewrite [OF g k this u' I' p(3)]
    have f: "?f b = Occupied d t old" "(store_slots P (cs k) (pages s) (D k))((x, i) := Occupied d t (merge_chunks chunk_size chunk_ids data old))
        = ?f(b := Occupied d t (merge_chunks chunk_size chunk_ids data old))" using p(2) x(4) by (simp_all add: b_def group_slots_def)
    show ?thesis using rw Inr unfolding f by simp
  qed
  then show "group_ok P cs K X D s'" "case ?f b of
      Free \<Rightarrow> (\<exists>e. r = Inl e) \<and> (\<forall>j\<in>K. group_slots P cs D s' j = group_slots P cs D s j)
    | Occupied d t old \<Rightarrow> r = Inr () \<and> (\<forall>j\<in>K. group_slots P cs D s' j = (if j = k
        then ?f(b := Occupied d t (merge_chunks chunk_size chunk_ids data old)) else group_slots P cs D s j))" by blast+
qed

lemma group_mark:
  assumes g: "group_ok P cs K X D s" and k: "k \<in> K" and a: "store_ref (cs k) (D k) a" and run: "ColumnStore_mark_delete P (cs k) trx a mk s = (s', r)"
  defines "b \<equiv> DataPage_decode_column_ref a"
  shows "group_ok P cs K X D s'" "r = Inr ()"
    "j \<in> K \<Longrightarrow> group_slots P cs D s' j = (if j = k then (group_slots P cs D s k)(b := marked_slot mk trx (group_slots P cs D s k b)) else group_slots P cs D s j)"
proof -
  obtain fl where si: "store_inv P (cs k) (pages s) fl (D k)" and I: "calm (cs ` K) X s" using g k by (rule group_okD)
  obtain x i where x: "a = DataPage_encode_column_ref x i" "x \<in> set (D k)" "i < m_max_num_recs (m_data (cs k))" "DataPage_decode_column_ref a = (x, i)"
    using k a by (rule ref_at)
  have ns: "\<forall>c\<in>cs ` K. 0 < m_max_num_recs (m_data c)" using room by auto
  have I': "calm (cs ` K) X s'" by (rule preservesD [OF calm_store(4) [OF ns] I run])
  have nf: "faults s = []" using I by (simp add: calm_def)
  note o = store_layout.mark_delete_outcome [OF layouts [OF k] si x(2,3), where trx = trx and delete_mark = mk]
  show r: "r = Inr ()" using o run nf x(1) by (cases r) auto
  have p: "store_inv P (cs k) (pages s') fl (D k)" "\<forall>y. y \<noteq> x \<longrightarrow> pages s' y = pages s y"
    "store_slots P (cs k) (pages s') (D k) = (store_slots P (cs k) (pages s) (D k))((x, i) := marked_slot mk trx (store_slots P (cs k) (pages s) (D k) (x, i)))"
    using o run x(1) r by auto
  have u: "untouched (m_root_page_ref (cs k)) (set (D k)) (pages s) (pages s')" using p(2) x(2) by (auto simp: untouched_def)
  have "\<exists>fl. store_inv P (cs k) (pages s') fl (D k)" using p(1) by blast
  note rw = group_rewrite [OF g k this u I' p(3)]
  show "group_ok P cs K X D s'" by (rule rw(1))
  show "j \<in> K \<Longrightarrow> group_slots P cs D s' j = (if j = k then (group_slots P cs D s k)(b := marked_slot mk trx (group_slots P cs D s k b)) else group_slots P cs D s j)"
    using rw(2) [of j] x(4) by (simp add: b_def group_slots_def [of P cs D s k])
qed

lemma group_purge:
  assumes g: "group_ok P cs K X D s" and k: "k \<in> K" and a: "store_ref (cs k) (D k) a" and run: "ColumnStore_purge P (cs k) trx a s = (s', r)"
  shows "group_ok P cs K X D s'" "r = Inr ()"
    "j \<in> K \<Longrightarrow> group_slots P cs D s' j = (if j = k then purged_slots trx (DataPage_decode_column_ref a) (group_slots P cs D s k) else group_slots P cs D s j)"
proof -
  obtain fl where si: "store_inv P (cs k) (pages s) fl (D k)" and I: "calm (cs ` K) X s" using g k by (rule group_okD)
  obtain x i where x: "a = DataPage_encode_column_ref x i" "x \<in> set (D k)" "i < m_max_num_recs (m_data (cs k))" "DataPage_decode_column_ref a = (x, i)"
    using k a by (rule ref_at)
  have ns: "\<forall>c\<in>cs ` K. 0 < m_max_num_recs (m_data c)" using room by auto
  have I': "calm (cs ` K) X s'" by (rule preservesD [OF calm_store(5) [OF ns] I run])
  have nf: "faults s = []" using I by (simp add: calm_def)
  note o = store_layout.purge_outcome [OF layouts [OF k] si x(2,3), where trx = trx]
  show r: "r = Inr ()" using o run nf x(1) by (cases r) (auto simp: purge_error_def)
  have p: "\<exists>fl. store_inv P (cs k) (pages s') fl (D k)" "untouched (m_root_page_ref (cs k)) (set (D k)) (pages s) (pages s')"
    "store_slots P (cs k) (pages s') (D k) = purged_slots trx (x, i) (store_slots P (cs k) (pages s) (D k))"
    using o run x(1) r by (auto simp: store_kept_def)
  show "group_ok P cs K X D s'" by (rule group_rewrite(1) [OF g k p(1,2) I' p(3)])
  show "j \<in> K \<Longrightarrow> group_slots P cs D s' j = (if j = k then purged_slots trx (DataPage_decode_column_ref a) (group_slots P cs D s k) else group_slots P cs D s j)"
    using group_rewrite(2) [OF g k p(1,2) I' p(3), of j] x(4) by (simp add: group_slots_def [of P cs D s k])
qed

end

end
