(* ===== verification/Stored_Levels.thy ===== *)
theory Stored_Levels
  imports Graph_Nodes Index_Hooks Store_Group
begin

text \<open>
  The level stores of an index keep the contract \<open>graph_levels\<close>: what the graph operations do to the links is what happens to the
  records on the pages.
\<close>

subsection \<open>Records and entries\<close>

lemma entry_view_eq: "entry_view (ls_level ls) u e0 fm filt old = view_entry ls u e0 fm filt None old"
  by (simp add: entry_view_def view_entry_def Let_def)

lemma fresh_entry_eq: "fresh_entry (ls_level ls) (LevelStore_max_neighbours ls) e = stored_entry ls e"
  by (simp add: fresh_entry_def stored_entry_def)

lemma overflow_view_decode:
  "decode_overflow_entry ls u e0 fm None bs = overflow_view u e0 fm (overflow_of ls bs)"
  by (cases e0) (simp add: decode_overflow_entry_def overflow_view_def overflow_of_def empty_overflow_entry_def OverflowFieldAll_def Let_def)

lemma length_overflow_bytes: "level_sizes ls \<Longrightarrow> length (overflow_bytes ls e) = m_column_size (m_root (ls_overflow ls))"
  unfolding overflow_bytes_words length_ids_bytes by (simp add: overflow_words_def overflow_size)

lemma overflow_of_bytes:
  assumes "level_sizes ls"
  shows "overflow_of ls (overflow_bytes ls e) = fresh_overflow (LevelStore_overflow_capacity ls) e"
proof -
  have "length (overflow_bytes ls e) = (LevelStore_overflow_capacity ls + 1) * CHUNK_SIZE"
    using length_overflow_bytes [OF assms] overflow_size [OF assms] by simp
  from overflow_of_ids [OF this] show ?thesis
    unfolding overflow_bytes_words record_ids_bytes by (simp add: overflow_words_def fresh_overflow_def comp_def if_distrib cong: if_cong)
qed

text \<open>The chunks of an update of an overflow record.\<close>

lemma overflow_merge:
  fixes e :: overflow_entry and fm :: field_mask
  assumes ls: "level_sizes ls" and buf: "m_column_size (m_root (ls_overflow ls)) \<le> length buf"
    and slots: "sorted_wrt (<) slots" "\<forall>slot\<in>set slots. slot < LevelStore_overflow_capacity ls"
  defines "k \<equiv> m_column_size (m_root (ls_overflow ls))"
    and "data \<equiv> take (m_column_size (m_root (ls_overflow ls))) (fold write_chunk (overflow_writes ls e fm slots) buf)"
    and "ids \<equiv> map fst (overflow_writes ls e fm slots)"
  shows "length data = k" "good_chunks k data ids CHUNK_SIZE"
    "length old = k \<Longrightarrow> overflow_of ls (merge_chunks CHUNK_SIZE ids data old) = patch_overflow e fm slots (overflow_of ls old)"
proof -
  let ?n = "LevelStore_overflow_capacity ls" and ?ws = "overflow_writes ls e fm slots"
  let ?ss = "take (length (oe_incoming e)) slots"
  have k: "k = (?n + 1) * CHUNK_SIZE" unfolding k_def by (rule overflow_size [OF ls])
  have m: "ids = (if has_field fm OverflowField_Incoming then ?ss else []) @ (if has_field fm OverflowField_Overflow then [?n] else [])"
    by (simp add: ids_def overflow_writes_def overflow_chunk_capacity incoming_chunk_def comp_def split_beta map_fst_zip_take min_def)
  have ss: "sorted_wrt (<) ?ss" "\<forall>slot\<in>set ?ss. slot < ?n" using slots by (auto simp: sorted_wrt_take dest: in_set_takeD)
  have c: "\<forall>c\<in>set ids. c < ?n + 1" "sorted_wrt (<) ids" unfolding m using ss by (auto simp: sorted_wrt_append)
  have bound: "c * CHUNK_SIZE + CHUNK_SIZE \<le> k" if "c \<in> set ids" for c
  proof -
    have "Suc c * CHUNK_SIZE \<le> (?n + 1) * CHUNK_SIZE" using c(1) that by (intro mult_right_mono) auto
    then show ?thesis by (simp add: k)
  qed
  have "\<forall>w\<in>set ?ws. (fst w + 1) * CHUNK_SIZE \<le> length buf"
    using bound buf unfolding ids_def by (fastforce simp: algebra_simps k_def)
  from fold_write_chunk(1) [OF this] buf show len: "length data = k" by (simp add: data_def k_def)
  show "good_chunks k data ids CHUNK_SIZE" using c bound len by (auto simp: good_chunks_def layout_defs)
  show "overflow_of ls (merge_chunks CHUNK_SIZE ids data old) = patch_overflow e fm slots (overflow_of ls old)" if "length old = k"
    using overflow_patch [of old ls buf slots e fm] that buf k slots(2) by (simp add: ids_def data_def k_def)
qed

lemma writes_nonempty:
  "writes_something e fm slots \<Longrightarrow> neighbour_writes ls e fm slots \<noteq> []"
  "writes_overflow oe fm slots \<Longrightarrow> overflow_writes ls oe fm slots \<noteq> []"
  by (cases slots; cases "ne_neighbours e"; auto simp: writes_something_def neighbour_writes_def Let_def)
     (cases slots; cases "oe_incoming oe"; auto simp: writes_overflow_def overflow_writes_def)

subsection \<open>The contract\<close>

text \<open>
  \<open>lev l\<close> is the store object of level \<open>l\<close>, for the levels \<open>L\<close> that exist. Page \<open>0\<close> of a space holds its header and is never
  handed out, so no record has the invalid id.
\<close>

definition level_cs :: "(nat \<Rightarrow> level_store) \<Rightarrow> nat \<times> store_kind \<Rightarrow> column_store" where
  "level_cs ls = (\<lambda>(l, kind). if kind = Kind_Neighbour then ls_store (ls l) else ls_overflow (ls l))"

definition slot_overflow :: "level_store \<Rightarrow> slot_state \<Rightarrow> (trx_ref \<times> overflow_entry) option" where
  "slot_overflow ls v = (case v of Free \<Rightarrow> None | Occupied d t bs \<Rightarrow> Some (t, overflow_of ls bs))"

text \<open>An id that is the reference of some location.\<close>

definition canonical :: "64 word \<Rightarrow> bool" where
  "canonical n \<longleftrightarrow> (case DataPage_decode_column_ref n of (x, i) \<Rightarrow> n = DataPage_encode_column_ref x i)"

definition pages_view :: "'p page_api \<Rightarrow> (nat \<Rightarrow> level_store) \<Rightarrow> nat set \<Rightarrow> (nat \<times> store_kind \<Rightarrow> page_ref list) \<Rightarrow> 'p env \<Rightarrow> level_view" where
  "pages_view P ls L D s = \<lparr>lv_levels = L,
     lv_known = (\<lambda>l. {n. l \<in> L \<and> store_ref (level_cs ls (l, Kind_Neighbour)) (D (l, Kind_Neighbour)) n}),
     lv_oknown = (\<lambda>l. {n. l \<in> L \<and> store_ref (level_cs ls (l, Kind_Overflow)) (D (l, Kind_Overflow)) n}),
     lv_nodes = (\<lambda>l n. if l \<in> L \<and> canonical n
        then slot_node (ls l) (group_slots P (level_cs ls) D s (l, Kind_Neighbour) (DataPage_decode_column_ref n)) else None),
     lv_chains = (\<lambda>l p. if l \<in> L \<and> canonical p
        then slot_overflow (ls l) (group_slots P (level_cs ls) D s (l, Kind_Overflow) (DataPage_decode_column_ref p)) else None)\<rparr>"

definition stored_view :: "'p page_api \<Rightarrow> (nat \<Rightarrow> level_store) \<Rightarrow> nat set \<Rightarrow> nat \<Rightarrow> 'p index_state \<Rightarrow> level_view \<Rightarrow> bool" where
  "stored_view P ls L M s v \<longleftrightarrow> is_num_neighbours (st_store s) = M \<and> (\<forall>l\<in>L. get_level (st_store s) l = Some (ls l))
     \<and> (\<exists>D. group_ok P (level_cs ls) (L \<times> UNIV) {0} D (st_env s) \<and> v = pages_view P ls L D (st_env s))"

locale level_group =
  fixes P :: "'p page_api" and empty_ref :: "64 word" and U :: "'p surroundings" and ls :: "nat \<Rightarrow> level_store" and L :: "nat set" and M :: nat
  assumes M: "2 \<le> M" "M \<le> 128"
    and levels: "l \<in> L \<Longrightarrow> ls_level (ls l) = l \<and> ls_num_neighbours (ls l) = M \<and> level_sizes (ls l)"
    and level_layouts: "l \<in> L \<Longrightarrow> store_layout P (ls_store (ls l)) \<and> store_layout P (ls_overflow (ls l))"
    and level_quarters: "l \<in> L \<Longrightarrow> 4 dvd m_max_num_recs (m_data (ls_store (ls l))) \<and> 4 dvd m_max_num_recs (m_data (ls_overflow (ls l)))"
    and buffers: "l \<in> L \<Longrightarrow> m_column_size (m_root (ls_store (ls l))) \<le> length (su_buffer U s) \<and> m_column_size (m_root (ls_overflow (ls l))) \<le> length (su_buffer U s)"
begin

sublocale store_group P "level_cs ls" "L \<times> UNIV"
proof (rule store_group.intro)
  fix k :: "nat \<times> store_kind" assume "k \<in> L \<times> UNIV"
  then show "store_layout P (level_cs ls k)" "4 dvd m_max_num_recs (m_data (level_cs ls k))"
    using level_layouts level_quarters by (auto simp: level_cs_def split: if_splits prod.splits)
qed

lemma level_call_run:
  assumes "stored_view P ls L M s v" "l \<in> L"
  shows "level_call l m s = (case m (ls l) (st_env s) of (env, r) \<Rightarrow> (s\<lparr>st_env := env\<rparr>, case r of Inl _ \<Rightarrow> None | Inr x \<Rightarrow> Some x))"
  using assms by (simp add: stored_view_def level_call_def store_call_def on_level_def ibind_def iget_def on_pages_def split: prod.split)

lemma ref_facts:
  assumes "l \<in> L" "store_ref (level_cs ls (l, kind)) dl n"
  shows "nid_column_ref n = n" "unat n < 2 ^ 46" "canonical n"
proof -
  have k: "(l, kind) \<in> L \<times> UNIV" using assms(1) by simp
  from node_loc_ref(1,2) [OF layouts [OF k] assms(2)] show "nid_column_ref n = n" "unat n < 2 ^ 46" by simp_all
  obtain x i where "n = DataPage_encode_column_ref x i" "DataPage_decode_column_ref n = (x, i)" using k assms(2) by (rule ref_at)
  then show "canonical n" by (simp add: canonical_def)
qed

lemma canonical_inj: "canonical n \<Longrightarrow> canonical n' \<Longrightarrow> DataPage_decode_column_ref n = DataPage_decode_column_ref n' \<longleftrightarrow> n = n'"
  unfolding canonical_def split_beta by metis

lemma slot_ref:
  assumes "l \<in> L" "canonical n" "group_slots P (level_cs ls) D s (l, kind) (DataPage_decode_column_ref n) \<noteq> Free"
  shows "store_ref (level_cs ls (l, kind)) (D (l, kind)) n"
proof -
  obtain x i where d: "DataPage_decode_column_ref n = (x, i)" by (cases "DataPage_decode_column_ref n")
  with assms(2) have "n = DataPage_encode_column_ref x i" by (simp add: canonical_def)
  moreover have "x \<in> set (D (l, kind)) \<and> i < m_max_num_recs (m_data (level_cs ls (l, kind)))"
    using assms(3) d by (simp add: group_slots_def store_slots_def split: if_splits)
  ultimately show ?thesis unfolding store_ref_def by blast
qed

text \<open>What a change of one record does to the view.\<close>

lemma view_node_step:
  assumes "l \<in> L" "canonical n" and D: "\<And>k. k \<in> L \<times> UNIV \<Longrightarrow> set (D k) \<subseteq> set (D' k)"
    and slots: "\<And>j. j \<in> L \<times> UNIV \<Longrightarrow> group_slots P (level_cs ls) D' s' j = (if j = (l, Kind_Neighbour)
      then (group_slots P (level_cs ls) D s j)(DataPage_decode_column_ref n := v) else group_slots P (level_cs ls) D s j)"
  shows "knows_more (with_nodes l ((lv_nodes (pages_view P ls L D s) l)(n := slot_node (ls l) v)) (pages_view P ls L D s)) (pages_view P ls L D' s')"
    "D' = D \<Longrightarrow> pages_view P ls L D s' = with_nodes l ((lv_nodes (pages_view P ls L D s) l)(n := slot_node (ls l) v)) (pages_view P ls L D s)"
proof -
  let ?v = "with_nodes l ((lv_nodes (pages_view P ls L D s) l)(n := slot_node (ls l) v)) (pages_view P ls L D s)"
  have n: "lv_nodes (pages_view P ls L D' s') = lv_nodes ?v"
    using canonical_inj [OF _ assms(2)] assms(1,2) by (intro ext) (auto simp: pages_view_def with_nodes_def slots)
  have c: "lv_chains (pages_view P ls L D' s') = lv_chains ?v"
    by (intro ext) (auto simp: pages_view_def with_nodes_def slots)
  have "store_ref (level_cs ls (l', kind)) (D' (l', kind)) m" if "l' \<in> L" "store_ref (level_cs ls (l', kind)) (D (l', kind)) m" for l' kind m
    using store_ref_mono [OF that(2) D] that(1) by simp
  then show "knows_more ?v (pages_view P ls L D' s')" using n c by (auto simp: knows_more_def) (auto simp: pages_view_def with_nodes_def)
  show "pages_view P ls L D s' = ?v" if "D' = D"
    using n c that by (intro level_view.equality) (simp_all add: pages_view_def with_nodes_def)
qed

lemma view_chain_step:
  assumes "l \<in> L" "canonical p" and D: "\<And>k. k \<in> L \<times> UNIV \<Longrightarrow> set (D k) \<subseteq> set (D' k)"
    and slots: "\<And>j. j \<in> L \<times> UNIV \<Longrightarrow> group_slots P (level_cs ls) D' s' j = (if j = (l, Kind_Overflow)
      then (group_slots P (level_cs ls) D s j)(DataPage_decode_column_ref p := v) else group_slots P (level_cs ls) D s j)"
  shows "knows_more (with_chains l ((lv_chains (pages_view P ls L D s) l)(p := slot_overflow (ls l) v)) (pages_view P ls L D s)) (pages_view P ls L D' s')"
    "D' = D \<Longrightarrow> pages_view P ls L D s' = with_chains l ((lv_chains (pages_view P ls L D s) l)(p := slot_overflow (ls l) v)) (pages_view P ls L D s)"
proof -
  let ?v = "with_chains l ((lv_chains (pages_view P ls L D s) l)(p := slot_overflow (ls l) v)) (pages_view P ls L D s)"
  have n: "lv_nodes (pages_view P ls L D' s') = lv_nodes ?v"
    by (intro ext) (auto simp: pages_view_def with_chains_def slots)
  have c: "lv_chains (pages_view P ls L D' s') = lv_chains ?v"
    using canonical_inj [OF _ assms(2)] assms(1,2) by (intro ext) (auto simp: pages_view_def with_chains_def slots)
  have "store_ref (level_cs ls (l', kind)) (D' (l', kind)) m" if "l' \<in> L" "store_ref (level_cs ls (l', kind)) (D (l', kind)) m" for l' kind m
    using store_ref_mono [OF that(2) D] that(1) by simp
  then show "knows_more ?v (pages_view P ls L D' s')" using n c by (auto simp: knows_more_def) (auto simp: pages_view_def with_chains_def)
  show "pages_view P ls L D s' = ?v" if "D' = D"
    using n c that by (intro level_view.equality) (simp_all add: pages_view_def with_chains_def)
qed

lemma view_same:
  assumes D: "\<And>k. k \<in> L \<times> UNIV \<Longrightarrow> set (D k) \<subseteq> set (D' k)"
    and slots: "\<And>j. j \<in> L \<times> UNIV \<Longrightarrow> group_slots P (level_cs ls) D' s' j = group_slots P (level_cs ls) D s j"
  shows "knows_more (pages_view P ls L D s) (pages_view P ls L D' s')" "D' = D \<Longrightarrow> pages_view P ls L D s' = pages_view P ls L D s"
proof -
  let ?v = "pages_view P ls L D s"
  have n: "lv_nodes (pages_view P ls L D' s') = lv_nodes ?v" "lv_chains (pages_view P ls L D' s') = lv_chains ?v"
    by (intro ext, auto simp: pages_view_def slots)+
  have "store_ref (level_cs ls (l', kind)) (D' (l', kind)) m" if "l' \<in> L" "store_ref (level_cs ls (l', kind)) (D (l', kind)) m" for l' kind m
    using store_ref_mono [OF that(2) D] that(1) by simp
  then show "knows_more ?v (pages_view P ls L D' s')" using n by (auto simp: knows_more_def) (auto simp: pages_view_def)
  show "pages_view P ls L D s' = ?v" if "D' = D"
    using n that by (intro level_view.equality) (simp_all add: pages_view_def)
qed

lemma stored_viewE:
  assumes "stored_view P ls L M s v"
  obtains D where "group_ok P (level_cs ls) (L \<times> UNIV) {0} D (st_env s)" "v = pages_view P ls L D (st_env s)"
  using assms by (auto simp: stored_view_def)

lemma stored_viewI:
  assumes "stored_view P ls L M s v" "group_ok P (level_cs ls) (L \<times> UNIV) {0} D env"
  shows "stored_view P ls L M (s\<lparr>st_env := env\<rparr>) (pages_view P ls L D env)"
  using assms by (auto simp: stored_view_def)

lemma viewD:
  assumes "v = pages_view P ls L D env"
  shows "l \<in> lv_levels v \<longleftrightarrow> l \<in> L" "n \<in> lv_known v l \<Longrightarrow> store_ref (level_cs ls (l, Kind_Neighbour)) (D (l, Kind_Neighbour)) n"
    "p \<in> lv_oknown v l \<Longrightarrow> store_ref (level_cs ls (l, Kind_Overflow)) (D (l, Kind_Overflow)) p"
    "l \<in> L \<Longrightarrow> canonical n \<Longrightarrow> lv_nodes v l n = slot_node (ls l) (group_slots P (level_cs ls) D env (l, Kind_Neighbour) (DataPage_decode_column_ref n))"
    "l \<in> L \<Longrightarrow> canonical p \<Longrightarrow> lv_chains v l p = slot_overflow (ls l) (group_slots P (level_cs ls) D env (l, Kind_Overflow) (DataPage_decode_column_ref p))"
  using assms by (auto simp: pages_view_def)

lemma cs_simps [simp]: "level_cs ls (l, Kind_Neighbour) = ls_store (ls l)" "level_cs ls (l, Kind_Overflow) = ls_overflow (ls l)"
  by (simp_all add: level_cs_def)

lemma sizes_of:
  assumes "l \<in> L"
  shows "ls_level (ls l) = l" "level_sizes (ls l)" "LevelStore_max_neighbours (ls l) = max_neighbours l M" "LevelStore_overflow_capacity (ls l) = overflow_capacity l M"
  using levels [OF assms] by (simp_all add: LevelStore_max_neighbours_def LevelStore_overflow_capacity_def)

lemma slot_length:
  assumes "l \<in> L" "group_slots P (level_cs ls) D s (l, kind) b = Occupied d t bs"
  shows "length bs = m_column_size (m_root (level_cs ls (l, kind)))"
  using store_slots_length [OF layouts [of "(l, kind)"]] assms by (simp add: group_slots_def)

subsection \<open>The operations keep the contract\<close>

lemma stored_fetch:
  assumes v: "stored_view P ls L M s v" "l \<in> lv_levels v" "n \<in> lv_known v l"
    and run: "level_call l (\<lambda>ls. LevelStore_fetch P ls n u e0 fm filt None) s = (s', r)"
  shows "stored_view P ls L M s' v \<and> r = map_option (\<lambda>(d, t, e). entry_view l u e0 fm filt e) (lv_nodes v l n)"
proof -
  obtain D where g: "group_ok P (level_cs ls) (L \<times> UNIV) {0} D (st_env s)" and w: "v = pages_view P ls L D (st_env s)" using v(1) by (rule stored_viewE)
  have l: "l \<in> L" and a: "store_ref (ls_store (ls l)) (D (l, Kind_Neighbour)) n" using viewD(1,2) [OF w] v(2,3) by auto
  note rf = ref_facts [of l Kind_Neighbour "D (l, Kind_Neighbour)" n, OF l] and z = sizes_of [OF l]
  obtain env q where f: "ColumnStore_fetch P (ls_store (ls l)) n u (st_env s) = (env, q)" by (cases "ColumnStore_fetch P (ls_store (ls l)) n u (st_env s)")
  have k: "(l, Kind_Neighbour) \<in> L \<times> UNIV" using l by simp
  note gf = group_fetch [OF g k, unfolded cs_simps, OF a f]
  have same: "pages_view P ls L D env = v" using view_same(2) [of D D env "st_env s"] gf(2) w by simp
  have sv: "stored_view P ls L M (s\<lparr>st_env := env\<rparr>) v" using stored_viewI [OF v(1) gf(1)] same by simp
  have lf: "LevelStore_fetch P (ls l) n u e0 fm filt None (st_env s) = (env, map_sum id (\<lambda>(bs, t, d). decode_neighbour_entry (ls l) u e0 fm filt None bs) q)"
    using f rf(1) a by (simp add: LevelStore_fetch_def bind_op_def ret_def map_sum_def split: sum.split prod.split)
  have lv: "lv_nodes v l n = slot_node (ls l) (group_slots P (level_cs ls) D (st_env s) (l, Kind_Neighbour) (DataPage_decode_column_ref n))"
    using viewD(4) [OF w l] rf(3) a by simp
  show ?thesis
    using run [unfolded level_call_run [OF v(1) l] lf] gf(3) sv lv entry_view_eq [of "ls l"] decode_view [OF z(2), of None] z(1)
    by (cases "group_slots P (level_cs ls) D (st_env s) (l, Kind_Neighbour) (DataPage_decode_column_ref n)") auto
qed

lemma stored_fetch_overflow:
  assumes v: "stored_view P ls L M s v" "l \<in> lv_levels v" "p \<in> lv_oknown v l"
    and run: "level_call l (\<lambda>ls. LevelStore_fetch_overflow P ls p u oe0 fm None) s = (s', r)"
  shows "stored_view P ls L M s' v \<and> r = map_option (\<lambda>(t, e). overflow_view u oe0 fm e) (lv_chains v l p)"
proof -
  obtain D where g: "group_ok P (level_cs ls) (L \<times> UNIV) {0} D (st_env s)" and w: "v = pages_view P ls L D (st_env s)" using v(1) by (rule stored_viewE)
  have l: "l \<in> L" and a: "store_ref (ls_overflow (ls l)) (D (l, Kind_Overflow)) p" using viewD(1,3) [OF w] v(2,3) by auto
  note rf = ref_facts [of l Kind_Overflow "D (l, Kind_Overflow)" p, OF l]
  obtain env q where f: "ColumnStore_fetch P (ls_overflow (ls l)) p u (st_env s) = (env, q)" by (cases "ColumnStore_fetch P (ls_overflow (ls l)) p u (st_env s)")
  have k: "(l, Kind_Overflow) \<in> L \<times> UNIV" using l by simp
  note gf = group_fetch [OF g k, unfolded cs_simps, OF a f]
  have same: "pages_view P ls L D env = v" using view_same(2) [of D D env "st_env s"] gf(2) w by simp
  have sv: "stored_view P ls L M (s\<lparr>st_env := env\<rparr>) v" using stored_viewI [OF v(1) gf(1)] same by simp
  have lf: "LevelStore_fetch_overflow P (ls l) p u oe0 fm None (st_env s) = (env, map_sum id (\<lambda>(bs, t, d). decode_overflow_entry (ls l) u oe0 fm None bs) q)"
    using f rf(1) a by (simp add: LevelStore_fetch_overflow_def bind_op_def ret_def map_sum_def split: sum.split prod.split)
  have lv: "lv_chains v l p = slot_overflow (ls l) (group_slots P (level_cs ls) D (st_env s) (l, Kind_Overflow) (DataPage_decode_column_ref p))"
    using viewD(5) [OF w l] rf(3) a by simp
  show ?thesis
    using run [unfolded level_call_run [OF v(1) l] lf] gf(3) sv lv overflow_view_decode [of "ls l"]
    by (cases "group_slots P (level_cs ls) D (st_env s) (l, Kind_Overflow) (DataPage_decode_column_ref p)") (auto simp: slot_overflow_def)
qed

lemma stored_update:
  assumes v: "stored_view P ls L M s v" "l \<in> lv_levels v" "n \<in> lv_known v l"
    and args: "writes_something e fm slots" "sorted_wrt (<) slots" "\<forall>i\<in>set slots. i < max_neighbours l M" "has_field fm Field_LowerLevel \<longrightarrow> 0 < l"
    and run: "level_call l (\<lambda>ls. LevelStore_update P ls (su_buffer U s) n e fm slots) s = (s', r)"
  shows "case lv_nodes v l n of None \<Rightarrow> r = None \<and> stored_view P ls L M s' v
    | Some (d, t, old) \<Rightarrow> r = Some () \<and> stored_view P ls L M s' (with_nodes l ((lv_nodes v l)(n \<mapsto> (d, t, patch_entry e fm slots old))) v)"
proof -
  obtain D where g: "group_ok P (level_cs ls) (L \<times> UNIV) {0} D (st_env s)" and w: "v = pages_view P ls L D (st_env s)" using v(1) by (rule stored_viewE)
  have l: "l \<in> L" and a: "store_ref (ls_store (ls l)) (D (l, Kind_Neighbour)) n" using viewD(1,2) [OF w] v(2,3) by auto
  note rf = ref_facts [of l Kind_Neighbour "D (l, Kind_Neighbour)" n, OF l] and z = sizes_of [OF l]
  have k: "(l, Kind_Neighbour) \<in> L \<times> UNIV" using l by simp
  define data where "data = take (m_column_size (m_root (ls_store (ls l)))) (fold write_chunk (neighbour_writes (ls l) e fm slots) (su_buffer U s))"
  define ids where "ids = map fst (neighbour_writes (ls l) e fm slots)"
  have low: "has_field fm Field_LowerLevel \<longrightarrow> has_lower_level (ls_level (ls l))" using args(4) z(1) by (simp add: has_lower_level_def)
  note em = entry_merge [OF z(2) conjunct1 [OF buffers [OF l, of s]] low args(2), unfolded z(3), OF args(3), where e = e, folded data_def ids_def]
  have ne: "ids \<noteq> []" "0 < CHUNK_SIZE" using writes_nonempty(1) [OF args(1), of "ls l"] by (simp_all add: ids_def layout_defs)
  obtain env q where f: "ColumnStore_update P (ls_store (ls l)) n (Some data) ids CHUNK_SIZE (st_env s) = (env, q)"
    by (cases "ColumnStore_update P (ls_store (ls l)) n (Some data) ids CHUNK_SIZE (st_env s)")
  have gc: "sorted_wrt (<) ids" "\<forall>c\<in>set ids. c * CHUNK_SIZE + CHUNK_SIZE \<le> length data" using em(1,2) by (auto simp: good_chunks_def)
  let ?b = "DataPage_decode_column_ref n" and ?f = "group_slots P (level_cs ls) D (st_env s) (l, Kind_Neighbour)"
  note gu = group_update [OF g k, unfolded cs_simps, OF a ne em(1) gc f]
  have lf: "LevelStore_update P (ls l) (su_buffer U s) n e fm slots (st_env s) = (env, q)"
    using f rf(1) a chunk_indices(3,4) [OF z(2)] by (simp add: LevelStore_update_def Let_def data_def ids_def)
  note res = run [unfolded level_call_run [OF v(1) l] lf]
  have lv: "lv_nodes v l n = slot_node (ls l) (?f ?b)" using viewD(4) [OF w l] rf(3) a by simp
  show ?thesis
  proof (cases "?f ?b")
    case Free
    then have same: "pages_view P ls L D env = v" using gu(2) w by (intro view_same(2) [of D D env "st_env s", THEN trans]) auto
    with Free gu lv res stored_viewI [OF v(1) gu(1)] show ?thesis by auto
  next
    case (Occupied d t old)
    let ?v = "Occupied d t (merge_chunks CHUNK_SIZE ids data old)"
    have ol: "length old = m_column_size (m_root (ls_store (ls l)))" using slot_length [OF l Occupied] by simp
    have can: "canonical n" using rf(3) a by simp
    have sl: "group_slots P (level_cs ls) D env j = (if j = (l, Kind_Neighbour) then (group_slots P (level_cs ls) D (st_env s) j)(?b := ?v)
        else group_slots P (level_cs ls) D (st_env s) j)" if "j \<in> L \<times> UNIV" for j by (cases j) (use gu(2) Occupied that in auto)
    have "pages_view P ls L D env = with_nodes l ((lv_nodes v l)(n := slot_node (ls l) ?v)) v"
      unfolding w by (rule view_node_step(2) [OF l can _ sl]) simp_all
    then show ?thesis using Occupied gu lv res stored_viewI [OF v(1) gu(1)] em(3) [OF ol] by auto
  qed
qed

lemma stored_update_overflow:
  assumes v: "stored_view P ls L M s v" "l \<in> lv_levels v" "p \<in> lv_oknown v l"
    and args: "writes_overflow e fm slots" "sorted_wrt (<) slots" "\<forall>i\<in>set slots. i < overflow_capacity l M"
    and run: "level_call l (\<lambda>ls. LevelStore_update_overflow P ls (su_buffer U s) p e fm slots) s = (s', r)"
  shows "case lv_chains v l p of None \<Rightarrow> r = None \<and> stored_view P ls L M s' v
    | Some (t, old) \<Rightarrow> r = Some () \<and> stored_view P ls L M s' (with_chains l ((lv_chains v l)(p \<mapsto> (t, patch_overflow e fm slots old))) v)"
proof -
  obtain D where g: "group_ok P (level_cs ls) (L \<times> UNIV) {0} D (st_env s)" and w: "v = pages_view P ls L D (st_env s)" using v(1) by (rule stored_viewE)
  have l: "l \<in> L" and a: "store_ref (ls_overflow (ls l)) (D (l, Kind_Overflow)) p" using viewD(1,3) [OF w] v(2,3) by auto
  note rf = ref_facts [of l Kind_Overflow "D (l, Kind_Overflow)" p, OF l] and z = sizes_of [OF l]
  have k: "(l, Kind_Overflow) \<in> L \<times> UNIV" using l by simp
  define data where "data = take (m_column_size (m_root (ls_overflow (ls l)))) (fold write_chunk (overflow_writes (ls l) e fm slots) (su_buffer U s))"
  define ids where "ids = map fst (overflow_writes (ls l) e fm slots)"
  note em = overflow_merge [OF z(2) conjunct2 [OF buffers [OF l, of s]] args(2), unfolded z(4), OF args(3), where e = e and fm = fm, folded data_def ids_def]
  have ne: "ids \<noteq> []" "0 < CHUNK_SIZE" using writes_nonempty(2) [OF args(1), of "ls l"] by (simp_all add: ids_def layout_defs)
  obtain env q where f: "ColumnStore_update P (ls_overflow (ls l)) p (Some data) ids CHUNK_SIZE (st_env s) = (env, q)"
    by (cases "ColumnStore_update P (ls_overflow (ls l)) p (Some data) ids CHUNK_SIZE (st_env s)")
  have gc: "sorted_wrt (<) ids" "\<forall>c\<in>set ids. c * CHUNK_SIZE + CHUNK_SIZE \<le> length data" using em(1,2) by (auto simp: good_chunks_def)
  let ?b = "DataPage_decode_column_ref p" and ?f = "group_slots P (level_cs ls) D (st_env s) (l, Kind_Overflow)"
  note gu = group_update [OF g k, unfolded cs_simps, OF a ne em(1) gc f]
  have lf: "LevelStore_update_overflow P (ls l) (su_buffer U s) p e fm slots (st_env s) = (env, q)"
    using f rf(1) a overflow_size [OF z(2)] overflow_chunk_capacity [of "ls l"] by (simp add: LevelStore_update_overflow_def Let_def data_def ids_def)
  note res = run [unfolded level_call_run [OF v(1) l] lf]
  have lv: "lv_chains v l p = slot_overflow (ls l) (?f ?b)" using viewD(5) [OF w l] rf(3) a by simp
  show ?thesis
  proof (cases "?f ?b")
    case Free
    then have same: "pages_view P ls L D env = v" using gu(2) w by (intro view_same(2) [of D D env "st_env s", THEN trans]) auto
    with Free gu lv res stored_viewI [OF v(1) gu(1)] show ?thesis by (auto simp: slot_overflow_def)
  next
    case (Occupied d t old)
    let ?v = "Occupied d t (merge_chunks CHUNK_SIZE ids data old)"
    have ol: "length old = m_column_size (m_root (ls_overflow (ls l)))" using slot_length [OF l Occupied] by simp
    have can: "canonical p" using rf(3) a by simp
    have sl: "group_slots P (level_cs ls) D env j = (if j = (l, Kind_Overflow) then (group_slots P (level_cs ls) D (st_env s) j)(?b := ?v)
        else group_slots P (level_cs ls) D (st_env s) j)" if "j \<in> L \<times> UNIV" for j by (cases j) (use gu(2) Occupied that in auto)
    have "pages_view P ls L D env = with_chains l ((lv_chains v l)(p := slot_overflow (ls l) ?v)) v"
      unfolding w by (rule view_chain_step(2) [OF l can _ sl]) simp_all
    then show ?thesis using Occupied gu lv res stored_viewI [OF v(1) gu(1)] em(3) [OF ol] by (auto simp: slot_overflow_def)
  qed
qed

lemma stored_insert:
  assumes v: "stored_view P ls L M s v" "l \<in> lv_levels v"
    and run: "level_call l (\<lambda>ls. LevelStore_insert P ls conc trx e) s = (s', r)"
  shows "\<exists>w. stored_view P ls L M s' w \<and> (case r of None \<Rightarrow> knows_more v w
    | Some n \<Rightarrow> n \<in> lv_known w l \<and> lv_nodes v l n = None
        \<and> knows_more (with_nodes l ((lv_nodes v l)(n \<mapsto> (False, trx, fresh_entry l (max_neighbours l M) e))) v) w)"
proof -
  obtain D where g: "group_ok P (level_cs ls) (L \<times> UNIV) {0} D (st_env s)" and w: "v = pages_view P ls L D (st_env s)" using v(1) by (rule stored_viewE)
  have l: "l \<in> L" using viewD(1) [OF w] v(2) by simp
  note z = sizes_of [OF l]
  have k: "(l, Kind_Neighbour) \<in> L \<times> UNIV" using l by simp
  have len: "length (neighbour_bytes (ls l) e) = m_column_size (m_root (level_cs ls (l, Kind_Neighbour)))" using length_neighbour_bytes [OF z(2)] by simp
  obtain env q where f: "ColumnStore_insert P (level_cs ls (l, Kind_Neighbour)) conc trx (Some (neighbour_bytes (ls l) e)) (st_env s) = (env, q)"
    by (cases "ColumnStore_insert P (level_cs ls (l, Kind_Neighbour)) conc trx (Some (neighbour_bytes (ls l) e)) (st_env s)")
  note res = run [unfolded level_call_run [OF v(1) l] LevelStore_insert_def f [unfolded cs_simps]]
  let ?k = "(l, Kind_Neighbour)"
  obtain dl where gi: "group_ok P (level_cs ls) (L \<times> UNIV) {0} (D(?k := dl)) env" "set (D ?k) \<subseteq> set dl"
    "\<forall>j\<in>L \<times> UNIV. j \<noteq> ?k \<longrightarrow> group_slots P (level_cs ls) (D(?k := dl)) env j = group_slots P (level_cs ls) D (st_env s) j"
    "case q of Inl e \<Rightarrow> group_slots P (level_cs ls) (D(?k := dl)) env ?k = group_slots P (level_cs ls) D (st_env s) ?k
      | Inr a \<Rightarrow> store_ref (level_cs ls ?k) dl a \<and> group_slots P (level_cs ls) D (st_env s) ?k (DataPage_decode_column_ref a) = Free
          \<and> group_slots P (level_cs ls) (D(?k := dl)) env ?k = (group_slots P (level_cs ls) D (st_env s) ?k)(DataPage_decode_column_ref a := Occupied False trx (neighbour_bytes (ls l) e))"
    by (rule group_insert [OF g k len f])
  have D: "set (D j) \<subseteq> set ((D(?k := dl)) j)" for j using gi(2) by simp
  let ?w = "pages_view P ls L (D(?k := dl)) env"
  have sv: "stored_view P ls L M s' ?w" using stored_viewI [OF v(1) gi(1)] res by simp
  show ?thesis
  proof (cases q)
    case (Inl x)
    have "group_slots P (level_cs ls) (D(?k := dl)) env j = group_slots P (level_cs ls) D (st_env s) j" if "j \<in> L \<times> UNIV" for j
      using bspec [OF gi(3) that] gi(4) Inl by (cases "j = ?k") simp_all
    then have "knows_more v ?w" unfolding w by (rule view_same(1) [OF D])
    with sv res Inl show ?thesis by auto
  next
    case (Inr n)
    have a: "store_ref (level_cs ls ?k) ((D(?k := dl)) ?k) n" and fr: "group_slots P (level_cs ls) D (st_env s) ?k (DataPage_decode_column_ref n) = Free"
      using gi(4) Inr by simp_all
    note rf = ref_facts [OF l a]
    have sl: "group_slots P (level_cs ls) (D(?k := dl)) env j = (if j = ?k then (group_slots P (level_cs ls) D (st_env s) j)(DataPage_decode_column_ref n := Occupied False trx (neighbour_bytes (ls l) e))
        else group_slots P (level_cs ls) D (st_env s) j)" if "j \<in> L \<times> UNIV" for j using bspec [OF gi(3) that] gi(4) Inr by (cases "j = ?k") simp_all
    have "knows_more (with_nodes l ((lv_nodes v l)(n := slot_node (ls l) (Occupied False trx (neighbour_bytes (ls l) e)))) v) ?w"
      unfolding w by (rule view_node_step(1) [OF l rf(3) D sl])
    moreover have "lv_nodes v l n = None" using viewD(4) [OF w l rf(3)] fr by simp
    moreover have "n \<in> lv_known ?w l" using l a by (simp add: pages_view_def)
    moreover have "entry_of (ls l) (neighbour_bytes (ls l) e) = fresh_entry l (max_neighbours l M) e"
      using entry_of_bytes [OF z(2)] fresh_entry_eq [of "ls l"] z by simp
    ultimately show ?thesis using sv res Inr by auto
  qed
qed

lemma stored_insert_overflow:
  assumes v: "stored_view P ls L M s v" "l \<in> lv_levels v"
    and run: "level_call l (\<lambda>ls. LevelStore_insert_overflow P ls conc trx e) s = (s', r)"
  shows "\<exists>w. stored_view P ls L M s' w \<and> (case r of None \<Rightarrow> knows_more v w
    | Some p \<Rightarrow> p \<in> lv_oknown w l \<and> lv_chains v l p = None
        \<and> knows_more (with_chains l ((lv_chains v l)(p \<mapsto> (trx, fresh_overflow (overflow_capacity l M) e))) v) w)"
proof -
  obtain D where g: "group_ok P (level_cs ls) (L \<times> UNIV) {0} D (st_env s)" and w: "v = pages_view P ls L D (st_env s)" using v(1) by (rule stored_viewE)
  have l: "l \<in> L" using viewD(1) [OF w] v(2) by simp
  note z = sizes_of [OF l]
  let ?k = "(l, Kind_Overflow)"
  have k: "?k \<in> L \<times> UNIV" using l by simp
  have len: "length (overflow_bytes (ls l) e) = m_column_size (m_root (level_cs ls ?k))" using length_overflow_bytes [OF z(2)] by simp
  obtain env q where f: "ColumnStore_insert P (level_cs ls ?k) conc trx (Some (overflow_bytes (ls l) e)) (st_env s) = (env, q)"
    by (cases "ColumnStore_insert P (level_cs ls ?k) conc trx (Some (overflow_bytes (ls l) e)) (st_env s)")
  note res = run [unfolded level_call_run [OF v(1) l] LevelStore_insert_overflow_def f [unfolded cs_simps]]
  obtain dl where gi: "group_ok P (level_cs ls) (L \<times> UNIV) {0} (D(?k := dl)) env" "set (D ?k) \<subseteq> set dl"
    "\<forall>j\<in>L \<times> UNIV. j \<noteq> ?k \<longrightarrow> group_slots P (level_cs ls) (D(?k := dl)) env j = group_slots P (level_cs ls) D (st_env s) j"
    "case q of Inl e \<Rightarrow> group_slots P (level_cs ls) (D(?k := dl)) env ?k = group_slots P (level_cs ls) D (st_env s) ?k
      | Inr a \<Rightarrow> store_ref (level_cs ls ?k) dl a \<and> group_slots P (level_cs ls) D (st_env s) ?k (DataPage_decode_column_ref a) = Free
          \<and> group_slots P (level_cs ls) (D(?k := dl)) env ?k = (group_slots P (level_cs ls) D (st_env s) ?k)(DataPage_decode_column_ref a := Occupied False trx (overflow_bytes (ls l) e))"
    by (rule group_insert [OF g k len f])
  have D: "set (D j) \<subseteq> set ((D(?k := dl)) j)" for j using gi(2) by simp
  let ?w = "pages_view P ls L (D(?k := dl)) env"
  have sv: "stored_view P ls L M s' ?w" using stored_viewI [OF v(1) gi(1)] res by simp
  show ?thesis
  proof (cases q)
    case (Inl x)
    have "group_slots P (level_cs ls) (D(?k := dl)) env j = group_slots P (level_cs ls) D (st_env s) j" if "j \<in> L \<times> UNIV" for j
      using bspec [OF gi(3) that] gi(4) Inl by (cases "j = ?k") simp_all
    then have "knows_more v ?w" unfolding w by (rule view_same(1) [OF D])
    with sv res Inl show ?thesis by auto
  next
    case (Inr p)
    have a: "store_ref (level_cs ls ?k) ((D(?k := dl)) ?k) p" and fr: "group_slots P (level_cs ls) D (st_env s) ?k (DataPage_decode_column_ref p) = Free"
      using gi(4) Inr by simp_all
    note rf = ref_facts [OF l a]
    have sl: "group_slots P (level_cs ls) (D(?k := dl)) env j = (if j = ?k then (group_slots P (level_cs ls) D (st_env s) j)(DataPage_decode_column_ref p := Occupied False trx (overflow_bytes (ls l) e))
        else group_slots P (level_cs ls) D (st_env s) j)" if "j \<in> L \<times> UNIV" for j using bspec [OF gi(3) that] gi(4) Inr by (cases "j = ?k") simp_all
    have "knows_more (with_chains l ((lv_chains v l)(p := slot_overflow (ls l) (Occupied False trx (overflow_bytes (ls l) e)))) v) ?w"
      unfolding w by (rule view_chain_step(1) [OF l rf(3) D sl])
    moreover have "lv_chains v l p = None" using viewD(5) [OF w l rf(3)] fr by (simp add: slot_overflow_def)
    moreover have "p \<in> lv_oknown ?w l" using l a by (simp add: pages_view_def)
    moreover have "overflow_of (ls l) (overflow_bytes (ls l) e) = fresh_overflow (overflow_capacity l M) e"
      using overflow_of_bytes [OF z(2)] z by simp
    ultimately show ?thesis using sv res Inr by (auto simp: slot_overflow_def)
  qed
qed

lemma stored_remove:
  assumes v: "stored_view P ls L M s v" "l \<in> lv_levels v"
  shows "n \<in> lv_known v l \<Longrightarrow> level_call l (\<lambda>ls. LevelStore_remove P ls Kind_Neighbour n trx) s = (s', r) \<Longrightarrow>
      r = Some () \<and> stored_view P ls L M s' (with_nodes l (drop_node_of trx n (lv_nodes v l)) v)"
    and "p \<in> lv_oknown v l \<Longrightarrow> level_call l (\<lambda>ls. LevelStore_remove P ls Kind_Overflow p trx) s = (s', r) \<Longrightarrow>
      r = Some () \<and> stored_view P ls L M s' (with_chains l (drop_overflow_of trx p (lv_chains v l)) v)"
proof -
  obtain D where g: "group_ok P (level_cs ls) (L \<times> UNIV) {0} D (st_env s)" and w: "v = pages_view P ls L D (st_env s)" using v(1) by (rule stored_viewE)
  have l: "l \<in> L" using viewD(1) [OF w] v(2) by simp
  have pu: "purged_slots trx b f = f(b := (case f b of Occupied d t bs \<Rightarrow> if t = trx then Free else f b | Free \<Rightarrow> Free))" for b f
    by (auto simp: purged_slots_def fun_eq_iff split: slot_state.split)
  show "r = Some () \<and> stored_view P ls L M s' (with_nodes l (drop_node_of trx n (lv_nodes v l)) v)"
    if n: "n \<in> lv_known v l" and run: "level_call l (\<lambda>ls. LevelStore_remove P ls Kind_Neighbour n trx) s = (s', r)"
  proof -
    let ?k = "(l, Kind_Neighbour)" and ?b = "DataPage_decode_column_ref n"
    have k: "?k \<in> L \<times> UNIV" using l by simp
    have a: "store_ref (level_cs ls ?k) (D ?k) n" using viewD(2) [OF w n] .
    note rf = ref_facts [OF l a]
    obtain env q where f: "ColumnStore_purge P (level_cs ls ?k) trx n (st_env s) = (env, q)" by (cases "ColumnStore_purge P (level_cs ls ?k) trx n (st_env s)")
    note gp = group_purge [OF g k a f]
    have "LevelStore_remove P (ls l) Kind_Neighbour n trx (st_env s) = (env, q)" using f rf(1) by (simp add: LevelStore_remove_def)
    note res = run [unfolded level_call_run [OF v(1) l] this]
    let ?f = "group_slots P (level_cs ls) D (st_env s) ?k"
    let ?v = "case ?f ?b of Occupied d t bs \<Rightarrow> if t = trx then Free else ?f ?b | Free \<Rightarrow> Free"
    have sl: "group_slots P (level_cs ls) D env j = (if j = ?k then (group_slots P (level_cs ls) D (st_env s) j)(?b := ?v) else group_slots P (level_cs ls) D (st_env s) j)"
      if "j \<in> L \<times> UNIV" for j using gp(3) [OF that] by (simp add: pu)
    have "pages_view P ls L D env = with_nodes l ((lv_nodes v l)(n := slot_node (ls l) ?v)) v"
      unfolding w by (rule view_node_step(2) [OF l rf(3) _ sl]) simp_all
    moreover have "(lv_nodes v l)(n := slot_node (ls l) ?v) = drop_node_of trx n (lv_nodes v l)"
      using viewD(4) [OF w l rf(3)] by (cases "?f ?b") (auto simp: drop_node_of_def fun_eq_iff)
    ultimately show ?thesis using gp res stored_viewI [OF v(1) gp(1)] by simp
  qed
  show "r = Some () \<and> stored_view P ls L M s' (with_chains l (drop_overflow_of trx p (lv_chains v l)) v)"
    if p: "p \<in> lv_oknown v l" and run: "level_call l (\<lambda>ls. LevelStore_remove P ls Kind_Overflow p trx) s = (s', r)"
  proof -
    let ?k = "(l, Kind_Overflow)" and ?b = "DataPage_decode_column_ref p"
    have k: "?k \<in> L \<times> UNIV" using l by simp
    have a: "store_ref (level_cs ls ?k) (D ?k) p" using viewD(3) [OF w p] .
    note rf = ref_facts [OF l a]
    obtain env q where f: "ColumnStore_purge P (level_cs ls ?k) trx p (st_env s) = (env, q)" by (cases "ColumnStore_purge P (level_cs ls ?k) trx p (st_env s)")
    note gp = group_purge [OF g k a f]
    have "LevelStore_remove P (ls l) Kind_Overflow p trx (st_env s) = (env, q)" using f rf(1) by (simp add: LevelStore_remove_def)
    note res = run [unfolded level_call_run [OF v(1) l] this]
    let ?f = "group_slots P (level_cs ls) D (st_env s) ?k"
    let ?v = "case ?f ?b of Occupied d t bs \<Rightarrow> if t = trx then Free else ?f ?b | Free \<Rightarrow> Free"
    have sl: "group_slots P (level_cs ls) D env j = (if j = ?k then (group_slots P (level_cs ls) D (st_env s) j)(?b := ?v) else group_slots P (level_cs ls) D (st_env s) j)"
      if "j \<in> L \<times> UNIV" for j using gp(3) [OF that] by (simp add: pu)
    have "pages_view P ls L D env = with_chains l ((lv_chains v l)(p := slot_overflow (ls l) ?v)) v"
      unfolding w by (rule view_chain_step(2) [OF l rf(3) _ sl]) simp_all
    moreover have "(lv_chains v l)(p := slot_overflow (ls l) ?v) = drop_overflow_of trx p (lv_chains v l)"
      using viewD(5) [OF w l rf(3)] by (cases "?f ?b") (auto simp: drop_overflow_of_def slot_overflow_def fun_eq_iff)
    ultimately show ?thesis using gp res stored_viewI [OF v(1) gp(1)] by simp
  qed
qed

lemma stored_mark:
  assumes v: "stored_view P ls L M s v" "l \<in> lv_levels v" "n \<in> lv_known v l"
    and run: "level_call l (\<lambda>ls. LevelStore_mark_delete P ls n trx mk) s = (s', r)"
  shows "r = Some () \<and> stored_view P ls L M s' (with_nodes l ((lv_nodes v l)(n := map_option (\<lambda>(d, t, e). (mk, trx, e)) (lv_nodes v l n))) v)"
proof -
  obtain D where g: "group_ok P (level_cs ls) (L \<times> UNIV) {0} D (st_env s)" and w: "v = pages_view P ls L D (st_env s)" using v(1) by (rule stored_viewE)
  have l: "l \<in> L" using viewD(1) [OF w] v(2) by simp
  let ?k = "(l, Kind_Neighbour)" and ?b = "DataPage_decode_column_ref n"
  have k: "?k \<in> L \<times> UNIV" using l by simp
  have a: "store_ref (level_cs ls ?k) (D ?k) n" using viewD(2) [OF w v(3)] .
  note rf = ref_facts [OF l a]
  obtain env q where f: "ColumnStore_mark_delete P (level_cs ls ?k) trx n mk (st_env s) = (env, q)" by (cases "ColumnStore_mark_delete P (level_cs ls ?k) trx n mk (st_env s)")
  note gp = group_mark [OF g k a f]
  have "LevelStore_mark_delete P (ls l) n trx mk (st_env s) = (env, q)" using f rf(1) by (simp add: LevelStore_mark_delete_def)
  note res = run [unfolded level_call_run [OF v(1) l] this]
  let ?f = "group_slots P (level_cs ls) D (st_env s) ?k"
  have sl: "group_slots P (level_cs ls) D env j = (if j = ?k then (group_slots P (level_cs ls) D (st_env s) j)(?b := marked_slot mk trx (?f ?b)) else group_slots P (level_cs ls) D (st_env s) j)"
    if "j \<in> L \<times> UNIV" for j using gp(3) [OF that] by simp
  have "pages_view P ls L D env = with_nodes l ((lv_nodes v l)(n := slot_node (ls l) (marked_slot mk trx (?f ?b)))) v"
    unfolding w by (rule view_node_step(2) [OF l rf(3) _ sl]) simp_all
  moreover have "slot_node (ls l) (marked_slot mk trx (?f ?b)) = map_option (\<lambda>(d, t, e). (mk, trx, e)) (lv_nodes v l n)"
    using viewD(4) [OF w l rf(3)] by (cases "?f ?b") (simp_all add: marked_slot_def)
  ultimately show ?thesis using gp res stored_viewI [OF v(1) gp(1)] by simp
qed

lemma stored_bounds: "0 < max_neighbours l M" "max_neighbours l M < 2 ^ 16" "0 < overflow_capacity l M" "overflow_capacity l M < 2 ^ 16"
  using M by (simp_all add: max_neighbours_def overflow_capacity_def u32_def layout_defs)

lemma stored_ids:
  assumes v: "stored_view P ls L M s v" "l \<in> lv_levels v" and n: "n \<in> lv_known v l \<union> lv_oknown v l"
  shows "good_id n"
proof -
  obtain D where g: "group_ok P (level_cs ls) (L \<times> UNIV) {0} D (st_env s)" and w: "v = pages_view P ls L D (st_env s)" using v(1) by (rule stored_viewE)
  have l: "l \<in> L" using viewD(1) [OF w] v(2) by simp
  obtain kind where a: "store_ref (level_cs ls (l, kind)) (D (l, kind)) n" using n viewD(2,3) [OF w] by blast
  have k: "(l, kind) \<in> L \<times> UNIV" using l by simp
  obtain x i where x: "n = DataPage_encode_column_ref x i" "x \<in> set (D (l, kind))" "DataPage_decode_column_ref n = (x, i)" using k a by (rule ref_at)
  have "owned (level_cs ls (l, kind)) (D (l, kind)) \<inter> {0} = {}" using g k by (rule group_okD)
  then have "x \<noteq> 0" using x(2) by (auto simp: owned_def)
  moreover have "DataPage_decode_column_ref 0 = (0, 0)" by (simp add: DataPage_decode_column_ref_def)
  ultimately have "n \<noteq> 0" using x(3) by auto
  with ref_facts(2) [OF l a] show ?thesis by (simp add: good_id_def is_valid_def INVALID_ID_def)
qed

lemma stored_present:
  assumes v: "stored_view P ls L M s v" "l \<in> lv_levels v"
  shows "dom (lv_nodes v l) \<subseteq> lv_known v l \<and> dom (lv_chains v l) \<subseteq> lv_oknown v l"
proof -
  obtain D where w: "v = pages_view P ls L D (st_env s)" using v(1) by (rule stored_viewE)
  have l: "l \<in> L" using viewD(1) [OF w] v(2) by simp
  have "slot_node (ls l) (group_slots P (level_cs ls) D (st_env s) (l, Kind_Neighbour) b) = None"
    "slot_overflow (ls l) (group_slots P (level_cs ls) D (st_env s) (l, Kind_Overflow) b) = None"
    if "group_slots P (level_cs ls) D (st_env s) (l, Kind_Neighbour) b = Free" "group_slots P (level_cs ls) D (st_env s) (l, Kind_Overflow) b = Free" for b
    using that by (simp_all add: slot_overflow_def)
  have "n \<in> lv_known v l" if "lv_nodes v l n = Some y" for n y
  proof -
    have "canonical n" "group_slots P (level_cs ls) D (st_env s) (l, Kind_Neighbour) (DataPage_decode_column_ref n) \<noteq> Free"
      using that l by (auto simp: w pages_view_def split: if_splits)
    from slot_ref [OF l this] show ?thesis using l by (simp add: w pages_view_def)
  qed
  moreover have "p \<in> lv_oknown v l" if "lv_chains v l p = Some y" for p y
  proof -
    have "canonical p" "group_slots P (level_cs ls) D (st_env s) (l, Kind_Overflow) (DataPage_decode_column_ref p) \<noteq> Free"
      using that l by (auto simp: w pages_view_def slot_overflow_def split: if_splits)
    from slot_ref [OF l this] show ?thesis using l by (simp add: w pages_view_def)
  qed
  ultimately show ?thesis by auto
qed

lemma stored_latches:
  "stored_view P ls L M s v \<Longrightarrow> stored_view P ls L M (s\<lparr>st_env := (st_env s)\<lparr>latches := la\<rparr>\<rparr>) v"
  "stored_view P ls L M s v \<Longrightarrow> stored_view P ls L M (s\<lparr>st_locks := lk\<rparr>) v"
proof -
  have "group_slots P (level_cs ls) D (e\<lparr>latches := la\<rparr>) = group_slots P (level_cs ls) D e" for D e
    by (simp add: fun_eq_iff group_slots_def)
  then have pv: "pages_view P ls L D (e\<lparr>latches := la\<rparr>) = pages_view P ls L D e" for D e unfolding pages_view_def by (simp cong: if_cong)
  have "group_ok P (level_cs ls) (L \<times> UNIV) {0} D (e\<lparr>latches := la\<rparr>) = group_ok P (level_cs ls) (L \<times> UNIV) {0} D e" for D e
    by (simp add: group_ok_def calm_def fresh_ok_def)
  with pv show "stored_view P ls L M s v \<Longrightarrow> stored_view P ls L M (s\<lparr>st_env := (st_env s)\<lparr>latches := la\<rparr>\<rparr>) v"
    "stored_view P ls L M s v \<Longrightarrow> stored_view P ls L M (s\<lparr>st_locks := lk\<rparr>) v"
    by (simp_all add: stored_view_def)
qed

sublocale graph_levels "stored_graph P empty_ref U" "stored_view P ls L M" "\<lambda>l. max_neighbours l M" "\<lambda>l. overflow_capacity l M"
proof (unfold_locales, goal_cases)
  case (1 s v l) then show ?case by (simp add: stored_graph_def stored_view_def)
next
  case (2 s v l) then show ?case by (simp add: stored_graph_def stored_view_def)
next
  case (3 l) show ?case by (rule stored_bounds)
next
  case (4 l) show ?case by (rule stored_bounds)
next
  case (5 l) show ?case by (rule stored_bounds)
next
  case (6 l) show ?case by (rule stored_bounds)
next
  case (7 s v l n) then show ?case by (rule stored_ids)
next
  case (8 s v l) then show ?case by (rule stored_present)
next
  case (9 s v) then show ?case by (simp add: stored_graph_def stored_latches)
next
  case (10 s v s0) then show ?case by (simp add: stored_graph_def stored_latches)
next
  case (11 s v l mode) then show ?case by (simp add: stored_graph_def stored_latches)
next
  case (12 s v l n u e0 fm filt s' r) then show ?case by (intro stored_fetch) (simp_all add: stored_graph_def)
next
  case (13 s v l p u oe0 fm s' r) then show ?case by (intro stored_fetch_overflow) (simp_all add: stored_graph_def)
next
  case (14 s v l n e fm slots s' ru) then show ?case by (intro stored_update) (simp_all add: stored_graph_def)
next
  case (15 s v l p oe fm slots s' ru) then show ?case by (intro stored_update_overflow) (simp_all add: stored_graph_def)
next
  case (16 s v l trx e s' ri) then show ?case by (intro stored_insert) (simp_all add: stored_graph_def)
next
  case (17 s v l trx oe s' ri) then show ?case by (intro stored_insert_overflow) (simp_all add: stored_graph_def)
next
  case (18 s v l n trx s' ru) then show ?case by (intro stored_remove(1)) (simp_all add: stored_graph_def)
next
  case (19 s v l p trx s' ru) then show ?case by (intro stored_remove(2)) (simp_all add: stored_graph_def)
next
  case (20 s v l n trx mk s' ru) then show ?case by (intro stored_mark) (simp_all add: stored_graph_def)
qed

end

end
