(* ===== verification/Index_Links.thy ===== *)
theory Index_Links
  imports Stored_Levels Graph_Nodes
begin

text \<open>
  The links of a stored index. An index created by \<open>IndexStore_create\<close> keeps the contract of \<open>graph_levels\<close>: its level 0 is a group of
  two column stores that share no page, so what is proved of the graph operations under the contract holds of the operations on its pages.
\<close>

subsection \<open>Data pages of the level stores\<close>

lemma overflow_data_layout:
  assumes "page_api P" "get_size P = 16384" "c \<le> 9" "bitmap_covers (DataPage_init 16384 (6 * c))" "0 < c"
  shows "data_layout P 16384 (DataPage_init 16384 (6 * c))" "m_rec_size (DataPage_init 16384 (6 * c)) = TRX_REF_SIZE + 6 * c"
proof -
  have "layout_ok 16384 (DataPage_init 16384 (6 * c))"
    by (rule DataPage_init_layout) (use assms in \<open>simp_all add: avail_space_def layout_defs\<close>)
  then show "data_layout P 16384 (DataPage_init 16384 (6 * c))"
    using assms by (simp add: data_layout_def data_layout_axioms_def)
  show "m_rec_size (DataPage_init 16384 (6 * c)) = TRX_REF_SIZE + 6 * c"
    using assms(3) by (simp add: DataPage_init_def Let_def split_beta layout_defs u16_def)
qed

text \<open>Five neighbours: the pages of level 0 hold 116 entries, those of its overflow store 368.\<close>

lemma small_pages:
  "m_max_num_recs (DataPage_init 16384 132) = 116" "m_max_num_recs (DataPage_init 16384 36) = 368"
  "bitmap_covers (DataPage_init 16384 36)"
  by (simp_all add: DataPage_init_def Let_def layout_defs refine_max_recs.simps bits_to_bytes_ceil_def
      MAX_ITERATIONS_def MAX_SLOT_INDEX_def SLOT_INDEX_BITS_def bitmap_covers_def bitmap_bytes_def)

lemma level_group_store_group: "level_group P U ls L M \<Longrightarrow> store_group P (level_cs ls) (L \<times> UNIV)"
  by (intro store_group.intro) (auto simp: level_group_def level_cs_def split: if_splits)

subsection \<open>A created index\<close>

text \<open>The surroundings only have to offer scratch buffers of the size of a record.\<close>

definition roomy :: "nat \<Rightarrow> 'p surroundings \<Rightarrow> bool" where
  "roomy n U \<longleftrightarrow> (\<forall>s. n \<le> length (su_buffer U s))"

lemma created_levels:
  fixes P :: "'p page_api"
  assumes api: "page_api P" and sz: "get_size P = 16384" and opts: "Options_validate opts = None"
    and ok: "faults s = []" "fresh_ok s" "fresh s = r # r' # rs" "s_last_slot_info s = init_last_slot_info" and p0: "pages s 0 \<noteq> None"
    and U: "roomy (24 * opt_M opts + 12) U"
    and quarters: "4 dvd m_max_num_recs (DataPage_init 16384 (24 * opt_M opts + 12))" "4 dvd m_max_num_recs (DataPage_init 16384 (6 * (min 8 (opt_M opts) + 1)))"
    and covers: "bitmap_covers (DataPage_init 16384 (6 * (min 8 (opt_M opts) + 1)))"
  obtains s' st where "IndexStore_create P empty_ref space_ref opts (s, new_index_store) = ((s', st), Inr ())" "fresh s' = rs"
    "level_group P U (level_of st) {0} (opt_M opts)"
    "\<forall>k. stored_view P (level_of st) {0} (opt_M opts) \<lparr>st_env = s', st_store = st, st_locks = k\<rparr>
       \<lparr>lv_levels = {0}, lv_known = \<lambda>_. {}, lv_oknown = \<lambda>_. {}, lv_nodes = \<lambda>_ _. None, lv_chains = \<lambda>_ _. None\<rparr>"
proof (rule create_ready [OF api sz opts ok])
  fix s' :: "'p env" and st
  let ?ls = "level_of st" and ?M = "opt_M opts"
  assume run: "IndexStore_create P empty_ref space_ref opts (s, new_index_store) = ((s', st), Inr ())"
    and h: "faults s' = []" "fresh s' = rs" "get_level st 0 = Some (?ls 0)" "level_sizes (?ls 0)"
    "store_layout P (ls_store (?ls 0))" "store_state P (ls_store (?ls 0)) [] s'"
    "root_lists P (m_root (ls_overflow (?ls 0))) (pages s') (m_root_page_ref (ls_overflow (?ls 0))) (\<lambda>_. []) []"
    and f: "fresh_ok s'" "ls_num_neighbours (?ls 0) = ?M" "is_num_neighbours st = ?M" "root_layout P (m_root (ls_overflow (?ls 0)))"
    "m_data (ls_store (?ls 0)) = DataPage_init 16384 (24 * ?M + 12)" "m_data (ls_overflow (?ls 0)) = DataPage_init 16384 (6 * (min 8 ?M + 1))"
    "m_root_page_ref (ls_store (?ls 0)) = r" "m_root_page_ref (ls_overflow (?ls 0)) = r'"
    "m_primary_root_page_ref (ls_store (?ls 0)) = r" "m_primary_root_page_ref (ls_overflow (?ls 0)) = r"
    "s_last_slot_info s' = init_last_slot_info" "\<forall>x. pages s x \<noteq> None \<longrightarrow> pages s' x \<noteq> None"
  have M: "2 \<le> ?M" "?M \<le> 128" using opts by (simp_all add: validate_bounds)
  have lv: "ls_level (?ls 0) = 0" by (simp add: level_of_def)
  have osz: "m_column_size (m_root (ls_overflow (?ls 0))) = 6 * (min 8 ?M + 1)" "m_column_size (m_root (ls_store (?ls 0))) = 24 * ?M + 12"
    using h(4) M f(2) lv by (auto simp: level_sizes_def overflow_storage_size_def neighbour_storage_size_def layout_defs LevelStore_overflow_capacity_def
        LevelStore_max_neighbours_def overflow_capacity_def max_neighbours_def has_lower_level_def u32_def)
  note od = overflow_data_layout [OF api sz _ covers]
  have "store_layout P (ls_overflow (?ls 0))"
    unfolding store_layout_def store_layout_axioms_def using f(4,6) od osz(1) by (simp add: sz)
  moreover have "6 * (min 8 ?M + 1) \<le> length (su_buffer U x)" for x
    by (rule order_trans [of _ "24 * ?M + 12"]) (use U in \<open>auto simp: roomy_def\<close>)
  ultimately have g: "level_group P U ?ls {0} ?M"
    using M lv f(2,5,6) h(4,5) quarters U osz by (intro level_group.intro) (auto simp: roomy_def)
  have x: "r \<noteq> r'" "r \<noteq> 0" "r' \<noteq> 0" "pages s' 0 \<noteq> None" using ok(2,3) p0 f(12) by (auto simp: fresh_ok_def)
  obtain fl where si: "store_inv P (ls_store (?ls 0)) (pages s') fl []" using h(6) by (auto simp: store_state_def)
  have so: "store_inv P (ls_overflow (?ls 0)) (pages s') (\<lambda>_. []) []" using h(7) by (simp add: store_inv_def)
  have sp: "pages s' r \<noteq> None" using store_layout.store_member(1) [OF h(5) si] f(7) by simp
  have hint: "hint_within (level_cs ?ls ` ({0} \<times> UNIV)) (s_last_slot_info s')"
    using store_group.room [OF level_group_store_group [OF g]] f(11) by (auto simp: hint_within_def init_last_slot_info_def)
  have "group_ok P (level_cs ?ls) ({0} \<times> UNIV) {0} (\<lambda>_. []) s'"
    unfolding group_ok_def
  proof (intro conjI ballI impI)
    show "calm (level_cs ?ls ` ({0} \<times> UNIV)) {0} s'" using h(1) f(1) x(4) hint by (simp add: calm_def)
  next
    fix k :: "nat \<times> store_kind" assume "k \<in> {0} \<times> UNIV"
    then consider "level_cs ?ls k = ls_store (?ls 0)" | "level_cs ?ls k = ls_overflow (?ls 0)"
      by (cases "snd k = Kind_Neighbour") (auto simp: level_cs_def)
    note cases = this
    from cases show "\<exists>fl. store_inv P (level_cs ?ls k) (pages s') fl []" by cases (use si so in auto)
    from cases show "owned (level_cs ?ls k) [] \<inter> {0} = {}" by cases (use x f(7,8) in \<open>auto simp: owned_def\<close>)
    from cases show "pages s' (m_primary_root_page_ref (level_cs ?ls k)) \<noteq> None" by cases (use sp f(9,10) in auto)
  next
    fix j k :: "nat \<times> store_kind" assume "j \<in> {0} \<times> UNIV" "k \<in> {0} \<times> UNIV" "j \<noteq> k"
    then show "owned (level_cs ?ls j) [] \<inter> owned (level_cs ?ls k) [] = {}"
      using x(1) f(7,8) by (cases "snd j"; cases "snd k") (auto simp: owned_def level_cs_def)
  qed
  moreover have "pages_view P ?ls {0} (\<lambda>_. []) s'
      = \<lparr>lv_levels = {0}, lv_known = \<lambda>_. {}, lv_oknown = \<lambda>_. {}, lv_nodes = \<lambda>_ _. None, lv_chains = \<lambda>_ _. None\<rparr>"
    by (auto simp: pages_view_def store_ref_def group_slots_def store_slots_def slot_overflow_def fun_eq_iff split: prod.split)
  ultimately show thesis
    using f(3) h(3) by (intro that [OF run h(2) g]) (auto simp: stored_view_def intro!: exI [of _ "\<lambda>_. []"])
qed

subsection \<open>Pages taken by an insertion\<close>

text \<open>An insertion takes at most one page from the segment.\<close>

definition spare :: "nat \<Rightarrow> 'p env \<Rightarrow> bool" where "spare k s \<longleftrightarrow> k \<le> length (fresh s)"
definition spends :: "nat \<Rightarrow> ('p, 'a) op \<Rightarrow> bool" where
  "spends k m \<longleftrightarrow> triple (spare (Suc k)) m (\<lambda>_. spare k) (\<lambda>_. spare k)"

lemma spare_pages [keeps]:
  "preserves (spare k) (load r l e)" "preserves (spare k) (release r e)" "preserves (spare k) (upd r f)" "preserves (spare k) (uniform_draw d)"
  "preserves (spare k) (modify (\<lambda>s. s\<lparr>s_last_slot_info := i\<rparr>))"
  by (auto simp: preserves_def triple_def load_def release_def upd_def uniform_draw_def modify_def api_call_def bind_op_def spare_def
      split: option.splits latch.splits list.splits)

lemma spare_root_page [keeps]:
  "preserves (spare k) (RootPage_add_free_page P rp y x n e)" "preserves (spare k) (RootPage_remove_free_page P rp y x e)"
  "preserves (spare k) (RootPage_add_data_page P rp y x e)" "preserves (spare k) (RootPage_page_select P rp y sp)"
  unfolding RootPage_add_free_page_def RootPage_remove_free_page_def RootPage_add_data_page_def RootPage_page_select_def RootPage_get_free_slot_def
    RootPage_get_random_slot_def
  by (intro keeps)+

lemma spends_rules:
  "preserves (spare (Suc k)) m \<Longrightarrow> spends k m"
  "preserves (spare (Suc k)) m \<Longrightarrow> (\<And>x. spends k (f x)) \<Longrightarrow> spends k (bind_op m f)"
  "spends k m \<Longrightarrow> (\<And>x. preserves (spare k) (f x)) \<Longrightarrow> spends k (bind_op m f)"
  "spends k m \<Longrightarrow> spends k n \<Longrightarrow> spends k (if b then m else n)"
  "(\<And>a b. spends k (g a b)) \<Longrightarrow> spends k (case pr of (a, b) \<Rightarrow> g a b)"
  "spends k (load_new P seg e)"
  by (fastforce simp: spends_def preserves_def triple_def spare_def bind_op_def load_new_def take_fresh_def api_call_def
      split: sum.splits prod.splits list.splits)+

lemma insert_spends: "spends k (ColumnStore_insert P cs conc trx (Some bs))"
proof -
  have new: "spends k (ColumnStore_new_data_page P cs)"
    unfolding ColumnStore_new_data_page_def Let_def
    by (rule spends_rules(2) [OF _ spends_rules(3) [OF spends_rules(6)]]; intro keeps)
  have pess: "spends k (ColumnStore_pessimistic_page P cs b)" for b
    unfolding ColumnStore_pessimistic_page_def Let_def
    by (intro spends_rules(2) spends_rules(4,5) new keeps) (intro spends_rules(1) keeps)
  have sel: "spends k (ColumnStore_select_page P cs conc)"
    unfolding ColumnStore_select_page_def Let_def
    by (intro spends_rules(2) spends_rules(4,5) pess keeps) (intro spends_rules(1) keeps)
  show ?thesis
    unfolding ColumnStore_insert_def ColumnStore_insert_record_def option.case Let_def split_beta
    by (rule spends_rules(2) [OF _ spends_rules(3) [OF sel]]; intro keeps)
qed

context store_group
begin

lemma own_roots:
  assumes g: "group_ok P cs K X D s" and k: "k \<in> K"
  shows "\<forall>c\<in>cs ` K. 0 < m_max_num_recs (m_data c) \<and> (m_root_page_ref c = m_root_page_ref (cs k) \<longrightarrow> c = cs k)"
proof (intro ballI conjI impI)
  fix c assume "c \<in> cs ` K"
  then obtain j where j: "c = cs j" "j \<in> K" by blast
  then show "0 < m_max_num_recs (m_data c)" using room by simp
  assume "m_root_page_ref c = m_root_page_ref (cs k)"
  then have "owned (cs j) (D j) \<inter> owned (cs k) (D k) \<noteq> {}" using j(1) by (auto simp: owned_def)
  then have "j = k" using g j(2) k unfolding group_ok_def by blast
  with j(1) show "c = cs k" by simp
qed

end

context level_group
begin

text \<open>While the segment has a page to give, an insertion succeeds.\<close>

lemma insert_succeeds:
  assumes v: "stored_view P ls L M s v" "l \<in> L" and k: "spare (Suc k) (st_env s)"
    and run: "level_call l (\<lambda>ls. LevelStore_insert P ls conc trx e) s = (s', r)"
  shows "r \<noteq> None" "spare k (st_env s')"
proof -
  obtain D where g: "group_ok P (level_cs ls) (L \<times> UNIV) {0} D (st_env s)" using v(1) by (rule stored_viewE)
  note z = sizes_of [OF v(2)]
  have j: "(l, Kind_Neighbour) \<in> L \<times> UNIV" using v(2) by simp
  let ?cs = "level_cs ls (l, Kind_Neighbour)"
  obtain env q where f: "ColumnStore_insert P ?cs conc trx (Some (neighbour_bytes (ls l) e)) (st_env s) = (env, q)"
    by (cases "ColumnStore_insert P ?cs conc trx (Some (neighbour_bytes (ls l) e)) (st_env s)")
  have res: "s' = s\<lparr>st_env := env\<rparr>" "r = None \<longleftrightarrow> (\<exists>x. q = Inl x)"
    using run [unfolded level_call_run [OF v] LevelStore_insert_def f [unfolded cs_simps]] by (auto split: sum.splits)
  from g j obtain fl where si: "store_inv P ?cs (pages (st_env s)) fl (D (l, Kind_Neighbour))" and prim: "pages (st_env s) (m_primary_root_page_ref ?cs) \<noteq> None"
    and I: "calm (level_cs ls ` (L \<times> UNIV)) {0} (st_env s)" by (rule group_okD)
  have C: "\<forall>c\<in>level_cs ls ` (L \<times> UNIV). 0 < m_max_num_recs (m_data c) \<and> (m_root_page_ref c = m_root_page_ref ?cs \<longrightarrow> c = ?cs)"
    by (rule own_roots [OF g j])
  have len: "length (neighbour_bytes (ls l) e) = m_column_size (m_root ?cs)" using length_neighbour_bytes [OF z(2)] by simp
  note o = store_layout.insert_calm [OF layouts [OF j] si quarters [OF j] prim len I imageI [OF j] C f]
  show "r \<noteq> None" using o(2) I k by (auto simp: res ins_error_def calm_def spare_def)
  show "spare k (st_env s')"
    using insert_spends [of k P ?cs conc trx "neighbour_bytes (ls l) e"] k f by (auto simp: spends_def triple_def res split: sum.splits)
qed

end

context level_group
begin

lemma create_succeeds:
  assumes v: "stored_view P ls L M s v" "l \<in> L" and k: "spare (Suc k) (st_env s)" and key: "ix_get_key_ref X data = Some owner"
    and run: "IndexGraph_create_node X (stored_graph P empty_ref U) trx None l data ns s = Some (s', r)"
  shows "r \<noteq> None" "spare k (st_env s')"
proof -
  let ?S = "stored_graph P empty_ref U" and ?e = "new_entry owner ns"
  obtain s1 q where ins: "gs_insert ?S l trx ?e (gs_enter ?S s) = (s1, q)" by (cases "gs_insert ?S l trx ?e (gs_enter ?S s)")
  have v1: "stored_view P ls L M (gs_enter ?S s) v" by (rule enter [OF v(1)])
  have k1: "spare (Suc k) (st_env (gs_enter ?S s))" using k by (simp add: stored_graph_def spare_def)
  have "level_call l (\<lambda>ls. LevelStore_insert P ls (su_concurrency U (gs_enter ?S s)) trx ?e) (gs_enter ?S s) = (s1, q)"
    using ins by (simp add: stored_graph_def)
  note o = insert_succeeds [OF v1 v(2) k1 this]
  then obtain n where n: "q = Some n" by blast
  have "own_mtr ?S (gbind (call (gs_insert ?S l trx ?e)) (\<lambda>n. gret \<lparr>nd_nid = n, nd_vid = owner\<rparr>)) s = Some (s', r)"
    using run unfolding IndexGraph_create_node_def key option.case gbind_laws new_entry_def [symmetric] .
  then have "s' = gs_leave ?S s s1" "r \<noteq> None"
    using ins n by (auto simp: own_mtr_def gbind_def call_def gret_def)
  with o(2) show "r \<noteq> None" "spare k (st_env s')" by (simp_all add: stored_graph_def spare_def)
qed

lemmas stored_create_node = create_node_outcome
lemmas stored_link_neighbours = link_neighbours_outcome

end

subsection \<open>Properties\<close>



subsection \<open>A small index\<close>

definition small_options :: options where "small_options = default_options\<lparr>opt_M := 5, opt_ef_construction := 64\<rparr>"
definition small_env :: "buffer env" where
  "small_env = fake_store_env\<lparr>pages := (pages fake_store_env)(0 \<mapsto> fake_root_page), fresh := [2, 3, 4, 5, 6, 7]\<rparr>"
definition small_surroundings :: "buffer surroundings" where
  "small_surroundings = \<lparr>su_concurrency = \<lambda>_. 1, su_buffer = \<lambda>_. replicate 132 0, su_others = id\<rparr>"
definition small_start :: "buffer index_state" where
  "small_start = (case IndexStore_create fake_api 0 3 small_options (small_env, new_index_store) of ((s, st), _) \<Rightarrow>
     \<lparr>st_env = s, st_store = st, st_locks = \<lparr>hl_graph = None, hl_level = \<lambda>_. None, hl_operation = \<lambda>_. None\<rparr>\<rparr>)"
definition small_levels :: "nat \<Rightarrow> level_store" where "small_levels = level_of (st_store small_start)"

definition empty_view :: level_view where
  "empty_view = \<lparr>lv_levels = {0}, lv_known = \<lambda>_. {}, lv_oknown = \<lambda>_. {}, lv_nodes = \<lambda>_ _. None, lv_chains = \<lambda>_ _. None\<rparr>"

lemma small_index:
  "level_group fake_api small_surroundings small_levels {0} 5" "stored_view fake_api small_levels {0} 5 small_start empty_view" "spare 2 (st_env small_start)"
proof -
  have M: "opt_M small_options = 5" by (simp add: small_options_def)
  have valid: "Options_validate small_options = None"
    using default_valid by (simp add: small_options_def validate_bounds default_options_def DEFAULT_M_def)
  have env: "faults small_env = []" "fresh_ok small_env" "fresh small_env = 2 # 3 # [4, 5, 6, 7]" "s_last_slot_info small_env = init_last_slot_info" "pages small_env 0 \<noteq> None"
    by (auto simp: small_env_def fake_store_env_def fake_env_def fresh_ok_def INVALID_REF_def)
  have m: "min 8 (5::nat) = 5" by simp
  obtain s' st where run: "IndexStore_create fake_api 0 3 small_options (small_env, new_index_store) = ((s', st), Inr ())" "fresh s' = [4, 5, 6, 7]"
    and g: "level_group fake_api small_surroundings (level_of st) {0} (opt_M small_options)"
    and sv: "\<forall>k. stored_view fake_api (level_of st) {0} (opt_M small_options) \<lparr>st_env = s', st_store = st, st_locks = k\<rparr>
       \<lparr>lv_levels = {0}, lv_known = \<lambda>_. {}, lv_oknown = \<lambda>_. {}, lv_nodes = \<lambda>_ _. None, lv_chains = \<lambda>_ _. None\<rparr>"
    by (rule created_levels [OF fake.page_api_axioms fake_page_size valid env, where U = small_surroundings])
      (simp_all add: M m roomy_def small_surroundings_def small_pages)
  then show "level_group fake_api small_surroundings small_levels {0} 5" "stored_view fake_api small_levels {0} 5 small_start empty_view" "spare 2 (st_env small_start)"
    by (simp_all add: small_start_def small_levels_def M empty_view_def spare_def)
qed

interpretation small: level_group fake_api 0 small_surroundings small_levels "{0}" 5
  by (rule small_index)

definition small_calls :: "(buffer index_state, vid, real) index_calls" where
  "small_calls = \<lparr>ix_get_key_ref = Some, ix_get_key_data = Some, ix_helper = \<lambda>a b. real_of_int (\<bar>uint a - uint b\<bar>), ix_unif = \<lambda>_. 1 / 2\<rparr>"

lemma empty_level: "level_ok w c {} (\<lambda>_. None) (\<lambda>_. None) (\<lambda>_. [])" "anchored (\<lambda>_. None)"
  by (auto simp: level_ok_def lists_ok_def chains_ok_def linked_def anchored_def slots_of_def)


text \<open>A second node, created with a link to the first, is then linked to it.\<close>

lemma view_known: "stored_view P ls L M s v \<Longrightarrow> stored_view P ls L M (s\<lparr>st_locks := k\<rparr>) v"
  by (simp add: stored_view_def)

lemma small_locked: "stored_view fake_api small_levels {0} 5 s v \<Longrightarrow> stored_view fake_api small_levels {0} 5 (gs_lock_operation (stored_graph fake_api 0 small_surroundings) l m s) v"
  by (simp add: stored_graph_def small_surroundings_def view_known)

lemma small_pair:
  obtains s :: "buffer index_state" and v K and node :: hnsw_node and b where "stored_view fake_api small_levels {0} 5 s v" "level_ok (max_neighbours 0 5) (overflow_capacity 0 5) (lv_known v 0) (lv_nodes v 0) (lv_chains v 0) K"
    "nd_nid node \<in> dom (lv_nodes v 0)" "b \<in> dom (lv_nodes v 0)" "flagged (slots_of (lv_nodes v 0) (nd_nid node)) = {b}" "named (slots_of (lv_nodes v 0) b) = {}"
proof -
  let ?S = "stored_graph fake_api 0 small_surroundings"
  have key: "ix_get_key_ref small_calls x = Some x" for x by (simp add: small_calls_def)
  have create: "\<exists>s' node w. IndexGraph_create_node small_calls ?S 7 None 0 x ns s = Some (s', Some node) \<and> stored_view fake_api small_levels {0} 5 s' w
      \<and> node_created (max_neighbours 0 5) (overflow_capacity 0 5) 0 None x ns K v node w \<and> spare k (st_env s')"
    if v: "stored_view fake_api small_levels {0} 5 s v" "spare (Suc k) (st_env s)"
      "level_ok (max_neighbours 0 5) (overflow_capacity 0 5) (lv_known v 0) (lv_nodes v 0) (lv_chains v 0) K" "anchored (lv_nodes v 0)"
      "length ns \<le> max_neighbours 0 5" "distinct (map nd_nid ns)" "nd_nid ` set ns \<subseteq> dom (lv_nodes v 0)" for s v K ns x k
  proof -
    have "lv_levels v = {0}" using v(1) by (auto simp: stored_view_def pages_view_def)
    then obtain s' r w where run: "IndexGraph_create_node small_calls ?S 7 None 0 x ns s = Some (s', r)" and w: "stored_view fake_api small_levels {0} 5 s' w"
        and c: "case r of None \<Rightarrow> lv_nodes w = lv_nodes v | Some node \<Rightarrow> node_created (max_neighbours 0 5) (overflow_capacity 0 5) 0 None x ns K v node w"
      using small.stored_create_node [where parent = None and trx = 7, OF v(1) _ _ v(3,4) key [of x] _ v(5-7)] by auto
    from small.create_succeeds [OF v(1) _ v(2) key run] obtain node where "r = Some node" "spare k (st_env s')" by auto
    with run w c show ?thesis by auto
  qed
  have sp: "spare (Suc 1) (st_env small_start)" using small_index(3) by (simp add: numeral_2_eq_2)
  obtain s1 n1 w1 where 1: "stored_view fake_api small_levels {0} 5 s1 w1" "node_created (max_neighbours 0 5) (overflow_capacity 0 5) 0 None 9 [] (\<lambda>_. []) empty_view n1 w1"
      "spare (Suc 0) (st_env s1)"
    using create [OF small_index(2) sp, of "\<lambda>_. []" "[]" 9] empty_level by (auto simp: empty_view_def)
  obtain s2 n2 w2 where 2: "stored_view fake_api small_levels {0} 5 s2 w2"
      "node_created (max_neighbours 0 5) (overflow_capacity 0 5) 0 None 11 [n1] ((\<lambda>_. [])(nd_nid n1 := [])) w1 n2 w2"
    using create [OF 1(1,3), of "(\<lambda>_. [])(nd_nid n1 := [])" "[n1]" 11] 1(2)
    by (auto simp: node_created_def max_neighbours_def has_lower_level_def)
  have n1: "named (slots_of (lv_nodes w1 0) (nd_nid n1)) = {}" using 1(2) by (simp add: node_created_def named_split)
  have ne: "nd_nid n1 \<noteq> nd_nid n2" using 1(2) 2(2) by (auto simp: node_created_def)
  have "lv_nodes w2 0 = (lv_nodes w1 0)(nd_nid n2 := lv_nodes w2 0 (nd_nid n2))" using 2(2) by (simp add: node_created_def)
  then have "lv_nodes w2 0 (nd_nid n1) = lv_nodes w1 0 (nd_nid n1)" using ne by (metis fun_upd_other)
  then show thesis
    using 1(2) 2 n1 by (intro that [of s2 w2 _ n2 "nd_nid n1"]) (auto simp: node_created_def slots_of_def)
qed


end
