(* ===== verification/Native_Vector.thy ===== *)
theory Native_Vector
  imports Prelude
begin

text \<open>
  Vectors in memory (\<^verbatim>\<open>native_vector.h\<close>, \<^verbatim>\<open>native_vector.cc\<close>). A \<^verbatim>\<open>float\<close> is its 32-bit pattern, which is all that storing and
  reading one depends on. Arithmetic on \<^verbatim>\<open>float\<close> and \<^verbatim>\<open>double\<close> is that of the machine: the record \<open>fpu\<close> holds the operations the
  distance functions use, on a type of \<^verbatim>\<open>double\<close> values that does not tell not-a-numbers apart.
\<close>

unbundle bit_operations_syntax

type_synonym float_bits = "32 word"

definition MAX_VECTOR_DIMENSION :: nat where "MAX_VECTOR_DIMENSION = 3072"
definition FLOAT_SIZE :: nat where "FLOAT_SIZE = 4"

subsection \<open>Floats in little-endian order\<close>

definition float4store :: "float_bits \<Rightarrow> byte list" where
  "float4store bits = [ucast bits, ucast (drop_bit 8 bits), ucast (drop_bit 16 bits), ucast (drop_bit 24 bits)]"

definition float4get :: "byte list \<Rightarrow> nat \<Rightarrow> float_bits" where
  "float4get buffer off = ucast (buffer ! off) OR push_bit 8 (ucast (buffer ! (off + 1))) OR push_bit 16 (ucast (buffer ! (off + 2)))
     OR push_bit 24 (ucast (buffer ! (off + 3)))"

subsection \<open>The native form\<close>

record native_data =
  nv_dim :: nat
  nv_data :: "float_bits list"

record native_length =
  nl_length :: nat
  nl_alignment :: nat

text \<open>\<^verbatim>\<open>alignof(max_align_t)\<close> on the platforms the extension is built for, and the size of \<^verbatim>\<open>Data\<close> without its array.\<close>

definition MAX_ALIGN :: nat where "MAX_ALIGN = 16"
definition DATA_HEADER_SIZE :: nat where "DATA_HEADER_SIZE = 4"

definition native_len :: "nat \<Rightarrow> native_length" where
  "native_len dimension =
     (let dim = (if dimension > MAX_VECTOR_DIMENSION then MAX_VECTOR_DIMENSION else dimension) in
      \<lparr>nl_length = DATA_HEADER_SIZE + dim * FLOAT_SIZE, nl_alignment = MAX_ALIGN\<rparr>)"

definition is_aligned :: "64 word \<Rightarrow> nat \<Rightarrow> bool" where
  "is_aligned ptr alignment \<longleftrightarrow> ptr AND (word_of_nat alignment - 1) = 0"

text \<open>
  A null pointer is \<open>None\<close>; a buffer is its address and its length. The result is \<open>None\<close> when the source returns true.
\<close>

definition from_encoded :: "byte list option \<Rightarrow> (64 word \<times> nat) option \<Rightarrow> native_data option" where
  "from_encoded encoded_data native_buffer =
     (case (encoded_data, native_buffer) of
        (Some encoded, Some (ptr, native_buf_len)) \<Rightarrow>
          if length encoded mod FLOAT_SIZE \<noteq> 0 then None
          else
            let dim = u32 (length encoded div FLOAT_SIZE) in
            if dim = 0 \<or> dim > MAX_VECTOR_DIMENSION then None
            else if native_buf_len < nl_length (native_len dim) then None
            else if \<not> is_aligned ptr (nl_alignment (native_len dim)) then None
            else Some \<lparr>nv_dim = dim, nv_data = map (\<lambda>i. float4get encoded (i * FLOAT_SIZE)) [0..<dim]\<rparr>
      | _ \<Rightarrow> None)"

definition to_encoded :: "native_data option \<Rightarrow> nat option \<Rightarrow> bool \<Rightarrow> byte list option" where
  "to_encoded native_data encoded_buffer has_len =
     (case (native_data, encoded_buffer) of
        (Some native, Some encoded_buf_len) \<Rightarrow>
          if \<not> has_len then None
          else
            let dim = nv_dim native in
            if dim = 0 \<or> dim > MAX_VECTOR_DIMENSION then None
            else
              let required_size = dim * FLOAT_SIZE in
              if encoded_buf_len < required_size then None
              else Some (concat (map (\<lambda>i. float4store (nv_data native ! i)) [0..<dim]))
      | _ \<Rightarrow> None)"

subsection \<open>Aligned buffers\<close>

text \<open>
  Where the memory of an \<^verbatim>\<open>AlignedBuffer\<close> is; \<open>allocs\<close> counts the live heap allocations of the thread and \<open>heap_gives\<close> says
  whether \<^verbatim>\<open>operator new\<close> delivers.
\<close>

datatype buffer_place = No_Buffer | On_Stack | On_Heap

record aligned_buffer =
  ab_ptr :: buffer_place
  ab_size :: nat
  ab_alignment :: nat

definition new_buffer :: aligned_buffer where
  "new_buffer = \<lparr>ab_ptr = No_Buffer, ab_size = 0, ab_alignment = 0\<rparr>"

definition AlignedBuffer_reset :: "aligned_buffer \<Rightarrow> nat \<Rightarrow> aligned_buffer \<times> nat" where
  "AlignedBuffer_reset b allocs = (\<lparr>ab_ptr = No_Buffer, ab_size = 0, ab_alignment = 0\<rparr>, if ab_ptr b = On_Heap then allocs - 1 else allocs)"

definition AlignedBuffer_init :: "nat \<Rightarrow> (nat \<Rightarrow> nat \<Rightarrow> bool) \<Rightarrow> nat \<Rightarrow> nat \<Rightarrow> aligned_buffer \<Rightarrow> nat \<Rightarrow> (aligned_buffer \<times> nat) \<times> bool" where
  "AlignedBuffer_init stack_bytes heap_gives sz alignment b allocs =
     (let (b', allocs') = AlignedBuffer_reset b allocs in
      if sz \<le> stack_bytes \<and> alignment \<le> MAX_ALIGN then ((\<lparr>ab_ptr = On_Stack, ab_size = sz, ab_alignment = alignment\<rparr>, allocs'), True)
      else if \<not> heap_gives sz alignment then ((\<lparr>ab_ptr = No_Buffer, ab_size = 0, ab_alignment = 0\<rparr>, allocs'), False)
      else ((\<lparr>ab_ptr = On_Heap, ab_size = sz, ab_alignment = alignment\<rparr>, allocs' + 1), True))"

definition AlignedBuffer_is_initialized :: "aligned_buffer \<Rightarrow> bool" where "AlignedBuffer_is_initialized b \<longleftrightarrow> ab_ptr b \<noteq> No_Buffer"
definition AlignedBuffer_uses_heap :: "aligned_buffer \<Rightarrow> bool" where "AlignedBuffer_uses_heap b \<longleftrightarrow> ab_ptr b = On_Heap"

subsection \<open>Distances\<close>

record 'd fpu =
  fp_double :: "float_bits \<Rightarrow> 'd"
  fp_fsub :: "float_bits \<Rightarrow> float_bits \<Rightarrow> float_bits"
  fp_fmul :: "float_bits \<Rightarrow> float_bits \<Rightarrow> float_bits"
  fp_fabs :: "float_bits \<Rightarrow> float_bits"
  fp_zero :: 'd
  fp_one :: 'd
  fp_add :: "'d \<Rightarrow> 'd \<Rightarrow> 'd"
  fp_sub :: "'d \<Rightarrow> 'd \<Rightarrow> 'd"
  fp_mul :: "'d \<Rightarrow> 'd \<Rightarrow> 'd"
  fp_div :: "'d \<Rightarrow> 'd \<Rightarrow> 'd"
  fp_sqrt :: "'d \<Rightarrow> 'd"
  fp_less :: "'d \<Rightarrow> 'd \<Rightarrow> bool"

definition dist_l1 :: "'d fpu \<Rightarrow> native_data \<Rightarrow> native_data \<Rightarrow> 'd" where
  "dist_l1 F v1 v2 = foldl (\<lambda>result i. fp_add F result (fp_double F (fp_fabs F (fp_fsub F (nv_data v1 ! i) (nv_data v2 ! i))))) (fp_zero F) [0..<nv_dim v1]"

definition dist_squared_l2 :: "'d fpu \<Rightarrow> native_data \<Rightarrow> native_data \<Rightarrow> 'd" where
  "dist_squared_l2 F v1 v2 = foldl (\<lambda>result i.
     let diff = fp_sub F (fp_double F (nv_data v1 ! i)) (fp_double F (nv_data v2 ! i)) in fp_add F result (fp_mul F diff diff)) (fp_zero F) [0..<nv_dim v1]"

definition dist_l2 :: "'d fpu \<Rightarrow> native_data \<Rightarrow> native_data \<Rightarrow> 'd" where
  "dist_l2 F v1 v2 = fp_sqrt F (dist_squared_l2 F v1 v2)"

definition dist_cosine :: "'d fpu \<Rightarrow> native_data \<Rightarrow> native_data \<Rightarrow> 'd" where
  "dist_cosine F v1 v2 =
     (let (dot, norm1, norm2) = foldl (\<lambda>(dot, norm1, norm2) i.
            let x = fp_double F (nv_data v1 ! i); y = fp_double F (nv_data v2 ! i) in
            (fp_add F dot (fp_mul F x y), fp_add F norm1 (fp_mul F x x), fp_add F norm2 (fp_mul F y y)))
            (fp_zero F, fp_zero F, fp_zero F) [0..<nv_dim v1];
          denom = fp_mul F (fp_sqrt F norm1) (fp_sqrt F norm2) in
      if fp_less F (fp_zero F) denom then fp_sub F (fp_one F) (fp_div F dot denom) else fp_one F)"

definition dist_inner_product :: "'d fpu \<Rightarrow> native_data \<Rightarrow> native_data \<Rightarrow> 'd" where
  "dist_inner_product F v1 v2 = foldl (\<lambda>result i. fp_add F result (fp_double F (fp_fmul F (nv_data v1 ! i) (nv_data v2 ! i)))) (fp_zero F) [0..<nv_dim v1]"

definition norm_l2 :: "'d fpu \<Rightarrow> native_data \<Rightarrow> 'd" where
  "norm_l2 F v = fp_sqrt F (foldl (\<lambda>sum_sq i. let val = fp_double F (nv_data v ! i) in fp_add F sum_sq (fp_mul F val val)) (fp_zero F) [0..<nv_dim v])"

subsection \<open>Floats survive storing\<close>

lemma float4store_length [simp]: "length (float4store f) = 4"
  by (simp add: float4store_def)

lemma float4_bytes:
  fixes f :: float_bits
  shows "ucast (ucast f :: byte) OR push_bit 8 (ucast (ucast (drop_bit 8 f) :: byte)) OR push_bit 16 (ucast (ucast (drop_bit 16 f) :: byte))
     OR push_bit 24 (ucast (ucast (drop_bit 24 f) :: byte)) = f"
proof (rule bit_word_eqI)
  fix n :: nat assume "n < LENGTH(32)"
  then consider "n < 8" | "8 \<le> n" "n < 16" | "16 \<le> n" "n < 24" | "24 \<le> n" "n < 32" by fastforce
  then show "bit (ucast (ucast f :: byte) OR push_bit 8 (ucast (ucast (drop_bit 8 f) :: byte)) OR push_bit 16 (ucast (ucast (drop_bit 16 f) :: byte))
     OR push_bit 24 (ucast (ucast (drop_bit 24 f) :: byte)) :: float_bits) n \<longleftrightarrow> bit f n"
    by cases (auto simp: bit_simps)
qed

lemma bytes_float4:
  fixes a b c d :: byte
  defines "w \<equiv> ucast a OR push_bit 8 (ucast b) OR push_bit 16 (ucast c) OR push_bit 24 (ucast d) :: float_bits"
  shows "ucast w = a" "ucast (drop_bit 8 w) = b" "ucast (drop_bit 16 w) = c" "ucast (drop_bit 24 w) = d"
  unfolding w_def by (rule bit_word_eqI, auto simp: bit_simps dest: bit_imp_le_length)+

lemma float4get_append: "length xs = off \<Longrightarrow> float4get (xs @ float4store f @ rest) off = f"
  by (simp add: float4get_def float4store_def nth_append float4_bytes)

lemma float4store_get:
  assumes "off + 4 \<le> length bs"
  shows "float4store (float4get bs off) = take 4 (drop off bs)"
proof -
  have "take 4 (drop off bs) = [bs ! off, bs ! (off + 1), bs ! (off + 2), bs ! (off + 3)]"
    using assms by (intro nth_equalityI) (auto simp: less_Suc_eq numeral_eq_Suc)
  then show ?thesis unfolding float4store_def float4get_def bytes_float4 by simp
qed

subsection \<open>Vectors survive storing\<close>

definition encode_floats :: "float_bits list \<Rightarrow> byte list" where "encode_floats fs = concat (map float4store fs)"
definition decode_floats :: "byte list \<Rightarrow> nat \<Rightarrow> float_bits list" where
  "decode_floats bs n = map (\<lambda>i. float4get bs (i * FLOAT_SIZE)) [0..<n]"

lemma length_encode_floats [simp]: "length (encode_floats fs) = 4 * length fs"
  by (induction fs) (simp_all add: encode_floats_def)

lemma encode_floats_append [simp]: "encode_floats (xs @ ys) = encode_floats xs @ encode_floats ys"
  by (simp add: encode_floats_def)

lemma floats_decode_encode: "decode_floats (encode_floats fs @ rest) (length fs) = fs"
proof (rule nth_equalityI)
  fix i assume "i < length (decode_floats (encode_floats fs @ rest) (length fs))"
  then have i: "i < length fs" by (simp add: decode_floats_def)
  have "encode_floats fs = encode_floats (take i fs) @ float4store (fs ! i) @ encode_floats (drop (Suc i) fs)"
    unfolding encode_floats_def by (subst id_take_nth_drop [OF i]) simp
  then have "float4get (encode_floats fs @ rest) (i * FLOAT_SIZE) = fs ! i"
    using i float4get_append [of "encode_floats (take i fs)" "i * 4"] by (simp add: FLOAT_SIZE_def)
  with i show "decode_floats (encode_floats fs @ rest) (length fs) ! i = fs ! i" by (simp add: decode_floats_def)
qed (simp add: decode_floats_def)

lemma floats_encode_decode: "4 * n \<le> length bs \<Longrightarrow> encode_floats (decode_floats bs n) = take (4 * n) bs"
proof (induction n)
  case (Suc n)
  have "take (4 * Suc n) bs = take (4 * n) bs @ take 4 (drop (4 * n) bs)"
    by (metis mult_Suc_right add.commute take_add)
  moreover have "float4store (float4get bs (n * FLOAT_SIZE)) = take 4 (drop (4 * n) bs)"
    using Suc.prems by (subst float4store_get) (simp_all add: FLOAT_SIZE_def mult.commute)
  ultimately show ?case using Suc by (simp add: decode_floats_def encode_floats_def)
qed (simp add: decode_floats_def encode_floats_def)

lemma native_fold: "map (\<lambda>i. float4get bs (i * FLOAT_SIZE)) [0..<n] = decode_floats bs n"
  by (simp add: decode_floats_def)

lemma store_fold: "length fs = n \<Longrightarrow> concat (map (\<lambda>i. float4store (fs ! i)) [0..<n]) = encode_floats fs"
  unfolding encode_floats_def by (rule arg_cong [where f = concat]) (rule nth_equalityI, simp_all)

text \<open>A native vector as the rest of the program makes it.\<close>

definition native_ok :: "native_data \<Rightarrow> bool" where
  "native_ok v \<longleftrightarrow> length (nv_data v) = nv_dim v \<and> 0 < nv_dim v \<and> nv_dim v \<le> MAX_VECTOR_DIMENSION"

lemma from_encoded_iff:
  assumes "length bs < 2 ^ 34"
  shows "from_encoded (Some bs) (Some (ptr, n)) = Some v \<longleftrightarrow>
    (length bs = 4 * nv_dim v \<and> 0 < nv_dim v \<and> nv_dim v \<le> MAX_VECTOR_DIMENSION \<and> 4 + length bs \<le> n \<and> is_aligned ptr 16 \<and> nv_data v = decode_floats bs (nv_dim v))"
proof -
  have "length bs div 4 < 2 ^ 32" using assms by simp
  then have u: "u32 (length bs div 4) = length bs div 4" by (simp add: u32_def)
  have "length bs mod 4 = 0 \<longleftrightarrow> length bs = 4 * (length bs div 4)" by presburger
  with u show ?thesis
    by (cases v) (auto simp: from_encoded_def FLOAT_SIZE_def native_len_def Let_def DATA_HEADER_SIZE_def MAX_ALIGN_def native_fold [unfolded FLOAT_SIZE_def])
qed

lemma to_encoded_ok: "native_ok v \<Longrightarrow> 4 * nv_dim v \<le> n \<Longrightarrow> to_encoded (Some v) (Some n) True = Some (encode_floats (nv_data v))"
  by (simp add: to_encoded_def native_ok_def FLOAT_SIZE_def Let_def store_fold mult.commute)

text \<open>
  C24: Vectors in memory and on disk are the same vectors. Encoding a native vector into a buffer that is large enough and reading it back, into any
  aligned buffer of the size \<^verbatim>\<open>length\<close> gives, returns it bit by bit, not-a-numbers and signed zeros included; and the bytes of
  any encoding that is accepted come back when the vector is encoded again.
\<close>

theorem native_roundtrip:
  "(native_ok v \<and> 4 * nv_dim v \<le> n \<and> is_aligned ptr 16 \<and> nl_length (native_len (nv_dim v)) \<le> m \<longrightarrow>
      (\<exists>bs. to_encoded (Some v) (Some n) True = Some bs \<and> length bs = 4 * nv_dim v \<and> from_encoded (Some bs) (Some (ptr, m)) = Some v))
   \<and> (length bs' < 2 ^ 34 \<and> from_encoded (Some bs') (Some (ptr, m)) = Some v' \<longrightarrow>
      native_ok v' \<and> to_encoded (Some v') (Some (length bs')) True = Some bs')"
proof (intro conjI impI)
  assume a: "native_ok v \<and> 4 * nv_dim v \<le> n \<and> is_aligned ptr 16 \<and> nl_length (native_len (nv_dim v)) \<le> m"
  then have d: "length (nv_data v) = nv_dim v" "0 < nv_dim v" "nv_dim v \<le> MAX_VECTOR_DIMENSION" by (simp_all add: native_ok_def)
  have "from_encoded (Some (encode_floats (nv_data v))) (Some (ptr, m)) = Some v"
    using a d floats_decode_encode [of "nv_data v" "[]"]
    by (subst from_encoded_iff) (simp_all add: native_len_def Let_def FLOAT_SIZE_def DATA_HEADER_SIZE_def mult.commute MAX_VECTOR_DIMENSION_def)
  then show "\<exists>bs. to_encoded (Some v) (Some n) True = Some bs \<and> length bs = 4 * nv_dim v \<and> from_encoded (Some bs) (Some (ptr, m)) = Some v"
    using a d to_encoded_ok by auto
next
  assume a: "length bs' < 2 ^ 34 \<and> from_encoded (Some bs') (Some (ptr, m)) = Some v'"
  then have f: "length bs' = 4 * nv_dim v'" "nv_data v' = decode_floats bs' (nv_dim v')" and ok: "native_ok v'"
    using from_encoded_iff [of bs' ptr m v'] by (auto simp: native_ok_def decode_floats_def)
  have "encode_floats (nv_data v') = bs'" using floats_encode_decode [of "nv_dim v'" bs'] f by simp
  with ok f(1) show "native_ok v'" "to_encoded (Some v') (Some (length bs')) True = Some bs'" using to_encoded_ok [of v'] by simp_all
qed

theorem native_roundtrip_witness:
  "from_encoded (Some [0, 0, 128, 63, 0, 0, 0, 128]) (Some (32, 12)) = Some \<lparr>nv_dim = 2, nv_data = [0x3F800000, 0x80000000]\<rparr>
   \<and> to_encoded (Some \<lparr>nv_dim = 2, nv_data = [0x3F800000, 0x80000000]\<rparr>) (Some 8) True = Some [0, 0, 128, 63, 0, 0, 0, 128]"
proof -
  have a: "is_aligned 32 16" by (simp add: is_aligned_def)
  have "decode_floats [0, 0, 128, 63, 0, 0, 0, 128] 2 = [0x3F800000, 0x80000000]"
    by (simp add: decode_floats_def upt_conv_Cons FLOAT_SIZE_def float4get_def)
  then have f: "from_encoded (Some [0, 0, 128, 63, 0, 0, 0, 128]) (Some (32, 12)) = Some \<lparr>nv_dim = 2, nv_data = [0x3F800000, 0x80000000]\<rparr>"
    using a by (subst from_encoded_iff) (simp_all add: MAX_VECTOR_DIMENSION_def)
  let ?bs = "[0, 0, 128, 63, 0, 0, 0, 128] :: byte list" and ?v = "\<lparr>nv_dim = 2, nv_data = [0x3F800000, 0x80000000]\<rparr>"
  have l: "length ?bs = 8" by simp
  then have "length ?bs < 2 ^ 34 \<and> from_encoded (Some ?bs) (Some (32, 12)) = Some ?v" using f by simp
  then have "to_encoded (Some ?v) (Some (length ?bs)) True = Some ?bs"
    using conjunct2 [OF native_roundtrip [of ?v 0 32 12 ?bs ?v]] by blast
  with f show ?thesis unfolding l by blast
qed

subsection \<open>Buffers\<close>

definition owned_blocks :: "aligned_buffer \<Rightarrow> nat" where "owned_blocks b = (if AlignedBuffer_uses_heap b then 1 else 0)"

fun init_all :: "nat \<Rightarrow> (nat \<Rightarrow> nat \<Rightarrow> bool) \<Rightarrow> (nat \<times> nat) list \<Rightarrow> aligned_buffer \<times> nat \<Rightarrow> aligned_buffer \<times> nat" where
  "init_all stack heap [] bn = bn"
| "init_all stack heap ((sz, al) # rs) bn = init_all stack heap rs (fst (AlignedBuffer_init stack heap sz al (fst bn) (snd bn)))"

lemma init_owned:
  assumes "AlignedBuffer_init stack heap sz al b n = ((b', n'), ok)" "owned_blocks b \<le> n"
  shows "n' + owned_blocks b = n + owned_blocks b'" "owned_blocks b' \<le> n'"
  using assms by (auto simp: AlignedBuffer_init_def AlignedBuffer_reset_def Let_def owned_blocks_def AlignedBuffer_uses_heap_def split: if_splits)

lemma init_all_owned: "owned_blocks b \<le> n \<Longrightarrow> init_all stack heap rs (b, n) = (b', n') \<Longrightarrow> n' + owned_blocks b = n + owned_blocks b' \<and> owned_blocks b' \<le> n'"
proof (induction rs arbitrary: b n)
  case (Cons r rs)
  obtain sz al where r: "r = (sz, al)" by (cases r)
  obtain b1 n1 ok where i: "AlignedBuffer_init stack heap sz al b n = ((b1, n1), ok)" by (metis surj_pair)
  note o = init_owned [OF i Cons.prems(1)]
  have "init_all stack heap rs (b1, n1) = (b', n')" using Cons.prems(2) by (simp add: r i)
  from Cons.IH [OF o(2) this] o(1) show ?case by simp
qed simp

text \<open>
  A buffer owns at most one heap block, and gives it back. Any sequence of initialisations, whether they succeed or not, followed
  by the destructor leaves as many live blocks as before; after every initialisation that succeeds the buffer has the size and the alignment
  asked for, on the stack exactly when both fit, and after one that fails it is empty.
\<close>

theorem aligned_buffer_balanced:
  "(case init_all stack heap rs (new_buffer, n) of (b, m) \<Rightarrow> snd (AlignedBuffer_reset b m)) = n
   \<and> (case AlignedBuffer_init stack heap sz al b0 m of ((b, _), ok) \<Rightarrow>
        ok = AlignedBuffer_is_initialized b \<and> (if ok then ab_size b = sz \<and> ab_alignment b = al \<and> AlignedBuffer_uses_heap b = (sz > stack \<or> al > MAX_ALIGN) else b = new_buffer \<and> \<not> heap sz al))"
proof
  obtain b m where i: "init_all stack heap rs (new_buffer, n) = (b, m)" by fastforce
  have "m = n + owned_blocks b"
    using init_all_owned [OF _ i] by (simp add: owned_blocks_def new_buffer_def AlignedBuffer_uses_heap_def)
  then show "(case init_all stack heap rs (new_buffer, n) of (b, m) \<Rightarrow> snd (AlignedBuffer_reset b m)) = n"
    by (simp add: i AlignedBuffer_reset_def owned_blocks_def AlignedBuffer_uses_heap_def)
  show "case AlignedBuffer_init stack heap sz al b0 m of ((b, _), ok) \<Rightarrow>
        ok = AlignedBuffer_is_initialized b \<and> (if ok then ab_size b = sz \<and> ab_alignment b = al \<and> AlignedBuffer_uses_heap b = (sz > stack \<or> al > MAX_ALIGN) else b = new_buffer \<and> \<not> heap sz al)" for m
    by (auto simp: AlignedBuffer_init_def AlignedBuffer_reset_def Let_def AlignedBuffer_is_initialized_def AlignedBuffer_uses_heap_def new_buffer_def)
qed

end
