(* ===== verification/Svector.thy ===== *)
theory Svector
  imports Native_Vector Index_Meta "HOL-Library.AList"
begin

text \<open>
  The SQL type SVECTOR and its functions (\<^verbatim>\<open>vector.cc\<close>). A value is the storage reference, eight bytes that are zero until the
  row is stored, followed by the floats. The conversions between text and floats of the C and C++ libraries are parameters:
  \<open>strtof\<close> returns the value, the number of characters it has read, none for no conversion, and whether the value was out of range;
  \<open>to_chars\<close> returns the text, or nothing when it does not fit into the sixteen characters offered.
\<close>

subsection \<open>Parameters of the type\<close>

type_synonym strtof_fn = "string \<Rightarrow> float_bits \<times> nat \<times> bool"

datatype chars_format = General | Fixed

type_synonym to_chars_fn = "chars_format \<Rightarrow> nat \<Rightarrow> float_bits \<Rightarrow> string option"

definition STORAGE_REF_SIZE :: nat where "STORAGE_REF_SIZE = 8"
definition MAX_FLOAT_STR_LENGTH :: nat where "MAX_FLOAT_STR_LENGTH = 16"
definition DECODE_BUFFER_SIZE :: "nat \<Rightarrow> nat" where "DECODE_BUFFER_SIZE n = 2 + n * MAX_FLOAT_STR_LENGTH + (n - 1) + 1"
definition VECTOR_STACK_BUFFER_SIZE :: nat where "VECTOR_STACK_BUFFER_SIZE = 4096"
definition kSVectorMaxPersistedLength :: nat where "kSVectorMaxPersistedLength = STORAGE_REF_SIZE + MAX_VECTOR_DIMENSION * FLOAT_SIZE"
definition FLOAT_DIGITS10 :: nat where "FLOAT_DIGITS10 = 9"

text \<open>Conversion to \<^verbatim>\<open>size_t\<close>.\<close>

definition usize :: "int \<Rightarrow> nat" where "usize i = nat (i mod 2 ^ 64)"

text \<open>\<^verbatim>\<open>strtoll\<close> with base 10 on a string that ends at its first NUL, and \<^verbatim>\<open>std::to_string\<close>.\<close>

definition c_str :: "string \<Rightarrow> string" where "c_str s = takeWhile (\<lambda>c. c \<noteq> CHR 0x00) s"

definition strtoll :: "string \<Rightarrow> int \<times> nat \<times> bool" where
  "strtoll str =
     (let rest = dropWhile is_space str;
          (negative, rest') = (case rest of [] \<Rightarrow> (False, rest)
             | c # cs \<Rightarrow> if c = CHR ''-'' then (True, cs) else if c = CHR ''+'' then (False, cs) else (False, rest));
          ds = takeWhile is_digit rest'; v = int (digits_value ds) in
      if ds = [] then (0, 0, False)
      else
        let read_len = length str - length rest' + length ds in
        if negative then (if v > 2 ^ 63 then (- (2 ^ 63), read_len, True) else (- v, read_len, False))
        else (if v > 2 ^ 63 - 1 then (2 ^ 63 - 1, read_len, True) else (v, read_len, False)))"

definition to_string :: "int \<Rightarrow> string" where
  "to_string i = (if i < 0 then CHR ''-'' # decimal (nat (- i)) else decimal (nat i))"

text \<open>\<^verbatim>\<open>std::stoll\<close> throws, here \<open>None\<close>, when there is no number or it is out of range.\<close>

definition stoll :: "string \<Rightarrow> int option" where
  "stoll str = (let (v, read_len, out_of_range) = strtoll (c_str str) in if read_len = 0 \<or> out_of_range then None else Some v)"

type_synonym type_params = "(string \<times> string) list"

definition SVectorParams_parse :: "type_params \<Rightarrow> int option" where
  "SVectorParams_parse params = (case map_of params ''dimension'' of Some s \<Rightarrow> stoll s | None \<Rightarrow> Some 0)"

definition SVectorParams_to_strings :: "int \<Rightarrow> type_params \<Rightarrow> type_params" where
  "SVectorParams_to_strings p out = AList.update ''dimension'' (to_string p) out"

datatype svector_error =
    Dimension_Not_Positive int
  | Dimension_Too_Large int nat
  | Only_Dimension_Allowed
  | Dimension_Not_Integer string

definition svector_validate_dimension :: "int \<Rightarrow> svector_error option" where
  "svector_validate_dimension dimension =
     (if dimension \<le> 0 then Some (Dimension_Not_Positive dimension)
      else if dimension > int MAX_VECTOR_DIMENSION then Some (Dimension_Too_Large dimension MAX_VECTOR_DIMENSION)
      else None)"

definition svector_get_params :: "int \<Rightarrow> type_params \<Rightarrow> svector_error + type_params" where
  "svector_get_params dimension params =
     (case svector_validate_dimension dimension of Some e \<Rightarrow> Inl e
      | None \<Rightarrow> Inr (AList.update ''dimension'' (to_string dimension) params))"

record resolved_params =
  persisted_length :: int
  max_decode_buffer_length :: int

definition svector_resolve_params :: "type_params \<Rightarrow> svector_error + resolved_params" where
  "svector_resolve_params params =
     (if length params \<noteq> 1 \<or> map_of params ''dimension'' = None then Inl Only_Dimension_Allowed
      else
        let dim_str = c_str (the (map_of params ''dimension''));
            (dimension, endptr, out_of_range) = strtoll dim_str in
        if endptr = 0 \<or> endptr \<noteq> length dim_str \<or> out_of_range then Inl (Dimension_Not_Integer dim_str)
        else
          (case svector_validate_dimension dimension of Some e \<Rightarrow> Inl e
           | None \<Rightarrow> Inr \<lparr>persisted_length = int STORAGE_REF_SIZE + dimension * int FLOAT_SIZE,
                max_decode_buffer_length = 2 + dimension * int MAX_FLOAT_STR_LENGTH + (dimension - 1) + 1\<rparr>))"

text \<open>The intrinsic default: the text of the zero vector; for a dimension that is not allowed, an error and an empty list.\<close>

definition svector_default :: "int \<Rightarrow> string \<times> svector_error option" where
  "svector_default p =
     (case svector_validate_dimension p of Some e \<Rightarrow> (''[]'', Some e)
      | None \<Rightarrow> (''[0'' @ concat (map (\<lambda>_. '',0'') [1..<nat p]) @ '']'', None))"

subsection \<open>Text to vector\<close>

definition skip_ws :: "string \<Rightarrow> string" where "skip_ws s = dropWhile is_space s"
definition trim :: "string \<Rightarrow> string" where "trim s = rev (dropWhile is_space (rev (dropWhile is_space s)))"

lemma skip_ws_le: "length (skip_ws s) \<le> length s"
  by (simp add: skip_ws_def length_dropWhile_le)

datatype parse_warning =
    Missing_Bracket
  | Buffer_Too_Small
  | Invalid_Dimension
  | Missing_Value
  | Too_Many_Elements
  | Parse_Error
  | Expected_Comma
  | Dimension_Mismatch

text \<open>
  The loop over the elements. \<open>parse\<close> is what is left of the text between the brackets; \<open>strtof\<close> does not know where that ends and
  reads on into the closing bracket. The result is what has been written behind the storage reference, and the number of
  elements or the warning.
\<close>

function parse_elements :: "strtof_fn \<Rightarrow> bool \<Rightarrow> nat \<Rightarrow> string \<Rightarrow> nat \<Rightarrow> byte list \<Rightarrow> byte list \<times> (parse_warning + nat)" where
  "parse_elements strtof known expected parse count dst =
     (let parse1 = skip_ws parse in
      if parse1 = [] then (dst, Inl Missing_Value)
      else if count \<ge> expected then (dst, Inl (if known then Too_Many_Elements else Buffer_Too_Small))
      else
        let (value, next, out_of_range) = strtof (parse1 @ '']'') in
        if next = 0 \<or> out_of_range then (dst, Inl Parse_Error)
        else
          let dst1 = dst @ float4store value; parse2 = skip_ws (drop next parse1) in
          (case parse2 of [] \<Rightarrow> (dst1, Inr (count + 1))
           | c # parse3 \<Rightarrow> if c \<noteq> CHR '','' then (dst1, Inl Expected_Comma)
               else parse_elements strtof known expected parse3 (count + 1) dst1))"
  by pat_completeness auto

termination
proof (relation "measure (\<lambda>(strtof, known, expected, parse, count, dst). length parse)", simp, goal_cases)
  case (1 strtof known expected parse count dst parse1 x val y nxt oor dst1 parse2 c parse3)
  have "length (c # parse3) \<le> length (drop nxt parse1)" using 1 skip_ws_le by metis
  then have "length parse3 < length parse1" by simp
  moreover have "length parse1 \<le> length parse" using 1 skip_ws_le by simp
  ultimately show ?case by simp
qed

declare parse_elements.simps [simp del]

text \<open>
  \<open>known\<close> is the dimension when it is known. The first component of the result are the bytes written, the second the warning, or the
  dimension and the length that are set.
\<close>

definition svector_from_string :: "strtof_fn \<Rightarrow> int option \<Rightarrow> string \<Rightarrow> nat \<Rightarrow> byte list \<times> (parse_warning + int \<times> nat)" where
  "svector_from_string strtof known from buf_size =
     (let sv = trim from in
      if length sv < 2 \<or> hd sv \<noteq> CHR ''['' \<or> last sv \<noteq> CHR '']'' then ([], Inl Missing_Bracket)
      else
        let inner = take (length sv - 2) (drop 1 sv) in
        if buf_size < STORAGE_REF_SIZE then ([], Inl Buffer_Too_Small)
        else
          let max_supportable = min ((buf_size - STORAGE_REF_SIZE) div FLOAT_SIZE) MAX_VECTOR_DIMENSION;
              written = replicate STORAGE_REF_SIZE 0 in
          (case known of
             Some d \<Rightarrow>
               if d \<le> 0 \<or> d > int MAX_VECTOR_DIMENSION then ([], Inl Invalid_Dimension)
               else
                 let expected = usize d in
                 if max_supportable < expected then ([], Inl Buffer_Too_Small)
                 else
                   (case parse_elements strtof True expected inner 0 [] of
                      (dst, Inl w) \<Rightarrow> (written @ dst, Inl w)
                    | (dst, Inr count) \<Rightarrow> if count \<noteq> expected then (written @ dst, Inl Dimension_Mismatch)
                        else (written @ dst, Inr (d, STORAGE_REF_SIZE + count * FLOAT_SIZE)))
           | None \<Rightarrow>
               (case parse_elements strtof False max_supportable inner 0 [] of
                  (dst, Inl w) \<Rightarrow> (written @ dst, Inl w)
                | (dst, Inr count) \<Rightarrow> if count = 0 \<or> count > MAX_VECTOR_DIMENSION then (written @ dst, Inl Invalid_Dimension)
                    else (written @ dst, Inr (int count, STORAGE_REF_SIZE + count * FLOAT_SIZE)))))"

subsection \<open>Vector to text\<close>

definition emit :: "nat \<Rightarrow> string \<Rightarrow> string \<Rightarrow> string option" where
  "emit out_size s out = (if length out + length s > out_size then None else Some (out @ s))"

fun format_elements :: "to_chars_fn \<Rightarrow> chars_format \<Rightarrow> nat \<Rightarrow> nat \<Rightarrow> bool \<Rightarrow> float_bits list \<Rightarrow> string \<Rightarrow> string option" where
  "format_elements to_chars fmt precision out_size first [] out = Some out"
| "format_elements to_chars fmt precision out_size first (f # fs) out =
     (case (if first then Some out else emit out_size '','' out) of None \<Rightarrow> None
      | Some out1 \<Rightarrow>
          (case to_chars fmt precision f of None \<Rightarrow> None
           | Some t \<Rightarrow>
               (case emit out_size t out1 of None \<Rightarrow> None
                | Some out2 \<Rightarrow> format_elements to_chars fmt precision out_size False fs out2)))"

definition svector_format_impl :: "to_chars_fn \<Rightarrow> int \<Rightarrow> byte list \<Rightarrow> chars_format \<Rightarrow> nat \<Rightarrow> nat \<Rightarrow> string option" where
  "svector_format_impl to_chars dimension data fmt precision out_size =
     (if dimension \<le> 0 \<or> dimension > int MAX_VECTOR_DIMENSION then None
      else
        let count = usize dimension; expected = STORAGE_REF_SIZE + count * FLOAT_SIZE in
        if length data < expected then None
        else
          (case emit out_size ''['' [] of None \<Rightarrow> None
           | Some out \<Rightarrow>
               (case format_elements to_chars fmt precision out_size True
                   (map (\<lambda>i. float4get data (STORAGE_REF_SIZE + i * FLOAT_SIZE)) [0..<count]) out of None \<Rightarrow> None
                | Some out1 \<Rightarrow> emit out_size '']'' out1)))"

definition svector_to_string :: "to_chars_fn \<Rightarrow> int \<Rightarrow> byte list \<Rightarrow> nat \<Rightarrow> string option" where
  "svector_to_string to_chars dimension data out_size = svector_format_impl to_chars dimension data General FLOAT_DIGITS10 out_size"

subsection \<open>Comparison\<close>

text \<open>The order of IEEE 754 on bit patterns: sign, magnitude, and nothing is less than a not-a-number.\<close>

definition float_nan :: "float_bits \<Rightarrow> bool" where "float_nan f \<longleftrightarrow> unat (f AND 0x7FFFFFFF) > 0x7F800000"
definition float_key :: "float_bits \<Rightarrow> int" where
  "float_key f = (if bit f 31 then - int (unat (f AND 0x7FFFFFFF)) else int (unat (f AND 0x7FFFFFFF)))"
definition float_less :: "float_bits \<Rightarrow> float_bits \<Rightarrow> bool" where
  "float_less a b \<longleftrightarrow> \<not> float_nan a \<and> \<not> float_nan b \<and> float_key a < float_key b"

fun compare_floats :: "float_bits list \<Rightarrow> float_bits list \<Rightarrow> int" where
  "compare_floats (l # ls) (r # rs) = (if float_less l r then -1 else if float_less r l then 1 else compare_floats ls rs)"
| "compare_floats _ _ = 0"

definition svector_compare :: "int \<Rightarrow> byte list \<Rightarrow> byte list \<Rightarrow> int" where
  "svector_compare dimension va vb =
     (let expected = STORAGE_REF_SIZE + usize dimension * FLOAT_SIZE in
      if length va < expected \<or> length vb < expected then 0
      else compare_floats (map (\<lambda>i. float4get va (STORAGE_REF_SIZE + i * FLOAT_SIZE)) [0..<nat dimension])
             (map (\<lambda>i. float4get vb (STORAGE_REF_SIZE + i * FLOAT_SIZE)) [0..<nat dimension]))"

subsection \<open>SQL functions\<close>

record svector_arg =
  sa_null :: bool
  sa_dimension :: int
  sa_value :: "byte list"

datatype 'a sql_result = Sql_Null | Sql_Error string | Sql_Set 'a

definition hex_char :: "nat \<Rightarrow> char" where "hex_char n = ''0123456789ABCDEF'' ! n"

definition svector_hex :: "svector_arg \<Rightarrow> nat \<Rightarrow> string sql_result" where
  "svector_hex vec buf_size =
     (if sa_null vec then Sql_Null
      else
        let count = usize (sa_dimension vec); byte_len = (STORAGE_REF_SIZE + count * FLOAT_SIZE) mod 2 ^ 64 in
        if length (sa_value vec) < byte_len then Sql_Error ''encoded vector is too short''
        else if buf_size < (byte_len * 2) mod 2 ^ 64 then Sql_Error ''output buffer too small''
        else Sql_Set (concat (map (\<lambda>i. [hex_char (unat (drop_bit 4 (sa_value vec ! i))), hex_char (unat (sa_value vec ! i AND 0x0F))]) [0..<byte_len])))"

definition svector_dims :: "svector_arg \<Rightarrow> int sql_result" where
  "svector_dims vec = (if sa_null vec then Sql_Null else Sql_Set (sa_dimension vec))"

definition svector_max_dims :: "int sql_result" where "svector_max_dims = Sql_Set (int MAX_VECTOR_DIMENSION)"

text \<open>The precision is converted to a 32-bit \<^verbatim>\<open>int\<close>.\<close>

definition to_int32 :: "int \<Rightarrow> int" where "to_int32 i = (i + 2 ^ 31) mod 2 ^ 32 - 2 ^ 31"

definition svector_format :: "to_chars_fn \<Rightarrow> svector_arg \<Rightarrow> int option \<Rightarrow> nat \<Rightarrow> string sql_result" where
  "svector_format to_chars vec precision buf_size =
     (if sa_null vec then Sql_Null
      else
        (case precision of None \<Rightarrow> Sql_Null
         | Some p \<Rightarrow>
             let prec = to_int32 p in
             if prec < 0 then Sql_Error ''precision must be non-negative''
             else
               (case svector_format_impl to_chars (sa_dimension vec) (sa_value vec) General (nat prec) buf_size of
                  None \<Rightarrow> Sql_Error ''failed to format vector''
                | Some out \<Rightarrow> Sql_Set out)))"

text \<open>
  \<open>heap_gives\<close> says which allocations succeed, \<open>addr\<close> is the address of the buffer.
\<close>

definition svector_norm :: "'d fpu \<Rightarrow> (nat \<Rightarrow> nat \<Rightarrow> bool) \<Rightarrow> 64 word \<Rightarrow> svector_arg \<Rightarrow> 'd sql_result" where
  "svector_norm F heap_gives addr vec =
     (if sa_null vec then Sql_Null
      else
        let count = usize (sa_dimension vec); floats_len = (count * FLOAT_SIZE) mod 2 ^ 64 in
        if length (sa_value vec) < (STORAGE_REF_SIZE + floats_len) mod 2 ^ 64 then Sql_Error ''encoded vector is too short''
        else
          let len = native_len (u32 count);
              ((buf, _), _) = AlignedBuffer_init VECTOR_STACK_BUFFER_SIZE heap_gives (nl_length len) (nl_alignment len) new_buffer 0 in
          if \<not> AlignedBuffer_is_initialized buf then Sql_Error ''buffer allocation failed''
          else
            (case from_encoded (Some (take floats_len (drop STORAGE_REF_SIZE (sa_value vec)))) (Some (addr, ab_size buf)) of
               None \<Rightarrow> Sql_Error ''malformed vector''
             | Some v \<Rightarrow> Sql_Set (norm_l2 F v)))"

definition svector_distance_impl ::
    "(nat \<Rightarrow> nat \<Rightarrow> bool) \<Rightarrow> 64 word \<Rightarrow> 64 word \<Rightarrow> svector_arg \<Rightarrow> svector_arg \<Rightarrow> (native_data \<Rightarrow> native_data \<Rightarrow> 'd) \<Rightarrow> 'd sql_result" where
  "svector_distance_impl heap_gives addr1 addr2 vec1 vec2 dist_func =
     (if sa_null vec1 \<or> sa_null vec2 then Sql_Null
      else
        let count1 = usize (sa_dimension vec1); count2 = usize (sa_dimension vec2) in
        if count1 \<noteq> count2 then Sql_Error ''dimension mismatch''
        else
          let floats_len = (count1 * FLOAT_SIZE) mod 2 ^ 64 in
          if length (sa_value vec1) < (STORAGE_REF_SIZE + floats_len) mod 2 ^ 64 \<or> length (sa_value vec2) < (STORAGE_REF_SIZE + floats_len) mod 2 ^ 64
          then Sql_Error ''encoded vector is too short''
          else
            let len = native_len (u32 count1);
                ((buffer1, n1), _) = AlignedBuffer_init VECTOR_STACK_BUFFER_SIZE heap_gives (nl_length len) (nl_alignment len) new_buffer 0;
                ((buffer2, n2), _) = AlignedBuffer_init VECTOR_STACK_BUFFER_SIZE heap_gives (nl_length len) (nl_alignment len) new_buffer n1 in
            if \<not> AlignedBuffer_is_initialized buffer1 \<or> \<not> AlignedBuffer_is_initialized buffer2 then Sql_Error ''buffer allocation failed''
            else
              (case from_encoded (Some (take floats_len (drop STORAGE_REF_SIZE (sa_value vec1)))) (Some (addr1, ab_size buffer1)) of
                 None \<Rightarrow> Sql_Error ''malformed vector''
               | Some v1 \<Rightarrow>
                   (case from_encoded (Some (take floats_len (drop STORAGE_REF_SIZE (sa_value vec2)))) (Some (addr2, ab_size buffer2)) of
                      None \<Rightarrow> Sql_Error ''malformed vector''
                    | Some v2 \<Rightarrow> Sql_Set (dist_func v1 v2))))"

definition svector_distance_l1 :: "'d fpu \<Rightarrow> (nat \<Rightarrow> nat \<Rightarrow> bool) \<Rightarrow> 64 word \<Rightarrow> 64 word \<Rightarrow> svector_arg \<Rightarrow> svector_arg \<Rightarrow> 'd sql_result" where
  "svector_distance_l1 F h a1 a2 vec1 vec2 = svector_distance_impl h a1 a2 vec1 vec2 (dist_l1 F)"
definition svector_distance_l2 :: "'d fpu \<Rightarrow> (nat \<Rightarrow> nat \<Rightarrow> bool) \<Rightarrow> 64 word \<Rightarrow> 64 word \<Rightarrow> svector_arg \<Rightarrow> svector_arg \<Rightarrow> 'd sql_result" where
  "svector_distance_l2 F h a1 a2 vec1 vec2 = svector_distance_impl h a1 a2 vec1 vec2 (dist_l2 F)"
definition svector_distance_l2_squared :: "'d fpu \<Rightarrow> (nat \<Rightarrow> nat \<Rightarrow> bool) \<Rightarrow> 64 word \<Rightarrow> 64 word \<Rightarrow> svector_arg \<Rightarrow> svector_arg \<Rightarrow> 'd sql_result" where
  "svector_distance_l2_squared F h a1 a2 vec1 vec2 = svector_distance_impl h a1 a2 vec1 vec2 (dist_squared_l2 F)"
definition svector_distance_cosine :: "'d fpu \<Rightarrow> (nat \<Rightarrow> nat \<Rightarrow> bool) \<Rightarrow> 64 word \<Rightarrow> 64 word \<Rightarrow> svector_arg \<Rightarrow> svector_arg \<Rightarrow> 'd sql_result" where
  "svector_distance_cosine F h a1 a2 vec1 vec2 = svector_distance_impl h a1 a2 vec1 vec2 (dist_cosine F)"
definition svector_inner_product :: "'d fpu \<Rightarrow> (nat \<Rightarrow> nat \<Rightarrow> bool) \<Rightarrow> 64 word \<Rightarrow> 64 word \<Rightarrow> svector_arg \<Rightarrow> svector_arg \<Rightarrow> 'd sql_result" where
  "svector_inner_product F h a1 a2 vec1 vec2 = svector_distance_impl h a1 a2 vec1 vec2 (dist_inner_product F)"

end
