(* ===== verification/Svector_Text.thy ===== *)
theory Svector_Text
  imports Svector
begin

text \<open>
  What the text form of a vector means: exactly which texts are accepted and what they denote, that nothing is written outside
  the buffer, and that the text of a vector and the default text are read back.
\<close>

subsection \<open>The language of vector texts\<close>

text \<open>\<open>denotes strtof s fs\<close>: \<open>s\<close> is a list of numbers separated by commas, with white space around them.\<close>

inductive denotes :: "strtof_fn \<Rightarrow> string \<Rightarrow> float_bits list \<Rightarrow> bool" for strtof where
  last: "skip_ws s \<noteq> [] \<Longrightarrow> strtof (skip_ws s @ '']'') = (v, n, False) \<Longrightarrow> n \<noteq> 0 \<Longrightarrow> skip_ws (drop n (skip_ws s)) = [] \<Longrightarrow> denotes strtof s [v]"
| more: "skip_ws s \<noteq> [] \<Longrightarrow> strtof (skip_ws s @ '']'') = (v, n, False) \<Longrightarrow> n \<noteq> 0 \<Longrightarrow> skip_ws (drop n (skip_ws s)) = CHR '','' # rest \<Longrightarrow>
    denotes strtof rest fs \<Longrightarrow> denotes strtof s (v # fs)"

lemma denotes_nonempty: "denotes strtof s fs \<Longrightarrow> fs \<noteq> []"
  by (auto elim: denotes.cases)

text \<open>The loop of the source reads this language, as long as there is room.\<close>

lemma parse_elements_denotes:
  "denotes strtof parse fs \<Longrightarrow> parse_elements strtof known expected parse count dst =
     (if count + length fs \<le> expected then (dst @ encode_floats fs, Inr (count + length fs))
      else (dst @ encode_floats (take (expected - count) fs), Inl (if known then Too_Many_Elements else Buffer_Too_Small)))"
proof (induction arbitrary: count dst rule: denotes.induct)
  case (last s v n)
  then show ?case by (subst parse_elements.simps) (auto simp: encode_floats_def Let_def)
next
  case (more s v n rest fs)
  show ?case
  proof (cases "count < expected")
    case True
    then have "take (expected - count) (v # fs) = v # take (expected - Suc count) fs" by (simp add: take_Cons')
    with True more show ?thesis by (subst parse_elements.simps) (auto simp: encode_floats_def Let_def)
  next
    case False
    with more.hyps show ?thesis by (subst parse_elements.simps) (auto simp: encode_floats_def Let_def)
  qed
qed

lemma parse_elements_complete:
  "parse_elements strtof known expected parse count dst = (dst', Inr k) \<Longrightarrow> \<exists>fs. denotes strtof parse fs \<and> k = count + length fs \<and> k \<le> expected"
proof (induction strtof known expected parse count dst arbitrary: dst' k rule: parse_elements.induct)
  case (1 strtof known expected parse count dst)
  obtain v n r where st: "strtof (skip_ws parse @ '']'') = (v, n, r)" by (metis prod_cases3)
  have ne: "skip_ws parse \<noteq> []" "count < expected" "n \<noteq> 0" "\<not> r"
    using "1.prems" st by (subst (asm) parse_elements.simps; auto simp: Let_def split: if_splits)+
  show ?case
  proof (cases "skip_ws (drop n (skip_ws parse))")
    case Nil
    then have "denotes strtof parse [v]" using ne st by (auto intro: denotes.last)
    moreover have "k = Suc count" using "1.prems" ne st Nil by (subst (asm) parse_elements.simps) (simp add: Let_def)
    ultimately show ?thesis using ne(2) by (intro exI [of _ "[v]"]) simp
  next
    case (Cons c rest)
    have c: "c = CHR '',''" and p: "parse_elements strtof known expected rest (count + 1) (dst @ float4store v) = (dst', Inr k)"
      using "1.prems" ne st Cons by (subst (asm) parse_elements.simps; auto simp: Let_def split: if_splits)+
    from "1.IH" [OF refl ne(1) _ st [symmetric] refl refl _ refl refl Cons _ p] ne c
    obtain fs where "denotes strtof rest fs" "k = count + 1 + length fs" "k \<le> expected" by auto
    then show ?thesis using ne st Cons c by (intro exI [of _ "v # fs"]) (auto intro: denotes.more)
  qed
qed

lemma parse_elements_bound:
  "parse_elements strtof known expected parse count dst = (dst', r) \<Longrightarrow> length dst = 4 * count \<Longrightarrow> count \<le> expected \<Longrightarrow> length dst' \<le> 4 * expected"
proof (induction strtof known expected parse count dst arbitrary: dst' r rule: parse_elements.induct)
  case (1 strtof known expected parse count dst)
  obtain v n b where st: "strtof (skip_ws parse @ '']'') = (v, n, b)" by (metis prod_cases3)
  have stop: "length dst' \<le> 4 * expected" if "dst' = dst" using that "1.prems" by simp
  show ?case
  proof (cases "skip_ws parse = [] \<or> expected \<le> count \<or> n = 0 \<or> b")
    case True
    then show ?thesis using "1.prems"(1) st by (intro stop) (subst (asm) parse_elements.simps; auto simp: Let_def split: if_splits)
  next
    case False
    show ?thesis
    proof (cases "skip_ws (drop n (skip_ws parse))")
      case Nil
      then have "dst' = dst @ float4store v" using "1.prems"(1) False st by (subst (asm) parse_elements.simps) (simp add: Let_def)
      with False "1.prems"(2) show ?thesis by simp
    next
      case (Cons c rest)
      show ?thesis
      proof (cases "c = CHR '',''")
        case True
        then have p: "parse_elements strtof known expected rest (count + 1) (dst @ float4store v) = (dst', r)"
          using "1.prems"(1) False st Cons by (subst (asm) parse_elements.simps) (simp add: Let_def)
        show ?thesis
          by (rule "1.IH" [OF refl _ _ st [symmetric] refl refl _ refl refl Cons _ p]) (use False True "1.prems" in auto)
      next
        case c: False
        then have "dst' = dst @ float4store v" using "1.prems"(1) False st Cons by (subst (asm) parse_elements.simps) (simp add: Let_def)
        with False "1.prems"(2) show ?thesis by simp
      qed
    qed
  qed
qed

lemma bracket_split:
  "length sv < 2 \<or> hd sv \<noteq> CHR ''['' \<or> last sv \<noteq> CHR '']'' \<longleftrightarrow> (\<forall>inner. sv \<noteq> ''['' @ inner @ '']'')"
proof -
  have "\<exists>inner. sv = ''['' @ inner @ '']''" if "2 \<le> length sv" "hd sv = CHR ''[''" "last sv = CHR '']''"
  proof -
    from that(1) obtain c cs where sv: "sv = c # cs" "cs \<noteq> []" by (cases sv; cases "tl sv") auto
    then have "cs = butlast cs @ [last cs]" by simp
    moreover have "c = CHR ''[''" "last cs = CHR '']''" using sv that(2,3) by simp_all
    ultimately show ?thesis using sv(1) by (intro exI [of _ "butlast cs"]) simp
  qed
  then show ?thesis by (auto simp: not_less)
qed

lemma inner_take: "take (length (''['' @ inner @ '']'') - 2) (drop 1 (''['' @ inner @ '']'')) = inner"
  by simp

lemma from_string_bracketed:
  assumes "trim text = ''['' @ inner @ '']''" "STORAGE_REF_SIZE \<le> n"
  shows "svector_from_string strtof (Some d) text n =
      (if d \<le> 0 \<or> d > int MAX_VECTOR_DIMENSION then ([], Inl Invalid_Dimension)
       else if min ((n - STORAGE_REF_SIZE) div FLOAT_SIZE) MAX_VECTOR_DIMENSION < nat d then ([], Inl Buffer_Too_Small)
       else (case parse_elements strtof True (nat d) inner 0 [] of
           (dst, Inl w) \<Rightarrow> (replicate STORAGE_REF_SIZE 0 @ dst, Inl w)
         | (dst, Inr count) \<Rightarrow> if count \<noteq> nat d then (replicate STORAGE_REF_SIZE 0 @ dst, Inl Dimension_Mismatch)
             else (replicate STORAGE_REF_SIZE 0 @ dst, Inr (d, STORAGE_REF_SIZE + count * FLOAT_SIZE))))"
    and "svector_from_string strtof None text n =
      (case parse_elements strtof False (min ((n - STORAGE_REF_SIZE) div FLOAT_SIZE) MAX_VECTOR_DIMENSION) inner 0 [] of
           (dst, Inl w) \<Rightarrow> (replicate STORAGE_REF_SIZE 0 @ dst, Inl w)
         | (dst, Inr count) \<Rightarrow> if count = 0 \<or> count > MAX_VECTOR_DIMENSION then (replicate STORAGE_REF_SIZE 0 @ dst, Inl Invalid_Dimension)
             else (replicate STORAGE_REF_SIZE 0 @ dst, Inr (int count, STORAGE_REF_SIZE + count * FLOAT_SIZE)))"
proof -
  have b: "\<not> (length (trim text) < 2 \<or> hd (trim text) \<noteq> CHR ''['' \<or> last (trim text) \<noteq> CHR '']'')" using assms(1) bracket_split by blast
  have i: "take (length (trim text) - 2) (drop 1 (trim text)) = inner" unfolding assms(1) by (rule inner_take)
  have u: "usize d = nat d" if "0 < d" "d \<le> int MAX_VECTOR_DIMENSION" using that by (simp add: usize_def MAX_VECTOR_DIMENSION_def)
  have s: "\<not> n < STORAGE_REF_SIZE" using assms(2) by simp
  note x = if_not_P [OF b] if_not_P [OF s] i
  show "svector_from_string strtof (Some d) text n =
      (if d \<le> 0 \<or> d > int MAX_VECTOR_DIMENSION then ([], Inl Invalid_Dimension)
       else if min ((n - STORAGE_REF_SIZE) div FLOAT_SIZE) MAX_VECTOR_DIMENSION < nat d then ([], Inl Buffer_Too_Small)
       else (case parse_elements strtof True (nat d) inner 0 [] of
           (dst, Inl w) \<Rightarrow> (replicate STORAGE_REF_SIZE 0 @ dst, Inl w)
         | (dst, Inr count) \<Rightarrow> if count \<noteq> nat d then (replicate STORAGE_REF_SIZE 0 @ dst, Inl Dimension_Mismatch)
             else (replicate STORAGE_REF_SIZE 0 @ dst, Inr (d, STORAGE_REF_SIZE + count * FLOAT_SIZE))))"
    unfolding svector_from_string_def Let_def x option.case by (cases "d \<le> 0 \<or> d > int MAX_VECTOR_DIMENSION") (use u in simp_all)
  show "svector_from_string strtof None text n =
      (case parse_elements strtof False (min ((n - STORAGE_REF_SIZE) div FLOAT_SIZE) MAX_VECTOR_DIMENSION) inner 0 [] of
           (dst, Inl w) \<Rightarrow> (replicate STORAGE_REF_SIZE 0 @ dst, Inl w)
         | (dst, Inr count) \<Rightarrow> if count = 0 \<or> count > MAX_VECTOR_DIMENSION then (replicate STORAGE_REF_SIZE 0 @ dst, Inl Invalid_Dimension)
             else (replicate STORAGE_REF_SIZE 0 @ dst, Inr (int count, STORAGE_REF_SIZE + count * FLOAT_SIZE)))"
    unfolding svector_from_string_def Let_def x option.case by simp
qed

lemma from_string_accepts:
  assumes "trim text = ''['' @ inner @ '']''" "denotes strtof inner fs" "length fs \<le> MAX_VECTOR_DIMENSION" "8 + 4 * length fs \<le> n"
    and "known = None \<or> known = Some (int (length fs))"
  shows "svector_from_string strtof known text n = (replicate 8 0 @ encode_floats fs, Inr (int (length fs), 8 + 4 * length fs))"
proof -
  have n: "STORAGE_REF_SIZE \<le> n" and m: "length fs \<le> min ((n - STORAGE_REF_SIZE) div FLOAT_SIZE) MAX_VECTOR_DIMENSION" and ne: "fs \<noteq> []"
    using assms(3,4) denotes_nonempty [OF assms(2)] by (auto simp: STORAGE_REF_SIZE_def FLOAT_SIZE_def)
  then have "0 < length fs" by simp
  with assms(3,5) m show ?thesis
    using parse_elements_denotes [OF assms(2)] from_string_bracketed [OF assms(1) n]
    by (auto simp: STORAGE_REF_SIZE_def FLOAT_SIZE_def mult.commute simp del: min_less_iff_conj)
qed

lemma from_string_rejects:
  assumes "svector_from_string strtof known text n = (bs, Inr (d, len))"
  obtains inner fs where "trim text = ''['' @ inner @ '']''" "denotes strtof inner fs" "length fs \<le> MAX_VECTOR_DIMENSION" "8 + 4 * length fs \<le> n"
    "known = None \<or> known = Some (int (length fs))"
proof -
  have n: "STORAGE_REF_SIZE \<le> n" and "\<exists>inner. trim text = ''['' @ inner @ '']''"
    using assms bracket_split [of "trim text"] by (auto simp: svector_from_string_def Let_def split: if_splits)
  then obtain inner where b: "trim text = ''['' @ inner @ '']''" by blast
  note f = from_string_bracketed [OF b n, of strtof]
  let ?m = "min ((n - STORAGE_REF_SIZE) div FLOAT_SIZE) MAX_VECTOR_DIMENSION"
  have "\<exists>dst k c. parse_elements strtof k (case known of None \<Rightarrow> ?m | Some d \<Rightarrow> nat d) inner 0 [] = (dst, Inr c)
      \<and> (case known of None \<Rightarrow> c \<le> ?m | Some d \<Rightarrow> 0 < d \<and> nat d \<le> ?m \<and> c = nat d)"
  proof (cases known)
    case None
    with assms f(2) show ?thesis
      using parse_elements_complete [of strtof False ?m inner 0 "[]"]
      by (fastforce split: prod.splits sum.splits if_splits simp del: min.bounded_iff)
  next
    case (Some k)
    with assms f(1) [of k] show ?thesis
      by (force split: prod.splits sum.splits if_splits simp: not_less simp del: min.bounded_iff min_less_iff_conj)
  qed
  then obtain dst k c where p: "parse_elements strtof k (case known of None \<Rightarrow> ?m | Some d \<Rightarrow> nat d) inner 0 [] = (dst, Inr c)"
    and c: "case known of None \<Rightarrow> c \<le> ?m | Some d \<Rightarrow> 0 < d \<and> nat d \<le> ?m \<and> c = nat d" by blast
  from parse_elements_complete [OF p] obtain fs where "denotes strtof inner fs" "c = length fs" by auto
  with b c n show thesis by (intro that [of inner fs]) (auto simp: STORAGE_REF_SIZE_def FLOAT_SIZE_def split: option.splits)
qed

text \<open>
  C25: Reading a vector from text accepts exactly the texts it should and stays inside the buffer. The call succeeds if and only if the text,
  without white space around it, is a bracketed list of numbers whose count is the declared dimension, or at most 3072 when none is declared,
  and the value fits into the buffer; then the value is the empty storage reference followed by the floats in order. Whatever the text and
  whatever the outcome, not a byte is written behind the end of the buffer.
\<close>

theorem svector_from_string_exact:
  "(svector_from_string strtof known text n = (bs, Inr (d, len)) \<longleftrightarrow>
     (\<exists>inner fs. trim text = ''['' @ inner @ '']'' \<and> denotes strtof inner fs \<and> length fs \<le> MAX_VECTOR_DIMENSION \<and> 8 + 4 * length fs \<le> n
        \<and> (known = None \<or> known = Some (int (length fs)))
        \<and> bs = replicate 8 0 @ encode_floats fs \<and> d = int (length fs) \<and> len = 8 + 4 * length fs))
   \<and> length (fst (svector_from_string strtof known text n)) \<le> n"
proof
  show "svector_from_string strtof known text n = (bs, Inr (d, len)) \<longleftrightarrow>
     (\<exists>inner fs. trim text = ''['' @ inner @ '']'' \<and> denotes strtof inner fs \<and> length fs \<le> MAX_VECTOR_DIMENSION \<and> 8 + 4 * length fs \<le> n
        \<and> (known = None \<or> known = Some (int (length fs)))
        \<and> bs = replicate 8 0 @ encode_floats fs \<and> d = int (length fs) \<and> len = 8 + 4 * length fs)" (is "?l \<longleftrightarrow> ?r")
  proof
    assume ?l
    then show ?r by (rule from_string_rejects) (use \<open>?l\<close> from_string_accepts in fastforce)
  next
    assume ?r
    then show ?l using from_string_accepts by blast
  qed
  show "length (fst (svector_from_string strtof known text n)) \<le> n"
  proof (cases "(\<exists>inner. trim text = ''['' @ inner @ '']'') \<and> STORAGE_REF_SIZE \<le> n")
    case False
    then show ?thesis using bracket_split [of "trim text"] by (auto simp: svector_from_string_def Let_def)
  next
    case True
    then obtain inner where b: "trim text = ''['' @ inner @ '']''" and n: "STORAGE_REF_SIZE \<le> n" by blast
    let ?m = "min ((n - STORAGE_REF_SIZE) div FLOAT_SIZE) MAX_VECTOR_DIMENSION"
    have fit: "8 + length dst \<le> n" if "parse_elements strtof k e inner 0 [] = (dst, r)" "e \<le> ?m" for k e dst r
    proof -
      have "length dst \<le> 4 * e" using parse_elements_bound [OF that(1)] by simp
      also have "\<dots> \<le> 4 * ((n - 8) div 4)" using that(2) by (simp add: STORAGE_REF_SIZE_def FLOAT_SIZE_def)
      also have "\<dots> \<le> n - 8" by simp
      finally show ?thesis using n by (simp add: STORAGE_REF_SIZE_def)
    qed
    note f = from_string_bracketed [OF b n, of strtof]
    show ?thesis
    proof (cases known)
      case None
      obtain dst r where p: "parse_elements strtof False ?m inner 0 [] = (dst, r)" by fastforce
      from fit [OF p] show ?thesis unfolding None f(2) p by (cases r) (auto simp: STORAGE_REF_SIZE_def)
    next
      case (Some k)
      obtain dst r where p: "parse_elements strtof True (nat k) inner 0 [] = (dst, r)" by fastforce
      show ?thesis using fit [OF p] unfolding Some f(1) p by (cases r) (auto simp: STORAGE_REF_SIZE_def not_less simp del: min.bounded_iff min_less_iff_conj)
    qed
  qed
qed

subsection \<open>Printing and reading back\<close>

text \<open>
  What is relied on of the C library: the text of a number stops at a comma or a closing bracket, is at most sixteen characters long, and
  nine digits identify a normal number, a zero or an infinity. A subnormal number is not among them: \<^verbatim>\<open>strtof\<close> reports \<^verbatim>\<open>ERANGE\<close> for it.
\<close>

definition reads_as :: "strtof_fn \<Rightarrow> string \<Rightarrow> float_bits \<Rightarrow> bool" where
  "reads_as strtof t f \<longleftrightarrow> t \<noteq> [] \<and> \<not> is_space (hd t) \<and> (\<forall>c rest. c = CHR '','' \<or> c = CHR '']'' \<longrightarrow> strtof (t @ c # rest) = (f, length t, False))"

definition float_plain :: "float_bits \<Rightarrow> bool" where
  "float_plain f \<longleftrightarrow> \<not> float_nan f \<and> (unat (f AND 0x7FFFFFFF) = 0 \<or> unat (f AND 0x7FFFFFFF) \<ge> 0x00800000)"

definition prints_back :: "strtof_fn \<Rightarrow> to_chars_fn \<Rightarrow> bool" where
  "prints_back strtof to_chars \<longleftrightarrow> (\<forall>f. float_plain f \<longrightarrow>
     (\<exists>t. to_chars General FLOAT_DIGITS10 f = Some t \<and> length t \<le> MAX_FLOAT_STR_LENGTH \<and> reads_as strtof t f))"

fun commas :: "string list \<Rightarrow> string" where
  "commas [] = []" | "commas [t] = t" | "commas (t # ts) = t @ '','' @ commas ts"

lemma skip_ws_head: "t \<noteq> [] \<Longrightarrow> \<not> is_space (hd t) \<Longrightarrow> skip_ws (t @ rest) = t @ rest"
  by (cases t) (simp_all add: skip_ws_def)

lemma comma_solid [simp]: "\<not> is_space CHR '',''" "\<not> is_space CHR '']''" "\<not> is_space CHR ''[''"
  by (simp_all add: is_space_def)

lemma reads_asD:
  assumes "reads_as strtof t f"
  shows "t \<noteq> []" "skip_ws t = t" "skip_ws (t @ rest) = t @ rest" "strtof (t @ CHR '','' # rest) = (f, length t, False)" "strtof (t @ '']'') = (f, length t, False)"
  using assms skip_ws_head [of t "[]"] skip_ws_head [of t rest] unfolding reads_as_def by (simp, simp, simp, blast, blast)

lemma commas_denotes: "list_all2 (reads_as strtof) ts fs \<Longrightarrow> ts \<noteq> [] \<Longrightarrow> denotes strtof (commas ts) fs"
proof (induction ts arbitrary: fs rule: commas.induct)
  case (2 t)
  then obtain f where f: "fs = [f]" "reads_as strtof t f" by (auto simp: list_all2_Cons1)
  note d = reads_asD [OF f(2)]
  show ?case unfolding f(1) commas.simps by (rule denotes.last [where n = "length t"]) (simp_all add: d, simp add: skip_ws_def)
next
  case (3 t t' ts)
  then obtain f gs where f: "fs = f # gs" "reads_as strtof t f" "list_all2 (reads_as strtof) (t' # ts) gs" by (auto simp: list_all2_Cons1)
  note d = reads_asD [OF f(2)]
  have g: "denotes strtof (commas (t' # ts)) gs" using 3 f(3) by blast
  have s: "skip_ws ('','' @ commas (t' # ts)) = CHR '','' # commas (t' # ts)" by (simp add: skip_ws_def)
  show ?case
    unfolding f(1) commas.simps
    by (rule denotes.more [where n = "length t" and rest = "commas (t' # ts)"]) (use s in \<open>simp_all add: d g\<close>)
qed simp

lemma trim_brackets: "trim (''['' @ inner @ '']'') = ''['' @ inner @ '']''"
  by (simp add: trim_def)

lemma commas_length: "list_all (\<lambda>t. length t \<le> k) ts \<Longrightarrow> ts \<noteq> [] \<Longrightarrow> length (commas ts) \<le> length ts * k + (length ts - 1)"
  by (induction ts rule: commas.induct) auto

lemma commas_Cons: "ts \<noteq> [] \<Longrightarrow> commas (t # ts) = t @ '','' @ commas ts"
  by (cases ts) simp_all

lemma format_elements_commas:
  "list_all2 (\<lambda>f t. to_chars fmt precision f = Some t) fs ts \<Longrightarrow> length out + length (commas ts) + (if first \<or> ts = [] then 0 else 1) \<le> out_size \<Longrightarrow>
   format_elements to_chars fmt precision out_size first fs out = Some (out @ (if first \<or> ts = [] then [] else '','') @ commas ts)"
proof (induction fs arbitrary: ts out first)
  case (Cons f fs)
  then obtain t us where ts: "ts = t # us" "to_chars fmt precision f = Some t" "list_all2 (\<lambda>f t. to_chars fmt precision f = Some t) fs us"
    by (auto simp: list_all2_Cons1)
  have len: "length (commas ts) = length t + (if us = [] then 0 else 1 + length (commas us))" using ts(1) commas_Cons [of us t] by auto
  let ?out = "out @ (if first then [] else '','') @ t"
  have "format_elements to_chars fmt precision out_size False fs ?out = Some (?out @ (if us = [] then [] else '','') @ commas us)"
    using Cons.IH [OF ts(3), of ?out False] Cons.prems(2) len ts(1) by (auto split: if_splits)
  moreover have "commas ts = t @ (if us = [] then [] else '','' @ commas us)" using ts(1) commas_Cons [of us t] by auto
  moreover have "us = [] \<Longrightarrow> fs = []" using ts(3) by simp
  ultimately show ?case using Cons.prems(2) len ts(1,2) by (auto simp: emit_def split: if_splits)
qed simp

lemma value_floats:
  assumes "length ref = STORAGE_REF_SIZE" "n = length fs"
  shows "map (\<lambda>i. float4get (ref @ encode_floats fs) (STORAGE_REF_SIZE + i * FLOAT_SIZE)) [0..<n] = fs"
proof -
  have "float4get (ref @ xs) (STORAGE_REF_SIZE + k) = float4get xs k" for xs k using assms(1) by (simp add: float4get_def nth_append)
  then show ?thesis using floats_decode_encode [of fs "[]"] assms(2) by (simp add: decode_floats_def)
qed

text \<open>
  C26: The text of a vector reads back as the vector. A stored vector of up to 3072 numbers, none of them a not-a-number or subnormal, is printed
  into any buffer of the size that \<^verbatim>\<open>svector_resolve_params\<close> announces for its dimension, and reading that text into a value of the same type gives
  the same floats bit by bit.
\<close>

theorem svector_text_roundtrip:
  assumes lib: "prints_back strtof to_chars" and fs: "list_all float_plain fs" "fs \<noteq> []" "length fs \<le> MAX_VECTOR_DIMENSION"
    and ref: "length ref = STORAGE_REF_SIZE" and sizes: "DECODE_BUFFER_SIZE (length fs) \<le> out_size" "8 + 4 * length fs \<le> n"
  shows "\<exists>text. svector_to_string to_chars (int (length fs)) (ref @ encode_floats fs) out_size = Some text \<and> length text < DECODE_BUFFER_SIZE (length fs)
     \<and> svector_from_string strtof (Some (int (length fs))) text n = (replicate 8 0 @ encode_floats fs, Inr (int (length fs), 8 + 4 * length fs))"
proof -
  define repr where "repr = (\<lambda>f. the (to_chars General FLOAT_DIGITS10 f))"
  let ?ts = "map repr fs" and ?n = "length fs"
  have t: "to_chars General FLOAT_DIGITS10 f = Some (repr f)" "length (repr f) \<le> 16" "reads_as strtof (repr f) f" if "f \<in> set fs" for f
    using lib fs(1) that by (auto simp: prints_back_def repr_def list_all_iff MAX_FLOAT_STR_LENGTH_def)
  have r: "list_all2 (reads_as strtof) ?ts fs" "list_all2 (\<lambda>f t. to_chars General FLOAT_DIGITS10 f = Some t) fs ?ts"
    using t by (auto simp: list_all2_conv_all_nth)
  have len: "length (commas ?ts) \<le> ?n * 16 + (?n - 1)" using commas_length [of 16 ?ts] t(2) fs(2) by (simp add: list_all_iff)
  have u: "usize (int ?n) = ?n" using fs(3) by (simp add: usize_def MAX_VECTOR_DIMENSION_def)
  have "0 < ?n" using fs(2) by simp
  have "svector_to_string to_chars (int ?n) (ref @ encode_floats fs) out_size = Some (''['' @ commas ?ts @ '']'')"
    using format_elements_commas [of to_chars General FLOAT_DIGITS10 fs ?ts "''[''" True out_size] r(2) len sizes(1) fs(3) ref \<open>0 < ?n\<close>
    by (simp add: svector_to_string_def svector_format_impl_def u Let_def emit_def value_floats [OF ref refl, unfolded STORAGE_REF_SIZE_def FLOAT_SIZE_def] DECODE_BUFFER_SIZE_def MAX_FLOAT_STR_LENGTH_def
        STORAGE_REF_SIZE_def FLOAT_SIZE_def)
  moreover have "svector_from_string strtof (Some (int ?n)) (''['' @ commas ?ts @ '']'') n = (replicate 8 0 @ encode_floats fs, Inr (int ?n, 8 + 4 * ?n))"
    by (rule from_string_accepts [OF trim_brackets commas_denotes [OF r(1)]]) (use fs sizes in simp_all)
  moreover have "length (''['' @ commas ?ts @ '']'') < DECODE_BUFFER_SIZE ?n"
    using len by (simp add: DECODE_BUFFER_SIZE_def MAX_FLOAT_STR_LENGTH_def)
  ultimately show ?thesis by blast
qed

text \<open>
  A library that prints the bit pattern in decimal satisfies what is relied on.
\<close>

definition strtof_bits :: strtof_fn where
  "strtof_bits s = (let ds = takeWhile is_digit s in (word_of_nat (digits_value ds), length ds, False))"
definition to_chars_bits :: to_chars_fn where "to_chars_bits fmt precision f = Some (decimal (unat f))"

lemma decimal_length: "0 < k \<Longrightarrow> n < 10 ^ k \<Longrightarrow> length (decimal n) \<le> k"
proof (induction n arbitrary: k rule: decimal.induct)
  case (1 n)
  show ?case
  proof (cases "n < 10")
    case True
    with 1 show ?thesis by (subst decimal.simps) simp
  next
    case False
    then have k: "k = Suc (k - 1)" "0 < k - 1" using 1(2,3) by (cases k; cases "k - 1"; simp)+
    then have "n div 10 < 10 ^ (k - 1)" using 1(3) by (metis div_less_iff_less_mult mult.commute power_Suc zero_less_numeral)
    from "1.IH" [OF False k(2) this] k(1) False show ?thesis by (subst decimal.simps) simp
  qed
qed

lemma bits_read: "reads_as strtof_bits (decimal (unat f)) f"
proof -
  let ?t = "decimal (unat f)"
  have d: "\<forall>x\<in>set ?t. is_digit x" "?t \<noteq> []" "digits_value ?t = unat f" using decimal_digits [of "unat f"] by (simp_all add: list_all_iff)
  then have "is_digit (hd ?t)" by simp
  then have "\<not> is_space (hd ?t)" by (auto simp: is_digit_def is_space_def)
  moreover have "takeWhile is_digit (?t @ c # rest) = ?t" if "c = CHR '','' \<or> c = CHR '']''" for c rest
  proof -
    have "\<not> is_digit c" using that by (auto simp: is_digit_def)
    with d(1) show ?thesis by (simp add: takeWhile_append)
  qed
  ultimately show ?thesis using d by (auto simp: reads_as_def strtof_bits_def Let_def)
qed

lemma bits_print_back: "prints_back strtof_bits to_chars_bits"
proof -
  have "length (decimal (unat (f :: float_bits))) \<le> 16" for f
  proof (rule decimal_length)
    have "unat f < 4294967296" by simp
    then show "unat f < 10 ^ 16" by (rule order_less_trans) simp
  qed simp
  then show ?thesis using bits_read by (simp add: prints_back_def to_chars_bits_def MAX_FLOAT_STR_LENGTH_def)
qed

theorem svector_text_roundtrip_witness:
  "\<exists>text. svector_to_string to_chars_bits 2 (replicate 8 7 @ encode_floats [0x3F800000, 0x80000000]) 40 = Some text
     \<and> svector_from_string strtof_bits (Some 2) text 16 = (replicate 8 0 @ encode_floats [0x3F800000, 0x80000000], Inr (2, 16))"
  using svector_text_roundtrip [OF bits_print_back, of "[0x3F800000, 0x80000000]" "replicate 8 7" 40 16]
  by (auto simp: float_plain_def float_nan_def STORAGE_REF_SIZE_def MAX_VECTOR_DIMENSION_def DECODE_BUFFER_SIZE_def MAX_FLOAT_STR_LENGTH_def)

subsection \<open>The default value\<close>

lemma default_commas: "0 < n \<Longrightarrow> ''0'' @ concat (map (\<lambda>_. '',0'') [1..<n]) = commas (replicate n ''0'')"
proof (induction n)
  case (Suc n)
  show ?case
  proof (cases "n = 0")
    case False
    have "concat (map (\<lambda>_. '',0'') [1..<Suc n]) = '',0'' @ concat (map (\<lambda>_. '',0'') [1..<n])"
    proof -
      have "map (\<lambda>_. '',0'') [1..<Suc n] = replicate n '',0''" "map (\<lambda>_. '',0'') [1..<n] = replicate (n - 1) '',0''"
        by (simp_all add: map_replicate_const)
      with False show ?thesis by (cases n) simp_all
    qed
    with Suc False show ?thesis by (simp add: commas_Cons)
  qed simp
qed simp

text \<open>
  The default of a column is the zero vector of its dimension: for every dimension the type allows, the default text is one that reading accepts
  for that dimension, and what it denotes is all zeros; for any other dimension the error of the validation is reported.
\<close>

theorem svector_default_zero:
  assumes lib: "reads_as strtof ''0'' 0" and n: "8 + 4 * nat p \<le> n"
  shows "case svector_default p of
     (text, None) \<Rightarrow> 0 < p \<and> p \<le> int MAX_VECTOR_DIMENSION \<and> svector_from_string strtof (Some p) text n = (replicate 8 0 @ encode_floats (replicate (nat p) 0), Inr (p, 8 + 4 * nat p))
   | (text, Some e) \<Rightarrow> svector_validate_dimension p = Some e \<and> \<not> (0 < p \<and> p \<le> int MAX_VECTOR_DIMENSION)"
proof (cases "svector_validate_dimension p")
  case (Some e)
  then show ?thesis by (auto simp: svector_default_def svector_validate_dimension_def split: if_splits)
next
  case None
  then have p: "0 < p" "p \<le> int MAX_VECTOR_DIMENSION" by (auto simp: svector_validate_dimension_def split: if_splits)
  then have "''0'' @ concat (map (\<lambda>_. '',0'') [1..<nat p]) = commas (replicate (nat p) ''0'')" by (intro default_commas) simp
  then have "svector_default p = (''['' @ commas (replicate (nat p) ''0'') @ '']'', None)"
    unfolding svector_default_def None by (metis append.assoc append_Cons append_Nil option.simps(4))
  moreover have "denotes strtof (commas (replicate (nat p) ''0'')) (replicate (nat p) 0)"
    by (rule commas_denotes) (use lib p in \<open>auto simp: list_all2_conv_all_nth\<close>)
  from from_string_accepts [OF trim_brackets this, of n "Some p"] p n
  have "svector_from_string strtof (Some p) (''['' @ commas (replicate (nat p) ''0'') @ '']'') n = (replicate 8 0 @ encode_floats (replicate (nat p) 0), Inr (p, 8 + 4 * nat p))"
    by simp
  ultimately show ?thesis using p by simp
qed

theorem svector_default_zero_witness:
  "svector_default 3 = (''[0,0,0]'', None)
   \<and> svector_from_string strtof_bits (Some 3) ''[0,0,0]'' 20 = (replicate 8 0 @ encode_floats [0, 0, 0], Inr (3, 20))"
proof -
  have "decimal (unat (0 :: float_bits)) = ''0''" by (subst decimal.simps) (simp add: char_of_def bit_Suc bit_0)
  with bits_read [of 0] have "reads_as strtof_bits ''0'' 0" by simp
  moreover have "svector_default 3 = (''[0,0,0]'', None)"
    by (simp add: svector_default_def svector_validate_dimension_def MAX_VECTOR_DIMENSION_def upt_conv_Cons)
  ultimately show ?thesis using svector_default_zero [of strtof_bits 3 20] by (simp add: numeral_3_eq_3)
qed

end
