(* ===== verification/Svector_Functions.thy ===== *)
theory Svector_Functions
  imports Svector_Text
begin

text \<open>
  The parameters of the type, the order of values and the SQL functions.
\<close>

subsection \<open>The dimension\<close>

lemma strtoll_decimal:
  "strtoll (decimal n) = (if int n > 2 ^ 63 - 1 then (2 ^ 63 - 1, length (decimal n), True) else (int n, length (decimal n), False))"
proof -
  obtain c cs where d: "decimal n = c # cs" using decimal_digits(1) by (cases "decimal n") auto
  have c: "is_digit c" and all: "\<forall>x\<in>set (decimal n). is_digit x" using decimal_digits(2) [of n] by (simp_all add: d list_all_iff)
  have nc: "c \<noteq> CHR ''-''" "c \<noteq> CHR ''+''" "\<not> is_space c" using c by (auto simp: is_digit_def is_space_def)
  have t: "takeWhile is_digit (c # cs) = c # cs" using all unfolding d by (intro takeWhile_eq_all_conv [THEN iffD2]) auto
  show ?thesis using nc t decimal_digits(3) [of n] unfolding strtoll_def d by (simp add: Let_def)
qed

lemma c_str_decimal: "c_str (decimal n) = decimal n"
  using decimal_digits(2) [of n] by (auto simp: c_str_def list_all_iff is_digit_def takeWhile_eq_all_conv)

lemma validate_dimension_iff: "svector_validate_dimension d = None \<longleftrightarrow> 0 < d \<and> d \<le> int MAX_VECTOR_DIMENSION"
  by (auto simp: svector_validate_dimension_def)

text \<open>
  C27: The dimension goes through the parameters of the type unchanged. \<^verbatim>\<open>SVECTOR(d)\<close> is accepted exactly for 1 to 3072; the parameters it is recorded
  under are resolved to the size of a value and of its longest text, and are parsed back to \<open>d\<close>; and whatever strings the server passes,
  only these sizes are ever resolved, none of them larger than the type's maximum.
\<close>

theorem svector_params_roundtrip:
  "(\<forall>ps. svector_get_params d [] = Inr ps \<longleftrightarrow> 0 < d \<and> d \<le> int MAX_VECTOR_DIMENSION \<and> ps = [(''dimension'', to_string d)])
   \<and> (0 < d \<and> d \<le> int MAX_VECTOR_DIMENSION \<longrightarrow>
        svector_resolve_params [(''dimension'', to_string d)] = Inr \<lparr>persisted_length = 8 + 4 * d, max_decode_buffer_length = int (DECODE_BUFFER_SIZE (nat d))\<rparr>
        \<and> SVectorParams_parse [(''dimension'', to_string d)] = Some d)
   \<and> (\<forall>r. svector_resolve_params params = Inr r \<longrightarrow> (\<exists>e. 0 < e \<and> e \<le> int MAX_VECTOR_DIMENSION \<and> persisted_length r = 8 + 4 * e
        \<and> max_decode_buffer_length r = int (DECODE_BUFFER_SIZE (nat e)) \<and> persisted_length r \<le> int kSVectorMaxPersistedLength))"
proof (intro conjI allI impI)
  show "svector_get_params d [] = Inr ps \<longleftrightarrow> 0 < d \<and> d \<le> int MAX_VECTOR_DIMENSION \<and> ps = [(''dimension'', to_string d)]" for ps
    by (auto simp: svector_get_params_def svector_validate_dimension_def)
  have size: "2 + e * int MAX_FLOAT_STR_LENGTH + (e - 1) + 1 = int (DECODE_BUFFER_SIZE (nat e))" if "0 < e" for e
    using that by (simp add: DECODE_BUFFER_SIZE_def MAX_FLOAT_STR_LENGTH_def)
  {
    assume d: "0 < d \<and> d \<le> int MAX_VECTOR_DIMENSION"
    have s: "to_string d = decimal (nat d)" using d by (simp add: to_string_def)
    have l: "strtoll (decimal (nat d)) = (d, length (decimal (nat d)), False)"
      using d by (simp add: strtoll_decimal MAX_VECTOR_DIMENSION_def)
    have ne: "length (decimal (nat d)) \<noteq> 0" using decimal_digits(1) by simp
    show "svector_resolve_params [(''dimension'', to_string d)] = Inr \<lparr>persisted_length = 8 + 4 * d, max_decode_buffer_length = int (DECODE_BUFFER_SIZE (nat d))\<rparr>"
      using d ne size [of d] validate_dimension_iff [of d]
      by (simp add: svector_resolve_params_def s c_str_decimal l Let_def STORAGE_REF_SIZE_def FLOAT_SIZE_def mult.commute)
    show "SVectorParams_parse [(''dimension'', to_string d)] = Some d"
      using ne by (simp add: SVectorParams_parse_def stoll_def s c_str_decimal l)
  }
  fix r assume "svector_resolve_params params = Inr r"
  then obtain e where e: "svector_validate_dimension e = None"
      "r = \<lparr>persisted_length = int STORAGE_REF_SIZE + e * int FLOAT_SIZE, max_decode_buffer_length = 2 + e * int MAX_FLOAT_STR_LENGTH + (e - 1) + 1\<rparr>"
    by (auto simp: svector_resolve_params_def Let_def split: if_splits prod.splits option.splits)
  then show "\<exists>e. 0 < e \<and> e \<le> int MAX_VECTOR_DIMENSION \<and> persisted_length r = 8 + 4 * e
        \<and> max_decode_buffer_length r = int (DECODE_BUFFER_SIZE (nat e)) \<and> persisted_length r \<le> int kSVectorMaxPersistedLength"
    using size [of e] by (intro exI [of _ e]) (auto simp: validate_dimension_iff STORAGE_REF_SIZE_def FLOAT_SIZE_def kSVectorMaxPersistedLength_def)
qed

theorem svector_params_roundtrip_witness:
  "svector_get_params 384 [] = Inr [(''dimension'', to_string 384)] \<and> SVectorParams_parse [(''dimension'', to_string 384)] = Some 384
   \<and> svector_resolve_params [(''dimension'', to_string 384)] = Inr \<lparr>persisted_length = 1544, max_decode_buffer_length = 6530\<rparr>"
  using svector_params_roundtrip [of 384 "[]"]
  by (simp add: MAX_VECTOR_DIMENSION_def DECODE_BUFFER_SIZE_def MAX_FLOAT_STR_LENGTH_def)

subsection \<open>The order\<close>

definition lexless :: "int list \<Rightarrow> int list \<Rightarrow> bool" where "lexless xs ys \<longleftrightarrow> (xs, ys) \<in> lexord {(a, b). a < b}"

lemma compare_floats_lex:
  assumes "length xs = length ys" "\<forall>f\<in>set xs \<union> set ys. \<not> float_nan f"
  shows "compare_floats xs ys = (if lexless (map float_key xs) (map float_key ys) then -1 else if lexless (map float_key ys) (map float_key xs) then 1 else 0)"
    and "compare_floats xs ys = 0 \<longleftrightarrow> map float_key xs = map float_key ys"
  using assms
proof (induction xs ys rule: list_induct2)
  case (Cons x xs y ys)
  {
    case 1
    with Cons show ?case by (auto simp: float_less_def lexless_def)
  next
    case 2
    with Cons show ?case by (auto simp: float_less_def)
  }
qed (simp_all add: lexless_def)

definition value_of :: "float_bits list \<Rightarrow> byte list \<Rightarrow> bool" where
  "value_of fs bs \<longleftrightarrow> (\<exists>ref. length ref = STORAGE_REF_SIZE \<and> bs = ref @ encode_floats fs)"

lemma compare_values:
  assumes "value_of fs va" "value_of gs vb" "length fs = length gs" "length fs \<le> MAX_VECTOR_DIMENSION"
  shows "svector_compare (int (length fs)) va vb = compare_floats fs gs"
proof -
  obtain r q where v: "length r = STORAGE_REF_SIZE" "va = r @ encode_floats fs" "length q = STORAGE_REF_SIZE" "vb = q @ encode_floats gs"
    using assms(1,2) by (auto simp: value_of_def)
  have u: "usize (int (length fs)) = length fs" using assms(4) by (simp add: usize_def MAX_VECTOR_DIMENSION_def)
  show ?thesis
    using v(1,3) assms(3) value_floats [OF v(1) refl, of fs] value_floats [OF v(3), of "length fs" gs]
    by (simp add: svector_compare_def u u [unfolded assms(3)] Let_def v(2,4) FLOAT_SIZE_def)
qed

text \<open>
  C28: Without not-a-numbers, comparing vectors is the lexicographic order of their numbers: for two values of one dimension the result is negative exactly when
  the first list of numbers precedes the second, positive exactly when it follows, and zero exactly when all numbers are equal, where both
  zeros count as the same number.
\<close>

theorem svector_compare_order:
  assumes "value_of fs va" "value_of gs vb" "length fs = length gs" "length fs \<le> MAX_VECTOR_DIMENSION" "\<forall>f\<in>set fs \<union> set gs. \<not> float_nan f"
  shows "(svector_compare (int (length fs)) va vb < 0 \<longleftrightarrow> lexless (map float_key fs) (map float_key gs))
    \<and> (svector_compare (int (length fs)) va vb > 0 \<longleftrightarrow> lexless (map float_key gs) (map float_key fs))
    \<and> (svector_compare (int (length fs)) va vb = 0 \<longleftrightarrow> map float_key fs = map float_key gs)"
proof -
  note c = compare_floats_lex [OF assms(3,5)]
  have "\<not> (lexless xs ys \<and> lexless ys xs)" for xs ys
    unfolding lexless_def
    using lexord_trans [of xs ys "{(a :: int, b). a < b}" xs] lexord_irreflexive [of "{(a :: int, b). a < b}" xs] by (auto simp: trans_def)
  then show ?thesis unfolding compare_values [OF assms(1-4)] using c by auto
qed

theorem svector_compare_order_witness:
  "svector_compare 2 (replicate 8 0 @ encode_floats [0x80000000, 0xBF800000]) (replicate 8 1 @ encode_floats [0, 0x3F800000]) < 0"
proof -
  have "value_of fs (replicate 8 b @ encode_floats fs)" for fs and b :: byte by (auto simp: value_of_def STORAGE_REF_SIZE_def)
  moreover have "lexless (map float_key [0x80000000, 0xBF800000]) (map float_key [0, 0x3F800000])"
    by (simp add: lexless_def float_key_def)
  ultimately show ?thesis
    using svector_compare_order [of "[0x80000000, 0xBF800000]" _ "[0, 0x3F800000]"] by (simp add: MAX_VECTOR_DIMENSION_def float_nan_def)
qed



subsection \<open>Functions on values\<close>

definition byte_hex :: "byte \<Rightarrow> string" where "byte_hex b = [hex_char (unat (drop_bit 4 b)), hex_char (unat (b AND 0x0F))]"

fun unhex_char :: "char \<Rightarrow> nat" where
  "unhex_char c = (if is_digit c then of_char c - 48 else of_char c - 55)"

fun unhex :: "string \<Rightarrow> byte list" where
  "unhex (a # b # cs) = word_of_nat (16 * unhex_char a + unhex_char b) # unhex cs"
| "unhex _ = []"

lemma unhex_hex_char: "n < 16 \<Longrightarrow> unhex_char (hex_char n) = n"
proof -
  assume "n < 16"
  then have "n \<in> {0,1,2,3,4,5,6,7,8,9,10,11,12,13,14,15}" by (simp add: numeral_eq_Suc less_Suc_eq) 
  then show ?thesis by (auto simp: hex_char_def is_digit_def)
qed

lemma byte_nibbles: "word_of_nat (16 * unat (drop_bit 4 b) + unat (b AND 0x0F)) = (b :: byte)" "unat (drop_bit 4 b) < 16" "unat (b AND 0x0F) < 16" for b :: byte
proof -
  have m: "(0x0F :: byte) = mask 4" by (simp add: mask_eq_exp_minus_1)
  have a: "unat (b AND 0x0F) = unat b mod 16"
    unfolding m take_bit_eq_mask [symmetric] unsigned_take_bit_eq by (simp add: take_bit_eq_mod)
  have d: "unat (drop_bit 4 b) = unat b div 16" unfolding unsigned_drop_bit_eq by (simp add: drop_bit_eq_div take_bit_eq_mod)
  have "unat b < 16 * 16" by simp
  then show "unat (drop_bit 4 b) < 16" unfolding d by (rule less_mult_imp_div_less)
  show "unat (b AND 0x0F) < 16" by (simp add: a)
  show "word_of_nat (16 * unat (drop_bit 4 b) + unat (b AND 0x0F)) = b" unfolding a d by simp
qed

lemma unhex_concat: "unhex (concat (map byte_hex bs)) = bs"
proof (induction bs)
  case (Cons b bs)
  have "16 * drop_bit 4 b + (b AND 15) = b" using byte_nibbles(1) [of b] by simp
  with Cons show ?case by (simp add: byte_hex_def unhex_hex_char byte_nibbles(2,3) del: unhex_char.simps)
qed simp

text \<open>
  \<^verbatim>\<open>VECTOR_HEX\<close> encodes the whole value, not the floats alone: for a value that is long enough and a buffer of two characters per byte the
  result decodes to the first \<open>8 + 4 d\<close> bytes of the value, the storage reference included.
\<close>

theorem svector_hex_value:
  assumes v: "\<not> sa_null vec" "0 < sa_dimension vec" "sa_dimension vec \<le> int MAX_VECTOR_DIMENSION"
    and len: "8 + 4 * nat (sa_dimension vec) \<le> length (sa_value vec)" "16 + 8 * nat (sa_dimension vec) \<le> n"
  shows "\<exists>t. svector_hex vec n = Sql_Set t \<and> length t = 16 + 8 * nat (sa_dimension vec) \<and> unhex t = take (8 + 4 * nat (sa_dimension vec)) (sa_value vec)"
proof -
  let ?d = "nat (sa_dimension vec)" let ?k = "8 + 4 * ?d"
  have u: "usize (sa_dimension vec) = ?d" "?d \<le> 3072" using v by (simp_all add: usize_def MAX_VECTOR_DIMENSION_def)
  then have b: "(STORAGE_REF_SIZE + usize (sa_dimension vec) * FLOAT_SIZE) mod 2 ^ 64 = ?k" by (simp add: STORAGE_REF_SIZE_def FLOAT_SIZE_def)
  have m: "(?k * 2) mod 2 ^ 64 = 16 + 8 * ?d" using u(2) by simp
  have "map (\<lambda>i. byte_hex (sa_value vec ! i)) [0..<?k] = map byte_hex (take ?k (sa_value vec))"
    using len(1) by (intro nth_equalityI) simp_all
  then have t: "svector_hex vec n = Sql_Set (concat (map byte_hex (take ?k (sa_value vec))))"
    unfolding svector_hex_def Let_def b m using v(1) len by (simp add: byte_hex_def [symmetric])
  have "length (concat (map byte_hex bs)) = 2 * length bs" for bs by (induction bs) (simp_all add: byte_hex_def)
  with t len(1) unhex_concat show ?thesis by auto
qed

theorem svector_hex_value_witness:
  "\<exists>t. svector_hex \<lparr>sa_null = False, sa_dimension = 1, sa_value = replicate 8 1 @ [0, 0, 128, 63]\<rparr> 24 = Sql_Set t \<and> unhex t = replicate 8 1 @ [0, 0, 128, 63]"
  using svector_hex_value [of "\<lparr>sa_null = False, sa_dimension = 1, sa_value = replicate 8 1 @ [0, 0, 128, 63]\<rparr>" 24]
  by (auto simp: MAX_VECTOR_DIMENSION_def)

subsection \<open>Distances\<close>

text \<open>What the distance functions compute with: the vector of a value.\<close>

definition native_of :: "svector_arg \<Rightarrow> native_data" where
  "native_of vec = (let d = nat (sa_dimension vec) in \<lparr>nv_dim = d, nv_data = decode_floats (drop STORAGE_REF_SIZE (sa_value vec)) d\<rparr>)"

definition arg_ok :: "svector_arg \<Rightarrow> bool" where
  "arg_ok vec \<longleftrightarrow> \<not> sa_null vec \<and> 0 < sa_dimension vec \<and> sa_dimension vec \<le> int MAX_VECTOR_DIMENSION \<and> 8 + 4 * nat (sa_dimension vec) \<le> length (sa_value vec)"

lemma arg_native:
  assumes "arg_ok vec" "is_aligned addr 16"
  defines "d \<equiv> nat (sa_dimension vec)"
  shows "from_encoded (Some (take (4 * d) (drop STORAGE_REF_SIZE (sa_value vec)))) (Some (addr, 4 + 4 * d)) = Some (native_of vec)"
proof -
  have d: "0 < d" "d \<le> 3072" "4 * d \<le> length (drop STORAGE_REF_SIZE (sa_value vec))"
    using assms(1) by (auto simp: arg_ok_def d_def STORAGE_REF_SIZE_def MAX_VECTOR_DIMENSION_def)
  have "decode_floats (take (4 * d) bs) d = decode_floats bs d" if "4 * d \<le> length bs" for bs
    using that by (auto simp: decode_floats_def float4get_def FLOAT_SIZE_def)
  with d assms(2) show ?thesis
    by (subst from_encoded_iff) (auto simp: native_of_def Let_def d_def [symmetric] MAX_VECTOR_DIMENSION_def)
qed

lemma distance_ok:
  assumes a: "arg_ok v1" "arg_ok v2" "sa_dimension v1 = sa_dimension v2" and al: "is_aligned a1 16" "is_aligned a2 16"
    and heap: "\<forall>n. heap_gives n MAX_ALIGN"
  shows "svector_distance_impl heap_gives a1 a2 v1 v2 dist = Sql_Set (dist (native_of v1) (native_of v2))"
proof -
  let ?d = "nat (sa_dimension v1)"
  have d: "0 < ?d" "?d \<le> 3072" "usize (sa_dimension v1) = ?d" using a(1) by (auto simp: arg_ok_def usize_def MAX_VECTOR_DIMENSION_def)
  have m: "(?d * FLOAT_SIZE) mod 2 ^ 64 = 4 * ?d" "(STORAGE_REF_SIZE + 4 * ?d) mod 2 ^ 64 = 8 + 4 * ?d" "u32 ?d = ?d"
    using d(2) by (simp_all add: FLOAT_SIZE_def STORAGE_REF_SIZE_def u32_def)
  have l: "native_len ?d = \<lparr>nl_length = 4 + 4 * ?d, nl_alignment = MAX_ALIGN\<rparr>"
    using d(2) by (simp add: native_len_def Let_def DATA_HEADER_SIZE_def FLOAT_SIZE_def MAX_VECTOR_DIMENSION_def)
  have init: "\<exists>b m. AlignedBuffer_init VECTOR_STACK_BUFFER_SIZE heap_gives (4 + 4 * ?d) MAX_ALIGN new_buffer k = ((b, m), True) \<and> AlignedBuffer_is_initialized b \<and> ab_size b = 4 + 4 * ?d" for k
    using heap by (auto simp: AlignedBuffer_init_def AlignedBuffer_reset_def Let_def AlignedBuffer_is_initialized_def)
  obtain b1 m1 where 1: "AlignedBuffer_init VECTOR_STACK_BUFFER_SIZE heap_gives (4 + 4 * ?d) MAX_ALIGN new_buffer 0 = ((b1, m1), True)" "AlignedBuffer_is_initialized b1" "ab_size b1 = 4 + 4 * ?d"
    using init by blast
  obtain b2 m2 where 2: "AlignedBuffer_init VECTOR_STACK_BUFFER_SIZE heap_gives (4 + 4 * ?d) MAX_ALIGN new_buffer m1 = ((b2, m2), True)" "AlignedBuffer_is_initialized b2" "ab_size b2 = 4 + 4 * ?d"
    using init by blast
  have f: "from_encoded (Some (take (4 * ?d) (drop STORAGE_REF_SIZE (sa_value v2)))) (Some (a2, 4 + 4 * ?d)) = Some (native_of v2)"
    using arg_native [OF a(2) al(2)] a(3) by simp
  have "\<not> sa_null v1" "\<not> sa_null v2" "\<not> length (sa_value v1) < 8 + 4 * ?d" "\<not> length (sa_value v2) < 8 + 4 * ?d"
    using a by (auto simp: arg_ok_def)
  then show ?thesis
    unfolding svector_distance_impl_def Let_def a(3) [symmetric] d(3) m
    using 1 2 f arg_native [OF a(1) al(1)] by (simp add: l)
qed

text \<open>What is relied on of the arithmetic: the operations that are commutative, or symmetric up to the sign that a square or a magnitude drops.\<close>

definition fpu_symmetric :: "'d fpu \<Rightarrow> bool" where
  "fpu_symmetric F \<longleftrightarrow> (\<forall>a b. fp_double F (fp_fabs F (fp_fsub F a b)) = fp_double F (fp_fabs F (fp_fsub F b a)))
     \<and> (\<forall>a b. fp_double F (fp_fmul F a b) = fp_double F (fp_fmul F b a))
     \<and> (\<forall>x y. fp_mul F (fp_sub F x y) (fp_sub F x y) = fp_mul F (fp_sub F y x) (fp_sub F y x)) \<and> (\<forall>x y. fp_mul F x y = fp_mul F y x)"

lemma dist_symmetric:
  assumes F: "fpu_symmetric F" and d: "nv_dim v1 = nv_dim v2"
  shows "dist_l1 F v1 v2 = dist_l1 F v2 v1" "dist_squared_l2 F v1 v2 = dist_squared_l2 F v2 v1" "dist_l2 F v1 v2 = dist_l2 F v2 v1"
    "dist_inner_product F v1 v2 = dist_inner_product F v2 v1" "dist_cosine F v1 v2 = dist_cosine F v2 v1"
proof -
  note s = F [unfolded fpu_symmetric_def]
  show l: "dist_l1 F v1 v2 = dist_l1 F v2 v1" unfolding dist_l1_def d using s by metis
  show q: "dist_squared_l2 F v1 v2 = dist_squared_l2 F v2 v1" unfolding dist_squared_l2_def d Let_def using s by metis
  then show "dist_l2 F v1 v2 = dist_l2 F v2 v1" by (simp add: dist_l2_def)
  show "dist_inner_product F v1 v2 = dist_inner_product F v2 v1" unfolding dist_inner_product_def d using s by metis
  let ?step = "\<lambda>u w. \<lambda>(dot, norm1, norm2) i. let x = fp_double F (nv_data u ! i); y = fp_double F (nv_data w ! i) in
      (fp_add F dot (fp_mul F x y), fp_add F norm1 (fp_mul F x x), fp_add F norm2 (fp_mul F y y))"
  have "foldl (?step v1 v2) (a, b, c) is = (case foldl (?step v2 v1) (a, c, b) is of (x, y, z) \<Rightarrow> (x, z, y))" for a b c "is"
  proof (induction "is" arbitrary: a b c)
    case (Cons i "is")
    have "fp_mul F (fp_double F (nv_data v2 ! i)) (fp_double F (nv_data v1 ! i)) = fp_mul F (fp_double F (nv_data v1 ! i)) (fp_double F (nv_data v2 ! i))"
      using s by blast
    with Cons show ?case by (simp add: Let_def)
  qed simp
  then show "dist_cosine F v1 v2 = dist_cosine F v2 v1"
    unfolding dist_cosine_def d using s by (simp add: Let_def split: prod.split)
qed


text \<open>Integers as the arithmetic: the bit patterns stand for themselves and a square serves as the magnitude.\<close>

definition int_fpu :: "int fpu" where
  "int_fpu = \<lparr>fp_double = sint, fp_fsub = (-), fp_fmul = (*), fp_fabs = (\<lambda>w. w * w), fp_zero = 0, fp_one = 1, fp_add = (+), fp_sub = (-),
     fp_mul = (*), fp_div = (div), fp_sqrt = (\<lambda>x. x), fp_less = (<)\<rparr>"


end
