(* ===== verification/Page_Tools.thy ===== *)
theory Page_Tools
  imports Index_Meta Native_Vector
begin

text \<open>
  The parsers of the page dump tool (\<^verbatim>\<open>src/storage/tools\<close>: \<^verbatim>\<open>hnsw_layout\<close>, \<^verbatim>\<open>page_reader\<close>, \<^verbatim>\<open>data_page_parser\<close>, \<^verbatim>\<open>root_page_parser\<close>). The
  tool has no access to the server: it reads a page as a vector of bytes and computes the layout again from what it finds there. The lemmas
  compare what it reports with the pages, records and entries of the stores.

  A read behind the end of a vector is undefined in C++ and is the error \<open>Out_Of_Bounds\<close> here; \<open>Tool_Message\<close> is a parser that returns false
  with its text.
\<close>

unbundle bit_operations_syntax

subsection \<open>Reading bytes\<close>

datatype tool_error = Out_Of_Bounds | Tool_Message string

type_synonym 'a tool_result = "tool_error + 'a"

definition tbind :: "'a tool_result \<Rightarrow> ('a \<Rightarrow> 'b tool_result) \<Rightarrow> 'b tool_result" where
  "tbind m f = (case m of Inl e \<Rightarrow> Inl e | Inr x \<Rightarrow> f x)"

fun tmap :: "('a \<Rightarrow> 'b tool_result) \<Rightarrow> 'a list \<Rightarrow> 'b list tool_result" where
  "tmap f [] = Inr []"
| "tmap f (x # xs) = tbind (f x) (\<lambda>y. tbind (tmap f xs) (\<lambda>ys. Inr (y # ys)))"

definition byte_at :: "byte list \<Rightarrow> nat \<Rightarrow> byte tool_result" where
  "byte_at data off = (if off < length data then Inr (data ! off) else Inl Out_Of_Bounds)"

definition bytes_at :: "byte list \<Rightarrow> nat \<Rightarrow> nat \<Rightarrow> byte list tool_result" where
  "bytes_at data off n = tmap (\<lambda>i. byte_at data (off + i)) [0..<n]"

definition read_uint8 :: "byte list \<Rightarrow> nat \<Rightarrow> 8 word tool_result" where
  "read_uint8 data off = byte_at data off"

definition read_uint16 :: "byte list \<Rightarrow> nat \<Rightarrow> 16 word tool_result" where
  "read_uint16 data off = tbind (bytes_at data off 2) (\<lambda>b. Inr (push_bit 8 (ucast (b ! 0)) OR ucast (b ! 1)))"

definition read_uint32 :: "byte list \<Rightarrow> nat \<Rightarrow> 32 word tool_result" where
  "read_uint32 data off = tbind (bytes_at data off 4) (\<lambda>b.
     Inr (push_bit 24 (ucast (b ! 0)) OR push_bit 16 (ucast (b ! 1)) OR push_bit 8 (ucast (b ! 2)) OR ucast (b ! 3)))"

definition read_uint64 :: "byte list \<Rightarrow> nat \<Rightarrow> 64 word tool_result" where
  "read_uint64 data off = tbind (bytes_at data off 8) (\<lambda>b.
     Inr (push_bit 56 (ucast (b ! 0)) OR push_bit 48 (ucast (b ! 1)) OR push_bit 40 (ucast (b ! 2)) OR push_bit 32 (ucast (b ! 3))
       OR push_bit 24 (ucast (b ! 4)) OR push_bit 16 (ucast (b ! 5)) OR push_bit 8 (ucast (b ! 6)) OR ucast (b ! 7)))"

definition read_float :: "byte list \<Rightarrow> nat \<Rightarrow> float_bits tool_result" where
  "read_float data off = tbind (bytes_at data off 4) (\<lambda>b.
     Inr (ucast (b ! 0) OR push_bit 8 (ucast (b ! 1)) OR push_bit 16 (ucast (b ! 2)) OR push_bit 24 (ucast (b ! 3))))"

definition HNSW_ID_SIZE :: nat where "HNSW_ID_SIZE = 6"

definition read_id48 :: "byte list \<Rightarrow> nat \<Rightarrow> 64 word tool_result" where
  "read_id48 data off = tbind (bytes_at data off HNSW_ID_SIZE) (\<lambda>bs. Inr (foldl (\<lambda>v b. push_bit 8 v OR ucast b) 0 bs))"

text \<open>The result is the pair of \<open>is_free\<close> and \<open>is_deleted\<close>.\<close>

definition get_record_bits :: "byte list \<Rightarrow> nat \<Rightarrow> nat \<Rightarrow> (bool \<times> bool) tool_result" where
  "get_record_bits data bitmap_offset rec_index =
     (let bit_pos = rec_index * BITS_PER_RECORD; byte_offset = bitmap_offset + bit_pos div 8; bit_in_byte = bit_pos mod 8 in
      tbind (byte_at data byte_offset) (\<lambda>bitmap_byte.
      Inr ((ucast bitmap_byte :: 32 word) AND push_bit (bit_in_byte + FREE_BIT) 1 = 0,
           (ucast bitmap_byte :: 32 word) AND push_bit (bit_in_byte + DELETE_MARK_BIT) 1 \<noteq> 0)))"

subsection \<open>The layout of an index, derived from the sizes\<close>

definition HNSW_NID_INCOMING_BIT :: "64 word" where "HNSW_NID_INCOMING_BIT = push_bit 46 1"
definition HNSW_NID_REF_MASK :: "64 word" where "HNSW_NID_REF_MASK = HNSW_NID_INCOMING_BIT - 1"
definition SLOT_INDEX_MASK :: "64 word" where "SLOT_INDEX_MASK = push_bit 14 1 - 1"

datatype hnsw_record_kind = Record_None | Record_Neighbour | Record_Overflow

definition hnsw_max_neighbours :: "nat \<Rightarrow> bool \<Rightarrow> nat" where
  "hnsw_max_neighbours column_size has_lower =
     (let NODE_SIZE = 2 * HNSW_ID_SIZE; fixed = HNSW_ID_SIZE * (if has_lower then 3 else 2) in
      if column_size < fixed then 0 else (column_size - fixed) div NODE_SIZE)"

definition hnsw_overflow_capacity :: "nat \<Rightarrow> nat" where
  "hnsw_overflow_capacity column_size = (if column_size < HNSW_ID_SIZE then 0 else column_size div HNSW_ID_SIZE - 1)"

definition hnsw_neighbour_column_size :: "nat \<Rightarrow> bool \<Rightarrow> nat" where
  "hnsw_neighbour_column_size max_n has_lower =
     (let NODE_SIZE = 2 * HNSW_ID_SIZE; fixed = HNSW_ID_SIZE * (if has_lower then 3 else 2) in
      u16 (u32 (fixed + max_n * NODE_SIZE)))"

definition hnsw_decode_ref :: "64 word \<Rightarrow> page_ref \<times> nat" where
  "hnsw_decode_ref val = (ucast (val AND 0xFFFFFFFF), unat (ucast (drop_bit 32 val AND SLOT_INDEX_MASK) :: 16 word))"

record hnsw_index_metadata =
  hm_version :: nat
  hm_name :: "byte list"
  hm_level :: nat
  hm_entry_level :: nat
  hm_entry_points :: "64 word list"

definition STORAGE_META_VERSION :: nat where "STORAGE_META_VERSION = 1"
definition OVERFLOW_NAME_SUFFIX :: "byte list" where "OVERFLOW_NAME_SUFFIX = [0x2D, 0x4F, 0x56]"

definition HnswIndexMetadata_is_overflow :: "hnsw_index_metadata \<Rightarrow> bool" where
  "HnswIndexMetadata_is_overflow meta =
     (let suffix_len = length OVERFLOW_NAME_SUFFIX in
      length (hm_name meta) \<ge> suffix_len \<and> take suffix_len (drop (length (hm_name meta) - suffix_len) (hm_name meta)) = OVERFLOW_NAME_SUFFIX)"

fun entry_point_values :: "nat \<Rightarrow> byte list \<Rightarrow> 64 word list" where
  "entry_point_values 0 p = []"
| "entry_point_values (Suc n) p = foldl (\<lambda>v b. push_bit 8 v OR ucast b) 0 (take 8 p) # entry_point_values n (drop 8 p)"

text \<open>What is left of the bytes is \<open>p\<close>; its length is the \<^verbatim>\<open>rem\<close> of the source.\<close>

definition parse_hnsw_index_metadata :: "byte list \<Rightarrow> hnsw_index_metadata tool_result" where
  "parse_hnsw_index_metadata raw =
     (if length raw < 1 then Inl (Tool_Message ''empty metadata'')
      else
        let version = unat (hd raw); p1 = tl raw in
        if version \<noteq> STORAGE_META_VERSION then Inl (Tool_Message (''unexpected StorageMeta version '' @ decimal version))
        else if length p1 < 1 then Inl (Tool_Message ''truncated metadata: missing name length'')
        else
          let name_len = unat (hd p1); p2 = tl p1 in
          if length p2 < name_len then Inl (Tool_Message ''truncated metadata: name'')
          else
            let name = take name_len p2; p3 = drop name_len p2 in
            if length p3 < 2 then Inl (Tool_Message ''truncated metadata: level/entry_level'')
            else
              let level = unat (p3 ! 0); entry_level = unat (p3 ! 1); p4 = drop 2 p3 in
              if length p4 < 1 then Inl (Tool_Message ''truncated metadata: entry point count'')
              else
                let num_eps = unat (hd p4); p5 = tl p4 in
                if length p5 < num_eps * ENTRY_POINT_LEN then Inl (Tool_Message ''truncated metadata: entry points'')
                else Inr \<lparr>hm_version = version, hm_name = name, hm_level = level, hm_entry_level = entry_level,
                       hm_entry_points = entry_point_values num_eps p5\<rparr>)"

subsection \<open>Pages of a file\<close>

definition DEFAULT_PAGE_SIZE :: nat where "DEFAULT_PAGE_SIZE = 16384"

text \<open>
  A reader holds the bytes of the file it has opened, or nothing. Operations of the file stream succeed as long as the bytes are there; a
  position behind the end of a file can be sought and nothing is read from it.
\<close>

type_synonym page_reader = "byte list option"

definition PageReader_open :: "byte list option \<Rightarrow> page_reader \<Rightarrow> string + page_reader" where
  "PageReader_open file reader =
     (if reader \<noteq> None then Inl ''File already open''
      else case file of None \<Rightarrow> Inl ''Failed to open file''
      | Some bytes \<Rightarrow> if length bytes < DEFAULT_PAGE_SIZE then Inl ''File too small to contain even one page'' else Inr (Some bytes))"

definition PageReader_read_page :: "page_reader \<Rightarrow> page_ref \<Rightarrow> string + byte list" where
  "PageReader_read_page reader page_number =
     (case reader of None \<Rightarrow> Inl ''File not open''
      | Some bytes \<Rightarrow>
          let offset = unat page_number * DEFAULT_PAGE_SIZE; buffer = take DEFAULT_PAGE_SIZE (drop offset bytes) in
          if length buffer \<noteq> DEFAULT_PAGE_SIZE then Inl ''Incomplete page read'' else Inr buffer)"

subsection \<open>Data pages\<close>

record record_status =
  rs_is_free :: bool
  rs_is_deleted :: bool
  rs_trx_ref :: trx_ref
  rs_vector_data :: "float_bits list"
  rs_owner_vid :: "64 word"
  rs_lower_level_nid :: "64 word"
  rs_neighbours :: "(64 word \<times> 64 word) list"
  rs_overflow_nid :: "64 word"
  rs_incoming :: "64 word list"

definition new_record_status :: "bool \<Rightarrow> bool \<Rightarrow> record_status" where
  "new_record_status is_free is_deleted = \<lparr>rs_is_free = is_free, rs_is_deleted = is_deleted, rs_trx_ref = 0, rs_vector_data = [], rs_owner_vid = 0,
     rs_lower_level_nid = 0, rs_neighbours = [], rs_overflow_nid = 0, rs_incoming = []\<rparr>"

record data_page_info =
  di_version :: "8 word"
  di_page_type :: "8 word"
  di_free_slot_number :: "16 word"
  di_root_page_ref :: page_ref
  di_prev_free_page :: page_ref
  di_next_free_page :: page_ref
  di_max_num_recs :: nat
  di_num_free_recs :: nat
  di_fil_page_prev :: page_ref
  di_fil_page_next :: page_ref
  di_records :: "record_status list"
  di_index_kind :: hnsw_record_kind
  di_has_lower_level :: bool

text \<open>
  The bytes of a record behind its transaction, by the kind of the store. \<open>off\<close> is where they start; the source moves a running offset, here each
  field has its own.
\<close>

definition decode_record :: "byte list \<Rightarrow> nat \<Rightarrow> hnsw_record_kind \<Rightarrow> bool \<Rightarrow> nat \<Rightarrow> record_status \<Rightarrow> record_status tool_result" where
  "decode_record data column_size kind has_lower off rec =
     (case kind of
        Record_Neighbour \<Rightarrow>
          let max_n = hnsw_max_neighbours column_size has_lower;
              off1 = off + HNSW_ID_SIZE; off2 = (if has_lower then off1 + HNSW_ID_SIZE else off1) in
          tbind (read_id48 data off) (\<lambda>owner.
          tbind (if has_lower then read_id48 data off1 else Inr 0) (\<lambda>lower.
          tbind (tmap (\<lambda>s. tbind (read_id48 data (off2 + s * (2 * HNSW_ID_SIZE))) (\<lambda>nid.
                           tbind (read_id48 data (off2 + s * (2 * HNSW_ID_SIZE) + HNSW_ID_SIZE)) (\<lambda>vid. Inr (nid, vid)))) [0..<max_n]) (\<lambda>ns.
          tbind (read_id48 data (off2 + max_n * (2 * HNSW_ID_SIZE))) (\<lambda>ov.
          Inr (rec\<lparr>rs_owner_vid := owner, rs_lower_level_nid := lower, rs_neighbours := ns, rs_overflow_nid := ov\<rparr>)))))
      | Record_Overflow \<Rightarrow>
          let capacity = hnsw_overflow_capacity column_size in
          tbind (tmap (\<lambda>s. read_id48 data (off + s * HNSW_ID_SIZE)) [0..<capacity]) (\<lambda>inc.
          tbind (read_id48 data (off + capacity * HNSW_ID_SIZE)) (\<lambda>ov.
          Inr (rec\<lparr>rs_incoming := inc, rs_overflow_nid := ov\<rparr>)))
      | Record_None \<Rightarrow>
          let vector_dim = column_size div FLOAT_SIZE in
          tbind (tmap (\<lambda>j. read_float data (off + j * FLOAT_SIZE)) (filter (\<lambda>j. off + j * FLOAT_SIZE + FLOAT_SIZE \<le> length data) [0..<vector_dim])) (\<lambda>fs.
          Inr (rec\<lparr>rs_vector_data := fs\<rparr>)))"

definition parse_record :: "byte list \<Rightarrow> nat \<Rightarrow> hnsw_record_kind \<Rightarrow> bool \<Rightarrow> nat \<Rightarrow> nat \<Rightarrow> record_status tool_result" where
  "parse_record data column_size kind has_lower first_rec_offset i =
     (let rec_size = TRX_REF_SIZE + column_size in
      tbind (get_record_bits data FREE_BITMAP_OFF i) (\<lambda>(is_free, is_deleted).
      let rec = new_record_status is_free is_deleted; rec_offset = u32 (first_rec_offset + i * rec_size) in
      if \<not> is_free \<and> u32 (rec_offset + rec_size) \<le> length data then
        tbind (read_uint64 data rec_offset) (\<lambda>trx_ref.
        decode_record data column_size kind has_lower (rec_offset + TRX_REF_SIZE) (rec\<lparr>rs_trx_ref := trx_ref\<rparr>))
      else Inr (rec\<lparr>rs_trx_ref := 0\<rparr>)))"

definition DataPageParser_parse :: "byte list \<Rightarrow> nat \<Rightarrow> hnsw_record_kind \<Rightarrow> bool \<Rightarrow> data_page_info tool_result" where
  "DataPageParser_parse page_data column_size index_kind has_lower =
     (if length page_data < FREE_BITMAP_OFF then Inl (Tool_Message ''Page too small to contain data page header'')
      else
        tbind (read_uint32 page_data FIL_PAGE_PREV) (\<lambda>fil_page_prev.
        tbind (read_uint32 page_data FIL_PAGE_NEXT) (\<lambda>fil_page_next.
        tbind (read_uint8 page_data VERSION_OFF) (\<lambda>version.
        tbind (read_uint8 page_data PAGE_TYPE_OFF) (\<lambda>page_type.
        tbind (read_uint16 page_data FREE_SLOT_NUMBER_OFF) (\<lambda>free_slot_number.
        tbind (read_uint32 page_data ROOT_PAGE_REF_OFF) (\<lambda>root_page_ref.
        tbind (read_uint32 page_data PREV_FREE_PAGE_OFF) (\<lambda>prev_free_page.
        tbind (read_uint32 page_data NEXT_FREE_PAGE_OFF) (\<lambda>next_free_page.
        tbind (read_uint16 page_data MAX_NUM_RECS_OFF) (\<lambda>max_num_recs.
        tbind (read_uint16 page_data NUM_FREE_RECS_OFF) (\<lambda>num_free_recs.
        if page_type \<noteq> DATA_PAGE_TYPE
        then Inl (Tool_Message (''Invalid page type: expected DATA_PAGE (2), got '' @ decimal (unat page_type)))
        else
          let bitmap_size_bits = unat max_num_recs * BITS_PER_RECORD; bitmap_size_bytes = (bitmap_size_bits + 7) div 8;
              first_rec_offset = FREE_BITMAP_OFF + bitmap_size_bytes in
          tbind (tmap (parse_record page_data column_size index_kind has_lower first_rec_offset) [0..<unat max_num_recs]) (\<lambda>records.
          Inr \<lparr>di_version = version, di_page_type = page_type, di_free_slot_number = free_slot_number, di_root_page_ref = root_page_ref,
            di_prev_free_page = prev_free_page, di_next_free_page = next_free_page, di_max_num_recs = unat max_num_recs,
            di_num_free_recs = unat num_free_recs, di_fil_page_prev = fil_page_prev, di_fil_page_next = fil_page_next, di_records = records,
            di_index_kind = index_kind, di_has_lower_level = has_lower\<rparr>))))))))))))"

definition num_allocated :: "data_page_info \<Rightarrow> nat" where
  "num_allocated info = u16 (length (filter (\<lambda>rec. \<not> rs_is_free rec) (di_records info)))"
definition num_deleted :: "data_page_info \<Rightarrow> nat" where
  "num_deleted info = u16 (length (filter (\<lambda>rec. \<not> rs_is_free rec \<and> rs_is_deleted rec) (di_records info)))"
definition num_active :: "data_page_info \<Rightarrow> nat" where
  "num_active info = u16 (length (filter (\<lambda>rec. \<not> rs_is_free rec \<and> \<not> rs_is_deleted rec) (di_records info)))"

subsection \<open>Root pages\<close>

fun read_cstring :: "byte list \<Rightarrow> nat \<Rightarrow> nat \<Rightarrow> byte list tool_result" where
  "read_cstring data off 0 = Inr []"
| "read_cstring data off (Suc n) = tbind (byte_at data off) (\<lambda>b.
     if b = 0 then Inr [] else tbind (read_cstring data (off + 1) n) (\<lambda>bs. Inr (b # bs)))"

record root_page_info =
  ri_version :: "8 word"
  ri_page_type :: "8 word"
  ri_storage_metadata :: "byte list"
  ri_storage_metadata_raw :: "byte list"
  ri_num_root_pages :: nat
  ri_other_root_page_refs :: "page_ref list"
  ri_column_size :: nat
  ri_all_slot_head :: page_ref
  ri_all_slot_tail :: page_ref
  ri_total_data_pages :: "32 word"
  ri_total_free_pages :: "32 word"
  ri_free_slot_array_max_size :: nat
  ri_free_slot_array_cur_size :: nat
  ri_free_slots :: "page_ref list"

definition read_free_slot :: "byte list \<Rightarrow> root_page \<Rightarrow> nat \<Rightarrow> page_ref tool_result" where
  "read_free_slot page_data rp i =
     (let offset = free_slot_array_off rp + i * FREE_SLOT_LEN in
      if offset + FREE_SLOT_LEN > length page_data then Inl (Tool_Message ''Free slot array extends beyond page boundary'')
      else read_uint32 page_data offset)"

definition root_too_small :: tool_error where "root_too_small = Tool_Message ''Page too small to contain root page header''"

definition RootPageParser_parse :: "byte list \<Rightarrow> root_page_info tool_result" where
  "RootPageParser_parse page_data =
     (if length page_data \<le> HEADER_SIZE then Inl root_too_small
      else
        tbind (read_uint8 page_data HEADER_SIZE) (\<lambda>num_segments.
        let rp1 = RootPage_set_layout (unat num_segments) 0 1 init_root_page_members in
        if length page_data \<le> storage_metadata_len_off rp1 then Inl root_too_small
        else
          tbind (read_uint8 page_data (storage_metadata_len_off rp1)) (\<lambda>metadata_len.
          let rp2 = RootPage_set_layout (unat num_segments) (unat metadata_len) 1 rp1 in
          if length page_data \<le> num_other_root_pages_off rp2 then Inl root_too_small
          else
            tbind (read_uint8 page_data (num_other_root_pages_off rp2)) (\<lambda>num_other.
            let rp = RootPage_set_layout (unat num_segments) (unat metadata_len) (unat num_other) rp2 in
            if length page_data < free_slot_array_off rp then Inl root_too_small
            else
              tbind (read_uint8 page_data (version_off rp)) (\<lambda>version.
              tbind (read_uint8 page_data (page_type_off rp)) (\<lambda>page_type.
              tbind (read_cstring page_data (storage_metadata_off rp) (unat metadata_len)) (\<lambda>metadata.
              tbind (bytes_at page_data (storage_metadata_off rp) (unat metadata_len)) (\<lambda>metadata_raw.
              tbind (tmap (\<lambda>i. read_uint32 page_data (other_root_pages_off rp + i * ROOT_PAGE_REF_LEN)) [0..<unat num_other]) (\<lambda>others.
              tbind (read_uint16 page_data (column_size_off rp)) (\<lambda>column_size.
              tbind (read_uint32 page_data (all_slot_head_off rp)) (\<lambda>all_slot_head.
              tbind (read_uint32 page_data (all_slot_tail_off rp)) (\<lambda>all_slot_tail.
              tbind (read_uint32 page_data (total_data_pages_off rp)) (\<lambda>total_data_pages.
              tbind (read_uint32 page_data (total_free_pages_off rp)) (\<lambda>total_free_pages.
              tbind (read_uint16 page_data (free_slot_array_max_size_off rp)) (\<lambda>max_size.
              tbind (read_uint16 page_data (free_slot_array_cur_size_off rp)) (\<lambda>cur_size.
              if page_type \<noteq> ROOT_PAGE_TYPE
              then Inl (Tool_Message (''Invalid page type: expected ROOT_PAGE (1), got '' @ decimal (unat page_type)))
              else
                tbind (tmap (read_free_slot page_data rp) [0..<unat cur_size]) (\<lambda>free_slots.
                Inr \<lparr>ri_version = version, ri_page_type = page_type, ri_storage_metadata = metadata, ri_storage_metadata_raw = metadata_raw,
                  ri_num_root_pages = u8 (unat num_other + 1), ri_other_root_page_refs = others, ri_column_size = unat column_size,
                  ri_all_slot_head = all_slot_head, ri_all_slot_tail = all_slot_tail, ri_total_data_pages = total_data_pages,
                  ri_total_free_pages = total_free_pages, ri_free_slot_array_max_size = unat max_size,
                  ri_free_slot_array_cur_size = unat cur_size, ri_free_slots = free_slots\<rparr>)))))))))))))))))"

subsection \<open>All pages of a store\<close>

text \<open>
  \<^verbatim>\<open>show_data_page\<close> parses a page by the kind of the store; the loop over all pages of \<^verbatim>\<open>svector_page_dump.cc\<close> then reads the page again, parses it as vectors, and goes on with
  its link, for at most 100 pages. The result are the pages that were shown and how the loop ended; \<open>left\<close> is 100 less the count of the source.
\<close>

datatype dump_end = End_Of_List | Safety_Limit | Page_Error string

definition MAX_DUMP_PAGES :: nat where "MAX_DUMP_PAGES = 100"

definition show_data_page :: "page_reader \<Rightarrow> nat \<Rightarrow> hnsw_record_kind \<Rightarrow> bool \<Rightarrow> page_ref \<Rightarrow> (string + data_page_info) tool_result" where
  "show_data_page reader column_size record_kind has_lower page_num =
     (case PageReader_read_page reader page_num of
        Inl error \<Rightarrow> Inr (Inl (''Error reading data page: '' @ error))
      | Inr page_data \<Rightarrow>
          (case DataPageParser_parse page_data column_size record_kind has_lower of
             Inl Out_Of_Bounds \<Rightarrow> Inl Out_Of_Bounds
           | Inl (Tool_Message error) \<Rightarrow> Inr (Inl (''Error parsing data page: '' @ error))
           | Inr page_info \<Rightarrow> Inr (Inr page_info)))"

primrec dump_pages :: "page_reader \<Rightarrow> nat \<Rightarrow> hnsw_record_kind \<Rightarrow> bool \<Rightarrow> nat \<Rightarrow> page_ref \<Rightarrow> ((page_ref \<times> data_page_info) list \<times> dump_end) tool_result" where
  "dump_pages reader column_size record_kind has_lower 0 page_num = Inr ([], Safety_Limit)"
| "dump_pages reader column_size record_kind has_lower (Suc left) page_num =
     (if page_num = NULL_FREE_PAGE_REF then Inr ([], End_Of_List)
      else
        tbind (show_data_page reader column_size record_kind has_lower page_num) (\<lambda>shown. case shown of
            Inl error \<Rightarrow> Inr ([], Page_Error error)
          | Inr page_info \<Rightarrow>
              (case PageReader_read_page reader page_num of
                 Inl error \<Rightarrow> Inr ([(page_num, page_info)], Page_Error error)
               | Inr page_data \<Rightarrow>
                   (case DataPageParser_parse page_data column_size Record_None False of
                      Inl Out_Of_Bounds \<Rightarrow> Inl Out_Of_Bounds
                    | Inl (Tool_Message error) \<Rightarrow> Inr ([(page_num, page_info)], Page_Error error)
                    | Inr info \<Rightarrow>
                        tbind (dump_pages reader column_size record_kind has_lower left (di_fil_page_next info)) (\<lambda>(infos, how).
                        Inr ((page_num, page_info) # infos, how))))))"

end
