(* ===== verification/Page_Dump.thy ===== *)
theory Page_Dump
  imports Page_Tools Index_Store
begin

text \<open>
  What the dump tool reports of a page is what the stores keep there. The tool reads the bytes of a page without the layout objects of the store;
  the lemmas follow its reads on the image of a page and compare records with slots and entries.
\<close>

unbundle bit_operations_syntax

subsection \<open>Reading the image of a page\<close>

lemma tbind_simps [simp]: "tbind (Inr x) f = f x" "tbind (Inl e) f = Inl e"
  by (simp_all add: tbind_def)

lemma tmap_all: "(\<And>x. x \<in> set xs \<Longrightarrow> f x = Inr (g x)) \<Longrightarrow> tmap f xs = Inr (map g xs)"
  by (induction xs) simp_all

lemma byte_at_image: "off < n \<Longrightarrow> byte_at (slice f 0 n) off = Inr (f off)"
  by (simp add: byte_at_def)

lemma bytes_at_image: "off + k \<le> n \<Longrightarrow> bytes_at (slice f 0 n) off k = Inr (slice f off k)"
proof -
  assume "off + k \<le> n"
  then have "tmap (\<lambda>i. byte_at (slice f 0 n) (off + i)) [0..<k] = Inr (map (\<lambda>i. f (off + i)) [0..<k])"
    by (intro tmap_all) (simp add: byte_at_image)
  then show ?thesis by (simp add: bytes_at_def slice_def)
qed

text \<open>Bytes put together with shifts are big-endian numbers, at every width.\<close>

lemma or_byte_any: "8 \<le> LENGTH('a::len) \<Longrightarrow> push_bit 8 (w :: 'a word) OR ucast (b :: byte) = w * 256 + ucast b"
proof -
  assume "8 \<le> LENGTH('a)"
  have "push_bit 8 w OR ucast b = push_bit 8 w + (ucast b :: 'a word)"
    by (rule disjunctive_add [symmetric]) (auto simp: bit_simps dest: bit_imp_le_length)
  then show ?thesis by (simp add: push_bit_eq_mult)
qed

lemma foldl_be_any: "8 \<le> LENGTH('a::len) \<Longrightarrow> foldl (\<lambda>v (b :: byte). push_bit 8 v OR ucast b) 0 bs = (word_of_nat (be_value bs) :: 'a word)"
  by (induction bs rule: rev_induct) (simp_all add: or_byte_any)

lemma slices:
  "slice f off 2 = [f off, f (off + 1)]" "slice f off 4 = [f off, f (off + 1), f (off + 2), f (off + 3)]"
  "slice f off 8 = [f off, f (off + 1), f (off + 2), f (off + 3), f (off + 4), f (off + 5), f (off + 6), f (off + 7)]"
  by (simp_all add: slice_def upt_rec eval_nat_numeral)

lemma be_shifts:
  "push_bit 8 (ucast a) OR ucast b = (word_of_nat (be_value [a, b]) :: 16 word)"
  "push_bit 24 (ucast a) OR push_bit 16 (ucast b) OR push_bit 8 (ucast c) OR ucast d = (word_of_nat (be_value [a, b, c, d]) :: 32 word)"
  "push_bit 56 (ucast a) OR push_bit 48 (ucast b) OR push_bit 40 (ucast c) OR push_bit 32 (ucast d) OR push_bit 24 (ucast e) OR push_bit 16 (ucast g)
     OR push_bit 8 (ucast h) OR ucast k = (word_of_nat (be_value [a, b, c, d, e, g, h, k]) :: 64 word)"
  for a b c d e g h k :: byte
  using foldl_be_any [where 'a = 16, of "[a, b]"] foldl_be_any [where 'a = 32, of "[a, b, c, d]"]
    foldl_be_any [where 'a = 64, of "[a, b, c, d, e, g, h, k]"]
  by (simp_all add: push_bit_or push_bit_push_bit or.assoc)

lemma read_images:
  "off < n \<Longrightarrow> read_uint8 (slice f 0 n) off = Inr (f off)"
  "off + 2 \<le> n \<Longrightarrow> read_uint16 (slice f 0 n) off = Inr (word_of_nat (be_read f off 2))"
  "off + 4 \<le> n \<Longrightarrow> read_uint32 (slice f 0 n) off = Inr (word_of_nat (be_read f off 4))"
  "off + 8 \<le> n \<Longrightarrow> read_uint64 (slice f 0 n) off = Inr (word_of_nat (be_read f off 8))"
  "off + 4 \<le> n \<Longrightarrow> read_float (slice f 0 n) off = Inr (float4get (slice f off 4) 0)"
  "off + 6 \<le> n \<Longrightarrow> read_id48 (slice f 0 n) off = Inr (read_id48_be (slice f off 6))"
  by (simp_all add: read_uint8_def byte_at_image read_uint16_def read_uint32_def read_uint64_def read_float_def bytes_at_image slices be_shifts be_read_def
      float4get_def) (simp add: read_id48_def HNSW_ID_SIZE_def bytes_at_image read_id48_be_def)

text \<open>A chunk of a record is read at its place in the page.\<close>

lemma read_chunk_image: "k * 6 + 6 \<le> m \<Longrightarrow> read_chunk (slice f off m) k = read_id48_be (slice f (off + k * 6) 6)"
proof -
  assume "k * 6 + 6 \<le> m"
  then have "take 6 (slice f (off + k * 6) (m - k * 6)) = slice f (off + k * 6) 6" by (intro nth_equalityI) simp_all
  then show ?thesis by (simp add: read_chunk_def slice_slice_drop layout_defs read_id48_be_def)
qed

lemma and_bit_iff: "(w :: 32 word) AND push_bit k 1 = 0 \<longleftrightarrow> \<not> bit w k"
proof
  assume "w AND push_bit k 1 = 0"
  then have "\<not> bit (w AND push_bit k 1) k" by simp
  then show "\<not> bit w k" by (auto simp: bit_simps dest: bit_imp_le_length)
next
  assume "\<not> bit w k"
  show "w AND push_bit k 1 = 0"
  proof (rule bit_eqI)
    fix n show "bit (w AND push_bit k 1) n = bit 0 n" using \<open>\<not> bit w k\<close> by (cases "n = k") (auto simp: bit_simps)
  qed
qed

subsection \<open>Records and slots\<close>

definition page_image :: "'p page_api \<Rightarrow> 'p \<Rightarrow> byte list" where
  "page_image P pg = slice (get_data P pg) 0 (get_size P)"

text \<open>A record of the report against a slot of the page; \<open>ls\<close> says how the entries of an index are laid out.\<close>

definition reported :: "hnsw_record_kind \<Rightarrow> level_store \<Rightarrow> slot_state \<Rightarrow> record_status \<Rightarrow> bool" where
  "reported kind ls slot rec \<longleftrightarrow>
     (case slot of Free \<Rightarrow> rs_is_free rec
      | Occupied del trx bs \<Rightarrow> \<not> rs_is_free rec \<and> rs_is_deleted rec = del \<and> rs_trx_ref rec = trx \<and>
         (case kind of Record_None \<Rightarrow> rs_vector_data rec = decode_floats bs (length bs div FLOAT_SIZE)
          | Record_Neighbour \<Rightarrow> (case decode_neighbour_entry ls True empty_neighbour_entry FieldAll Filter_All None bs of (e, _) \<Rightarrow>
              rs_owner_vid rec = ne_owner e \<and> rs_lower_level_nid rec = ne_lower_level e
              \<and> rs_neighbours rec = map (\<lambda>n. (nd_nid n, nd_vid n)) (ne_neighbours e) \<and> rs_overflow_nid rec = ne_overflow e)
          | Record_Overflow \<Rightarrow> (case decode_overflow_entry ls True empty_overflow_entry OverflowFieldAll None bs of (e, _) \<Rightarrow>
              rs_incoming rec = oe_incoming e \<and> rs_overflow_nid rec = oe_overflow e)))"

definition column_fits :: "hnsw_record_kind \<Rightarrow> level_store \<Rightarrow> nat \<Rightarrow> bool" where
  "column_fits kind ls c \<longleftrightarrow>
     (case kind of Record_None \<Rightarrow> True
      | Record_Neighbour \<Rightarrow> level_sizes ls \<and> c = m_column_size (m_root (ls_store ls))
      | Record_Overflow \<Rightarrow> level_sizes ls \<and> c = m_column_size (m_root (ls_overflow ls)))"

lemma record_bits:
  assumes "page_api P" "bitmap_byte_offset i < get_size P"
  shows "get_record_bits (page_image P pg) FREE_BITMAP_OFF i = Inr (prod.swap (DataPage_get_record_status P pg i))"
proof -
  have b: "byte_at (page_image P pg) (FREE_BITMAP_OFF + i div 4) = Inr (get_data P pg (FREE_BITMAP_OFF + i div 4))"
    using assms(2) by (simp add: page_image_def byte_at_image bitmap_byte_offset_div)
  have i: "i * 2 div 8 = i div 4" "i * 2 mod 8 = 2 * (i mod 4)" using mult_mod_right [of 2 i 4] by (simp_all add: mult.commute)
  have "i mod 4 < 4" by simp
  then have "2 * (i mod 4) < 32" "Suc (2 * (i mod 4)) < 32" by linarith+
  then have u: "bit (ucast b :: 32 word) (2 * (i mod 4)) = bit b (2 * (i mod 4))" "bit (ucast b :: 32 word) (Suc (2 * (i mod 4))) = bit b (Suc (2 * (i mod 4)))"
    for b :: byte by (simp_all add: bit_ucast_iff)
  show ?thesis
    by (simp only: get_record_bits_def BITS_PER_RECORD_def Let_def i b tbind_simps FREE_BIT_def DELETE_MARK_BIT_def and_bit_iff
        page_api.get_record_status_bits [OF assms(1)] bitmap_byte_offset_div bitmap_bit_offset_mod prod.swap_def add_0_right u fst_conv snd_conv Suc_eq_plus1 [symmetric]
        not_not)
qed

lemma id_at:
  assumes "off + c \<le> n" "k * 6 + 6 \<le> c" "o' = off + k * 6"
  shows "read_id48 (slice f 0 n) o' = Inr (read_chunk (slice f off c) k)"
  using assms by (simp add: read_images read_chunk_image)

lemma decode_neighbour_record:
  fixes f :: buffer
  assumes ls: "level_sizes ls" "c = m_column_size (m_root (ls_store ls))" and n: "off + c \<le> n"
  defines "chunk \<equiv> read_chunk (slice f off c)" and "hl \<equiv> has_lower_level (ls_level ls)" and "m \<equiv> LevelStore_max_neighbours ls"
  shows "decode_record (slice f 0 n) c Record_Neighbour hl off rec =
    Inr (rec\<lparr>rs_owner_vid := chunk 0, rs_lower_level_nid := if hl then chunk 1 else 0,
      rs_neighbours := map (\<lambda>s. (chunk (base_of ls + 2 * s), chunk (Suc (base_of ls + 2 * s)))) [0..<m], rs_overflow_nid := chunk (base_of ls + 2 * m)\<rparr>)"
proof -
  let ?b = "base_of ls"
  have c: "c = (?b + 2 * m + 1) * 6" using chunk_indices(4) [OF ls(1)] ls(2) by (simp add: m_def layout_defs)
  have b: "?b = (if hl then 2 else 1)" by (simp add: base_of_def hl_def)
  have mn: "hnsw_max_neighbours c hl = m" by (simp add: hnsw_max_neighbours_def HNSW_ID_SIZE_def Let_def c b)
  have rd: "read_id48 (slice f 0 n) o' = Inr (chunk k)" if "k \<le> ?b + 2 * m" "o' = off + k * 6" for k o'
    unfolding chunk_def using n c that by (intro id_at) simp_all
  let ?off = "if hl then off + 6 + 6 else off + 6"
  have "tmap (\<lambda>s. tbind (read_id48 (slice f 0 n) (?off + s * (2 * 6))) (\<lambda>nid. tbind (read_id48 (slice f 0 n) (?off + s * (2 * 6) + 6)) (\<lambda>vid. Inr (nid, vid)))) [0..<m]
      = Inr (map (\<lambda>s. (chunk (?b + 2 * s), chunk (Suc (?b + 2 * s)))) [0..<m])"
  proof (rule tmap_all)
    fix s assume "s \<in> set [0..<m]"
    then have "read_id48 (slice f 0 n) (?off + s * (2 * 6)) = Inr (chunk (?b + 2 * s))" "read_id48 (slice f 0 n) (?off + s * (2 * 6) + 6) = Inr (chunk (Suc (?b + 2 * s)))"
      by (intro rd; simp add: b)+
    then show "tbind (read_id48 (slice f 0 n) (?off + s * (2 * 6))) (\<lambda>nid. tbind (read_id48 (slice f 0 n) (?off + s * (2 * 6) + 6)) (\<lambda>vid. Inr (nid, vid)))
        = Inr (chunk (?b + 2 * s), chunk (Suc (?b + 2 * s)))" by (simp only: tbind_simps)
  qed
  moreover have "read_id48 (slice f 0 n) off = Inr (chunk 0)" "read_id48 (slice f 0 n) (?off + m * (2 * 6)) = Inr (chunk (?b + 2 * m))"
    by (intro rd; simp add: b)+
  moreover have "(if hl then read_id48 (slice f 0 n) (off + 6) else Inr 0) = Inr (if hl then chunk 1 else 0)"
    using rd [of 1 "off + 6"] b by simp
  ultimately show ?thesis unfolding decode_record_def HNSW_ID_SIZE_def mn Let_def hnsw_record_kind.case by (simp only: tbind_simps)
qed

lemma decode_overflow_record:
  fixes f :: buffer
  assumes ls: "level_sizes ls" "c = m_column_size (m_root (ls_overflow ls))" and n: "off + c \<le> n"
  defines "chunk \<equiv> read_chunk (slice f off c)" and "m \<equiv> LevelStore_overflow_capacity ls"
  shows "decode_record (slice f 0 n) c Record_Overflow hl off rec = Inr (rec\<lparr>rs_incoming := map chunk [0..<m], rs_overflow_nid := chunk m\<rparr>)"
proof -
  have c: "c = (m + 1) * 6" using overflow_size [OF ls(1)] ls(2) by (simp add: m_def layout_defs)
  have mn: "hnsw_overflow_capacity c = m" by (simp add: hnsw_overflow_capacity_def HNSW_ID_SIZE_def c)
  have rd: "read_id48 (slice f 0 n) (off + k * 6) = Inr (chunk k)" if "k \<le> m" for k
    unfolding chunk_def using n c that by (intro id_at) simp_all
  then have "tmap (\<lambda>s. read_id48 (slice f 0 n) (off + s * 6)) [0..<m] = Inr (map chunk [0..<m])" by (intro tmap_all) simp
  then show ?thesis using rd [of m] by (simp add: decode_record_def mn HNSW_ID_SIZE_def Let_def)
qed

lemma decode_vector_record:
  assumes "off + c \<le> n"
  shows "decode_record (slice f 0 n) c Record_None hl off rec = Inr (rec\<lparr>rs_vector_data := decode_floats (slice f off c) (c div FLOAT_SIZE)\<rparr>)"
proof -
  have fit: "j * 4 + 4 \<le> c" if "j < c div 4" for j
  proof -
    have "Suc j * 4 \<le> c div 4 * 4" using that by (intro mult_le_mono1) simp
    then show ?thesis using div_times_less_eq_dividend [of c 4] by simp
  qed
  have all: "filter (\<lambda>j. off + j * 4 + 4 \<le> n) [0..<c div 4] = [0..<c div 4]"
  proof (rule filter_True, rule ballI)
    fix j assume "j \<in> set [0..<c div 4]"
    then have "j * 4 + 4 \<le> c" by (intro fit) simp
    then show "off + j * 4 + 4 \<le> n" using assms by linarith
  qed
  have "tmap (\<lambda>j. read_float (slice f 0 n) (off + j * 4)) [0..<c div 4] = Inr (map (\<lambda>j. float4get (slice f off c) (j * 4)) [0..<c div 4])"
  proof (rule tmap_all)
    fix j assume "j \<in> set [0..<c div 4]"
    then have "j * 4 + 4 \<le> c" by (intro fit) simp
    then show "read_float (slice f 0 n) (off + j * 4) = Inr (float4get (slice f off c) (j * 4))"
      using assms by (simp add: read_images float4get_def slices add.assoc)
  qed
  then show ?thesis by (simp add: decode_record_def FLOAT_SIZE_def Let_def all decode_floats_def)
qed

text \<open>The entries the stores decode, chunk by chunk.\<close>

lemma all_fields: "has_field FieldAll Field_Owner" "has_field FieldAll Field_LowerLevel" "has_field FieldAll Field_Neighbours" "has_field FieldAll Field_Overflow"
  "has_field OverflowFieldAll OverflowField_Incoming" "has_field OverflowFieldAll OverflowField_Overflow"
  by (simp_all add: field_defs)

lemma decoded_entry:
  assumes "level_sizes ls" "decode_neighbour_entry ls True empty_neighbour_entry FieldAll Filter_All None bs = (e, k)"
  shows "ne_owner e = read_chunk bs 0" "ne_lower_level e = (if has_lower_level (ls_level ls) then read_chunk bs 1 else 0)"
    "map (\<lambda>n. (nd_nid n, nd_vid n)) (ne_neighbours e) = map (\<lambda>s. (read_chunk bs (base_of ls + 2 * s), read_chunk bs (Suc (base_of ls + 2 * s)))) [0..<LevelStore_max_neighbours ls]"
    "ne_overflow e = read_chunk bs (base_of ls + 2 * LevelStore_max_neighbours ls)"
proof -
  note idx = chunk_indices(1-3) [OF assms(1)]
  have e: "e = empty_neighbour_entry\<lparr>ne_owner := read_chunk bs owner_chunk, ne_lower_level := if has_lower_level (ls_level ls) then read_chunk bs lower_level_chunk else 0,
      ne_neighbours := decode_neighbours ls bs None, ne_overflow := read_chunk bs (base_of ls + 2 * LevelStore_max_neighbours ls)\<rparr>"
    using assms(2) by (auto simp: decode_neighbour_entry_def Let_def all_fields idx empty_neighbour_entry_def INVALID_ID_def)
  then show "ne_owner e = read_chunk bs 0" "ne_lower_level e = (if has_lower_level (ls_level ls) then read_chunk bs 1 else 0)"
    "ne_overflow e = read_chunk bs (base_of ls + 2 * LevelStore_max_neighbours ls)"
    by (simp_all add: owner_chunk_def lower_level_chunk_def)
  have "map (\<lambda>n. (nd_nid n, nd_vid n)) (decode_neighbours ls bs None)
      = map (\<lambda>s. (read_chunk bs (base_of ls + 2 * s), read_chunk bs (Suc (base_of ls + 2 * s)))) [0..<LevelStore_max_neighbours ls]"
    by (simp add: decode_neighbours_def Let_def idx)
  with e show "map (\<lambda>n. (nd_nid n, nd_vid n)) (ne_neighbours e)
      = map (\<lambda>s. (read_chunk bs (base_of ls + 2 * s), read_chunk bs (Suc (base_of ls + 2 * s)))) [0..<LevelStore_max_neighbours ls]" by simp
qed

lemma decoded_overflow:
  assumes "decode_overflow_entry ls True empty_overflow_entry OverflowFieldAll None bs = (e, k)"
  shows "oe_incoming e = map (read_chunk bs) [0..<LevelStore_overflow_capacity ls]" "oe_overflow e = read_chunk bs (LevelStore_overflow_capacity ls)"
  using assms by (auto simp: decode_overflow_entry_def Let_def all_fields overflow_chunk_capacity empty_overflow_entry_def incoming_chunk_def)

lemma reported_record:
  assumes fits: "column_fits kind ls c" and n: "off + c \<le> n"
    and d: "decode_record (slice f 0 n) c kind (has_lower_level (ls_level ls)) off (new_record_status False del\<lparr>rs_trx_ref := trx\<rparr>) = r"
  shows "\<exists>r'. r = Inr r' \<and> reported kind ls (Occupied del trx (slice f off c)) r' \<and> \<not> rs_is_free r'"
proof (cases kind)
  case Record_None
  then show ?thesis using d decode_vector_record [OF n] by (auto simp: reported_def new_record_status_def)
next
  case Record_Neighbour
  then have ls: "level_sizes ls" "c = m_column_size (m_root (ls_store ls))" using fits by (simp_all add: column_fits_def)
  obtain e k where e: "decode_neighbour_entry ls True empty_neighbour_entry FieldAll Filter_All None (slice f off c) = (e, k)" by fastforce
  show ?thesis
    using d Record_Neighbour decode_neighbour_record [OF ls n, of f] e decoded_entry [OF ls(1) e] by (auto simp: reported_def new_record_status_def)
next
  case Record_Overflow
  then have ls: "level_sizes ls" "c = m_column_size (m_root (ls_overflow ls))" using fits by (simp_all add: column_fits_def)
  obtain e k where e: "decode_overflow_entry ls True empty_overflow_entry OverflowFieldAll None (slice f off c) = (e, k)" by fastforce
  show ?thesis
    using d Record_Overflow decode_overflow_record [OF ls n, of f] e decoded_overflow [OF e] by (auto simp: reported_def new_record_status_def)
qed

lemma parse_record_reported:
  assumes dl: "data_layout P (get_size P) dp" and c: "m_rec_size dp = 8 + c" "column_fits kind ls c" and i: "i < m_max_num_recs dp"
  shows "\<exists>r. parse_record (page_image P pg) c kind (has_lower_level (ls_level ls)) (m_first_rec_offset dp) i = Inr r \<and> reported kind ls (slot_at P dp pg i) r
     \<and> (rs_is_free r \<longleftrightarrow> slot_at P dp pg i = Free)"
proof -
  let ?f = "get_data P pg" and ?n = "get_size P" and ?o = "m_first_rec_offset dp + i * m_rec_size dp"
  note P = data_layout.axioms(1) [OF dl]
  have ok: "?n \<le> 65536" using data_layout.layout [OF dl] by (simp add: layout_ok_def)
  have o: "DataPage_get_record_offset dp i = ?o" "?o + m_rec_size dp \<le> ?n"
    using data_layout.rec_offset [OF dl i] by (simp_all add: layout_defs)
  have "bitmap_byte_offset i < ?n" using data_layout.bitmap_before_records [OF dl i] o(2) by linarith
  note bits = record_bits [OF P this, of pg]
  obtain del free where st: "DataPage_get_record_status P pg i = (del, free)" by (cases "DataPage_get_record_status P pg i")
  have w: "u32 ?o = ?o" "u32 (?o + (8 + c)) = ?o + (8 + c)" "?o + 8 + c \<le> ?n" using o(2) ok c(1) by simp_all
  have t: "read_uint64 (slice ?f 0 ?n) ?o = Inr (read_integer_8 P pg ?o)" using w(3) page_api.read_8 [OF P] by (simp add: read_images)
  have slot: "slot_at P dp pg i = (if free then Free else Occupied del (read_integer_8 P pg ?o) (slice ?f (?o + 8) c))"
    by (simp add: slot_at_def st o(1) c(1) TRX_REF_SIZE_def Let_def)
  show ?thesis
  proof (cases free)
    case True
    then show ?thesis by (simp add: parse_record_def bits st slot new_record_status_def reported_def Let_def)
  next
    case False
    obtain r where r: "decode_record (slice ?f 0 ?n) c kind (has_lower_level (ls_level ls)) (?o + 8) (new_record_status False del\<lparr>rs_trx_ref := read_integer_8 P pg ?o\<rparr>) = Inr r"
      "reported kind ls (Occupied del (read_integer_8 P pg ?o) (slice ?f (?o + 8) c)) r" "\<not> rs_is_free r"
      using reported_record [where f = ?f and del = del and trx = "read_integer_8 P pg ?o", OF c(2) w(3) refl] by blast
    have "parse_record (page_image P pg) c kind (has_lower_level (ls_level ls)) (m_first_rec_offset dp) i = Inr r"
      unfolding parse_record_def Let_def bits st tbind_simps prod.swap_def fst_conv snd_conv prod.case TRX_REF_SIZE_def c(1) [symmetric]
      using False w t r(1) by (simp add: page_image_def c(1))
    with r False slot show ?thesis by auto
  qed
qed

lemma tmap_zip: "list_all2 (\<lambda>x y. f x = Inr y) xs ys \<Longrightarrow> tmap f xs = Inr ys"
  by (induction xs ys rule: list_all2_induct) simp_all

text \<open>All records of a page, in the order of the slots.\<close>

lemma parse_records_reported:
  assumes dl: "data_layout P (get_size P) dp" and c: "m_rec_size dp = 8 + c" "column_fits kind ls c"
  shows "\<exists>rs. tmap (parse_record (page_image P pg) c kind (has_lower_level (ls_level ls)) (m_first_rec_offset dp)) [0..<m_max_num_recs dp] = Inr rs
     \<and> list_all2 (reported kind ls) (map (slot_at P dp pg) [0..<m_max_num_recs dp]) rs
     \<and> length (filter (\<lambda>r. \<not> rs_is_free r) rs) = m_max_num_recs dp - count_below (m_max_num_recs dp) (\<lambda>i. slot_at P dp pg i = Free)"
proof -
  let ?p = "parse_record (page_image P pg) c kind (has_lower_level (ls_level ls)) (m_first_rec_offset dp)" and ?n = "m_max_num_recs dp" and ?s = "slot_at P dp pg"
  define R where "R = (\<lambda>i. projr (?p i))"
  have R: "?p i = Inr (R i) \<and> reported kind ls (?s i) (R i) \<and> (rs_is_free (R i) \<longleftrightarrow> ?s i = Free)" if "i < ?n" for i
    using parse_record_reported [OF dl c that, of pg] by (auto simp: R_def)
  let ?rs = "map R [0..<?n]"
  have "filter (\<lambda>r. \<not> rs_is_free r) ?rs = map R (filter (\<lambda>i. ?s i \<noteq> Free) [0..<?n])"
    unfolding filter_map comp_def using R by (intro arg_cong [where f = "map R"] filter_cong) auto
  then have "length (filter (\<lambda>r. \<not> rs_is_free r) ?rs) = ?n - count_below ?n (\<lambda>i. ?s i = Free)"
    using sum_length_filter_compl [of "\<lambda>i. ?s i = Free" "[0..<?n]"] by (simp add: count_below_def)
  moreover have "tmap ?p [0..<?n] = Inr ?rs" using R by (intro tmap_all) simp
  moreover have "list_all2 (reported kind ls) (map ?s [0..<?n]) ?rs" using R by (simp add: list_all2_conv_all_nth)
  ultimately show ?thesis by blast
qed

lemma deleted_or_active: "num_allocated info < 2 ^ 16 \<Longrightarrow> length (di_records info) < 2 ^ 16 \<Longrightarrow> num_deleted info + num_active info = num_allocated info"
proof -
  assume l: "length (di_records info) < 2 ^ 16"
  have "length (filter (\<lambda>r. \<not> rs_is_free r \<and> rs_is_deleted r) rs) + length (filter (\<lambda>r. \<not> rs_is_free r \<and> \<not> rs_is_deleted r) rs)
      = length (filter (\<lambda>r. \<not> rs_is_free r) rs)" for rs
    by (induction rs) simp_all
  moreover have "length (filter Q (di_records info)) < 65536" for Q
    using le_less_trans [OF length_filter_le [of Q "di_records info"] l] by simp
  ultimately show ?thesis by (simp add: num_deleted_def num_active_def num_allocated_def)
qed

lemma page_dump_ok:
  assumes dl: "data_layout P (get_size P) dp" and bm: "m_free_bitmap_size dp = bitmap_bytes (m_max_num_recs dp)"
    and c: "m_rec_size dp = 8 + c" "column_fits kind ls c"
    and pg: "data_page_inv P dp pg" "read_integer_1 P pg PAGE_TYPE_OFF = DATA_PAGE_TYPE"
  shows "\<exists>info. DataPageParser_parse (page_image P pg) c kind (has_lower_level (ls_level ls)) = Inr info
    \<and> list_all2 (reported kind ls) (map (slot_at P dp pg) [0..<m_max_num_recs dp]) (di_records info)
    \<and> num_allocated info + di_num_free_recs info = m_max_num_recs dp \<and> num_deleted info + num_active info = num_allocated info
    \<and> di_fil_page_prev info = read_prev_link P pg \<and> di_fil_page_next info = read_next_link P pg
    \<and> (di_prev_free_page info, di_next_free_page info) = DataPage_get_free_links P pg
    \<and> di_root_page_ref info = DataPage_get_root_page_ref P pg \<and> di_free_slot_number info = DataPage_get_free_slot_number P pg"
proof -
  note P = data_layout.axioms(1) [OF dl]
  have lay: "m_first_rec_offset dp = FREE_BITMAP_OFF + bitmap_bytes (m_max_num_recs dp)" "m_max_num_recs dp \<le> 16384" "FREE_BITMAP_OFF \<le> get_size P"
    using data_layout.layout [OF dl] bm by (auto simp: layout_ok_def MAX_SLOT_INDEX_def SLOT_INDEX_BITS_def)
  obtain rs where rs: "tmap (parse_record (page_image P pg) c kind (has_lower_level (ls_level ls)) (m_first_rec_offset dp)) [0..<m_max_num_recs dp] = Inr rs"
    "list_all2 (reported kind ls) (map (slot_at P dp pg) [0..<m_max_num_recs dp]) rs"
    "length (filter (\<lambda>r. \<not> rs_is_free r) rs) = m_max_num_recs dp - count_below (m_max_num_recs dp) (\<lambda>i. slot_at P dp pg i = Free)"
    using parse_records_reported [OF dl c] by blast
  note reads = page_api.data_reads [OF P, symmetric]
  have hd: "read_uint8 (page_image P pg) off = Inr (read_integer_1 P pg off)" if "off < FREE_BITMAP_OFF" for off
    using that lay(3) page_api.read_1_byte [OF P] by (simp add: page_image_def read_images)
  have hd2: "read_uint16 (page_image P pg) off = Inr (read_integer_2 P pg off)" if "off + 2 \<le> FREE_BITMAP_OFF" for off
    using that lay(3) by (simp add: page_image_def read_images reads)
  have hd4: "read_uint32 (page_image P pg) off = Inr (read_integer_4 P pg off)" if "off + 4 \<le> FREE_BITMAP_OFF" for off
    using that lay(3) by (simp add: page_image_def read_images reads)
  have lk: "read_uint32 (page_image P pg) FIL_PAGE_PREV = Inr (read_prev_link P pg)" "read_uint32 (page_image P pg) FIL_PAGE_NEXT = Inr (read_next_link P pg)"
    using lay(3) by (simp_all add: page_image_def read_images page_api.prev_link [OF P] page_api.next_link [OF P] layout_defs)
  have h: "read_uint8 (page_image P pg) VERSION_OFF = Inr (read_integer_1 P pg VERSION_OFF)"
    "read_uint8 (page_image P pg) PAGE_TYPE_OFF = Inr (read_integer_1 P pg PAGE_TYPE_OFF)"
    "read_uint16 (page_image P pg) FREE_SLOT_NUMBER_OFF = Inr (read_integer_2 P pg FREE_SLOT_NUMBER_OFF)"
    "read_uint32 (page_image P pg) ROOT_PAGE_REF_OFF = Inr (read_integer_4 P pg ROOT_PAGE_REF_OFF)"
    "read_uint32 (page_image P pg) PREV_FREE_PAGE_OFF = Inr (read_integer_4 P pg PREV_FREE_PAGE_OFF)"
    "read_uint32 (page_image P pg) NEXT_FREE_PAGE_OFF = Inr (read_integer_4 P pg NEXT_FREE_PAGE_OFF)"
    "read_uint16 (page_image P pg) MAX_NUM_RECS_OFF = Inr (read_integer_2 P pg MAX_NUM_RECS_OFF)"
    "read_uint16 (page_image P pg) NUM_FREE_RECS_OFF = Inr (read_integer_2 P pg NUM_FREE_RECS_OFF)"
    by (rule hd hd2 hd4; simp add: layout_defs)+
  have len: "length (page_image P pg) = get_size P" by (simp add: page_image_def)
  have first: "FREE_BITMAP_OFF + (m_max_num_recs dp * BITS_PER_RECORD + 7) div 8 = m_first_rec_offset dp"
    by (simp add: lay(1) bitmap_bytes_def BITS_PER_RECORD_def)
  have max: "unat (read_integer_2 P pg MAX_NUM_RECS_OFF) = m_max_num_recs dp"
    and free: "unat (read_integer_2 P pg NUM_FREE_RECS_OFF) = count_below (m_max_num_recs dp) (\<lambda>i. slot_at P dp pg i = Free)"
    using pg(1) by (simp_all add: data_page_inv_def)
  have "\<exists>info. DataPageParser_parse (page_image P pg) c kind (has_lower_level (ls_level ls)) = Inr info \<and> di_records info = rs
      \<and> di_num_free_recs info = unat (read_integer_2 P pg NUM_FREE_RECS_OFF) \<and> di_fil_page_prev info = read_prev_link P pg \<and> di_fil_page_next info = read_next_link P pg
      \<and> (di_prev_free_page info, di_next_free_page info) = DataPage_get_free_links P pg
      \<and> di_root_page_ref info = DataPage_get_root_page_ref P pg \<and> di_free_slot_number info = DataPage_get_free_slot_number P pg"
    using rs(1) lay(3) by (simp add: DataPageParser_parse_def lk h pg(2) max Let_def first len
      DataPage_get_free_links_def DataPage_get_root_page_ref_def DataPage_get_free_slot_number_def)
  then obtain info where i: "DataPageParser_parse (page_image P pg) c kind (has_lower_level (ls_level ls)) = Inr info" "di_records info = rs"
      "di_num_free_recs info = unat (read_integer_2 P pg NUM_FREE_RECS_OFF)" "di_fil_page_prev info = read_prev_link P pg" "di_fil_page_next info = read_next_link P pg"
      "(di_prev_free_page info, di_next_free_page info) = DataPage_get_free_links P pg"
      "di_root_page_ref info = DataPage_get_root_page_ref P pg" "di_free_slot_number info = DataPage_get_free_slot_number P pg"
    by blast
  have n: "length rs = m_max_num_recs dp" using list_all2_lengthD [OF rs(2)] by simp
  have "num_allocated info = m_max_num_recs dp - count_below (m_max_num_recs dp) (\<lambda>i. slot_at P dp pg i = Free)"
    using rs(3) lay(2) by (simp add: num_allocated_def i(2))
  moreover have "num_deleted info + num_active info = num_allocated info"
    using deleted_or_active [of info] n lay(2) by (simp add: i(2) num_allocated_def)
  ultimately show ?thesis
    using i rs(2) free count_below_le [of "m_max_num_recs dp" "\<lambda>i. slot_at P dp pg i = Free"] by auto
qed

text \<open>
  C31: The dump of a data page is what the store holds. For a page of a column store, with the values of an SVECTOR column or the entries of an index, the
  parser of the tool succeeds and its records are the slots of the page in order: free or not, delete mark, transaction, and the floats, the neighbour entry or the
  overflow entry that the stores decode from the same bytes. The counts add up, and the links are those of the page.
\<close>

theorem page_dump_agrees:
  assumes dl: "data_layout P (get_size P) dp" and bm: "m_free_bitmap_size dp = bitmap_bytes (m_max_num_recs dp)"
    and c: "m_rec_size dp = 8 + c" "column_fits kind ls c"
    and pg: "data_page_inv P dp pg" "read_integer_1 P pg PAGE_TYPE_OFF = DATA_PAGE_TYPE"
  shows "\<exists>info. DataPageParser_parse (page_image P pg) c kind (has_lower_level (ls_level ls)) = Inr info
    \<and> list_all2 (reported kind ls) (map (slot_at P dp pg) [0..<m_max_num_recs dp]) (di_records info)
    \<and> num_allocated info + di_num_free_recs info = m_max_num_recs dp \<and> num_deleted info + num_active info = num_allocated info
    \<and> di_fil_page_prev info = read_prev_link P pg \<and> di_fil_page_next info = read_next_link P pg
    \<and> (di_prev_free_page info, di_next_free_page info) = DataPage_get_free_links P pg
    \<and> di_root_page_ref info = DataPage_get_root_page_ref P pg \<and> di_free_slot_number info = DataPage_get_free_slot_number P pg"
  using assms by (rule page_dump_ok)

theorem page_dump_agrees_witness:
  "case DataPage_insert fake_api (DataPage_init 16384 16) 9 (encode_floats [0x3F800000, 0, 0x40000000, 0x7FC00000]) 0 fake16_page of (pg, s, _) \<Rightarrow>
     \<exists>info. DataPageParser_parse (page_image fake_api pg) 16 Record_None False = Inr info \<and> length (di_records info) = 672 \<and> num_allocated info + di_num_free_recs info = 672
       \<and> rs_trx_ref (di_records info ! s) = 9 \<and> rs_vector_data (di_records info ! s) = [0x3F800000, 0, 0x40000000, 0x7FC00000]"
proof -
  let ?dp = "DataPage_init 16384 16" and ?c = "encode_floats [0x3F800000, 0, 0x40000000, 0x7FC00000]"
  have dp: "m_rec_size ?dp = 8 + 16" "m_max_num_recs ?dp = 672" "m_free_bitmap_size ?dp = bitmap_bytes 672"
    by (simp_all add: DataPage_init_def Let_def layout_defs refine_max_recs.simps bits_to_bytes_ceil_def MAX_ITERATIONS_def MAX_SLOT_INDEX_def SLOT_INDEX_BITS_def bitmap_bytes_def)
  have len: "length ?c = m_rec_size ?dp - TRX_REF_SIZE" by (simp add: dp TRX_REF_SIZE_def)
  have room: "0 < unat (read_integer_2 fake_api fake16_page NUM_FREE_RECS_OFF)" using fake16_page_facts by (auto simp: data_page_inv_def count_below_pos)
  obtain pg s h where i: "DataPage_insert fake_api ?dp 9 ?c 0 fake16_page = (pg, s, h)" by (cases "DataPage_insert fake_api ?dp 9 ?c 0 fake16_page")
  from DataPage_insert_correct [OF fake16.data_layout_axioms fake16_page_facts(1,3,4) room len, of 9]
  have p: "s < 672" "slot_at fake_api ?dp pg s = Occupied False 9 ?c" "same_header fake_api fake16_page pg" "data_page_inv fake_api ?dp pg"
    by (simp_all add: i dp(2))
  have "read_integer_1 fake_api pg PAGE_TYPE_OFF = read_integer_1 fake_api fake16_page PAGE_TYPE_OFF"
    using p(3) by (simp add: same_header_def fake.read_1_byte layout_defs)
  then have ty: "read_integer_1 fake_api pg PAGE_TYPE_OFF = DATA_PAGE_TYPE"
    by (simp add: fake16_page_def DataPage_format_def Let_def fake.read_frames layout_defs)
  have "data_layout fake_api (get_size fake_api) ?dp" using fake16.data_layout_axioms by (simp add: fake_api_def kPageSize_def)
  from page_dump_agrees [OF this _ dp(1) _ p(4) ty, of Record_None level0]
  obtain info where info: "DataPageParser_parse (page_image fake_api pg) 16 Record_None False = Inr info"
      "list_all2 (reported Record_None level0) (map (slot_at fake_api ?dp pg) [0..<672]) (di_records info)" "num_allocated info + di_num_free_recs info = 672"
    by (auto simp: dp column_fits_def has_lower_level_def)
  then have "length (di_records info) = 672" "reported Record_None level0 (Occupied False 9 ?c) (di_records info ! s)"
    using list_all2_lengthD [OF info(2)] list_all2_nthD [OF info(2), of s] p(1,2) by simp_all
  moreover have "length [0x3F800000, 0, 0x40000000, 0x7FC00000 :: float_bits] = 4" by simp
  then have "decode_floats ?c 4 = [0x3F800000, 0, 0x40000000, 0x7FC00000]" using floats_decode_encode [of "[0x3F800000, 0, 0x40000000, 0x7FC00000]" "[]"] by (simp only: append_Nil2)
  ultimately show ?thesis using info i by (auto simp: reported_def FLOAT_SIZE_def)
qed

subsection \<open>Pages that are not in order\<close>

lemma list_image: "data = slice (nth data) 0 (length data)"
  by (rule nth_equalityI) simp_all

lemma tmap_first_error:
  assumes "\<And>x e. x \<in> set xs \<Longrightarrow> f x = Inl e \<Longrightarrow> e = e0" "x \<in> set xs" "f x = Inl e0"
  shows "tmap f xs = Inl e0"
  using assms
proof (induction xs)
  case (Cons y ys)
  show ?case
  proof (cases "f y")
    case (Inl e)
    then show ?thesis using Cons.prems(1) [of y e] by simp
  next
    case (Inr b)
    then have "x \<in> set ys" using Cons.prems(2,3) by auto
    then have "tmap f ys = Inl e0" using Cons.prems by (intro Cons.IH) auto
    then show ?thesis by (simp add: Inr)
  qed
qed simp

text \<open>The only error of a read is \<open>Out_Of_Bounds\<close>.\<close>

definition oob_only :: "'a tool_result \<Rightarrow> bool" where "oob_only m \<longleftrightarrow> (\<forall>e. m = Inl e \<longrightarrow> e = Out_Of_Bounds)"

lemma oob_bind: "oob_only m \<Longrightarrow> (\<And>x. oob_only (f x)) \<Longrightarrow> oob_only (tbind m f)"
  by (cases m) (auto simp: oob_only_def)

lemma oob_simps [simp]: "oob_only (Inr x)" "oob_only (byte_at data off)"
  by (simp_all add: oob_only_def byte_at_def)

lemma oob_tmap: "(\<And>x. oob_only (f x)) \<Longrightarrow> oob_only (tmap f xs)"
  by (induction xs) (auto intro!: oob_bind)

lemma oob_bytes [simp]: "oob_only (bytes_at data off n)"
  unfolding bytes_at_def by (rule oob_tmap) simp

lemma oob_reads [simp]: "oob_only (read_uint8 data off)" "oob_only (read_uint16 data off)" "oob_only (read_uint32 data off)" "oob_only (read_uint64 data off)"
  "oob_only (read_float data off)" "oob_only (read_id48 data off)" "oob_only (get_record_bits data off i)"
  by (auto simp: read_uint8_def read_uint16_def read_uint32_def read_uint64_def read_float_def read_id48_def get_record_bits_def Let_def intro!: oob_bind)

lemma oob_decode [simp]: "oob_only (decode_record data c kind hl off rec)"
  unfolding decode_record_def Let_def by (cases kind) (auto intro!: oob_bind oob_tmap)

lemma oob_parse_record [simp]: "oob_only (parse_record data c kind hl first i)"
  unfolding parse_record_def Let_def by (auto intro!: oob_bind)

text \<open>The header of a page that is large enough is always read.\<close>

lemma parse_header:
  assumes "FREE_BITMAP_OFF \<le> length data" "data ! PAGE_TYPE_OFF = DATA_PAGE_TYPE"
  obtains F where "DataPageParser_parse data c kind hl =
    tbind (tmap (parse_record data c kind hl (FREE_BITMAP_OFF + bitmap_bytes (be_read (nth data) MAX_NUM_RECS_OFF 2))) [0..<be_read (nth data) MAX_NUM_RECS_OFF 2]) (\<lambda>rs. Inr (F rs))"
proof -
  let ?n = "length data"
  have l: "58 \<le> ?n" using assms(1) by (simp add: layout_defs)
  have r1: "read_uint8 data off = Inr (data ! off)" if "off < 58" for off
    using read_images(1) [of off ?n "nth data"] list_image [of data] that l by simp
  have r2: "read_uint16 data off = Inr (word_of_nat (be_read (nth data) off 2))" if "off + 2 \<le> 58" for off
    using read_images(2) [of off ?n "nth data"] list_image [of data] that l by simp
  have r4: "read_uint32 data off = Inr (word_of_nat (be_read (nth data) off 4))" if "off + 4 \<le> 58" for off
    using read_images(3) [of off ?n "nth data"] list_image [of data] that l by simp
  have u: "unat (word_of_nat (be_read (nth data) off 2) :: 16 word) = be_read (nth data) off 2" for off
    using be_read_less [of "nth data" off 2] by (simp add: unat_of_nat)
  have off: "FIL_PAGE_PREV + 4 \<le> 58" "FIL_PAGE_NEXT + 4 \<le> 58" "VERSION_OFF < 58" "PAGE_TYPE_OFF < 58" "FREE_SLOT_NUMBER_OFF + 2 \<le> 58" "ROOT_PAGE_REF_OFF + 4 \<le> 58"
    "PREV_FREE_PAGE_OFF + 4 \<le> 58" "NEXT_FREE_PAGE_OFF + 4 \<le> 58" "MAX_NUM_RECS_OFF + 2 \<le> 58" "NUM_FREE_RECS_OFF + 2 \<le> 58"
    by (simp_all add: layout_defs)
  show thesis
  proof (rule that)
    show "DataPageParser_parse data c kind hl =
      tbind (tmap (parse_record data c kind hl (FREE_BITMAP_OFF + bitmap_bytes (be_read (nth data) MAX_NUM_RECS_OFF 2))) [0..<be_read (nth data) MAX_NUM_RECS_OFF 2])
        (\<lambda>rs. Inr \<lparr>di_version = data ! VERSION_OFF, di_page_type = DATA_PAGE_TYPE, di_free_slot_number = word_of_nat (be_read (nth data) FREE_SLOT_NUMBER_OFF 2),
          di_root_page_ref = word_of_nat (be_read (nth data) ROOT_PAGE_REF_OFF 4), di_prev_free_page = word_of_nat (be_read (nth data) PREV_FREE_PAGE_OFF 4),
          di_next_free_page = word_of_nat (be_read (nth data) NEXT_FREE_PAGE_OFF 4), di_max_num_recs = be_read (nth data) MAX_NUM_RECS_OFF 2,
          di_num_free_recs = be_read (nth data) NUM_FREE_RECS_OFF 2, di_fil_page_prev = word_of_nat (be_read (nth data) FIL_PAGE_PREV 4),
          di_fil_page_next = word_of_nat (be_read (nth data) FIL_PAGE_NEXT 4), di_records = rs, di_index_kind = kind, di_has_lower_level = hl\<rparr>)"
      using assms by (simp add: DataPageParser_parse_def r1 [OF off(3)] r1 [OF off(4)] r2 [OF off(5)] r2 [OF off(9)] r2 [OF off(10)] r4 [OF off(1)] r4 [OF off(2)] r4 [OF off(6)] r4 [OF off(7)]
          r4 [OF off(8)] u Let_def bitmap_bytes_def BITS_PER_RECORD_def del: unsigned_of_nat)
  qed
qed

text \<open>
  C35: The dump reads behind the end of a page exactly when the page announces too many records. For a page whose type says data page, and values up to the
  size of the largest vector, parsing it as vectors is a read out of bounds if the bitmap of the announced number of records does not end inside the page,
  and succeeds otherwise. On a page of 16 KB every count from 65305 on is such an overrun, whatever the rest of the page holds.
\<close>

theorem page_dump_overrun:
  assumes page: "FREE_BITMAP_OFF \<le> length data" "data ! PAGE_TYPE_OFF = DATA_PAGE_TYPE" and c: "c \<le> MAX_VECTOR_DIMENSION * FLOAT_SIZE"
  shows "if length data < FREE_BITMAP_OFF + bitmap_bytes (be_read (nth data) MAX_NUM_RECS_OFF 2)
    then DataPageParser_parse data c Record_None hl = Inl Out_Of_Bounds else \<exists>info. DataPageParser_parse data c Record_None hl = Inr info"
proof -
  let ?n = "be_read (nth data) MAX_NUM_RECS_OFF 2"
  let ?p = "parse_record data c Record_None hl (FREE_BITMAP_OFF + bitmap_bytes ?n)"
  obtain F where F: "DataPageParser_parse data c Record_None hl = tbind (tmap ?p [0..<?n]) (\<lambda>rs. Inr (F rs))" using parse_header [OF page] by blast
  have n: "?n < 65536" using be_read_less [of "nth data" MAX_NUM_RECS_OFF 2] by simp
  have bits: "get_record_bits data FREE_BITMAP_OFF i = (if FREE_BITMAP_OFF + i div 4 < length data then get_record_bits data FREE_BITMAP_OFF i else Inl Out_Of_Bounds)" for i
    by (simp add: get_record_bits_def BITS_PER_RECORD_def byte_at_def Let_def)
  show ?thesis
  proof (cases "length data < FREE_BITMAP_OFF + bitmap_bytes ?n")
    case True
    have pos: "0 < ?n" using True page(1) by (cases ?n) (simp_all add: bitmap_bytes_def)
    then have "bitmap_bytes ?n = (?n - 1) div 4 + 1" by (simp add: bitmap_bytes_def)
    then have "?p (?n - 1) = Inl Out_Of_Bounds" using True bits [of "?n - 1"] by (simp add: parse_record_def Let_def)
    moreover have "?p i = Inl e \<Longrightarrow> e = Out_Of_Bounds" for i e using oob_parse_record by (auto simp: oob_only_def)
    ultimately have "tmap ?p [0..<?n] = Inl Out_Of_Bounds" using pos by (intro tmap_first_error [where x = "?n - 1"]) simp_all
    then show ?thesis using True by (simp add: F)
  next
    case False
    have "\<exists>r. ?p i = Inr r" if i: "i < ?n" for i
    proof -
      have "i div 4 < bitmap_bytes ?n" using i by (simp add: bitmap_bytes_def)
      then obtain fr del where b: "get_record_bits data FREE_BITMAP_OFF i = Inr (fr, del)"
        using False by (simp add: get_record_bits_def BITS_PER_RECORD_def byte_at_def Let_def)
      let ?o = "FREE_BITMAP_OFF + bitmap_bytes ?n + i * (8 + c)"
      have c': "8 + c \<le> 12296" using c by (simp add: MAX_VECTOR_DIMENSION_def FLOAT_SIZE_def)
      have "bitmap_bytes ?n \<le> 65536" using n by (simp add: bitmap_bytes_def)
      moreover have "i * (8 + c) \<le> 65536 * 12296" using n i c' by (intro mult_le_mono) simp_all
      ultimately have u: "u32 ?o = ?o" "u32 (?o + (8 + c)) = ?o + (8 + c)" using c by (simp_all add: layout_defs MAX_VECTOR_DIMENSION_def FLOAT_SIZE_def)
      show ?thesis
      proof (cases "\<not> fr \<and> ?o + (8 + c) \<le> length data")
        case True
        then have "read_uint64 data ?o = Inr (word_of_nat (be_read (nth data) ?o 8))"
          using read_images(4) [of ?o "length data" "nth data"] list_image [of data] by simp
        moreover have "\<exists>r. decode_record data c Record_None hl (?o + 8) rec = Inr r" for rec
          using decode_vector_record [of "?o + 8" c "length data" "nth data" hl rec] True list_image [of data] by simp
        ultimately show ?thesis using True u by (simp add: parse_record_def b Let_def TRX_REF_SIZE_def)
      next
        case False
        have "parse_record data c Record_None hl (FREE_BITMAP_OFF + bitmap_bytes ?n) i = Inr (new_record_status fr del\<lparr>rs_trx_ref := 0\<rparr>)"
          unfolding parse_record_def Let_def b TRX_REF_SIZE_def tbind_simps prod.case u if_not_P [OF False] by (rule refl)
        then show ?thesis by blast
      qed
    qed
    then have "?p i = Inr (projr (?p i))" if "i \<in> set [0..<?n]" for i using that by force
    then have "tmap ?p [0..<?n] = Inr (map (\<lambda>i. projr (?p i)) [0..<?n])" by (rule tmap_all)
    then show ?thesis using False by (simp add: F)
  qed
qed

text \<open>A page of 16 KB whose only other bytes are the type and a count of \<open>0xFFFF\<close>.\<close>

definition overrun_page :: "byte list" where
  "overrun_page = (replicate 16384 0)[39 := 2, 54 := 0xFF, 55 := 0xFF]"

theorem page_dump_overrun_witness: "DataPageParser_parse overrun_page 16 Record_None False = Inl Out_Of_Bounds"
proof -
  have n: "be_read (nth overrun_page) MAX_NUM_RECS_OFF 2 = 65535"
    by (simp add: be_read_def be_value_def slices layout_defs overrun_page_def)
  have "FREE_BITMAP_OFF \<le> length overrun_page" "overrun_page ! PAGE_TYPE_OFF = DATA_PAGE_TYPE" "length overrun_page < FREE_BITMAP_OFF + bitmap_bytes 65535"
    by (simp_all add: overrun_page_def layout_defs DATA_PAGE_TYPE_def bitmap_bytes_def)
  then show ?thesis using page_dump_overrun [of overrun_page 16 False] unfolding n by (simp add: MAX_VECTOR_DIMENSION_def FLOAT_SIZE_def)
qed

subsection \<open>Metadata and sizes of an index\<close>

lemma entry_point_values_read: "entry_point_values n p = read_entry_points n p"
  by (induction n p rule: read_entry_points.induct) (simp_all add: read_u64_be_def ENTRY_POINT_LEN_def)

definition dumped_meta :: "storage_meta \<Rightarrow> hnsw_index_metadata" where
  "dumped_meta m = \<lparr>hm_version = 1, hm_name = sm_name m, hm_level = sm_level m, hm_entry_level = sm_entry_level m, hm_entry_points = sm_entry_points m\<rparr>"

lemma parse_metadata_decode:
  "case StorageMeta_decode raw of None \<Rightarrow> \<exists>msg. parse_hnsw_index_metadata raw = Inl (Tool_Message msg) | Some m \<Rightarrow> parse_hnsw_index_metadata raw = Inr (dumped_meta m)"
proof -
  note defs = StorageMeta_decode_def parse_hnsw_index_metadata_def Let_def META_VERSION_def STORAGE_META_VERSION_def entry_point_values_read dumped_meta_def
  consider "raw = []" | v where "raw = [v]" | v k p where "raw = v # k # p" by (metis list.exhaust)
  then show ?thesis
  proof cases
    case (3 v k p)
    consider "drop (unat k) p = []" | x where "drop (unat k) p = [x]" | x y where "drop (unat k) p = [x, y]" | x y n q where "drop (unat k) p = x # y # n # q"
      by (metis list.exhaust)
    then show ?thesis unfolding 3 by cases (simp_all add: defs del: length_drop)
  qed (simp_all add: defs)
qed

lemma overflow_name: "HnswIndexMetadata_is_overflow (dumped_meta m) \<longleftrightarrow> (\<exists>n. sm_name m = n @ string_bytes ''-OV'')"
proof -
  have b: "string_bytes ''-OV'' = OVERFLOW_NAME_SUFFIX" by (simp add: string_bytes_def OVERFLOW_NAME_SUFFIX_def of_char_def)
  show ?thesis (is "?l \<longleftrightarrow> ?r")
  proof
    assume ?l
    then have "sm_name m = take (length (sm_name m) - 3) (sm_name m) @ OVERFLOW_NAME_SUFFIX"
      by (simp add: HnswIndexMetadata_is_overflow_def dumped_meta_def Let_def OVERFLOW_NAME_SUFFIX_def)
        (metis append_take_drop_id numeral_3_eq_3)
    then show ?r unfolding b by blast
  qed (auto simp: HnswIndexMetadata_is_overflow_def dumped_meta_def Let_def b OVERFLOW_NAME_SUFFIX_def)
qed

lemma decimal_last: "\<exists>ds k. decimal n = ds @ [char_of (48 + k)] \<and> k < (10 :: nat)"
proof (cases "n < 10")
  case True
  then show ?thesis by (subst decimal.simps) (intro exI [of _ "[]"] exI [of _ n], simp)
next
  case False
  then show ?thesis by (subst decimal.simps) (intro exI [of _ "decimal (n div 10)"] exI [of _ "n mod 10"], simp)
qed

lemma length_decimal: "length (decimal n) \<le> Suc n"
proof (induction n rule: decimal.induct)
  case (1 n)
  show ?case
  proof (cases "n < 10")
    case False
    then have "length (decimal (n div 10)) \<le> Suc (n div 10)" "Suc (n div 10) \<le> n" using 1 by linarith+
    then show ?thesis using False by (subst decimal.simps) simp
  qed (subst decimal.simps, simp)
qed

lemma level_name_primary: "level_name l \<noteq> n @ string_bytes ''-OV''"
proof
  assume "level_name l = n @ string_bytes ''-OV''"
  then have "last (level_name l) = last (string_bytes ''-OV'')" by (simp add: string_bytes_def)
  moreover obtain ds k where "decimal l = ds @ [char_of (48 + k)]" and k: "k < (10 :: nat)" using decimal_last by blast
  ultimately have eq: "of_char (char_of (48 + k)) = (of_char (CHR ''V'') :: byte)" by (simp add: level_name_def string_bytes_def)
  from k have "k = 0 \<or> k = 1 \<or> k = 2 \<or> k = 3 \<or> k = 4 \<or> k = 5 \<or> k = 6 \<or> k = 7 \<or> k = 8 \<or> k = 9" by arith
  then show False using eq by (elim disjE) (simp_all add: of_char_def char_of_def bit_numeral_rec bit_0)
qed

lemma decode_ref_agrees: "hnsw_decode_ref v = DataPage_decode_column_ref v"
proof -
  have m: "SLOT_INDEX_MASK = mask 14" "word_of_nat MAX_SLOT_INDEX = (mask 14 :: 64 word)"
    by (simp_all add: SLOT_INDEX_MASK_def MAX_SLOT_INDEX_def SLOT_INDEX_BITS_def mask_eq_exp_minus_1)
  have "unat (ucast (x AND mask 14) :: 16 word) = unat (x AND mask 14)" for x :: "64 word"
    by (simp add: take_bit_eq_mask [symmetric] unsigned_ucast_eq unsigned_take_bit_eq min_def)
  then show ?thesis by (simp add: hnsw_decode_ref_def DataPage_decode_column_ref_def m)
qed

text \<open>
  C34: The tool reads the same index as the extension. Its metadata parser accepts exactly what \<^verbatim>\<open>StorageMeta::decode\<close> accepts, with the same result and without a
  read out of bounds; for the stores that an index creates, on every level and for every number of neighbours the options allow, it recovers the level and which of the
  two stores it is, and from the length of a record the number of neighbours or of incoming links; and it splits a reference as the storage does.
\<close>

theorem index_dump_layout:
  assumes l: "l < S_MAX_LEVEL" and M: "is_num_neighbours st \<le> 128" and e: "is_entry_level st < 256"
  shows "(case StorageMeta_decode raw of None \<Rightarrow> \<exists>msg. parse_hnsw_index_metadata raw = Inl (Tool_Message msg) | Some m \<Rightarrow> parse_hnsw_index_metadata raw = Inr (dumped_meta m))
    \<and> (case level_specs empty_ref st l of [primary, overflow] \<Rightarrow>
         (\<exists>m. parse_hnsw_index_metadata (spec_metadata primary) = Inr m \<and> hm_level m = l \<and> \<not> HnswIndexMetadata_is_overflow m
            \<and> (l = 0 \<longrightarrow> hm_entry_level m = is_entry_level st \<and> hm_entry_points m = [ref_of_node empty_ref (is_entry_point st)]))
       \<and> (\<exists>m. parse_hnsw_index_metadata (spec_metadata overflow) = Inr m \<and> hm_level m = l \<and> HnswIndexMetadata_is_overflow m)
       \<and> hnsw_max_neighbours (spec_col_len primary) (l > 0) = max_neighbours l (is_num_neighbours st)
       \<and> hnsw_neighbour_column_size (max_neighbours l (is_num_neighbours st)) (l > 0) = spec_col_len primary
       \<and> hnsw_overflow_capacity (spec_col_len overflow) = overflow_capacity l (is_num_neighbours st))
    \<and> hnsw_decode_ref v = DataPage_decode_column_ref v"
proof -
  let ?M = "is_num_neighbours st"
  let ?p = "\<lparr>sm_name = level_name l, sm_level = l, sm_entry_level = (if l = 0 then is_entry_level st else 0),
          sm_entry_points = (if l = 0 then [ref_of_node empty_ref (is_entry_point st)] else [])\<rparr>"
  let ?o = "\<lparr>sm_name = level_name l @ string_bytes ''-OV'', sm_level = l, sm_entry_level = 0, sm_entry_points = []\<rparr>"
  have l32: "l < 32" using l by (simp add: S_MAX_LEVEL_def)
  have "length (level_name l) \<le> 39" using length_decimal [of l] l32 by (simp add: level_name_def string_bytes_def)
  then have fits: "meta_fits ?p" "meta_fits ?o" using l32 e by (simp_all add: meta_fits_def string_bytes_def)
  have parse: "parse_hnsw_index_metadata (StorageMeta_encode m) = Inr (dumped_meta m)" if "meta_fits m" for m
    using parse_metadata_decode [of "StorageMeta_encode m"] decode_encode [OF that, of "[]"] by simp
  have mn: "max_neighbours l ?M \<le> 256" using M by (simp add: max_neighbours_def u32_def)
  have len: "IndexStore_entry_len st l = 6 * (if l > 0 then 3 else 2) + max_neighbours l ?M * 12"
    using mn by (cases "l = 0") (simp_all add: IndexStore_entry_len_def neighbour_storage_size_def layout_defs has_lower_level_def)
  have oc: "overflow_capacity l ?M \<le> 8" by (simp add: overflow_capacity_def layout_defs)
  have olen: "IndexStore_overflow_len st l = 6 * overflow_capacity l ?M + 6"
    using oc by (simp add: IndexStore_overflow_len_def overflow_storage_size_def layout_defs u16_def)
  have "hnsw_max_neighbours (IndexStore_entry_len st l) (l > 0) = max_neighbours l ?M"
    by (simp add: hnsw_max_neighbours_def len HNSW_ID_SIZE_def Let_def)
  moreover have "hnsw_neighbour_column_size (max_neighbours l ?M) (l > 0) = IndexStore_entry_len st l"
    unfolding len using mn by (cases "l = 0") (simp_all add: hnsw_neighbour_column_size_def HNSW_ID_SIZE_def Let_def)
  moreover have "hnsw_overflow_capacity (IndexStore_overflow_len st l) = overflow_capacity l ?M"
    by (simp add: hnsw_overflow_capacity_def olen HNSW_ID_SIZE_def)
  moreover have "\<not> HnswIndexMetadata_is_overflow (dumped_meta ?p)" "HnswIndexMetadata_is_overflow (dumped_meta ?o)"
    using level_name_primary [of l] by (simp_all add: overflow_name)
  moreover have hm: "hm_level (dumped_meta m) = sm_level m" "hm_entry_level (dumped_meta m) = sm_entry_level m" "hm_entry_points (dumped_meta m) = sm_entry_points m" for m
    by (simp_all add: dumped_meta_def)
  ultimately show ?thesis
    using parse [OF fits(1)] parse [OF fits(2)] parse_metadata_decode [of raw] hm by (simp add: level_specs_def decode_ref_agrees)
qed

theorem index_dump_layout_witness:
  "hnsw_max_neighbours (spec_col_len (level_specs 0 (new_index_store\<lparr>is_num_neighbours := 16\<rparr>) 3 ! 0)) True = 16
   \<and> hnsw_max_neighbours (spec_col_len (level_specs 0 (new_index_store\<lparr>is_num_neighbours := 16\<rparr>) 0 ! 0)) False = 32"
  using index_dump_layout [of 3 "new_index_store\<lparr>is_num_neighbours := 16\<rparr>" "[]" 0 0] index_dump_layout [of 0 "new_index_store\<lparr>is_num_neighbours := 16\<rparr>" "[]" 0 0]
  by (simp add: S_MAX_LEVEL_def new_index_store_def level_specs_def max_neighbours_def)

end
