(* ===== verification/Root_Dump.thy ===== *)
theory Root_Dump
  imports Page_Dump
begin

text \<open>
  The dump of a root page: the three-stage bootstrap of the tool finds the layout the store was created with, and reports its metadata and the heads of its lists.
\<close>

lemma slice_Cons: "slice f off (Suc k) = f off # slice f (Suc off) k"
  by (rule nth_equalityI) (auto simp: nth_Cons split: nat.split)

lemma read_cstring_image: "off + k \<le> n \<Longrightarrow> read_cstring (slice f 0 n) off k = Inr (takeWhile (\<lambda>b. b \<noteq> 0) (slice f off k))"
proof (induction k arbitrary: off)
  case 0
  then show ?case by (simp add: slice_def)
next
  case (Suc k)
  then show ?case by (simp add: slice_Cons byte_at_image)
qed

text \<open>What a formatted root page says about its own layout.\<close>

definition root_header :: "'p page_api \<Rightarrow> root_page \<Rightarrow> 'p \<Rightarrow> bool" where
  "root_header P rp pg \<longleftrightarrow> unat (read_integer_1 P pg HEADER_SIZE) = m_num_segments rp
     \<and> unat (read_integer_1 P pg (storage_metadata_len_off rp)) = m_storage_metadata_len rp
     \<and> unat (read_integer_1 P pg (num_other_root_pages_off rp)) = m_num_other_root_pages rp
     \<and> read_integer_1 P pg (page_type_off rp) = ROOT_PAGE_TYPE"

lemma offsets_cong:
  "m_num_segments r = m_num_segments r' \<Longrightarrow> storage_metadata_len_off r = storage_metadata_len_off r'"
  "m_num_segments r = m_num_segments r' \<Longrightarrow> m_storage_metadata_len r = m_storage_metadata_len r' \<Longrightarrow> num_other_root_pages_off r = num_other_root_pages_off r'"
  by (simp_all add: root_offs)

text \<open>The layout of the last stage has the offsets of the store's own layout.\<close>

lemma offsets_final:
  assumes "m_num_segments r = m_num_segments rp" "m_storage_metadata_len r = m_storage_metadata_len rp" "m_num_other_root_pages r = m_num_other_root_pages rp"
  shows "version_off r = version_off rp" "page_type_off r = page_type_off rp" "storage_metadata_off r = storage_metadata_off rp"
    "other_root_pages_off r = other_root_pages_off rp" "column_size_off r = column_size_off rp" "all_slot_head_off r = all_slot_head_off rp" "all_slot_tail_off r = all_slot_tail_off rp"
    "total_data_pages_off r = total_data_pages_off rp" "total_free_pages_off r = total_free_pages_off rp"
    "free_slot_array_max_size_off r = free_slot_array_max_size_off rp" "free_slot_array_cur_size_off r = free_slot_array_cur_size_off rp"
    "free_slot_array_off r = free_slot_array_off rp"
  using assms by (simp_all add: root_offs)

lemma offsets_inside:
  "HEADER_SIZE < free_slot_array_off rp" "version_off rp < free_slot_array_off rp" "page_type_off rp < free_slot_array_off rp" "storage_metadata_len_off rp < free_slot_array_off rp"
  "num_other_root_pages_off rp < free_slot_array_off rp" "storage_metadata_off rp + m_storage_metadata_len rp \<le> free_slot_array_off rp"
  "i < m_num_other_root_pages rp \<Longrightarrow> other_root_pages_off rp + i * ROOT_PAGE_REF_LEN + 4 \<le> free_slot_array_off rp"
  "column_size_off rp + 2 \<le> free_slot_array_off rp" "all_slot_head_off rp + 4 \<le> free_slot_array_off rp" "all_slot_tail_off rp + 4 \<le> free_slot_array_off rp"
  "total_data_pages_off rp + 4 \<le> free_slot_array_off rp" "total_free_pages_off rp + 4 \<le> free_slot_array_off rp"
  "free_slot_array_max_size_off rp + 2 \<le> free_slot_array_off rp" "free_slot_array_cur_size_off rp + 2 \<le> free_slot_array_off rp"
  by (simp_all add: root_offs layout_defs)

lemma root_dump_ok:
  assumes lay: "root_layout P rp" and h: "root_header P rp pg" and lists: "root_lists P rp m root fl dl" and pg: "m root = Some pg"
  shows "\<exists>info. RootPageParser_parse (page_image P pg) = Inr info
    \<and> ri_storage_metadata_raw info = RootPage_read_metadata P rp pg \<and> ri_num_root_pages info = u8 (m_num_other_root_pages rp + 1)
    \<and> ri_column_size info = unat (read_integer_2 P pg (column_size_off rp))
    \<and> ri_all_slot_head info = (if dl = [] then NULL_FREE_PAGE_REF else hd dl) \<and> ri_all_slot_tail info = (if dl = [] then NULL_FREE_PAGE_REF else last dl)
    \<and> ri_total_data_pages info = word_of_nat (length dl)
    \<and> ri_free_slots info = map (\<lambda>k. if fl k = [] then NULL_FREE_PAGE_REF else hd (fl k)) [0..<cur_slots P rp pg]"
proof -
  note P = root_layout.axioms(1) [OF lay]
  let ?f = "get_data P pg" and ?n = "get_size P" and ?d = "page_image P pg"
  have ok: "root_ok P rp" using lay by (rule root_layout.root_ok)
  have n: "free_slot_array_off rp \<le> ?n" using ok by (simp add: root_ok_def)
  have cur: "cur_slots P rp pg \<le> m_max_free_slots rp" and fls: "\<And>k. k < cur_slots P rp pg \<Longrightarrow> free_list P rp m root k (fl k)" and dl: "data_list P rp m root dl"
    using lists pg by (auto simp: root_lists_def free_lists_def)
  have r1: "read_uint8 ?d off = Inr (read_integer_1 P pg off)" if "off < free_slot_array_off rp" for off
    using that n page_api.read_1_byte [OF P] by (simp add: page_image_def read_images)
  have r2: "read_uint16 ?d off = Inr (read_integer_2 P pg off)" if "off + 2 \<le> free_slot_array_off rp" for off
    using that n page_api.read_2 [OF P] by (simp add: page_image_def read_images)
  have r4: "read_uint32 ?d off = Inr (read_integer_4 P pg off)" if "off + 4 \<le> ?n" for off
    using that page_api.read_4 [OF P] by (simp add: page_image_def read_images)
  note r4' = r4 [OF order_trans [OF _ n]]
  define rp1 where "rp1 = RootPage_set_layout (m_num_segments rp) 0 1 init_root_page_members"
  define rp2 where "rp2 = RootPage_set_layout (m_num_segments rp) (m_storage_metadata_len rp) 1 rp1"
  define rp3 where "rp3 = RootPage_set_layout (m_num_segments rp) (m_storage_metadata_len rp) (m_num_other_root_pages rp) rp2"
  have o1: "storage_metadata_len_off rp1 = storage_metadata_len_off rp" and o2: "num_other_root_pages_off rp2 = num_other_root_pages_off rp"
    by (rule offsets_cong; simp add: rp1_def rp2_def RootPage_set_layout_def)+
  have o3: "m_num_segments rp3 = m_num_segments rp" "m_storage_metadata_len rp3 = m_storage_metadata_len rp" "m_num_other_root_pages rp3 = m_num_other_root_pages rp"
    by (simp_all add: rp3_def RootPage_set_layout_def)
  note o = o1 o2 offsets_final [OF o3]
  have slots: "tmap (read_free_slot ?d rp3) [0..<cur_slots P rp pg] = Inr (map (\<lambda>k. if fl k = [] then NULL_FREE_PAGE_REF else hd (fl k)) [0..<cur_slots P rp pg])"
  proof (rule tmap_all)
    fix k assume k: "k \<in> set [0..<cur_slots P rp pg]"
    then have k': "k < m_max_free_slots rp" using cur by simp
    have "(k + 1) * 4 \<le> m_max_free_slots rp * 4" using k' by (intro mult_le_mono1) simp
    then have fit: "free_slot_array_off rp + k * 4 + 4 \<le> ?n" using ok by (simp add: root_ok_def layout_defs)
    have "read_integer_4 P pg (free_slot_array_off rp + k * 4) = slot_head P rp pg k"
      by (simp add: slot_head_def root_layout.slot_off [OF lay k'] mult.commute)
    also have "\<dots> = (if fl k = [] then NULL_FREE_PAGE_REF else hd (fl k))"
      using fls [of k] k pg by (cases "fl k") (simp_all add: free_list_def NULL_FREE_PAGE_REF_def)
    finally show "read_free_slot ?d rp3 k = Inr (if fl k = [] then NULL_FREE_PAGE_REF else hd (fl k))"
      using fit r4 by (simp add: read_free_slot_def o FREE_SLOT_LEN_def Let_def page_image_def)
  qed
  have others: "tmap (\<lambda>i. read_uint32 ?d (other_root_pages_off rp + i * ROOT_PAGE_REF_LEN)) [0..<m_num_other_root_pages rp]
      = Inr (map (\<lambda>i. read_integer_4 P pg (other_root_pages_off rp + i * ROOT_PAGE_REF_LEN)) [0..<m_num_other_root_pages rp])"
    by (intro tmap_all r4' offsets_inside) simp
  have md: "read_cstring ?d (storage_metadata_off rp) (m_storage_metadata_len rp)
        = Inr (takeWhile (\<lambda>b. b \<noteq> 0) (slice ?f (storage_metadata_off rp) (m_storage_metadata_len rp)))"
      "bytes_at ?d (storage_metadata_off rp) (m_storage_metadata_len rp) = Inr (slice ?f (storage_metadata_off rp) (m_storage_metadata_len rp))"
    unfolding page_image_def by (rule read_cstring_image bytes_at_image; rule order_trans [OF offsets_inside(6) n])+
  have len: "length ?d = ?n" by (simp add: page_image_def)
  have guards: "\<not> ?n \<le> HEADER_SIZE" "\<not> ?n \<le> storage_metadata_len_off rp" "\<not> ?n \<le> num_other_root_pages_off rp" "\<not> ?n < free_slot_array_off rp"
    using n offsets_inside(1,4,5) [of rp] by linarith+
  note hs = h [unfolded root_header_def]
  note rs = r1 [OF offsets_inside(1)] r1 [OF offsets_inside(2)] r1 [OF offsets_inside(3)] r1 [OF offsets_inside(4)] r1 [OF offsets_inside(5)] md others
    r2 [OF offsets_inside(8)] r4' [OF offsets_inside(9)] r4' [OF offsets_inside(10)] r4' [OF offsets_inside(11)] r4' [OF offsets_inside(12)] r2 [OF offsets_inside(13)] r2 [OF offsets_inside(14)]
  have "\<exists>info. RootPageParser_parse ?d = Inr info \<and> ri_storage_metadata_raw info = slice ?f (storage_metadata_off rp) (m_storage_metadata_len rp)
      \<and> ri_num_root_pages info = u8 (m_num_other_root_pages rp + 1) \<and> ri_column_size info = unat (read_integer_2 P pg (column_size_off rp))
      \<and> ri_all_slot_head info = read_integer_4 P pg (all_slot_head_off rp) \<and> ri_all_slot_tail info = read_integer_4 P pg (all_slot_tail_off rp)
      \<and> ri_total_data_pages info = read_integer_4 P pg (total_data_pages_off rp)
      \<and> ri_free_slots info = map (\<lambda>k. if fl k = [] then NULL_FREE_PAGE_REF else hd (fl k)) [0..<cur_slots P rp pg]"
    unfolding RootPageParser_parse_def len
    by (simp only: guards if_False rs tbind_simps Let_def hs rp1_def [symmetric] rp2_def [symmetric] rp3_def [symmetric] o cur_slots_def [symmetric] slots) simp
  moreover have "read_integer_4 P pg (all_slot_head_off rp) = (if dl = [] then NULL_FREE_PAGE_REF else hd dl)"
      "read_integer_4 P pg (all_slot_tail_off rp) = (if dl = [] then NULL_FREE_PAGE_REF else last dl)"
      "read_integer_4 P pg (total_data_pages_off rp) = word_of_nat (length dl)"
    using dl pg by (cases dl; simp add: data_list_def NULL_FREE_PAGE_REF_def)+
  moreover have "RootPage_read_metadata P rp pg = slice ?f (storage_metadata_off rp) (m_storage_metadata_len rp)"
    using hs by (simp add: RootPage_read_metadata_def)
  ultimately show ?thesis by auto
qed

text \<open>
  The dump of a root page is what the store keeps there. For a formatted root page the tool finds the layout by its three-stage bootstrap and reports the metadata, the
  first and the last data page, their number, and for every slot in use the first page of its free list.
\<close>

theorem root_dump_agrees:
  assumes lay: "root_layout P rp" and h: "root_header P rp pg" and lists: "root_lists P rp m root fl dl" and pg: "m root = Some pg"
  shows "\<exists>info. RootPageParser_parse (page_image P pg) = Inr info
    \<and> ri_storage_metadata_raw info = RootPage_read_metadata P rp pg \<and> ri_num_root_pages info = u8 (m_num_other_root_pages rp + 1)
    \<and> ri_column_size info = unat (read_integer_2 P pg (column_size_off rp))
    \<and> ri_all_slot_head info = (if dl = [] then NULL_FREE_PAGE_REF else hd dl) \<and> ri_all_slot_tail info = (if dl = [] then NULL_FREE_PAGE_REF else last dl)
    \<and> ri_total_data_pages info = word_of_nat (length dl)
    \<and> ri_free_slots info = map (\<lambda>k. if fl k = [] then NULL_FREE_PAGE_REF else hd (fl k)) [0..<cur_slots P rp pg]"
  using assms by (rule root_dump_ok)

lemma fake_root_header: "root_header fake_api fake_rp fake_root_page"
proof -
  have md: "length svector_metadata = m_storage_metadata_len fake_rp" by (simp add: fake_rp_members)
  obtain pg where pg: "RootPage_format fake_api 1 svector_metadata fake_rp (segment_root fake_api 1) = Some (fake_rp, pg)"
    "\<forall>i<version_off fake_rp. get_data fake_api pg i = get_data fake_api (segment_root fake_api 1) i"
    "unat (read_integer_1 fake_api pg (storage_metadata_len_off fake_rp)) = m_storage_metadata_len fake_rp"
    "unat (read_integer_1 fake_api pg (num_other_root_pages_off fake_rp)) = m_num_other_root_pages fake_rp"
    using fake_root.RootPage_format_page [OF fake_segment_root_blank md, of 1] by blast
  then have eq: "pg = fake_root_page" using fake_root_page_format by simp
  have seg: "fake_rp\<lparr>m_num_segments := unat (read_integer_1 fake_api (segment_root fake_api 1) HEADER_SIZE)\<rparr> = fake_rp"
    using fake.segment_root_count [of 1] fake_rp_members(2) by (simp add: fake.read_1_byte)
  have ok: "\<not> (m_column_size fake_rp = 0 \<or> m_max_free_slots fake_rp = 0 \<or> 255 < length svector_metadata)"
    using fake_root.root_ok md by (simp add: root_ok_def)
  have cnt: "get_data fake_api (segment_root fake_api (Suc 0)) 38 = 1" using fake.segment_root_count [of 1] by (simp add: HEADER_SIZE_def)
  have "read_integer_1 fake_api fake_root_page (page_type_off fake_rp) = ROOT_PAGE_TYPE"
    unfolding fake_root_page_def RootPage_format_def if_not_P [OF ok] seg Let_def
    by (simp add: RootPage_clear_slots_def NUM_FREE_SLOTS_INITIAL_def fake_rp_members fake.read_1_byte fake.data_writes overwrite_out overwrite_in cnt
        free_slot_off_def root_offs layout_defs fake.data_write_byte)
  then show ?thesis
    using pg(2-4) fake.segment_root_count [of 1] fake_rp_members(2) by (simp add: root_header_def eq fake.read_1_byte root_offs layout_defs)
qed

theorem root_dump_agrees_witness:
  "\<exists>info. RootPageParser_parse (page_image fake_api fake_root_page) = Inr info \<and> ri_storage_metadata_raw info = RootPage_read_metadata fake_api fake_rp fake_root_page
    \<and> ri_total_data_pages info = 0 \<and> ri_all_slot_head info = NULL_FREE_PAGE_REF"
proof -
  have "pages fake_s0 1 = Some fake_root_page" by (simp add: fake_s0_def)
  from root_dump_agrees [OF fake_root.root_layout_axioms fake_root_header fake_s0_facts(1) this] show ?thesis by auto
qed

subsection \<open>The dump of a store\<close>

text \<open>A page of a store that the reader finds in its file.\<close>

definition page_on_file :: "'p page_api \<Rightarrow> data_page \<Rightarrow> page_reader \<Rightarrow> (page_ref \<Rightarrow> 'p option) \<Rightarrow> page_ref \<Rightarrow> bool" where
  "page_on_file P dp reader m x \<longleftrightarrow> (\<exists>p. m x = Some p \<and> data_page_inv P dp p \<and> read_integer_1 P p PAGE_TYPE_OFF = DATA_PAGE_TYPE \<and> PageReader_read_page reader x = Inr (page_image P p))"

lemma dump_chain:
  assumes lay: "data_layout P (get_size P) dp" "m_free_bitmap_size dp = bitmap_bytes (m_max_num_recs dp)" "m_rec_size dp = 8 + c" "column_fits kind ls c"
  shows "chain (\<lambda>r. read_next_link P (the (m r))) (\<lambda>r. read_prev_link P (the (m r))) INVALID_REF prev xs h \<Longrightarrow> length xs < k \<Longrightarrow> (\<And>x. x \<in> set xs \<Longrightarrow> page_on_file P dp reader m x) \<Longrightarrow>
    \<exists>infos. dump_pages reader c kind (has_lower_level (ls_level ls)) k h = Inr (infos, End_Of_List) \<and> map fst infos = xs
      \<and> (\<forall>(x, info)\<in>set infos. list_all2 (reported kind ls) (map (slot_at P dp (the (m x))) [0..<m_max_num_recs dp]) (di_records info))"
proof (induction xs arbitrary: prev h k)
  case Nil
  then show ?case by (cases k) (simp_all add: NULL_FREE_PAGE_REF_def)
next
  case (Cons x xs)
  then obtain k' where k: "k = Suc k'" "length xs < k'" by (cases k) auto
  have h: "h = x" "x \<noteq> INVALID_REF" "chain (\<lambda>r. read_next_link P (the (m r))) (\<lambda>r. read_prev_link P (the (m r))) INVALID_REF x xs (read_next_link P (the (m x)))"
    using Cons.prems(1) by simp_all
  obtain p where p: "m x = Some p" "data_page_inv P dp p" "read_integer_1 P p PAGE_TYPE_OFF = DATA_PAGE_TYPE" "PageReader_read_page reader x = Inr (page_image P p)"
    using Cons.prems(3) [of x] by (auto simp: page_on_file_def)
  obtain info where info: "DataPageParser_parse (page_image P p) c kind (has_lower_level (ls_level ls)) = Inr info"
      "list_all2 (reported kind ls) (map (slot_at P dp p) [0..<m_max_num_recs dp]) (di_records info)"
    using page_dump_ok [OF lay p(2,3)] by blast
  have "column_fits Record_None (ls\<lparr>ls_level := 0\<rparr>) c" by (simp add: column_fits_def)
  from page_dump_ok [OF lay(1-3) this p(2,3)] obtain plain where plain: "DataPageParser_parse (page_image P p) c Record_None False = Inr plain" "di_fil_page_next plain = read_next_link P p"
    by (auto simp: has_lower_level_def)
  obtain infos where i: "dump_pages reader c kind (has_lower_level (ls_level ls)) k' (read_next_link P p) = Inr (infos, End_Of_List)" "map fst infos = xs"
    "\<forall>(x, info)\<in>set infos. list_all2 (reported kind ls) (map (slot_at P dp (the (m x))) [0..<m_max_num_recs dp]) (di_records info)"
    using Cons.IH [OF h(3) k(2)] Cons.prems(3) p(1) by auto
  have "dump_pages reader c kind (has_lower_level (ls_level ls)) k h = Inr ((x, info) # infos, End_Of_List)"
    using h(2) by (simp add: k(1) h(1) show_data_page_def p(4) info(1) plain i(1) NULL_FREE_PAGE_REF_def)
  then show ?case using i(2,3) info(2) p(1) by auto
qed

text \<open>
  C32: The dump of all pages shows the whole store. For a store with fewer than 100 data pages, all of them in the file, the loop over the pages starts at the head that the
  dump of the root page reports, shows every data page once and in the order of the list, with records that are the slots of the page, and ends at the end of the list.
\<close>

theorem store_dump_complete:
  assumes lay: "root_layout P rp" "data_layout P (get_size P) dp" "m_free_bitmap_size dp = bitmap_bytes (m_max_num_recs dp)" "m_rec_size dp = 8 + c" "column_fits kind ls c"
    and root: "root_header P rp pg" "root_lists P rp m root fl dl" "m root = Some pg" "PageReader_read_page reader root = Inr (page_image P pg)"
    and on_file: "\<And>x. x \<in> set dl \<Longrightarrow> page_on_file P dp reader m x" and n: "length dl < MAX_DUMP_PAGES"
  shows "\<exists>root_page info infos. PageReader_read_page reader root = Inr root_page \<and> RootPageParser_parse root_page = Inr info
    \<and> dump_pages reader c kind (has_lower_level (ls_level ls)) MAX_DUMP_PAGES (ri_all_slot_head info) = Inr (infos, End_Of_List) \<and> map fst infos = dl
    \<and> (\<forall>(x, pinfo)\<in>set infos. list_all2 (reported kind ls) (map (slot_at P dp (the (m x))) [0..<m_max_num_recs dp]) (di_records pinfo))"
proof -
  obtain info where info: "RootPageParser_parse (page_image P pg) = Inr info" "ri_all_slot_head info = (if dl = [] then NULL_FREE_PAGE_REF else hd dl)"
    using root_dump_ok [OF lay(1) root(1-3)] by blast
  have ch: "chain (\<lambda>r. read_next_link P (the (m r))) (\<lambda>r. read_prev_link P (the (m r))) INVALID_REF INVALID_REF dl (ri_all_slot_head info)"
    using root(2) unfolding root_lists_def data_list_def info(2) by (cases dl) (auto simp: NULL_FREE_PAGE_REF_def)
  from dump_chain [OF lay(2-5) ch n on_file] root(4) info(1) show ?thesis by auto
qed

text \<open>A store of one data page on a file: page 1 is the root page, page 2 the data page.\<close>

definition dump_pages_map :: "page_ref \<Rightarrow> buffer option" where
  "dump_pages_map = add_data_page_pages fake_api fake_rp 1 2 (pages fake_s0)"

definition dump_file :: page_reader where
  "dump_file = Some (replicate 16384 0 @ page_image fake_api (the (dump_pages_map 1)) @ page_image fake_api (the (dump_pages_map 2)))"

lemma data_page_inv_cong:
  assumes "data_layout P page_size dp" "\<And>k. HEADER_SIZE \<le> k \<Longrightarrow> get_data P pg k = get_data P pg' k"
  shows "data_page_inv P dp pg = data_page_inv P dp pg'"
proof -
  note P = data_layout.axioms(1) [OF assms(1)]
  have rd: "read_integer_2 P pg off = read_integer_2 P pg' off" if "HEADER_SIZE \<le> off" for off
    using that assms(2) by (simp add: page_api.read_2 [OF P] be_read_def slice_cong [of off 2 "get_data P pg" "get_data P pg'"])
  have "slot_at P dp pg i = slot_at P dp pg' i" if "i < m_max_num_recs dp" for i
  proof (rule data_layout.slot_at_cong [OF assms(1)])
    show "DataPage_get_record_status P pg i = DataPage_get_record_status P pg' i"
      using assms(2) by (simp add: page_api.get_record_status_bits [OF P] bitmap_byte_offset_div layout_defs)
    show "get_data P pg (DataPage_get_record_offset dp i + k) = get_data P pg' (DataPage_get_record_offset dp i + k)" for k
      using data_layout.rec_offset(1) [OF assms(1) that] data_layout.header_before_records [OF assms(1)] by (intro assms(2)) (simp add: layout_defs)
  qed
  then have "count_below (m_max_num_recs dp) (\<lambda>i. slot_at P dp pg i = Free) = count_below (m_max_num_recs dp) (\<lambda>i. slot_at P dp pg' i = Free)"
    by (intro count_below_cong) simp
  then show ?thesis using rd by (simp add: data_page_inv_def layout_defs)
qed

lemma dump_file_facts:
  "root_lists fake_api fake_rp dump_pages_map 1 (\<lambda>_. []) [2]" "root_header fake_api fake_rp (the (dump_pages_map 1))" "dump_pages_map 1 = Some (the (dump_pages_map 1))"
  "PageReader_read_page dump_file 1 = Inr (page_image fake_api (the (dump_pages_map 1)))" "page_on_file fake_api (DataPage_init 16384 16) dump_file dump_pages_map 2"
proof -
  have pg: "pages fake_s0 1 = Some fake_root_page" "pages fake_s0 2 = Some fake16_page" by (simp_all add: fake_s0_def)
  show "root_lists fake_api fake_rp dump_pages_map 1 (\<lambda>_. []) [2]"
    unfolding dump_pages_map_def using fake_s0_facts by (intro fake_root.add_data_page_root_lists) simp_all
  have len: "length (page_image fake_api p) = 16384" for p by (simp add: page_image_def fake_api_def kPageSize_def)
  show "PageReader_read_page dump_file 1 = Inr (page_image fake_api (the (dump_pages_map 1)))"
    by (simp add: PageReader_read_page_def dump_file_def DEFAULT_PAGE_SIZE_def len)
  have r2: "PageReader_read_page dump_file 2 = Inr (page_image fake_api (the (dump_pages_map 2)))"
    by (simp add: PageReader_read_page_def dump_file_def DEFAULT_PAGE_SIZE_def len)
  show "dump_pages_map 1 = Some (the (dump_pages_map 1))" by (simp add: dump_pages_map_def add_data_page_pages_def Let_def)
  show "root_header fake_api fake_rp (the (dump_pages_map 1))"
    using fake_root_header by (simp add: dump_pages_map_def add_data_page_pages_def Let_def pg root_header_def fake.read_1_byte fake.data_writes overwrite_out root_offs layout_defs)
  obtain h where two: "dump_pages_map 2 = Some (write_links fake_api INVALID_REF h fake16_page)"
    by (simp add: dump_pages_map_def add_data_page_pages_def Let_def pg)
  have same: "get_data fake_api (write_links fake_api INVALID_REF h fake16_page) k = get_data fake_api fake16_page k" if "HEADER_SIZE \<le> k" for k
    using that by (simp add: write_links_def fake.data_writes overwrite_out layout_defs)
  have "read_integer_1 fake_api fake16_page PAGE_TYPE_OFF = DATA_PAGE_TYPE"
    by (simp add: fake16_page_def DataPage_format_def Let_def fake.read_frames layout_defs)
  then have "read_integer_1 fake_api (write_links fake_api INVALID_REF h fake16_page) PAGE_TYPE_OFF = DATA_PAGE_TYPE"
    using same [of PAGE_TYPE_OFF] by (simp add: fake.read_1_byte layout_defs)
  moreover have "data_page_inv fake_api (DataPage_init 16384 16) (write_links fake_api INVALID_REF h fake16_page)"
    using data_page_inv_cong [OF fake16.data_layout_axioms same] fake16_page_facts(1) by simp
  ultimately show "page_on_file fake_api (DataPage_init 16384 16) dump_file dump_pages_map 2" using r2 two by (simp add: page_on_file_def)
qed

theorem store_dump_complete_witness:
  "\<exists>root_page info infos. PageReader_read_page dump_file 1 = Inr root_page \<and> RootPageParser_parse root_page = Inr info
    \<and> dump_pages dump_file 16 Record_None False MAX_DUMP_PAGES (ri_all_slot_head info) = Inr (infos, End_Of_List) \<and> map fst infos = [2]"
proof -
  have dp: "m_free_bitmap_size (DataPage_init 16384 16) = bitmap_bytes (m_max_num_recs (DataPage_init 16384 16))" "m_rec_size (DataPage_init 16384 16) = 8 + 16"
    by (simp_all add: DataPage_init_def Let_def layout_defs refine_max_recs.simps bits_to_bytes_ceil_def MAX_ITERATIONS_def MAX_SLOT_INDEX_def SLOT_INDEX_BITS_def bitmap_bytes_def)
  have "data_layout fake_api (get_size fake_api) (DataPage_init 16384 16)" using fake16.data_layout_axioms by (simp add: fake_api_def kPageSize_def)
  from store_dump_complete [OF fake_root.root_layout_axioms this dp _ dump_file_facts(2,1,3,4), of Record_None level0] dump_file_facts(5)
  show ?thesis by (auto simp: column_fits_def has_lower_level_def MAX_DUMP_PAGES_def)
qed

end
