(* ===== verification/Graph_Dump.thy ===== *)
theory Graph_Dump
  imports Page_Dump
begin

text \<open>
  The graph dump of the tool (\<^verbatim>\<open>src/storage/tools/hnsw_graph.cc\<close>): from the entry point of an index it walks every level along the outgoing links, breadth first
  in the list style and depth first in the tree style, and prints a line for every node, up to a number of nodes. The text is modelled character by character; the
  list style has its lines as values first.
\<close>

unbundle bit_operations_syntax

subsection \<open>Nodes\<close>

definition level_max_neighbours :: "nat \<Rightarrow> nat \<Rightarrow> nat" where
  "level_max_neighbours level M = (if level = 0 then u32 (2 * M) else M)"

definition line_end :: string where "line_end = [CHR 0x0A]"
definition BULLET :: string where "BULLET = [CHR 0xE2, CHR 0x80, CHR 0xA2]"

definition ref_label :: "64 word \<Rightarrow> string" where
  "ref_label ref_value = (case hnsw_decode_ref ref_value of (page_ref, slot_index) \<Rightarrow> decimal (unat page_ref) @ '':'' @ decimal slot_index)"

definition node_label :: "64 word \<Rightarrow> string" where "node_label nid_ref = BULLET @ ref_label nid_ref"

text \<open>The record of a node, or what is printed behind its label when it cannot be read.\<close>

definition fetch_record :: "page_reader \<Rightarrow> 64 word \<Rightarrow> nat \<Rightarrow> nat \<Rightarrow> (string + record_status) tool_result" where
  "fetch_record reader nid_ref level M =
     (case hnsw_decode_ref nid_ref of (page_ref, slot_index) \<Rightarrow>
      let has_lower = level > 0; column_size = hnsw_neighbour_column_size (level_max_neighbours level M) has_lower in
      case PageReader_read_page reader page_ref of
        Inl error \<Rightarrow> Inr (Inl (''  (error reading page '' @ decimal (unat page_ref) @ '': '' @ error @ '')'' @ line_end))
      | Inr page_data \<Rightarrow>
          (case DataPageParser_parse page_data column_size Record_Neighbour has_lower of
             Inl Out_Of_Bounds \<Rightarrow> Inl Out_Of_Bounds
           | Inl (Tool_Message error) \<Rightarrow> Inr (Inl (''  (error decoding page '' @ decimal (unat page_ref) @ '': '' @ error @ '')'' @ line_end))
           | Inr info \<Rightarrow>
               if slot_index \<ge> length (di_records info) \<or> rs_is_free (di_records info ! slot_index)
               then Inr (Inl (''  (slot '' @ decimal slot_index @ '' on page '' @ decimal (unat page_ref) @ '' is not a live record)'' @ line_end))
               else Inr (Inr (di_records info ! slot_index))))"

text \<open>The outgoing links of a record, in the order of its slots.\<close>

definition forward_links :: "record_status \<Rightarrow> (64 word \<times> 64 word) list" where
  "forward_links rec = map (\<lambda>(nid, vid). (nid AND HNSW_NID_REF_MASK, vid))
     (filter (\<lambda>(nid, _). \<not> (nid = 0 \<or> nid AND HNSW_NID_INCOMING_BIT \<noteq> 0)) (rs_neighbours rec))"

definition lower_link :: "nat \<Rightarrow> record_status \<Rightarrow> 64 word option" where
  "lower_link level rec = (if level > 0 \<and> rs_lower_level_nid rec \<noteq> 0 then Some (rs_lower_level_nid rec AND HNSW_NID_REF_MASK) else None)"

subsection \<open>The list style\<close>

datatype list_line =
    Line_Truncated (line_ref: "64 word")
  | Line_Failed (line_ref: "64 word") string
  | Line_Node (line_ref: "64 word") "64 word" "(64 word \<times> 64 word) list"

fun commas_between :: "string list \<Rightarrow> string" where
  "commas_between [] = []"
| "commas_between [s] = s"
| "commas_between (s # ss) = s @ '', '' @ commas_between ss"

definition render_line :: "list_line \<Rightarrow> string" where
  "render_line line =
     (case line of
        Line_Truncated nid_ref \<Rightarrow> node_label nid_ref @ ''  (truncated)'' @ line_end
      | Line_Failed nid_ref failure \<Rightarrow> node_label nid_ref @ failure
      | Line_Node nid_ref owner links \<Rightarrow> node_label nid_ref @ ''('' @ ref_label owner @ '') -> [''
          @ commas_between (map (\<lambda>(nref, vid). ref_label nref @ ''('' @ ref_label vid @ '')'') links) @ ''] degree='' @ decimal (length links) @ line_end)"

text \<open>Enters the nodes that are new into the set of visited ones; the second component are these, in order.\<close>

fun visit_new :: "64 word set \<Rightarrow> 64 word list \<Rightarrow> 64 word set \<times> 64 word list" where
  "visit_new visited [] = (visited, [])"
| "visit_new visited (x # xs) =
     (if x \<in> visited then visit_new visited xs
      else (case visit_new (insert x visited) xs of (visited', added) \<Rightarrow> (visited', x # added)))"

text \<open>
  The queue from the current index on is \<open>todo\<close>, \<open>first\<close> says that the index is 0. The result are the lines, the budget that is left, and the link of the entry
  node to the level below. The source also counts the nodes it has shown, and never reads the count.
\<close>

function level_walk :: "page_reader \<Rightarrow> nat \<Rightarrow> nat \<Rightarrow> bool \<Rightarrow> 64 word list \<Rightarrow> 64 word set \<Rightarrow> nat \<Rightarrow> (list_line list \<times> nat \<times> 64 word option) tool_result" where
  "level_walk reader level M first [] visited budget = Inr ([], budget, None)"
| "level_walk reader level M first (nid_ref # todo) visited budget =
     (if budget = 0 then
        tbind (level_walk reader level M False todo visited 0) (\<lambda>(lines, budget', lower). Inr (Line_Truncated nid_ref # lines, budget', lower))
      else
        tbind (fetch_record reader nid_ref level M) (\<lambda>r. case r of
            Inl failure \<Rightarrow>
              tbind (level_walk reader level M False todo visited (budget - 1)) (\<lambda>(lines, budget', lower). Inr (Line_Failed nid_ref failure # lines, budget', lower))
          | Inr rec \<Rightarrow>
              let links = forward_links rec; (visited', added) = visit_new visited (map fst links) in
              tbind (level_walk reader level M False (todo @ added) visited' (budget - 1)) (\<lambda>(lines, budget', lower).
              Inr (Line_Node nid_ref (rs_owner_vid rec) links # lines, budget', if first \<and> lower_link level rec \<noteq> None then lower_link level rec else lower))))"
  by pat_completeness auto
termination
  by (relation "measures [\<lambda>(_, _, _, _, _, _, budget). budget, \<lambda>(_, _, _, _, todo, _, _). length todo]") auto

definition print_level_list :: "page_reader \<Rightarrow> nat \<Rightarrow> nat \<Rightarrow> 64 word \<Rightarrow> nat \<Rightarrow> (string \<times> nat \<times> 64 word option) tool_result" where
  "print_level_list reader level M entry_ref budget =
     tbind (level_walk reader level M True [entry_ref] {entry_ref} budget) (\<lambda>(lines, budget', lower). Inr (concat (map render_line lines), budget', lower))"

subsection \<open>The tree style\<close>

definition TREE_LAST :: string where "TREE_LAST = [CHR 0xE2, CHR 0x94, CHR 0x94, CHR 0xE2, CHR 0x94, CHR 0x80, CHR 0x20]"
definition TREE_BRANCH :: string where "TREE_BRANCH = [CHR 0xE2, CHR 0x94, CHR 0x9C, CHR 0xE2, CHR 0x94, CHR 0x80, CHR 0x20]"
definition TREE_BAR :: string where "TREE_BAR = [CHR 0xE2, CHR 0x94, CHR 0x82, CHR 0x20, CHR 0x20]"

record tree_call =
  tc_nid_ref :: "64 word"
  tc_prefix :: string
  tc_is_root :: bool
  tc_is_last :: bool

definition child_calls :: "string \<Rightarrow> 64 word list \<Rightarrow> tree_call list" where
  "child_calls child_prefix children =
     map (\<lambda>i. \<lparr>tc_nid_ref = children ! i, tc_prefix = child_prefix, tc_is_root = False, tc_is_last = (i + 1 = length children)\<rparr>) [0..<length children]"

text \<open>
  \<^verbatim>\<open>print_node\<close> prints its node and calls itself for the children in order, passing the set of visited nodes and the budget through; the pending calls are the list
  here, those of the children in front of those that were pending.
\<close>

function tree_walk :: "page_reader \<Rightarrow> nat \<Rightarrow> nat \<Rightarrow> bool \<Rightarrow> tree_call list \<Rightarrow> 64 word set \<Rightarrow> nat \<Rightarrow> (string \<times> nat \<times> 64 word option) tool_result" where
  "tree_walk reader level M verbose [] visited budget = Inr ([], budget, None)"
| "tree_walk reader level M verbose (call # pending) visited budget =
     (let nid_ref = tc_nid_ref call; lab = node_label nid_ref;
          line_prefix = (if tc_is_root call then tc_prefix call else tc_prefix call @ (if tc_is_last call then TREE_LAST else TREE_BRANCH)) in
      if nid_ref \<in> visited then
        tbind (tree_walk reader level M verbose pending visited budget) (\<lambda>(out, budget', lower). Inr (line_prefix @ lab @ ''  ...'' @ line_end @ out, budget', lower))
      else if budget = 0 then
        tbind (tree_walk reader level M verbose pending visited budget) (\<lambda>(out, budget', lower). Inr (line_prefix @ lab @ ''  (truncated)'' @ line_end @ out, budget', lower))
      else
        tbind (fetch_record reader nid_ref level M) (\<lambda>r. case r of
            Inl failure \<Rightarrow>
              tbind (tree_walk reader level M verbose pending (insert nid_ref visited) (budget - 1)) (\<lambda>(out, budget', lower).
              Inr (line_prefix @ lab @ failure @ out, budget', lower))
          | Inr rec \<Rightarrow>
              let children = map fst (forward_links rec);
                  child_prefix = (if tc_is_root call then tc_prefix call else tc_prefix call @ (if tc_is_last call then ''   '' else TREE_BAR)) in
              tbind (tree_walk reader level M verbose (child_calls child_prefix children @ pending) (insert nid_ref visited) (budget - 1)) (\<lambda>(out, budget', lower).
              Inr (line_prefix @ lab @ (if verbose then ''('' @ ref_label (rs_owner_vid rec) @ '')'' else []) @ line_end @ out, budget',
                if tc_is_root call \<and> lower_link level rec \<noteq> None then lower_link level rec else lower))))"
  by pat_completeness auto
termination
  by (relation "measures [\<lambda>(_, _, _, _, _, _, budget). budget, \<lambda>(_, _, _, _, pending, _, _). length pending]") auto

subsection \<open>All levels\<close>

datatype graph_style = Style_Tree | Style_List

definition print_level :: "page_reader \<Rightarrow> nat \<Rightarrow> nat \<Rightarrow> bool \<Rightarrow> graph_style \<Rightarrow> 64 word \<Rightarrow> nat \<Rightarrow> (string \<times> nat \<times> 64 word option) tool_result" where
  "print_level reader level M verbose style entry_ref budget =
     (case style of
        Style_Tree \<Rightarrow> tree_walk reader level M verbose [\<lparr>tc_nid_ref = entry_ref, tc_prefix = [], tc_is_root = True, tc_is_last = True\<rparr>] {} budget
      | Style_List \<Rightarrow> print_level_list reader level M entry_ref budget)"

primrec render_levels :: "page_reader \<Rightarrow> nat \<Rightarrow> bool \<Rightarrow> graph_style \<Rightarrow> nat \<Rightarrow> nat \<Rightarrow> nat \<Rightarrow> 64 word \<Rightarrow> nat \<Rightarrow> string tool_result" where
  "render_levels reader M verbose style max_nodes entry_level 0 entry_ref budget =
     tbind (print_level reader 0 M verbose style entry_ref budget) (\<lambda>(out, _, _).
     Inr (''Level 0'' @ (if 0 = entry_level then '' (entry)'' else []) @ line_end @ out @ line_end))"
| "render_levels reader M verbose style max_nodes entry_level (Suc l) entry_ref budget =
     tbind (print_level reader (Suc l) M verbose style entry_ref budget) (\<lambda>(out, budget', lower).
     let shown = ''Level '' @ decimal (Suc l) @ (if Suc l = entry_level then '' (entry)'' else []) @ line_end @ out @ line_end in
     if budget' = 0 then Inr (shown @ ''... graph truncated after '' @ decimal max_nodes @ '' nodes; rerun with a higher --max-nodes to see more'' @ line_end)
     else
       (case lower of None \<Rightarrow> Inr (shown @ ''(entry node has no lower-level link; stopping)'' @ line_end)
        | Some lower_ref \<Rightarrow> tbind (render_levels reader M verbose style max_nodes entry_level l lower_ref budget') (\<lambda>rest. Inr (shown @ rest))))"

definition render_hnsw_graph :: "page_reader \<Rightarrow> hnsw_index_metadata \<Rightarrow> nat \<Rightarrow> nat \<Rightarrow> bool \<Rightarrow> graph_style \<Rightarrow> string tool_result" where
  "render_hnsw_graph reader index_meta level0_column_size max_nodes verbose style =
     (if HnswIndexMetadata_is_overflow index_meta \<or> hm_level index_meta \<noteq> 0 then
        Inr (''--graph requires the level-0 primary NeighbourEntry store's root page (its metadata carries the graph's entry point); this root page is ''
          @ (if HnswIndexMetadata_is_overflow index_meta then ''an overflow store'' else ''level '')
          @ (if HnswIndexMetadata_is_overflow index_meta then [] else decimal (hm_level index_meta)) @ ''.'' @ line_end)
      else if hm_entry_points index_meta = [] \<or> hd (hm_entry_points index_meta) = 0 then Inr (''Graph is empty (no entry point set).'' @ line_end)
      else
        let max_n0 = hnsw_max_neighbours level0_column_size False in
        if max_n0 = 0 \<or> max_n0 mod 2 \<noteq> 0 then
          Inr (''Could not infer M from level-0 column size ('' @ decimal level0_column_size
            @ '' bytes); refusing to guess a possibly wrong record layout for other levels.'' @ line_end)
        else
          let M = max_n0 div 2; entry_ref = hd (hm_entry_points index_meta) AND HNSW_NID_REF_MASK in
          tbind (render_levels reader M verbose style max_nodes (hm_entry_level index_meta) (hm_entry_level index_meta) entry_ref max_nodes) (\<lambda>levels.
          Inr (''HNSW Graph (M='' @ decimal M @ '', entry level '' @ decimal (hm_entry_level index_meta) @ '', showing up to '' @ decimal max_nodes @ '' nodes)''
            @ line_end @ line_end @ levels)))"

subsection \<open>What the list shows\<close>

definition links_to :: "page_reader \<Rightarrow> nat \<Rightarrow> nat \<Rightarrow> 64 word \<Rightarrow> 64 word \<Rightarrow> bool" where
  "links_to reader level M x y \<longleftrightarrow> (\<exists>rec. fetch_record reader x level M = Inr (Inr rec) \<and> y \<in> fst ` set (forward_links rec))"

lemma visit_new_spec: "visit_new vis xs = (vis', added) \<Longrightarrow> vis' = vis \<union> set xs \<and> set added = set xs - vis \<and> distinct added"
  by (induction vis xs arbitrary: vis' added rule: visit_new.induct) (auto split: if_splits prod.splits)

text \<open>What a walk from a queue delivers: \<open>old\<close> are the nodes that have left the queue.\<close>

definition list_walked :: "page_reader \<Rightarrow> nat \<Rightarrow> nat \<Rightarrow> 64 word set \<Rightarrow> 64 word set \<Rightarrow> nat \<Rightarrow> list_line list \<Rightarrow> nat \<Rightarrow> bool" where
  "list_walked reader level M todo old budget ls b \<longleftrightarrow> distinct (map line_ref ls) \<and> todo \<subseteq> line_ref ` set ls \<and> line_ref ` set ls \<inter> old = {}
     \<and> (\<forall>x\<in>line_ref ` set ls. \<exists>v\<in>todo. (links_to reader level M)\<^sup>*\<^sup>* v x)
     \<and> length (filter (\<lambda>l. \<not> is_Line_Truncated l) ls) + b = budget \<and> ((\<exists>l\<in>set ls. is_Line_Truncated l) \<longrightarrow> b = 0)
     \<and> (\<forall>l\<in>set ls. \<not> is_Line_Truncated l \<longrightarrow> (\<forall>y. links_to reader level M (line_ref l) y \<longrightarrow> y \<in> line_ref ` set ls \<union> old))"

text \<open>One more line in front, for a node that was at the head of the queue.\<close>

lemma list_walked_Cons:
  assumes w: "list_walked reader level M todo' (insert n old) budget ls b" and n: "line_ref l = n" "n \<notin> old"
    and todo: "todo \<subseteq> todo'" "\<forall>y\<in>todo'. y \<in> todo \<or> links_to reader level M n y"
    and links: "is_Line_Truncated l \<or> (\<forall>y. links_to reader level M n y \<longrightarrow> y \<in> todo' \<union> insert n old)"
    and budget: "if is_Line_Truncated l then budget' = 0 \<and> budget = 0 else budget' = Suc budget"
  shows "list_walked reader level M (insert n todo) old budget' (l # ls) b"
proof -
  note W = w [unfolded list_walked_def]
  have reach: "\<exists>v\<in>insert n todo. (links_to reader level M)\<^sup>*\<^sup>* v x" if "x \<in> line_ref ` set ls" for x
  proof -
    obtain v where v: "v \<in> todo'" "(links_to reader level M)\<^sup>*\<^sup>* v x" using W \<open>x \<in> _\<close> by blast
    with todo(2) have "v \<in> todo \<or> links_to reader level M n v" by blast
    then show ?thesis using v(2) converse_rtranclp_into_rtranclp [of "links_to reader level M" n v x] by blast
  qed
  have "b = 0" if "is_Line_Truncated l" using W budget that by simp
  moreover have "line_ref ` set (l # ls) \<inter> old = {}" "distinct (map line_ref (l # ls))" "insert n todo \<subseteq> line_ref ` set (l # ls)" using W n todo(1) by auto
  moreover have "length (filter (\<lambda>l. \<not> is_Line_Truncated l) (l # ls)) + b = budget'" using W budget by (auto split: if_splits)
  moreover have "y \<in> line_ref ` set (l # ls) \<union> old" if "k \<in> set (l # ls)" "\<not> is_Line_Truncated k" "links_to reader level M (line_ref k) y" for k y
  proof (cases "k = l")
    case True
    then have "y \<in> todo' \<union> insert n old" using links that n(1) by auto
    then show ?thesis using W n(1) by auto
  next
    case False
    then have "k \<in> set ls" using that(1) by simp
    then have "y \<in> line_ref ` set ls \<union> insert n old" using W that(2,3) by blast
    then show ?thesis using n(1) by auto
  qed
  moreover have "\<exists>v\<in>insert n todo. (links_to reader level M)\<^sup>*\<^sup>* v x" if "x \<in> line_ref ` set (l # ls)" for x
    using that reach n(1) by auto
  ultimately show ?thesis using W unfolding list_walked_def by (auto simp del: insert_subset)
qed

lemma walk_delivers:
  "level_walk reader level M first todo vis budget = Inr (ls, b, lo) \<Longrightarrow> distinct todo \<Longrightarrow> set todo \<subseteq> vis \<Longrightarrow>
   list_walked reader level M (set todo) (vis - set todo) budget ls b"
proof (induction reader level M first todo vis budget arbitrary: ls b lo rule: level_walk.induct)
  case (1 reader level M first vis budget)
  then show ?case by (simp add: list_walked_def)
next
  case (2 reader level M first n todo vis budget)
  have old: "vis - set todo = insert n (vis - set (n # todo))" and nn: "n \<notin> vis - set (n # todo)" using 2(5,6) by auto
  have d: "distinct todo" "set todo \<subseteq> vis" using 2(5,6) by auto
  show ?case
  proof (cases "budget = 0")
    case True
    with 2(4) obtain ls' lo' where r: "level_walk reader level M False todo vis 0 = Inr (ls', b, lo')" "ls = Line_Truncated n # ls'"
      by (cases "level_walk reader level M False todo vis 0") auto
    have "list_walked reader level M (set todo) (insert n (vis - set (n # todo))) 0 ls' b" using 2(1) [OF True r(1) d] unfolding old .
    then have "list_walked reader level M (insert n (set todo)) (vis - set (n # todo)) budget (Line_Truncated n # ls') b"
      by (rule list_walked_Cons) (use nn True in simp_all)
    then show ?thesis by (simp add: r(2))
  next
    case False
    with 2(4) obtain r where f: "fetch_record reader n level M = Inr r" by (cases "fetch_record reader n level M") auto
    show ?thesis
    proof (cases r)
      case (Inl failure)
      with 2(4) False f obtain ls' lo' where w: "level_walk reader level M False todo vis (budget - 1) = Inr (ls', b, lo')" "ls = Line_Failed n failure # ls'"
        by (cases "level_walk reader level M False todo vis (budget - 1)") auto
      have none: "\<not> links_to reader level M n y" for y using f Inl by (simp add: links_to_def)
      have "list_walked reader level M (set todo) (insert n (vis - set (n # todo))) (budget - 1) ls' b" using 2(2) [OF False w(1) d] unfolding old .
      then have "list_walked reader level M (insert n (set todo)) (vis - set (n # todo)) budget (Line_Failed n failure # ls') b"
        by (rule list_walked_Cons) (use nn False none in simp_all)
      then show ?thesis by (simp add: w(2))
    next
      case (Inr rec)
      obtain vis' added where v: "visit_new vis (map fst (forward_links rec)) = (vis', added)" by fastforce
      note vs = visit_new_spec [OF v]
      from 2(4) False f Inr v obtain ls' lo' where w: "level_walk reader level M False (todo @ added) vis' (budget - 1) = Inr (ls', b, lo')"
        "ls = Line_Node n (rs_owner_vid rec) (forward_links rec) # ls'"
        by (cases "level_walk reader level M False (todo @ added) vis' (budget - 1)") (auto simp: Let_def)
      have lk: "links_to reader level M n y \<longleftrightarrow> y \<in> set (map fst (forward_links rec))" for y using f Inr by (simp add: links_to_def)
      have "vis' - set (todo @ added) = insert n (vis - set (n # todo))" using vs old 2(6) by auto
      moreover have "list_walked reader level M (set (todo @ added)) (vis' - set (todo @ added)) (budget - 1) ls' b"
        by (rule 2(3) [OF False refl v [symmetric] refl w(1)]) (use vs d in auto)
      ultimately have "list_walked reader level M (set (todo @ added)) (insert n (vis - set (n # todo))) (budget - 1) ls' b" by simp
      then have "list_walked reader level M (insert n (set todo)) (vis - set (n # todo)) budget (Line_Node n (rs_owner_vid rec) (forward_links rec) # ls') b"
        by (rule list_walked_Cons) (use nn False vs lk 2(6) in auto)
      then show ?thesis by (simp add: w(2))
    qed
  qed
qed

lemma walk_total:
  "(\<And>v x. v \<in> set todo \<Longrightarrow> (links_to reader level M)\<^sup>*\<^sup>* v x \<Longrightarrow> \<exists>r. fetch_record reader x level M = Inr r) \<Longrightarrow>
   \<exists>ls b lo. level_walk reader level M first todo vis budget = Inr (ls, b, lo)"
proof (induction reader level M first todo vis budget rule: level_walk.induct)
  case (2 reader level M first n todo vis budget)
  have rest: "\<exists>ls b lo. level_walk reader level M False todo vis k = Inr (ls, b, lo)" if "k = 0 \<and> budget = 0 \<or> k = budget - 1 \<and> budget \<noteq> 0" for k
    using that 2(1) 2(2) 2(4) by (elim disjE conjE) (metis list.set_intros(2))+
  show ?case
  proof (cases "budget = 0")
    case True
    then show ?thesis using rest [of 0] by auto
  next
    case False
    obtain r where f: "fetch_record reader n level M = Inr r" using 2(4) [of n n] by auto
    show ?thesis
    proof (cases r)
      case (Inl failure)
      then show ?thesis using False f rest [of "budget - 1"] by auto
    next
      case (Inr rec)
      obtain vis' added where v: "visit_new vis (map fst (forward_links rec)) = (vis', added)" by fastforce
      have "\<exists>ls b lo. level_walk reader level M False (todo @ added) vis' (budget - 1) = Inr (ls, b, lo)"
      proof (rule 2(3) [OF False refl v [symmetric] refl])
        fix w x assume w: "w \<in> set (todo @ added)" and x: "(links_to reader level M)\<^sup>*\<^sup>* w x"
        show "\<exists>r. fetch_record reader x level M = Inr r"
        proof (cases "w \<in> set todo")
          case True
          then show ?thesis using 2(4) [OF _ x] by simp
        next
          case False
          then have "links_to reader level M n w" using w visit_new_spec [OF v] f Inr by (auto simp: links_to_def)
          then show ?thesis using 2(4) [of n x] x converse_rtranclp_into_rtranclp [of "links_to reader level M" n w x] by simp
        qed
      qed
      then show ?thesis using False f Inr v by (auto simp: Let_def)
    qed
  qed
qed simp

text \<open>
  C33: The list of a level is complete within its budget. As long as the pages that are reached can be parsed, the walk from the entry node ends with lines for different nodes, all of them
  reachable along outgoing links, and reads at most as many records as the budget allows. When the budget is at least the number of reachable nodes, every one
  of them has its line and none is truncated; otherwise the budget is used up and some node is reported as truncated.
\<close>

theorem graph_list_complete:
  assumes "\<And>x. (links_to reader level M)\<^sup>*\<^sup>* entry x \<Longrightarrow> \<exists>r. fetch_record reader x level M = Inr r"
  defines "R \<equiv> {x. (links_to reader level M)\<^sup>*\<^sup>* entry x}"
  shows "\<exists>ls b lower. level_walk reader level M True [entry] {entry} budget = Inr (ls, b, lower)
    \<and> print_level_list reader level M entry budget = Inr (concat (map render_line ls), b, lower)
    \<and> distinct (map line_ref ls) \<and> entry \<in> line_ref ` set ls \<and> line_ref ` set ls \<subseteq> R \<and> length (filter (\<lambda>l. \<not> is_Line_Truncated l) ls) + b = budget
    \<and> (if card R \<le> budget then line_ref ` set ls = R \<and> (\<forall>l\<in>set ls. \<not> is_Line_Truncated l) else b = 0 \<and> (\<exists>l\<in>set ls. is_Line_Truncated l))"
proof -
  have "\<exists>ls b lo. level_walk reader level M True [entry] {entry} budget = Inr (ls, b, lo)" using assms(1) by (intro walk_total) auto
  then obtain ls b lo where run: "level_walk reader level M True [entry] {entry} budget = Inr (ls, b, lo)" by blast
  have W: "list_walked reader level M {entry} {} budget ls b" using walk_delivers [OF run] by simp
  note w = W [unfolded list_walked_def]
  let ?refs = "line_ref ` set ls"
  have sub: "?refs \<subseteq> R" using w by (auto simp: R_def)
  have card: "card ?refs = length ls" using w by (metis distinct_card length_map set_map)
  have fin: "finite R" by simp
  have full: "?refs = R" if none: "\<forall>l\<in>set ls. \<not> is_Line_Truncated l"
  proof
    have "x \<in> ?refs" if "(links_to reader level M)\<^sup>*\<^sup>* entry x" for x
      using that
    proof (induction rule: rtranclp_induct)
      case base
      then show ?case using w by simp
    next
      case (step y z)
      then obtain l where "l \<in> set ls" "y = line_ref l" by blast
      then show ?case using w none step.hyps(2) by blast
    qed
    then show "R \<subseteq> ?refs" by (auto simp: R_def)
  qed (rule sub)
  have len: "length (filter (\<lambda>l. \<not> is_Line_Truncated l) ls) \<le> length ls" by simp
  have "if card R \<le> budget then ?refs = R \<and> (\<forall>l\<in>set ls. \<not> is_Line_Truncated l) else b = 0 \<and> (\<exists>l\<in>set ls. is_Line_Truncated l)"
  proof (cases "\<exists>l\<in>set ls. is_Line_Truncated l")
    case True
    then have "b = 0" using w by blast
    moreover obtain l where "l \<in> set ls" "is_Line_Truncated l" using True by blast
    then have "length (filter (\<lambda>l. \<not> is_Line_Truncated l) ls) < length ls" by (intro length_filter_less [of l]) simp_all
    moreover have "length ls \<le> card R" using card_mono [OF fin sub] card by simp
    ultimately show ?thesis using True w by auto
  next
    case False
    then have "filter (\<lambda>l. \<not> is_Line_Truncated l) ls = ls" by (simp add: filter_id_conv)
    then have "card R + b = budget" using w card full False by simp
    then show ?thesis using False full by auto
  qed
  then show ?thesis using run w sub by (auto simp: print_level_list_def)
qed

text \<open>
  A file of two pages, the second with two records of an index with \<open>M = 1\<close> that link to each other.
\<close>

definition demo_page :: "byte list" where
  "demo_page = (replicate 16384 0)[39 := 2, 55 := 2, 58 := 10, 74 := 1, 78 := 1, 122 := 1]"

definition demo_file :: page_reader where "demo_file = Some (replicate 16384 0 @ demo_page)"

lemma demo_read: "PageReader_read_page demo_file p = (if unat p = 0 then Inr (replicate 16384 0) else if unat p = 1 then Inr demo_page else Inl ''Incomplete page read'')"
proof -
  have l: "length demo_page = 16384" by (simp add: demo_page_def)
  consider "unat p = 0" | "unat p = 1" | "2 \<le> unat p" by linarith
  then show ?thesis by cases (simp_all add: PageReader_read_page_def demo_file_def DEFAULT_PAGE_SIZE_def l)
qed

lemma demo_bytes: "demo_page ! i = (if i = 39 then 2 else if i = 55 then 2 else if i = 58 then 10 else if i = 74 then 1 else if i = 78 then 1 else if i = 122 then 1 else 0)"
  if "i < 16384" using that by (simp add: demo_page_def nth_list_update)

lemma demo_at: "bytes_at demo_page off n = Inr (map (\<lambda>i. demo_page ! (off + i)) [0..<n])" if "off + n \<le> 16384"
  unfolding bytes_at_def by (rule tmap_all) (use that in \<open>simp add: byte_at_def demo_page_def\<close>)

lemma demo_parse: "\<exists>info r0 r1. DataPageParser_parse demo_page 36 Record_Neighbour False = Inr info \<and> di_records info = [r0, r1] \<and> \<not> rs_is_free r0 \<and> \<not> rs_is_free r1
    \<and> forward_links r0 = [(0x100000001, 0)] \<and> forward_links r1 = [(1, 0)]"
proof -
  have l: "length demo_page = 16384" by (simp add: demo_page_def)
  have u: "[0..<2] = [0, 1 :: nat]" "[0..<4] = [0, 1, 2, 3 :: nat]" "[0..<6] = [0, 1, 2, 3, 4, 5 :: nat]" "[0..<8] = [0, 1, 2, 3, 4, 5, 6, 7 :: nat]" by (simp_all add: upt_rec)
  show ?thesis
    by (simp add: DataPageParser_parse_def l read_uint8_def read_uint16_def read_uint32_def read_uint64_def read_id48_def layout_defs demo_at u demo_bytes byte_at_def HNSW_ID_SIZE_def Let_def
        parse_record_def get_record_bits_def decode_record_def hnsw_max_neighbours_def new_record_status_def DATA_PAGE_TYPE_def forward_links_def HNSW_NID_REF_MASK_def HNSW_NID_INCOMING_BIT_def)
qed

lemma demo_decode: "hnsw_decode_ref 1 = (1, 0)" "hnsw_decode_ref 0x100000001 = (1, 1)"
  by (simp_all add: hnsw_decode_ref_def SLOT_INDEX_MASK_def)

lemma demo_fetch:
  "\<exists>r. fetch_record demo_file x 0 1 = Inr r"
  "\<exists>rec. fetch_record demo_file 1 0 1 = Inr (Inr rec) \<and> forward_links rec = [(0x100000001, 0)]"
  "\<exists>rec. fetch_record demo_file 0x100000001 0 1 = Inr (Inr rec) \<and> forward_links rec = [(1, 0)]"
proof -
  have c: "hnsw_neighbour_column_size (level_max_neighbours 0 (Suc 0)) False = 36"
    by (simp add: hnsw_neighbour_column_size_def level_max_neighbours_def HNSW_ID_SIZE_def Let_def)
  obtain info r0 r1 where i: "DataPageParser_parse demo_page 36 Record_Neighbour False = Inr info" "di_records info = [r0, r1]" "\<not> rs_is_free r0" "\<not> rs_is_free r1"
    "forward_links r0 = [(0x100000001, 0)]" "forward_links r1 = [(1, 0)]" using demo_parse by blast
  have z: "\<exists>t. DataPageParser_parse (replicate 16384 0) 36 Record_Neighbour False = Inl (Tool_Message t)"
  proof -
    have "bytes_at (replicate 16384 0) off n = Inr (map (\<lambda>i. 0) [0..<n])" if "off + n \<le> 16384" for off n
      unfolding bytes_at_def by (rule tmap_all) (use that in \<open>simp add: byte_at_def\<close>)
    then show ?thesis
      by (simp add: DataPageParser_parse_def read_uint8_def read_uint16_def read_uint32_def layout_defs byte_at_def DATA_PAGE_TYPE_def)
  qed
  then obtain t where t: "DataPageParser_parse (replicate 16384 0) 36 Record_Neighbour False = Inl (Tool_Message t)" by blast
  show "\<exists>r. fetch_record demo_file x 0 1 = Inr r"
    by (cases "hnsw_decode_ref x") (auto simp: fetch_record_def demo_read c i t Let_def)
  show "\<exists>rec. fetch_record demo_file 1 0 1 = Inr (Inr rec) \<and> forward_links rec = [(0x100000001, 0)]"
    "\<exists>rec. fetch_record demo_file 0x100000001 0 1 = Inr (Inr rec) \<and> forward_links rec = [(1, 0)]"
    by (simp_all add: fetch_record_def demo_decode demo_read c i Let_def)
qed

theorem graph_list_complete_witness:
  "\<exists>ls b lower. level_walk demo_file 0 1 True [1] {1} 50 = Inr (ls, b, lower) \<and> distinct (map line_ref ls) \<and> line_ref ` set ls = {1, 0x100000001} \<and> b = 48"
proof -
  let ?R = "{x. (links_to demo_file 0 1)\<^sup>*\<^sup>* 1 x}"
  have l: "links_to demo_file 0 1 1 y \<longleftrightarrow> y = 0x100000001" "links_to demo_file 0 1 0x100000001 y \<longleftrightarrow> y = 1" for y
    using demo_fetch(2,3) by (auto simp: links_to_def)
  have "x \<in> {1, 0x100000001}" if "(links_to demo_file 0 1)\<^sup>*\<^sup>* 1 x" for x
    using that by (induction rule: rtranclp_induct) (auto simp: l [unfolded One_nat_def])
  moreover have "(links_to demo_file 0 1)\<^sup>*\<^sup>* 1 0x100000001" using l(1) by (intro r_into_rtranclp) blast
  ultimately have R: "?R = {1, 0x100000001}" by auto
  then have card: "card ?R = 2" by simp
  obtain ls b lo where w: "level_walk demo_file 0 1 True [1] {1} 50 = Inr (ls, b, lo)" "distinct (map line_ref ls)" "length (filter (\<lambda>l. \<not> is_Line_Truncated l) ls) + b = 50"
    "line_ref ` set ls = ?R" "\<forall>l\<in>set ls. \<not> is_Line_Truncated l"
    using graph_list_complete [where reader = demo_file and level = 0 and M = 1 and entry = 1 and budget = 50, OF demo_fetch(1)] unfolding card by auto
  have "length ls = card (line_ref ` set ls)" using distinct_card [OF w(2)] by simp
  then have "length ls = 2" unfolding w(4) card .
  moreover have "filter (\<lambda>l. \<not> is_Line_Truncated l) ls = ls" using w(5) by (simp add: filter_id_conv)
  ultimately have "b = 48" using w(3) by simp
  then show ?thesis using w(1,2,4) R by auto
qed

end
